(* ===== verification/Prelude.thy ===== *)
theory Prelude
  imports Main "HOL-Library.Word" "HOL-Library.Multiset"
begin

text \<open>
  Shared vocabulary of the development: machine words, the model of atomic
  accesses in the presence of other threads, and list lemmas used by several components.

  A component's state is one record.  An operation of one thread works on a
  \<^emph>\<open>world\<close>: the state together with the list of interferences of the other threads that
  are still to come.  Every atomic access of the C++ code (a \<open>load\<close>, a \<open>store\<close>, a
  \<open>fetch_add\<close>, a compare-and-swap) first lets one interference happen.  With an empty list
  the operation runs alone.  Accesses are sequentially consistent.
\<close>

unbundle bit_operations_syntax

named_theorems world_simps \<open>unfolding of the atomic accesses\<close>

type_synonym u64 = "64 word"
type_synonym u128 = "128 word"
type_synonym ptr = "64 word"

abbreviation nullptr :: "64 word" where "nullptr \<equiv> 0"
abbreviation UINT64_MAX :: "64 word" where "UINT64_MAX \<equiv> - 1"

section \<open>Atomic accesses under interference\<close>

type_synonym 's env = "('s \<Rightarrow> 's) list"
type_synonym 's world = "'s \<times> ('s \<Rightarrow> 's) list"

fun others :: "'s world \<Rightarrow> 's world" where
  "others (s, []) = (s, [])"
| "others (s, f # fs) = (f s, fs)"

definition load :: "('s \<Rightarrow> 'a) \<Rightarrow> 's world \<Rightarrow> 'a \<times> 's world" where
  "load f w = (let (s, e) = others w in (f s, (s, e)))"

definition store :: "('s \<Rightarrow> 's) \<Rightarrow> 's world \<Rightarrow> 's world" where
  "store f w = (let (s, e) = others w in (f s, e))"

definition rmw :: "('s \<Rightarrow> 'a \<times> 's) \<Rightarrow> 's world \<Rightarrow> 'a \<times> 's world" where
  "rmw f w = (let (s, e) = others w; (a, s') = f s in (a, (s', e)))"

text \<open>Compare-and-swap of a location given by its reader and its writer: the flag, the value
  left in \<open>expected\<close>, and the new state.\<close>

definition cas :: "('s \<Rightarrow> 'v) \<Rightarrow> ('v \<Rightarrow> 's \<Rightarrow> 's) \<Rightarrow> 'v \<Rightarrow> 'v \<Rightarrow> 's world
    \<Rightarrow> bool \<times> 'v \<times> 's world" where
  "cas get put expected desired w =
     (let (s, e) = others w in
      if get s = expected then (True, expected, (put desired s, e))
      else (False, get s, (s, e)))"

lemma load_alone [world_simps]: "load f (s, []) = (f s, (s, []))"
  by (simp add: load_def)

lemma store_alone [world_simps]: "store f (s, []) = (f s, [])"
  by (simp add: store_def)

lemma rmw_alone [world_simps]: "rmw f (s, []) = (fst (f s), (snd (f s), []))"
  by (simp add: rmw_def split: prod.splits)

lemma cas_alone [world_simps]:
  "cas get put expected desired (s, []) =
     (if get s = expected then (True, expected, (put desired s, []))
      else (False, get s, (s, [])))"
  by (simp add: cas_def)

lemma length_others [simp]: "length (snd (others w)) = length (snd w) - 1"
  by (cases w rule: others.cases) auto

lemma others_alone: "snd w = [] \<Longrightarrow> others w = w"
  by (cases w rule: others.cases) auto

lemma load_split: "load f w = (f (fst (others w)), others w)"
  by (simp add: load_def split: prod.splits)

lemma cas_split: "cas get put expected desired w =
   (if get (fst (others w)) = expected
    then (True, expected, (put desired (fst (others w)), snd (others w)))
    else (False, get (fst (others w)), others w))"
  by (cases "others w") (simp add: cas_def)

lemma load_env [simp]: "snd (snd (load f w)) = snd (others w)"
  and load_val: "fst (load f w) = f (fst (others w))"
  and load_state [simp]: "fst (snd (load f w)) = fst (others w)"
  by (simp_all add: load_def split: prod.splits)

lemma store_env [simp]: "snd (store f w) = snd (others w)"
  and store_state [simp]: "fst (store f w) = f (fst (others w))"
  by (simp_all add: store_def split: prod.splits)

text \<open>A property of the state that every interference keeps is kept by an interference
  step; \<open>rely\<close> says it of a whole environment.\<close>

definition rely :: "('s \<Rightarrow> 's \<Rightarrow> bool) \<Rightarrow> 's world \<Rightarrow> bool" where
  "rely R w \<longleftrightarrow> (\<forall>f \<in> set (snd w). \<forall>s. R s (f s))"

lemma rely_others: "rely R w \<Longrightarrow> rely R (others w)"
  by (cases w rule: others.cases) (auto simp: rely_def)

lemma rely_step: "rely R w \<Longrightarrow> reflp R \<Longrightarrow> R (fst w) (fst (others w))"
  by (cases w rule: others.cases) (auto simp: rely_def reflp_def)

lemma rely_load: "rely R w \<Longrightarrow> rely R (snd (load f w))"
  by (drule rely_others) (simp add: rely_def)

lemma rely_store: "rely R w \<Longrightarrow> rely R (store f w)"
  by (drule rely_others) (simp add: rely_def)

lemma rely_alone [simp]: "rely R (s, [])"
  by (simp add: rely_def)

text \<open>An access to data that only the running thread uses: no interference.\<close>

definition own :: "('s \<Rightarrow> 's) \<Rightarrow> 's world \<Rightarrow> 's world" where
  "own f w = (f (fst w), snd w)"

lemma own_alone [world_simps]: "own f (s, e) = (f s, e)"
  by (simp add: own_def)

lemma own_simps [simp]: "fst (own f w) = f (fst w)" "snd (own f w) = snd w"
  by (simp_all add: own_def)

text \<open>\<open>fetch_add(1)\<close>, its result unused.\<close>

definition bump :: "('s \<Rightarrow> 's) \<Rightarrow> 's world \<Rightarrow> 's world" where
  "bump f w = snd (rmw (\<lambda>s. ((), f s)) w)"

lemma bump_alone [world_simps]: "bump f (s, []) = (f s, [])"
  by (simp add: bump_def world_simps)

text \<open>An operation run alone.\<close>

abbreviation solo :: "('s world \<Rightarrow> 's world) \<Rightarrow> 's \<Rightarrow> 's" where
  "solo f s \<equiv> fst (f (s, []))"

text \<open>A predicate on states that no interference to come falsifies.\<close>

definition stable :: "('s \<Rightarrow> bool) \<Rightarrow> 's world \<Rightarrow> bool" where
  "stable I w \<longleftrightarrow> I (fst w) \<and> (\<forall>f \<in> set (snd w). \<forall>s. I s \<longrightarrow> I (f s))"

lemma stable_now: "stable I w \<Longrightarrow> I (fst w)"
  by (simp add: stable_def)

lemma stable_others: "stable I w \<Longrightarrow> stable I (others w)"
  by (cases w rule: others.cases) (auto simp: stable_def)

lemma stable_load: "stable I w \<Longrightarrow> stable I (snd (load f w))"
  by (drule stable_others) (simp add: stable_def)

lemma stable_store: "stable I w \<Longrightarrow> (\<And>s. I s \<Longrightarrow> I (f s)) \<Longrightarrow> stable I (store f w)"
  by (drule stable_others) (simp add: stable_def)

lemma stable_load_val: "stable I w \<Longrightarrow> \<exists>s. I s \<and> fst (load f w) = f s"
  using stable_now [OF stable_others, of I w] by (auto simp: load_val)

lemma stable_own: "stable I w \<Longrightarrow> (\<And>s. I s \<Longrightarrow> I (f s)) \<Longrightarrow> stable I (own f w)"
  by (simp add: stable_def)

text \<open>Copying shared locations into a local array, one load after the other.\<close>

fun snapshot :: "('l \<Rightarrow> 's \<Rightarrow> 'v) \<Rightarrow> 'l list \<Rightarrow> ('l \<Rightarrow> 'v) \<Rightarrow> 's world \<Rightarrow> ('l \<Rightarrow> 'v) \<times> 's world" where
  "snapshot rd [] local w = (local, w)"
| "snapshot rd (l # ls) local w = (let (v, w) = load (rd l) w in snapshot rd ls (local(l := v)) w)"

lemma snapshot_alone [world_simps]:
  "snapshot rd ls local (s, []) = ((\<lambda>l. if l \<in> set ls then rd l s else local l), (s, []))"
  by (induction ls arbitrary: local) (auto simp: world_simps fun_eq_iff)

lemma snapshot_world: "stable I w \<Longrightarrow> stable I (snd (snapshot rd ls local w))"
proof (induction ls arbitrary: local w)
  case (Cons l ls)
  then show ?case
    using Cons.IH [OF stable_load [OF Cons.prems, of "rd l"]] by (simp split: prod.splits) (metis snd_conv)
qed simp

lemma snapshot_other: "l \<notin> set ls \<Longrightarrow> fst (snapshot rd ls local w) l = local l"
  by (induction ls arbitrary: local w) (auto split: prod.splits)

text \<open>What a stable predicate says of each location holds of its copy, although the copies are
  taken at different times.\<close>

lemma snapshot_stable:
  "stable I w \<Longrightarrow> l \<in> set ls \<Longrightarrow> \<exists>s. I s \<and> fst (snapshot rd ls local w) l = rd l s"
proof (induction ls arbitrary: local w)
  case (Cons k ls)
  let ?v = "fst (load (rd k) w)" let ?w = "snd (load (rd k) w)"
  have eq: "fst (snapshot rd (k # ls) local w) = fst (snapshot rd ls (local(k := ?v)) ?w)"
    by (simp split: prod.splits)
  show ?case
  proof (cases "l \<in> set ls")
    case True
    then show ?thesis unfolding eq using Cons.IH [OF stable_load [OF Cons.prems(1)]] by blast
  next
    case False
    with Cons.prems have "l = k" by simp
    with False stable_load_val [OF Cons.prems(1), of "rd k"] show ?thesis
      unfolding eq by (simp add: snapshot_other)
  qed
qed simp

section \<open>Words\<close>

lemma word_less_max: "(x :: 64 word) < UINT64_MAX \<longleftrightarrow> x \<noteq> UINT64_MAX"
  using word_order.not_eq_extremum by blast

lemma word_max_le [simp]: "UINT64_MAX \<le> (x :: 64 word) \<longleftrightarrow> x = UINT64_MAX"
  using word_less_max [of x] by (auto simp: not_less [symmetric])

lemma unat_max: "unat (UINT64_MAX) = 2 ^ 64 - 1"
  by (simp add: unat_eq_nat_uint uint_word_ariths)

lemma unat_inc: "x \<noteq> UINT64_MAX \<Longrightarrow> unat (x + 1 :: 64 word) = Suc (unat x)"
  by (metis add.commute eq_neg_iff_add_eq_0 unatSuc)

lemma word_inc_le: "x \<noteq> UINT64_MAX \<Longrightarrow> x \<le> (x + 1 :: 64 word)"
  by (simp add: word_le_nat_alt unat_inc)

lemma of_nat_eq_small:
  "a < 2 ^ 64 \<Longrightarrow> b < 2 ^ 64 \<Longrightarrow> (of_nat a :: 64 word) = of_nat b \<longleftrightarrow> a = b"
  by (simp add: word_of_nat_eq_iff take_bit_nat_eq_self)

section \<open>Lists\<close>

lemma filter_all_neg: "(\<forall>x \<in> set xs. \<not> P x) \<Longrightarrow> filter P xs = []"
  by (simp add: filter_empty_conv)

lemma mset_filter_split:
  "mset (map f (filter P xs)) + mset (map f (filter (\<lambda>x. \<not> P x) xs)) = mset (map f xs)"
  by (induction xs) auto

lemma ball_upt: "(\<forall>i \<in> set [0..<n]. P i) \<longleftrightarrow> (\<forall>i<n. P i)"
  by auto

lemma bex_upt: "(\<exists>i \<in> set [0..<n]. P i) \<longleftrightarrow> (\<exists>i<n. P i)"
  by auto

lemma concat_map_disjoint:
  "distinct (concat (map f js)) \<Longrightarrow> i \<in> set js \<Longrightarrow> k \<in> set js \<Longrightarrow> i \<noteq> k \<Longrightarrow> set (f i) \<inter> set (f k) = {}"
  by (induction js) auto

lemma mset_concat_upd:
  assumes "t < n"
  shows "mset (concat (map (L(t := xs)) [0..<n])) + mset (L t) = mset (concat (map L [0..<n])) + mset xs"
proof -
  have parts: "[0..<n] = [0..<t] @ t # [Suc t..<n]"
    using assms by (metis le_add1 less_imp_le_nat upt_add_eq_append upt_conv_Cons add_0 le_add_diff_inverse)
  have "map (L(t := xs)) [0..<t] = map L [0..<t]" "map (L(t := xs)) [Suc t..<n] = map L [Suc t..<n]"
    by simp_all
  then show ?thesis by (simp add: parts del: upt_Suc)
qed

text \<open>The running minimum of a scan, as the trackers compute it.\<close>

definition min_scan :: "(nat \<Rightarrow> u64) \<Rightarrow> nat \<Rightarrow> u64" where
  "min_scan res n = foldl (\<lambda>m i. if res i < m then res i else m) UINT64_MAX [0..<n]"

lemma min_scan_0 [simp]: "min_scan res 0 = UINT64_MAX"
  by (simp add: min_scan_def)

lemma min_scan_Suc:
  "min_scan res (Suc n) = (if res n < min_scan res n then res n else min_scan res n)"
  by (simp add: min_scan_def)

lemma less_min_scan: "x < min_scan res n \<longleftrightarrow> x < UINT64_MAX \<and> (\<forall>i<n. x < res i)"
  by (induction n) (auto simp: min_scan_Suc less_Suc_eq)

lemma min_scan_le: "i < n \<Longrightarrow> min_scan res n \<le> res i"
  using less_min_scan [of "res i" res n] by (auto simp: not_less [symmetric])

section \<open>Linked lists in memory\<close>

text \<open>From \<open>p\<close> the links \<open>nx\<close> lead through exactly the nodes of the list, then to null.\<close>

fun chain :: "(ptr \<Rightarrow> ptr) \<Rightarrow> ptr \<Rightarrow> ptr list \<Rightarrow> bool" where
  "chain nx p [] = (p = nullptr)"
| "chain nx p (x # xs) = (p = x \<and> x \<noteq> nullptr \<and> chain nx (nx x) xs)"

lemma chain_cong: "\<forall>x \<in> set xs. nx' x = nx x \<Longrightarrow> chain nx' p xs = chain nx p xs"
  by (induction xs arbitrary: p) auto

lemma chain_null: "chain nx p xs \<Longrightarrow> p = nullptr \<longleftrightarrow> xs = []"
  by (cases xs) auto

lemma chain_mem: "chain nx p xs \<Longrightarrow> xs \<noteq> [] \<Longrightarrow> p \<in> set xs"
  by (cases xs) auto

lemma chain_drop: "chain nx p xs \<Longrightarrow> i < length xs \<Longrightarrow> chain nx (xs ! i) (drop i xs)"
proof (induction xs arbitrary: p i)
  case (Cons x xs)
  show ?case
  proof (cases i)
    case (Suc j)
    with Cons.prems Cons.IH [of "nx x" j] show ?thesis by simp
  next
    case 0
    with Cons.prems show ?thesis by simp
  qed
qed simp

lemma chain_nth:
  assumes "chain nx p xs" "Suc i < length xs"
  shows "nx (xs ! i) = xs ! Suc i"
proof -
  have "drop i xs = xs ! i # drop (Suc i) xs" "drop (Suc i) xs \<noteq> []"
    using assms(2) by (simp_all add: Cons_nth_drop_Suc)
  with chain_drop [OF assms(1), of i] assms(2)
  have "chain nx (nx (xs ! i)) (drop (Suc i) xs)" by simp
  with assms(2) show ?thesis
    by (metis Cons_nth_drop_Suc chain.simps(2))
qed

end
