(* ===== verification/Base_Tracker.thy ===== *)
theory Base_Tracker
  imports Prelude
begin

text \<open>
  \<open>trackers/BaseTracker.hpp\<close>: the base class of every memory tracker.  A subclass is a record
  that extends \<open>base\<close>.  \<open>cells\<close> is the memory of the \<open>std::atomic<T*>\<close> links of the data
  structure, \<open>reclaimed\<close> the objects given back to the allocator, in the order of the calls,
  \<open>fault\<close> records a failed \<open>assert\<close>.  The address a \<open>malloc\<close> returns is an argument
  (\<open>blk\<close>) of the operations that allocate.

  The theory also holds the sweep over a thread's list of retired objects, which all epoch and
  pointer based trackers share, and the contract of their \<open>empty\<close> as the locale
  \<open>reclaimer\<close>.
\<close>

record base =
  task_num :: nat
  count_retired :: bool
  retired_ctr :: u64
  cells :: "ptr \<Rightarrow> ptr"
  reclaimed :: "ptr list"
  fault :: bool

definition base_new :: "nat \<Rightarrow> bool \<Rightarrow> (ptr \<Rightarrow> ptr) \<Rightarrow> base" where
  "base_new n cnt mem = \<lparr>task_num = n, count_retired = cnt, retired_ctr = 0, cells = mem,
     reclaimed = [], fault = False\<rparr>"

definition base_get_retired_cnt :: "nat \<Rightarrow> 'a base_scheme \<Rightarrow> u64" where
  "base_get_retired_cnt tid s =
     (if count_retired s then retired_ctr s div of_nat (task_num s) else 0)"

definition inc_retired :: "nat \<Rightarrow> 'a base_scheme \<Rightarrow> 'a base_scheme" where
  "inc_retired tid s = (if count_retired s then s\<lparr>retired_ctr := retired_ctr s + 1\<rparr> else s)"

definition dec_retired :: "nat \<Rightarrow> 'a base_scheme \<Rightarrow> 'a base_scheme" where
  "dec_retired tid s = (if count_retired s then s\<lparr>retired_ctr := retired_ctr s - 1\<rparr> else s)"

definition base_alloc :: "nat \<Rightarrow> ptr \<Rightarrow> 'a base_scheme \<Rightarrow> ptr \<times> 'a base_scheme" where
  "base_alloc tid blk s = (blk, s)"

text \<open>\<open>assert(obj != NULL); obj->~T(); free(obj)\<close>\<close>

definition base_reclaim :: "ptr \<Rightarrow> 'a base_scheme \<Rightarrow> 'a base_scheme" where
  "base_reclaim obj s =
     (if obj = nullptr then s\<lparr>fault := True\<rparr> else s\<lparr>reclaimed := reclaimed s @ [obj]\<rparr>)"

text \<open>The override of \<open>reclaim\<close> in the trackers with a header behind the object
  (\<open>obj->~T(); free((char*) obj)\<close>), which does not assert.\<close>

definition plain_reclaim :: "ptr \<Rightarrow> 'a base_scheme \<Rightarrow> 'a base_scheme" where
  "plain_reclaim obj s = s\<lparr>reclaimed := reclaimed s @ [obj]\<rparr>"

definition base_start_op :: "nat \<Rightarrow> 'a base_scheme \<Rightarrow> 'a base_scheme" where
  "base_start_op tid s = s"

definition base_end_op :: "nat \<Rightarrow> 'a base_scheme \<Rightarrow> 'a base_scheme" where
  "base_end_op tid s = s"

definition base_last_end_op :: "nat \<Rightarrow> 'a base_scheme \<Rightarrow> 'a base_scheme" where
  "base_last_end_op tid s = s"

definition base_read :: "ptr \<Rightarrow> nat \<Rightarrow> nat \<Rightarrow> ptr \<Rightarrow> ('a base_scheme) world
    \<Rightarrow> ptr \<times> ('a base_scheme) world" where
  "base_read obj idx tid node w = load (\<lambda>s. cells s obj) w"

definition base_reserve_slot :: "ptr \<Rightarrow> nat \<Rightarrow> nat \<Rightarrow> ptr \<Rightarrow> 'a base_scheme \<Rightarrow> 'a base_scheme" where
  "base_reserve_slot obj idx tid node s = s"

definition base_release :: "nat \<Rightarrow> nat \<Rightarrow> 'a base_scheme \<Rightarrow> 'a base_scheme" where
  "base_release idx tid s = s"

definition base_clear_all :: "nat \<Rightarrow> 'a base_scheme \<Rightarrow> 'a base_scheme" where
  "base_clear_all tid s = s"

definition base_retire :: "ptr \<Rightarrow> nat \<Rightarrow> 'a base_scheme \<Rightarrow> 'a base_scheme" where
  "base_retire obj tid s = s"

section \<open>Sweeping a list of retired objects\<close>

text \<open>
  The loop at the end of every \<open>empty\<close>: walk the singly linked list from \<open>*field\<close>, unlink
  and reclaim an entry that may be deleted, step over one that may not.  The list is the HOL
  list of its entries.
\<close>

fun sweep :: "(ptr \<Rightarrow> 'a base_scheme \<Rightarrow> 'a base_scheme) \<Rightarrow> ('i \<Rightarrow> bool) \<Rightarrow> ('i \<Rightarrow> ptr) \<Rightarrow> nat
    \<Rightarrow> 'i list \<Rightarrow> 'a base_scheme \<Rightarrow> 'i list \<times> 'a base_scheme" where
  "sweep rc del obj tid [] s = ([], s)"
| "sweep rc del obj tid (cur # info) s =
     (if del cur then sweep rc del obj tid info (dec_retired tid (rc (obj cur) s))
      else (let (rest, s') = sweep rc del obj tid info s in (cur # rest, s')))"

lemma sweep_Cons: "sweep rc del obj tid (i # is) s =
   (if del i then sweep rc del obj tid is (dec_retired tid (rc (obj i) s))
    else (i # fst (sweep rc del obj tid is s), snd (sweep rc del obj tid is s)))"
  by (simp split: prod.splits)

lemma sweep_left: "fst (sweep rc del obj tid xs s) = filter (\<lambda>i. \<not> del i) xs"
  by (induction xs arbitrary: s) (simp_all add: sweep_Cons del: sweep.simps(2))

lemma sweep_field:
  "(\<And>p s. f (rc p s) = f s) \<Longrightarrow> (\<And>s. f (dec_retired tid s) = f s) \<Longrightarrow>
     f (snd (sweep rc del obj tid xs s)) = f s"
  by (induction xs arbitrary: s) (simp_all add: sweep_Cons del: sweep.simps(2))

lemma sweep_reclaimed:
  "(\<And>p s. reclaimed (rc p s) = reclaimed s @ [p]) \<Longrightarrow>
     reclaimed (snd (sweep rc del obj tid xs s)) = reclaimed s @ map obj (filter del xs)"
  by (induction xs arbitrary: s)
    (simp_all add: sweep_Cons dec_retired_def del: sweep.simps(2))

definition give_back :: "ptr list \<Rightarrow> 'a base_scheme \<Rightarrow> 'a base_scheme" where
  "give_back ps s = s\<lparr>reclaimed := reclaimed s @ ps,
     retired_ctr := (if count_retired s then retired_ctr s - of_nat (length ps) else retired_ctr s)\<rparr>"

lemma give_back_simps [simp]:
  "reclaimed (give_back ps s) = reclaimed s @ ps"
  "task_num (give_back ps s) = task_num s"
  "count_retired (give_back ps s) = count_retired s"
  "cells (give_back ps s) = cells s"
  "fault (give_back ps s) = fault s"
  "base.more (give_back ps s) = base.more s"
  by (simp_all add: give_back_def)

lemma give_back_Nil [simp]: "give_back [] s = s"
  by (simp add: give_back_def)

lemma give_back_Cons: "give_back ps (dec_retired tid (plain_reclaim p s)) = give_back (p # ps) s"
  by (simp add: give_back_def dec_retired_def plain_reclaim_def algebra_simps)

lemma sweep_plain:
  "sweep plain_reclaim del obj tid xs s =
     (filter (\<lambda>i. \<not> del i) xs, give_back (map obj (filter del xs)) s)"
  by (induction xs arbitrary: s) (auto simp: give_back_Cons)

lemma base_reclaim_nonnull: "p \<noteq> nullptr \<Longrightarrow> base_reclaim p s = plain_reclaim p s"
  by (simp add: base_reclaim_def plain_reclaim_def)

lemma sweep_base:
  "nullptr \<notin> obj ` set xs \<Longrightarrow> sweep base_reclaim del obj tid xs s =
     (filter (\<lambda>i. \<not> del i) xs, give_back (map obj (filter del xs)) s)"
  by (induction xs arbitrary: s) (auto simp: give_back_Cons base_reclaim_nonnull)

section \<open>Reading under a published epoch\<close>

text \<open>
  The read of the epoch based trackers: load the link, load the epoch, and return the link if
  the epoch is the one published; otherwise publish the new epoch and try again.  The loop is
  not bounded, so the model takes fuel; \<open>None\<close> is "still looping".
\<close>

fun validate_loop :: "('s \<Rightarrow> 'v) \<Rightarrow> ('s \<Rightarrow> u64) \<Rightarrow> (u64 \<Rightarrow> 's \<Rightarrow> 's) \<Rightarrow> nat \<Rightarrow> u64
    \<Rightarrow> 's world \<Rightarrow> ('v \<times> 's world) option" where
  "validate_loop ld ep pub 0 prev_epoch w = None"
| "validate_loop ld ep pub (Suc fuel) prev_epoch w =
     (let (p, w) = load ld w;
          (curr_epoch, w) = load ep w
      in if curr_epoch = prev_epoch then Some (p, w)
         else validate_loop ld ep pub fuel curr_epoch (store (pub curr_epoch) w))"

fun reserve_loop :: "('s \<Rightarrow> u64) \<Rightarrow> (u64 \<Rightarrow> 's \<Rightarrow> 's) \<Rightarrow> nat \<Rightarrow> u64 \<Rightarrow> 's world
    \<Rightarrow> 's world option" where
  "reserve_loop ep pub 0 prev_epoch w = None"
| "reserve_loop ep pub (Suc fuel) prev_epoch w =
     (let (curr_epoch, w) = load ep w
      in if curr_epoch = prev_epoch then Some w
         else reserve_loop ep pub fuel curr_epoch (store (pub curr_epoch) w))"

text \<open>Once the others stop changing the epoch the loop returns: fuel beyond the number of
  interferences is enough.\<close>

lemma validate_loop_alone:
  assumes "\<And>e s. ep (pub e s) = ep s" and "2 \<le> fuel"
  shows "validate_loop ld ep pub fuel prev (s, []) =
     (if ep s = prev then Some (ld s, (s, [])) else Some (ld (pub (ep s) s), (pub (ep s) s, [])))"
proof -
  obtain k where "fuel = Suc (Suc k)" using assms(2) by (metis Suc_le_D numeral_2_eq_2 Suc_le_mono)
  then show ?thesis by (simp add: world_simps assms(1))
qed

lemma reserve_loop_alone:
  assumes "\<And>e s. ep (pub e s) = ep s" and "2 \<le> fuel"
  shows "reserve_loop ep pub fuel prev (s, []) =
     (if ep s = prev then Some (s, []) else Some (pub (ep s) s, []))"
proof -
  obtain k where "fuel = Suc (Suc k)" using assms(2) by (metis Suc_le_D numeral_2_eq_2 Suc_le_mono)
  then show ?thesis by (simp add: world_simps assms(1))
qed

lemma validate_loop_returns:
  assumes "\<And>e s. ep (pub e s) = ep s"
  shows "length (snd w) + 2 \<le> fuel \<Longrightarrow> \<exists>r. validate_loop ld ep pub fuel prev w = Some r"
proof (induction fuel arbitrary: prev w)
  case 0
  then show ?case by simp
next
  case (Suc fuel)
  show ?case
  proof (cases "snd w = []")
    case True
    then obtain s where "w = (s, [])" by (cases w) auto
    have "2 \<le> Suc fuel" using Suc.prems by simp
    then show ?thesis
      using validate_loop_alone [of ep pub "Suc fuel" ld prev s] assms \<open>w = (s, [])\<close>
      by (auto simp del: validate_loop.simps)
  next
    case False
    have *: "length (snd (store g (snd (load ep (snd (load ld w)))))) + 2 \<le> fuel" for g
      using Suc.prems False by (cases "snd w") auto
    show ?thesis
      using Suc.IH [OF *] by (auto simp: Let_def split: prod.splits)
  qed
qed

lemma validate_loop_sound:
  assumes "validate_loop ld ep pub fuel prev w = Some (p, w')"
    and "mine (fst w) = prev" and "\<And>e s. mine (pub e s) = e"
    and "rely (\<lambda>s s'. mine s' = mine s) w"
  shows "mine (fst w') = ep (fst w')"
  using assms
proof (induction fuel arbitrary: prev w)
  case 0
  then show ?case by simp
next
  case (Suc fuel)
  have refl: "reflp (\<lambda>s s'. mine s' = mine s)" by (simp add: reflp_def)
  let ?w1 = "snd (load ld w)" let ?w2 = "snd (load ep ?w1)"
  let ?e = "fst (load ep ?w1)"
  have rely1: "rely (\<lambda>s s'. mine s' = mine s) ?w1" and rely2: "rely (\<lambda>s s'. mine s' = mine s) ?w2"
    by (intro rely_load Suc.prems)+
  have m1: "mine (fst ?w1) = mine (fst w)"
    using rely_step [OF Suc.prems(4) refl] by simp
  have m2: "mine (fst ?w2) = mine (fst w)"
    using rely_step [OF rely1 refl] m1 by simp
  have e: "?e = ep (fst ?w2)" by (simp add: load_val)
  show ?case
  proof (cases "?e = prev")
    case True
    with Suc.prems have "w' = ?w2" by (auto simp: Let_def split: prod.splits)
    with True e m2 Suc.prems(2) show ?thesis by simp
  next
    case False
    have loop: "validate_loop ld ep pub fuel ?e (store (pub ?e) ?w2) = Some (p, w')"
      using Suc.prems(1) False by (auto simp: Let_def split: prod.splits)
    show ?thesis
      by (rule Suc.IH [OF loop _ Suc.prems(3) rely_store [OF rely2]]) (simp add: Suc.prems(3))
  qed
qed

section \<open>The contract of \<open>empty\<close>\<close>

text \<open>
  What a tracker's \<open>empty\<close> promises to its \<open>retire\<close>: under the tracker's invariant, the entries
  of the calling thread's list that no reservation protects are reclaimed, each once and in list
  order; the protected ones stay, in order; the lists of the other threads, the reservations
  (hence what is protected) and the invariant are kept.
\<close>

locale reclaimer =
  fixes inv :: "'s \<Rightarrow> bool"
    and limbo :: "'s \<Rightarrow> nat \<Rightarrow> 'i list"
    and obj :: "'i \<Rightarrow> ptr"
    and freed :: "'s \<Rightarrow> ptr list"
    and protected :: "'s \<Rightarrow> 'i \<Rightarrow> bool"
    and empty :: "nat \<Rightarrow> 's \<Rightarrow> 's"
  assumes limbo_empty: "inv s \<Longrightarrow>
        limbo (empty tid s) = (limbo s)(tid := filter (protected s) (limbo s tid))"
    and freed_empty: "inv s \<Longrightarrow>
        freed (empty tid s) = freed s @ map obj (filter (\<lambda>i. \<not> protected s i) (limbo s tid))"
    and protected_empty: "inv s \<Longrightarrow> protected (empty tid s) = protected s"
    and inv_empty: "inv s \<Longrightarrow> inv (empty tid s)"
begin

lemma conservation:
  "inv s \<Longrightarrow> mset (map obj (limbo (empty tid s) tid)) + mset (freed (empty tid s))
     = mset (map obj (limbo s tid)) + mset (freed s)"
  using mset_filter_split [of obj "protected s" "limbo s tid"]
  by (simp add: limbo_empty freed_empty)

lemma protected_stays:
  "inv s \<Longrightarrow> i \<in> set (limbo s tid) \<Longrightarrow> protected s i \<Longrightarrow> i \<in> set (limbo (empty tid s) tid)"
  by (simp add: limbo_empty)

lemma unprotected_goes:
  "inv s \<Longrightarrow> i \<in> set (limbo s tid) \<Longrightarrow> \<not> protected s i \<Longrightarrow> obj i \<in> set (freed (empty tid s))"
  by (auto simp: freed_empty)

lemma only_unprotected:
  "inv s \<Longrightarrow> p \<in> set (drop (length (freed s)) (freed (empty tid s))) \<Longrightarrow>
     \<exists>i \<in> set (limbo s tid). obj i = p \<and> \<not> protected s i"
  by (auto simp: freed_empty)

lemma all_protected: "inv s \<Longrightarrow> \<forall>i \<in> set (limbo (empty tid s) tid). protected (empty tid s) i"
  by (simp add: limbo_empty protected_empty)

lemma empty_again: "inv s \<Longrightarrow> freed (empty tid (empty tid s)) = freed (empty tid s)"
  by (simp add: freed_empty [OF inv_empty] protected_empty limbo_empty filter_all_neg)

end

text \<open>
  The grace period.  A run of operations \<open>step\<close> during which the reservation of one thread
  stands: every relevant entry that enters a list during the run is covered by the reservation,
  a covered entry stays covered, and no covered entry is freed.  Then a relevant entry the run
  frees had been retired before it.  \<open>relevant\<close> picks the objects the reservation is about
  (those that existed when it was made).
\<close>

locale grace =
  fixes ok :: "'s \<Rightarrow> bool"
    and limbo :: "'s \<Rightarrow> nat \<Rightarrow> 'i list"
    and obj :: "'i \<Rightarrow> ptr"
    and freed :: "'s \<Rightarrow> ptr list"
    and covered :: "'s \<Rightarrow> 'i \<Rightarrow> bool"
    and relevant :: "'i \<Rightarrow> bool"
    and allowed :: "'s \<Rightarrow> 'e \<Rightarrow> bool"
    and step :: "'s \<Rightarrow> 'e \<Rightarrow> 's"
  assumes ok_step: "ok s \<Longrightarrow> allowed s e \<Longrightarrow> ok (step s e)"
    and covered_step: "ok s \<Longrightarrow> allowed s e \<Longrightarrow> covered s i \<Longrightarrow> covered (step s e) i"
    and limbo_step: "ok s \<Longrightarrow> allowed s e \<Longrightarrow> i \<in> set (limbo (step s e) t) \<Longrightarrow> relevant i \<Longrightarrow>
        i \<in> set (limbo s t) \<or> covered (step s e) i"
    and freed_step: "ok s \<Longrightarrow> allowed s e \<Longrightarrow>
        \<exists>is. freed (step s e) = freed s @ map obj is \<and> (\<forall>i \<in> set is.
            \<not> covered (step s e) i \<and> (relevant i \<longrightarrow> (\<exists>t. i \<in> set (limbo s t))))"
begin

fun all_allowed :: "'s \<Rightarrow> 'e list \<Rightarrow> bool" where
  "all_allowed s [] = True"
| "all_allowed s (e # es) = (allowed s e \<and> all_allowed (step s e) es)"

lemma ok_run: "ok s \<Longrightarrow> all_allowed s es \<Longrightarrow> ok (foldl step s es)"
  by (induction es arbitrary: s) (auto simp: ok_step)

lemma covered_run:
  "ok s \<Longrightarrow> all_allowed s es \<Longrightarrow> covered s i \<Longrightarrow> covered (foldl step s es) i"
  by (induction es arbitrary: s) (auto simp: ok_step covered_step)

lemma all_allowed_snoc:
  "all_allowed s (es @ [e]) \<longleftrightarrow> all_allowed s es \<and> allowed (foldl step s es) e"
  by (induction es arbitrary: s) auto

lemma grace_limbo:
  "ok s \<Longrightarrow> all_allowed s es \<Longrightarrow> i \<in> set (limbo (foldl step s es) t) \<Longrightarrow> relevant i \<Longrightarrow>
     i \<in> set (limbo s t) \<or> covered (foldl step s es) i"
proof (induction es rule: rev_induct)
  case Nil
  then show ?case by simp
next
  case (snoc e es)
  then have al: "all_allowed s es" "allowed (foldl step s es) e"
    by (auto simp: all_allowed_snoc)
  note ok = ok_run [OF snoc.prems(1) al(1)]
  from limbo_step [OF ok al(2)] snoc.prems
  consider "i \<in> set (limbo (foldl step s es) t)" | "covered (foldl step s (es @ [e])) i" by auto
  then show ?case
    using snoc.IH [OF snoc.prems(1) al(1) _ snoc.prems(4)] covered_step [OF ok al(2), of i]
    by cases auto
qed

lemma grace_freed:
  "ok s \<Longrightarrow> all_allowed s es \<Longrightarrow>
     \<exists>is. freed (foldl step s es) = freed s @ map obj is \<and>
          (\<forall>i \<in> set is. \<not> covered s i \<and> (relevant i \<longrightarrow> (\<exists>t. i \<in> set (limbo s t))))"
proof (induction es rule: rev_induct)
  case Nil
  show ?case by (rule exI [of _ "[]"]) simp
next
  case (snoc e es)
  then have al: "all_allowed s es" "allowed (foldl step s es) e"
    by (auto simp: all_allowed_snoc)
  note ok = ok_run [OF snoc.prems(1) al(1)]
  from snoc.IH [OF snoc.prems(1) al(1)] obtain js where
    js: "freed (foldl step s es) = freed s @ map obj js"
        "\<forall>i \<in> set js. \<not> covered s i \<and> (relevant i \<longrightarrow> (\<exists>t. i \<in> set (limbo s t)))" by blast
  from freed_step [OF ok al(2)] obtain ks where
    ks: "freed (foldl step s (es @ [e])) = freed (foldl step s es) @ map obj ks"
        "\<forall>i \<in> set ks. \<not> covered (step (foldl step s es) e) i
           \<and> (relevant i \<longrightarrow> (\<exists>t. i \<in> set (limbo (foldl step s es) t)))" by auto
  have "\<not> covered s i \<and> (relevant i \<longrightarrow> (\<exists>t. i \<in> set (limbo s t)))" if i: "i \<in> set ks" for i
  proof
    have nc: "\<not> covered (foldl step s es) i"
      using ks(2) i covered_step [OF ok al(2)] by blast
    then show "\<not> covered s i"
      using covered_run [OF snoc.prems(1) al(1)] by blast
    show "relevant i \<longrightarrow> (\<exists>t. i \<in> set (limbo s t))"
      using ks(2) i nc grace_limbo [OF snoc.prems(1) al(1), of i] by blast
  qed
  with js ks show ?case by (intro exI [of _ "js @ ks"]) auto
qed

end

end
