(* ===== verification/Rcu.thy ===== *)
theory Rcu
  imports Base_Tracker
begin

text \<open>
  \<open>trackers/RCUTracker.hpp\<close>: epoch based reclamation, in its RCU and its QSBR form.  One
  definition per member function; the list \<open>retired[tid]\<close>, linked through \<open>info->next\<close>, is
  the list of its entries.  The theory ends with the sequences of operations of all threads
  (\<open>rcu_event\<close>, \<open>rcu_step\<close>) and the grace period they guarantee.
\<close>

datatype RCUType = type_RCU | type_QSBR

record rcu_info =
  rcu_obj :: ptr
  rcu_info_epoch :: u64

record rcu = base +
  rcu_freq :: nat
  rcu_epochFreq :: nat
  rcu_collect :: bool
  rcu_type :: RCUType
  rcu_reservations :: "nat \<Rightarrow> u64"
  rcu_retire_counters :: "nat \<Rightarrow> u64"
  rcu_alloc_counters :: "nat \<Rightarrow> u64"
  rcu_retired :: "nat \<Rightarrow> rcu_info list"
  rcu_epoch :: u64

definition rcu_new :: "nat \<Rightarrow> nat \<Rightarrow> nat \<Rightarrow> RCUType \<Rightarrow> bool \<Rightarrow> bool \<Rightarrow> (ptr \<Rightarrow> ptr) \<Rightarrow> rcu" where
  "rcu_new n epochFreq emptyFreq ty collect cnt mem =
     base.extend (base_new n cnt mem)
       \<lparr>rcu_freq = emptyFreq, rcu_epochFreq = epochFreq, rcu_collect = collect, rcu_type = ty,
        rcu_reservations = (\<lambda>_. UINT64_MAX), rcu_retire_counters = (\<lambda>_. 0),
        rcu_alloc_counters = (\<lambda>_. 0), rcu_retired = (\<lambda>_. []), rcu_epoch = 0\<rparr>"

definition rcu_incrementEpoch :: "rcu \<Rightarrow> rcu" where
  "rcu_incrementEpoch s = s\<lparr>rcu_epoch := rcu_epoch s + 1\<rparr>"

definition rcu_alloc :: "nat \<Rightarrow> ptr \<Rightarrow> rcu world \<Rightarrow> ptr \<times> rcu world" where
  "rcu_alloc tid blk w =
     (let w = own (\<lambda>s. s\<lparr>rcu_alloc_counters :=
                (rcu_alloc_counters s)(tid := rcu_alloc_counters s tid + 1)\<rparr>) w;
          s = fst w
      in (blk, if rcu_alloc_counters s tid mod of_nat (rcu_epochFreq s * task_num s) = 0
               then bump rcu_incrementEpoch w else w))"

definition rcu_set_reservation :: "nat \<Rightarrow> u64 \<Rightarrow> rcu \<Rightarrow> rcu" where
  "rcu_set_reservation tid e s = s\<lparr>rcu_reservations := (rcu_reservations s)(tid := e)\<rparr>"

definition rcu_start_op :: "nat \<Rightarrow> rcu world \<Rightarrow> rcu world" where
  "rcu_start_op tid w =
     (if rcu_type (fst w) = type_RCU
      then let (e, w) = load rcu_epoch w in store (rcu_set_reservation tid e) w
      else w)"

definition rcu_end_op :: "nat \<Rightarrow> rcu world \<Rightarrow> rcu world" where
  "rcu_end_op tid w =
     (if rcu_type (fst w) = type_RCU
      then store (rcu_set_reservation tid UINT64_MAX) w
      else let (e, w) = load rcu_epoch w in store (rcu_set_reservation tid e) w)"

definition rcu_reserve :: "nat \<Rightarrow> rcu world \<Rightarrow> rcu world" where
  "rcu_reserve tid w = rcu_start_op tid w"

definition rcu_clear :: "nat \<Rightarrow> rcu world \<Rightarrow> rcu world" where
  "rcu_clear tid w = rcu_end_op tid w"

text \<open>\<open>empty\<close>: the scan for the smallest reservation, then the sweep of the caller's list.\<close>

fun rcu_min_epoch :: "nat list \<Rightarrow> u64 \<Rightarrow> rcu world \<Rightarrow> u64 \<times> rcu world" where
  "rcu_min_epoch [] minEpoch w = (minEpoch, w)"
| "rcu_min_epoch (i # js) minEpoch w =
     (let (res, w) = load (\<lambda>s. rcu_reservations s i) w
      in rcu_min_epoch js (if res < minEpoch then res else minEpoch) w)"

definition rcu_sweep :: "nat \<Rightarrow> u64 \<Rightarrow> rcu \<Rightarrow> rcu" where
  "rcu_sweep tid minEpoch s =
     (let (left, s) = sweep base_reclaim (\<lambda>i. rcu_info_epoch i < minEpoch) rcu_obj tid
                        (rcu_retired s tid) s
      in s\<lparr>rcu_retired := (rcu_retired s)(tid := left)\<rparr>)"

definition rcu_empty :: "nat \<Rightarrow> rcu world \<Rightarrow> rcu world" where
  "rcu_empty tid w =
     (let (minEpoch, w) = rcu_min_epoch [0..<task_num (fst w)] UINT64_MAX w
      in own (rcu_sweep tid minEpoch) w)"

definition rcu_push :: "ptr \<Rightarrow> u64 \<Rightarrow> nat \<Rightarrow> rcu \<Rightarrow> rcu" where
  "rcu_push obj e tid s = s\<lparr>rcu_retired := (rcu_retired s)(tid :=
      \<lparr>rcu_obj = obj, rcu_info_epoch = e\<rparr> # rcu_retired s tid)\<rparr>"

definition rcu_due :: "nat \<Rightarrow> rcu \<Rightarrow> bool" where
  "rcu_due tid s \<longleftrightarrow> rcu_collect s \<and> rcu_retire_counters s tid mod of_nat (rcu_freq s) = 0"

definition rcu_tick :: "nat \<Rightarrow> rcu \<Rightarrow> rcu" where
  "rcu_tick tid s =
     s\<lparr>rcu_retire_counters := (rcu_retire_counters s)(tid := rcu_retire_counters s tid + 1)\<rparr>"

definition rcu_retire :: "ptr \<Rightarrow> nat \<Rightarrow> rcu world \<Rightarrow> rcu world" where
  "rcu_retire obj tid w =
     (if obj = nullptr then w
      else let (e, w) = load rcu_epoch w;
               w = own (rcu_push obj e tid) w;
               w = (if rcu_due tid (fst w) then rcu_empty tid w else w)
           in own (rcu_tick tid) w)"

section \<open>What \<open>empty\<close> keeps and frees\<close>

definition rcu_inv :: "rcu \<Rightarrow> bool" where
  "rcu_inv s \<longleftrightarrow> (\<forall>t. \<forall>i \<in> set (rcu_retired s t). rcu_obj i \<noteq> nullptr)"

definition rcu_protected :: "rcu \<Rightarrow> rcu_info \<Rightarrow> bool" where
  "rcu_protected s i \<longleftrightarrow>
     rcu_info_epoch i = UINT64_MAX \<or> (\<exists>t < task_num s. rcu_reservations s t \<le> rcu_info_epoch i)"

lemma not_less_min_scan:
  "\<not> e < min_scan res n \<longleftrightarrow> e = UINT64_MAX \<or> (\<exists>t<n. res t \<le> e)"
  by (simp only: less_min_scan word_less_max de_Morgan_conj not_all not_imp not_less not_not)

lemma rcu_min_epoch_alone [world_simps]:
  "rcu_min_epoch js m (s, []) =
     (foldl (\<lambda>m i. if rcu_reservations s i < m then rcu_reservations s i else m) m js, (s, []))"
  by (induction js arbitrary: m) (auto simp: world_simps)

lemma rcu_empty_eq:
  assumes "rcu_inv s"
  shows "rcu_empty tid (s, []) =
     (give_back (map rcu_obj (filter (\<lambda>i. \<not> rcu_protected s i) (rcu_retired s tid))) s
       \<lparr>rcu_retired := (rcu_retired s)(tid := filter (rcu_protected s) (rcu_retired s tid))\<rparr>, [])"
proof -
  have "nullptr \<notin> rcu_obj ` set (rcu_retired s tid)"
    using assms by (auto simp: rcu_inv_def)
  then show ?thesis
    by (simp add: rcu_empty_def world_simps rcu_sweep_def sweep_base rcu_protected_def [abs_def]
        not_less_min_scan [symmetric] min_scan_def give_back_def)
qed

interpretation rcu: reclaimer rcu_inv rcu_retired rcu_obj reclaimed rcu_protected
    "\<lambda>tid. solo (rcu_empty tid)"
proof
  fix s tid
  assume inv: "rcu_inv s"
  show "rcu_retired (solo (rcu_empty tid) s)
      = (rcu_retired s)(tid := filter (rcu_protected s) (rcu_retired s tid))"
    and "reclaimed (solo (rcu_empty tid) s)
      = reclaimed s @ map rcu_obj (filter (\<lambda>i. \<not> rcu_protected s i) (rcu_retired s tid))"
    and "rcu_protected (solo (rcu_empty tid) s) = rcu_protected s"
    by (simp_all add: rcu_empty_eq [OF inv] give_back_def rcu_protected_def [abs_def])
  show "rcu_inv (solo (rcu_empty tid) s)"
    using inv by (auto simp: rcu_empty_eq [OF inv] rcu_inv_def give_back_def)
qed

lemma rcu_empty_simps [simp]:
  "task_num (solo (rcu_empty tid) s) = task_num s"
  "rcu_type (solo (rcu_empty tid) s) = rcu_type s"
  "rcu_freq (solo (rcu_empty tid) s) = rcu_freq s"
  "rcu_epoch (solo (rcu_empty tid) s) = rcu_epoch s"
  "rcu_reservations (solo (rcu_empty tid) s) = rcu_reservations s"
  "rcu_retire_counters (solo (rcu_empty tid) s) = rcu_retire_counters s"
  if "rcu_inv s"
  using that by (simp_all add: rcu_empty_eq give_back_def)

lemma rcu_due_push: "rcu_due tid (rcu_push obj e tid' s) = rcu_due tid s"
  by (simp add: rcu_due_def rcu_push_def)

lemma rcu_retire_eq:
  "solo (rcu_retire obj tid) s = (if obj = nullptr then s
     else rcu_tick tid (if rcu_due tid s then solo (rcu_empty tid) (rcu_push obj (rcu_epoch s) tid s)
                        else rcu_push obj (rcu_epoch s) tid s))"
  by (simp add: rcu_retire_def world_simps Let_def rcu_due_push)

lemma rcu_push_inv: "rcu_inv s \<Longrightarrow> obj \<noteq> nullptr \<Longrightarrow> rcu_inv (rcu_push obj (rcu_epoch s) tid s)"
  by (auto simp: rcu_inv_def rcu_push_def)

section \<open>\<open>empty\<close> under interference\<close>

lemma rcu_min_epoch_le: "fst (rcu_min_epoch js m w) \<le> m"
proof (induction js arbitrary: m w)
  case (Cons i js)
  obtain r w' where l: "load (\<lambda>s. rcu_reservations s i) w = (r, w')" by (metis surj_pair)
  show ?case
    using Cons.IH [of "if r < m then r else m" w'] l by (auto split: if_splits)
qed simp

lemma rcu_min_epoch_stable:
  "stable I w \<Longrightarrow> (\<And>s. I s \<Longrightarrow> rcu_reservations s t \<le> e) \<Longrightarrow> t \<in> set js \<Longrightarrow>
     fst (rcu_min_epoch js m w) \<le> e \<and> stable I (snd (rcu_min_epoch js m w))"
  and rcu_min_epoch_world: "stable I w \<Longrightarrow> stable I (snd (rcu_min_epoch js m w))"
proof -
  show st: "stable I (snd (rcu_min_epoch js m w))" if "stable I w" for js m w
    using that
  proof (induction js arbitrary: m w)
    case (Cons i js)
    obtain r w' where l: "load (\<lambda>s. rcu_reservations s i) w = (r, w')" by (metis surj_pair)
    with stable_load [OF Cons.prems] have "stable I w'" by (metis snd_conv)
    with Cons.IH l show ?case by simp
  qed simp
  show "stable I w \<Longrightarrow> (\<And>s. I s \<Longrightarrow> rcu_reservations s t \<le> e) \<Longrightarrow> t \<in> set js \<Longrightarrow>
     fst (rcu_min_epoch js m w) \<le> e \<and> stable I (snd (rcu_min_epoch js m w))"
  proof (induction js arbitrary: m w)
    case (Cons i js)
    obtain r w' where l: "load (\<lambda>s. rcu_reservations s i) w = (r, w')" by (metis surj_pair)
    with stable_load [OF Cons.prems(1)] have w': "stable I w'" by (metis snd_conv)
    show ?case
    proof (cases "t \<in> set js")
      case True
      then show ?thesis using Cons.IH [OF w' Cons.prems(2)] l by simp
    next
      case False
      with Cons.prems(3) have "i = t" by simp
      with stable_load_val [OF Cons.prems(1)] Cons.prems(2) l have "r \<le> e" by (metis fst_conv)
      then have "(if r < m then r else m) \<le> e" by auto
      with rcu_min_epoch_le [of js "if r < m then r else m" w'] st [OF w'] l show ?thesis
        by (auto intro: order_trans)
    qed
  qed simp
qed

section \<open>Sequences of operations and the grace period\<close>

datatype rcu_event =
    RAlloc nat ptr
  | RStart nat
  | REnd nat
  | RRetire ptr nat
  | RInc

fun rcu_step :: "rcu \<Rightarrow> rcu_event \<Rightarrow> rcu" where
  "rcu_step s (RAlloc tid blk) = fst (snd (rcu_alloc tid blk (s, [])))"
| "rcu_step s (RStart tid) = solo (rcu_start_op tid) s"
| "rcu_step s (REnd tid) = solo (rcu_end_op tid) s"
| "rcu_step s (RRetire obj tid) = solo (rcu_retire obj tid) s"
| "rcu_step s RInc = rcu_incrementEpoch s"

text \<open>
  Thread \<open>t\<close> is inside an operation: its reservation is at most the epoch.  During the run
  \<open>t\<close> neither starts nor ends an operation, and the 64-bit epoch does not wrap.
\<close>

definition rcu_inside :: "nat \<Rightarrow> rcu \<Rightarrow> bool" where
  "rcu_inside t s \<longleftrightarrow> rcu_inv s \<and> t < task_num s \<and> rcu_reservations s t \<le> rcu_epoch s"

definition rcu_covered :: "nat \<Rightarrow> rcu \<Rightarrow> rcu_info \<Rightarrow> bool" where
  "rcu_covered t s i \<longleftrightarrow> rcu_reservations s t \<le> rcu_info_epoch i"

definition rcu_allowed :: "nat \<Rightarrow> rcu \<Rightarrow> rcu_event \<Rightarrow> bool" where
  "rcu_allowed t s e \<longleftrightarrow> e \<noteq> RStart t \<and> e \<noteq> REnd t \<and> rcu_epoch s \<noteq> UINT64_MAX"

lemmas rcu_op_defs = rcu_alloc_def rcu_start_op_def rcu_end_op_def rcu_incrementEpoch_def
  rcu_set_reservation_def world_simps

lemma rcu_retire_fields:
  assumes "rcu_inv s"
  shows "task_num (solo (rcu_retire obj tid) s) = task_num s"
    and "rcu_epoch (solo (rcu_retire obj tid) s) = rcu_epoch s"
    and "rcu_reservations (solo (rcu_retire obj tid) s) = rcu_reservations s"
    and "rcu_inv (solo (rcu_retire obj tid) s)"
proof -
  have inv: "obj \<noteq> nullptr \<Longrightarrow> rcu_inv (solo (rcu_empty tid) (rcu_push obj (rcu_epoch s) tid s))"
    by (intro rcu.inv_empty rcu_push_inv assms)
  show "task_num (solo (rcu_retire obj tid) s) = task_num s"
    and "rcu_epoch (solo (rcu_retire obj tid) s) = rcu_epoch s"
    and "rcu_reservations (solo (rcu_retire obj tid) s) = rcu_reservations s"
    using rcu_push_inv [OF assms, of obj tid]
    by (simp_all add: rcu_retire_eq rcu_tick_def) (simp_all add: rcu_push_def)
  show "rcu_inv (solo (rcu_retire obj tid) s)"
    using inv assms rcu_push_inv [OF assms, of obj tid]
    by (auto simp: rcu_retire_eq rcu_tick_def rcu_inv_def)
qed

lemma rcu_retire_retired:
  assumes "rcu_inv s" "i \<in> set (rcu_retired (solo (rcu_retire obj tid) s) t)"
  shows "i \<in> set (rcu_retired s t) \<or> rcu_info_epoch i = rcu_epoch s"
  using assms rcu_push_inv [OF assms(1), of obj tid]
  by (auto simp: rcu_retire_eq rcu_tick_def rcu.limbo_empty rcu_push_def split: if_splits)

lemma rcu_retire_freed:
  assumes "rcu_inv s"
  shows "\<exists>is. reclaimed (solo (rcu_retire obj tid) s) = reclaimed s @ map rcu_obj is \<and>
    (\<forall>i \<in> set is. \<not> rcu_protected (rcu_push obj (rcu_epoch s) tid s) i \<and> (i \<in> set (rcu_retired s tid)
        \<or> rcu_info_epoch i = rcu_epoch s))"
proof (cases "obj \<noteq> nullptr \<and> rcu_due tid s")
  case True
  then show ?thesis
    using rcu.freed_empty [OF rcu_push_inv [OF assms, of obj tid], of tid]
    by (intro exI [of _ "filter (\<lambda>i. \<not> rcu_protected (rcu_push obj (rcu_epoch s) tid s) i)
          (rcu_retired (rcu_push obj (rcu_epoch s) tid s) tid)"])
      (auto simp: rcu_retire_eq rcu_tick_def, auto simp: rcu_push_def)
next
  case False
  then show ?thesis by (auto simp: rcu_retire_eq rcu_tick_def rcu_push_def)
qed

lemma rcu_covered_protected:
  "t < task_num s \<Longrightarrow> rcu_covered t s i \<Longrightarrow> rcu_protected s i"
  by (auto simp: rcu_covered_def rcu_protected_def)

interpretation rcu_grace: grace "rcu_inside t" rcu_retired rcu_obj reclaimed "rcu_covered t"
    "\<lambda>_. True" "rcu_allowed t" rcu_step for t
proof
  fix s e
  assume ok: "rcu_inside t s" and al: "rcu_allowed t s e"
  then have inv: "rcu_inv s" by (simp add: rcu_inside_def)
  have inc: "rcu_epoch s \<le> rcu_epoch s + 1"
    using al by (intro word_inc_le) (simp add: rcu_allowed_def)
  have res: "rcu_reservations (rcu_step s e) t = rcu_reservations s t"
    using al inv
    by (cases e) (auto simp: rcu_op_defs Let_def rcu_allowed_def rcu_retire_fields)
  show "rcu_inside t (rcu_step s e)"
    using ok inc
    by (cases e) (auto simp: rcu_inside_def rcu_op_defs Let_def rcu_inv_def [symmetric]
        rcu_retire_fields res [simplified] al [unfolded rcu_allowed_def] intro: order_trans,
        auto simp: rcu_inv_def rcu_allowed_def intro: order_trans)
  show "rcu_covered t (rcu_step s e) i" if "rcu_covered t s i" for i
    using that res by (simp add: rcu_covered_def)
  show "i \<in> set (rcu_retired s t') \<or> rcu_covered t (rcu_step s e) i"
    if "i \<in> set (rcu_retired (rcu_step s e) t')" for i t'
    using that ok res
    by (cases e) (auto simp: rcu_op_defs Let_def rcu_covered_def rcu_inside_def split: if_splits
        dest!: rcu_retire_retired [OF inv])
  show "\<exists>is. reclaimed (rcu_step s e) = reclaimed s @ map rcu_obj is \<and>
      (\<forall>i\<in>set is. \<not> rcu_covered t (rcu_step s e) i \<and> (True \<longrightarrow> (\<exists>t. i \<in> set (rcu_retired s t))))"
  proof (cases e)
    case (RRetire p tid)
    from rcu_retire_freed [OF inv, of p tid] obtain js where
      js: "reclaimed (solo (rcu_retire p tid) s) = reclaimed s @ map rcu_obj js"
        "\<forall>i \<in> set js. \<not> rcu_protected (rcu_push p (rcu_epoch s) tid s) i \<and> (i \<in> set (rcu_retired s tid)
          \<or> rcu_info_epoch i = rcu_epoch s)" by blast
    have "\<not> rcu_covered t s i" if "i \<in> set js" for i
      using js(2) that ok by (auto simp: rcu_covered_def rcu_inside_def rcu_push_def rcu_protected_def)
    moreover have "i \<in> set (rcu_retired s tid)" if "i \<in> set js" for i
      using js(2) that ok calculation [OF that] by (auto simp: rcu_covered_def rcu_inside_def)
    ultimately show ?thesis
      using js(1) RRetire res by (intro exI [of _ js]) (auto simp: rcu_covered_def)
  qed (auto simp: rcu_op_defs Let_def)
qed

section \<open>Properties\<close>

lemma rcu_epoch_step:
  "rcu_inv s \<Longrightarrow> rcu_epoch s \<noteq> UINT64_MAX \<Longrightarrow> unat (rcu_epoch (rcu_step s e)) \<le> Suc (unat (rcu_epoch s))"
  by (cases e) (auto simp: rcu_op_defs Let_def rcu_retire_fields unat_inc)

lemma rcu_all_allowed:
  assumes "rcu_inside t s" "\<forall>e \<in> set es. e \<noteq> RStart t \<and> e \<noteq> REnd t"
    and "unat (rcu_epoch s) + length es < 2 ^ 64"
  shows "rcu_grace.all_allowed t s es"
  using assms
proof (induction es arbitrary: s)
  case Nil
  then show ?case by simp
next
  case (Cons e es)
  from Cons.prems(3) have ne: "rcu_epoch s \<noteq> UINT64_MAX" using unat_max by auto
  with Cons.prems(2) have al: "rcu_allowed t s e" by (simp add: rcu_allowed_def)
  have "unat (rcu_epoch (rcu_step s e)) \<le> Suc (unat (rcu_epoch s))"
    using Cons.prems(1) ne by (intro rcu_epoch_step) (simp_all add: rcu_inside_def)
  then show ?case
    using al Cons.IH [of "rcu_step s e"] Cons.prems rcu_grace.ok_step [OF Cons.prems(1) al]
    by simp
qed

text \<open>C17: \<open>RCUTracker::empty\<close> reclaims exactly the entries of the caller's list whose retire
  epoch is below every reservation, in list order, and keeps exactly the others.\<close>

theorem rcu_empty_exact:
  assumes "rcu_inv s"
  shows "rcu_retired (solo (rcu_empty tid) s) tid = filter (\<lambda>i. rcu_info_epoch i = UINT64_MAX
           \<or> (\<exists>t < task_num s. rcu_reservations s t \<le> rcu_info_epoch i)) (rcu_retired s tid)
       \<and> reclaimed (solo (rcu_empty tid) s) = reclaimed s @ map rcu_obj (filter (\<lambda>i. rcu_info_epoch i \<noteq> UINT64_MAX
           \<and> (\<forall>t < task_num s. rcu_info_epoch i < rcu_reservations s t)) (rcu_retired s tid))"
  using rcu.limbo_empty [OF assms, of tid] rcu.freed_empty [OF assms, of tid]
  by (simp add: rcu_protected_def [abs_def] not_le)

theorem rcu_empty_exact_witness:
  "reclaimed (solo (rcu_empty 0) ((rcu_new 2 1 1 type_RCU True True (\<lambda>_. 0))
       \<lparr>rcu_retired := (\<lambda>_. [\<lparr>rcu_obj = 8, rcu_info_epoch = 5\<rparr>])\<rparr>)) = [8]"
  using rcu_empty_exact [of "(rcu_new 2 1 1 type_RCU True True (\<lambda>_. 0))
       \<lparr>rcu_retired := (\<lambda>_. [\<lparr>rcu_obj = 8, rcu_info_epoch = 5\<rparr>])\<rparr>" 0]
  by (simp add: rcu_inv_def rcu_new_def base_new_def base.extend_def)

text \<open>C18: A reservation that stands while another thread runs \<open>empty\<close> protects, whatever
  the other threads do between the loads of the scan: an entry retired at or after the reserved
  epoch stays on the list.\<close>

theorem rcu_empty_interference:
  assumes "stable (\<lambda>s. rcu_inv s \<and> i \<in> set (rcu_retired s tid) \<and> rcu_reservations s t \<le> e) w"
    and "t < task_num (fst w)" and "e \<le> rcu_info_epoch i"
  shows "i \<in> set (rcu_retired (fst (rcu_empty tid w)) tid)"
proof -
  obtain m s env where
    eq: "rcu_min_epoch [0..<task_num (fst w)] UINT64_MAX w = (m, (s, env))" by (metis surj_pair)
  have m: "m \<le> e" and st: "rcu_inv s" "i \<in> set (rcu_retired s tid)"
    using rcu_min_epoch_stable [OF assms(1), of t e "[0..<task_num (fst w)]" UINT64_MAX] assms(2) eq
    by (auto dest: stable_now)
  from st(1) have "nullptr \<notin> rcu_obj ` set (rcu_retired s tid)" by (auto simp: rcu_inv_def)
  with m assms(3) st(2) show ?thesis
    by (simp add: rcu_empty_def eq rcu_sweep_def sweep_base)
qed

theorem rcu_empty_interference_witness:
  "\<lparr>rcu_obj = 8, rcu_info_epoch = 5\<rparr> \<in> set (rcu_retired (fst (rcu_empty 0
     ((rcu_new 2 1 1 type_RCU True True (\<lambda>_. 0)) \<lparr>rcu_reservations := (\<lambda>_. 4),
       rcu_retired := (\<lambda>_. [\<lparr>rcu_obj = 8, rcu_info_epoch = 5\<rparr>])\<rparr>, [rcu_incrementEpoch]))) 0)"
  by (rule rcu_empty_interference [of _ _ 1 4])
    (simp_all add: stable_def rcu_inv_def rcu_new_def base_new_def base.extend_def rcu_incrementEpoch_def)

text \<open>C19: The grace period of RCU.  Whatever the threads do between a thread's \<open>start_op\<close> and
  its \<open>end_op\<close>, no object retired after the \<open>start_op\<close> is reclaimed before the \<open>end_op\<close>:
  everything reclaimed in between was already retired when the operation started.  The
  hypothesis on the length of the run excludes a wrap-around of the 64-bit epoch.\<close>

theorem rcu_grace_period:
  assumes "rcu_type s = type_RCU" "rcu_inv s" "t < task_num s"
    and "\<forall>e \<in> set es. e \<noteq> RStart t \<and> e \<noteq> REnd t"
    and "unat (rcu_epoch s) + length es < 2 ^ 64"
  shows "\<exists>is. reclaimed (foldl rcu_step (solo (rcu_start_op t) s) es) = reclaimed s @ map rcu_obj is
           \<and> (\<forall>i \<in> set is. \<exists>u. i \<in> set (rcu_retired s u))"
proof -
  let ?s = "solo (rcu_start_op t) s"
  have start: "rcu_inside t ?s" "rcu_epoch ?s = rcu_epoch s" "reclaimed ?s = reclaimed s"
    "rcu_retired ?s = rcu_retired s"
    using assms by (simp_all add: rcu_op_defs rcu_inside_def rcu_inv_def)
  then have "rcu_grace.all_allowed t ?s es"
    using assms by (intro rcu_all_allowed) simp_all
  from rcu_grace.grace_freed [OF start(1) this] start(3,4) show ?thesis by auto
qed

theorem rcu_grace_period_witness:
  "\<exists>is. reclaimed (foldl rcu_step (solo (rcu_start_op 0) (rcu_new 2 1 1 type_RCU True True (\<lambda>_. 0)))
         [RRetire 8 1, RInc, RRetire 16 1]) = map rcu_obj is
     \<and> (\<forall>i \<in> set is. \<exists>u. i \<in> set (rcu_retired (rcu_new 2 1 1 type_RCU True True (\<lambda>_. 0)) u))"
  using rcu_grace_period [of "rcu_new 2 1 1 type_RCU True True (\<lambda>_. 0)" 0
      "[RRetire 8 1, RInc, RRetire 16 1]"]
  by (simp add: rcu_new_def base_new_def base.extend_def rcu_inv_def)



end
