(* ===== verification/Interval.thy ===== *)
theory Interval
  imports Base_Tracker
begin

text \<open>
  \<open>trackers/IntervalTracker.hpp\<close> (POIBR): a reservation is one epoch, an object is kept while a
  reservation lies between its birth epoch and its retire epoch.  The birth epoch is stored
  behind the object (\<open>iv_birth\<close>).
\<close>

record iv_info =
  iv_obj :: ptr
  iv_birth_epoch :: u64
  iv_retire_epoch :: u64

record interval = base +
  iv_freq :: nat
  iv_epochFreq :: nat
  iv_collect :: bool
  iv_reservations :: "nat \<Rightarrow> u64"
  iv_retire_counters :: "nat \<Rightarrow> u64"
  iv_alloc_counters :: "nat \<Rightarrow> u64"
  iv_retired :: "nat \<Rightarrow> iv_info list"
  iv_epoch :: u64
  iv_birth :: "ptr \<Rightarrow> u64"

definition iv_new :: "nat \<Rightarrow> nat \<Rightarrow> nat \<Rightarrow> bool \<Rightarrow> bool \<Rightarrow> (ptr \<Rightarrow> ptr) \<Rightarrow> interval" where
  "iv_new n epochFreq emptyFreq collect cnt mem =
     base.extend (base_new n cnt mem)
       \<lparr>iv_freq = emptyFreq, iv_epochFreq = epochFreq, iv_collect = collect,
        iv_reservations = (\<lambda>_. UINT64_MAX), iv_retire_counters = (\<lambda>_. 0),
        iv_alloc_counters = (\<lambda>_. 0), iv_retired = (\<lambda>_. []), iv_epoch = 0, iv_birth = (\<lambda>_. 0)\<rparr>"

definition iv_incrementEpoch :: "interval \<Rightarrow> interval" where
  "iv_incrementEpoch s = s\<lparr>iv_epoch := iv_epoch s + 1\<rparr>"

definition iv_alloc :: "nat \<Rightarrow> ptr \<Rightarrow> interval world \<Rightarrow> ptr \<times> interval world" where
  "iv_alloc tid blk w =
     (let w = own (\<lambda>s. s\<lparr>iv_alloc_counters :=
                (iv_alloc_counters s)(tid := iv_alloc_counters s tid + 1)\<rparr>) w;
          s = fst w;
          w = (if iv_alloc_counters s tid mod of_nat (iv_epochFreq s * task_num s) = 0
               then bump iv_incrementEpoch w else w);
          (e, w) = load iv_epoch w
      in (blk, own (\<lambda>s. s\<lparr>iv_birth := (iv_birth s)(blk := e)\<rparr>) w))"

definition iv_read_birth :: "ptr \<Rightarrow> interval \<Rightarrow> u64" where
  "iv_read_birth obj s = iv_birth s obj"

definition iv_set_reservation :: "nat \<Rightarrow> u64 \<Rightarrow> interval \<Rightarrow> interval" where
  "iv_set_reservation tid e s = s\<lparr>iv_reservations := (iv_reservations s)(tid := e)\<rparr>"

definition iv_start_op :: "nat \<Rightarrow> interval world \<Rightarrow> interval world" where
  "iv_start_op tid w = (let (e, w) = load iv_epoch w in store (iv_set_reservation tid e) w)"

definition iv_end_op :: "nat \<Rightarrow> interval world \<Rightarrow> interval world" where
  "iv_end_op tid w = store (iv_set_reservation tid UINT64_MAX) w"

definition iv_validate :: "nat \<Rightarrow> interval world \<Rightarrow> bool \<times> interval world" where
  "iv_validate tid w =
     (let (r, w) = load (\<lambda>s. iv_reservations s tid) w; (e, w) = load iv_epoch w in (r = e, w))"

fun iv_conflict_from :: "nat list \<Rightarrow> (nat \<Rightarrow> u64) \<Rightarrow> u64 \<Rightarrow> u64 \<Rightarrow> bool" where
  "iv_conflict_from [] reservEpoch birth retire = False"
| "iv_conflict_from (i # js) reservEpoch birth retire =
     (if reservEpoch i \<ge> birth \<and> reservEpoch i \<le> retire then True
      else iv_conflict_from js reservEpoch birth retire)"

definition iv_conflict :: "(nat \<Rightarrow> u64) \<Rightarrow> u64 \<Rightarrow> u64 \<Rightarrow> interval \<Rightarrow> bool" where
  "iv_conflict reservEpoch birth retire s = iv_conflict_from [0..<task_num s] reservEpoch birth retire"

definition iv_sweep :: "nat \<Rightarrow> (nat \<Rightarrow> u64) \<Rightarrow> interval \<Rightarrow> interval" where
  "iv_sweep tid reservEpoch s =
     (let (left, s) = sweep plain_reclaim
             (\<lambda>i. \<not> iv_conflict reservEpoch (iv_birth_epoch i) (iv_retire_epoch i) s) iv_obj tid
             (iv_retired s tid) s
      in s\<lparr>iv_retired := (iv_retired s)(tid := left)\<rparr>)"

definition iv_empty :: "nat \<Rightarrow> interval world \<Rightarrow> interval world" where
  "iv_empty tid w =
     (let (reservEpoch, w) = snapshot (\<lambda>i s. iv_reservations s i) [0..<task_num (fst w)] (\<lambda>_. 0) w
      in own (iv_sweep tid reservEpoch) w)"

definition iv_push :: "ptr \<Rightarrow> u64 \<Rightarrow> u64 \<Rightarrow> nat \<Rightarrow> interval \<Rightarrow> interval" where
  "iv_push obj b e tid s = s\<lparr>iv_retired := (iv_retired s)(tid := iv_retired s tid @
      [\<lparr>iv_obj = obj, iv_birth_epoch = b, iv_retire_epoch = e\<rparr>])\<rparr>"

definition iv_due :: "nat \<Rightarrow> interval \<Rightarrow> bool" where
  "iv_due tid s \<longleftrightarrow> iv_collect s \<and> iv_retire_counters s tid mod of_nat (iv_freq s) = 0"

definition iv_tick :: "nat \<Rightarrow> interval \<Rightarrow> interval" where
  "iv_tick tid s =
     s\<lparr>iv_retire_counters := (iv_retire_counters s)(tid := iv_retire_counters s tid + 1)\<rparr>"

definition iv_retire_birth :: "ptr \<Rightarrow> u64 \<Rightarrow> nat \<Rightarrow> interval world \<Rightarrow> interval world" where
  "iv_retire_birth obj birth_epoch tid w =
     (if obj = nullptr then w
      else let (e, w) = load iv_epoch w;
               w = own (iv_push obj birth_epoch e tid) w;
               w = (if iv_due tid (fst w) then iv_empty tid w else w)
           in own (iv_tick tid) w)"

text \<open>\<open>read_birth\<close> of a null pointer reads behind address 0 before \<open>retire\<close> tests the
  pointer; the model records the fault.\<close>

definition iv_retire :: "ptr \<Rightarrow> nat \<Rightarrow> interval world \<Rightarrow> interval world" where
  "iv_retire obj tid w =
     iv_retire_birth obj (iv_read_birth obj (fst w)) tid
       (own (\<lambda>s. if obj = nullptr then s\<lparr>fault := True\<rparr> else s) w)"

section \<open>What \<open>empty\<close> keeps and frees\<close>

lemma iv_conflict_from_iff:
  "iv_conflict_from js res b r \<longleftrightarrow> (\<exists>i \<in> set js. b \<le> res i \<and> res i \<le> r)"
  by (induction js) auto

definition iv_protected :: "interval \<Rightarrow> iv_info \<Rightarrow> bool" where
  "iv_protected s i \<longleftrightarrow> (\<exists>t < task_num s. iv_birth_epoch i \<le> iv_reservations s t
     \<and> iv_reservations s t \<le> iv_retire_epoch i)"

lemma iv_empty_eq:
  "iv_empty tid (s, []) =
     (give_back (map iv_obj (filter (\<lambda>i. \<not> iv_protected s i) (iv_retired s tid))) s
       \<lparr>iv_retired := (iv_retired s)(tid := filter (iv_protected s) (iv_retired s tid))\<rparr>, [])"
proof -
  have "iv_conflict (\<lambda>l. if l < task_num s then iv_reservations s l else 0)
      (iv_birth_epoch i) (iv_retire_epoch i) s \<longleftrightarrow> iv_protected s i" for i
    by (auto simp: iv_conflict_def iv_conflict_from_iff iv_protected_def)
  then show ?thesis
    by (simp add: iv_empty_def world_simps iv_sweep_def sweep_plain give_back_def)
qed

interpretation iv: reclaimer "\<lambda>_. True" iv_retired iv_obj reclaimed iv_protected
    "\<lambda>tid. solo (iv_empty tid)"
  by unfold_locales
    (simp_all add: iv_empty_eq give_back_def iv_protected_def [abs_def])

section \<open>Sequences of operations and the grace period\<close>

datatype iv_event =
    IAlloc nat ptr
  | IStart nat
  | IEnd nat
  | IRetire ptr nat
  | IInc

fun iv_step :: "interval \<Rightarrow> iv_event \<Rightarrow> interval" where
  "iv_step s (IAlloc tid blk) = fst (snd (iv_alloc tid blk (s, [])))"
| "iv_step s (IStart tid) = solo (iv_start_op tid) s"
| "iv_step s (IEnd tid) = solo (iv_end_op tid) s"
| "iv_step s (IRetire obj tid) = solo (iv_retire obj tid) s"
| "iv_step s IInc = iv_incrementEpoch s"

lemma iv_due_push: "iv_due tid (iv_push obj b e tid' s) = iv_due tid s"
  by (simp add: iv_due_def iv_push_def)

lemma iv_retire_eq:
  "solo (iv_retire obj tid) s = (if obj = nullptr then s\<lparr>fault := True\<rparr>
     else iv_tick tid (if iv_due tid s
        then solo (iv_empty tid) (iv_push obj (iv_birth s obj) (iv_epoch s) tid s)
        else iv_push obj (iv_birth s obj) (iv_epoch s) tid s))"
  by (simp add: iv_retire_def iv_retire_birth_def iv_read_birth_def world_simps Let_def iv_due_push)

text \<open>Thread \<open>t\<close> holds the reservation \<open>e\<close>; an object is relevant if it was allocated by then.\<close>

definition iv_inside :: "nat \<Rightarrow> u64 \<Rightarrow> interval \<Rightarrow> bool" where
  "iv_inside t e s \<longleftrightarrow> t < task_num s \<and> iv_reservations s t = e \<and> e \<le> iv_epoch s"

definition iv_covered :: "u64 \<Rightarrow> interval \<Rightarrow> iv_info \<Rightarrow> bool" where
  "iv_covered e s i \<longleftrightarrow> iv_birth_epoch i \<le> e \<and> e \<le> iv_retire_epoch i"

definition iv_allowed :: "nat \<Rightarrow> interval \<Rightarrow> iv_event \<Rightarrow> bool" where
  "iv_allowed t s ev \<longleftrightarrow> ev \<noteq> IStart t \<and> ev \<noteq> IEnd t \<and> iv_epoch s \<noteq> UINT64_MAX"

lemmas iv_op_defs = iv_alloc_def iv_start_op_def iv_end_op_def iv_incrementEpoch_def
  iv_set_reservation_def Let_def world_simps

lemma iv_retire_fields [simp]:
  "task_num (solo (iv_retire obj tid) s) = task_num s"
  "iv_epoch (solo (iv_retire obj tid) s) = iv_epoch s"
  "iv_reservations (solo (iv_retire obj tid) s) = iv_reservations s"
  by (simp_all add: iv_retire_eq iv_empty_eq iv_push_def iv_tick_def give_back_def)

lemma iv_retire_retired:
  assumes "i \<in> set (iv_retired (solo (iv_retire obj tid) s) t)"
  shows "i \<in> set (iv_retired s t) \<or> iv_retire_epoch i = iv_epoch s"
  using assms
  by (auto simp: iv_retire_eq iv_empty_eq iv_push_def iv_tick_def give_back_def split: if_splits)

lemma iv_retire_freed:
  "\<exists>is. reclaimed (solo (iv_retire obj tid) s) = reclaimed s @ map iv_obj is \<and>
     (\<forall>i \<in> set is. \<not> iv_protected s i \<and> (i \<in> set (iv_retired s tid) \<or> iv_retire_epoch i = iv_epoch s))"
proof -
  have prot: "iv_protected (iv_push obj (iv_birth s obj) (iv_epoch s) tid s) = iv_protected s"
    by (simp add: iv_push_def iv_protected_def [abs_def])
  show ?thesis
  proof (cases "obj \<noteq> nullptr \<and> iv_due tid s")
    case True
    then show ?thesis
      by (intro exI [of _ "filter (\<lambda>i. \<not> iv_protected s i) (iv_retired (iv_push obj (iv_birth s obj) (iv_epoch s) tid s) tid)"])
        (auto simp: iv_retire_eq iv_tick_def iv.freed_empty prot, auto simp: iv_push_def)
  next
    case False
    then show ?thesis by (auto simp: iv_retire_eq iv_push_def iv_tick_def)
  qed
qed

interpretation iv_grace: grace "iv_inside t e" iv_retired iv_obj reclaimed "iv_covered e"
    "\<lambda>i. iv_birth_epoch i \<le> e" "iv_allowed t" iv_step for t e
proof
  fix s ev
  assume ok: "iv_inside t e s" and al: "iv_allowed t s ev"
  have inc: "iv_epoch s \<le> iv_epoch s + 1"
    using al by (intro word_inc_le) (simp add: iv_allowed_def)
  have res: "iv_reservations (iv_step s ev) t = e"
    using al ok by (cases ev) (auto simp: iv_op_defs iv_allowed_def iv_inside_def)
  show "iv_inside t e (iv_step s ev)"
    using ok inc res by (cases ev) (auto simp: iv_inside_def iv_op_defs intro: order_trans)
  show "iv_covered e (iv_step s ev) i" if "iv_covered e s i" for i
    using that by (simp add: iv_covered_def)
  show "i \<in> set (iv_retired s t') \<or> iv_covered e (iv_step s ev) i"
    if "i \<in> set (iv_retired (iv_step s ev) t')" "iv_birth_epoch i \<le> e" for i t'
    using that ok by (cases ev) (auto simp: iv_op_defs iv_covered_def iv_inside_def split: if_splits
        dest!: iv_retire_retired)
  show "\<exists>is. reclaimed (iv_step s ev) = reclaimed s @ map iv_obj is \<and> (\<forall>i\<in>set is.
      \<not> iv_covered e (iv_step s ev) i \<and> (iv_birth_epoch i \<le> e \<longrightarrow> (\<exists>t. i \<in> set (iv_retired s t))))"
  proof (cases ev)
    case (IRetire p tid)
    from iv_retire_freed [of p tid s] obtain js where
      js: "reclaimed (solo (iv_retire p tid) s) = reclaimed s @ map iv_obj js"
        "\<forall>i \<in> set js. \<not> iv_protected s i \<and> (i \<in> set (iv_retired s tid) \<or> iv_retire_epoch i = iv_epoch s)"
      by blast
    have "\<not> iv_covered e s i \<and> (iv_birth_epoch i \<le> e \<longrightarrow> (\<exists>t. i \<in> set (iv_retired s t)))"
      if "i \<in> set js" for i
      using js(2) that ok by (fastforce simp: iv_covered_def iv_inside_def iv_protected_def)
    then show ?thesis
      using js IRetire by (intro exI [of _ js]) (auto simp: iv_covered_def)
  qed (auto simp: iv_op_defs)
qed

lemma iv_all_allowed:
  assumes "iv_inside t e s" "\<forall>ev \<in> set es. ev \<noteq> IStart t \<and> ev \<noteq> IEnd t"
    and "unat (iv_epoch s) + length es < 2 ^ 64"
  shows "iv_grace.all_allowed t s es"
  using assms
proof (induction es arbitrary: s)
  case Nil
  then show ?case by simp
next
  case (Cons ev es)
  from Cons.prems(3) have ne: "iv_epoch s \<noteq> UINT64_MAX" using unat_max by auto
  with Cons.prems(2) have al: "iv_allowed t s ev" by (simp add: iv_allowed_def)
  have "unat (iv_epoch (iv_step s ev)) \<le> Suc (unat (iv_epoch s))"
    using ne by (cases ev) (auto simp: iv_op_defs unat_inc)
  then show ?case
    using al Cons.IH [of "iv_step s ev"] Cons.prems iv_grace.ok_step [OF Cons.prems(1) al]
    by simp
qed

section \<open>Properties\<close>

text \<open>\<open>IntervalTracker::empty\<close> reclaims exactly the entries of the caller's list whose
  life time \<open>[birth, retire]\<close> contains no reservation, and keeps the others in order.\<close>

theorem iv_empty_exact:
  "iv_retired (solo (iv_empty tid) s) tid = filter (\<lambda>i. \<exists>t < task_num s.
        iv_birth_epoch i \<le> iv_reservations s t \<and> iv_reservations s t \<le> iv_retire_epoch i) (iv_retired s tid)
   \<and> reclaimed (solo (iv_empty tid) s) = reclaimed s @ map iv_obj (filter (\<lambda>i. \<forall>t < task_num s.
        iv_reservations s t < iv_birth_epoch i \<or> iv_retire_epoch i < iv_reservations s t) (iv_retired s tid))"
proof
  have "(\<lambda>i. \<not> iv_protected s i) = (\<lambda>i. \<forall>t < task_num s.
        iv_reservations s t < iv_birth_epoch i \<or> iv_retire_epoch i < iv_reservations s t)"
    by (auto simp: iv_protected_def fun_eq_iff not_le)
  then show "reclaimed (solo (iv_empty tid) s) = reclaimed s @ map iv_obj (filter (\<lambda>i. \<forall>t < task_num s.
        iv_reservations s t < iv_birth_epoch i \<or> iv_retire_epoch i < iv_reservations s t) (iv_retired s tid))"
    by (simp add: iv.freed_empty)
  show "iv_retired (solo (iv_empty tid) s) tid = filter (\<lambda>i. \<exists>t < task_num s.
        iv_birth_epoch i \<le> iv_reservations s t \<and> iv_reservations s t \<le> iv_retire_epoch i) (iv_retired s tid)"
    by (simp add: iv.limbo_empty) (simp add: iv_protected_def [abs_def])
qed

theorem iv_empty_exact_witness:
  "reclaimed (solo (iv_empty 0) ((iv_new 1 1 1 True True (\<lambda>_. 0))\<lparr>iv_reservations := (\<lambda>_. 5),
     iv_retired := (\<lambda>_. [\<lparr>iv_obj = 8, iv_birth_epoch = 6, iv_retire_epoch = 7\<rparr>,
                        \<lparr>iv_obj = 16, iv_birth_epoch = 2, iv_retire_epoch = 7\<rparr>])\<rparr>)) = [8]"
  using iv_empty_exact [of 0 "(iv_new 1 1 1 True True (\<lambda>_. 0))\<lparr>iv_reservations := (\<lambda>_. 5),
     iv_retired := (\<lambda>_. [\<lparr>iv_obj = 8, iv_birth_epoch = 6, iv_retire_epoch = 7\<rparr>,
                        \<lparr>iv_obj = 16, iv_birth_epoch = 2, iv_retire_epoch = 7\<rparr>])\<rparr>"]
  by (simp add: iv_new_def base_new_def base.extend_def)

text \<open>C21: The reservations are copied one load at a time.  A reservation in the life time of
  an entry that stands during the scan protects the entry, whatever the others do meanwhile.\<close>

theorem iv_empty_interference:
  assumes "stable (\<lambda>s. task_num s = n \<and> i \<in> set (iv_retired s tid)
      \<and> iv_birth_epoch i \<le> iv_reservations s t \<and> iv_reservations s t \<le> iv_retire_epoch i) w"
    and "t < n"
  shows "i \<in> set (iv_retired (fst (iv_empty tid w)) tid)"
proof -
  let ?snap = "snapshot (\<lambda>i s. iv_reservations s i) [0..<task_num (fst w)] (\<lambda>_. 0) w"
  obtain res s env where eq: "?snap = (res, (s, env))" by (metis surj_pair)
  have n: "task_num (fst w) = n" using stable_now [OF assms(1)] by simp
  have s: "task_num s = n" "i \<in> set (iv_retired s tid)"
    using stable_now [OF snapshot_world [OF assms(1)]] by (metis eq fst_conv snd_conv)+
  have "iv_birth_epoch i \<le> res t \<and> res t \<le> iv_retire_epoch i"
    using snapshot_stable [OF assms(1), of t "[0..<task_num (fst w)]" "\<lambda>i s. iv_reservations s i" "\<lambda>_. 0"]
      n assms(2) eq by auto
  with s assms(2) show ?thesis
    by (auto simp: iv_empty_def eq own_def iv_sweep_def sweep_plain iv_conflict_def
        iv_conflict_from_iff)
qed

theorem iv_empty_interference_witness:
  "\<lparr>iv_obj = 8, iv_birth_epoch = 3, iv_retire_epoch = 7\<rparr> \<in> set (iv_retired (fst (iv_empty 0
     ((iv_new 2 1 1 True True (\<lambda>_. 0))\<lparr>iv_reservations := (\<lambda>_. 5),
       iv_retired := (\<lambda>_. [\<lparr>iv_obj = 8, iv_birth_epoch = 3, iv_retire_epoch = 7\<rparr>])\<rparr>,
      [iv_incrementEpoch]))) 0)"
  by (rule iv_empty_interference [of 2 _ _ 1])
    (simp_all add: stable_def iv_new_def base_new_def base.extend_def iv_incrementEpoch_def)

text \<open>C22: The grace period of the interval tracker.  Between a thread's \<open>start_op\<close> and its
  \<open>end_op\<close>, an object that was born by the \<open>start_op\<close> is reclaimed only if it had been
  retired before the \<open>start_op\<close>.\<close>

theorem iv_grace_period:
  assumes "t < task_num s"
    and "\<forall>ev \<in> set es. ev \<noteq> IStart t \<and> ev \<noteq> IEnd t"
    and "unat (iv_epoch s) + length es < 2 ^ 64"
  shows "\<exists>is. reclaimed (foldl iv_step (solo (iv_start_op t) s) es) = reclaimed s @ map iv_obj is
           \<and> (\<forall>i \<in> set is. iv_birth_epoch i \<le> iv_epoch s \<longrightarrow> (\<exists>u. i \<in> set (iv_retired s u)))"
proof -
  let ?s = "solo (iv_start_op t) s"
  have start: "iv_inside t (iv_epoch s) ?s" "iv_epoch ?s = iv_epoch s" "reclaimed ?s = reclaimed s"
    "iv_retired ?s = iv_retired s"
    using assms by (simp_all add: iv_op_defs iv_inside_def)
  then have "iv_grace.all_allowed t ?s es"
    using assms by (intro iv_all_allowed) simp_all
  from iv_grace.grace_freed [OF start(1) this] start(3,4) show ?thesis by auto
qed

theorem iv_grace_period_witness:
  "\<exists>is. reclaimed (foldl iv_step (solo (iv_start_op 0) (iv_new 2 1 1 True True (\<lambda>_. 0)))
         [IRetire 8 1, IInc, IRetire 16 1]) = map iv_obj is
     \<and> (\<forall>i \<in> set is. iv_birth_epoch i \<le> 0
         \<longrightarrow> (\<exists>u. i \<in> set (iv_retired (iv_new 2 1 1 True True (\<lambda>_. 0)) u)))"
  using iv_grace_period [of 0 "iv_new 2 1 1 True True (\<lambda>_. 0)" "[IRetire 8 1, IInc, IRetire 16 1]"]
  by (simp add: iv_new_def base_new_def base.extend_def)

end
