(* ===== verification/Range_New.thy ===== *)
theory Range_New
  imports Base_Tracker
begin

text \<open>
  \<open>trackers/RangeTrackerNew.hpp\<close> (2GEIBR): a thread reserves the epochs from its \<open>lower\<close> to
  its \<open>upper\<close> reservation; \<open>start_op\<close> sets both, a \<open>read\<close> raises \<open>upper\<close> to the current epoch
  before it returns the link.  Birth and retire epoch are in the header behind the object, which
  does not change while the object is on a list: an entry of the list carries both.
\<close>

record rn_info =
  rn_obj :: ptr
  rn_birth_epoch :: u64
  rn_retire_epoch :: u64

record range_new = base +
  rn_freq :: nat
  rn_epochFreq :: nat
  rn_collect :: bool
  rn_upper_reservs :: "nat \<Rightarrow> u64"
  rn_lower_reservs :: "nat \<Rightarrow> u64"
  rn_retire_counters :: "nat \<Rightarrow> u64"
  rn_alloc_counters :: "nat \<Rightarrow> u64"
  rn_retired :: "nat \<Rightarrow> rn_info list"
  rn_epoch :: u64
  rn_birth :: "ptr \<Rightarrow> u64"

definition rn_new :: "nat \<Rightarrow> nat \<Rightarrow> nat \<Rightarrow> bool \<Rightarrow> bool \<Rightarrow> (ptr \<Rightarrow> ptr) \<Rightarrow> range_new" where
  "rn_new n epochFreq emptyFreq collect cnt mem =
     base.extend (base_new n cnt mem)
       \<lparr>rn_freq = emptyFreq, rn_epochFreq = epochFreq, rn_collect = collect,
        rn_upper_reservs = (\<lambda>_. UINT64_MAX), rn_lower_reservs = (\<lambda>_. UINT64_MAX),
        rn_retire_counters = (\<lambda>_. 0), rn_alloc_counters = (\<lambda>_. 0), rn_retired = (\<lambda>_. []),
        rn_epoch = 0, rn_birth = (\<lambda>_. 0)\<rparr>"

definition rn_incrementEpoch :: "range_new \<Rightarrow> range_new" where
  "rn_incrementEpoch s = s\<lparr>rn_epoch := rn_epoch s + 1\<rparr>"

definition rn_alloc :: "nat \<Rightarrow> ptr \<Rightarrow> range_new world \<Rightarrow> ptr \<times> range_new world" where
  "rn_alloc tid blk w =
     (let w = own (\<lambda>s. s\<lparr>rn_alloc_counters :=
                (rn_alloc_counters s)(tid := rn_alloc_counters s tid + 1)\<rparr>) w;
          s = fst w;
          w = (if rn_alloc_counters s tid mod of_nat (rn_epochFreq s * task_num s) = 0
               then bump rn_incrementEpoch w else w);
          (e, w) = load rn_epoch w
      in (blk, own (\<lambda>s. s\<lparr>rn_birth := (rn_birth s)(blk := e)\<rparr>) w))"

definition rn_read_birth :: "ptr \<Rightarrow> range_new \<Rightarrow> u64" where
  "rn_read_birth obj s = rn_birth s obj"

definition rn_set_upper :: "nat \<Rightarrow> u64 \<Rightarrow> range_new \<Rightarrow> range_new" where
  "rn_set_upper tid e s = s\<lparr>rn_upper_reservs := (rn_upper_reservs s)(tid := e)\<rparr>"

definition rn_set_lower :: "nat \<Rightarrow> u64 \<Rightarrow> range_new \<Rightarrow> range_new" where
  "rn_set_lower tid e s = s\<lparr>rn_lower_reservs := (rn_lower_reservs s)(tid := e)\<rparr>"

definition rn_read :: "nat \<Rightarrow> ptr \<Rightarrow> nat \<Rightarrow> range_new world \<Rightarrow> (ptr \<times> range_new world) option" where
  "rn_read fuel obj tid w =
     (let (prev_epoch, w) = load (\<lambda>s. rn_upper_reservs s tid) w
      in validate_loop (\<lambda>s. cells s obj) rn_epoch (rn_set_upper tid) fuel prev_epoch w)"

definition rn_reserve_slot :: "nat \<Rightarrow> ptr \<Rightarrow> nat \<Rightarrow> range_new world \<Rightarrow> range_new world option" where
  "rn_reserve_slot fuel p tid w =
     (let (prev_epoch, w) = load (\<lambda>s. rn_upper_reservs s tid) w
      in reserve_loop rn_epoch (rn_set_upper tid) fuel prev_epoch w)"

definition rn_start_op :: "nat \<Rightarrow> range_new world \<Rightarrow> range_new world" where
  "rn_start_op tid w =
     (let (e, w) = load rn_epoch w;
          w = store (rn_set_lower tid e) w
      in store (rn_set_upper tid e) w)"

definition rn_end_op :: "nat \<Rightarrow> range_new world \<Rightarrow> range_new world" where
  "rn_end_op tid w =
     (let w = store (rn_set_upper tid UINT64_MAX) w
      in store (rn_set_lower tid UINT64_MAX) w)"

fun rn_conflict_from :: "nat list \<Rightarrow> (nat \<Rightarrow> u64) \<Rightarrow> (nat \<Rightarrow> u64) \<Rightarrow> u64 \<Rightarrow> u64 \<Rightarrow> bool" where
  "rn_conflict_from [] lower upper birth retire = False"
| "rn_conflict_from (i # js) lower upper birth retire =
     (if upper i \<ge> birth \<and> lower i \<le> retire then True
      else rn_conflict_from js lower upper birth retire)"

definition rn_conflict :: "(nat \<Rightarrow> u64) \<Rightarrow> (nat \<Rightarrow> u64) \<Rightarrow> u64 \<Rightarrow> u64 \<Rightarrow> range_new \<Rightarrow> bool" where
  "rn_conflict lower upper birth retire s = rn_conflict_from [0..<task_num s] lower upper birth retire"

text \<open>The two arrays \<open>empty\<close> copies before it sweeps: for each thread \<open>lower\<close> first, then
  \<open>upper\<close>.\<close>

definition rn_locations :: "nat \<Rightarrow> (nat \<times> bool) list" where
  "rn_locations n = concat (map (\<lambda>i. [(i, False), (i, True)]) [0..<n])"

definition rn_location :: "nat \<times> bool \<Rightarrow> range_new \<Rightarrow> u64" where
  "rn_location l s = (if snd l then rn_upper_reservs s (fst l) else rn_lower_reservs s (fst l))"

definition rn_sweep :: "nat \<Rightarrow> (nat \<Rightarrow> u64) \<Rightarrow> (nat \<Rightarrow> u64) \<Rightarrow> range_new \<Rightarrow> range_new" where
  "rn_sweep tid lower upper s =
     (let (left, s) = sweep plain_reclaim
             (\<lambda>i. \<not> rn_conflict lower upper (rn_birth_epoch i) (rn_retire_epoch i) s) rn_obj tid
             (rn_retired s tid) s
      in s\<lparr>rn_retired := (rn_retired s)(tid := left)\<rparr>)"

definition rn_empty :: "nat \<Rightarrow> range_new world \<Rightarrow> range_new world" where
  "rn_empty tid w =
     (let (arr, w) = snapshot rn_location (rn_locations (task_num (fst w))) (\<lambda>_. 0) w
      in own (rn_sweep tid (\<lambda>i. arr (i, False)) (\<lambda>i. arr (i, True))) w)"

definition rn_push :: "ptr \<Rightarrow> u64 \<Rightarrow> nat \<Rightarrow> range_new \<Rightarrow> range_new" where
  "rn_push obj e tid s = s\<lparr>rn_retired := (rn_retired s)(tid :=
      \<lparr>rn_obj = obj, rn_birth_epoch = rn_birth s obj, rn_retire_epoch = e\<rparr> # rn_retired s tid)\<rparr>"

definition rn_due :: "nat \<Rightarrow> range_new \<Rightarrow> bool" where
  "rn_due tid s \<longleftrightarrow> rn_collect s \<and> rn_retire_counters s tid mod of_nat (rn_freq s) = 0"

definition rn_tick :: "nat \<Rightarrow> range_new \<Rightarrow> range_new" where
  "rn_tick tid s =
     s\<lparr>rn_retire_counters := (rn_retire_counters s)(tid := rn_retire_counters s tid + 1)\<rparr>"

text \<open>The three-argument \<open>retire\<close> ignores its \<open>birth_epoch\<close>.  The two-argument one calls
  \<open>read_birth\<close>, which reads behind address 0 for a null pointer.\<close>

definition rn_retire_birth :: "ptr \<Rightarrow> u64 \<Rightarrow> nat \<Rightarrow> range_new world \<Rightarrow> range_new world" where
  "rn_retire_birth obj birth_epoch tid w =
     (if obj = nullptr then w
      else let (e, w) = load rn_epoch w;
               w = own (rn_push obj e tid) w;
               w = (if rn_due tid (fst w) then rn_empty tid w else w)
           in own (rn_tick tid) w)"

definition rn_retire :: "ptr \<Rightarrow> nat \<Rightarrow> range_new world \<Rightarrow> range_new world" where
  "rn_retire obj tid w =
     rn_retire_birth obj (rn_read_birth obj (fst w)) tid
       (own (\<lambda>s. if obj = nullptr then s\<lparr>fault := True\<rparr> else s) w)"

section \<open>What \<open>empty\<close> keeps and frees\<close>

lemma rn_conflict_from_iff:
  "rn_conflict_from js lower upper b r \<longleftrightarrow> (\<exists>i \<in> set js. b \<le> upper i \<and> lower i \<le> r)"
  by (induction js) auto

definition rn_protected :: "range_new \<Rightarrow> rn_info \<Rightarrow> bool" where
  "rn_protected s i \<longleftrightarrow> (\<exists>t < task_num s. rn_birth_epoch i \<le> rn_upper_reservs s t
     \<and> rn_lower_reservs s t \<le> rn_retire_epoch i)"

lemma set_rn_locations: "(i, b) \<in> set (rn_locations n) \<longleftrightarrow> i < n"
  by (cases b) (auto simp: rn_locations_def)

lemma rn_empty_eq:
  "rn_empty tid (s, []) =
     (give_back (map rn_obj (filter (\<lambda>i. \<not> rn_protected s i) (rn_retired s tid))) s
       \<lparr>rn_retired := (rn_retired s)(tid := filter (rn_protected s) (rn_retired s tid))\<rparr>, [])"
proof -
  have "rn_conflict
      (\<lambda>i. if i < task_num s then rn_location (i, False) s else 0)
      (\<lambda>i. if i < task_num s then rn_location (i, True) s else 0)
      (rn_birth_epoch i) (rn_retire_epoch i) s \<longleftrightarrow> rn_protected s i" for i
    by (auto simp: rn_conflict_def rn_conflict_from_iff rn_protected_def rn_location_def)
  then show ?thesis
    by (simp add: rn_empty_def world_simps rn_sweep_def sweep_plain give_back_def set_rn_locations)
qed

interpretation rn: reclaimer "\<lambda>_. True" rn_retired rn_obj reclaimed rn_protected
    "\<lambda>tid. solo (rn_empty tid)"
  by unfold_locales
    (simp_all add: rn_empty_eq give_back_def rn_protected_def [abs_def])

section \<open>Sequences of operations and the grace period\<close>

datatype rn_event =
    NAlloc nat ptr
  | NStart nat
  | NEnd nat
  | NRead ptr nat
  | NReserve ptr nat
  | NRetire ptr nat
  | NInc

text \<open>Run alone the loops of \<open>read\<close> and \<open>reserve_slot\<close> return within two rounds.\<close>

fun rn_step :: "range_new \<Rightarrow> rn_event \<Rightarrow> range_new" where
  "rn_step s (NAlloc tid blk) = fst (snd (rn_alloc tid blk (s, [])))"
| "rn_step s (NStart tid) = solo (rn_start_op tid) s"
| "rn_step s (NEnd tid) = solo (rn_end_op tid) s"
| "rn_step s (NRead obj tid) =
     (case rn_read 2 obj tid (s, []) of Some (p, w) \<Rightarrow> fst w | None \<Rightarrow> s)"
| "rn_step s (NReserve p tid) =
     (case rn_reserve_slot 2 p tid (s, []) of Some w \<Rightarrow> fst w | None \<Rightarrow> s)"
| "rn_step s (NRetire obj tid) = solo (rn_retire obj tid) s"
| "rn_step s NInc = rn_incrementEpoch s"

lemma rn_due_push: "rn_due tid (rn_push obj e tid' s) = rn_due tid s"
  by (simp add: rn_due_def rn_push_def)

lemma rn_retire_eq:
  "solo (rn_retire obj tid) s = (if obj = nullptr then s\<lparr>fault := True\<rparr>
     else rn_tick tid (if rn_due tid s then solo (rn_empty tid) (rn_push obj (rn_epoch s) tid s)
                       else rn_push obj (rn_epoch s) tid s))"
  by (simp add: rn_retire_def rn_retire_birth_def world_simps Let_def rn_due_push)

lemmas rn_op_defs = rn_alloc_def rn_start_op_def rn_end_op_def rn_incrementEpoch_def
  rn_set_upper_def rn_set_lower_def Let_def world_simps

lemma rn_read_run:
  "rn_read 2 obj tid (s, []) = Some (cells s obj, (rn_set_upper tid (rn_epoch s) s, []))"
  by (simp add: rn_read_def world_simps validate_loop_alone rn_set_upper_def fun_upd_idem)

lemma rn_read_alone:
  "rn_step s (NRead obj tid) = rn_set_upper tid (rn_epoch s) s"
  by (simp add: rn_read_run)

lemma rn_reserve_alone:
  "rn_step s (NReserve p tid) = rn_set_upper tid (rn_epoch s) s"
  by (simp add: rn_reserve_slot_def world_simps reserve_loop_alone rn_set_upper_def fun_upd_idem)

text \<open>Thread \<open>t\<close> holds the interval from \<open>e\<close> to at least \<open>u\<close>.\<close>

definition rn_inside :: "nat \<Rightarrow> u64 \<Rightarrow> u64 \<Rightarrow> range_new \<Rightarrow> bool" where
  "rn_inside t e u s \<longleftrightarrow> t < task_num s \<and> rn_lower_reservs s t = e \<and> e \<le> rn_epoch s
     \<and> u \<le> rn_upper_reservs s t \<and> u \<le> rn_epoch s"

definition rn_covered :: "u64 \<Rightarrow> u64 \<Rightarrow> range_new \<Rightarrow> rn_info \<Rightarrow> bool" where
  "rn_covered e u s i \<longleftrightarrow> rn_birth_epoch i \<le> u \<and> e \<le> rn_retire_epoch i"

definition rn_allowed :: "nat \<Rightarrow> range_new \<Rightarrow> rn_event \<Rightarrow> bool" where
  "rn_allowed t s ev \<longleftrightarrow> ev \<noteq> NStart t \<and> ev \<noteq> NEnd t \<and> rn_epoch s \<noteq> UINT64_MAX"

lemma rn_retire_fields [simp]:
  "task_num (solo (rn_retire obj tid) s) = task_num s"
  "rn_epoch (solo (rn_retire obj tid) s) = rn_epoch s"
  "rn_lower_reservs (solo (rn_retire obj tid) s) = rn_lower_reservs s"
  "rn_upper_reservs (solo (rn_retire obj tid) s) = rn_upper_reservs s"
  by (simp_all add: rn_retire_eq rn_empty_eq rn_push_def rn_tick_def give_back_def)

lemma rn_retire_retired:
  assumes "i \<in> set (rn_retired (solo (rn_retire obj tid) s) t)"
  shows "i \<in> set (rn_retired s t) \<or> rn_retire_epoch i = rn_epoch s"
  using assms
  by (auto simp: rn_retire_eq rn_empty_eq rn_push_def rn_tick_def give_back_def split: if_splits)

lemma rn_retire_freed:
  "\<exists>is. reclaimed (solo (rn_retire obj tid) s) = reclaimed s @ map rn_obj is \<and>
     (\<forall>i \<in> set is. \<not> rn_protected s i \<and> (i \<in> set (rn_retired s tid) \<or> rn_retire_epoch i = rn_epoch s))"
proof -
  have prot: "rn_protected (rn_push obj e tid s) = rn_protected s" for e
    by (simp add: rn_push_def rn_protected_def [abs_def])
  show ?thesis
  proof (cases "obj \<noteq> nullptr \<and> rn_due tid s")
    case True
    then show ?thesis
      by (intro exI [of _ "filter (\<lambda>i. \<not> rn_protected s i) (rn_retired (rn_push obj (rn_epoch s) tid s) tid)"])
        (auto simp: rn_retire_eq rn_tick_def rn.freed_empty prot, auto simp: rn_push_def)
  next
    case False
    then show ?thesis by (auto simp: rn_retire_eq rn_push_def rn_tick_def)
  qed
qed

lemmas rn_step_defs = rn_op_defs rn_read_alone rn_reserve_alone

lemma rn_epoch_step: "rn_epoch s \<noteq> UINT64_MAX \<Longrightarrow>
    rn_epoch s \<le> rn_epoch (rn_step s ev) \<and> unat (rn_epoch (rn_step s ev)) \<le> Suc (unat (rn_epoch s))"
  using word_inc_le [of "rn_epoch s"]
  by (cases ev) (auto simp: rn_step_defs unat_inc simp del: rn_step.simps(4,5))

interpretation rn_grace: grace "rn_inside t e u" rn_retired rn_obj reclaimed "rn_covered e u"
    "\<lambda>i. rn_birth_epoch i \<le> u" "rn_allowed t" rn_step for t e u
proof
  fix s ev
  assume ok: "rn_inside t e u s" and al: "rn_allowed t s ev"
  have inc: "rn_epoch s \<le> rn_epoch (rn_step s ev)"
    using al rn_epoch_step [of s ev] by (simp add: rn_allowed_def)
  have low: "rn_lower_reservs (rn_step s ev) t = e" and num: "task_num (rn_step s ev) = task_num s"
    using al ok by (cases ev; auto simp: rn_step_defs rn_allowed_def rn_inside_def
        simp del: rn_step.simps(4,5))+
  have up: "u \<le> rn_upper_reservs (rn_step s ev) t"
    using al ok by (cases ev) (auto simp: rn_step_defs rn_allowed_def rn_inside_def
        simp del: rn_step.simps(4,5))
  show "rn_inside t e u (rn_step s ev)"
    using ok low num up inc by (auto simp: rn_inside_def intro: order_trans)
  show "rn_covered e u (rn_step s ev) i" if "rn_covered e u s i" for i
    using that by (simp add: rn_covered_def)
  show "i \<in> set (rn_retired s t') \<or> rn_covered e u (rn_step s ev) i"
    if "i \<in> set (rn_retired (rn_step s ev) t')" "rn_birth_epoch i \<le> u" for i t'
    using that ok by (cases ev) (auto simp: rn_step_defs rn_covered_def rn_inside_def
        split: if_splits dest!: rn_retire_retired simp del: rn_step.simps(4,5))
  show "\<exists>is. reclaimed (rn_step s ev) = reclaimed s @ map rn_obj is \<and> (\<forall>i\<in>set is.
      \<not> rn_covered e u (rn_step s ev) i \<and> (rn_birth_epoch i \<le> u \<longrightarrow> (\<exists>t. i \<in> set (rn_retired s t))))"
  proof (cases ev)
    case (NRetire p tid)
    from rn_retire_freed [of p tid s] obtain js where
      js: "reclaimed (solo (rn_retire p tid) s) = reclaimed s @ map rn_obj js"
        "\<forall>i \<in> set js. \<not> rn_protected s i \<and> (i \<in> set (rn_retired s tid) \<or> rn_retire_epoch i = rn_epoch s)"
      by blast
    have "\<not> rn_covered e u s i \<and> (rn_birth_epoch i \<le> u \<longrightarrow> (\<exists>t. i \<in> set (rn_retired s t)))"
      if "i \<in> set js" for i
    proof -
      from js(2) that ok have nc: "\<not> (rn_birth_epoch i \<le> u \<and> e \<le> rn_retire_epoch i)"
        by (auto simp: rn_protected_def rn_inside_def dest: order_trans)
      with js(2) that ok show ?thesis by (auto simp: rn_covered_def rn_inside_def)
    qed
    then show ?thesis
      using js NRetire by (intro exI [of _ js]) (auto simp: rn_covered_def)
  qed (auto simp: rn_step_defs simp del: rn_step.simps(4,5))
qed

lemma rn_all_allowed:
  assumes "rn_inside t e u s" "\<forall>ev \<in> set es. ev \<noteq> NStart t \<and> ev \<noteq> NEnd t"
    and "unat (rn_epoch s) + length es < 2 ^ 64"
  shows "rn_grace.all_allowed t s es"
  using assms
proof (induction es arbitrary: s)
  case Nil
  then show ?case by simp
next
  case (Cons ev es)
  from Cons.prems(3) have ne: "rn_epoch s \<noteq> UINT64_MAX" using unat_max by auto
  with Cons.prems(2) have al: "rn_allowed t s ev" by (simp add: rn_allowed_def)
  show ?case
    using al Cons.IH [of "rn_step s ev"] Cons.prems rn_grace.ok_step [OF Cons.prems(1) al]
      rn_epoch_step [OF ne, of ev]
    by simp
qed

section \<open>Properties\<close>

text \<open>C23: A read protects.  Thread \<open>t\<close> is in an operation it started at epoch \<open>e\<close> and reads a
  link.  As long as it has not called \<open>end_op\<close>, an object born by the epoch of that read is
  reclaimed only if it had been retired before the read, whatever \<open>t\<close> reads later.\<close>

theorem rn_read_protects:
  assumes "t < task_num s" "rn_lower_reservs s t \<le> rn_epoch s"
    and "\<forall>ev \<in> set es. ev \<noteq> NStart t \<and> ev \<noteq> NEnd t"
    and "unat (rn_epoch s) + length es < 2 ^ 64"
    and "rn_read 2 obj t (s, []) = Some (p, (s', []))"
  shows "p = cells s obj \<and> (\<exists>is. reclaimed (foldl rn_step s' es) = reclaimed s @ map rn_obj is
     \<and> (\<forall>i \<in> set is. rn_birth_epoch i \<le> rn_epoch s \<longrightarrow>
            (\<exists>u. i \<in> set (rn_retired s u)) \<and> rn_retire_epoch i < rn_lower_reservs s t))"
proof -
  have s': "s' = rn_set_upper t (rn_epoch s) s" and p: "p = cells s obj"
    using assms(5) by (auto simp: rn_read_run)
  have start: "rn_inside t (rn_lower_reservs s t) (rn_epoch s) s'" "rn_epoch s' = rn_epoch s"
    "reclaimed s' = reclaimed s" "rn_retired s' = rn_retired s"
    using assms(1,2) by (simp_all add: s' rn_set_upper_def rn_inside_def)
  then have "rn_grace.all_allowed t s' es"
    using assms by (intro rn_all_allowed) simp_all
  from rn_grace.grace_freed [OF start(1) this] start(3,4) p show ?thesis
    by (simp add: rn_covered_def not_le) (metis not_le)
qed

theorem rn_read_protects_witness:
  "\<exists>is :: rn_info list. reclaimed (foldl rn_step (rn_set_upper 0 1 (rn_set_upper 0 0 (rn_set_lower 0 0
          (rn_incrementEpoch (rn_new 2 1 1 True True (\<lambda>_. 0)))))) [NRetire 8 1, NInc, NRetire 16 1])
        = map rn_obj is \<and> (\<forall>i \<in> set is. \<not> rn_birth_epoch i \<le> 1)"
  using rn_read_protects [of 0 "rn_set_upper 0 0 (rn_set_lower 0 0
          (rn_incrementEpoch (rn_new 2 1 1 True True (\<lambda>_. 0))))" "[NRetire 8 1, NInc, NRetire 16 1]" 24 0
      "rn_set_upper 0 1 (rn_set_upper 0 0 (rn_set_lower 0 0
          (rn_incrementEpoch (rn_new 2 1 1 True True (\<lambda>_. 0)))))"]
  by (simp add: rn_read_run rn_new_def base_new_def base.extend_def rn_set_upper_def
      rn_set_lower_def rn_incrementEpoch_def)

text \<open>C24: Under interference \<open>read\<close> returns as soon as the others let the epoch rest: with
  \<open>n\<close> interferences to come, \<open>n + 2\<close> rounds are enough; and the epoch it has published when it
  returns is the epoch of that moment.\<close>

theorem rn_read_returns:
  assumes "rely (\<lambda>s s'. rn_upper_reservs s' tid = rn_upper_reservs s tid) w"
  shows "\<exists>p w'. rn_read (length (snd w) + 2) obj tid w = Some (p, w')
     \<and> rn_upper_reservs (fst w') tid = rn_epoch (fst w')"
proof -
  let ?R = "\<lambda>s s' :: range_new. rn_upper_reservs s' tid = rn_upper_reservs s tid"
  obtain r w1 where l: "load (\<lambda>s. rn_upper_reservs s tid) w = (r, w1)" by (metis surj_pair)
  then have w1: "rely ?R w1" "r = rn_upper_reservs (fst w1) tid" "length (snd w1) \<le> length (snd w)"
    using rely_load [OF assms, of "\<lambda>s. rn_upper_reservs s tid"]
      load_env [of "\<lambda>s. rn_upper_reservs s tid" w] load_state [of "\<lambda>s. rn_upper_reservs s tid" w]
      load_val [of "\<lambda>s. rn_upper_reservs s tid" w] length_others [of w] by auto
  have pub: "rn_epoch (rn_set_upper tid e s) = rn_epoch s" for e s by (simp add: rn_set_upper_def)
  from validate_loop_returns [where ep = rn_epoch and pub = "rn_set_upper tid", OF pub, of w1] w1(3)
  obtain p w' where v: "validate_loop (\<lambda>s. cells s obj) rn_epoch (rn_set_upper tid)
      (length (snd w) + 2) r w1 = Some (p, w')" by fastforce
  from validate_loop_sound [OF v, of "\<lambda>s. rn_upper_reservs s tid"] w1
  have "rn_upper_reservs (fst w') tid = rn_epoch (fst w')" by (simp add: rn_set_upper_def)
  with v l show ?thesis by (auto simp: rn_read_def)
qed

theorem rn_read_returns_witness:
  "\<exists>p w'. rn_read 3 24 0 (rn_new 2 1 1 True True (\<lambda>_. 0), [rn_incrementEpoch]) = Some (p, w')
     \<and> rn_upper_reservs (fst w') 0 = rn_epoch (fst w')"
  using rn_read_returns [of 0 "(rn_new 2 1 1 True True (\<lambda>_. 0), [rn_incrementEpoch])" 24]
  by (simp add: rely_def rn_incrementEpoch_def numeral_3_eq_3)

text \<open>\<open>empty\<close> reads \<open>lower\<close> before \<open>upper\<close>, one word at a time.  If during the scan thread
  \<open>t\<close> keeps an interval that meets the life time of an entry, the entry stays.\<close>

theorem rn_empty_interference:
  assumes "stable (\<lambda>s. task_num s = n \<and> i \<in> set (rn_retired s tid)
      \<and> rn_birth_epoch i \<le> rn_upper_reservs s t \<and> rn_lower_reservs s t \<le> rn_retire_epoch i) w"
    and "t < n"
  shows "i \<in> set (rn_retired (fst (rn_empty tid w)) tid)"
proof -
  let ?snap = "snapshot rn_location (rn_locations (task_num (fst w))) (\<lambda>_. 0) w"
  obtain arr s env where eq: "?snap = (arr, (s, env))" by (metis surj_pair)
  have n: "task_num (fst w) = n" using stable_now [OF assms(1)] by simp
  have s: "task_num s = n" "i \<in> set (rn_retired s tid)"
    using stable_now [OF snapshot_world [OF assms(1)]] by (metis eq fst_conv snd_conv)+
  note snap = snapshot_stable [OF assms(1), of _ "rn_locations (task_num (fst w))" rn_location "\<lambda>_. 0"]
  have "rn_birth_epoch i \<le> arr (t, True)" "arr (t, False) \<le> rn_retire_epoch i"
    using snap [of "(t, True)"] snap [of "(t, False)"] n assms(2) eq
    by (auto simp: set_rn_locations rn_location_def)
  with s assms(2) show ?thesis
    by (auto simp: rn_empty_def eq own_def rn_sweep_def sweep_plain rn_conflict_def
        rn_conflict_from_iff)
qed

theorem rn_empty_interference_witness:
  "\<lparr>rn_obj = 8, rn_birth_epoch = 3, rn_retire_epoch = 7\<rparr> \<in> set (rn_retired (fst (rn_empty 0
     ((rn_new 2 1 1 True True (\<lambda>_. 0))\<lparr>rn_upper_reservs := (\<lambda>_. 9), rn_lower_reservs := (\<lambda>_. 5),
       rn_retired := (\<lambda>_. [\<lparr>rn_obj = 8, rn_birth_epoch = 3, rn_retire_epoch = 7\<rparr>])\<rparr>,
      [rn_incrementEpoch]))) 0)"
  by (rule rn_empty_interference [of 2 _ _ 1])
    (simp_all add: stable_def rn_new_def base_new_def base.extend_def rn_incrementEpoch_def)

end
