(* ===== verification/He.thy ===== *)
theory He
  imports Base_Tracker
begin

text \<open>
  \<open>trackers/HETracker.hpp\<close>: hazard eras.  Every thread has \<open>he_num\<close> slots; slot \<open>(t, j)\<close> holds
  an epoch or 0 for none, the epoch starts at 1.  A \<open>read\<close> publishes the current epoch in its
  slot before it returns the link.  An object is kept while a slot holds an epoch of its life
  time.
\<close>

record he_info =
  he_obj :: ptr
  he_birth_epoch :: u64
  he_retire_epoch :: u64

record he = base +
  he_num :: nat
  he_epochFreq :: nat
  he_freq :: nat
  he_collect :: bool
  he_reservations :: "nat \<times> nat \<Rightarrow> u64"
  he_local_reservations :: "nat \<Rightarrow> nat \<times> nat \<Rightarrow> u64"
  he_retire_counters :: "nat \<Rightarrow> u64"
  he_alloc_counters :: "nat \<Rightarrow> u64"
  he_retired :: "nat \<Rightarrow> he_info list"
  he_epoch :: u64
  he_birth :: "ptr \<Rightarrow> u64"

definition he_new :: "nat \<Rightarrow> nat \<Rightarrow> nat \<Rightarrow> nat \<Rightarrow> bool \<Rightarrow> bool \<Rightarrow> (ptr \<Rightarrow> ptr) \<Rightarrow> he" where
  "he_new n k epochFreq emptyFreq collect cnt mem =
     base.extend (base_new n cnt mem)
       \<lparr>he_num = k, he_epochFreq = epochFreq, he_freq = emptyFreq, he_collect = collect,
        he_reservations = (\<lambda>_. 0), he_local_reservations = (\<lambda>_ _. 0),
        he_retire_counters = (\<lambda>_. 0), he_alloc_counters = (\<lambda>_. 0), he_retired = (\<lambda>_. []),
        he_epoch = 1, he_birth = (\<lambda>_. 0)\<rparr>"

definition he_incrementEpoch :: "he \<Rightarrow> he" where
  "he_incrementEpoch s = s\<lparr>he_epoch := he_epoch s + 1\<rparr>"

definition he_alloc :: "nat \<Rightarrow> ptr \<Rightarrow> he world \<Rightarrow> ptr \<times> he world" where
  "he_alloc tid blk w =
     (let w = own (\<lambda>s. s\<lparr>he_alloc_counters :=
                (he_alloc_counters s)(tid := he_alloc_counters s tid + 1)\<rparr>) w;
          s = fst w;
          w = (if he_alloc_counters s tid mod of_nat (he_epochFreq s * task_num s) = 0
               then bump he_incrementEpoch w else w);
          (e, w) = load he_epoch w
      in (blk, own (\<lambda>s. s\<lparr>he_birth := (he_birth s)(blk := e)\<rparr>) w))"

definition he_set :: "nat \<times> nat \<Rightarrow> u64 \<Rightarrow> he \<Rightarrow> he" where
  "he_set l e s = s\<lparr>he_reservations := (he_reservations s)(l := e)\<rparr>"

definition he_read :: "nat \<Rightarrow> ptr \<Rightarrow> nat \<Rightarrow> nat \<Rightarrow> he world \<Rightarrow> (ptr \<times> he world) option" where
  "he_read fuel obj index tid w =
     (let (prev_epoch, w) = load (\<lambda>s. he_reservations s (tid, index)) w
      in validate_loop (\<lambda>s. cells s obj) he_epoch (he_set (tid, index)) fuel prev_epoch w)"

definition he_reserve_slot :: "nat \<Rightarrow> ptr \<Rightarrow> nat \<Rightarrow> nat \<Rightarrow> he world \<Rightarrow> he world option" where
  "he_reserve_slot fuel obj index tid w =
     (let (prev_epoch, w) = load (\<lambda>s. he_reservations s (tid, index)) w
      in reserve_loop he_epoch (he_set (tid, index)) fuel prev_epoch w)"

fun he_clear_from :: "nat list \<Rightarrow> nat \<Rightarrow> he world \<Rightarrow> he world" where
  "he_clear_from [] tid w = w"
| "he_clear_from (i # js) tid w = he_clear_from js tid (store (he_set (tid, i) 0) w)"

definition he_clear_all :: "nat \<Rightarrow> he world \<Rightarrow> he world" where
  "he_clear_all tid w = he_clear_from [0..<he_num (fst w)] tid w"

fun he_can_delete_row :: "nat \<Rightarrow> nat list \<Rightarrow> (nat \<times> nat \<Rightarrow> u64) \<Rightarrow> u64 \<Rightarrow> u64 \<Rightarrow> bool" where
  "he_can_delete_row i [] local birth retire = True"
| "he_can_delete_row i (j # js) local birth retire =
     (let epo = local (i, j)
      in if epo < birth \<or> epo > retire \<or> epo = 0 then he_can_delete_row i js local birth retire
         else False)"

fun he_can_delete_from :: "nat list \<Rightarrow> nat \<Rightarrow> (nat \<times> nat \<Rightarrow> u64) \<Rightarrow> u64 \<Rightarrow> u64 \<Rightarrow> bool" where
  "he_can_delete_from [] k local birth retire = True"
| "he_can_delete_from (i # is) k local birth retire =
     (if he_can_delete_row i [0..<k] local birth retire
      then he_can_delete_from is k local birth retire else False)"

definition he_can_delete :: "(nat \<times> nat \<Rightarrow> u64) \<Rightarrow> u64 \<Rightarrow> u64 \<Rightarrow> he \<Rightarrow> bool" where
  "he_can_delete local birth retire s =
     he_can_delete_from [0..<task_num s] (he_num s) local birth retire"

definition he_locations :: "he \<Rightarrow> (nat \<times> nat) list" where
  "he_locations s = List.product [0..<task_num s] [0..<he_num s]"

definition he_sweep :: "nat \<Rightarrow> he \<Rightarrow> he" where
  "he_sweep tid s =
     (let (left, s) = sweep plain_reclaim
             (\<lambda>i. he_can_delete (he_local_reservations s tid) (he_birth_epoch i) (he_retire_epoch i) s)
             he_obj tid (he_retired s tid) s
      in s\<lparr>he_retired := (he_retired s)(tid := left)\<rparr>)"

definition he_empty :: "nat \<Rightarrow> he world \<Rightarrow> he world" where
  "he_empty tid w =
     (if he_retired (fst w) tid = [] then w
      else let (arr, w) = snapshot (\<lambda>l s. he_reservations s l) (he_locations (fst w))
                            (he_local_reservations (fst w) tid) w;
               w = own (\<lambda>s. s\<lparr>he_local_reservations := (he_local_reservations s)(tid := arr)\<rparr>) w
           in own (he_sweep tid) w)"

definition he_push :: "ptr \<Rightarrow> u64 \<Rightarrow> nat \<Rightarrow> he \<Rightarrow> he" where
  "he_push obj e tid s = s\<lparr>he_retired := (he_retired s)(tid :=
      \<lparr>he_obj = obj, he_birth_epoch = he_birth s obj, he_retire_epoch = e\<rparr> # he_retired s tid)\<rparr>"

definition he_due :: "nat \<Rightarrow> he \<Rightarrow> bool" where
  "he_due tid s \<longleftrightarrow> he_collect s \<and> he_retire_counters s tid mod of_nat (he_freq s) = 0"

definition he_tick :: "nat \<Rightarrow> he \<Rightarrow> he" where
  "he_tick tid s =
     s\<lparr>he_retire_counters := (he_retire_counters s)(tid := he_retire_counters s tid + 1)\<rparr>"

definition he_retire :: "ptr \<Rightarrow> nat \<Rightarrow> he world \<Rightarrow> he world" where
  "he_retire obj tid w =
     (if obj = nullptr then w
      else let (e, w) = load he_epoch w;
               w = own (he_push obj e tid) w;
               w = (if he_due tid (fst w) then he_empty tid w else w)
           in own (he_tick tid) w)"

section \<open>What \<open>empty\<close> keeps and frees\<close>

definition he_hit :: "u64 \<Rightarrow> he_info \<Rightarrow> bool" where
  "he_hit e i \<longleftrightarrow> e \<noteq> 0 \<and> he_birth_epoch i \<le> e \<and> e \<le> he_retire_epoch i"

lemma he_can_delete_row_iff:
  "he_can_delete_row t js local (he_birth_epoch i) (he_retire_epoch i) \<longleftrightarrow>
     (\<forall>j \<in> set js. \<not> he_hit (local (t, j)) i)"
  by (induction js) (auto simp: he_hit_def Let_def not_le)

lemma he_can_delete_from_iff:
  "he_can_delete_from ts k local (he_birth_epoch i) (he_retire_epoch i) \<longleftrightarrow>
     (\<forall>t \<in> set ts. \<forall>j<k. \<not> he_hit (local (t, j)) i)"
  by (induction ts) (auto simp: he_can_delete_row_iff)

definition he_protected :: "he \<Rightarrow> he_info \<Rightarrow> bool" where
  "he_protected s i \<longleftrightarrow>
     (\<exists>t < task_num s. \<exists>j < he_num s. he_hit (he_reservations s (t, j)) i)"

lemma he_empty_eq:
  "solo (he_empty tid) s = (if he_retired s tid = [] then s
     else give_back (map he_obj (filter (\<lambda>i. \<not> he_protected s i) (he_retired s tid))) s
       \<lparr>he_retired := (he_retired s)(tid := filter (he_protected s) (he_retired s tid)),
        he_local_reservations := (he_local_reservations s)(tid := \<lambda>l.
           if l \<in> set (he_locations s) then he_reservations s l else he_local_reservations s tid l)\<rparr>)"
proof -
  have "he_can_delete_from [0..<task_num s] (he_num s)
      (\<lambda>l. if l \<in> set (he_locations s) then he_reservations s l else he_local_reservations s tid l)
      (he_birth_epoch i) (he_retire_epoch i) \<longleftrightarrow> \<not> he_protected s i" for i
    by (auto simp: he_can_delete_from_iff he_protected_def he_locations_def)
  then show ?thesis
    by (simp add: he_empty_def world_simps he_sweep_def he_can_delete_def sweep_plain give_back_def)
qed

interpretation he: reclaimer "\<lambda>_. True" he_retired he_obj reclaimed he_protected
    "\<lambda>tid. solo (he_empty tid)"
  by unfold_locales
    (auto simp: he_empty_eq give_back_def he_protected_def [abs_def] fun_upd_idem)

section \<open>Sequences of operations and the grace period\<close>

datatype he_event =
    EAlloc nat ptr
  | ERead ptr nat nat
  | EReserve ptr nat nat
  | EClear nat
  | ERetire ptr nat
  | EInc

fun he_step :: "he \<Rightarrow> he_event \<Rightarrow> he" where
  "he_step s (EAlloc tid blk) = fst (snd (he_alloc tid blk (s, [])))"
| "he_step s (ERead obj index tid) =
     (case he_read 2 obj index tid (s, []) of Some (p, w) \<Rightarrow> fst w | None \<Rightarrow> s)"
| "he_step s (EReserve p index tid) =
     (case he_reserve_slot 2 p index tid (s, []) of Some w \<Rightarrow> fst w | None \<Rightarrow> s)"
| "he_step s (EClear tid) = solo (he_clear_all tid) s"
| "he_step s (ERetire obj tid) = solo (he_retire obj tid) s"
| "he_step s EInc = he_incrementEpoch s"

lemma he_due_push: "he_due tid (he_push obj e tid' s) = he_due tid s"
  by (simp add: he_due_def he_push_def)

lemma he_retire_eq:
  "solo (he_retire obj tid) s = (if obj = nullptr then s
     else he_tick tid (if he_due tid s then solo (he_empty tid) (he_push obj (he_epoch s) tid s)
                       else he_push obj (he_epoch s) tid s))"
  by (simp add: he_retire_def world_simps Let_def he_due_push)

lemmas he_op_defs = he_alloc_def he_incrementEpoch_def he_set_def Let_def world_simps

lemma he_read_run:
  "he_read 2 obj j tid (s, []) = Some (cells s obj, (he_set (tid, j) (he_epoch s) s, []))"
  by (simp add: he_read_def world_simps validate_loop_alone he_set_def fun_upd_idem)

lemma he_reserve_run:
  "he_reserve_slot 2 p j tid (s, []) = Some (he_set (tid, j) (he_epoch s) s, [])"
  by (simp add: he_reserve_slot_def world_simps reserve_loop_alone he_set_def fun_upd_idem)

lemma he_clear_from_alone:
  "he_clear_from js tid (s, []) =
     (s\<lparr>he_reservations := (\<lambda>l. if fst l = tid \<and> snd l \<in> set js then 0 else he_reservations s l)\<rparr>, [])"
  by (induction js arbitrary: s) (auto simp: world_simps he_set_def fun_eq_iff)

lemma he_clear_all_alone:
  "solo (he_clear_all tid) s =
     s\<lparr>he_reservations := (\<lambda>l. if fst l = tid \<and> snd l < he_num s then 0 else he_reservations s l)\<rparr>"
  by (simp add: he_clear_all_def he_clear_from_alone)

lemmas he_step_defs = he_op_defs he_read_run he_reserve_run he_clear_all_alone

text \<open>Slot \<open>l\<close> holds the era \<open>e\<close>, published at an epoch that is not above the current one.\<close>

definition he_holds :: "nat \<times> nat \<Rightarrow> u64 \<Rightarrow> he \<Rightarrow> bool" where
  "he_holds l e s \<longleftrightarrow> fst l < task_num s \<and> snd l < he_num s \<and> he_reservations s l = e
     \<and> e \<noteq> 0 \<and> e \<le> he_epoch s"

definition he_touches :: "nat \<times> nat \<Rightarrow> he_event \<Rightarrow> bool" where
  "he_touches l ev \<longleftrightarrow> (case ev of ERead obj j t \<Rightarrow> l = (t, j) | EReserve p j t \<Rightarrow> l = (t, j)
     | EClear t \<Rightarrow> fst l = t | _ \<Rightarrow> False)"

definition he_allowed :: "nat \<times> nat \<Rightarrow> he \<Rightarrow> he_event \<Rightarrow> bool" where
  "he_allowed l s ev \<longleftrightarrow> \<not> he_touches l ev \<and> he_epoch s \<noteq> UINT64_MAX"

lemma he_retire_fields [simp]:
  "task_num (solo (he_retire obj tid) s) = task_num s"
  "he_num (solo (he_retire obj tid) s) = he_num s"
  "he_epoch (solo (he_retire obj tid) s) = he_epoch s"
  "he_reservations (solo (he_retire obj tid) s) = he_reservations s"
  by (simp_all add: he_retire_eq he_empty_eq he_push_def he_tick_def give_back_def)

lemma he_retire_retired:
  assumes "i \<in> set (he_retired (solo (he_retire obj tid) s) t)"
  shows "i \<in> set (he_retired s t) \<or> he_retire_epoch i = he_epoch s"
  using assms
  by (auto simp: he_retire_eq he_empty_eq he_push_def he_tick_def give_back_def split: if_splits)

lemma he_retire_freed:
  "\<exists>is. reclaimed (solo (he_retire obj tid) s) = reclaimed s @ map he_obj is \<and>
     (\<forall>i \<in> set is. \<not> he_protected s i \<and> (i \<in> set (he_retired s tid) \<or> he_retire_epoch i = he_epoch s))"
proof -
  have prot: "he_protected (he_push obj e tid s) = he_protected s" for e
    by (simp add: he_push_def he_protected_def [abs_def])
  show ?thesis
  proof (cases "obj \<noteq> nullptr \<and> he_due tid s")
    case True
    then show ?thesis
      by (intro exI [of _ "filter (\<lambda>i. \<not> he_protected s i) (he_retired (he_push obj (he_epoch s) tid s) tid)"])
        (auto simp: he_retire_eq he_tick_def he.freed_empty prot, auto simp: he_push_def)
  next
    case False
    then show ?thesis by (auto simp: he_retire_eq he_push_def he_tick_def)
  qed
qed

lemma he_epoch_step: "he_epoch s \<noteq> UINT64_MAX \<Longrightarrow>
    he_epoch s \<le> he_epoch (he_step s ev) \<and> unat (he_epoch (he_step s ev)) \<le> Suc (unat (he_epoch s))"
  using word_inc_le [of "he_epoch s"]
  by (cases ev) (auto simp: he_step_defs unat_inc)

lemma he_holds_step:
  assumes "he_holds l e s" "he_allowed l s ev"
  shows "he_holds l e (he_step s ev)"
proof -
  have inc: "he_epoch s \<le> he_epoch (he_step s ev)"
    using assms(2) he_epoch_step [of s ev] by (simp add: he_allowed_def)
  have "task_num (he_step s ev) = task_num s" "he_num (he_step s ev) = he_num s"
    "he_reservations (he_step s ev) l = he_reservations s l"
    using assms by (cases ev; auto simp: he_step_defs he_allowed_def he_touches_def)+
  with assms inc show ?thesis by (auto simp: he_holds_def)
qed

interpretation he_grace: grace "he_holds l e" he_retired he_obj reclaimed "\<lambda>_. he_hit e"
    "\<lambda>i. he_birth_epoch i \<le> e" "he_allowed l" he_step for l e
proof
  fix s ev
  assume ok: "he_holds l e s" and al: "he_allowed l s ev"
  show "he_holds l e (he_step s ev)" by (rule he_holds_step [OF ok al])
  show "he_hit e i" if "he_hit e i" for i using that .
  show "i \<in> set (he_retired s t') \<or> he_hit e i"
    if "i \<in> set (he_retired (he_step s ev) t')" "he_birth_epoch i \<le> e" for i t'
    using that ok by (cases ev) (auto simp: he_step_defs he_hit_def he_holds_def
        split: if_splits dest!: he_retire_retired)
  show "\<exists>is. reclaimed (he_step s ev) = reclaimed s @ map he_obj is \<and> (\<forall>i\<in>set is.
      \<not> he_hit e i \<and> (he_birth_epoch i \<le> e \<longrightarrow> (\<exists>t. i \<in> set (he_retired s t))))"
  proof (cases ev)
    case (ERetire p tid)
    from he_retire_freed [of p tid s] obtain js where
      js: "reclaimed (solo (he_retire p tid) s) = reclaimed s @ map he_obj js"
        "\<forall>i \<in> set js. \<not> he_protected s i \<and> (i \<in> set (he_retired s tid) \<or> he_retire_epoch i = he_epoch s)"
      by blast
    have "\<not> he_hit e i \<and> (he_birth_epoch i \<le> e \<longrightarrow> (\<exists>t. i \<in> set (he_retired s t)))"
      if "i \<in> set js" for i
    proof -
      obtain t j where l: "l = (t, j)" by fastforce
      from js(2) that ok have nc: "\<not> he_hit e i"
        by (auto simp: he_protected_def he_holds_def l)
      with js(2) that ok show ?thesis by (auto simp: he_hit_def he_holds_def)
    qed
    then show ?thesis
      using js ERetire by (intro exI [of _ js]) auto
  qed (auto simp: he_step_defs)
qed

lemma he_all_allowed:
  assumes "he_holds l e s" "\<forall>ev \<in> set es. \<not> he_touches l ev"
    and "unat (he_epoch s) + length es < 2 ^ 64"
  shows "he_grace.all_allowed l s es"
  using assms
proof (induction es arbitrary: s)
  case Nil
  then show ?case by simp
next
  case (Cons ev es)
  from Cons.prems(3) have ne: "he_epoch s \<noteq> UINT64_MAX" using unat_max by auto
  with Cons.prems(2) have al: "he_allowed l s ev" by (simp add: he_allowed_def)
  show ?case
    using al Cons.IH [of "he_step s ev"] Cons.prems he_holds_step [OF Cons.prems(1) al]
      he_epoch_step [OF ne, of ev]
    by simp
qed

section \<open>Properties\<close>

text \<open>\<open>HETracker::empty\<close> reclaims exactly the entries of the caller's list whose life time
  contains no published era (0 is "none"), in list order, and keeps the others.\<close>

theorem he_empty_exact:
  "he_retired (solo (he_empty tid) s) tid = filter (\<lambda>i. \<exists>t < task_num s. \<exists>j < he_num s.
       he_reservations s (t, j) \<noteq> 0 \<and> he_birth_epoch i \<le> he_reservations s (t, j)
       \<and> he_reservations s (t, j) \<le> he_retire_epoch i) (he_retired s tid)
   \<and> mset (map he_obj (he_retired (solo (he_empty tid) s) tid)) + mset (reclaimed (solo (he_empty tid) s))
       = mset (map he_obj (he_retired s tid)) + mset (reclaimed s)"
  using he.conservation [of tid s] he.limbo_empty [of tid s]
  by (simp add: he_protected_def [abs_def] he_hit_def)

text \<open>C25: A hazard era protects.  Thread \<open>t\<close> reads a link with slot \<open>j\<close>.  As long as \<open>t\<close> does
  not use that slot again and does not call \<open>clear_all\<close>, an object born by the epoch of the read
  is reclaimed only if it had been retired before the read, at an epoch below it.\<close>

theorem he_read_protects:
  assumes "t < task_num s" "j < he_num s" "0 < he_epoch s"
    and "\<forall>ev \<in> set es. \<not> he_touches (t, j) ev"
    and "unat (he_epoch s) + length es < 2 ^ 64"
    and "he_read 2 obj j t (s, []) = Some (p, (s', []))"
  shows "p = cells s obj \<and> (\<exists>is. reclaimed (foldl he_step s' es) = reclaimed s @ map he_obj is
     \<and> (\<forall>i \<in> set is. he_birth_epoch i \<le> he_epoch s \<longrightarrow>
            (\<exists>u. i \<in> set (he_retired s u)) \<and> he_retire_epoch i < he_epoch s))"
proof -
  have s': "s' = he_set (t, j) (he_epoch s) s" and p: "p = cells s obj"
    using assms(6) by (auto simp: he_read_run)
  have start: "he_holds (t, j) (he_epoch s) s'" "he_epoch s' = he_epoch s"
    "reclaimed s' = reclaimed s" "he_retired s' = he_retired s"
    using assms(1,2,3) by (simp_all add: s' he_set_def he_holds_def word_neq_0_conv)
  then have "he_grace.all_allowed (t, j) s' es"
    using assms by (intro he_all_allowed) simp_all
  from he_grace.grace_freed [OF start(1) this] start(3,4) p assms(3) show ?thesis
    by (simp add: he_hit_def not_le word_neq_0_conv) (metis not_le)
qed

theorem he_read_protects_witness:
  "\<exists>is :: he_info list. reclaimed (foldl he_step (he_set (0, 0) 1 (he_new 2 1 1 1 True True (\<lambda>_. 0)))
       [ERetire 8 1, EInc, EAlloc 1 16, ERetire 16 1]) = map he_obj is \<and> (\<forall>i \<in> set is. \<not> he_birth_epoch i \<le> 1)"
  using he_read_protects [of 0 "he_new 2 1 1 1 True True (\<lambda>_. 0)" 0
      "[ERetire 8 1, EInc, EAlloc 1 16, ERetire 16 1]" 24 0 "he_set (0, 0) 1 (he_new 2 1 1 1 True True (\<lambda>_. 0))"]
  by (simp add: he_read_run he_touches_def he_new_def base_new_def base.extend_def he_set_def
      he_incrementEpoch_def del: he_step.simps)

text \<open>The slots are copied one load at a time.  A hazard era in the life time of an entry
  that stands during the copy keeps the entry.\<close>

theorem he_empty_interference:
  assumes "stable (\<lambda>s. task_num s = n \<and> he_num s = k \<and> i \<in> set (he_retired s tid)
      \<and> he_hit (he_reservations s (t, j)) i) w"
    and "t < n" "j < k"
  shows "i \<in> set (he_retired (fst (he_empty tid w)) tid)"
proof -
  let ?snap = "snapshot (\<lambda>l s. he_reservations s l) (he_locations (fst w))
     (he_local_reservations (fst w) tid) w"
  obtain arr s env where eq: "?snap = (arr, (s, env))" by (metis surj_pair)
  have n: "task_num (fst w) = n" "he_num (fst w) = k" "he_retired (fst w) tid \<noteq> []"
    using stable_now [OF assms(1)] by auto
  have s: "task_num s = n" "he_num s = k" "i \<in> set (he_retired s tid)"
    using stable_now [OF snapshot_world [OF assms(1)]] by (metis eq fst_conv snd_conv)+
  have "he_hit (arr (t, j)) i"
    using snapshot_stable [OF assms(1), of "(t, j)" "he_locations (fst w)" "\<lambda>l s. he_reservations s l"
        "he_local_reservations (fst w) tid"] n assms(2,3) eq
    by (auto simp: he_locations_def)
  with s assms(2,3) have "\<not> he_can_delete arr (he_birth_epoch i) (he_retire_epoch i) s"
    by (auto simp: he_can_delete_def he_can_delete_from_iff)
  then show ?thesis
    using s n by (simp add: he_empty_def eq own_def he_sweep_def sweep_plain he_can_delete_def)
qed

theorem he_empty_interference_witness:
  "\<lparr>he_obj = 8, he_birth_epoch = 3, he_retire_epoch = 7\<rparr> \<in> set (he_retired (fst (he_empty 0
     ((he_new 2 1 1 1 True True (\<lambda>_. 0))\<lparr>he_reservations := (\<lambda>_. 5),
       he_retired := (\<lambda>_. [\<lparr>he_obj = 8, he_birth_epoch = 3, he_retire_epoch = 7\<rparr>])\<rparr>,
      [he_incrementEpoch]))) 0)"
  by (rule he_empty_interference [of 2 1 _ _ 1 0])
    (simp_all add: stable_def he_new_def base_new_def base.extend_def he_incrementEpoch_def he_hit_def)

end
