(* ===== verification/Hazard.thy ===== *)
theory Hazard
  imports Base_Tracker
begin

text \<open>
  \<open>trackers/HazardTracker.hpp\<close>: hazard pointers.  Slot \<open>(t, j)\<close> publishes a pointer, with the
  two mark bits of the link cleared; \<open>read\<close> publishes and then loads the link again.  The
  retire counter is an \<open>int\<close> that \<open>empty\<close> resets at \<open>freq\<close>.
\<close>

record hazard = base +
  hz_slotsPerThread :: nat
  hz_freq :: int
  hz_collect :: bool
  hz_slots :: "nat \<times> nat \<Rightarrow> ptr"
  hz_local_slots :: "nat \<Rightarrow> nat \<times> nat \<Rightarrow> ptr"
  hz_retired :: "nat \<Rightarrow> ptr list"
  hz_cntrs :: "nat \<Rightarrow> int"

definition hz_new :: "nat \<Rightarrow> nat \<Rightarrow> int \<Rightarrow> bool \<Rightarrow> bool \<Rightarrow> (ptr \<Rightarrow> ptr) \<Rightarrow> hazard" where
  "hz_new n k emptyFreq collect cnt mem =
     base.extend (base_new n cnt mem)
       \<lparr>hz_slotsPerThread = k, hz_freq = emptyFreq, hz_collect = collect,
        hz_slots = (\<lambda>_. nullptr), hz_local_slots = (\<lambda>_ _. nullptr), hz_retired = (\<lambda>_. []),
        hz_cntrs = (\<lambda>_. 0)\<rparr>"

definition hz_mask :: "ptr \<Rightarrow> ptr" where
  "hz_mask p = p AND 0xfffffffffffffffc"

definition hz_set :: "nat \<times> nat \<Rightarrow> ptr \<Rightarrow> hazard \<Rightarrow> hazard" where
  "hz_set l p s = s\<lparr>hz_slots := (hz_slots s)(l := p)\<rparr>"

definition hz_reserve_slot :: "ptr \<Rightarrow> nat \<Rightarrow> nat \<Rightarrow> hazard world \<Rightarrow> hazard world" where
  "hz_reserve_slot p slot tid w = store (hz_set (tid, slot) p) w"

fun hz_read :: "nat \<Rightarrow> ptr \<Rightarrow> nat \<Rightarrow> nat \<Rightarrow> hazard world \<Rightarrow> (ptr \<times> hazard world) option" where
  "hz_read 0 obj idx tid w = None"
| "hz_read (Suc fuel) obj idx tid w =
     (let (ret, w) = load (\<lambda>s. cells s obj) w;
          realptr = hz_mask ret;
          w = hz_reserve_slot realptr idx tid w;
          (again, w) = load (\<lambda>s. cells s obj) w
      in if ret = again then Some (ret, w) else hz_read fuel obj idx tid w)"

definition hz_clearSlot :: "nat \<Rightarrow> nat \<Rightarrow> hazard world \<Rightarrow> hazard world" where
  "hz_clearSlot slot tid w = store (hz_set (tid, slot) nullptr) w"

fun hz_clear_from :: "nat list \<Rightarrow> nat \<Rightarrow> hazard world \<Rightarrow> hazard world" where
  "hz_clear_from [] tid w = w"
| "hz_clear_from (i # js) tid w = hz_clear_from js tid (store (hz_set (tid, i) nullptr) w)"

definition hz_clearAll :: "nat \<Rightarrow> hazard world \<Rightarrow> hazard world" where
  "hz_clearAll tid w = hz_clear_from [0..<hz_slotsPerThread (fst w)] tid w"

definition hz_clear_all :: "nat \<Rightarrow> hazard world \<Rightarrow> hazard world" where
  "hz_clear_all tid w = hz_clearAll tid w"

definition hz_alloc :: "nat \<Rightarrow> ptr \<Rightarrow> hazard world \<Rightarrow> ptr \<times> hazard world" where
  "hz_alloc tid blk w = (blk, w)"

definition hz_locations :: "hazard \<Rightarrow> (nat \<times> nat) list" where
  "hz_locations s = List.product [0..<task_num s] [0..<hz_slotsPerThread s]"

text \<open>The inner loop breaks at the first hit, the outer one goes on to the next thread.\<close>

fun hz_danger_row :: "nat \<Rightarrow> nat list \<Rightarrow> (nat \<times> nat \<Rightarrow> ptr) \<Rightarrow> ptr \<Rightarrow> bool \<Rightarrow> bool" where
  "hz_danger_row i [] local p danger = danger"
| "hz_danger_row i (j # js) local p danger =
     (if p = local (i, j) then True else hz_danger_row i js local p danger)"

fun hz_danger_from :: "nat list \<Rightarrow> nat \<Rightarrow> (nat \<times> nat \<Rightarrow> ptr) \<Rightarrow> ptr \<Rightarrow> bool \<Rightarrow> bool" where
  "hz_danger_from [] k local p danger = danger"
| "hz_danger_from (i # is) k local p danger =
     hz_danger_from is k local p (hz_danger_row i [0..<k] local p danger)"

definition hz_sweep :: "nat \<Rightarrow> hazard \<Rightarrow> hazard" where
  "hz_sweep tid s =
     (let (left, s) = sweep base_reclaim
             (\<lambda>p. \<not> hz_danger_from [0..<task_num s] (hz_slotsPerThread s) (hz_local_slots s tid) p False)
             id tid (hz_retired s tid) s
      in s\<lparr>hz_retired := (hz_retired s)(tid := left)\<rparr>)"

definition hz_empty :: "nat \<Rightarrow> hazard world \<Rightarrow> hazard world" where
  "hz_empty tid w =
     (if hz_retired (fst w) tid = [] then w
      else let (arr, w) = snapshot (\<lambda>l s. hz_slots s l) (hz_locations (fst w))
                            (hz_local_slots (fst w) tid) w;
               w = own (\<lambda>s. s\<lparr>hz_local_slots := (hz_local_slots s)(tid := arr)\<rparr>) w
           in own (hz_sweep tid) w)"

definition hz_push :: "ptr \<Rightarrow> nat \<Rightarrow> hazard \<Rightarrow> hazard" where
  "hz_push p tid s = s\<lparr>hz_retired := (hz_retired s)(tid := p # hz_retired s tid)\<rparr>"

definition hz_due :: "nat \<Rightarrow> hazard \<Rightarrow> bool" where
  "hz_due tid s \<longleftrightarrow> hz_collect s \<and> hz_cntrs s tid = hz_freq s"

definition hz_set_cntr :: "nat \<Rightarrow> int \<Rightarrow> hazard \<Rightarrow> hazard" where
  "hz_set_cntr tid c s = s\<lparr>hz_cntrs := (hz_cntrs s)(tid := c)\<rparr>"

definition hz_retire :: "ptr \<Rightarrow> nat \<Rightarrow> hazard world \<Rightarrow> hazard world" where
  "hz_retire p tid w =
     (if p = nullptr then w
      else let w = own (hz_push p tid) w;
               w = (if hz_due tid (fst w) then hz_empty tid (own (hz_set_cntr tid 0) w) else w)
           in own (\<lambda>s. hz_set_cntr tid (hz_cntrs s tid + 1) s) w)"

section \<open>What \<open>empty\<close> keeps and frees\<close>

definition hz_inv :: "hazard \<Rightarrow> bool" where
  "hz_inv s \<longleftrightarrow> (\<forall>t. nullptr \<notin> set (hz_retired s t))"

definition hz_protected :: "hazard \<Rightarrow> ptr \<Rightarrow> bool" where
  "hz_protected s p \<longleftrightarrow> (\<exists>t < task_num s. \<exists>j < hz_slotsPerThread s. hz_slots s (t, j) = p)"

lemma hz_danger_row_iff:
  "hz_danger_row i js local p d \<longleftrightarrow> d \<or> (\<exists>j \<in> set js. local (i, j) = p)"
  by (induction js) auto

lemma hz_danger_from_iff:
  "hz_danger_from ts k local p d \<longleftrightarrow> d \<or> (\<exists>t \<in> set ts. \<exists>j<k. local (t, j) = p)"
  by (induction ts arbitrary: d) (auto simp: hz_danger_row_iff)

lemma hz_empty_eq:
  assumes "hz_inv s"
  shows "solo (hz_empty tid) s = (if hz_retired s tid = [] then s
     else give_back (filter (\<lambda>i. \<not> hz_protected s i) (hz_retired s tid)) s
       \<lparr>hz_retired := (hz_retired s)(tid := filter (hz_protected s) (hz_retired s tid)),
        hz_local_slots := (hz_local_slots s)(tid := \<lambda>l.
           if l \<in> set (hz_locations s) then hz_slots s l else hz_local_slots s tid l)\<rparr>)"
proof -
  have "hz_danger_from [0..<task_num s] (hz_slotsPerThread s)
      (\<lambda>l. if l \<in> set (hz_locations s) then hz_slots s l else hz_local_slots s tid l) p False
      \<longleftrightarrow> hz_protected s p" for p
    by (auto simp: hz_danger_from_iff hz_protected_def hz_locations_def)
  moreover have "nullptr \<notin> set (hz_retired s tid)" using assms by (auto simp: hz_inv_def)
  ultimately show ?thesis
    by (simp add: hz_empty_def world_simps hz_sweep_def sweep_base give_back_def)
qed

interpretation hz: reclaimer hz_inv hz_retired id reclaimed hz_protected
    "\<lambda>tid. solo (hz_empty tid)"
  by unfold_locales
    (auto simp: hz_empty_eq give_back_def hz_protected_def [abs_def] fun_upd_idem hz_inv_def)

section \<open>Sequences of operations\<close>

datatype hz_event =
    HAlloc nat ptr
  | HRead ptr nat nat
  | HReserve ptr nat nat
  | HClearSlot nat nat
  | HClear nat
  | HRetire ptr nat

fun hz_step :: "hazard \<Rightarrow> hz_event \<Rightarrow> hazard" where
  "hz_step s (HAlloc tid blk) = fst (snd (hz_alloc tid blk (s, [])))"
| "hz_step s (HRead obj idx tid) =
     (case hz_read 1 obj idx tid (s, []) of Some (p, w) \<Rightarrow> fst w | None \<Rightarrow> s)"
| "hz_step s (HReserve p slot tid) = solo (hz_reserve_slot p slot tid) s"
| "hz_step s (HClearSlot slot tid) = solo (hz_clearSlot slot tid) s"
| "hz_step s (HClear tid) = solo (hz_clear_all tid) s"
| "hz_step s (HRetire p tid) = solo (hz_retire p tid) s"

lemma hz_read_alone:
  "hz_read (Suc n) obj j tid (s, []) =
     Some (cells s obj, (hz_set (tid, j) (hz_mask (cells s obj)) s, []))"
  by (simp add: hz_reserve_slot_def world_simps hz_set_def)

lemma hz_clear_from_alone:
  "hz_clear_from js tid (s, []) =
     (s\<lparr>hz_slots := (\<lambda>l. if fst l = tid \<and> snd l \<in> set js then nullptr else hz_slots s l)\<rparr>, [])"
  by (induction js arbitrary: s) (auto simp: world_simps hz_set_def fun_eq_iff)

lemma hz_read_run: "hz_read 1 obj j tid (s, []) =
     Some (cells s obj, (hz_set (tid, j) (hz_mask (cells s obj)) s, []))"
  using hz_read_alone [of 0] by simp

lemma hz_push_inv: "hz_inv s \<Longrightarrow> p \<noteq> nullptr \<Longrightarrow> hz_inv (hz_set_cntr tid c (hz_push p tid s))"
  by (auto simp: hz_inv_def hz_push_def hz_set_cntr_def)

lemma hz_retire_eq:
  "solo (hz_retire p tid) s = (if p = nullptr then s
     else let s' = (if hz_due tid s then solo (hz_empty tid) (hz_set_cntr tid 0 (hz_push p tid s))
                    else hz_push p tid s)
          in hz_set_cntr tid (hz_cntrs s' tid + 1) s')"
proof -
  have "hz_due tid (hz_push p tid s) = hz_due tid s" by (simp add: hz_due_def hz_push_def)
  then show ?thesis by (simp add: hz_retire_def world_simps Let_def)
qed

lemma hz_retire_fields [simp]:
  "task_num (solo (hz_retire p tid) s) = task_num s"
  "hz_slotsPerThread (solo (hz_retire p tid) s) = hz_slotsPerThread s"
  "hz_slots (solo (hz_retire p tid) s) = hz_slots s"
  if "hz_inv s"
  using that
  by (simp_all add: hz_retire_eq Let_def hz_empty_eq hz_push_inv)
    (simp_all add: hz_push_def hz_set_cntr_def give_back_def)

lemma hz_retire_inv: "hz_inv s \<Longrightarrow> hz_inv (solo (hz_retire p tid) s)"
  using hz.inv_empty [OF hz_push_inv]
  by (auto simp: hz_retire_eq Let_def hz_inv_def hz_set_cntr_def hz_push_def)

lemma hz_retire_freed:
  assumes "hz_inv s"
  shows "\<exists>ps. reclaimed (solo (hz_retire p tid) s) = reclaimed s @ ps \<and> (\<forall>q \<in> set ps. \<not> hz_protected s q)"
proof -
  have prot: "hz_protected (hz_set_cntr tid 0 (hz_push p tid s)) = hz_protected s"
    by (simp add: hz_push_def hz_set_cntr_def hz_protected_def [abs_def])
  have rec: "reclaimed (hz_set_cntr tid c s) = reclaimed s" "reclaimed (hz_push p tid s) = reclaimed s" for c s
    by (simp_all add: hz_set_cntr_def hz_push_def)
  show ?thesis
  proof (cases "p \<noteq> nullptr \<and> hz_due tid s")
    case True
    then show ?thesis
      using hz.freed_empty [OF hz_push_inv [OF assms, of p tid 0], of tid]
      by (simp add: hz_retire_eq Let_def prot rec)
  next
    case False
    then show ?thesis by (auto simp: hz_retire_eq Let_def rec)
  qed
qed

text \<open>Slot \<open>l\<close> holds the pointer \<open>p\<close>.\<close>

definition hz_holds :: "nat \<times> nat \<Rightarrow> ptr \<Rightarrow> hazard \<Rightarrow> bool" where
  "hz_holds l p s \<longleftrightarrow> hz_inv s \<and> fst l < task_num s \<and> snd l < hz_slotsPerThread s \<and> hz_slots s l = p"

definition hz_touches :: "nat \<times> nat \<Rightarrow> hz_event \<Rightarrow> bool" where
  "hz_touches l ev \<longleftrightarrow> (case ev of HRead obj j t \<Rightarrow> l = (t, j) | HReserve p j t \<Rightarrow> l = (t, j)
     | HClearSlot j t \<Rightarrow> l = (t, j) | HClear t \<Rightarrow> fst l = t | _ \<Rightarrow> False)"

lemmas hz_step_defs = hz_alloc_def hz_read_run hz_reserve_slot_def hz_clearSlot_def
  hz_clear_all_def hz_clearAll_def hz_clear_from_alone world_simps hz_set_def

interpretation hz_grace: grace "hz_holds l p" hz_retired id reclaimed "\<lambda>_ q. q = p"
    "\<lambda>_. False" "\<lambda>_ ev. \<not> hz_touches l ev" hz_step for l p
proof
  fix s ev
  assume ok: "hz_holds l p s" and al: "\<not> hz_touches l ev"
  then have inv: "hz_inv s" by (simp add: hz_holds_def)
  show "hz_holds l p (hz_step s ev)"
    using ok al hz_retire_inv [OF inv]
    by (cases ev) (auto simp: hz_step_defs hz_holds_def hz_touches_def hz_inv_def)
  show "q = p" if "q = p" for q using that .
  show "\<exists>is. reclaimed (hz_step s ev) = reclaimed s @ map id is \<and> (\<forall>q\<in>set is.
      \<not> q = p \<and> (False \<longrightarrow> (\<exists>t. q \<in> set (hz_retired s t))))"
  proof (cases ev)
    case (HRetire r tid)
    from hz_retire_freed [OF inv, of r tid] obtain ps where
      ps: "reclaimed (solo (hz_retire r tid) s) = reclaimed s @ ps" "\<forall>q \<in> set ps. \<not> hz_protected s q"
      by blast
    obtain t j where l: "l = (t, j)" by fastforce
    from ps(2) ok have "p \<notin> set ps"
      by (auto simp: hz_protected_def hz_holds_def l)
    with ps(1) HRetire show ?thesis by auto
  qed (auto simp: hz_step_defs)
qed simp_all

lemma hz_all_allowed: "\<forall>ev \<in> set es. \<not> hz_touches l ev \<Longrightarrow> hz_grace.all_allowed l s es"
  by (induction es arbitrary: s) auto

section \<open>The bound on the lists\<close>

text \<open>No pointer is retired while it is on the list of the retiring thread.\<close>

fun hz_fresh :: "hazard \<Rightarrow> hz_event list \<Rightarrow> bool" where
  "hz_fresh s [] = True"
| "hz_fresh s (ev # es) = ((case ev of HRetire p tid \<Rightarrow> p \<notin> set (hz_retired s tid) | _ \<Rightarrow> True)
     \<and> hz_fresh (hz_step s ev) es)"

definition hz_bounded :: "nat \<Rightarrow> int \<Rightarrow> hazard \<Rightarrow> bool" where
  "hz_bounded b f s \<longleftrightarrow> hz_inv s \<and> hz_collect s \<and> 1 \<le> f \<and> hz_freq s = f \<and> task_num s * hz_slotsPerThread s = b
     \<and> (\<forall>t. distinct (hz_retired s t) \<and> 0 \<le> hz_cntrs s t \<and> hz_cntrs s t \<le> f
          \<and> length (hz_retired s t) \<le> b + nat (hz_cntrs s t))"

lemma hz_protected_few:
  "distinct ps \<Longrightarrow> length (filter (hz_protected s) ps) \<le> task_num s * hz_slotsPerThread s"
proof -
  assume d: "distinct ps"
  let ?L = "set (hz_locations s)"
  have "set (filter (hz_protected s) ps) \<subseteq> hz_slots s ` ?L"
    by (auto simp: hz_protected_def hz_locations_def)
  then have "card (set (filter (hz_protected s) ps)) \<le> card ?L"
    by (meson List.finite_set card_image_le card_mono finite_imageI order_trans)
  also have "card ?L \<le> length (hz_locations s)" by (rule card_length)
  finally show ?thesis
    using d distinct_card [of "filter (hz_protected s) ps"] by (simp add: hz_locations_def)
qed

lemma hz_bounded_same:
  "hz_bounded b f s \<Longrightarrow> hz_retired s' = hz_retired s \<Longrightarrow> hz_cntrs s' = hz_cntrs s \<Longrightarrow>
     hz_freq s' = hz_freq s \<Longrightarrow> hz_collect s' = hz_collect s \<Longrightarrow> task_num s' = task_num s \<Longrightarrow>
     hz_slotsPerThread s' = hz_slotsPerThread s \<Longrightarrow> hz_bounded b f s'"
  by (simp add: hz_bounded_def hz_inv_def)

lemma hz_bounded_retire:
  assumes b: "hz_bounded b f s" and fresh: "p \<notin> set (hz_retired s tid)"
  shows "hz_bounded b f (solo (hz_retire p tid) s)"
proof (cases "p = nullptr")
  case True
  with b show ?thesis by (simp add: hz_retire_eq)
next
  case False
  from b have inv: "hz_inv s" by (simp add: hz_bounded_def)
  let ?s = "hz_set_cntr tid 0 (hz_push p tid s)"
  have inv': "hz_inv ?s" by (rule hz_push_inv [OF inv False])
  have dis: "distinct (p # hz_retired s tid)" using b fresh by (simp add: hz_bounded_def)
  show ?thesis
  proof (cases "hz_due tid s")
    case True
    have ret: "hz_retired ?s tid = p # hz_retired s tid" "\<And>t. t \<noteq> tid \<Longrightarrow> hz_retired ?s t = hz_retired s t"
      by (simp_all add: hz_set_cntr_def hz_push_def)
    have "length (filter (hz_protected ?s) (p # hz_retired s tid)) \<le> b"
      using hz_protected_few [OF dis, of ?s] b
      by (simp add: hz_bounded_def hz_set_cntr_def hz_push_def)
    then show ?thesis
      using b dis inv' False True
      by (simp add: hz_retire_eq hz_empty_eq hz_bounded_def ret del: filter.simps)
        (auto simp: hz_set_cntr_def hz_push_def give_back_def hz_inv_def simp del: filter.simps)
  next
    case nd: False
    then have "hz_cntrs s tid < hz_freq s" using b by (auto simp: hz_due_def hz_bounded_def less_le)
    then show ?thesis
      using b dis False nd by (auto simp: hz_retire_eq hz_bounded_def hz_set_cntr_def hz_push_def
          hz_inv_def nat_add_distrib)
  qed
qed

lemma hz_bounded_run: "hz_bounded b f s \<Longrightarrow> hz_fresh s es \<Longrightarrow> hz_bounded b f (foldl hz_step s es)"
proof (induction es arbitrary: s)
  case (Cons ev es)
  have "hz_bounded b f (hz_step s ev)"
    using Cons.prems
  proof (cases ev)
    case (HRetire p tid)
    with Cons.prems hz_bounded_retire [of b f s p tid] show ?thesis by simp
  qed (auto simp: hz_step_defs elim: hz_bounded_same)
  with Cons show ?case by simp
qed simp

section \<open>Properties\<close>

text \<open>C26: A hazard pointer protects.  Once \<open>read\<close> has returned a link, the object it points to
  (the link without its mark bits) is not reclaimed, even if it had been retired before, until
  the thread uses the slot again or clears it.\<close>

theorem hz_read_protects:
  assumes "hz_inv s" "t < task_num s" "j < hz_slotsPerThread s"
    and "\<forall>ev \<in> set es. \<not> hz_touches (t, j) ev"
    and "hz_read 1 obj j t (s, []) = Some (p, (s', []))"
  shows "\<exists>ps. reclaimed (foldl hz_step s' es) = reclaimed s @ ps \<and> hz_mask p \<notin> set ps"
proof -
  have s': "s' = hz_set (t, j) (hz_mask p) s"
    using assms(5) by (auto simp del: hz_read.simps simp: hz_read_alone)
  then have "hz_holds (t, j) (hz_mask p) s'" "reclaimed s' = reclaimed s"
    using assms(1,2,3) by (simp_all add: hz_holds_def hz_set_def hz_inv_def)
  with hz_grace.grace_freed [OF this(1) hz_all_allowed [OF assms(4)]] show ?thesis by auto
qed

theorem hz_read_protects_witness:
  "\<exists>ps. reclaimed (foldl hz_step (hz_set (0, 0) 8 ((hz_new 2 1 0 True True (\<lambda>_. 9))
       \<lparr>hz_retired := (\<lambda>_. [8])\<rparr>)) [HRetire 16 1, HRetire 24 0]) = ps \<and> 8 \<notin> set ps"
  using hz_read_protects [of "(hz_new 2 1 0 True True (\<lambda>_. 9)) \<lparr>hz_retired := (\<lambda>_. [8])\<rparr>" 0 0
      "[HRetire 16 1, HRetire 24 0]" 32 9
      "hz_set (0, 0) 8 ((hz_new 2 1 0 True True (\<lambda>_. 9)) \<lparr>hz_retired := (\<lambda>_. [8])\<rparr>)"]
  by (simp add: hz_read_alone hz_touches_def hz_inv_def hz_new_def base_new_def base.extend_def
      hz_set_def hz_mask_def del: hz_step.simps hz_read.simps)

text \<open>C27: With \<open>n\<close> interferences to come, \<open>read\<close> returns within \<open>n + 1\<close> rounds; when it returns,
  the slot holds the object and the link still led to it after the slot had been written.\<close>

theorem hz_read_returns:
  assumes "rely (\<lambda>s s'. hz_slots s' (tid, idx) = hz_slots s (tid, idx)) w"
    and "length (snd w) < fuel"
  shows "\<exists>p w'. hz_read fuel obj idx tid w = Some (p, w')
     \<and> cells (fst w') obj = p \<and> hz_slots (fst w') (tid, idx) = hz_mask p"
  using assms
proof (induction fuel arbitrary: w)
  case 0
  then show ?case by simp
next
  case (Suc fuel)
  let ?R = "\<lambda>s s'. hz_slots s' (tid, idx) = hz_slots s (tid, idx)"
  have refl: "reflp ?R" by (simp add: reflp_def)
  let ?w1 = "snd (load (\<lambda>s. cells s obj) w)" let ?p = "fst (load (\<lambda>s. cells s obj) w)"
  let ?w2 = "store (hz_set (tid, idx) (hz_mask ?p)) ?w1"
  let ?w3 = "snd (load (\<lambda>s. cells s obj) ?w2)" let ?q = "fst (load (\<lambda>s. cells s obj) ?w2)"
  have rely2: "rely ?R ?w2" by (intro rely_store rely_load Suc.prems(1))
  have slot: "hz_slots (fst ?w3) (tid, idx) = hz_mask ?p"
    using rely_step [OF rely2 refl] by (simp add: hz_set_def)
  have cell: "cells (fst ?w3) obj = ?q" by (simp add: load_val)
  have step: "hz_read (Suc fuel) obj idx tid w =
      (if ?p = ?q then Some (?p, ?w3) else hz_read fuel obj idx tid ?w3)"
    by (simp add: hz_reserve_slot_def Let_def split: prod.splits)
  show ?case
  proof (cases "?p = ?q")
    case True
    with slot cell show ?thesis unfolding step by auto
  next
    case False
    then have "snd w \<noteq> []"
      by (cases w) (auto simp: world_simps hz_set_def)
    then have "length (snd ?w3) < fuel" using Suc.prems(2) by (cases "snd w") auto
    from Suc.IH [OF rely_load [OF rely2] this] False show ?thesis unfolding step by simp
  qed
qed

theorem hz_read_returns_witness:
  "\<exists>p w'. hz_read 2 24 0 0 (hz_new 2 1 1 True True (\<lambda>_. 9), [\<lambda>s. s\<lparr>cells := (\<lambda>_. 16)\<rparr>]) = Some (p, w')
     \<and> cells (fst w') 24 = p \<and> hz_slots (fst w') (0, 0) = hz_mask p"
  by (rule hz_read_returns) (simp_all add: rely_def)

text \<open>C28: \<open>HazardTracker::empty\<close> under interference: a pointer on the caller's list that some slot
  holds during the whole copy of the slots is not reclaimed.\<close>

theorem hz_empty_interference:
  assumes "stable (\<lambda>s. hz_inv s \<and> task_num s = n \<and> hz_slotsPerThread s = k
      \<and> p \<in> set (hz_retired s tid) \<and> hz_slots s (t, j) = p) w"
    and "t < n" "j < k"
  shows "p \<in> set (hz_retired (fst (hz_empty tid w)) tid)"
proof -
  let ?snap = "snapshot (\<lambda>l s. hz_slots s l) (hz_locations (fst w)) (hz_local_slots (fst w) tid) w"
  obtain arr s env where eq: "?snap = (arr, (s, env))" by (metis surj_pair)
  have n: "task_num (fst w) = n" "hz_slotsPerThread (fst w) = k" "hz_retired (fst w) tid \<noteq> []"
    using stable_now [OF assms(1)] by auto
  have s: "task_num s = n" "hz_slotsPerThread s = k" "p \<in> set (hz_retired s tid)" "hz_inv s"
    using stable_now [OF snapshot_world [OF assms(1)]] by (metis eq fst_conv snd_conv)+
  have "arr (t, j) = p"
    using snapshot_stable [OF assms(1), of "(t, j)" "hz_locations (fst w)" "\<lambda>l s. hz_slots s l"
        "hz_local_slots (fst w) tid"] n assms(2,3) eq
    by (auto simp: hz_locations_def)
  with s assms(2,3) have "hz_danger_from [0..<task_num s] (hz_slotsPerThread s) arr p False"
    by (auto simp: hz_danger_from_iff)
  moreover have "nullptr \<notin> set (hz_retired s tid)" using s(4) by (auto simp: hz_inv_def)
  ultimately show ?thesis
    using s n by (simp add: hz_empty_def eq own_def hz_sweep_def sweep_base)
qed

theorem hz_empty_interference_witness:
  "8 \<in> set (hz_retired (fst (hz_empty 0 ((hz_new 2 1 1 True True (\<lambda>_. 0))
      \<lparr>hz_slots := (\<lambda>_. 8), hz_retired := (\<lambda>_. [16, 8])\<rparr>, [hz_set (0, 0) 24]))) 0)"
  by (rule hz_empty_interference [of 2 1 _ _ 1 0])
    (simp_all add: stable_def hz_new_def base_new_def base.extend_def hz_inv_def hz_set_def)

text \<open>C29: The garbage is bounded.  If no pointer is retired twice while it waits, a thread's list
  never holds more than one entry per hazard slot plus \<open>emptyFreq\<close>.\<close>

theorem hz_retired_bounded:
  assumes "1 \<le> freq" and "hz_fresh (hz_new n k freq True cnt mem) es"
  shows "length (hz_retired (foldl hz_step (hz_new n k freq True cnt mem) es) t) \<le> n * k + nat freq"
proof -
  have "hz_bounded (n * k) freq (hz_new n k freq True cnt mem)"
    using assms(1) by (simp add: hz_bounded_def hz_new_def base_new_def base.extend_def hz_inv_def)
  from hz_bounded_run [OF this assms(2)] have
    b: "hz_bounded (n * k) freq (foldl hz_step (hz_new n k freq True cnt mem) es)" .
  then have "length (hz_retired (foldl hz_step (hz_new n k freq True cnt mem) es) t)
      \<le> n * k + nat (hz_cntrs (foldl hz_step (hz_new n k freq True cnt mem) es) t)"
    and "nat (hz_cntrs (foldl hz_step (hz_new n k freq True cnt mem) es) t) \<le> nat freq"
    by (auto simp: hz_bounded_def intro: nat_mono)
  then show ?thesis by simp
qed

theorem hz_retired_bounded_witness:
  "length (hz_retired (foldl hz_step (hz_new 2 1 1 True True (\<lambda>_. 0)) [HRetire 8 0, HRead 8 0 1]) 0) \<le> 3"
  using hz_retired_bounded [of 1 2 1 True "\<lambda>_. 0" "[HRetire 8 0, HRead 8 0 1]" 0]
  by (simp add: hz_new_def base.extend_def del: hz_step.simps)

end
