(* ===== verification/Range.thy ===== *)
theory Range
  imports Base_Tracker
begin

text \<open>
  \<open>trackers/RangeTracker.hpp\<close> and \<open>trackers/biptr.hpp\<close> (TagIBR): a link is a pair of a pointer
  and a tag that bounds the birth epoch of everything the link may lead to.  A reader reserves
  up to the tag before it loads the pointer and validates the tag afterwards; a writer raises
  the tag before it swings the pointer.  The tracker does not derive from \<open>BaseTracker\<close>: it
  counts its retired objects per thread.  \<open>local_tid\<close>, a thread-local variable, is the thread
  that runs the operation, and an argument here.  \<open>errexit\<close> ends the process: \<open>rt_exit\<close>.
\<close>

datatype UpdateType = LF | FAA | WCAS | TP

record rt_info =
  rt_obj :: ptr
  rt_birth_epoch :: u64
  rt_retire_epoch :: u64

record range =
  rt_task_num :: nat
  rt_freq :: nat
  rt_epochFreq :: nat
  rt_collect :: bool
  rt_type :: UpdateType
  rt_upper_reservs :: "nat \<Rightarrow> u64"
  rt_lower_reservs :: "nat \<Rightarrow> u64"
  rt_retire_counters :: "nat \<Rightarrow> u64"
  rt_alloc_counters :: "nat \<Rightarrow> u64"
  rt_retired :: "nat \<Rightarrow> rt_info list"
  rt_retired_cnt :: "nat \<Rightarrow> u64"
  rt_epoch :: u64
  rt_birth :: "ptr \<Rightarrow> u64"
  rt_ptr :: "ptr \<Rightarrow> ptr"
  rt_tag :: "ptr \<Rightarrow> u64"
  rt_reclaimed :: "ptr list"
  rt_exit :: bool
  rt_fault :: bool

definition rt_get_update_type :: "string \<Rightarrow> UpdateType option" where
  "rt_get_update_type env =
     (if env = '''' then Some LF
      else if env = ''LF'' then Some LF
      else if env = ''FAA'' then Some FAA
      else if env = ''WCAS'' then Some WCAS
      else None)"

text \<open>The constructor: task threads and stalled threads both get a slot.\<close>

definition rt_new :: "nat \<Rightarrow> nat \<Rightarrow> nat \<Rightarrow> nat \<Rightarrow> bool \<Rightarrow> string \<Rightarrow> range option" where
  "rt_new ntask nstall epochFreq emptyFreq collect env =
     (case rt_get_update_type env of None \<Rightarrow> None | Some ty \<Rightarrow>
       Some \<lparr>rt_task_num = ntask + nstall, rt_freq = emptyFreq, rt_epochFreq = epochFreq,
         rt_collect = collect, rt_type = ty, rt_upper_reservs = (\<lambda>_. UINT64_MAX),
         rt_lower_reservs = (\<lambda>_. UINT64_MAX), rt_retire_counters = (\<lambda>_. 0),
         rt_alloc_counters = (\<lambda>_. 0), rt_retired = (\<lambda>_. []), rt_retired_cnt = (\<lambda>_. 0),
         rt_epoch = 0, rt_birth = (\<lambda>_. 0), rt_ptr = (\<lambda>_. 0), rt_tag = (\<lambda>_. 0),
         rt_reclaimed = [], rt_exit = False, rt_fault = False\<rparr>)"

definition rt_get_retired_cnt :: "nat \<Rightarrow> range \<Rightarrow> u64" where
  "rt_get_retired_cnt tid s = rt_retired_cnt s tid"

definition rt_incrementEpoch :: "range \<Rightarrow> range" where
  "rt_incrementEpoch s = s\<lparr>rt_epoch := rt_epoch s + 1\<rparr>"

definition rt_alloc :: "nat \<Rightarrow> ptr \<Rightarrow> range world \<Rightarrow> ptr \<times> range world" where
  "rt_alloc tid blk w =
     (let w = own (\<lambda>s. s\<lparr>rt_alloc_counters :=
                (rt_alloc_counters s)(tid := rt_alloc_counters s tid + 1)\<rparr>) w;
          s = fst w;
          w = (if rt_alloc_counters s tid mod of_nat (rt_epochFreq s * rt_task_num s) = 0
               then bump rt_incrementEpoch w else w);
          (e, w) = load rt_epoch w
      in (blk, own (\<lambda>s. s\<lparr>rt_birth := (rt_birth s)(blk := e)\<rparr>) w))"

definition rt_read_birth :: "ptr \<Rightarrow> range \<Rightarrow> u64" where
  "rt_read_birth obj s = rt_birth s obj"

definition rt_reclaim :: "ptr \<Rightarrow> range \<Rightarrow> range" where
  "rt_reclaim obj s = (if obj = nullptr then s else s\<lparr>rt_reclaimed := rt_reclaimed s @ [obj]\<rparr>)"

definition rt_set_upper :: "nat \<Rightarrow> u64 \<Rightarrow> range \<Rightarrow> range" where
  "rt_set_upper tid e s = s\<lparr>rt_upper_reservs := (rt_upper_reservs s)(tid := e)\<rparr>"

definition rt_set_lower :: "nat \<Rightarrow> u64 \<Rightarrow> range \<Rightarrow> range" where
  "rt_set_lower tid e s = s\<lparr>rt_lower_reservs := (rt_lower_reservs s)(tid := e)\<rparr>"

definition rt_reserve :: "nat \<Rightarrow> range world \<Rightarrow> range world" where
  "rt_reserve tid w =
     (let (e, w) = load rt_epoch w;
          w = store (rt_set_upper tid e) w
      in store (rt_set_lower tid e) w)"

definition rt_update_reserve :: "u64 \<Rightarrow> nat \<Rightarrow> range world \<Rightarrow> range world" where
  "rt_update_reserve e local_tid w =
     (let (curr_upper, w) = load (\<lambda>s. rt_upper_reservs s local_tid) w
      in if e > curr_upper then store (rt_set_upper local_tid e) w else w)"

definition rt_validate :: "u64 \<Rightarrow> nat \<Rightarrow> range world \<Rightarrow> bool \<times> range world" where
  "rt_validate birth_before local_tid w =
     (let (u, w) = load (\<lambda>s. rt_upper_reservs s local_tid) w in (u \<ge> birth_before, w))"

definition rt_clear :: "nat \<Rightarrow> range world \<Rightarrow> range world" where
  "rt_clear tid w =
     (let w = store (rt_set_upper tid UINT64_MAX) w in store (rt_set_lower tid UINT64_MAX) w)"

fun rt_conflict_from :: "nat list \<Rightarrow> (nat \<Rightarrow> u64) \<Rightarrow> (nat \<Rightarrow> u64) \<Rightarrow> u64 \<Rightarrow> u64 \<Rightarrow> bool" where
  "rt_conflict_from [] lower upper birth retire = False"
| "rt_conflict_from (i # js) lower upper birth retire =
     (if upper i \<ge> birth \<and> lower i \<le> retire then True
      else rt_conflict_from js lower upper birth retire)"

definition rt_conflict :: "(nat \<Rightarrow> u64) \<Rightarrow> (nat \<Rightarrow> u64) \<Rightarrow> u64 \<Rightarrow> u64 \<Rightarrow> range \<Rightarrow> bool" where
  "rt_conflict lower upper birth retire s =
     rt_conflict_from [0..<rt_task_num s] lower upper birth retire"

definition rt_locations :: "nat \<Rightarrow> (nat \<times> bool) list" where
  "rt_locations n = concat (map (\<lambda>i. [(i, False), (i, True)]) [0..<n])"

definition rt_location :: "nat \<times> bool \<Rightarrow> range \<Rightarrow> u64" where
  "rt_location l s = (if snd l then rt_upper_reservs s (fst l) else rt_lower_reservs s (fst l))"

fun rt_sweep :: "nat \<Rightarrow> (nat \<Rightarrow> u64) \<Rightarrow> (nat \<Rightarrow> u64) \<Rightarrow> rt_info list \<Rightarrow> range \<Rightarrow> rt_info list \<times> range" where
  "rt_sweep tid lower upper [] s = ([], s)"
| "rt_sweep tid lower upper (res # rest) s =
     (if \<not> rt_conflict lower upper (rt_birth_epoch res) (rt_retire_epoch res) s
      then let s = rt_reclaim (rt_obj res) s;
               s = s\<lparr>rt_retired_cnt := (rt_retired_cnt s)(tid := rt_retired_cnt s tid - 1)\<rparr>
           in rt_sweep tid lower upper rest s
      else let (left, s) = rt_sweep tid lower upper rest s in (res # left, s))"

definition rt_empty :: "nat \<Rightarrow> range world \<Rightarrow> range world" where
  "rt_empty tid w =
     (let (arr, w) = snapshot rt_location (rt_locations (rt_task_num (fst w))) (\<lambda>_. 0) w
      in own (\<lambda>s. let (left, s) = rt_sweep tid (\<lambda>i. arr (i, False)) (\<lambda>i. arr (i, True)) (rt_retired s tid) s
                  in s\<lparr>rt_retired := (rt_retired s)(tid := left)\<rparr>) w)"

definition rt_push :: "ptr \<Rightarrow> u64 \<Rightarrow> u64 \<Rightarrow> nat \<Rightarrow> range \<Rightarrow> range" where
  "rt_push obj b e tid s = s\<lparr>rt_retired := (rt_retired s)(tid := rt_retired s tid @
      [\<lparr>rt_obj = obj, rt_birth_epoch = b, rt_retire_epoch = e\<rparr>])\<rparr>"

definition rt_due :: "nat \<Rightarrow> range \<Rightarrow> bool" where
  "rt_due tid s \<longleftrightarrow> rt_collect s \<and> rt_retire_counters s tid mod of_nat (rt_freq s) = 0"

definition rt_tick :: "nat \<Rightarrow> range \<Rightarrow> range" where
  "rt_tick tid s =
     s\<lparr>rt_retire_counters := (rt_retire_counters s)(tid := rt_retire_counters s tid + 1),
       rt_retired_cnt := (rt_retired_cnt s)(tid := rt_retired_cnt s tid + 1)\<rparr>"

definition rt_retire_birth :: "ptr \<Rightarrow> u64 \<Rightarrow> nat \<Rightarrow> range world \<Rightarrow> range world" where
  "rt_retire_birth obj birth_epoch tid w =
     (if obj = nullptr then w
      else let (e, w) = load rt_epoch w;
               w = own (rt_push obj birth_epoch e tid) w;
               w = (if rt_due tid (fst w) then rt_empty tid w else w)
           in own (rt_tick tid) w)"

text \<open>\<open>read_birth\<close> of a null pointer reads behind address 0 before the pointer is tested.\<close>

definition rt_retire :: "ptr \<Rightarrow> nat \<Rightarrow> range world \<Rightarrow> range world" where
  "rt_retire obj tid w =
     rt_retire_birth obj (rt_read_birth obj (fst w)) tid
       (own (\<lambda>s. if obj = nullptr then s\<lparr>rt_fault := True\<rparr> else s) w)"

section \<open>The tagged link\<close>

definition fp_load_ptr :: "ptr \<Rightarrow> range world \<Rightarrow> ptr \<times> range world" where
  "fp_load_ptr a w = load (\<lambda>s. rt_ptr s a) w"

definition fp_put_ptr :: "ptr \<Rightarrow> ptr \<Rightarrow> range \<Rightarrow> range" where
  "fp_put_ptr a p s = s\<lparr>rt_ptr := (rt_ptr s)(a := p)\<rparr>"

definition fp_store_ptr :: "ptr \<Rightarrow> ptr \<Rightarrow> range world \<Rightarrow> range world" where
  "fp_store_ptr a p w = store (fp_put_ptr a p) w"

definition fp_load_tag :: "ptr \<Rightarrow> range world \<Rightarrow> u64 \<times> range world" where
  "fp_load_tag a w = load (\<lambda>s. rt_tag s a) w"

definition fp_put_tag :: "ptr \<Rightarrow> u64 \<Rightarrow> range \<Rightarrow> range" where
  "fp_put_tag a t s = s\<lparr>rt_tag := (rt_tag s)(a := t)\<rparr>"

definition fp_store_tag :: "ptr \<Rightarrow> u64 \<Rightarrow> range world \<Rightarrow> range world" where
  "fp_store_tag a t w = store (fp_put_tag a t) w"

definition fp_WideCAS :: "range world \<Rightarrow> bool \<times> range world" where
  "fp_WideCAS w = (False, own (\<lambda>s. s\<lparr>rt_exit := True\<rparr>) w)"

definition bp_get_birth_epoch :: "ptr \<Rightarrow> range \<Rightarrow> u64" where
  "bp_get_birth_epoch obj s =
     (let p = obj AND 0xfffffffffffffffc in if p \<noteq> nullptr then rt_read_birth p s else 0)"

definition bp_birth :: "ptr \<Rightarrow> range world \<Rightarrow> u64 \<times> range world" where
  "bp_birth a w = fp_load_tag a w"

definition bp_ptr :: "ptr \<Rightarrow> range world \<Rightarrow> ptr \<times> range world" where
  "bp_ptr a w = fp_load_ptr a w"

text \<open>The three constructors: empty, from an object, from another link.\<close>

definition bp_new :: "ptr \<Rightarrow> range \<Rightarrow> range" where
  "bp_new a s = fp_put_tag a 0 (fp_put_ptr a nullptr s)"

definition bp_new_obj :: "ptr \<Rightarrow> ptr \<Rightarrow> range \<Rightarrow> range" where
  "bp_new_obj a obj s = fp_put_tag a (bp_get_birth_epoch obj s) (fp_put_ptr a obj s)"

definition bp_new_copy :: "ptr \<Rightarrow> ptr \<Rightarrow> range world \<Rightarrow> range world" where
  "bp_new_copy a other w =
     (let (p, w) = bp_ptr other w; (t, w) = bp_birth other w
      in own (\<lambda>s. fp_put_tag a t (fp_put_ptr a p s)) w)"

text \<open>\<open>CAS\<close>: raise the tag (by compare-and-swap or by fetch-and-add), then swing the pointer.
  The raising loop takes fuel.\<close>

fun bp_raise_LF :: "nat \<Rightarrow> ptr \<Rightarrow> u64 \<Rightarrow> u64 \<Rightarrow> range world \<Rightarrow> range world option" where
  "bp_raise_LF 0 a e_ori birth_epoch w = None"
| "bp_raise_LF (Suc fuel) a e_ori birth_epoch w =
     (if e_ori < birth_epoch
      then let (ok, e_ori, w) = cas (\<lambda>s. rt_tag s a) (fp_put_tag a) e_ori birth_epoch w
           in if ok then Some w else bp_raise_LF fuel a e_ori birth_epoch w
      else Some w)"

definition bp_CAS :: "nat \<Rightarrow> ptr \<Rightarrow> ptr \<Rightarrow> ptr \<Rightarrow> range world \<Rightarrow> (bool \<times> ptr \<times> range world) option" where
  "bp_CAS fuel a ori obj w =
     (if rt_type (fst w) \<noteq> WCAS
      then let (e_ori, w) = fp_load_tag a w;
               birth_epoch = bp_get_birth_epoch obj (fst w)
           in case (case rt_type (fst w) of
                      LF \<Rightarrow> bp_raise_LF fuel a e_ori birth_epoch w
                    | FAA \<Rightarrow> if e_ori < birth_epoch
                             then Some (bump (\<lambda>s. fp_put_tag a (rt_tag s a + (birth_epoch - e_ori)) s) w)
                             else Some w
                    | _ \<Rightarrow> Some w)
              of None \<Rightarrow> None
               | Some w \<Rightarrow> Some (cas (\<lambda>s. rt_ptr s a) (fp_put_ptr a) ori obj w)
      else let (t, w) = fp_load_tag a w; (ok, w) = fp_WideCAS w in Some (ok, ori, w))"

fun bp_protect_and_fetch_ptr :: "nat \<Rightarrow> ptr \<Rightarrow> nat \<Rightarrow> range world \<Rightarrow> (ptr \<times> range world) option" where
  "bp_protect_and_fetch_ptr 0 a local_tid w = None"
| "bp_protect_and_fetch_ptr (Suc fuel) a local_tid w =
     (let (t, w) = bp_birth a w;
          w = rt_update_reserve t local_tid w;
          (ret, w) = bp_ptr a w;
          (t', w) = bp_birth a w;
          (ok, w) = rt_validate t' local_tid w
      in if ok then Some (ret, w) else bp_protect_and_fetch_ptr fuel a local_tid w)"

definition rt_read :: "nat \<Rightarrow> ptr \<Rightarrow> nat \<Rightarrow> range world \<Rightarrow> (ptr \<times> range world) option" where
  "rt_read fuel a local_tid w = bp_protect_and_fetch_ptr fuel a local_tid w"

text \<open>The wide branch of \<open>store\<close> and \<open>operator=\<close> repeats a \<open>WideCAS\<close> whose first call ends the
  process.\<close>

definition bp_store :: "ptr \<Rightarrow> ptr \<Rightarrow> range world \<Rightarrow> range world" where
  "bp_store a obj w =
     (if rt_type (fst w) \<noteq> WCAS
      then fp_store_ptr a obj (fp_store_tag a (bp_get_birth_epoch obj (fst w)) w)
      else let (p, w) = fp_load_ptr a w; (t, w) = fp_load_tag a w in snd (fp_WideCAS w))"

definition bp_assign :: "ptr \<Rightarrow> ptr \<Rightarrow> range world \<Rightarrow> range world" where
  "bp_assign a other w =
     (if a = other then w
      else if rt_type (fst w) \<noteq> WCAS
      then let (t, w) = bp_birth other w; w = fp_store_tag a t w;
               (p, w) = bp_ptr other w
           in fp_store_ptr a p w
      else let (p, w) = fp_load_ptr a w; (t, w) = fp_load_tag a w in snd (fp_WideCAS w))"

definition bp_equal :: "ptr \<Rightarrow> ptr \<Rightarrow> range world \<Rightarrow> bool \<times> range world" where
  "bp_equal a obj w = (let (p, w) = bp_ptr a w in (p = obj, w))"

definition bp_bool :: "ptr \<Rightarrow> range world \<Rightarrow> bool \<times> range world" where
  "bp_bool a w = (let (p, w) = bp_ptr a w in (p \<noteq> nullptr, w))"

section \<open>What \<open>empty\<close> keeps and frees\<close>

definition rt_inv :: "range \<Rightarrow> bool" where
  "rt_inv s \<longleftrightarrow> (\<forall>t. \<forall>i \<in> set (rt_retired s t). rt_obj i \<noteq> nullptr)
     \<and> (\<forall>t. rt_retired_cnt s t = of_nat (length (rt_retired s t)))"

definition rt_protected :: "range \<Rightarrow> rt_info \<Rightarrow> bool" where
  "rt_protected s i \<longleftrightarrow> (\<exists>t < rt_task_num s. rt_birth_epoch i \<le> rt_upper_reservs s t
     \<and> rt_lower_reservs s t \<le> rt_retire_epoch i)"

lemma rt_conflict_from_iff:
  "rt_conflict_from js lower upper b r \<longleftrightarrow> (\<exists>i \<in> set js. b \<le> upper i \<and> lower i \<le> r)"
  by (induction js) auto

lemma set_rt_locations: "(i, b) \<in> set (rt_locations n) \<longleftrightarrow> i < n"
  by (cases b) (auto simp: rt_locations_def)

definition rt_give_back :: "nat \<Rightarrow> ptr list \<Rightarrow> range \<Rightarrow> range" where
  "rt_give_back tid ps s = s\<lparr>rt_reclaimed := rt_reclaimed s @ ps,
     rt_retired_cnt := (rt_retired_cnt s)(tid := rt_retired_cnt s tid - of_nat (length ps))\<rparr>"

lemma rt_sweep_eq:
  assumes "\<forall>i \<in> set xs. rt_obj i \<noteq> nullptr"
  shows "rt_sweep tid lower upper xs s =
     (filter (\<lambda>i. rt_conflict lower upper (rt_birth_epoch i) (rt_retire_epoch i) s) xs,
      rt_give_back tid (map rt_obj (filter (\<lambda>i.
        \<not> rt_conflict lower upper (rt_birth_epoch i) (rt_retire_epoch i) s) xs)) s)"
  using assms
proof (induction xs arbitrary: s)
  case Nil
  then show ?case by (simp add: rt_give_back_def)
next
  case (Cons i xs)
  have "rt_give_back tid ps (rt_reclaim p s\<lparr>rt_retired_cnt := (rt_retired_cnt s)(tid := rt_retired_cnt s tid - 1)\<rparr>)
      = rt_give_back tid (p # ps) s" if "p \<noteq> nullptr" for p ps
    using that by (simp add: rt_give_back_def rt_reclaim_def algebra_simps)
  with Cons show ?case by (simp add: Let_def rt_conflict_def rt_reclaim_def)
qed

lemma rt_empty_eq:
  assumes "\<forall>i \<in> set (rt_retired s tid). rt_obj i \<noteq> nullptr"
  shows "rt_empty tid (s, []) =
     ((rt_give_back tid (map rt_obj (filter (\<lambda>i. \<not> rt_protected s i) (rt_retired s tid))) s)
       \<lparr>rt_retired := (rt_retired s)(tid := filter (rt_protected s) (rt_retired s tid))\<rparr>, [])"
proof -
  have "rt_conflict
      (\<lambda>i. if i < rt_task_num s then rt_location (i, False) s else 0)
      (\<lambda>i. if i < rt_task_num s then rt_location (i, True) s else 0)
      (rt_birth_epoch i) (rt_retire_epoch i) s \<longleftrightarrow> rt_protected s i" for i
    by (auto simp: rt_conflict_def rt_conflict_from_iff rt_protected_def rt_location_def)
  then show ?thesis
    using assms by (simp add: rt_empty_def world_simps rt_sweep_eq rt_give_back_def set_rt_locations)
qed

lemma rt_count_left:
  "(of_nat (length xs) :: 64 word) - of_nat (length (filter (\<lambda>i. \<not> P i) xs)) = of_nat (length (filter P xs))"
proof -
  have "length xs = length (filter P xs) + length (filter (\<lambda>i. \<not> P i) xs)"
    by (simp add: sum_length_filter_compl)
  then show ?thesis by (metis add_diff_cancel_right' of_nat_add)
qed

interpretation rt: reclaimer rt_inv rt_retired rt_obj rt_reclaimed rt_protected
    "\<lambda>tid. solo (rt_empty tid)"
proof
  fix s tid
  assume inv: "rt_inv s"
  then have nn: "\<forall>i \<in> set (rt_retired s tid). rt_obj i \<noteq> nullptr" by (simp add: rt_inv_def)
  show "rt_retired (solo (rt_empty tid) s) = (rt_retired s)(tid := filter (rt_protected s) (rt_retired s tid))"
    and "rt_reclaimed (solo (rt_empty tid) s) =
      rt_reclaimed s @ map rt_obj (filter (\<lambda>i. \<not> rt_protected s i) (rt_retired s tid))"
    and "rt_protected (solo (rt_empty tid) s) = rt_protected s"
    by (simp_all add: rt_empty_eq [OF nn] rt_give_back_def rt_protected_def [abs_def])
  show "rt_inv (solo (rt_empty tid) s)"
    using inv by (auto simp: rt_empty_eq [OF nn] rt_inv_def rt_give_back_def rt_count_left)
qed

section \<open>The counter of retired objects\<close>

text \<open>While \<open>retire\<close> runs, the list is one longer than the counter says: the counter is raised
  last, after \<open>empty\<close> may already have lowered it.\<close>

lemma rt_retire_inv:
  assumes inv: "rt_inv s"
  shows "rt_inv (solo (rt_retire obj tid) s)"
proof (cases "obj = nullptr")
  case True
  with inv show ?thesis
    by (simp add: rt_retire_def rt_retire_birth_def own_def rt_inv_def)
next
  case False
  let ?p = "rt_push obj (rt_birth s obj) (rt_epoch s) tid s"
  have nn: "\<forall>i \<in> set (rt_retired ?p tid). rt_obj i \<noteq> nullptr"
    using inv False by (auto simp: rt_inv_def rt_push_def)
  have due: "rt_due tid ?p = rt_due tid s" by (simp add: rt_due_def rt_push_def)
  have tick: "rt_inv (rt_tick tid ?p)"
    using inv False by (auto simp: rt_inv_def rt_tick_def rt_push_def)
  have cnt: "rt_retired_cnt s tid + 1 = of_nat (length (rt_retired ?p tid))"
    using inv by (simp add: rt_inv_def rt_push_def)
  have "rt_inv (rt_tick tid (solo (rt_empty tid) ?p))"
  proof -
    let ?gone = "map rt_obj (filter (\<lambda>i. \<not> rt_protected ?p i) (rt_retired ?p tid))"
    have "rt_retired_cnt s tid - of_nat (length ?gone) + 1
        = of_nat (length (filter (rt_protected ?p) (rt_retired ?p tid)))"
      using rt_count_left [of "rt_retired ?p tid" "rt_protected ?p"] cnt
      by (simp add: algebra_simps)
    then show ?thesis
      using inv nn by (simp add: rt_empty_eq [OF nn] rt_give_back_def rt_tick_def rt_inv_def)
        (auto simp: rt_push_def)
  qed
  with tick False show ?thesis
    by (simp add: rt_retire_def rt_retire_birth_def world_simps Let_def due rt_read_birth_def)
qed

section \<open>Properties\<close>

datatype rt_event =
    TAlloc nat ptr
  | TReserve nat
  | TUpdate u64 nat
  | TClear nat
  | TRetire ptr nat
  | TInc

fun rt_step :: "range \<Rightarrow> rt_event \<Rightarrow> range" where
  "rt_step s (TAlloc tid blk) = fst (snd (rt_alloc tid blk (s, [])))"
| "rt_step s (TReserve tid) = solo (rt_reserve tid) s"
| "rt_step s (TUpdate e tid) = solo (rt_update_reserve e tid) s"
| "rt_step s (TClear tid) = solo (rt_clear tid) s"
| "rt_step s (TRetire obj tid) = solo (rt_retire obj tid) s"
| "rt_step s TInc = rt_incrementEpoch s"

text \<open>C37: The per-thread counter is exact.  After any sequence of operations from the constructor
  \<open>get_retired_cnt\<close> is the length of the thread's list, although \<open>retire\<close> counts only after
  \<open>empty\<close> has run and the counter may pass through \<open>-1\<close>.\<close>

theorem rt_retired_cnt_exact:
  assumes "rt_new ntask nstall epochFreq emptyFreq collect env = Some s"
  shows "rt_get_retired_cnt tid (foldl rt_step s es) = of_nat (length (rt_retired (foldl rt_step s es) tid))"
proof -
  have "rt_inv s" using assms by (auto simp: rt_new_def rt_inv_def split: option.splits)
  moreover have "rt_inv (rt_step s e)" if "rt_inv s" for s e
    using that rt_retire_inv [OF that]
    by (cases e) (auto simp: rt_alloc_def rt_reserve_def rt_update_reserve_def rt_clear_def
        rt_incrementEpoch_def rt_set_upper_def rt_set_lower_def world_simps Let_def rt_inv_def)
  then have "rt_inv s \<Longrightarrow> rt_inv (foldl rt_step s es)" for s
    by (induction es arbitrary: s) auto
  ultimately show ?thesis by (simp add: rt_get_retired_cnt_def rt_inv_def)
qed

theorem rt_retired_cnt_exact_witness:
  "rt_get_retired_cnt 1 (foldl rt_step (the (rt_new 2 0 1 1 True ''FAA'')) [TReserve 0, TRetire 8 1]) =
     of_nat (length (rt_retired (foldl rt_step (the (rt_new 2 0 1 1 True ''FAA'')) [TReserve 0, TRetire 8 1]) 1))"
  by (rule rt_retired_cnt_exact [of 2 0 1 1 True "''FAA''"]) (simp add: rt_new_def rt_get_update_type_def)

text \<open>The rules the other threads follow on a link: they never lower its tag, keep the tag a
  bound on the birth epoch of the object it leads to, and leave the reservations of this thread
  alone.\<close>

definition bp_tagged :: "ptr \<Rightarrow> range \<Rightarrow> bool" where
  "bp_tagged a s \<longleftrightarrow> bp_get_birth_epoch (rt_ptr s a) s \<le> rt_tag s a"

definition bp_guar :: "ptr \<Rightarrow> nat \<Rightarrow> range \<Rightarrow> range \<Rightarrow> bool" where
  "bp_guar a tid s s' \<longleftrightarrow> (bp_tagged a s \<longrightarrow> bp_tagged a s') \<and> rt_tag s a \<le> rt_tag s' a
     \<and> rt_birth s' = rt_birth s \<and> rt_upper_reservs s' tid = rt_upper_reservs s tid
     \<and> rt_type s' = rt_type s"

lemma bp_guar_refl: "reflp (bp_guar a tid)"
  by (auto simp: reflp_def bp_guar_def)

lemma bp_guar_trans: "bp_guar a tid s s' \<Longrightarrow> bp_guar a tid s' s'' \<Longrightarrow> bp_guar a tid s s''"
  by (auto simp: bp_guar_def)

lemma bp_birth_same: "rt_birth s' = rt_birth s \<Longrightarrow> bp_get_birth_epoch p s' = bp_get_birth_epoch p s"
  by (simp add: bp_get_birth_epoch_def rt_read_birth_def Let_def)

lemma rt_update_reserve_guar:
  assumes "rely (bp_guar a tid) w"
  shows "rely (bp_guar a tid) (rt_update_reserve t tid w)"
    and "\<exists>s. bp_guar a tid (fst w) s \<and> t \<le> rt_upper_reservs (fst (rt_update_reserve t tid w)) tid
      \<and> rt_ptr s = rt_ptr (fst (rt_update_reserve t tid w)) \<and> rt_tag s = rt_tag (fst (rt_update_reserve t tid w))
      \<and> rt_birth s = rt_birth (fst (rt_update_reserve t tid w))
      \<and> rt_type s = rt_type (fst (rt_update_reserve t tid w))
      \<and> rt_upper_reservs s tid \<le> rt_upper_reservs (fst (rt_update_reserve t tid w)) tid"
proof -
  note r1 = rely_others [OF assms]
  show "rely (bp_guar a tid) (rt_update_reserve t tid w)"
    using r1 rely_store [OF r1] by (simp add: rt_update_reserve_def load_split)
  have g1: "bp_guar a tid (fst w) (fst (others w))" by (rule rely_step [OF assms bp_guar_refl])
  have g2: "bp_guar a tid (fst (others w)) (fst (others (others w)))"
    by (rule rely_step [OF r1 bp_guar_refl])
  show "\<exists>s. bp_guar a tid (fst w) s \<and> t \<le> rt_upper_reservs (fst (rt_update_reserve t tid w)) tid
      \<and> rt_ptr s = rt_ptr (fst (rt_update_reserve t tid w)) \<and> rt_tag s = rt_tag (fst (rt_update_reserve t tid w))
      \<and> rt_birth s = rt_birth (fst (rt_update_reserve t tid w))
      \<and> rt_type s = rt_type (fst (rt_update_reserve t tid w))
      \<and> rt_upper_reservs s tid \<le> rt_upper_reservs (fst (rt_update_reserve t tid w)) tid"
  proof (cases "rt_upper_reservs (fst (others w)) tid < t")
    case True
    with bp_guar_trans [OF g1 g2] g2 show ?thesis
      by (intro exI [of _ "fst (others (others w))"])
        (simp add: rt_update_reserve_def load_split rt_set_upper_def bp_guar_def)
  next
    case False
    with g1 show ?thesis
      by (intro exI [of _ "fst (others w)"]) (simp add: rt_update_reserve_def load_split)
  qed
qed

text \<open>C35: \<open>protect_and_fetch_ptr\<close> protects.  If the others keep the rules \<open>bp_guar\<close> (they
  keep the tag a bound and never lower it, and leave the birth epochs of the objects, the type of the
  tracker and the thread's reservation alone), then with \<open>n\<close> interferences to come it returns within
  \<open>n + 1\<close> rounds, and the reservation it leaves covers the birth epoch of the object it returns.\<close>

theorem bp_protect_covers:
  assumes "rely (bp_guar a tid) w" and "bp_tagged a (fst w)" and "length (snd w) < fuel"
  shows "\<exists>p w'. bp_protect_and_fetch_ptr fuel a tid w = Some (p, w')
     \<and> bp_get_birth_epoch p (fst w') \<le> rt_upper_reservs (fst w') tid"
  using assms
proof (induction fuel arbitrary: w)
  case 0
  then show ?case by simp
next
  case (Suc fuel)
  let ?w1 = "others w" let ?t = "rt_tag (fst ?w1) a"
  let ?w2 = "rt_update_reserve ?t tid ?w1"
  let ?w3 = "others ?w2" let ?w4 = "others ?w3" let ?w5 = "others ?w4"
  let ?p = "rt_ptr (fst ?w3) a"
  let ?ok = "rt_tag (fst ?w4) a \<le> rt_upper_reservs (fst ?w5) tid"
  have step: "bp_protect_and_fetch_ptr (Suc fuel) a tid w =
      (if ?ok then Some (?p, ?w5) else bp_protect_and_fetch_ptr fuel a tid ?w5)"
    by (simp add: bp_birth_def bp_ptr_def fp_load_tag_def fp_load_ptr_def rt_validate_def load_split Let_def)
  note r1 = rely_others [OF Suc.prems(1)]
  note r2 = rt_update_reserve_guar(1) [OF r1, of ?t]
  note r3 = rely_others [OF r2] note r4 = rely_others [OF r3] note r5 = rely_others [OF r4]
  note g1 = rely_step [OF Suc.prems(1) bp_guar_refl]
  obtain s where s: "bp_guar a tid (fst ?w1) s" "rt_ptr s = rt_ptr (fst ?w2)"
    "rt_tag s = rt_tag (fst ?w2)" "rt_birth s = rt_birth (fst ?w2)"
    using rt_update_reserve_guar(2) [OF r1, of ?t] by blast
  note g3 = rely_step [OF r2 bp_guar_refl] note g4 = rely_step [OF r3 bp_guar_refl]
  note g5 = rely_step [OF r4 bp_guar_refl]
  have "bp_tagged a s" using Suc.prems(2) g1 s(1) by (simp add: bp_guar_def)
  then have "bp_tagged a (fst ?w2)"
    using s by (simp add: bp_tagged_def bp_birth_same [OF s(4)])
  then have t3: "bp_tagged a (fst ?w3)" and t5: "bp_tagged a (fst ?w5)"
    using g3 g4 g5 by (simp_all add: bp_guar_def)
  have len: "length (snd ?w5) \<le> length (snd w) - 1"
  proof -
    have "length (snd ?w2) \<le> length (snd ?w1)"
      by (simp add: rt_update_reserve_def load_split del: length_others) (simp; arith)
    then show ?thesis by simp
  qed
  show ?case
  proof (cases ?ok)
    case True
    have "bp_get_birth_epoch ?p (fst ?w5) = bp_get_birth_epoch ?p (fst ?w3)"
      using g4 g5 by (intro bp_birth_same) (simp add: bp_guar_def)
    also have "\<dots> \<le> rt_tag (fst ?w3) a" using t3 by (simp add: bp_tagged_def)
    also have "\<dots> \<le> rt_tag (fst ?w4) a" using g4 by (simp add: bp_guar_def)
    finally show ?thesis using True unfolding step by auto
  next
    case False
    have "snd w \<noteq> []"
    proof
      assume "snd w = []"
      then obtain s0 where w: "w = (s0, [])" by (cases w) auto
      then have "?ok" by (auto simp: rt_update_reserve_def world_simps rt_set_upper_def not_less)
      with False show False ..
    qed
    then have "length (snd ?w5) < fuel" using len Suc.prems(3) by (cases "snd w") auto
    from Suc.IH [OF r5 t5 this] False show ?thesis unfolding step by simp
  qed
qed

theorem bp_protect_covers_witness:
  "\<exists>p w'. bp_protect_and_fetch_ptr 2 24 0 ((the (rt_new 2 0 1 1 True ''LF''))\<lparr>rt_tag := (\<lambda>_. 5)\<rparr>,
        [\<lambda>s. fp_put_tag 24 (max 7 (rt_tag s 24)) s]) = Some (p, w')
     \<and> bp_get_birth_epoch p (fst w') \<le> rt_upper_reservs (fst w') 0"
  by (rule bp_protect_covers [of 24 0])
    (auto simp: rely_def bp_guar_def bp_tagged_def bp_get_birth_epoch_def rt_read_birth_def
      fp_put_tag_def rt_new_def rt_get_update_type_def Let_def le_max_iff_disj)


lemma bp_raise_LF_tag:
  assumes "rely (bp_guar a tid) w" and "e \<le> rt_tag (fst w) a"
    and "length (snd w) + 2 \<le> fuel"
  shows "\<exists>w'. bp_raise_LF fuel a e b w = Some w' \<and> rely (bp_guar a tid) w'
     \<and> bp_guar a tid (fst w) (fst w') \<and> b \<le> rt_tag (fst w') a"
  using assms
proof (induction fuel arbitrary: e w)
  case 0
  then show ?case by simp
next
  case (Suc fuel)
  let ?w1 = "others w" let ?tag = "rt_tag (fst ?w1) a"
  note r1 = rely_others [OF Suc.prems(1)]
  note g1 = rely_step [OF Suc.prems(1) bp_guar_refl]
  show ?case
  proof (cases "e < b")
    case False
    then have "b \<le> rt_tag (fst w) a" using Suc.prems(2) by simp
    with False Suc.prems(1) bp_guar_refl [THEN reflpD, of a tid] show ?thesis
      by (intro exI [of _ w]) simp
  next
    case True
    show ?thesis
    proof (cases "?tag = e")
      case eq: True
      let ?s = "fp_put_tag a b (fst ?w1)"
      have "bp_guar a tid (fst ?w1) ?s"
        using True eq by (auto simp: bp_guar_def fp_put_tag_def bp_tagged_def bp_get_birth_epoch_def
            rt_read_birth_def Let_def intro: order_trans)
      with bp_guar_trans [OF g1 this] r1 True eq show ?thesis
        by (auto simp: cas_split rely_def fp_put_tag_def)
    next
      case neq: False
      have run: "bp_raise_LF (Suc fuel) a e b w = bp_raise_LF fuel a ?tag b ?w1"
        using True neq by (simp add: cas_split)
      show ?thesis
      proof (cases "snd w = []")
        case False
        then have "length (snd ?w1) + 2 \<le> fuel" using Suc.prems(3) by (cases "snd w") auto
        from Suc.IH [OF r1 order_refl this] obtain w' where
          "bp_raise_LF fuel a ?tag b ?w1 = Some w'" "rely (bp_guar a tid) w'"
          "bp_guar a tid (fst ?w1) (fst w')" "b \<le> rt_tag (fst w') a" by blast
        with bp_guar_trans [OF g1] run show ?thesis by auto
      next
        case True
        then have "?w1 = w" by (rule others_alone)
        obtain k where k: "fuel = Suc k" using Suc.prems(3) by (cases fuel) auto
        have r: "bp_raise_LF fuel a ?tag b ?w1 =
            Some (if ?tag < b then (fp_put_tag a b (fst w), snd w) else w)"
          using \<open>?w1 = w\<close> by (simp add: k cas_split)
        have "bp_guar a tid (fst w) (fp_put_tag a b (fst w))" if "?tag < b"
          using that \<open>?w1 = w\<close> by (auto simp: bp_guar_def fp_put_tag_def bp_tagged_def
              bp_get_birth_epoch_def rt_read_birth_def Let_def intro: order_trans)
        with run r Suc.prems(1) \<open>?w1 = w\<close> bp_guar_refl [THEN reflpD, of a tid] show ?thesis
          by (auto simp: rely_def fp_put_tag_def not_less)
      qed
    qed
  qed
qed

text \<open>C36: A lock-free \<open>CAS\<close> keeps the rules \<open>bp_guar\<close> it relies on.  Under interference by those
  rules, and when no weak compare-and-swap fails without reason, it returns; it never lowers the tag, the tag still bounds the birth epoch of the object the link leads to, and if
  the pointer was swung the link leads to the new object.\<close>

theorem bp_CAS_guarantee:
  assumes "rely (bp_guar a tid) w" and "bp_tagged a (fst w)" and "rt_type (fst w) = LF"
    and "length (snd w) + 2 \<le> fuel"
  shows "\<exists>ok ori' w'. bp_CAS fuel a ori obj w = Some (ok, ori', w') \<and> bp_guar a tid (fst w) (fst w')
     \<and> bp_tagged a (fst w') \<and> (ok \<longrightarrow> rt_ptr (fst w') a = obj)"
proof -
  let ?w1 = "others w" let ?b = "bp_get_birth_epoch obj (fst ?w1)"
  note r1 = rely_others [OF assms(1)]
  note g1 = rely_step [OF assms(1) bp_guar_refl]
  have "length (snd ?w1) + 2 \<le> fuel" using assms(4) by simp
  from bp_raise_LF_tag [OF r1 order_refl this, of ?b] obtain w2 where
    w2: "bp_raise_LF fuel a (rt_tag (fst ?w1) a) ?b ?w1 = Some w2" "rely (bp_guar a tid) w2"
      "bp_guar a tid (fst ?w1) (fst w2)" "?b \<le> rt_tag (fst w2) a" by blast
  have ty: "rt_type (fst ?w1) = LF" using g1 assms(3) by (simp add: bp_guar_def)
  have run: "bp_CAS fuel a ori obj w = Some (cas (\<lambda>s. rt_ptr s a) (fp_put_ptr a) ori obj w2)"
    using w2(1) ty assms(3) by (simp add: bp_CAS_def fp_load_tag_def load_split Let_def)
  let ?s = "fst (others w2)" let ?t = "fp_put_ptr a obj ?s"
  note g3 = bp_guar_trans [OF g1 bp_guar_trans [OF w2(3) rely_step [OF w2(2) bp_guar_refl]]]
  have "rt_birth ?s = rt_birth (fst ?w1)"
    using bp_guar_trans [OF w2(3) rely_step [OF w2(2) bp_guar_refl]] by (simp add: bp_guar_def)
  then have "bp_get_birth_epoch obj ?s = ?b" by (rule bp_birth_same)
  moreover have "?b \<le> rt_tag ?s a"
    using w2(4) rely_step [OF w2(2) bp_guar_refl] by (auto simp: bp_guar_def)
  moreover have "bp_get_birth_epoch obj ?t = bp_get_birth_epoch obj ?s"
    by (rule bp_birth_same) (simp add: fp_put_ptr_def)
  ultimately have tag: "bp_tagged a ?t"
    by (simp add: bp_tagged_def) (simp add: fp_put_ptr_def)
  moreover from tag g3 have "bp_guar a tid (fst w) ?t"
    by (auto simp: bp_guar_def fp_put_ptr_def)
  moreover have "bp_tagged a ?s" using g3 assms(2) by (simp add: bp_guar_def)
  ultimately have s: "bp_guar a tid (fst w) ?t" "bp_tagged a ?s" "bp_tagged a ?t" using tag by simp_all
  show ?thesis
  proof (cases "rt_ptr ?s a = ori")
    case True
    then have "bp_CAS fuel a ori obj w = Some (True, ori, (?t, snd (others w2)))"
      using run by (simp add: cas_split)
    with s show ?thesis by (intro exI) (auto simp: fp_put_ptr_def)
  next
    case False
    then have "bp_CAS fuel a ori obj w = Some (False, rt_ptr ?s a, others w2)"
      using run by (simp add: cas_split)
    with s g3 show ?thesis by (intro exI) auto
  qed
qed

theorem bp_CAS_guarantee_witness:
  "\<exists>ok ori' w'. bp_CAS 3 24 0 8 ((the (rt_new 2 0 1 1 True ''LF''))\<lparr>rt_birth := (\<lambda>_. 5)\<rparr>,
        [\<lambda>s. fp_put_tag 24 (max 7 (rt_tag s 24)) s]) = Some (ok, ori', w')
     \<and> bp_guar 24 0 ((the (rt_new 2 0 1 1 True ''LF''))\<lparr>rt_birth := (\<lambda>_. 5)\<rparr>) (fst w')
     \<and> bp_tagged 24 (fst w') \<and> (ok \<longrightarrow> rt_ptr (fst w') 24 = 8)"
  by (rule bp_CAS_guarantee [of 24 0 "((the (rt_new 2 0 1 1 True ''LF''))\<lparr>rt_birth := (\<lambda>_. 5)\<rparr>,
        [\<lambda>s. fp_put_tag 24 (max 7 (rt_tag s 24)) s])" 3 0 8, unfolded fst_conv])
    (auto simp: rely_def bp_guar_def bp_tagged_def bp_get_birth_epoch_def rt_read_birth_def
      fp_put_tag_def rt_new_def rt_get_update_type_def Let_def le_max_iff_disj)

end
