(* ===== verification/Block_Pool.thy ===== *)
theory Block_Pool
  imports Prelude
begin

text \<open>
  \<open>ConcurrentPrimitives.hpp\<close> (the counted pointer) and \<open>BlockPool.hpp\<close> of the harness: a free
  list allocator.  Each thread has a stack of free blocks; groups of eight blocks move between
  the stacks and one global stack of groups, whose top is a counted pointer.  A block is known
  by its address; \<open>next\<close> and \<open>next_group\<close> are the maps \<open>pool_next\<close> and \<open>pool_next_group\<close>.
  \<open>arr\<close> stands for the address \<open>memalign\<close> returns, \<open>pool_blocksize\<close> for \<open>sizeof(shared_block_t)\<close>;
  the payload follows the two 8-byte pointers.
\<close>

section \<open>Counted pointers\<close>

type_synonym cptr = "64 word"

definition cptr_init :: "ptr \<Rightarrow> 32 word \<Rightarrow> cptr" where
  "cptr_init p sn =
     (let a = (ucast (ucast p :: 32 word) :: 64 word);
          a = push_bit 32 a
      in a + ucast sn)"

definition cptr_ptr :: "cptr \<Rightarrow> ptr" where
  "cptr_ptr ui = drop_bit 32 (ui AND 0xffffffff00000000)"

definition cptr_sn :: "cptr \<Rightarrow> 32 word" where
  "cptr_sn ui = ucast (ui AND 0x00000000ffffffff)"

text \<open>The word \<open>CAS\<close> puts in place of \<open>oldval\<close>.\<close>

definition cptr_replacement :: "cptr \<Rightarrow> ptr \<Rightarrow> cptr" where
  "cptr_replacement oldval newval = cptr_init newval (cptr_sn oldval + 1)"

definition cptr_CAS :: "('s \<Rightarrow> cptr) \<Rightarrow> (cptr \<Rightarrow> 's \<Rightarrow> 's) \<Rightarrow> cptr \<Rightarrow> ptr \<Rightarrow> 's world \<Rightarrow> bool \<times> 's world" where
  "cptr_CAS get put oldval newval w =
     (let (ok, old, w) = cas get put oldval (cptr_replacement oldval newval) w in (ok, w))"

definition cptr_CAS_sn :: "('s \<Rightarrow> cptr) \<Rightarrow> (cptr \<Rightarrow> 's \<Rightarrow> 's) \<Rightarrow> cptr \<Rightarrow> ptr \<Rightarrow> 32 word \<Rightarrow> 's world
    \<Rightarrow> bool \<times> 's world" where
  "cptr_CAS_sn get put oldval newval newSn w =
     (let (ok, old, w) = cas get put oldval (cptr_init newval newSn) w in (ok, w))"

fun cptr_storePtr :: "nat \<Rightarrow> ('s \<Rightarrow> cptr) \<Rightarrow> (cptr \<Rightarrow> 's \<Rightarrow> 's) \<Rightarrow> ptr \<Rightarrow> 's world \<Rightarrow> 's world option" where
  "cptr_storePtr 0 get put newval w = None"
| "cptr_storePtr (Suc fuel) get put newval w =
     (let (oldval, w) = load get w;
          (ok, w) = cptr_CAS get put oldval newval w
      in if ok then Some w else cptr_storePtr fuel get put newval w)"

lemma cptr_init_or: "cptr_init p sn = push_bit 32 p OR ucast sn"
proof -
  have "push_bit 32 (ucast (ucast p :: 32 word) :: 64 word) = push_bit 32 p"
    by (rule bit_word_eqI) (auto simp: bit_push_bit_iff bit_ucast_iff)
  moreover have "push_bit 32 p AND (ucast sn :: 64 word) = 0"
    by (rule bit_word_eqI) (auto simp: bit_push_bit_iff bit_ucast_iff bit_and_iff dest: bit_imp_le_length)
  ultimately show ?thesis by (simp add: cptr_init_def disjunctive_add_eq_or)
qed

lemma cptr_fields: "cptr_ptr ui = drop_bit 32 ui" "cptr_sn ui = ucast (take_bit 32 ui)"
proof -
  have hi: "(0xffffffff00000000 :: 64 word) = push_bit 32 (mask 32)"
    and lo: "(0xffffffff :: 64 word) = mask 32"
    by (simp_all add: mask_eq_exp_minus_1 push_bit_eq_mult)
  show "cptr_ptr ui = drop_bit 32 ui"
    unfolding cptr_ptr_def hi
    by (rule bit_word_eqI)
      (auto simp: bit_drop_bit_eq bit_and_iff bit_push_bit_iff bit_mask_iff dest: bit_imp_le_length)
  show "cptr_sn ui = ucast (take_bit 32 ui)"
    unfolding cptr_sn_def lo by (simp add: take_bit_eq_mask)
qed

lemma cptr_ptr_init: "cptr_ptr (cptr_init p sn) = take_bit 32 p"
  unfolding cptr_init_or cptr_fields
  by (rule bit_word_eqI)
    (auto simp: bit_drop_bit_eq bit_or_iff bit_push_bit_iff bit_ucast_iff bit_take_bit_iff
      dest: bit_imp_le_length)

lemma cptr_sn_init: "cptr_sn (cptr_init p sn) = sn"
  unfolding cptr_init_or cptr_fields
  by (rule bit_word_eqI)
    (auto simp: bit_or_iff bit_push_bit_iff bit_ucast_iff bit_take_bit_iff dest: bit_imp_le_length)

lemma take_bit32_small: "take_bit 32 (p :: 64 word) = p \<longleftrightarrow> p < 2 ^ 32"
proof -
  have "take_bit 32 p = p \<longleftrightarrow> take_bit 32 (unat p) = unat p"
    by (metis unsigned_take_bit_eq word_unat_eq_iff)
  also have "\<dots> \<longleftrightarrow> p < 2 ^ 32"
    by (simp add: take_bit_nat_eq_self_iff word_less_nat_alt)
  finally show ?thesis .
qed

section \<open>The pool\<close>

abbreviation GROUP_SIZE :: nat where "GROUP_SIZE \<equiv> 8"

record block_pool =
  pool_glibc_mem :: bool
  pool_num_threads :: nat
  pool_blocksize :: u64
  pool_global :: cptr
  pool_top :: "nat \<Rightarrow> ptr"
  pool_nth :: "nat \<Rightarrow> ptr"
  pool_count :: "nat \<Rightarrow> u64"
  pool_next :: "ptr \<Rightarrow> ptr"
  pool_next_group :: "ptr \<Rightarrow> ptr"

definition pool_new :: "nat \<Rightarrow> bool \<Rightarrow> u64 \<Rightarrow> block_pool" where
  "pool_new n glibc bs = \<lparr>pool_glibc_mem = glibc, pool_num_threads = n, pool_blocksize = bs,
     pool_global = cptr_init nullptr 0, pool_top = (\<lambda>_. nullptr), pool_nth = (\<lambda>_. nullptr),
     pool_count = (\<lambda>_. 0), pool_next = (\<lambda>_. nullptr), pool_next_group = (\<lambda>_. nullptr)\<rparr>"

definition pool_payload :: "ptr \<Rightarrow> ptr" where
  "pool_payload b = b + 16"

definition make_shared_block_t :: "ptr \<Rightarrow> ptr" where
  "make_shared_block_t block = block - 16"

definition pool_put_global :: "cptr \<Rightarrow> block_pool \<Rightarrow> block_pool" where
  "pool_put_global c s = s\<lparr>pool_global := c\<rparr>"

definition pool_elem :: "ptr \<Rightarrow> block_pool \<Rightarrow> nat \<Rightarrow> ptr" where
  "pool_elem arr s i = arr + of_nat i * pool_blocksize s"

text \<open>The fields of the new blocks are zeroed before they are linked.\<close>

fun pool_link :: "nat list \<Rightarrow> ptr \<Rightarrow> block_pool \<Rightarrow> block_pool" where
  "pool_link [] arr s = s"
| "pool_link (i # js) arr s =
     pool_link js arr (s\<lparr>pool_next := (pool_next s)(pool_elem arr s i := pool_elem arr s (i + 1))\<rparr>)"

fun pool_zero :: "nat list \<Rightarrow> ptr \<Rightarrow> block_pool \<Rightarrow> block_pool" where
  "pool_zero [] arr s = s"
| "pool_zero (i # js) arr s =
     pool_zero js arr (s\<lparr>pool_next := (pool_next s)(pool_elem arr s i := nullptr),
        pool_next_group := (pool_next_group s)(pool_elem arr s i := nullptr)\<rparr>)"

definition appendBlockGroup :: "ptr \<Rightarrow> nat \<Rightarrow> block_pool \<Rightarrow> block_pool" where
  "appendBlockGroup arr tid s =
     (let s = pool_zero [0..<GROUP_SIZE] arr s;
          s = s\<lparr>pool_top := (pool_top s)(tid := pool_elem arr s 0)\<rparr>;
          s = s\<lparr>pool_nth := (pool_nth s)(tid := pool_top s tid),
                pool_count := (pool_count s)(tid := of_nat GROUP_SIZE),
                pool_next := (pool_next s)(pool_elem arr s (GROUP_SIZE - 1) := nullptr)\<rparr>
      in pool_link [0..<GROUP_SIZE - 1] arr s)"

text \<open>Pop the top of the thread's own stack: \<open>hn->top = b->next; hn->count--; if (b == hn->nth)
  hn->nth = 0\<close>.\<close>

definition pool_pop :: "nat \<Rightarrow> block_pool \<Rightarrow> block_pool" where
  "pool_pop tid s =
     (let b = pool_top s tid;
          s = s\<lparr>pool_top := (pool_top s)(tid := pool_next s b),
                pool_count := (pool_count s)(tid := pool_count s tid - 1)\<rparr>
      in if b = pool_nth s tid then s\<lparr>pool_nth := (pool_nth s)(tid := nullptr)\<rparr> else s)"

fun pool_grab :: "nat \<Rightarrow> ptr \<Rightarrow> nat \<Rightarrow> block_pool world \<Rightarrow> (ptr \<times> block_pool world) option" where
  "pool_grab 0 arr tid w = None"
| "pool_grab (Suc fuel) arr tid w =
     (let (oldp, w) = load pool_global w;
          b = cptr_ptr oldp
      in if b \<noteq> nullptr
         then let (g, w) = load (\<lambda>s. pool_next_group s b) w;
                  (ok, w) = cptr_CAS pool_global pool_put_global oldp g w
              in if ok
                 then Some (b, own (\<lambda>s. s\<lparr>pool_top := (pool_top s)(tid := pool_next s b),
                               pool_count := (pool_count s)(tid := of_nat (GROUP_SIZE - 1))\<rparr>) w)
                 else pool_grab fuel arr tid w
         else let w = own (appendBlockGroup arr tid) w;
                  b = pool_top (fst w) tid
              in Some (b, own (pool_pop tid) w))"

definition pool_alloc :: "nat \<Rightarrow> ptr \<Rightarrow> nat \<Rightarrow> block_pool world \<Rightarrow> (ptr \<times> block_pool world) option" where
  "pool_alloc fuel arr tid w =
     (if pool_glibc_mem (fst w) then Some (arr, w)
      else let b = pool_top (fst w) tid
           in if b \<noteq> nullptr then Some (pool_payload b, own (pool_pop tid) w)
              else case pool_grab fuel arr tid w of None \<Rightarrow> None
                   | Some (b, w) \<Rightarrow> Some (pool_payload b, w))"

fun pool_give :: "nat \<Rightarrow> ptr \<Rightarrow> block_pool world \<Rightarrow> block_pool world option" where
  "pool_give 0 ng w = None"
| "pool_give (Suc fuel) ng w =
     (let (oldp, w) = load pool_global w;
          w = own (\<lambda>s. s\<lparr>pool_next_group := (pool_next_group s)(ng := cptr_ptr oldp)\<rparr>) w;
          (ok, w) = cptr_CAS pool_global pool_put_global oldp ng w
      in if ok then Some w else pool_give fuel ng w)"

definition pool_push :: "ptr \<Rightarrow> nat \<Rightarrow> block_pool \<Rightarrow> block_pool" where
  "pool_push b tid s =
     s\<lparr>pool_next := (pool_next s)(b := pool_top s tid),
       pool_top := (pool_top s)(tid := b),
       pool_count := (pool_count s)(tid := pool_count s tid + 1)\<rparr>"

definition pool_cut :: "nat \<Rightarrow> block_pool \<Rightarrow> block_pool" where
  "pool_cut tid s =
     s\<lparr>pool_next := (pool_next s)(pool_nth s tid := nullptr),
       pool_nth := (pool_nth s)(tid := nullptr),
       pool_count := (pool_count s)(tid := pool_count s tid - of_nat GROUP_SIZE)\<rparr>"

definition pool_free :: "nat \<Rightarrow> ptr \<Rightarrow> nat \<Rightarrow> block_pool world \<Rightarrow> block_pool world option" where
  "pool_free fuel block tid w =
     (if pool_glibc_mem (fst w) then Some w
      else let w = own (pool_push (make_shared_block_t block) tid) w;
               s = fst w
           in if pool_count s tid = of_nat (GROUP_SIZE + 1)
              then Some (own (\<lambda>s. s\<lparr>pool_nth := (pool_nth s)(tid := pool_top s tid)\<rparr>) w)
              else if pool_count s tid = of_nat (GROUP_SIZE * 2)
              then (case pool_give fuel (pool_next s (pool_nth s tid)) w of None \<Rightarrow> None
                    | Some w \<Rightarrow> Some (own (pool_cut tid) w))
              else Some w)"

definition pool_allocBlock :: "nat \<Rightarrow> ptr \<Rightarrow> nat \<Rightarrow> block_pool world \<Rightarrow> (ptr \<times> block_pool world) option" where
  "pool_allocBlock fuel arr tid w = pool_alloc fuel arr tid w"

definition pool_freeBlock :: "nat \<Rightarrow> ptr \<Rightarrow> nat \<Rightarrow> block_pool world \<Rightarrow> block_pool world option" where
  "pool_freeBlock fuel block tid w = pool_free fuel block tid w"

definition pool_clone :: "block_pool \<Rightarrow> block_pool" where
  "pool_clone s = pool_new (pool_num_threads s) (pool_glibc_mem s) (pool_blocksize s)"

section \<open>The stacks in memory\<close>

text \<open>The global stack: each group is a chain of eight blocks, linked through \<open>next_group\<close> of
  its first block.\<close>

fun groups :: "(ptr \<Rightarrow> ptr) \<Rightarrow> (ptr \<Rightarrow> ptr) \<Rightarrow> ptr \<Rightarrow> ptr list list \<Rightarrow> bool" where
  "groups nx ng p [] = (p = nullptr)"
| "groups nx ng p (g # gs) = (chain nx p g \<and> length g = GROUP_SIZE \<and> groups nx ng (ng p) gs)"

lemma groups_cong:
  "\<forall>x \<in> set (concat gs). nx' x = nx x \<and> ng' x = ng x \<Longrightarrow> groups nx' ng' p gs = groups nx ng p gs"
proof (induction gs arbitrary: p)
  case (Cons g gs)
  have a: "chain nx' p g = chain nx p g" using Cons.prems by (intro chain_cong) simp
  have b: "ng' p = ng p" if "chain nx p g" "length g = GROUP_SIZE"
  proof -
    have "g \<noteq> []" using that(2) by auto
    then have "p \<in> set g" by (rule chain_mem [OF that(1)])
    then show ?thesis using Cons.prems by simp
  qed
  have c: "groups nx' ng' q gs = groups nx ng q gs" for q
    using Cons.prems by (intro Cons.IH) simp
  show ?case unfolding groups.simps a c using b by metis
qed simp

lemma chain_take_cut:
  "chain nx p xs \<Longrightarrow> distinct xs \<Longrightarrow> i < length xs \<Longrightarrow>
     chain (nx(xs ! i := nullptr)) p (take (Suc i) xs)"
proof (induction xs arbitrary: p i)
  case (Cons x xs)
  show ?case
  proof (cases i)
    case (Suc j)
    with Cons.prems have "xs ! j \<in> set xs" "x \<notin> set xs" by simp_all
    then have "x \<noteq> xs ! j" by blast
    with Suc Cons.prems Cons.IH [of "nx x" j] show ?thesis by simp
  next
    case 0
    with Cons.prems show ?thesis by simp
  qed
qed simp

text \<open>\<open>L tid\<close> lists the blocks on the stack of thread \<open>tid\<close>, \<open>G\<close> the groups of the global
  stack.\<close>

definition pool_blocks :: "nat \<Rightarrow> (nat \<Rightarrow> ptr list) \<Rightarrow> ptr list list \<Rightarrow> ptr list" where
  "pool_blocks n L G = concat (map L [0..<n]) @ concat G"

definition pool_stack :: "block_pool \<Rightarrow> nat \<Rightarrow> ptr list \<Rightarrow> bool" where
  "pool_stack s t xs \<longleftrightarrow> chain (pool_next s) (pool_top s t) xs \<and> length xs < GROUP_SIZE * 2
     \<and> pool_count s t = of_nat (length xs)
     \<and> pool_nth s t = (if GROUP_SIZE < length xs then xs ! (length xs - (GROUP_SIZE + 1)) else nullptr)"

definition pool_inv :: "block_pool \<Rightarrow> (nat \<Rightarrow> ptr list) \<Rightarrow> ptr list list \<Rightarrow> bool" where
  "pool_inv s L G \<longleftrightarrow> \<not> pool_glibc_mem s \<and> (\<forall>t < pool_num_threads s. pool_stack s t (L t))
     \<and> groups (pool_next s) (pool_next_group s) (cptr_ptr (pool_global s)) G
     \<and> distinct (pool_blocks (pool_num_threads s) L G)
     \<and> (\<forall>b \<in> set (pool_blocks (pool_num_threads s) L G). b < 2 ^ 32)"

lemma mset_blocks_upd:
  "t < n \<Longrightarrow> mset (pool_blocks n (L(t := xs)) G) + mset (L t) = mset (pool_blocks n L G) + mset xs"
  using mset_concat_upd [of t n L xs] by (simp add: pool_blocks_def)

lemma multiset_swap:
  fixes a :: "'a multiset"
  shows "a = b + d \<Longrightarrow> t + d = z \<Longrightarrow> b + l = p + t \<Longrightarrow> a + l = p + z"
proof -
  assume "a = b + d" "t + d = z" "b + l = p + t"
  then have "a + l = (b + l) + d" by (simp add: ac_simps)
  also have "\<dots> = p + (t + d)" using \<open>b + l = p + t\<close> by (simp add: ac_simps)
  finally show ?thesis using \<open>t + d = z\<close> by simp
qed

lemma mset_blocks_give:
  assumes "t < n"
  shows "mset (pool_blocks n (L(t := take k zs)) (drop k zs # G)) + mset (L t)
     = mset (pool_blocks n L G) + mset zs"
proof -
  have "mset (pool_blocks n (L(t := take k zs)) (drop k zs # G))
      = mset (pool_blocks n (L(t := take k zs)) G) + mset (drop k zs)"
    by (simp add: pool_blocks_def del: fun_upd_apply)
  moreover have "mset (take k zs) + mset (drop k zs) = mset zs"
    by (metis append_take_drop_id mset_append)
  ultimately show ?thesis
    using mset_blocks_upd [OF assms, of L "take k zs" G]
    by (rule multiset_swap)
qed

lemma blocks_distinct:
  assumes "distinct (pool_blocks n L G)" "t < n"
  shows "distinct (L t)" "set (L t) \<inter> set (concat G) = {}"
    "u < n \<Longrightarrow> u \<noteq> t \<Longrightarrow> set (L u) \<inter> set (L t) = {}"
proof -
  have m: "mset (pool_blocks n L G) = mset (L t @ pool_blocks n (L(t := [])) G)"
    using mset_blocks_upd [OF assms(2), of L "[]" G] by (simp add: add.commute)
  then have d: "distinct (L t @ pool_blocks n (L(t := [])) G)"
    using assms(1) mset_eq_imp_distinct_iff by blast
  then show "distinct (L t)" "set (L t) \<inter> set (concat G) = {}"
    by (auto simp: pool_blocks_def)
  show "set (L u) \<inter> set (L t) = {}" if "u < n" "u \<noteq> t"
  proof -
    have "set (L u) \<subseteq> set (pool_blocks n (L(t := [])) G)"
      using that by (auto simp: pool_blocks_def intro!: bexI [of _ u])
    with d show ?thesis by auto
  qed
qed

lemma blocks_mem: "t < n \<Longrightarrow> x \<in> set (L t) \<Longrightarrow> x \<in> set (pool_blocks n L G)"
  by (auto simp: pool_blocks_def)

lemma distinct_mset_le: "mset xs + A = mset ys \<Longrightarrow> distinct ys \<Longrightarrow> distinct xs"
  by (metis distinct_append mset_append mset_eq_imp_distinct_iff ex_mset)

lemma set_mset_le: "mset xs + A = mset ys \<Longrightarrow> set xs \<subseteq> set ys"
  by (metis le_sup_iff order_refl set_mset_mset set_mset_union)

text \<open>A stack is not affected by changes elsewhere.\<close>

lemma pool_stack_cong:
  "pool_top s' t = pool_top s t \<Longrightarrow> pool_nth s' t = pool_nth s t \<Longrightarrow> pool_count s' t = pool_count s t \<Longrightarrow>
     \<forall>x \<in> set xs. pool_next s' x = pool_next s x \<Longrightarrow> pool_stack s' t xs = pool_stack s t xs"
  using chain_cong [of xs "pool_next s'" "pool_next s"] by (simp add: pool_stack_def)

lemma pool_pop_inv:
  assumes inv: "pool_inv s L G" and t: "tid < pool_num_threads s" and L: "L tid = b # rest"
  shows "pool_inv (pool_pop tid s) (L(tid := rest)) G" and "pool_top s tid = b"
    and "mset (pool_blocks (pool_num_threads s) (L(tid := rest)) G) + {#b#}
           = mset (pool_blocks (pool_num_threads s) L G)"
proof -
  have st: "pool_stack s tid (b # rest)" using inv t L by (metis pool_inv_def)
  then show top: "pool_top s tid = b" by (simp add: pool_stack_def)
  show m: "mset (pool_blocks (pool_num_threads s) (L(tid := rest)) G) + {#b#}
           = mset (pool_blocks (pool_num_threads s) L G)"
    using mset_blocks_upd [OF t, of L rest G] L by simp
  have dist: "distinct (b # rest)" using inv t blocks_distinct(1) L by (metis pool_inv_def)
  have nth: "pool_nth s tid = b \<longleftrightarrow> length rest = GROUP_SIZE"
  proof -
    have "pool_nth s tid = (if GROUP_SIZE \<le> length rest then (b # rest) ! (length rest - GROUP_SIZE) else nullptr)"
      using st by (simp add: pool_stack_def less_Suc_eq_le)
    moreover have "b \<noteq> nullptr" using st by (simp add: pool_stack_def)
    moreover have "(b # rest) ! i = b \<longleftrightarrow> i = 0" if "i < Suc (length rest)" for i
      using that dist by (metis distinct_conv_nth length_Cons nth_Cons_0 zero_less_Suc)
    ultimately show ?thesis by auto
  qed
  have new: "pool_stack (pool_pop tid s) tid rest"
    using st nth top by (auto simp: pool_stack_def pool_pop_def Let_def nth_Cons' less_Suc_eq_le)
  have "pool_stack (pool_pop tid s) u (L u)" if "u < pool_num_threads s" "u \<noteq> tid" for u
    using inv that pool_stack_cong [of "pool_pop tid s" u s "L u"]
    by (simp add: pool_inv_def pool_pop_def Let_def)
  moreover have "pool_next (pool_pop tid s) = pool_next s" "pool_next_group (pool_pop tid s) = pool_next_group s"
    "pool_global (pool_pop tid s) = pool_global s" "pool_num_threads (pool_pop tid s) = pool_num_threads s"
    "pool_glibc_mem (pool_pop tid s) = pool_glibc_mem s"
    by (simp_all add: pool_pop_def Let_def)
  ultimately show "pool_inv (pool_pop tid s) (L(tid := rest)) G"
    using inv new distinct_mset_le [OF m] set_mset_le [OF m] by (auto simp: pool_inv_def)
qed
section \<open>Allocation\<close>

lemma chain_map:
  "(\<And>i. a \<le> i \<Longrightarrow> Suc i < n \<Longrightarrow> nx (e i) = e (Suc i)) \<Longrightarrow> nx (e (n - 1)) = nullptr \<Longrightarrow>
     (\<And>i. a \<le> i \<Longrightarrow> i < n \<Longrightarrow> e i \<noteq> nullptr) \<Longrightarrow> a < n \<Longrightarrow> chain nx (e a) (map e [a..<n])"
proof (induction "n - a" arbitrary: a)
  case (Suc k)
  have up: "[a..<n] = a # [Suc a..<n]" using Suc.prems(4) by (simp add: upt_conv_Cons)
  show ?case
  proof (cases "Suc a < n")
    case True
    have "chain nx (e (Suc a)) (map e [Suc a..<n])"
      using Suc.hyps(2) Suc.prems True by (intro Suc.hyps(1)) auto
    with Suc.prems(1,3) [of a] True Suc.prems(4) show ?thesis by (simp add: up)
  next
    case False
    with Suc.prems(4) have "n = Suc a" by simp
    with Suc.prems show ?thesis by simp
  qed
qed simp

lemma pool_link_fields:
  "pool_top (pool_link js arr s) = pool_top s" "pool_nth (pool_link js arr s) = pool_nth s"
  "pool_count (pool_link js arr s) = pool_count s" "pool_global (pool_link js arr s) = pool_global s"
  "pool_next_group (pool_link js arr s) = pool_next_group s"
  "pool_num_threads (pool_link js arr s) = pool_num_threads s"
  "pool_glibc_mem (pool_link js arr s) = pool_glibc_mem s"
  "pool_elem arr' (pool_link js arr s) = pool_elem arr' s"
  by (induction js arbitrary: s) (auto simp: pool_elem_def [abs_def])

lemma pool_zero_fields:
  "pool_top (pool_zero js arr s) = pool_top s" "pool_nth (pool_zero js arr s) = pool_nth s"
  "pool_count (pool_zero js arr s) = pool_count s" "pool_global (pool_zero js arr s) = pool_global s"
  "pool_num_threads (pool_zero js arr s) = pool_num_threads s"
  "pool_glibc_mem (pool_zero js arr s) = pool_glibc_mem s"
  "pool_elem arr' (pool_zero js arr s) = pool_elem arr' s"
  by (induction js arbitrary: s) (auto simp: pool_elem_def [abs_def])

lemma pool_elem_next [simp]: "pool_elem arr (s\<lparr>pool_next := nx\<rparr>) = pool_elem arr s"
  by (simp add: pool_elem_def [abs_def])

lemma pool_link_other:
  "x \<notin> pool_elem arr s ` set js \<Longrightarrow> pool_next (pool_link js arr s) x = pool_next s x"
  by (induction js arbitrary: s) auto

lemma pool_link_next:
  "inj_on (pool_elem arr s) (set js) \<Longrightarrow> distinct js \<Longrightarrow> i \<in> set js \<Longrightarrow>
     pool_next (pool_link js arr s) (pool_elem arr s i) = pool_elem arr s (Suc i)"
proof (induction js arbitrary: s)
  case (Cons j js)
  let ?s = "s\<lparr>pool_next := (pool_next s)(pool_elem arr s j := pool_elem arr s (j + 1))\<rparr>"
  show ?case
  proof (cases "i \<in> set js")
    case True
    with Cons show ?thesis using Cons.IH [of ?s] by (simp add: inj_on_def)
  next
    case False
    with Cons.prems have "i = j" by simp
    moreover have "pool_elem arr s j \<notin> pool_elem arr s ` set js"
      using Cons.prems by (auto simp: inj_on_def)
    ultimately show ?thesis using pool_link_other [of "pool_elem arr s j" arr ?s js] by simp
  qed
qed simp

lemma pool_zero_other:
  "x \<notin> pool_elem arr s ` set js \<Longrightarrow> pool_next (pool_zero js arr s) x = pool_next s x
     \<and> pool_next_group (pool_zero js arr s) x = pool_next_group s x"
  by (induction js arbitrary: s) (auto simp: pool_elem_def)

text \<open>What the caller relies on when \<open>memalign\<close> returns \<open>arr\<close>: eight new block addresses that
  fit the 32 bits of a counted pointer.\<close>

definition pool_fresh :: "ptr \<Rightarrow> block_pool \<Rightarrow> ptr list \<Rightarrow> bool" where
  "pool_fresh arr s bs \<longleftrightarrow> distinct (map (pool_elem arr s) [0..<GROUP_SIZE] @ bs)
     \<and> (\<forall>i<GROUP_SIZE. pool_elem arr s i \<noteq> nullptr \<and> pool_elem arr s i < 2 ^ 32)"

lemma pool_append_inv:
  assumes inv: "pool_inv s L G" and t: "tid < pool_num_threads s" and L: "L tid = []"
    and fresh: "pool_fresh arr s (pool_blocks (pool_num_threads s) L G)"
  defines "e \<equiv> pool_elem arr s"
  shows "pool_inv (pool_pop tid (appendBlockGroup arr tid s)) (L(tid := map e [1..<GROUP_SIZE])) G"
    and "pool_top (appendBlockGroup arr tid s) tid = e 0"
    and "mset (pool_blocks (pool_num_threads s) (L(tid := map e [1..<GROUP_SIZE])) G) + {#e 0#}
           = mset (pool_blocks (pool_num_threads s) L G) + mset (map e [0..<GROUP_SIZE])"
proof -
  let ?n = "pool_num_threads s" let ?s = "appendBlockGroup arr tid s" let ?t = "pool_pop tid ?s"
  have inj: "inj_on e (set [0..<GROUP_SIZE])" and dis: "set (map e [0..<GROUP_SIZE]) \<inter> set (pool_blocks ?n L G) = {}"
    using fresh by (simp_all add: pool_fresh_def e_def distinct_map del: upt_Suc)
  have new: "e i \<notin> set (pool_blocks ?n L G)" if "i < GROUP_SIZE" for i
    using dis that by (simp add: disjoint_iff)
  have nz: "\<And>i. i < GROUP_SIZE \<Longrightarrow> e i \<noteq> nullptr" and sm: "\<And>i. i < GROUP_SIZE \<Longrightarrow> e i < 2 ^ 32"
    using fresh by (simp_all add: pool_fresh_def e_def)
  have el: "pool_elem arr (s'\<lparr>pool_top := a, pool_nth := b, pool_count := c, pool_next := d\<rparr>) = pool_elem arr s'" for s' a b c d
    by (simp add: pool_elem_def [abs_def])
  have el2: "pool_elem arr (s'\<lparr>pool_top := a\<rparr>) = pool_elem arr s'" "pool_elem arr (s'\<lparr>pool_top := a, pool_nth := b\<rparr>) = pool_elem arr s'"
     "pool_elem arr (s'\<lparr>pool_top := a, pool_nth := b, pool_count := c\<rparr>) = pool_elem arr s'" for s' a b c
    by (simp_all add: pool_elem_def [abs_def])
  note fields = appendBlockGroup_def Let_def pool_link_fields pool_zero_fields el el2
  have top: "pool_top ?s = (pool_top s)(tid := e 0)" "pool_nth ?s = (pool_nth s)(tid := e 0)"
    "pool_count ?s = (pool_count s)(tid := of_nat GROUP_SIZE)"
    by (simp_all add: fields e_def)
  then show "pool_top ?s tid = e 0" by simp
  have same: "pool_global ?t = pool_global s" "pool_num_threads ?t = ?n" "pool_glibc_mem ?t = pool_glibc_mem s"
    by (simp_all add: pool_pop_def fields)
  have nxs: "pool_next ?t = pool_next ?s" by (simp add: pool_pop_def Let_def)
  obtain q where q: "?s = pool_link [0..<GROUP_SIZE - 1] arr q" "pool_elem arr q = e"
    by (simp add: appendBlockGroup_def Let_def el el2 pool_zero_fields e_def del: upt_Suc)
  have link: "pool_next ?s (e i) = e (Suc i)" if "i < GROUP_SIZE - 1" for i
    using pool_link_next [of arr q "[0..<GROUP_SIZE - 1]" i] inj that
    by (simp add: q inj_on_def)
  have last: "pool_next ?s (e (GROUP_SIZE - 1)) = nullptr"
  proof -
    have "e (GROUP_SIZE - 1) \<notin> e ` set [0..<GROUP_SIZE - 1]" using inj by (auto dest: inj_onD)
    then show ?thesis by (simp add: fields pool_link_other e_def)
  qed
  have other: "pool_next ?t x = pool_next s x \<and> pool_next_group ?t x = pool_next_group s x"
    if "x \<in> set (pool_blocks ?n L G)" for x
  proof -
    have x: "x \<notin> pool_elem arr s ` set [0..<GROUP_SIZE]" using that new by (auto simp: e_def)
    then have "x \<notin> pool_elem arr s ` set [0..<GROUP_SIZE - 1]" "x \<noteq> pool_elem arr s (GROUP_SIZE - 1)" by auto
    with pool_zero_other [OF x] show ?thesis
      by (simp add: pool_pop_def fields pool_link_other)
  qed
  have stack: "pool_stack ?t tid (map e [1..<GROUP_SIZE])"
  proof -
    have "chain (pool_next ?s) (e 1) (map e [1..<GROUP_SIZE])"
      using link last nz by (intro chain_map) auto
    moreover have "pool_next ?s (e 0) = e 1" using link [of 0] by simp
    ultimately show ?thesis
      by (simp add: pool_stack_def pool_pop_def top Let_def del: upt_Suc)
  qed
  show m: "mset (pool_blocks ?n (L(tid := map e [1..<GROUP_SIZE])) G) + {#e 0#}
      = mset (pool_blocks ?n L G) + mset (map e [0..<GROUP_SIZE])"
    using mset_blocks_upd [OF t, of L "map e [1..<GROUP_SIZE]" G] L by (simp add: upt_conv_Cons del: upt_Suc)
  have stacks: "pool_stack ?t u (L u)" if "u < ?n" "u \<noteq> tid" for u
  proof -
    have "\<forall>x \<in> set (L u). pool_next ?t x = pool_next s x" using other blocks_mem [OF that(1), of _ L G] by blast
    then have "pool_stack ?t u (L u) = pool_stack s u (L u)"
      using that by (intro pool_stack_cong) (auto simp: pool_pop_def Let_def top)
    with inv that show ?thesis by (simp add: pool_inv_def)
  qed
  have "groups (pool_next ?t) (pool_next_group ?t) (cptr_ptr (pool_global s)) G"
  proof -
    have "\<forall>x \<in> set (concat G). pool_next ?t x = pool_next s x \<and> pool_next_group ?t x = pool_next_group s x"
      using other by (simp add: pool_blocks_def)
    with inv show ?thesis using groups_cong by (metis pool_inv_def)
  qed
  moreover have "distinct (pool_blocks ?n (L(tid := map e [1..<GROUP_SIZE])) G)"
    and "\<forall>b \<in> set (pool_blocks ?n (L(tid := map e [1..<GROUP_SIZE])) G). b < 2 ^ 32"
  proof -
    have m': "mset (pool_blocks ?n (L(tid := map e [1..<GROUP_SIZE])) G) + {#e 0#}
        = mset (map e [0..<GROUP_SIZE] @ pool_blocks ?n L G)" using m by (simp add: add.commute)
    then show "distinct (pool_blocks ?n (L(tid := map e [1..<GROUP_SIZE])) G)"
      using fresh by (intro distinct_mset_le [OF m']) (simp add: pool_fresh_def e_def)
    show "\<forall>b \<in> set (pool_blocks ?n (L(tid := map e [1..<GROUP_SIZE])) G). b < 2 ^ 32"
    proof
      fix x assume "x \<in> set (pool_blocks ?n (L(tid := map e [1..<GROUP_SIZE])) G)"
      with set_mset_le [OF m'] have "x \<in> set (map e [0..<GROUP_SIZE]) \<or> x \<in> set (pool_blocks ?n L G)"
        by (simp only: set_append) blast
      then show "x < 2 ^ 32"
      proof
        assume "x \<in> set (map e [0..<GROUP_SIZE])"
        then obtain i where "i < GROUP_SIZE" "x = e i" by (auto simp del: upt_Suc)
        then show ?thesis using sm by simp
      next
        assume "x \<in> set (pool_blocks ?n L G)"
        with inv show ?thesis unfolding pool_inv_def by blast
      qed
    qed
  qed
  ultimately show "pool_inv ?t (L(tid := map e [1..<GROUP_SIZE])) G"
    using inv stack stacks same by (simp add: pool_inv_def)
qed
lemma pool_grab_inv:
  assumes inv: "pool_inv s L (g # G)" and t: "tid < pool_num_threads s" and L: "L tid = []"
  defines "s' \<equiv> (pool_put_global (cptr_replacement (pool_global s) (pool_next_group s (hd g))) s)
     \<lparr>pool_top := (pool_top s)(tid := pool_next s (hd g)),
      pool_count := (pool_count s)(tid := of_nat (GROUP_SIZE - 1))\<rparr>"
  shows "pool_inv s' (L(tid := tl g)) G" and "cptr_ptr (pool_global s) = hd g" and "hd g \<noteq> nullptr"
    and "mset (pool_blocks (pool_num_threads s) (L(tid := tl g)) G) + {#hd g#}
           = mset (pool_blocks (pool_num_threads s) L (g # G))"
proof -
  let ?n = "pool_num_threads s"
  have gr: "chain (pool_next s) (cptr_ptr (pool_global s)) g" "length g = GROUP_SIZE"
    "groups (pool_next s) (pool_next_group s) (pool_next_group s (cptr_ptr (pool_global s))) G"
    using inv by (simp_all add: pool_inv_def)
  from gr(2) obtain b r where g: "g = b # r" "length r = GROUP_SIZE - 1" by (cases g) auto
  with gr(1) have b: "cptr_ptr (pool_global s) = b" "b \<noteq> nullptr" "chain (pool_next s) (pool_next s b) r"
    by simp_all
  then show "cptr_ptr (pool_global s) = hd g" "hd g \<noteq> nullptr" by (simp_all add: g)
  show m: "mset (pool_blocks ?n (L(tid := tl g)) G) + {#hd g#} = mset (pool_blocks ?n L (g # G))"
    using mset_blocks_upd [OF t, of L r G] L by (simp add: g pool_blocks_def)
  have next_small: "pool_next_group s b < 2 ^ 32"
  proof (cases G)
    case Nil
    with gr(3) b show ?thesis by simp
  next
    case (Cons h hs)
    with gr(3) b have "chain (pool_next s) (pool_next_group s b) h" "h \<noteq> []" by auto
    then have "pool_next_group s b \<in> set (pool_blocks ?n L (g # G))"
      using chain_mem [of "pool_next s" "pool_next_group s b" h] Cons by (simp add: pool_blocks_def)
    with inv show ?thesis by (simp add: pool_inv_def)
  qed
  have glob: "cptr_ptr (pool_global s') = pool_next_group s b"
    using next_small by (simp add: s'_def g pool_put_global_def cptr_replacement_def cptr_ptr_init take_bit32_small)
  have stack: "pool_stack s' tid r"
    using b(3) g inv t L by (auto simp: pool_stack_def s'_def pool_put_global_def pool_inv_def)
  have stacks: "pool_stack s' u (L u)" if "u < ?n" "u \<noteq> tid" for u
  proof -
    have "pool_stack s' u (L u) = pool_stack s u (L u)"
      using that by (intro pool_stack_cong) (auto simp: s'_def pool_put_global_def)
    with inv that show ?thesis by (simp add: pool_inv_def)
  qed
  have same: "pool_next s' = pool_next s" "pool_next_group s' = pool_next_group s"
    "pool_num_threads s' = ?n" "pool_glibc_mem s' = pool_glibc_mem s"
    by (simp_all add: s'_def pool_put_global_def)
  show "pool_inv s' (L(tid := tl g)) G"
    using inv stack stacks gr(3) distinct_mset_le [OF m] set_mset_le [OF m]
    by (auto simp: pool_inv_def same glob b g)
qed

text \<open>Allocation alone.\<close>

lemma pool_alloc_alone:
  assumes inv: "pool_inv s L G" and t: "tid < pool_num_threads s" and f: "0 < fuel"
    and fresh: "pool_fresh arr s (pool_blocks (pool_num_threads s) L G)"
  shows "\<exists>b s' L' G'. pool_alloc fuel arr tid (s, []) = Some (pool_payload b, (s', []))
     \<and> pool_inv s' L' G' \<and> pool_num_threads s' = pool_num_threads s
     \<and> mset (pool_blocks (pool_num_threads s) L' G') + {#b#} = mset (pool_blocks (pool_num_threads s) L G)
          + (if L tid = [] \<and> G = [] then mset (map (pool_elem arr s) [0..<GROUP_SIZE]) else {#})"
proof -
  let ?n = "pool_num_threads s"
  have st: "pool_stack s tid (L tid)" and gl: "\<not> pool_glibc_mem s" using inv t by (simp_all add: pool_inv_def)
  have popn: "pool_num_threads (pool_pop tid s) = pool_num_threads s" for s by (simp add: pool_pop_def Let_def)
  obtain k where k: "fuel = Suc k" using f by (cases fuel) auto
  show ?thesis
  proof (cases "L tid")
    case (Cons b rest)
    note pop = pool_pop_inv [OF inv t Cons]
    have "b \<noteq> nullptr" using st Cons by (simp add: pool_stack_def)
    then have "pool_alloc fuel arr tid (s, []) = Some (pool_payload b, (pool_pop tid s, []))"
      using gl pop(2) by (simp add: pool_alloc_def own_def)
    with pop Cons popn show ?thesis
      by (intro exI [of _ b] exI [of _ "pool_pop tid s"] exI [of _ "L(tid := rest)"] exI [of _ G]) simp
  next
    case Nil
    then have top: "pool_top s tid = nullptr" using st by (simp add: pool_stack_def)
    show ?thesis
    proof (cases G)
      case (Cons g G')
      note grab = pool_grab_inv [OF inv [unfolded Cons] t Nil]
      let ?s' = "(pool_put_global (cptr_replacement (pool_global s) (pool_next_group s (hd g))) s)
         \<lparr>pool_top := (pool_top s)(tid := pool_next s (hd g)),
          pool_count := (pool_count s)(tid := of_nat (GROUP_SIZE - 1))\<rparr>"
      have "pool_grab fuel arr tid (s, []) = Some (hd g, (?s', []))"
        using grab(2,3) by (simp add: k world_simps cptr_CAS_def pool_put_global_def Let_def)
      then have "pool_alloc fuel arr tid (s, []) = Some (pool_payload (hd g), (?s', []))"
        using gl top by (simp add: pool_alloc_def)
      moreover have "pool_num_threads ?s' = ?n" by (simp add: pool_put_global_def)
      ultimately show ?thesis using grab(1,4) Cons
        by (intro exI [of _ "hd g"] exI [of _ ?s'] exI [of _ "L(tid := tl g)"] exI [of _ G'] conjI)
          (simp_all del: upt_Suc)
    next
      case G: Nil
      note app = pool_append_inv [OF inv t Nil fresh]
      have null: "cptr_ptr (pool_global s) = nullptr" using inv G by (simp add: pool_inv_def)
      let ?s' = "pool_pop tid (appendBlockGroup arr tid s)"
      have "pool_grab fuel arr tid (s, []) = Some (pool_elem arr s 0, (?s', []))"
        using null app(2) by (simp add: k world_simps Let_def)
      then have "pool_alloc fuel arr tid (s, []) = Some (pool_payload (pool_elem arr s 0), (?s', []))"
        using gl top by (simp add: pool_alloc_def)
      moreover have "pool_num_threads ?s' = ?n"
        by (simp add: popn appendBlockGroup_def Let_def pool_link_fields pool_zero_fields)
      ultimately show ?thesis using app(1,3) G Nil
        by (intro exI [of _ "pool_elem arr s 0"] exI [of _ ?s'] exI conjI)  (simp_all del: upt_Suc)
    qed
  qed
qed
section \<open>Deallocation\<close>

lemma pool_push_stack:
  assumes inv: "pool_inv s L G" and t: "tid < pool_num_threads s"
    and b: "b \<noteq> nullptr" "b \<notin> set (pool_blocks (pool_num_threads s) L G)"
  shows "chain (pool_next (pool_push b tid s)) (pool_top (pool_push b tid s) tid) (b # L tid)"
    and "pool_count (pool_push b tid s) tid = of_nat (Suc (length (L tid)))"
    and "\<And>u. u < pool_num_threads s \<Longrightarrow> u \<noteq> tid \<Longrightarrow> pool_stack (pool_push b tid s) u (L u)"
    and "groups (pool_next (pool_push b tid s)) (pool_next_group s) (cptr_ptr (pool_global s)) G"
proof -
  let ?n = "pool_num_threads s"
  have nb: "b \<notin> set (L u)" if "u < ?n" for u using b(2) blocks_mem [OF that] by blast
  have st: "pool_stack s tid (L tid)" using inv t by (simp add: pool_inv_def)
  then have "chain ((pool_next s)(b := pool_top s tid)) (pool_top s tid) (L tid)"
    using chain_cong [of "L tid" "(pool_next s)(b := pool_top s tid)" "pool_next s"] nb [OF t]
    by (auto simp: pool_stack_def)
  with b(1) show "chain (pool_next (pool_push b tid s)) (pool_top (pool_push b tid s) tid) (b # L tid)"
    by (simp add: pool_push_def)
  show "pool_count (pool_push b tid s) tid = of_nat (Suc (length (L tid)))"
    using st by (simp add: pool_push_def pool_stack_def)
  show "pool_stack (pool_push b tid s) u (L u)" if "u < ?n" "u \<noteq> tid" for u
  proof -
    have "\<forall>x \<in> set (L u). pool_next (pool_push b tid s) x = pool_next s x"
      using nb [OF that(1)] by (auto simp: pool_push_def)
    then have "pool_stack (pool_push b tid s) u (L u) = pool_stack s u (L u)"
      using that by (intro pool_stack_cong) (auto simp: pool_push_def)
    with inv that show ?thesis by (simp add: pool_inv_def)
  qed
  have "\<forall>x \<in> set (concat G). pool_next (pool_push b tid s) x = pool_next s x \<and> pool_next_group s x = pool_next_group s x"
    using b(2) by (auto simp: pool_push_def pool_blocks_def)
  with inv show "groups (pool_next (pool_push b tid s)) (pool_next_group s) (cptr_ptr (pool_global s)) G"
    using groups_cong [of G "pool_next (pool_push b tid s)" "pool_next s" "pool_next_group s" "pool_next_group s"]
    by (simp add: pool_inv_def)
qed

text \<open>The stack after the push has fewer than sixteen blocks.\<close>

lemma pool_free_short:
  assumes inv: "pool_inv s L G" and t: "tid < pool_num_threads s"
    and b: "b \<noteq> nullptr" "b < 2 ^ 32" "b \<notin> set (pool_blocks (pool_num_threads s) L G)"
    and len: "Suc (length (L tid)) < GROUP_SIZE * 2"
  defines "p \<equiv> pool_push b tid s"
  defines "s' \<equiv> (if pool_count p tid = of_nat (GROUP_SIZE + 1)
                 then p\<lparr>pool_nth := (pool_nth p)(tid := pool_top p tid)\<rparr> else p)"
  shows "pool_inv s' (L(tid := b # L tid)) G"
proof -
  let ?n = "pool_num_threads s"
  note push = pool_push_stack [OF inv t b(1,3), folded p_def]
  have st: "pool_stack s tid (L tid)" using inv t by (simp add: pool_inv_def)
  have nine: "pool_count p tid = of_nat (GROUP_SIZE + 1) \<longleftrightarrow> length (L tid) = GROUP_SIZE"
  proof -
    have "(of_nat (Suc (length (L tid))) :: 64 word) = of_nat (GROUP_SIZE + 1)
        \<longleftrightarrow> Suc (length (L tid)) = GROUP_SIZE + 1"
      using len by (intro of_nat_eq_small) auto
    then show ?thesis using push(2) by simp
  qed
  have same: "pool_next s' = pool_next p" "pool_next_group s' = pool_next_group s" "pool_global s' = pool_global s"
    "pool_num_threads s' = ?n" "pool_glibc_mem s' = pool_glibc_mem s"
    by (simp_all add: s'_def p_def pool_push_def)
  have nth: "pool_nth s' tid = (if GROUP_SIZE < Suc (length (L tid))
      then (b # L tid) ! (Suc (length (L tid)) - (GROUP_SIZE + 1)) else nullptr)"
    using st nine by (auto simp: s'_def p_def pool_push_def pool_stack_def nth_Cons')
  have stack: "pool_stack s' tid (b # L tid)"
    using push(1,2) len nth unfolding pool_stack_def same by (simp add: s'_def)
  have stacks: "pool_stack s' u (L u)" if "u < ?n" "u \<noteq> tid" for u
  proof -
    have "pool_stack s' u (L u) = pool_stack p u (L u)"
      using that by (intro pool_stack_cong) (auto simp: s'_def)
    with push(3) that show ?thesis by simp
  qed
  have m: "mset (pool_blocks ?n (L(tid := b # L tid)) G) = mset (b # pool_blocks ?n L G)"
    using mset_blocks_upd [OF t, of L "b # L tid" G] by simp
  have "distinct (pool_blocks ?n (L(tid := b # L tid)) G)"
    using mset_eq_imp_distinct_iff [OF m] inv b(3) by (simp add: pool_inv_def)
  moreover have "\<forall>x \<in> set (pool_blocks ?n (L(tid := b # L tid)) G). x < 2 ^ 32"
    using mset_eq_setD [OF m] inv b(2) by (simp add: pool_inv_def)
  ultimately show ?thesis
    using inv stack stacks push(4) unfolding pool_inv_def same by simp
qed
text \<open>With sixteen blocks the lower half goes to the global stack.\<close>

lemma pool_free_full:
  assumes inv: "pool_inv s L G" and t: "tid < pool_num_threads s"
    and b: "b \<noteq> nullptr" "b < 2 ^ 32" "b \<notin> set (pool_blocks (pool_num_threads s) L G)"
    and len: "Suc (length (L tid)) = GROUP_SIZE * 2"
  defines "p \<equiv> pool_push b tid s"
  defines "ng \<equiv> pool_next p (pool_nth p tid)"
  defines "s' \<equiv> pool_cut tid (pool_put_global (cptr_replacement (pool_global s) ng)
       (p\<lparr>pool_next_group := (pool_next_group s)(ng := cptr_ptr (pool_global s))\<rparr>))"
  shows "pool_inv s' (L(tid := take GROUP_SIZE (b # L tid))) (drop GROUP_SIZE (b # L tid) # G)"
    and "pool_count p tid = of_nat (GROUP_SIZE * 2)"
proof -
  let ?n = "pool_num_threads s" let ?z = "b # L tid" let ?k = "GROUP_SIZE - 1"
  let ?L = "L(tid := take GROUP_SIZE ?z)" let ?G = "drop GROUP_SIZE ?z # G"
  note push = pool_push_stack [OF inv t b(1,3), folded p_def]
  have st: "pool_stack s tid (L tid)" and gl: "\<not> pool_glibc_mem s" using inv t by (simp_all add: pool_inv_def)
  have lz: "length ?z = GROUP_SIZE * 2" using len by simp
  show "pool_count p tid = of_nat (GROUP_SIZE * 2)" using push(2) len by simp
  have dz: "distinct ?z" "set ?z \<inter> set (concat G) = {}"
    and du: "\<And>u. u < ?n \<Longrightarrow> u \<noteq> tid \<Longrightarrow> set ?z \<inter> set (L u) = {}"
  proof -
    have d: "distinct (pool_blocks ?n L G)" using inv by (simp add: pool_inv_def)
    show "distinct ?z" "set ?z \<inter> set (concat G) = {}"
      using blocks_distinct(1,2) [OF d t] b(3) blocks_mem [OF t, of b L G] by (auto simp: pool_blocks_def)
    show "set ?z \<inter> set (L u) = {}" if "u < ?n" "u \<noteq> tid" for u
      using blocks_distinct(3) [OF d t that] b(3) blocks_mem [OF that(1), of b L G] by auto
  qed
  have nthp: "pool_nth p tid = ?z ! ?k"
    using st len by (simp add: p_def pool_push_def pool_stack_def)
  have ngz: "ng = ?z ! GROUP_SIZE"
    using chain_nth [OF push(1), of ?k] lz nthp by (simp add: ng_def)
  have "?z ! ?k \<in> set ?z" by (rule nth_mem) (use lz in simp)
  moreover have "?z ! GROUP_SIZE \<in> set ?z" by (rule nth_mem) (use lz in simp)
  ultimately have kz: "?z ! ?k \<in> set ?z" "ng \<in> set ?z" by (simp_all only: ngz)
  have small: "ng < 2 ^ 32"
    using kz(2) b(2) inv blocks_mem [OF t, of ng L G] by (auto simp: pool_inv_def)
  have same: "pool_next s' = (pool_next p)(?z ! ?k := nullptr)"
    "pool_next_group s' = (pool_next_group s)(ng := cptr_ptr (pool_global s))"
    "cptr_ptr (pool_global s') = ng" "pool_num_threads s' = ?n" "\<not> pool_glibc_mem s'"
    "pool_top s' = pool_top p" "pool_nth s' = (pool_nth p)(tid := nullptr)"
    "pool_count s' = (pool_count p)(tid := pool_count p tid - of_nat GROUP_SIZE)"
    using nthp gl small by (simp_all add: s'_def pool_cut_def pool_put_global_def p_def pool_push_def
        cptr_replacement_def cptr_ptr_init take_bit32_small)
  have cnt: "pool_count s' tid = of_nat GROUP_SIZE" using push(2) len same(8) by simp
  have chain_top: "chain (pool_next s') (pool_top p tid) (take GROUP_SIZE ?z)"
    using chain_take_cut [OF push(1) dz(1), of ?k] lz unfolding same by simp
  have stack: "pool_stack s' tid (take GROUP_SIZE ?z)"
    unfolding pool_stack_def same(6,7) using chain_top cnt lz by simp
  have stacks: "pool_stack s' u (L u)" if u: "u < ?n" "u \<noteq> tid" for u
  proof -
    have "?z ! ?k \<notin> set (L u)" using du [OF u] kz(1) by blast
    then have "\<forall>x \<in> set (L u). pool_next s' x = pool_next p x" unfolding same by auto
    then have "pool_stack s' u (L u) = pool_stack p u (L u)"
      using u same by (intro pool_stack_cong) auto
    with push(3) [OF u] show ?thesis by simp
  qed
  have hi: "chain (pool_next s') ng (drop GROUP_SIZE ?z)"
  proof -
    have "chain (pool_next p) ng (drop GROUP_SIZE ?z)"
      using chain_drop [OF push(1), of GROUP_SIZE] lz ngz by simp
    moreover have "?z ! ?k \<notin> set (drop GROUP_SIZE ?z)"
    proof -
      have "take GROUP_SIZE ?z ! ?k \<in> set (take GROUP_SIZE ?z)" by (rule nth_mem) (use lz in simp)
      moreover have "take GROUP_SIZE ?z ! ?k = ?z ! ?k" by (rule nth_take) simp
      ultimately have "?z ! ?k \<in> set (take GROUP_SIZE ?z)" by simp
      with dz(1) show ?thesis by (metis append_take_drop_id disjoint_iff distinct_append)
    qed
    ultimately show ?thesis
      unfolding same by (subst chain_cong [of _ _ "pool_next p"]) auto
  qed
  have rest: "groups (pool_next s') (pool_next_group s') (cptr_ptr (pool_global s)) G"
  proof -
    have "\<forall>x \<in> set (concat G). pool_next s' x = pool_next p x \<and> pool_next_group s' x = pool_next_group s x"
      unfolding same using dz(2) kz by auto
    with push(4) show ?thesis using groups_cong by metis
  qed
  have gs: "groups (pool_next s') (pool_next_group s') ng ?G"
    using hi rest lz by (simp add: same(2))
  have m: "mset (pool_blocks ?n ?L ?G) = mset (b # pool_blocks ?n L G)"
    using mset_blocks_give [OF t, of L GROUP_SIZE ?z G] by simp
  have "distinct (pool_blocks ?n ?L ?G)"
    using mset_eq_imp_distinct_iff [OF m] inv b(3) by (simp add: pool_inv_def)
  moreover have "\<forall>x \<in> set (pool_blocks ?n ?L ?G). x < 2 ^ 32"
    using mset_eq_setD [OF m] inv b(2) by (simp add: pool_inv_def)
  ultimately show "pool_inv s' ?L ?G"
    using same(3,4,5) stack stacks gs unfolding pool_inv_def by simp
qed

lemma pool_free_alone:
  assumes inv: "pool_inv s L G" and t: "tid < pool_num_threads s" and f: "0 < fuel"
    and b: "b \<noteq> nullptr" "b < 2 ^ 32" "b \<notin> set (pool_blocks (pool_num_threads s) L G)"
  shows "\<exists>s' L' G'. pool_free fuel (pool_payload b) tid (s, []) = Some (s', [])
     \<and> pool_inv s' L' G' \<and> pool_num_threads s' = pool_num_threads s
     \<and> mset (pool_blocks (pool_num_threads s) L' G') = mset (pool_blocks (pool_num_threads s) L G) + {#b#}
     \<and> (\<exists>xs. L' tid = b # xs)"
proof -
  let ?n = "pool_num_threads s" let ?p = "pool_push b tid s"
  have st: "pool_stack s tid (L tid)" and gl: "\<not> pool_glibc_mem s" using inv t by (simp_all add: pool_inv_def)
  obtain k where k: "fuel = Suc k" using f by (cases fuel) auto
  have sh: "make_shared_block_t (pool_payload b) = b" by (simp add: make_shared_block_t_def pool_payload_def)
  have num: "pool_num_threads ?p = ?n" by (simp add: pool_push_def)
  have len: "length (L tid) < GROUP_SIZE * 2" using st by (simp add: pool_stack_def)
  show ?thesis
  proof (cases "Suc (length (L tid)) < GROUP_SIZE * 2")
    case True
    let ?s' = "if pool_count ?p tid = of_nat (GROUP_SIZE + 1)
               then ?p\<lparr>pool_nth := (pool_nth ?p)(tid := pool_top ?p tid)\<rparr> else ?p"
    note short = pool_free_short [OF inv t b True]
    have "(of_nat (Suc (length (L tid))) :: 64 word) = of_nat (GROUP_SIZE * 2)
        \<longleftrightarrow> Suc (length (L tid)) = GROUP_SIZE * 2"
      using True by (intro of_nat_eq_small) auto
    then have "pool_count ?p tid \<noteq> of_nat (GROUP_SIZE * 2)"
      using True st by (simp add: pool_push_def pool_stack_def)
    then have run: "pool_free fuel (pool_payload b) tid (s, []) = Some (?s', [])"
      using gl by (simp add: pool_free_def own_def sh Let_def)
    have "mset (pool_blocks ?n (L(tid := b # L tid)) G) = mset (pool_blocks ?n L G) + {#b#}"
      using mset_blocks_upd [OF t, of L "b # L tid" G] by simp
    with run short num show ?thesis
      by (intro exI [of _ ?s'] exI [of _ "L(tid := b # L tid)"] exI [of _ G]) simp
  next
    case False
    with len have eq: "Suc (length (L tid)) = GROUP_SIZE * 2" by simp
    let ?ng = "pool_next ?p (pool_nth ?p tid)"
    let ?s' = "pool_cut tid (pool_put_global (cptr_replacement (pool_global s) ?ng)
       (?p\<lparr>pool_next_group := (pool_next_group s)(?ng := cptr_ptr (pool_global s))\<rparr>))"
    let ?L = "L(tid := take GROUP_SIZE (b # L tid))" let ?G = "drop GROUP_SIZE (b # L tid) # G"
    note full = pool_free_full [OF inv t b eq]
    have fields: "pool_global ?p = pool_global s" "pool_next_group ?p = pool_next_group s"
      by (simp_all add: pool_push_def)
    have give: "pool_give fuel ng (q, []) = Some (pool_put_global (cptr_replacement (pool_global q) ng)
        (q\<lparr>pool_next_group := (pool_next_group q)(ng := cptr_ptr (pool_global q))\<rparr>), [])" for q ng
      by (simp add: k world_simps cptr_CAS_def pool_put_global_def Let_def)
    have "pool_free fuel (pool_payload b) tid (s, []) =
        (case pool_give fuel ?ng (?p, []) of None \<Rightarrow> None | Some w \<Rightarrow> Some (own (pool_cut tid) w))"
      using gl full(2) by (simp add: pool_free_def own_def sh Let_def)
    then have run: "pool_free fuel (pool_payload b) tid (s, []) = Some (?s', [])"
      by (simp only: give option.case own_alone fields)
    have m: "mset (pool_blocks ?n ?L ?G) = mset (pool_blocks ?n L G) + {#b#}"
      using mset_blocks_give [OF t, of L GROUP_SIZE "b # L tid" G] by simp
    have "pool_num_threads ?s' = ?n" by (simp add: pool_cut_def pool_put_global_def pool_push_def)
    with run full(1) m show ?thesis
      by (intro exI [of _ ?s'] exI [of _ ?L] exI [of _ ?G]) simp
  qed
qed

section \<open>Properties\<close>

text \<open>The counted pointer keeps its counter, and gives the pointer back exactly if the
  pointer fits in 32 bits; of a wider one only the low half survives.\<close>

theorem cptr_roundtrip:
  "cptr_sn (cptr_init p sn) = sn \<and> cptr_ptr (cptr_init p sn) = take_bit 32 p
   \<and> (cptr_ptr (cptr_init p sn) = p \<longleftrightarrow> p < 2 ^ 32)"
  by (simp only: cptr_sn_init cptr_ptr_init take_bit32_small simp_thms)

text \<open>C38: \<open>alloc\<close> hands out a free block, once: from the thread's stack, else from the top group
  of the global stack, else from a new group; the block leaves the pool, every other free block
  stays in it, and the stacks stay well formed.\<close>

theorem pool_alloc_correct:
  assumes "pool_inv s L G" and "tid < pool_num_threads s" and "0 < fuel"
    and "pool_fresh arr s (pool_blocks (pool_num_threads s) L G)"
  shows "\<exists>b s' L' G'. pool_alloc fuel arr tid (s, []) = Some (pool_payload b, (s', []))
     \<and> pool_inv s' L' G' \<and> b \<notin> set (pool_blocks (pool_num_threads s') L' G')
     \<and> mset (pool_blocks (pool_num_threads s') L' G') + {#b#} = mset (pool_blocks (pool_num_threads s) L G)
          + (if L tid = [] \<and> G = [] then mset (map (pool_elem arr s) [0..<GROUP_SIZE]) else {#})"
proof -
  let ?new = "if L tid = [] \<and> G = [] then map (pool_elem arr s) [0..<GROUP_SIZE] else []"
  let ?n = "pool_num_threads s"
  from pool_alloc_alone [OF assms] obtain b s' L' G' where
    r: "pool_alloc fuel arr tid (s, []) = Some (pool_payload b, (s', []))" "pool_inv s' L' G'"
       "pool_num_threads s' = ?n"
       "mset (pool_blocks ?n L' G') + {#b#} = mset (pool_blocks ?n L G)
          + (if L tid = [] \<and> G = [] then mset (map (pool_elem arr s) [0..<GROUP_SIZE]) else {#})" by blast
  then have "mset (b # pool_blocks ?n L' G') = mset (?new @ pool_blocks ?n L G)"
    by (simp add: add.commute del: upt_Suc)
  moreover have "distinct (?new @ pool_blocks ?n L G)"
  proof (cases "L tid = [] \<and> G = []")
    case True
    with assms(4) show ?thesis by (simp add: pool_fresh_def del: upt_Suc)
  next
    case False
    then have "?new = []" by (simp only: if_False)
    with assms(1) show ?thesis by (simp only: pool_inv_def append.simps)
  qed
  ultimately have "distinct (b # pool_blocks ?n L' G')"
    using mset_eq_imp_distinct_iff by blast
  with r show ?thesis
    by (intro exI [of _ b] exI [of _ s'] exI [of _ L'] exI [of _ G'] conjI) (simp_all only: distinct.simps simp_thms)
qed

lemma pool_new_inv: "pool_inv (pool_new n False bs) (\<lambda>_. []) []"
proof -
  have e: "concat (map (\<lambda>_. []) xs) = ([] :: ptr list)" for xs :: "nat list" by (induction xs) auto
  show ?thesis
    by (simp add: e pool_inv_def pool_stack_def pool_new_def pool_blocks_def cptr_ptr_init)
qed

lemma pool_new_fresh: "pool_fresh 4096 (pool_new 2 False 24) []"
proof -
  have up: "[0..<GROUP_SIZE] = [0, 1, 2, 3, 4, 5, 6, 7]" by (simp add: upt_rec)
  have all: "(\<forall>i<GROUP_SIZE. P i) \<longleftrightarrow> (\<forall>i \<in> set [0..<GROUP_SIZE]. P i)" for P by auto
  show ?thesis unfolding pool_fresh_def all up by (simp add: pool_elem_def pool_new_def)
qed

lemma pool_blocks_new: "pool_blocks (pool_num_threads (pool_new 2 False 24)) (\<lambda>_. []) [] = []"
  by (simp add: pool_blocks_def pool_new_def)

theorem pool_alloc_correct_witness:
  "\<exists>b s' L' G'. pool_alloc 1 4096 0 (pool_new 2 False 24, []) = Some (pool_payload b, (s', []))
     \<and> pool_inv s' L' G' \<and> b \<notin> set (pool_blocks (pool_num_threads s') L' G')"
proof -
  have "0 < pool_num_threads (pool_new 2 False 24)" by (simp add: pool_new_def)
  from pool_alloc_correct [OF pool_new_inv this, of 1 4096] pool_new_fresh pool_blocks_new
  show ?thesis by (metis less_numeral_extra(1))
qed

text \<open>C39: \<open>free\<close> puts the block on the thread's stack and moves eight blocks to the global stack
  when the stack reaches sixteen; no block is lost or doubled, and the next \<open>alloc\<close> of the
  thread returns the same block.\<close>

theorem pool_free_correct:
  assumes "pool_inv s L G" and "tid < pool_num_threads s" and "0 < fuel"
    and "b \<noteq> nullptr" and "b < 2 ^ 32" and "b \<notin> set (pool_blocks (pool_num_threads s) L G)"
  shows "\<exists>s' L' G'. pool_free fuel (pool_payload b) tid (s, []) = Some (s', [])
     \<and> pool_inv s' L' G'
     \<and> mset (pool_blocks (pool_num_threads s') L' G') = mset (pool_blocks (pool_num_threads s) L G) + {#b#}
     \<and> (\<exists>s''. pool_alloc fuel arr tid (s', []) = Some (pool_payload b, (s'', [])))"
proof -
  from pool_free_alone [OF assms] obtain s' L' G' xs where
    r: "pool_free fuel (pool_payload b) tid (s, []) = Some (s', [])" "pool_inv s' L' G'"
       "pool_num_threads s' = pool_num_threads s" "L' tid = b # xs"
       "mset (pool_blocks (pool_num_threads s) L' G') = mset (pool_blocks (pool_num_threads s) L G) + {#b#}"
    by blast
  then have "pool_top s' tid = b" "\<not> pool_glibc_mem s'"
    using assms(2) pool_pop_inv(2) [OF r(2) _ r(4)] by (simp_all add: pool_inv_def)
  then have "pool_alloc fuel arr tid (s', []) = Some (pool_payload b, (pool_pop tid s', []))"
    using assms(4) by (simp add: pool_alloc_def own_def)
  with r show ?thesis by auto
qed

theorem pool_free_correct_witness:
  "\<exists>s' L' G'. pool_free 1 (pool_payload 64) 0 (pool_new 2 False 24, []) = Some (s', [])
     \<and> pool_inv s' L' G' \<and> mset (pool_blocks (pool_num_threads s') L' G') = {#64#}
     \<and> (\<exists>s''. pool_alloc 1 4096 0 (s', []) = Some (pool_payload 64, (s'', [])))"
proof -
  have "0 < pool_num_threads (pool_new 2 False 24)" by (simp add: pool_new_def)
  from pool_free_correct [OF pool_new_inv this, of 1 64 4096, unfolded pool_blocks_new] show ?thesis by simp
qed

end
