(* ===== verification/Range_TP.thy ===== *)
theory Range_TP
  imports Base_Tracker Block_Pool
begin

text \<open>
  \<open>trackers/RangeTrackerTP.hpp\<close>: interval reclamation on type preserving memory from a
  \<open>BlockPool\<close>, so that \<open>read\<close> may look at the birth epoch of an object that is not protected yet.
  An operation of the pool runs without interference here.  \<open>local_tid\<close> is thread local: one
  value per thread, 0 until the thread's first \<open>start_op\<close>.
\<close>

record tp_info =
  tp_obj :: ptr
  tp_birth_epoch :: u64
  tp_retire_epoch :: u64

record range_tp = base +
  tp_freq :: nat
  tp_epochFreq :: nat
  tp_collect :: bool
  tp_local_tid :: "nat \<Rightarrow> nat"
  tp_upper_reservs :: "nat \<Rightarrow> u64"
  tp_lower_reservs :: "nat \<Rightarrow> u64"
  tp_retire_counters :: "nat \<Rightarrow> u64"
  tp_alloc_counters :: "nat \<Rightarrow> u64"
  tp_retired :: "nat \<Rightarrow> tp_info list"
  tp_epoch :: u64
  tp_birth :: "ptr \<Rightarrow> u64"
  tp_pool :: block_pool

definition tp_new :: "nat \<Rightarrow> nat \<Rightarrow> nat \<Rightarrow> bool \<Rightarrow> bool \<Rightarrow> u64 \<Rightarrow> (ptr \<Rightarrow> ptr) \<Rightarrow> range_tp" where
  "tp_new n epochFreq emptyFreq collect cnt blocksize mem =
     base.extend (base_new n cnt mem)
       \<lparr>tp_freq = emptyFreq, tp_epochFreq = epochFreq, tp_collect = collect, tp_local_tid = (\<lambda>_. 0),
        tp_upper_reservs = (\<lambda>_. UINT64_MAX), tp_lower_reservs = (\<lambda>_. UINT64_MAX),
        tp_retire_counters = (\<lambda>_. 0), tp_alloc_counters = (\<lambda>_. 0), tp_retired = (\<lambda>_. []),
        tp_epoch = 0, tp_birth = (\<lambda>_. 0), tp_pool = pool_new n False blocksize\<rparr>"

definition tp_incrementEpoch :: "range_tp \<Rightarrow> range_tp" where
  "tp_incrementEpoch s = s\<lparr>tp_epoch := tp_epoch s + 1\<rparr>"

text \<open>\<open>arr\<close> is where the pool gets a new group if it needs one.\<close>

definition tp_alloc :: "ptr \<Rightarrow> nat \<Rightarrow> range_tp world \<Rightarrow> (ptr \<times> range_tp world) option" where
  "tp_alloc arr tid w =
     (let w = own (\<lambda>s. s\<lparr>tp_alloc_counters :=
                (tp_alloc_counters s)(tid := tp_alloc_counters s tid + 1)\<rparr>) w;
          s = fst w;
          w = (if tp_alloc_counters s tid mod of_nat (tp_epochFreq s * task_num s) = 0
               then bump tp_incrementEpoch w else w)
      in case pool_allocBlock 1 arr tid (tp_pool (fst w), []) of None \<Rightarrow> None
         | Some (blk, pw) \<Rightarrow>
             let w = own (\<lambda>s. s\<lparr>tp_pool := fst pw\<rparr>) w;
                 (e, w) = load tp_epoch w
             in Some (blk, own (\<lambda>s. s\<lparr>tp_birth := (tp_birth s)(blk := e)\<rparr>) w))"

definition tp_read_birth :: "ptr \<Rightarrow> range_tp \<Rightarrow> u64" where
  "tp_read_birth obj s = (if obj = nullptr then 0 else tp_birth s obj)"

definition tp_reclaim :: "nat \<Rightarrow> ptr \<Rightarrow> range_tp \<Rightarrow> range_tp" where
  "tp_reclaim self obj s =
     (let s = s\<lparr>reclaimed := reclaimed s @ [obj]\<rparr>
      in case pool_freeBlock 1 obj (tp_local_tid s self) (tp_pool s, []) of None \<Rightarrow> s
         | Some pw \<Rightarrow> s\<lparr>tp_pool := fst pw\<rparr>)"

text \<open>\<open>PTR_MASK\<close> has 32 bits: on a 64-bit machine it also clears the high half.\<close>

definition tp_mask :: "ptr \<Rightarrow> ptr" where
  "tp_mask p = p AND 0xfffffffc"

definition tp_set_upper :: "nat \<Rightarrow> u64 \<Rightarrow> range_tp \<Rightarrow> range_tp" where
  "tp_set_upper tid e s = s\<lparr>tp_upper_reservs := (tp_upper_reservs s)(tid := e)\<rparr>"

definition tp_set_lower :: "nat \<Rightarrow> u64 \<Rightarrow> range_tp \<Rightarrow> range_tp" where
  "tp_set_lower tid e s = s\<lparr>tp_lower_reservs := (tp_lower_reservs s)(tid := e)\<rparr>"

fun tp_read_loop :: "nat \<Rightarrow> ptr \<Rightarrow> nat \<Rightarrow> u64 \<Rightarrow> range_tp world \<Rightarrow> (ptr \<times> range_tp world) option" where
  "tp_read_loop 0 obj tid prev_epoch w = None"
| "tp_read_loop (Suc fuel) obj tid prev_epoch w =
     (let (p, w) = load (\<lambda>s. cells s obj) w
      in if tp_mask p = nullptr then Some (p, w)
         else let real_ptr = tp_mask p;
                  (new_epoch, w) = load (tp_read_birth real_ptr) w
              in if new_epoch = prev_epoch then Some (p, w)
                 else tp_read_loop fuel obj tid new_epoch (store (tp_set_upper tid new_epoch) w))"

definition tp_read :: "nat \<Rightarrow> ptr \<Rightarrow> nat \<Rightarrow> range_tp world \<Rightarrow> (ptr \<times> range_tp world) option" where
  "tp_read fuel obj tid w =
     (let (prev_epoch, w) = load (\<lambda>s. tp_upper_reservs s tid) w
      in tp_read_loop fuel obj tid prev_epoch w)"

definition tp_start_op :: "nat \<Rightarrow> range_tp world \<Rightarrow> range_tp world" where
  "tp_start_op tid w =
     (let w = own (\<lambda>s. s\<lparr>tp_local_tid := (tp_local_tid s)(tid := tid)\<rparr>) w;
          (e, w) = load tp_epoch w;
          w = store (tp_set_lower tid e) w
      in store (tp_set_upper tid e) w)"

definition tp_end_op :: "nat \<Rightarrow> range_tp world \<Rightarrow> range_tp world" where
  "tp_end_op tid w =
     (let w = store (tp_set_upper tid UINT64_MAX) w
      in store (tp_set_lower tid UINT64_MAX) w)"

fun tp_conflict_from :: "nat list \<Rightarrow> (nat \<Rightarrow> u64) \<Rightarrow> (nat \<Rightarrow> u64) \<Rightarrow> u64 \<Rightarrow> u64 \<Rightarrow> bool" where
  "tp_conflict_from [] lower upper birth retire = False"
| "tp_conflict_from (i # js) lower upper birth retire =
     (if upper i \<ge> birth \<and> lower i \<le> retire then True
      else tp_conflict_from js lower upper birth retire)"

definition tp_conflict :: "nat \<Rightarrow> (nat \<Rightarrow> u64) \<Rightarrow> (nat \<Rightarrow> u64) \<Rightarrow> u64 \<Rightarrow> u64 \<Rightarrow> bool" where
  "tp_conflict n lower upper birth retire = tp_conflict_from [0..<n] lower upper birth retire"

definition tp_locations :: "nat \<Rightarrow> (nat \<times> bool) list" where
  "tp_locations n = concat (map (\<lambda>i. [(i, False), (i, True)]) [0..<n])"

definition tp_location :: "nat \<times> bool \<Rightarrow> range_tp \<Rightarrow> u64" where
  "tp_location l s = (if snd l then tp_upper_reservs s (fst l) else tp_lower_reservs s (fst l))"

definition tp_sweep :: "nat \<Rightarrow> (nat \<Rightarrow> u64) \<Rightarrow> (nat \<Rightarrow> u64) \<Rightarrow> range_tp \<Rightarrow> range_tp" where
  "tp_sweep tid lower upper s =
     (let (left, s) = sweep (tp_reclaim tid)
             (\<lambda>i. \<not> tp_conflict (task_num s) lower upper (tp_birth_epoch i) (tp_retire_epoch i)) tp_obj tid
             (tp_retired s tid) s
      in s\<lparr>tp_retired := (tp_retired s)(tid := left)\<rparr>)"

definition tp_empty :: "nat \<Rightarrow> range_tp world \<Rightarrow> range_tp world" where
  "tp_empty tid w =
     (let (arr, w) = snapshot tp_location (tp_locations (task_num (fst w))) (\<lambda>_. 0) w
      in own (tp_sweep tid (\<lambda>i. arr (i, False)) (\<lambda>i. arr (i, True))) w)"

definition tp_push :: "ptr \<Rightarrow> u64 \<Rightarrow> u64 \<Rightarrow> nat \<Rightarrow> range_tp \<Rightarrow> range_tp" where
  "tp_push obj b e tid s = s\<lparr>tp_retired := (tp_retired s)(tid := tp_retired s tid @
      [\<lparr>tp_obj = obj, tp_birth_epoch = b, tp_retire_epoch = e\<rparr>])\<rparr>"

definition tp_due :: "nat \<Rightarrow> range_tp \<Rightarrow> bool" where
  "tp_due tid s \<longleftrightarrow> tp_collect s \<and> tp_retire_counters s tid mod of_nat (tp_freq s) = 0"

definition tp_tick :: "nat \<Rightarrow> range_tp \<Rightarrow> range_tp" where
  "tp_tick tid s =
     s\<lparr>tp_retire_counters := (tp_retire_counters s)(tid := tp_retire_counters s tid + 1)\<rparr>"

definition tp_retire_birth :: "ptr \<Rightarrow> u64 \<Rightarrow> nat \<Rightarrow> range_tp world \<Rightarrow> range_tp world" where
  "tp_retire_birth obj birth_epoch tid w =
     (if obj = nullptr then w
      else let (e, w) = load tp_epoch w;
               w = own (tp_push obj birth_epoch e tid) w;
               w = (if tp_due tid (fst w) then tp_empty tid w else w)
           in own (tp_tick tid) w)"

definition tp_retire :: "ptr \<Rightarrow> nat \<Rightarrow> range_tp world \<Rightarrow> range_tp world" where
  "tp_retire obj tid w = tp_retire_birth obj (tp_read_birth obj (fst w)) tid w"

section \<open>What \<open>empty\<close> keeps and frees\<close>

definition tp_protected :: "range_tp \<Rightarrow> tp_info \<Rightarrow> bool" where
  "tp_protected s i \<longleftrightarrow> (\<exists>t < task_num s. tp_birth_epoch i \<le> tp_upper_reservs s t
     \<and> tp_lower_reservs s t \<le> tp_retire_epoch i)"

lemma tp_conflict_from_iff:
  "tp_conflict_from js lower upper b r \<longleftrightarrow> (\<exists>i \<in> set js. b \<le> upper i \<and> lower i \<le> r)"
  by (induction js) auto

lemma set_tp_locations: "(i, b) \<in> set (tp_locations n) \<longleftrightarrow> i < n"
  by (cases b) (auto simp: tp_locations_def)

lemma tp_reclaim_fields [simp]:
  "reclaimed (tp_reclaim self p s) = reclaimed s @ [p]"
  "tp_retired (tp_reclaim self p s) = tp_retired s"
  "tp_upper_reservs (tp_reclaim self p s) = tp_upper_reservs s"
  "tp_lower_reservs (tp_reclaim self p s) = tp_lower_reservs s"
  "task_num (tp_reclaim self p s) = task_num s"
  by (simp_all add: tp_reclaim_def Let_def split: option.splits)

lemma dec_retired_tp [simp]:
  "tp_retired (dec_retired tid s) = tp_retired s"
  "tp_upper_reservs (dec_retired tid s) = tp_upper_reservs s"
  "tp_lower_reservs (dec_retired tid s) = tp_lower_reservs s"
  "task_num (dec_retired tid s) = task_num s"
  by (simp_all add: dec_retired_def)

lemma tp_empty_fields:
  "tp_retired (solo (tp_empty tid) s) = (tp_retired s)(tid := filter (tp_protected s) (tp_retired s tid))"
  "reclaimed (solo (tp_empty tid) s) =
     reclaimed s @ map tp_obj (filter (\<lambda>i. \<not> tp_protected s i) (tp_retired s tid))"
  "tp_protected (solo (tp_empty tid) s) = tp_protected s"
proof -
  let ?del = "\<lambda>i. \<not> tp_protected s i"
  have c: "tp_conflict (task_num s)
      (\<lambda>i. if i < task_num s then tp_location (i, False) s else 0)
      (\<lambda>i. if i < task_num s then tp_location (i, True) s else 0)
      (tp_birth_epoch i) (tp_retire_epoch i) \<longleftrightarrow> tp_protected s i" for i
    by (auto simp: tp_conflict_def tp_conflict_from_iff tp_protected_def tp_location_def)
  obtain left s' where sw: "sweep (tp_reclaim tid) ?del tp_obj tid (tp_retired s tid) s = (left, s')" by fastforce
  have e: "solo (tp_empty tid) s = s'\<lparr>tp_retired := (tp_retired s')(tid := left)\<rparr>"
    by (simp add: tp_empty_def world_simps tp_sweep_def set_tp_locations c sw)
  have left: "left = filter (tp_protected s) (tp_retired s tid)"
    using sweep_left [of "tp_reclaim tid" ?del tp_obj tid "tp_retired s tid" s] sw by simp
  have f: "f s' = f s" if "\<And>p s. f (tp_reclaim tid p s) = f s" "\<And>s. f (dec_retired tid s) = f s"
    for f :: "range_tp \<Rightarrow> 'x"
    using sweep_field [of f "tp_reclaim tid" tid ?del tp_obj "tp_retired s tid" s] that sw by simp
  show "tp_retired (solo (tp_empty tid) s) = (tp_retired s)(tid := filter (tp_protected s) (tp_retired s tid))"
    using f [of tp_retired] by (simp add: e left)
  show "reclaimed (solo (tp_empty tid) s) =
     reclaimed s @ map tp_obj (filter (\<lambda>i. \<not> tp_protected s i) (tp_retired s tid))"
    using sweep_reclaimed [of "tp_reclaim tid" ?del tp_obj tid "tp_retired s tid" s] sw by (simp add: e)
  show "tp_protected (solo (tp_empty tid) s) = tp_protected s"
    using f [of task_num] f [of tp_upper_reservs] f [of tp_lower_reservs]
    by (simp add: e tp_protected_def [abs_def])
qed

interpretation tp: reclaimer "\<lambda>_. True" tp_retired tp_obj reclaimed tp_protected
    "\<lambda>tid. solo (tp_empty tid)"
  by unfold_locales (simp_all add: tp_empty_fields)

section \<open>Properties\<close>

lemma tp_read_alone:
  assumes "tp_mask (cells s obj) \<noteq> nullptr"
  shows "tp_read 2 obj tid (s, []) =
     Some (cells s obj, (tp_set_upper tid (tp_birth s (tp_mask (cells s obj))) s, []))"
  using assms
  by (simp add: tp_read_def numeral_2_eq_2 world_simps tp_read_birth_def tp_set_upper_def fun_upd_idem Let_def)

text \<open>C40: A read may take a protection away.  \<open>read\<close> overwrites the upper reservation with the
  birth epoch of the object it reads, also when that is lower: an object with a later birth epoch
  that the thread has read before and that was protected until then is reclaimed by the next
  \<open>empty\<close> of the thread that retired it, although the reader is still in its operation.\<close>

theorem tp_read_unprotects:
  assumes "i \<in> set (tp_retired s u)" and "tp_retire_epoch i \<noteq> UINT64_MAX"
    and "t < task_num s" and "tp_lower_reservs s t \<le> tp_retire_epoch i" "tp_birth_epoch i \<le> tp_upper_reservs s t"
    and "\<forall>t' < task_num s. t' \<noteq> t \<longrightarrow> tp_lower_reservs s t' = UINT64_MAX"
    and "tp_mask (cells s obj) \<noteq> nullptr" and "tp_birth s (tp_mask (cells s obj)) < tp_birth_epoch i"
    and "tp_read 2 obj t (s, []) = Some (p, (s', []))"
  shows "i \<in> set (tp_retired (solo (tp_empty u) s) u)
     \<and> tp_obj i \<in> set (reclaimed (solo (tp_empty u) s'))
     \<and> tp_lower_reservs s' t = tp_lower_reservs s t"
proof -
  have s': "s' = tp_set_upper t (tp_birth s (tp_mask (cells s obj))) s"
    using assms(9) unfolding tp_read_alone [OF assms(7), of t] by blast
  have "tp_protected s i" using assms(3,4,5) by (auto simp: tp_protected_def)
  moreover have "\<not> tp_protected s' i"
    using assms(2,6,8) by (auto simp: s' tp_protected_def tp_set_upper_def)
  ultimately show ?thesis
    using assms(1) tp.protected_stays [of i s u] tp.unprotected_goes [of i s' u]
    by (simp add: s' tp_set_upper_def)
qed

theorem tp_read_unprotects_witness:
  "8 \<in> set (reclaimed (solo (tp_empty 1) (tp_set_upper 0 2 ((tp_new 2 1 1 True True 24 (\<lambda>_. 16))
     \<lparr>tp_birth := (\<lambda>p. if p = 16 then 2 else 5), tp_epoch := 6,
      tp_upper_reservs := (\<lambda>_. UINT64_MAX)(0 := 5), tp_lower_reservs := (\<lambda>_. UINT64_MAX)(0 := 1),
      tp_retired := (\<lambda>_. [])(1 := [\<lparr>tp_obj = 8, tp_birth_epoch = 5, tp_retire_epoch = 6\<rparr>])\<rparr>))))"
proof -
  let ?i = "\<lparr>tp_obj = 8, tp_birth_epoch = 5, tp_retire_epoch = 6\<rparr>"
  let ?s = "(tp_new 2 1 1 True True 24 (\<lambda>_. 16))
     \<lparr>tp_birth := (\<lambda>p. if p = 16 then 2 else 5), tp_epoch := 6,
      tp_upper_reservs := (\<lambda>_. UINT64_MAX)(0 := 5), tp_lower_reservs := (\<lambda>_. UINT64_MAX)(0 := 1),
      tp_retired := (\<lambda>_. [])(1 := [?i])\<rparr>"
  have mask: "tp_mask 16 = 16" by (simp add: tp_mask_def)
  have fields: "cells ?s 24 = 16" "task_num ?s = 2" by (simp_all add: tp_new_def base.extend_def base_new_def)
  have "tp_read 2 24 0 (?s, []) = Some (16, (tp_set_upper 0 2 ?s, []))"
    using tp_read_alone [of ?s 24 0] fields mask by (simp add: tp_new_def base.extend_def base_new_def)
  from tp_read_unprotects [OF _ _ _ _ _ _ _ _ this, of ?i 1] fields mask show ?thesis by simp
qed

end
