(* ===== verification/Wfe.thy ===== *)
theory Wfe
  imports Base_Tracker
begin

text \<open>
  \<open>trackers/WFETracker.hpp\<close> and \<open>trackers/dcas.hpp\<close>: wait-free eras.  A slot is a pair of an
  era and a sequence number, updated together by a double-width compare-and-swap (here a
  compare-and-swap of a HOL pair).  A \<open>read\<close> makes 16 attempts; then it announces itself in
  \<open>states\<close> and whoever is about to advance the epoch first completes the read for it.  Slots
  \<open>he_num\<close> and \<open>he_num + 1\<close> of a thread are those it uses while it helps.
\<close>

record wfe_info =
  wfe_obj :: ptr
  wfe_birth_epoch :: u64
  wfe_retire_epoch :: u64

record wfe_state =
  ws_result :: "u64 \<times> u64"
  ws_epoch :: u64
  ws_pointer :: u64

record wfe = base +
  wfe_he_num :: nat
  wfe_epochFreq :: nat
  wfe_freq :: nat
  wfe_collect :: bool
  wfe_reservations :: "nat \<times> nat \<Rightarrow> u64 \<times> u64"
  wfe_local_reservations :: "nat \<Rightarrow> nat \<times> nat \<Rightarrow> u64"
  wfe_states :: "nat \<times> nat \<Rightarrow> wfe_state"
  wfe_retire_counters :: "nat \<Rightarrow> u64"
  wfe_alloc_counters :: "nat \<Rightarrow> u64"
  wfe_retired :: "nat \<Rightarrow> wfe_info list"
  wfe_counter_start :: u64
  wfe_counter_end :: u64
  wfe_epoch :: u64
  wfe_birth :: "ptr \<Rightarrow> u64"

definition wfe_new :: "nat \<Rightarrow> nat \<Rightarrow> nat \<Rightarrow> nat \<Rightarrow> bool \<Rightarrow> bool \<Rightarrow> (ptr \<Rightarrow> ptr) \<Rightarrow> wfe" where
  "wfe_new n k epochFreq emptyFreq collect cnt mem =
     base.extend (base_new n cnt mem)
       \<lparr>wfe_he_num = k, wfe_epochFreq = epochFreq, wfe_freq = emptyFreq, wfe_collect = collect,
        wfe_reservations = (\<lambda>_. (0, 0)), wfe_local_reservations = (\<lambda>_ _. 0),
        wfe_states = (\<lambda>_. \<lparr>ws_result = (0, 0), ws_epoch = 0, ws_pointer = 0\<rparr>),
        wfe_retire_counters = (\<lambda>_. 0), wfe_alloc_counters = (\<lambda>_. 0), wfe_retired = (\<lambda>_. []),
        wfe_counter_start = 0, wfe_counter_end = 0, wfe_epoch = 1, wfe_birth = (\<lambda>_. 0)\<rparr>"

definition wfe_incrementEpoch :: "wfe \<Rightarrow> wfe" where
  "wfe_incrementEpoch s = s\<lparr>wfe_epoch := wfe_epoch s + 1\<rparr>"

text \<open>Writers of one word and of both words of a slot, and of the fields of an announcement.\<close>

definition wfe_put :: "nat \<times> nat \<Rightarrow> u64 \<times> u64 \<Rightarrow> wfe \<Rightarrow> wfe" where
  "wfe_put l v s = s\<lparr>wfe_reservations := (wfe_reservations s)(l := v)\<rparr>"

definition wfe_put_era :: "nat \<times> nat \<Rightarrow> u64 \<Rightarrow> wfe \<Rightarrow> wfe" where
  "wfe_put_era l e s = wfe_put l (e, snd (wfe_reservations s l)) s"

definition wfe_put_seq :: "nat \<times> nat \<Rightarrow> u64 \<Rightarrow> wfe \<Rightarrow> wfe" where
  "wfe_put_seq l q s = wfe_put l (fst (wfe_reservations s l), q) s"

definition wfe_put_result :: "nat \<times> nat \<Rightarrow> u64 \<times> u64 \<Rightarrow> wfe \<Rightarrow> wfe" where
  "wfe_put_result l v s =
     s\<lparr>wfe_states := (wfe_states s)(l := (wfe_states s l)\<lparr>ws_result := v\<rparr>)\<rparr>"

definition wfe_put_epoch :: "nat \<times> nat \<Rightarrow> u64 \<Rightarrow> wfe \<Rightarrow> wfe" where
  "wfe_put_epoch l e s = s\<lparr>wfe_states := (wfe_states s)(l := (wfe_states s l)\<lparr>ws_epoch := e\<rparr>)\<rparr>"

definition wfe_put_pointer :: "nat \<times> nat \<Rightarrow> u64 \<Rightarrow> wfe \<Rightarrow> wfe" where
  "wfe_put_pointer l p s = s\<lparr>wfe_states := (wfe_states s)(l := (wfe_states s l)\<lparr>ws_pointer := p\<rparr>)\<rparr>"

abbreviation wfe_result :: "nat \<times> nat \<Rightarrow> wfe \<Rightarrow> u64 \<times> u64" where
  "wfe_result l s \<equiv> ws_result (wfe_states s l)"

text \<open>The load of a link that may be absent.\<close>

definition wfe_link :: "ptr \<Rightarrow> wfe world \<Rightarrow> ptr \<times> wfe world" where
  "wfe_link obj w = (if obj \<noteq> nullptr then load (\<lambda>s. cells s obj) w else (nullptr, w))"

section \<open>Helping\<close>

text \<open>The inner loop that moves the slot of the helped thread on.\<close>

fun wfe_finish :: "nat \<Rightarrow> nat \<times> nat \<Rightarrow> u64 \<Rightarrow> u64 \<times> u64 \<Rightarrow> u64 \<times> u64 \<Rightarrow> wfe world \<Rightarrow> wfe world option" where
  "wfe_finish 0 l seqno old value w = None"
| "wfe_finish (Suc fuel) l seqno old value w =
     (if snd old \<noteq> seqno then Some w
      else let (ok, old, w) = cas (\<lambda>s. wfe_reservations s l) (wfe_put l) old value w
           in if ok then Some w else wfe_finish fuel l seqno old value w)"

fun wfe_help_loop :: "nat \<Rightarrow> nat \<times> nat \<Rightarrow> nat \<Rightarrow> ptr \<Rightarrow> u64 \<Rightarrow> u64 \<times> u64 \<Rightarrow> u64 \<Rightarrow> nat \<Rightarrow> wfe world
    \<Rightarrow> wfe world option" where
  "wfe_help_loop 0 l mytid obj seqno last_result prev_epoch k w = None"
| "wfe_help_loop (Suc fuel) l mytid obj seqno last_result prev_epoch k w =
     (let w = store (wfe_put_era (mytid, k + 1) prev_epoch) w;
          (p, w) = wfe_link obj w;
          (curr_epoch, w) = load wfe_epoch w
      in if curr_epoch = prev_epoch
         then let (ok, _, w) = cas (wfe_result l) (wfe_put_result l) last_result (p, curr_epoch) w
              in if ok
                 then let (old1, w) = load (\<lambda>s. snd (wfe_reservations s l)) w;
                          (old0, w) = load (\<lambda>s. fst (wfe_reservations s l)) w
                      in wfe_finish fuel l seqno (old0, old1) (curr_epoch, seqno + 1) w
                 else Some w
         else let (r, w) = load (wfe_result l) w
              in if last_result = r
                 then wfe_help_loop fuel l mytid obj seqno last_result curr_epoch k w
                 else Some w)"

definition wfe_help_thread :: "nat \<Rightarrow> nat \<Rightarrow> nat \<Rightarrow> nat \<Rightarrow> wfe world \<Rightarrow> wfe world option" where
  "wfe_help_thread fuel tid index mytid w =
     (let l = (tid, index); k = wfe_he_num (fst w);
          (last_result, w) = load (wfe_result l) w
      in if fst last_result \<noteq> UINT64_MAX then Some w
         else let (birth_epoch, w) = load (\<lambda>s. ws_epoch (wfe_states s l)) w;
                  w = store (wfe_put_era (mytid, k) birth_epoch) w;
                  (obj, w) = load (\<lambda>s. ws_pointer (wfe_states s l)) w;
                  (seqno, w) = load (\<lambda>s. snd (wfe_reservations s l)) w
              in if snd last_result = seqno
                 then let (prev_epoch, w) = load wfe_epoch w
                      in case wfe_help_loop fuel l mytid obj seqno last_result prev_epoch k w of
                           None \<Rightarrow> None
                         | Some w \<Rightarrow> Some (store (wfe_put_era (mytid, k) 0)
                                         (store (wfe_put_era (mytid, k + 1) 0) w))
                 else Some (store (wfe_put_era (mytid, k) 0) w))"

fun wfe_help_slots :: "nat \<Rightarrow> (nat \<times> nat) list \<Rightarrow> nat \<Rightarrow> wfe world \<Rightarrow> wfe world option" where
  "wfe_help_slots fuel [] mytid w = Some w"
| "wfe_help_slots fuel ((i, j) # ls) mytid w =
     (let (result_ptr, w) = load (\<lambda>s. fst (wfe_result (i, j) s)) w
      in if result_ptr = UINT64_MAX
         then (case wfe_help_thread fuel i j mytid w of None \<Rightarrow> None
               | Some w \<Rightarrow> wfe_help_slots fuel ls mytid w)
         else wfe_help_slots fuel ls mytid w)"

definition wfe_help_read :: "nat \<Rightarrow> nat \<Rightarrow> wfe world \<Rightarrow> wfe world option" where
  "wfe_help_read fuel mytid w =
     (let (ce, w) = load wfe_counter_end w;
          (cs, w) = load wfe_counter_start w
      in if cs - ce \<noteq> 0
         then wfe_help_slots fuel
                (List.product [0..<task_num (fst w)] [0..<wfe_he_num (fst w)]) mytid w
         else Some w)"

definition wfe_alloc :: "nat \<Rightarrow> nat \<Rightarrow> ptr \<Rightarrow> wfe world \<Rightarrow> (ptr \<times> wfe world) option" where
  "wfe_alloc fuel tid blk w =
     (let w = own (\<lambda>s. s\<lparr>wfe_alloc_counters :=
                (wfe_alloc_counters s)(tid := wfe_alloc_counters s tid + 1)\<rparr>) w;
          s = fst w
      in case (if wfe_alloc_counters s tid mod of_nat (wfe_epochFreq s * task_num s) = 0
               then map_option (bump wfe_incrementEpoch) (wfe_help_read fuel tid w)
               else Some w)
         of None \<Rightarrow> None
          | Some w \<Rightarrow> let (e, w) = load wfe_epoch w
                      in Some (blk, own (\<lambda>s. s\<lparr>wfe_birth := (wfe_birth s)(blk := e)\<rparr>) w))"

section \<open>Reading\<close>

fun wfe_slow_loop :: "nat \<Rightarrow> nat \<times> nat \<Rightarrow> ptr \<Rightarrow> u64 \<Rightarrow> u64 \<Rightarrow> wfe world \<Rightarrow> (ptr \<times> wfe world) option" where
  "wfe_slow_loop 0 l obj seqno prev_epoch w = None"
| "wfe_slow_loop (Suc fuel) l obj seqno prev_epoch w =
     (let (p, w) = wfe_link obj w;
          (curr_epoch, w) = load wfe_epoch w;
          (ok, w) = (if curr_epoch = prev_epoch
                     then let (ok, _, w) = cas (wfe_result l) (wfe_put_result l)
                                             (UINT64_MAX, seqno) (0, 0) w in (ok, w)
                     else (False, w))
      in if ok
         then Some (p, bump (\<lambda>s. s\<lparr>wfe_counter_end := wfe_counter_end s + 1\<rparr>)
                         (store (wfe_put_seq l (seqno + 1)) w))
         else let (_, _, w) = cas (\<lambda>s. wfe_reservations s l) (wfe_put l)
                                (prev_epoch, seqno) (curr_epoch, seqno) w;
                  (result_ptr, w) = load (\<lambda>s. fst (wfe_result l s)) w
              in if result_ptr = UINT64_MAX then wfe_slow_loop fuel l obj seqno curr_epoch w
                 else let (result_epoch, w) = load (\<lambda>s. snd (wfe_result l s)) w;
                          w = store (wfe_put_era l result_epoch) w;
                          w = store (wfe_put_seq l (seqno + 1)) w
                      in Some (result_ptr, bump (\<lambda>s. s\<lparr>wfe_counter_end := wfe_counter_end s + 1\<rparr>) w))"

definition wfe_announce :: "nat \<times> nat \<Rightarrow> ptr \<Rightarrow> ptr \<Rightarrow> wfe world \<Rightarrow> u64 \<times> wfe world" where
  "wfe_announce l obj node w =
     (let w = bump (\<lambda>s. s\<lparr>wfe_counter_start := wfe_counter_start s + 1\<rparr>) w;
          w = store (wfe_put_pointer l obj) w;
          birth_epoch = (if node = nullptr then 0 else wfe_birth (fst w) node);
          w = store (wfe_put_epoch l birth_epoch) w;
          (seqno, w) = load (\<lambda>s. snd (wfe_reservations s l)) w
      in (seqno, store (wfe_put_result l (UINT64_MAX, seqno)) w))"

definition wfe_slow_path :: "nat \<Rightarrow> ptr \<Rightarrow> nat \<Rightarrow> nat \<Rightarrow> ptr \<Rightarrow> wfe world \<Rightarrow> (ptr \<times> wfe world) option" where
  "wfe_slow_path fuel obj index tid node w =
     (let (prev_epoch, w) = load (\<lambda>s. fst (wfe_reservations s (tid, index))) w;
          (seqno, w) = wfe_announce (tid, index) obj node w
      in wfe_slow_loop fuel (tid, index) obj seqno prev_epoch w)"

text \<open>The fast path counts its attempts down, so it needs no fuel.  \<open>None\<close>: out of attempts.\<close>

fun wfe_fast :: "nat \<Rightarrow> nat \<times> nat \<Rightarrow> ptr \<Rightarrow> u64 \<Rightarrow> wfe world \<Rightarrow> ptr option \<times> wfe world" where
  "wfe_fast 0 l obj prev_epoch w = (None, w)"
| "wfe_fast (Suc attempts) l obj prev_epoch w =
     (let (p, w) = wfe_link obj w;
          (curr_epoch, w) = load wfe_epoch w
      in if curr_epoch = prev_epoch then (Some p, w)
         else wfe_fast attempts l obj curr_epoch (store (wfe_put_era l curr_epoch) w))"

definition wfe_read :: "nat \<Rightarrow> ptr \<Rightarrow> nat \<Rightarrow> nat \<Rightarrow> ptr \<Rightarrow> wfe world \<Rightarrow> (ptr \<times> wfe world) option" where
  "wfe_read fuel obj index tid node w =
     (let (prev_epoch, w) = load (\<lambda>s. fst (wfe_reservations s (tid, index))) w;
          (r, w) = wfe_fast 16 (tid, index) obj prev_epoch w
      in case r of Some p \<Rightarrow> Some (p, w)
         | None \<Rightarrow> wfe_slow_path fuel obj index tid node w)"

definition wfe_reserve_slot :: "nat \<Rightarrow> ptr \<Rightarrow> nat \<Rightarrow> nat \<Rightarrow> ptr \<Rightarrow> wfe world \<Rightarrow> wfe world option" where
  "wfe_reserve_slot fuel obj index tid node w =
     (let (prev_epoch, w) = load (\<lambda>s. fst (wfe_reservations s (tid, index))) w;
          (r, w) = wfe_fast 16 (tid, index) nullptr prev_epoch w
      in case r of Some p \<Rightarrow> Some w
         | None \<Rightarrow> map_option snd (wfe_slow_path fuel nullptr index tid node w))"

fun wfe_clear_from :: "nat list \<Rightarrow> nat \<Rightarrow> wfe world \<Rightarrow> wfe world" where
  "wfe_clear_from [] tid w = w"
| "wfe_clear_from (i # js) tid w = wfe_clear_from js tid (store (wfe_put_era (tid, i) 0) w)"

definition wfe_clear_all :: "nat \<Rightarrow> wfe world \<Rightarrow> wfe world" where
  "wfe_clear_all tid w = wfe_clear_from [0..<wfe_he_num (fst w)] tid w"

section \<open>Retiring\<close>

text \<open>\<open>can_delete\<close> on the private copy reads it directly; on the shared slots each read is an
  atomic load.\<close>

fun wfe_can_delete_local :: "(nat \<times> nat) list \<Rightarrow> (nat \<times> nat \<Rightarrow> u64) \<Rightarrow> u64 \<Rightarrow> u64 \<Rightarrow> bool" where
  "wfe_can_delete_local [] local birth retire = True"
| "wfe_can_delete_local (l # ls) local birth retire =
     (let epo = local l
      in if epo < birth \<or> epo > retire \<or> epo = 0 then wfe_can_delete_local ls local birth retire
         else False)"

fun wfe_can_delete_shared :: "(nat \<times> nat) list \<Rightarrow> u64 \<Rightarrow> u64 \<Rightarrow> wfe world \<Rightarrow> bool \<times> wfe world" where
  "wfe_can_delete_shared [] birth retire w = (True, w)"
| "wfe_can_delete_shared (l # ls) birth retire w =
     (let (epo, w) = load (\<lambda>s. fst (wfe_reservations s l)) w
      in if epo < birth \<or> epo > retire \<or> epo = 0 then wfe_can_delete_shared ls birth retire w
         else (False, w))"

definition wfe_slots :: "wfe \<Rightarrow> nat \<Rightarrow> nat \<Rightarrow> (nat \<times> nat) list" where
  "wfe_slots s js je = List.product [0..<task_num s] [js..<je]"

fun wfe_sweep :: "nat \<Rightarrow> wfe_info list \<Rightarrow> wfe world \<Rightarrow> wfe_info list \<times> wfe world" where
  "wfe_sweep tid [] w = ([], w)"
| "wfe_sweep tid (cur # info) w =
     (let k = wfe_he_num (fst w);
          (ce, w) = load wfe_counter_end w;
          b = wfe_birth_epoch cur; r = wfe_retire_epoch cur;
          (del, w) =
            (if wfe_can_delete_local (wfe_slots (fst w) 0 (k + 1)) (wfe_local_reservations (fst w) tid) b r
             then let (cs, w) = load wfe_counter_start w
                  in if ce = cs then (True, w)
                     else let (d, w) = wfe_can_delete_shared (wfe_slots (fst w) (k + 1) (k + 2)) b r w
                          in if d then wfe_can_delete_shared (wfe_slots (fst w) 0 k) b r w else (False, w)
             else (False, w))
      in if del then wfe_sweep tid info (own (\<lambda>s. dec_retired tid (plain_reclaim (wfe_obj cur) s)) w)
         else let (rest, w) = wfe_sweep tid info w in (cur # rest, w))"

definition wfe_empty :: "nat \<Rightarrow> wfe world \<Rightarrow> wfe world" where
  "wfe_empty tid w =
     (if wfe_retired (fst w) tid = [] then w
      else let k = wfe_he_num (fst w);
               (arr, w) = snapshot (\<lambda>l s. fst (wfe_reservations s l))
                 (wfe_slots (fst w) 0 k @ wfe_slots (fst w) k (k + 1)) (wfe_local_reservations (fst w) tid) w;
               w = own (\<lambda>s. s\<lparr>wfe_local_reservations := (wfe_local_reservations s)(tid := arr)\<rparr>) w;
               (left, w) = wfe_sweep tid (wfe_retired (fst w) tid) w
           in own (\<lambda>s. s\<lparr>wfe_retired := (wfe_retired s)(tid := left)\<rparr>) w)"

definition wfe_push :: "ptr \<Rightarrow> u64 \<Rightarrow> nat \<Rightarrow> wfe \<Rightarrow> wfe" where
  "wfe_push obj e tid s = s\<lparr>wfe_retired := (wfe_retired s)(tid :=
      \<lparr>wfe_obj = obj, wfe_birth_epoch = wfe_birth s obj, wfe_retire_epoch = e\<rparr> # wfe_retired s tid)\<rparr>"

definition wfe_due :: "nat \<Rightarrow> wfe \<Rightarrow> bool" where
  "wfe_due tid s \<longleftrightarrow> wfe_collect s \<and> wfe_retire_counters s tid mod of_nat (wfe_freq s) = 0"

definition wfe_tick :: "nat \<Rightarrow> wfe \<Rightarrow> wfe" where
  "wfe_tick tid s =
     s\<lparr>wfe_retire_counters := (wfe_retire_counters s)(tid := wfe_retire_counters s tid + 1)\<rparr>"

definition wfe_retire :: "ptr \<Rightarrow> nat \<Rightarrow> wfe world \<Rightarrow> wfe world" where
  "wfe_retire obj tid w =
     (if obj = nullptr then w
      else let (e, w) = load wfe_epoch w;
               w = own (wfe_push obj e tid) w;
               w = (if wfe_due tid (fst w) then wfe_empty tid w else w)
           in own (wfe_tick tid) w)"

section \<open>What \<open>empty\<close> keeps and frees\<close>

definition wfe_hit :: "u64 \<Rightarrow> wfe_info \<Rightarrow> bool" where
  "wfe_hit e i \<longleftrightarrow> e \<noteq> 0 \<and> wfe_birth_epoch i \<le> e \<and> e \<le> wfe_retire_epoch i"

text \<open>While no slow read is pending a slot of a thread and its first helping slot count; with one
  pending also the second helping slot.\<close>

definition wfe_protected :: "wfe \<Rightarrow> wfe_info \<Rightarrow> bool" where
  "wfe_protected s i \<longleftrightarrow> (\<exists>t < task_num s.
     (\<exists>j \<le> wfe_he_num s. wfe_hit (fst (wfe_reservations s (t, j))) i)
     \<or> wfe_counter_end s \<noteq> wfe_counter_start s
        \<and> wfe_hit (fst (wfe_reservations s (t, wfe_he_num s + 1))) i)"

lemma wfe_can_delete_local_iff:
  "wfe_can_delete_local ls local (wfe_birth_epoch i) (wfe_retire_epoch i) \<longleftrightarrow>
     (\<forall>l \<in> set ls. \<not> wfe_hit (local l) i)"
  by (induction ls) (auto simp: wfe_hit_def Let_def not_le)

lemma wfe_can_delete_shared_alone:
  "wfe_can_delete_shared ls (wfe_birth_epoch i) (wfe_retire_epoch i) (s, []) =
     (\<forall>l \<in> set ls. \<not> wfe_hit (fst (wfe_reservations s l)) i, (s, []))"
  by (induction ls) (auto simp: wfe_hit_def world_simps not_le)

lemma set_wfe_slots: "(t, j) \<in> set (wfe_slots s js je) \<longleftrightarrow> t < task_num s \<and> js \<le> j \<and> j < je"
  by (auto simp: wfe_slots_def)

lemma ball_wfe_slots:
  "(\<forall>l \<in> set (wfe_slots s js je). P l) \<longleftrightarrow> (\<forall>t < task_num s. \<forall>j. js \<le> j \<and> j < je \<longrightarrow> P (t, j))"
  using set_wfe_slots by fastforce

definition wfe_local_ok :: "nat \<Rightarrow> wfe \<Rightarrow> bool" where
  "wfe_local_ok tid s \<longleftrightarrow> (\<forall>t < task_num s. \<forall>j \<le> wfe_he_num s.
     wfe_local_reservations s tid (t, j) = fst (wfe_reservations s (t, j)))"

lemma wfe_sweep_alone:
  assumes "wfe_local_ok tid s"
  shows "wfe_sweep tid xs (s, []) =
     (filter (wfe_protected s) xs, (give_back (map wfe_obj (filter (\<lambda>i. \<not> wfe_protected s i) xs)) s, []))"
  using assms
proof (induction xs arbitrary: s)
  case Nil
  then show ?case by simp
next
  case (Cons i xs)
  let ?k = "wfe_he_num s"
  let ?s' = "dec_retired tid (plain_reclaim (wfe_obj i) s)"
  have loc: "wfe_can_delete_local (wfe_slots s 0 (?k + 1)) (wfe_local_reservations s tid)
      (wfe_birth_epoch i) (wfe_retire_epoch i) \<longleftrightarrow>
      (\<forall>t < task_num s. \<forall>j \<le> ?k. \<not> wfe_hit (fst (wfe_reservations s (t, j))) i)"
    using Cons.prems unfolding wfe_can_delete_local_iff wfe_local_ok_def ball_wfe_slots
    by (simp add: less_Suc_eq_le)
  have sh1: "(\<forall>l \<in> set (wfe_slots s (?k + 1) (?k + 2)). P l) \<longleftrightarrow> (\<forall>t < task_num s. P (t, ?k + 1))" for P
  proof -
    have "?k + 1 \<le> j \<and> j < ?k + 2 \<longleftrightarrow> j = ?k + 1" for j by auto
    then show ?thesis unfolding ball_wfe_slots by simp
  qed
  have sh2: "(\<forall>l \<in> set (wfe_slots s 0 ?k). P l) \<longleftrightarrow> (\<forall>t < task_num s. \<forall>j < ?k. P (t, j))" for P
    unfolding ball_wfe_slots by simp
  define P1 where "P1 \<longleftrightarrow> (\<forall>t < task_num s. \<forall>j \<le> ?k. \<not> wfe_hit (fst (wfe_reservations s (t, j))) i)"
  define P2 where "P2 \<longleftrightarrow> (\<forall>t < task_num s. \<not> wfe_hit (fst (wfe_reservations s (t, ?k + 1))) i)"
  define P3 where "P3 \<longleftrightarrow> (\<forall>t < task_num s. \<forall>j < ?k. \<not> wfe_hit (fst (wfe_reservations s (t, j))) i)"
  have prot: "wfe_protected s i \<longleftrightarrow> \<not> P1 \<or> wfe_counter_end s \<noteq> wfe_counter_start s \<and> \<not> P2"
    unfolding wfe_protected_def P1_def P2_def by blast
  have p3: "P1 \<Longrightarrow> P3" unfolding P1_def P3_def using less_imp_le by blast
  have del: "(if wfe_can_delete_local (wfe_slots s 0 (?k + 1)) (wfe_local_reservations s tid) (wfe_birth_epoch i) (wfe_retire_epoch i)
        then let (cs, w) = load wfe_counter_start (s, [])
             in if wfe_counter_end s = cs then (True, w)
                else let (d, w) = wfe_can_delete_shared (wfe_slots (fst w) (?k + 1) (?k + 2)) (wfe_birth_epoch i) (wfe_retire_epoch i) w
                     in if d then wfe_can_delete_shared (wfe_slots (fst w) 0 ?k) (wfe_birth_epoch i) (wfe_retire_epoch i) w else (False, w)
        else (False, (s, []))) = (\<not> wfe_protected s i, (s, []))"
    unfolding loc prot load_alone wfe_can_delete_shared_alone sh1 sh2 Let_def case_prod_conv fst_conv
      P1_def [symmetric] P2_def [symmetric] P3_def [symmetric]
    using p3 by auto
  have ok': "wfe_local_ok tid ?s'" "wfe_protected ?s' = wfe_protected s"
    using Cons.prems by (simp_all add: wfe_local_ok_def wfe_protected_def [abs_def] dec_retired_def plain_reclaim_def)
  have "wfe_sweep tid (i # xs) (s, []) =
      (if \<not> wfe_protected s i then wfe_sweep tid xs (?s', [])
       else let (rest, w) = wfe_sweep tid xs (s, []) in (i # rest, w))"
    using del by (cases "wfe_protected s i") (simp_all add: load_alone own_alone split del: if_split)
  with Cons.IH [OF Cons.prems] Cons.IH [OF ok'(1)] show ?case
    by (cases "wfe_protected s i") (simp_all add: ok'(2) give_back_Cons del: wfe_sweep.simps)
qed

lemma wfe_empty_eq:
  "solo (wfe_empty tid) s = (if wfe_retired s tid = [] then s
     else give_back (map wfe_obj (filter (\<lambda>i. \<not> wfe_protected s i) (wfe_retired s tid))) s
       \<lparr>wfe_retired := (wfe_retired s)(tid := filter (wfe_protected s) (wfe_retired s tid)),
        wfe_local_reservations := (wfe_local_reservations s)(tid := \<lambda>l.
           if l \<in> set (wfe_slots s 0 (wfe_he_num s) @ wfe_slots s (wfe_he_num s) (wfe_he_num s + 1))
           then fst (wfe_reservations s l) else wfe_local_reservations s tid l)\<rparr>)"
proof -
  let ?ls = "wfe_slots s 0 (wfe_he_num s) @ wfe_slots s (wfe_he_num s) (wfe_he_num s + 1)"
  let ?s = "s\<lparr>wfe_local_reservations := (wfe_local_reservations s)(tid := \<lambda>l.
      if l \<in> set ?ls then fst (wfe_reservations s l) else wfe_local_reservations s tid l)\<rparr>"
  have ok: "wfe_local_ok tid ?s" by (auto simp: wfe_local_ok_def set_wfe_slots)
  have "wfe_protected ?s = wfe_protected s" by (simp add: wfe_protected_def [abs_def])
  with wfe_sweep_alone [OF ok, of "wfe_retired s tid"] show ?thesis
    by (simp add: wfe_empty_def snapshot_alone own_alone Let_def give_back_def del: set_append)
qed

interpretation wfe: reclaimer "\<lambda>_. True" wfe_retired wfe_obj reclaimed wfe_protected
    "\<lambda>tid. solo (wfe_empty tid)"
  by unfold_locales
    (auto simp: wfe_empty_eq give_back_def wfe_protected_def [abs_def] fun_upd_idem)

section \<open>Properties\<close>

text \<open>\<open>WFETracker::empty\<close>, run alone, keeps exactly the entries whose life time contains an
  era in a slot of some thread (the first helping slot included) or, while a slow read is
  pending, in a second helping slot; the others are reclaimed, each once.\<close>

theorem wfe_empty_exact:
  "wfe_retired (solo (wfe_empty tid) s) tid = filter (\<lambda>i. \<exists>t < task_num s.
       (\<exists>j \<le> wfe_he_num s. wfe_hit (fst (wfe_reservations s (t, j))) i)
       \<or> wfe_counter_end s \<noteq> wfe_counter_start s \<and> wfe_hit (fst (wfe_reservations s (t, wfe_he_num s + 1))) i)
     (wfe_retired s tid)
   \<and> mset (map wfe_obj (wfe_retired (solo (wfe_empty tid) s) tid)) + mset (reclaimed (solo (wfe_empty tid) s))
       = mset (map wfe_obj (wfe_retired s tid)) + mset (reclaimed s)"
  using wfe.conservation [of tid s] wfe.limbo_empty [of tid s]
  by (simp add: wfe_protected_def [abs_def])

text \<open>The fast path under interference.\<close>

lemma wfe_link_rely: "rely R w \<Longrightarrow> rely R (snd (wfe_link obj w))"
  by (simp add: wfe_link_def rely_load)

lemma wfe_fast_sound:
  assumes "wfe_fast n l obj prev w = (Some p, w')" and "fst (wfe_reservations (fst w) l) = prev"
    and "rely (\<lambda>s s'. wfe_reservations s' l = wfe_reservations s l) w"
  shows "fst (wfe_reservations (fst w') l) = wfe_epoch (fst w')"
  using assms
proof (induction n arbitrary: prev w)
  case 0
  then show ?case by simp
next
  case (Suc n)
  let ?R = "\<lambda>s s'. wfe_reservations s' l = wfe_reservations s l"
  have refl: "reflp ?R" by (simp add: reflp_def)
  let ?w1 = "snd (wfe_link obj w)" let ?w2 = "others ?w1" let ?e = "wfe_epoch (fst ?w2)"
  have r1: "rely ?R ?w1" by (rule wfe_link_rely [OF Suc.prems(3)])
  have r2: "rely ?R ?w2" by (rule rely_others [OF r1])
  have "wfe_reservations (fst ?w1) l = wfe_reservations (fst w) l"
    using rely_step [OF Suc.prems(3) refl] by (simp add: wfe_link_def)
  then have same: "wfe_reservations (fst ?w2) l = wfe_reservations (fst w) l"
    using rely_step [OF r1 refl] by simp
  have run: "wfe_fast (Suc n) l obj prev w = (if ?e = prev then (Some (fst (wfe_link obj w)), ?w2)
      else wfe_fast n l obj ?e (store (wfe_put_era l ?e) ?w2))"
    by (simp add: load_split split: prod.splits)
  show ?case
  proof (cases "?e = prev")
    case True
    with Suc.prems(1,2) run same show ?thesis by (auto simp del: wfe_fast.simps)
  next
    case False
    then have "wfe_fast n l obj ?e (store (wfe_put_era l ?e) ?w2) = (Some p, w')"
      using Suc.prems(1) run by (simp del: wfe_fast.simps)
    then show ?thesis
      by (rule Suc.IH) (simp_all add: rely_store [OF r2] wfe_put_era_def wfe_put_def)
  qed
qed

text \<open>C33: If the fast path of \<open>read\<close> returns, within its 16 attempts, the era in the slot is the
  epoch of the moment it returns, whatever the other threads have done meanwhile.\<close>

theorem wfe_fast_path_sound:
  assumes "rely (\<lambda>s s'. wfe_reservations s' (tid, j) = wfe_reservations s (tid, j)) w"
    and "wfe_fast 16 (tid, j) obj (fst (wfe_reservations (fst (others w)) (tid, j))) (others w) = (Some p, w')"
  shows "wfe_read fuel obj j tid node w = Some (p, w')
     \<and> fst (wfe_reservations (fst w') (tid, j)) = wfe_epoch (fst w')"
  using wfe_fast_sound [OF assms(2) refl rely_others [OF assms(1)]] assms(2)
  by (simp add: wfe_read_def load_split)

theorem wfe_fast_path_sound_witness:
  "fst (wfe_reservations (fst (wfe_put (0, 0) (2, 0) (wfe_incrementEpoch (wfe_new 2 1 1 1 True True (\<lambda>_. 8))), [])) (0, 0)) = 2"
proof -
  let ?s = "wfe_new 2 1 1 1 True True (\<lambda>_. 8)"
  have n16: "(16 :: nat) = Suc (Suc 14)" by simp
  let ?w' = "(wfe_put (0, 0) (2, 0) (wfe_incrementEpoch ?s), [])"
  have "wfe_fast 16 (0, 0) 24 (fst (wfe_reservations (fst (others (?s, [wfe_incrementEpoch]))) (0, 0)))
      (others (?s, [wfe_incrementEpoch])) = (Some 8, ?w')"
    unfolding n16 wfe_fast.simps
    by (simp add: wfe_new_def base.extend_def base_new_def wfe_incrementEpoch_def wfe_put_def wfe_put_era_def
        wfe_link_def world_simps)
  from wfe_fast_path_sound [OF _ this, of 0 0] show ?thesis
    by (simp add: rely_def wfe_incrementEpoch_def wfe_new_def base.extend_def wfe_put_def)
qed


text \<open>The helper, run alone.\<close>

definition wfe_helped :: "nat \<times> nat \<Rightarrow> nat \<Rightarrow> wfe \<Rightarrow> wfe" where
  "wfe_helped l h s =
     wfe_put_era (h, wfe_he_num s) 0 (wfe_put_era (h, wfe_he_num s + 1) 0
       (wfe_put l (wfe_epoch s, snd (wfe_reservations s l) + 1)
         (wfe_put_result l (cells s (ws_pointer (wfe_states s l)), wfe_epoch s)
           (wfe_put_era (h, wfe_he_num s + 1) (wfe_epoch s)
             (wfe_put_era (h, wfe_he_num s) (ws_epoch (wfe_states s l)) s)))))"

lemma wfe_put_simps:
  "wfe_reservations (wfe_put l v s) = (wfe_reservations s)(l := v)"
  "wfe_states (wfe_put l v s) = wfe_states s" "wfe_epoch (wfe_put l v s) = wfe_epoch s"
  "cells (wfe_put l v s) = cells s" "wfe_he_num (wfe_put l v s) = wfe_he_num s"
  "wfe_counter_end (wfe_put l v s) = wfe_counter_end s"
  "wfe_states (wfe_put_era l e s) = wfe_states s" "wfe_epoch (wfe_put_era l e s) = wfe_epoch s"
  "cells (wfe_put_era l e s) = cells s" "wfe_he_num (wfe_put_era l e s) = wfe_he_num s"
  "wfe_reservations (wfe_put_era l e s) = (wfe_reservations s)(l := (e, snd (wfe_reservations s l)))"
  "wfe_counter_end (wfe_put_era l e s) = wfe_counter_end s"
  "wfe_reservations (wfe_put_result l r s) = wfe_reservations s"
  "wfe_states (wfe_put_result l r s) = (wfe_states s)(l := (wfe_states s l)\<lparr>ws_result := r\<rparr>)"
  "wfe_epoch (wfe_put_result l r s) = wfe_epoch s" "cells (wfe_put_result l r s) = cells s"
  "wfe_he_num (wfe_put_result l r s) = wfe_he_num s"
  "wfe_counter_end (wfe_put_result l r s) = wfe_counter_end s"
  by (simp_all add: wfe_put_era_def wfe_put_def wfe_put_result_def)

lemma wfe_finish_alone:
  "snd (wfe_reservations s l) = q \<Longrightarrow>
     wfe_finish (Suc n) l q (fst (wfe_reservations s l), q) v (s, []) = Some (wfe_put l v s, [])"
  by (auto simp: cas_alone)

lemma wfe_help_loop_alone:
  assumes "wfe_result l s = r" "obj \<noteq> nullptr" "l \<noteq> (h, k + 1)" "snd (wfe_reservations s l) = q"
  shows "wfe_help_loop (Suc (Suc n)) l h obj q r (wfe_epoch s) k (s, []) =
     Some (wfe_put l (wfe_epoch s, q + 1) (wfe_put_result l (cells s obj, wfe_epoch s)
       (wfe_put_era (h, k + 1) (wfe_epoch s) s)), [])"
proof -
  let ?s1 = "wfe_put_era (h, k + 1) (wfe_epoch s) s"
  let ?s2 = "wfe_put_result l (cells s obj, wfe_epoch s) ?s1"
  have "wfe_finish (Suc n) l q (fst (wfe_reservations ?s2 l), q) (wfe_epoch s, q + 1) (?s2, [])
      = Some (wfe_put l (wfe_epoch s, q + 1) ?s2, [])"
    using assms(3,4) by (intro wfe_finish_alone) (simp add: wfe_put_simps)
  moreover have "snd (wfe_reservations ?s2 l) = q" using assms(3,4) by (simp add: wfe_put_simps)
  moreover have "wfe_result l ?s1 = r" using assms(1) by (simp add: wfe_put_simps)
  ultimately show ?thesis
    using assms(2) by (simp add: store_alone load_alone cas_alone wfe_link_def wfe_put_simps(8,9) del: wfe_finish.simps)
qed

lemma wfe_help_alone:
  assumes pending: "wfe_result (t, j) s = (UINT64_MAX, snd (wfe_reservations s (t, j)))"
    and ptr: "ws_pointer (wfe_states s (t, j)) \<noteq> nullptr"
    and j: "j < wfe_he_num s"
  shows "wfe_help_thread (Suc (Suc n)) t j h (s, []) = Some (wfe_helped (t, j) h s, [])"
proof -
  let ?k = "wfe_he_num s" let ?q = "snd (wfe_reservations s (t, j))"
  let ?s1 = "wfe_put_era (h, ?k) (ws_epoch (wfe_states s (t, j))) s"
  have ne: "(t, j) \<noteq> (h, ?k)" "(t, j) \<noteq> (h, ?k + 1)" using j by auto
  have "wfe_help_loop (Suc (Suc n)) (t, j) h (ws_pointer (wfe_states s (t, j))) ?q (UINT64_MAX, ?q) (wfe_epoch ?s1) ?k (?s1, [])
      = Some (wfe_put (t, j) (wfe_epoch ?s1, ?q + 1) (wfe_put_result (t, j)
          (cells ?s1 (ws_pointer (wfe_states s (t, j))), wfe_epoch ?s1) (wfe_put_era (h, ?k + 1) (wfe_epoch ?s1) ?s1)), [])"
    using pending ptr ne by (intro wfe_help_loop_alone) (simp_all add: wfe_put_simps)
  moreover have "snd (wfe_reservations ?s1 (t, j)) = ?q" using ne by (simp add: wfe_put_simps)
  ultimately show ?thesis
    using pending by (simp add: wfe_help_thread_def store_alone load_alone wfe_put_simps(7,8,9) wfe_helped_def
        Let_def del: wfe_help_loop.simps)
qed

text \<open>C34: Helping is right and ends the wait.  A slow read of slot \<open>(t, j)\<close> is pending and thread
  \<open>h\<close> helps it before it advances the epoch.  The helper reads the link, reserves the current
  epoch in the reader's slot with the next sequence number and clears its own helping slots; then
  the reader's loop, in its next round and with whatever epoch it saw before, returns the link the
  helper read, with that epoch reserved.\<close>

theorem wfe_help_then_return:
  assumes "wfe_result (t, j) s = (UINT64_MAX, snd (wfe_reservations s (t, j)))"
    and "ws_pointer (wfe_states s (t, j)) = obj" "obj \<noteq> nullptr" "j < wfe_he_num s"
    and "cells s obj \<noteq> UINT64_MAX"
  shows "\<exists>s' s''. wfe_help_thread 2 t j h (s, []) = Some (s', [])
     \<and> wfe_slow_loop 1 (t, j) obj (snd (wfe_reservations s (t, j))) prev (s', []) = Some (cells s obj, (s'', []))
     \<and> wfe_reservations s'' (t, j) = (wfe_epoch s, snd (wfe_reservations s (t, j)) + 1)
     \<and> fst (wfe_reservations s' (h, wfe_he_num s)) = 0 \<and> fst (wfe_reservations s' (h, wfe_he_num s + 1)) = 0
     \<and> wfe_counter_end s'' = wfe_counter_end s + 1"
proof -
  let ?l = "(t, j)" let ?q = "snd (wfe_reservations s (t, j))" let ?s = "wfe_helped (t, j) h s"
  have hlp: "wfe_help_thread 2 t j h (s, []) = Some (?s, [])"
    using wfe_help_alone [where t = t and j = j and s = s and n = 0 and h = h] assms by (simp add: numeral_2_eq_2)
  have ne: "(t, j) \<noteq> (h, wfe_he_num s)" "(t, j) \<noteq> (h, Suc (wfe_he_num s))" using assms(4) by auto
  have fields: "wfe_result ?l ?s = (cells s obj, wfe_epoch s)" "wfe_reservations ?s ?l = (wfe_epoch s, ?q + 1)"
    "fst (wfe_reservations ?s (h, wfe_he_num s)) = 0" "fst (wfe_reservations ?s (h, Suc (wfe_he_num s))) = 0"
    "cells ?s = cells s" "wfe_epoch ?s = wfe_epoch s" "wfe_counter_end ?s = wfe_counter_end s"
    using ne assms(2) by (auto simp: wfe_helped_def wfe_put_era_def wfe_put_def wfe_put_result_def)
  let ?u = "(wfe_put_seq ?l (?q + 1) (wfe_put_era ?l (wfe_epoch s) ?s))
      \<lparr>wfe_counter_end := wfe_counter_end s + 1\<rparr>"
  have "?q + 1 \<noteq> ?q" by simp
  then have "wfe_slow_loop 1 ?l obj ?q prev (?s, []) = Some (cells s obj, (?u, []))"
    using fields assms(3,5)
    by (simp add: wfe_link_def world_simps Let_def wfe_put_seq_def wfe_put_era_def wfe_put_def)
  moreover have "wfe_reservations ?u ?l = (wfe_epoch s, ?q + 1)"
    by (simp add: wfe_put_seq_def wfe_put_era_def wfe_put_def)
  ultimately show ?thesis
    using hlp fields by (intro exI [of _ ?s] exI [of _ ?u]) simp
qed

theorem wfe_help_then_return_witness:
  "\<exists>s' s''. wfe_help_thread 2 0 0 1 (snd (wfe_announce (0, 0) 24 0 (wfe_new 2 1 1 1 True True (\<lambda>_. 8), [])))
        = Some (s', [])
     \<and> wfe_slow_loop 1 (0, 0) 24 0 0 (s', []) = Some (8, (s'', [])) \<and> wfe_reservations s'' (0, 0) = (1, 1)"
proof -
  define s0 where "s0 = fst (snd (wfe_announce (0, 0) 24 0 (wfe_new 2 1 1 1 True True (\<lambda>_. 8), [])))"
  have s: "snd (wfe_announce (0, 0) 24 0 (wfe_new 2 1 1 1 True True (\<lambda>_. 8), [])) = (s0, [])"
    by (simp add: s0_def wfe_announce_def world_simps Let_def)
  have "wfe_result (0, 0) s0 = (UINT64_MAX, 0)" "snd (wfe_reservations s0 (0, 0)) = 0"
    "ws_pointer (wfe_states s0 (0, 0)) = 24" "wfe_he_num s0 = 1" "cells s0 24 = 8" "wfe_epoch s0 = 1"
    by (simp_all add: s0_def wfe_announce_def world_simps Let_def wfe_put_result_def wfe_put_epoch_def
        wfe_put_pointer_def wfe_new_def base.extend_def base_new_def)
  then show ?thesis
    using wfe_help_then_return [where t = 0 and j = 0 and s = s0 and obj = 24 and h = 1 and prev = 0]
    unfolding s by auto
qed

end
