(* ===== verification/Smr.thy ===== *)
theory Smr
  imports Base_Tracker
begin

text \<open>
  \<open>hyaline/bits/lfsmr_common.h\<close>: the part of the Hyaline library that its single-width and
  double-width variants share, for a 64-bit \<open>type_t\<close>.

  A node has three words: \<open>smr_next\<close> (the link of the retirement list of a slot, or of the list
  of batches to free), \<open>smr_link\<close> (\<open>batch_link\<close>) and \<open>smr_refs\<close>, the union of the reference
  counter \<open>refs\<close> and of \<open>batch_next\<close>.  The state extends \<open>base\<close>, so that the callback
  \<open>smr_free\<close> can be the one of a tracker; the callback is the argument \<open>fr\<close>, the test
  \<open>lf_check_t\<close> the argument \<open>check\<close>.  What the macro takes from its variant (\<open>__link\<close>,
  \<open>__leave\<close>, \<open>enter\<close>, \<open>__retire\<close>) is an argument as well.  A loop over a list in memory has
  fuel and is \<open>None\<close> without it.
\<close>

record smr = base +
  smr_next :: "ptr \<Rightarrow> u64"
  smr_link :: "ptr \<Rightarrow> u64"
  smr_refs :: "ptr \<Rightarrow> u64"

record smr_batch =
  batch_first :: u64
  batch_last :: u64
  batch_counter :: u64

definition smr_set_next :: "ptr \<Rightarrow> u64 \<Rightarrow> 'a smr_scheme \<Rightarrow> 'a smr_scheme" where
  "smr_set_next node v s = s\<lparr>smr_next := (smr_next s)(node := v)\<rparr>"

definition smr_set_link :: "ptr \<Rightarrow> u64 \<Rightarrow> 'a smr_scheme \<Rightarrow> 'a smr_scheme" where
  "smr_set_link node v s = s\<lparr>smr_link := (smr_link s)(node := v)\<rparr>"

definition smr_set_refs :: "ptr \<Rightarrow> u64 \<Rightarrow> 'a smr_scheme \<Rightarrow> 'a smr_scheme" where
  "smr_set_refs node v s = s\<lparr>smr_refs := (smr_refs s)(node := v)\<rparr>"

definition smr_fetch_add :: "ptr \<Rightarrow> u64 \<Rightarrow> 'a smr_scheme world \<Rightarrow> u64 \<times> 'a smr_scheme world" where
  "smr_fetch_add node v w = rmw (\<lambda>s. (smr_refs s node, smr_set_refs node (smr_refs s node + v) s)) w"

definition smr_addr :: "ptr \<Rightarrow> u64 \<Rightarrow> ptr" where
  "smr_addr base offset = base + offset"

definition smr_adjust_refs :: "u64 \<Rightarrow> u64 \<Rightarrow> u64 \<Rightarrow> ptr \<Rightarrow> 'a smr_scheme world \<Rightarrow> u64 \<times> 'a smr_scheme world" where
  "smr_adjust_refs list prev refs base w =
     (let node = smr_addr base prev;
          prev = smr_link (fst w) node;
          node = smr_addr base prev;
          (old, w) = smr_fetch_add node refs w
      in if old = - refs then (prev, own (smr_set_next node list) w) else (list, w))"

text \<open>\<open>__traverse\<close>: the result is the flag, the list of batches to free, the threshold and the
  world.  \<open>lv\<close> is the call of \<open>__leave\<close>.\<close>

fun smr_traverse :: "nat \<Rightarrow> (u64 \<Rightarrow> 'a smr_scheme world \<Rightarrow> (bool \<times> u64 \<times> 'a smr_scheme world) option)
    \<Rightarrow> ptr \<Rightarrow> (ptr \<Rightarrow> bool) \<Rightarrow> u64 \<Rightarrow> u64 \<Rightarrow> u64 \<Rightarrow> u64 \<Rightarrow> u64 \<Rightarrow> 'a smr_scheme world
    \<Rightarrow> (bool \<times> u64 \<times> u64 \<times> 'a smr_scheme world) option" where
  "smr_traverse 0 lv base check len list threshold next end w = None"
| "smr_traverse (Suc fuel) lv base check len list threshold next end w =
     (let cur = next in
      if cur = 0 then Some (True, list, threshold, w)
      else let node = smr_addr base cur in
      if \<not> check node then Some (False, list, threshold, w)
      else let next = smr_next (fst w) node;
               link = smr_link (fst w) node;
               node = smr_addr base link in
      if \<not> check node then Some (False, list, threshold, w)
      else let (old, w) = smr_fetch_add node (- 1) w in
      if old = 1
      then let w = own (smr_set_next node list) w; list = link in
           if threshold \<noteq> 0
           then let len = len + 1 in
                if threshold \<le> len
                then (case lv list w of None \<Rightarrow> None
                      | Some (ok, list, w) \<Rightarrow>
                          if \<not> ok then Some (False, list, threshold, w)
                          else if cur \<noteq> end then smr_traverse fuel lv base check len list 0 next end w
                          else Some (True, list, 0, w))
                else if cur \<noteq> end then smr_traverse fuel lv base check len list threshold next end w
                else Some (True, list, threshold, w)
           else if cur \<noteq> end then smr_traverse fuel lv base check len list threshold next end w
           else Some (True, list, threshold, w)
      else if cur \<noteq> end then smr_traverse fuel lv base check len list threshold next end w
      else Some (True, list, threshold, w))"

text \<open>\<open>__free\<close>: the inner loop frees the nodes of a batch, the outer one walks the batches.\<close>

fun smr_free_batch :: "nat \<Rightarrow> u64 \<Rightarrow> (ptr \<Rightarrow> 'a smr_scheme \<Rightarrow> 'a smr_scheme) \<Rightarrow> ptr \<Rightarrow> 'a smr_scheme world
    \<Rightarrow> 'a smr_scheme world option" where
  "smr_free_batch 0 start fr base w = None"
| "smr_free_batch (Suc fuel) start fr base w =
     (let node = smr_addr base start;
          start = smr_refs (fst w) node;
          w = own (fr node) w
      in if start \<noteq> 0 then smr_free_batch fuel start fr base w else Some w)"

fun smr_free_list :: "nat \<Rightarrow> u64 \<Rightarrow> (ptr \<Rightarrow> 'a smr_scheme \<Rightarrow> 'a smr_scheme) \<Rightarrow> ptr \<Rightarrow> 'a smr_scheme world
    \<Rightarrow> 'a smr_scheme world option" where
  "smr_free_list 0 list fr base w = None"
| "smr_free_list (Suc fuel) list fr base w =
     (if list = 0 then Some w
      else let node = smr_addr base list;
               start = smr_link (fst w) node;
               list = smr_next (fst w) node
           in case smr_free_batch fuel start fr base w of None \<Rightarrow> None
              | Some w \<Rightarrow> smr_free_list fuel list fr base w)"

definition smr_leave :: "nat \<Rightarrow> (u64 \<Rightarrow> 'a smr_scheme world \<Rightarrow> (bool \<times> u64 \<times> 'a smr_scheme world) option)
    \<Rightarrow> (ptr \<Rightarrow> 'a smr_scheme \<Rightarrow> 'a smr_scheme) \<Rightarrow> ptr \<Rightarrow> 'a smr_scheme world
    \<Rightarrow> (bool \<times> 'a smr_scheme world) option" where
  "smr_leave fuel lv fr base w =
     (case lv 0 w of None \<Rightarrow> None
      | Some (ok, list, w) \<Rightarrow>
          if \<not> ok then Some (False, w)
          else map_option (\<lambda>w. (True, w)) (smr_free_list fuel list fr base w))"

text \<open>\<open>trim\<close>: the new handle is part of the result.\<close>

definition smr_trim :: "nat \<Rightarrow> ('a smr_scheme world \<Rightarrow> u64 \<times> 'a smr_scheme world)
    \<Rightarrow> (u64 \<Rightarrow> u64 \<Rightarrow> 'a smr_scheme world \<Rightarrow> (bool \<times> u64 \<times> 'a smr_scheme world) option)
    \<Rightarrow> ('a smr_scheme world \<Rightarrow> (bool \<times> u64 \<times> 'a smr_scheme world) option)
    \<Rightarrow> u64 \<Rightarrow> (ptr \<Rightarrow> 'a smr_scheme \<Rightarrow> 'a smr_scheme) \<Rightarrow> ptr \<Rightarrow> (ptr \<Rightarrow> bool) \<Rightarrow> u64 \<Rightarrow> 'a smr_scheme world
    \<Rightarrow> (bool \<times> u64 \<times> 'a smr_scheme world) option" where
  "smr_trim fuel lnk lv enter smr fr base check threshold w =
     (let end = smr;
          (link, w) = lnk w
      in if link \<noteq> end
         then let smr = link; node = smr_addr base link in
              if \<not> check node then Some (False, smr, w)
              else let link = smr_next (fst w) node in
                   case smr_traverse fuel (lv smr) base check 0 0 threshold link end w of None \<Rightarrow> None
                   | Some (ok, list, new_threshold, w) \<Rightarrow>
                       if \<not> ok then Some (False, smr, w)
                       else case smr_free_list fuel list fr base w of None \<Rightarrow> None
                            | Some w \<Rightarrow> if threshold \<noteq> new_threshold then enter w
                                       else Some (True, smr, w)
         else Some (True, smr, w))"

definition smr_batch_init :: "smr_batch \<Rightarrow> smr_batch" where
  "smr_batch_init batch = batch\<lparr>batch_first := 0, batch_counter := 0\<rparr>"

definition smr_batch_empty :: "smr_batch \<Rightarrow> bool" where
  "smr_batch_empty batch \<longleftrightarrow> batch_counter batch = 0"

text \<open>\<open>retire_one\<close> and \<open>retire\<close>: \<open>rt\<close> is \<open>__retire\<close> with its order.\<close>

definition smr_retire_one :: "(nat \<Rightarrow> u64 \<Rightarrow> 'a smr_scheme world \<Rightarrow> (bool \<times> 'a smr_scheme world) option)
    \<Rightarrow> ptr \<Rightarrow> ptr \<Rightarrow> 'a smr_scheme world \<Rightarrow> (bool \<times> 'a smr_scheme world) option" where
  "smr_retire_one rt node base w = rt 0 (node - base) w"

definition smr_retire :: "(nat \<Rightarrow> u64 \<Rightarrow> 'a smr_scheme world \<Rightarrow> (bool \<times> 'a smr_scheme world) option)
    \<Rightarrow> nat \<Rightarrow> ptr \<Rightarrow> ptr \<Rightarrow> smr_batch \<Rightarrow> u64 \<Rightarrow> 'a smr_scheme world
    \<Rightarrow> (bool \<times> smr_batch \<times> 'a smr_scheme world) option" where
  "smr_retire rt order node base batch threshold w =
     (let cur = node - base;
          (batch, w) = (if batch_first batch = 0 then (batch\<lparr>batch_last := cur\<rparr>, w)
                        else (batch, own (smr_set_link node (batch_last batch)) w));
          w = own (smr_set_refs node (batch_first batch)) w;
          batch = batch\<lparr>batch_first := cur\<rparr>;
          batch = batch\<lparr>batch_counter := batch_counter batch + 1\<rparr>
      in if threshold \<le> batch_counter batch
         then let node = smr_addr base (batch_last batch);
                  w = own (smr_set_link node (batch_first batch)) w
              in case rt order (batch_first batch) w of None \<Rightarrow> None
                 | Some (ok, w) \<Rightarrow> if \<not> ok then Some (False, batch, w)
                                  else Some (True, smr_batch_init batch, w)
         else Some (True, batch, w))"

section \<open>What \<open>__free\<close> does\<close>

text \<open>
  The contract of the callback: it gives back the object of a valid node, may overwrite the node it
  is given but no other, and keeps the part \<open>K\<close> of the state.  That \<open>__free\<close> works for every
  such callback means that it never reads a node after the node has been freed.
\<close>

locale smr_callback =
  fixes fr :: "ptr \<Rightarrow> 'a smr_scheme \<Rightarrow> 'a smr_scheme"
    and obj :: "ptr \<Rightarrow> ptr"
    and V :: "ptr \<Rightarrow> bool"
    and K :: "'a smr_scheme \<Rightarrow> 'k"
  assumes fr_reclaimed: "V n \<Longrightarrow> reclaimed (fr n s) = reclaimed s @ [obj n]"
    and fr_keeps: "K (fr n s) = K s"
    and fr_next: "x \<noteq> n \<Longrightarrow> smr_next (fr n s) x = smr_next s x"
    and fr_link: "x \<noteq> n \<Longrightarrow> smr_link (fr n s) x = smr_link s x"
    and fr_refs: "x \<noteq> n \<Longrightarrow> smr_refs (fr n s) x = smr_refs s x"

text \<open>The local list: batches linked through \<open>next\<close> of their last node, each batch linked from its
  first node through \<open>batch_next\<close>, and the counter of its last node at 0.\<close>

fun pend :: "'a smr_scheme \<Rightarrow> u64 \<Rightarrow> ptr list list \<Rightarrow> bool" where
  "pend s p [] \<longleftrightarrow> p = 0"
| "pend s p (b # F) \<longleftrightarrow> b \<noteq> [] \<and> p = last b \<and> p \<noteq> 0 \<and> smr_link s p = hd b
     \<and> chain (smr_refs s) (hd b) b \<and> pend s (smr_next s p) F"

text \<open>The two states agree on the nodes outside \<open>X\<close>.\<close>

definition same_nodes :: "ptr set \<Rightarrow> 'a smr_scheme \<Rightarrow> 'a smr_scheme \<Rightarrow> bool" where
  "same_nodes X s s' \<longleftrightarrow> (\<forall>x. x \<notin> X \<longrightarrow>
     smr_next s' x = smr_next s x \<and> smr_link s' x = smr_link s x \<and> smr_refs s' x = smr_refs s x)"

lemma same_nodes_refl [simp]: "same_nodes X s s"
  by (simp add: same_nodes_def)

lemma same_nodes_trans: "same_nodes X s s' \<Longrightarrow> same_nodes Y s' s'' \<Longrightarrow> X \<union> Y \<subseteq> Z \<Longrightarrow> same_nodes Z s s''"
  unfolding same_nodes_def by (metis UnCI subsetD)

lemma same_nodes_mono: "same_nodes X s s' \<Longrightarrow> X \<subseteq> Y \<Longrightarrow> same_nodes Y s s'"
  by (auto simp: same_nodes_def)

lemma pend_same: "same_nodes X s s' \<Longrightarrow> X \<inter> set (concat F) = {} \<Longrightarrow> pend s p F \<Longrightarrow> pend s' p F"
proof (induction F arbitrary: p)
  case (Cons b F)
  have out: "x \<notin> X" if "x \<in> set b" for x using Cons.prems(2) that by auto
  have "p \<notin> X" using Cons.prems(3) out [of p] by simp
  moreover have "chain (smr_refs s') (hd b) b = chain (smr_refs s) (hd b) b"
    using Cons.prems(1) out by (intro chain_cong) (simp add: same_nodes_def)
  ultimately show ?case
    using Cons.prems Cons.IH [of "smr_next s p"] by (auto simp: same_nodes_def)
qed simp

context smr_callback begin

lemma free_batch_run:
  assumes "chain (smr_refs s) p b" "b \<noteq> []" "distinct b" "length b \<le> fuel" "\<forall>x \<in> set b. V x"
  shows "\<exists>s'. smr_free_batch fuel p fr 0 (s, []) = Some (s', []) \<and> reclaimed s' = reclaimed s @ map obj b
    \<and> K s' = K s \<and> same_nodes (set b) s s'"
  using assms
proof (induction b arbitrary: p s fuel)
  case (Cons x xs)
  from Cons.prems(4) obtain f where f: "fuel = Suc f" "length xs \<le> f" by (cases fuel) auto
  have p: "p = x" "x \<noteq> 0" "chain (smr_refs s) (smr_refs s x) xs" using Cons.prems(1) by auto
  have fx: "same_nodes {x} s (fr x s)" by (auto simp: same_nodes_def fr_next fr_link fr_refs)
  show ?case
  proof (cases "xs = []")
    case True
    with p f fx Cons.prems(5) show ?thesis
      by (auto simp: smr_addr_def own_def fr_reclaimed fr_keeps)
  next
    case False
    have "chain (smr_refs (fr x s)) (smr_refs s x) xs"
      using p(3) Cons.prems(3) chain_cong [of xs "smr_refs (fr x s)" "smr_refs s"] fr_refs
      by (metis distinct.simps(2))
    from Cons.IH [OF this False _ f(2)] Cons.prems(3,5)
    obtain s' where s': "smr_free_batch f (smr_refs s x) fr 0 (fr x s, []) = Some (s', [])"
        "reclaimed s' = reclaimed (fr x s) @ map obj xs" "K s' = K (fr x s)" "same_nodes (set xs) (fr x s) s'"
      by auto
    moreover have "smr_refs s x \<noteq> 0" using chain_null [OF p(3)] False by simp
    moreover have "same_nodes (set (x # xs)) s s'"
      by (rule same_nodes_trans [OF fx s'(4)]) auto
    ultimately show ?thesis
      using p(1) f(1) Cons.prems(5) by (simp add: smr_addr_def own_def fr_reclaimed fr_keeps)
  qed
qed simp

lemma free_list_run:
  assumes "pend s p F" "distinct (concat F)" "length (concat F) < fuel" "\<forall>x \<in> set (concat F). V x"
  shows "\<exists>s'. smr_free_list fuel p fr 0 (s, []) = Some (s', []) \<and> reclaimed s' = reclaimed s @ map obj (concat F)
    \<and> K s' = K s \<and> same_nodes (set (concat F)) s s'"
  using assms
proof (induction F arbitrary: p s fuel)
  case Nil
  then show ?case by (cases fuel) auto
next
  case (Cons b F)
  from Cons.prems(3) obtain f where f: "fuel = Suc f" "length b \<le> f" by (cases fuel) auto
  have b: "b \<noteq> []" "p = last b" "p \<noteq> 0" "smr_link s p = hd b" "chain (smr_refs s) (hd b) b"
      "pend s (smr_next s p) F" using Cons.prems(1) by auto
  have d: "distinct b" "distinct (concat F)" "set b \<inter> set (concat F) = {}" using Cons.prems(2) by auto
  obtain s1 where s1: "smr_free_batch f (hd b) fr 0 (s, []) = Some (s1, [])"
      "reclaimed s1 = reclaimed s @ map obj b" "K s1 = K s" "same_nodes (set b) s s1"
    using free_batch_run [OF b(5) b(1) d(1) f(2)] Cons.prems(4) by auto
  have "length (b # F) = Suc (length F)" "0 < length b" using b(1) by simp_all
  then have "length (concat F) < f" using Cons.prems(3) f(1) by (simp add: less_eq_Suc_le)
  from Cons.IH [OF pend_same [OF s1(4) d(3) b(6)] d(2) this] Cons.prems(4)
  obtain s2 where s2: "smr_free_list f (smr_next s p) fr 0 (s1, []) = Some (s2, [])"
      "reclaimed s2 = reclaimed s1 @ map obj (concat F)" "K s2 = K s1" "same_nodes (set (concat F)) s1 s2"
    by auto
  have "same_nodes (set (concat (b # F))) s s2"
    by (rule same_nodes_trans [OF s1(4) s2(4)]) auto
  with s1 s2 b f show ?case by (simp add: smr_addr_def)
qed

end

end
