(* ===== verification/Lfsmro.thy ===== *)
theory Lfsmro
  imports Smr
begin

text \<open>
  \<open>hyaline/bits/lfsmr_cas1.h\<close> (the library of \<open>lfsmro.h\<close>): every slot belongs to one thread.
  The head of a slot is 0 while no operation runs in it and the pointer to the retirement list
  with bit 0 set otherwise.
\<close>

record lfsmro = smr +
  lfo_head :: "nat \<Rightarrow> u64"

definition lfo_put_head :: "nat \<Rightarrow> u64 \<Rightarrow> 'a lfsmro_scheme \<Rightarrow> 'a lfsmro_scheme" where
  "lfo_put_head i v s = s\<lparr>lfo_head := (lfo_head s)(i := v)\<rparr>"

fun lfo_init_from :: "nat list \<Rightarrow> 'a lfsmro_scheme \<Rightarrow> 'a lfsmro_scheme" where
  "lfo_init_from [] s = s"
| "lfo_init_from (i # js) s = lfo_init_from js (lfo_put_head i 0 s)"

definition lfo_init :: "nat \<Rightarrow> 'a lfsmro_scheme \<Rightarrow> 'a lfsmro_scheme" where
  "lfo_init order s = lfo_init_from [0..<2 ^ order] s"

definition lfo_link :: "nat \<Rightarrow> 'a lfsmro_scheme world \<Rightarrow> u64 \<times> 'a lfsmro_scheme world" where
  "lfo_link vec w = (let (h, w) = load (\<lambda>s. lfo_head s vec) w in (h AND NOT 0x1, w))"

definition lfo_enter :: "nat \<Rightarrow> 'a lfsmro_scheme world \<Rightarrow> bool \<times> u64 \<times> 'a lfsmro_scheme world" where
  "lfo_enter vec w = (let smr = 0; w = store (lfo_put_head vec 0x1) w in (True, smr, w))"

text \<open>\<open>__leave\<close>.  The threshold of its traversal is 0, so that traversal never calls
  \<open>__leave\<close> again.\<close>

definition lfo_leave_list :: "nat \<Rightarrow> nat \<Rightarrow> ptr \<Rightarrow> (ptr \<Rightarrow> bool) \<Rightarrow> u64 \<Rightarrow> u64 \<Rightarrow> 'a lfsmro_scheme world
    \<Rightarrow> (bool \<times> u64 \<times> 'a lfsmro_scheme world) option" where
  "lfo_leave_list fuel vec base check smr list w =
     (let (old, w) = rmw (\<lambda>s. (lfo_head s vec, lfo_put_head vec 0 s)) w;
          cur = old AND NOT 0x1
      in if cur \<noteq> 0
         then map_option (\<lambda>(ok, list, threshold, w). (ok, list, w))
                (smr_traverse fuel (\<lambda>_ _. None) base check 0 list 0 cur smr w)
         else Some (True, list, w))"

fun lfo_push :: "nat \<Rightarrow> ptr \<Rightarrow> nat \<Rightarrow> u64 \<Rightarrow> u64 \<Rightarrow> 'a lfsmro_scheme world \<Rightarrow> (bool \<times> 'a lfsmro_scheme world) option" where
  "lfo_push 0 base i cur lst w = None"
| "lfo_push (Suc fuel) base i cur lst w =
     (if lst AND 0x1 = 0 then Some (False, w)
      else let w = own (smr_set_next (smr_addr base cur) (lst AND NOT 0x1)) w;
               head = cur OR 0x1;
               (ok, lst, w) = cas (\<lambda>s. lfo_head s i) (lfo_put_head i) lst head w
           in if ok then Some (True, w) else lfo_push fuel base i cur lst w)"

fun lfo_slots :: "nat \<Rightarrow> ptr \<Rightarrow> nat list \<Rightarrow> u64 \<Rightarrow> u64 \<Rightarrow> 'a lfsmro_scheme world
    \<Rightarrow> (u64 \<times> 'a lfsmro_scheme world) option" where
  "lfo_slots fuel base [] cur adjs w = Some (adjs, w)"
| "lfo_slots fuel base (i # js) cur adjs w =
     (let node = smr_addr base cur;
          (lst, w) = load (\<lambda>s. lfo_head s i) w
      in case lfo_push fuel base i cur lst w of None \<Rightarrow> None
         | Some (pushed, w) \<Rightarrow>
             if pushed then lfo_slots fuel base js (smr_refs (fst w) node) (adjs + 1) w
             else lfo_slots fuel base js cur adjs w)"

definition lfo_retire_batch :: "nat \<Rightarrow> (ptr \<Rightarrow> 'a lfsmro_scheme \<Rightarrow> 'a lfsmro_scheme) \<Rightarrow> ptr \<Rightarrow> nat \<Rightarrow> u64
    \<Rightarrow> 'a lfsmro_scheme world \<Rightarrow> (bool \<times> 'a lfsmro_scheme world) option" where
  "lfo_retire_batch fuel fr base order first w =
     (case lfo_slots fuel base [0..<2 ^ order] first 0 w of None \<Rightarrow> None
      | Some (adjs, w) \<Rightarrow>
          let (list, w) = smr_adjust_refs 0 first adjs base w
          in map_option (\<lambda>w. (True, w)) (smr_free_list fuel list fr base w))"

text \<open>The operations of \<open>lfsmr_common.h\<close> for this variant.\<close>

definition lfo_leave :: "nat \<Rightarrow> nat \<Rightarrow> u64 \<Rightarrow> (ptr \<Rightarrow> 'a lfsmro_scheme \<Rightarrow> 'a lfsmro_scheme) \<Rightarrow> ptr \<Rightarrow> (ptr \<Rightarrow> bool)
    \<Rightarrow> 'a lfsmro_scheme world \<Rightarrow> (bool \<times> 'a lfsmro_scheme world) option" where
  "lfo_leave fuel vec smr fr base check w = smr_leave fuel (lfo_leave_list fuel vec base check smr) fr base w"

definition lfo_trim :: "nat \<Rightarrow> nat \<Rightarrow> u64 \<Rightarrow> (ptr \<Rightarrow> 'a lfsmro_scheme \<Rightarrow> 'a lfsmro_scheme) \<Rightarrow> ptr \<Rightarrow> (ptr \<Rightarrow> bool)
    \<Rightarrow> u64 \<Rightarrow> 'a lfsmro_scheme world \<Rightarrow> (bool \<times> u64 \<times> 'a lfsmro_scheme world) option" where
  "lfo_trim fuel vec smr fr base check threshold w =
     smr_trim fuel (lfo_link vec) (lfo_leave_list fuel vec base check)
       (\<lambda>w. Some (lfo_enter vec w)) smr fr base check threshold w"

definition lfo_retire_one :: "nat \<Rightarrow> ptr \<Rightarrow> (ptr \<Rightarrow> 'a lfsmro_scheme \<Rightarrow> 'a lfsmro_scheme) \<Rightarrow> ptr
    \<Rightarrow> 'a lfsmro_scheme world \<Rightarrow> (bool \<times> 'a lfsmro_scheme world) option" where
  "lfo_retire_one fuel node fr base w = smr_retire_one (lfo_retire_batch fuel fr base) node base w"

definition lfo_retire :: "nat \<Rightarrow> nat \<Rightarrow> ptr \<Rightarrow> (ptr \<Rightarrow> 'a lfsmro_scheme \<Rightarrow> 'a lfsmro_scheme) \<Rightarrow> ptr \<Rightarrow> smr_batch
    \<Rightarrow> u64 \<Rightarrow> 'a lfsmro_scheme world \<Rightarrow> (bool \<times> smr_batch \<times> 'a lfsmro_scheme world) option" where
  "lfo_retire fuel order node fr base batch threshold w =
     smr_retire (lfo_retire_batch fuel fr base) order node base batch threshold w"

end
