(* ===== verification/Smr_Inv.thy ===== *)
theory Smr_Inv
  imports Smr
begin

text \<open>
  The invariant of the single-width Hyaline scheme and what a traversal does to it.  Ghost data:
  \<open>L i\<close> lists the nodes that slot \<open>i\<close> still has to visit, \<open>B\<close> the batches that some slot still
  refers to, \<open>F\<close> the batches on the local list of the running operation.  The counter of a batch
  is the number of slots that still refer to it.
\<close>

text \<open>The nodes visited by a traversal from \<open>p\<close> to \<open>end\<close> (to null if it does not meet \<open>end\<close>).\<close>

fun walk :: "(ptr \<Rightarrow> u64) \<Rightarrow> u64 \<Rightarrow> u64 \<Rightarrow> ptr list \<Rightarrow> bool" where
  "walk nx end p [] \<longleftrightarrow> p = 0"
| "walk nx end p (x # xs) \<longleftrightarrow> p = x \<and> x \<noteq> 0 \<and> (if x = end then xs = [] else walk nx end (nx x) xs)"

lemma walk_cong: "\<forall>x \<in> set xs. nx' x = nx x \<Longrightarrow> walk nx' end p xs = walk nx end p xs"
  by (induction xs arbitrary: p) auto

fun batch_links :: "(ptr \<Rightarrow> u64) \<Rightarrow> ptr list \<Rightarrow> bool" where
  "batch_links nx (x # y # r) \<longleftrightarrow> nx x = y \<and> batch_links nx (y # r)"
| "batch_links nx b \<longleftrightarrow> True"

lemma batch_links_cong:
  "\<forall>x \<in> set (butlast b). nx' x = nx x \<Longrightarrow> batch_links nx' b = batch_links nx b"
  by (induction nx b rule: batch_links.induct) auto

lemma batch_links_chain:
  "batch_links nx b \<Longrightarrow> nx (last b) = 0 \<Longrightarrow> 0 \<notin> set b \<Longrightarrow> b \<noteq> [] \<Longrightarrow> chain nx (hd b) b"
  by (induction nx b rule: batch_links.induct) auto

definition batch_ok :: "'a smr_scheme \<Rightarrow> ptr list \<Rightarrow> bool" where
  "batch_ok s b \<longleftrightarrow> 2 \<le> length b \<and> batch_links (smr_refs s) b
     \<and> (\<forall>x \<in> set (butlast b). smr_link s x = last b) \<and> smr_link s (last b) = hd b"

lemma batch_ok_nonempty: "batch_ok s b \<Longrightarrow> b \<noteq> []"
  by (auto simp: batch_ok_def)

lemma batch_ok_same: "same_nodes X s s' \<Longrightarrow> X \<inter> set b = {} \<Longrightarrow> batch_ok s b \<Longrightarrow> batch_ok s' b"
proof -
  assume X: "same_nodes X s s'" "X \<inter> set b = {}" and b: "batch_ok s b"
  have "x \<notin> X" if "x \<in> set b" for x using X(2) that by auto
  then have same: "smr_refs s' x = smr_refs s x" "smr_link s' x = smr_link s x" if "x \<in> set b" for x
    using X(1) that by (simp_all add: same_nodes_def)
  have lb: "last b \<in> set b" "\<And>x. x \<in> set (butlast b) \<Longrightarrow> x \<in> set b"
    using batch_ok_nonempty [OF b] by (auto dest: in_set_butlastD)
  have "batch_links (smr_refs s') b = batch_links (smr_refs s) b"
    using same(1) lb(2) by (intro batch_links_cong) simp
  with b same(2) lb show ?thesis by (simp add: batch_ok_def)
qed

definition in_slots :: "nat \<Rightarrow> (nat \<Rightarrow> ptr list) \<Rightarrow> ptr list \<Rightarrow> nat" where
  "in_slots N L b = length (filter (\<lambda>i. set (L i) \<inter> set b \<noteq> {}) [0..<N])"

lemma in_slots_le: "in_slots N L b \<le> N"
  unfolding in_slots_def by (metis diff_zero length_filter_le length_upt)

lemma in_slots_card: "in_slots N L b = card {i. i < N \<and> set (L i) \<inter> set b \<noteq> {}}"
  unfolding in_slots_def length_filter_conv_card by (rule arg_cong [where f = card]) auto

lemma in_slots_0: "in_slots N L b = 0 \<longleftrightarrow> (\<forall>i<N. set (L i) \<inter> set b = {})"
  by (auto simp: in_slots_def filter_empty_conv)

lemma in_slots_other: "\<forall>i<N. set (L' i) \<inter> set b = {} \<longleftrightarrow> set (L i) \<inter> set b = {} \<Longrightarrow> in_slots N L' b = in_slots N L b"
  unfolding in_slots_def by (rule arg_cong [where f = length], rule filter_cong) auto

lemma in_slots_drop:
  assumes "i < N" "set (L i) \<inter> set b \<noteq> {}" "set xs \<inter> set b = {}"
  shows "in_slots N L b = Suc (in_slots N (L(i := xs)) b)"
proof -
  have parts: "[0..<N] = [0..<i] @ i # [Suc i..<N]"
    using assms(1) by (metis le_add1 less_imp_le_nat upt_add_eq_append upt_conv_Cons add_0 le_add_diff_inverse)
  have "filter (\<lambda>k. set ((L(i := xs)) k) \<inter> set b \<noteq> {}) js = filter (\<lambda>k. set (L k) \<inter> set b \<noteq> {}) js"
    if "i \<notin> set js" for js using that by (intro filter_cong) auto
  then show ?thesis using assms(2,3) by (simp add: in_slots_def parts del: upt_Suc)
qed

text \<open>The counter of a batch may also stand for references of another kind: \<open>hold b\<close> is \<open>Some v\<close> if
  there are any, and \<open>v\<close> is what they contribute.  While there are, the counter never reaches 0 by
  the visits to come.\<close>

definition held :: "u64 option \<Rightarrow> u64" where
  "held h = (case h of None \<Rightarrow> 0 | Some v \<Rightarrow> v)"

definition stays :: "u64 option \<Rightarrow> nat \<Rightarrow> bool" where
  "stays h k \<longleftrightarrow> (\<forall>v. h = Some v \<longrightarrow> (\<forall>j. 0 < j \<longrightarrow> j \<le> k \<longrightarrow> of_nat j + v \<noteq> (1 :: u64)))"

lemma held_None [simp]: "held None = 0" "stays None k"
  by (simp_all add: held_def stays_def)

lemma stays_mono: "stays h k \<Longrightarrow> j \<le> k \<Longrightarrow> stays h j"
  by (auto simp: stays_def)

definition smr_ginv :: "(ptr list \<Rightarrow> u64 option) \<Rightarrow> nat \<Rightarrow> (nat \<Rightarrow> ptr list) \<Rightarrow> ptr list list \<Rightarrow> ptr list list \<Rightarrow> u64
    \<Rightarrow> 'a smr_scheme \<Rightarrow> bool" where
  "smr_ginv hold N L B F list s \<longleftrightarrow> distinct (concat B @ concat F) \<and> 0 \<notin> set (concat B @ concat F)
     \<and> (\<forall>i<N. distinct (L i))
     \<and> (\<forall>i<N. \<forall>x \<in> set (L i). \<exists>b \<in> set B. x \<in> set (butlast b))
     \<and> (\<forall>i<N. \<forall>b \<in> set B. \<forall>x \<in> set (L i). \<forall>y \<in> set (L i). x \<in> set b \<longrightarrow> y \<in> set b \<longrightarrow> x = y)
     \<and> (\<forall>b \<in> set B. batch_ok s b \<and> smr_refs s (last b) = of_nat (in_slots N L b) + held (hold b)
          \<and> (0 < in_slots N L b \<or> hold b \<noteq> None) \<and> stays (hold b) (in_slots N L b))
     \<and> pend s list F"

lemma smr_ginvD:
  assumes "smr_ginv hold N L B F list s"
  shows "distinct (concat B)" "distinct (concat F)" "y \<in> set (concat B) \<Longrightarrow> y \<noteq> 0 \<and> y \<notin> set (concat F)"
    "y \<in> set (concat F) \<Longrightarrow> y \<noteq> 0" "i < N \<Longrightarrow> distinct (L i)"
    "i < N \<Longrightarrow> x \<in> set (L i) \<Longrightarrow> \<exists>b \<in> set B. x \<in> set (butlast b)"
    "i < N \<Longrightarrow> b \<in> set B \<Longrightarrow> x \<in> set (L i) \<Longrightarrow> y \<in> set (L i) \<Longrightarrow> x \<in> set b \<Longrightarrow> y \<in> set b \<Longrightarrow> x = y"
    "b \<in> set B \<Longrightarrow> batch_ok s b" "b \<in> set B \<Longrightarrow> smr_refs s (last b) = of_nat (in_slots N L b) + held (hold b)"
    "b \<in> set B \<Longrightarrow> 0 < in_slots N L b \<or> hold b \<noteq> None" "pend s list F"
    "b \<in> set B \<Longrightarrow> stays (hold b) (in_slots N L b)"
proof -
  note I = assms [unfolded smr_ginv_def distinct_append set_append]
  show "distinct (concat B)" "distinct (concat F)" using I by blast+
  show "y \<in> set (concat B) \<Longrightarrow> y \<noteq> 0 \<and> y \<notin> set (concat F)" "y \<in> set (concat F) \<Longrightarrow> y \<noteq> 0"
    using I by blast+
  show "i < N \<Longrightarrow> distinct (L i)" "i < N \<Longrightarrow> x \<in> set (L i) \<Longrightarrow> \<exists>b \<in> set B. x \<in> set (butlast b)"
    using I by blast+
  show "i < N \<Longrightarrow> b \<in> set B \<Longrightarrow> x \<in> set (L i) \<Longrightarrow> y \<in> set (L i) \<Longrightarrow> x \<in> set b \<Longrightarrow> y \<in> set b \<Longrightarrow> x = y"
    using I by blast
  show "b \<in> set B \<Longrightarrow> batch_ok s b" "b \<in> set B \<Longrightarrow> smr_refs s (last b) = of_nat (in_slots N L b) + held (hold b)"
    "b \<in> set B \<Longrightarrow> 0 < in_slots N L b \<or> hold b \<noteq> None" "pend s list F"
    "b \<in> set B \<Longrightarrow> stays (hold b) (in_slots N L b)"
    using I by blast+
qed

lemma last_not_butlast: "distinct b \<Longrightarrow> x \<in> set (butlast b) \<Longrightarrow> x \<noteq> last b"
  by (metis append_butlast_last_id distinct.simps(1) distinct_append butlast.simps(1) empty_iff
      empty_set disjoint_iff list.set_intros(1))

lemma distinct_concat_eq:
  "distinct (concat B) \<Longrightarrow> b \<in> set B \<Longrightarrow> c \<in> set B \<Longrightarrow> x \<in> set b \<Longrightarrow> x \<in> set c \<Longrightarrow> b = c"
  by (induction B) auto

lemma distinct_concat_mem: "distinct (concat B) \<Longrightarrow> b \<in> set B \<Longrightarrow> distinct b"
  by (induction B) auto

lemma distinct_concat_filter: "distinct (concat B) \<Longrightarrow> distinct (concat (filter P B))"
  by (induction B) auto

lemma set_concat_filter: "set (concat (filter P B)) \<subseteq> set (concat B)"
  by auto

text \<open>One node of slot \<open>i\<close> is visited: the counter of its batch goes down, and a batch whose
  counter reaches 0 moves to the local list.\<close>

definition smr_visit :: "ptr list \<Rightarrow> 'a smr_scheme \<Rightarrow> 'a smr_scheme" where
  "smr_visit b s = smr_set_refs (last b) (smr_refs s (last b) + - 1) s"

lemma smr_visit_batch:
  assumes "smr_ginv hold N L B F list s" "i < N" "L i = x # xs"
  obtains b where "b \<in> set B" "x \<in> set (butlast b)" "smr_link s x = last b" "last b \<noteq> 0"
    "smr_refs s (last b) = of_nat (in_slots N L b) + held (hold b)"
    "in_slots N L b = Suc (in_slots N (L(i := xs)) b)"
    "\<And>c. c \<in> set B \<Longrightarrow> c \<noteq> b \<Longrightarrow> in_slots N (L(i := xs)) c = in_slots N L c"
    "\<And>c. c \<in> set B \<Longrightarrow> c \<noteq> b \<Longrightarrow> last b \<notin> set c" "last b \<notin> set (concat F)"
    "set xs \<inter> set b = {}"
proof -
  note I = smr_ginvD [OF assms(1)]
  obtain b where b: "b \<in> set B" "x \<in> set (butlast b)"
    using I(6) [OF assms(2), of x] assms(3) by auto
  have ne: "b \<noteq> []" "last b \<in> set b" "x \<in> set b"
    using batch_ok_nonempty [OF I(8) [OF b(1)]] b(2) by (auto dest: in_set_butlastD)
  have in_b: "last b \<in> set (concat B)" using b(1) ne(2) by auto
  have dx: "set xs \<inter> set b = {}"
  proof -
    have "y = x" if "y \<in> set xs" "y \<in> set b" for y
      using I(7) [OF assms(2) b(1), of y x] that ne(3) assms(3) by simp
    moreover have "x \<notin> set xs" using I(5) [OF assms(2)] assms(3) by simp
    ultimately show ?thesis by auto
  qed
  have cnt: "in_slots N L b = Suc (in_slots N (L(i := xs)) b)"
    using in_slots_drop [OF assms(2) _ dx, of L] ne(3) assms(3) by auto
  have other: "in_slots N (L(i := xs)) c = in_slots N L c" if c: "c \<in> set B" "c \<noteq> b" for c
  proof (rule in_slots_other)
    have "x \<notin> set c" using distinct_concat_eq [OF I(1) c(1) b(1)] ne(3) c(2) by blast
    then show "\<forall>k<N. set ((L(i := xs)) k) \<inter> set c = {} \<longleftrightarrow> set (L k) \<inter> set c = {}"
      using assms(3) by auto
  qed
  have out: "last b \<notin> set c" if c: "c \<in> set B" "c \<noteq> b" for c
    using distinct_concat_eq [OF I(1) c(1) b(1), of "last b"] ne(2) c(2) by blast
  have lnk: "smr_link s x = last b" using I(8) [OF b(1)] b(2) by (auto simp: batch_ok_def)
  show thesis using that [OF b lnk _ I(9) [OF b(1)] cnt other out _ dx] I(3) [OF in_b] by blast
qed

lemma smr_visit_same: "same_nodes {last b} s (smr_visit b s)"
  "same_nodes {last b} s (smr_set_next (last b) v (smr_visit b s))"
  by (auto simp: same_nodes_def smr_visit_def smr_set_refs_def smr_set_next_def)

lemma smr_visit_refs: "smr_refs (smr_visit b s) (last b) = smr_refs s (last b) - 1"
  "smr_refs (smr_set_next n v s') = smr_refs s'" "smr_link (smr_set_next n v s') = smr_link s'"
  "smr_link (smr_visit b s) = smr_link s"
  by (simp_all add: smr_visit_def smr_set_refs_def smr_set_next_def)

text \<open>A batch \<open>c\<close> gains or loses references: its counter changes by \<open>v\<close>, and it moves to the local
  list when nothing refers to it any more.\<close>

lemma smr_ginv_change:
  assumes inv: "smr_ginv hold N L B F list s" and c: "c \<in> set B"
    and others: "\<And>d. d \<in> set B \<Longrightarrow> d \<noteq> c \<Longrightarrow> in_slots N L' d = in_slots N L d \<and> hold' d = hold d"
    and wf: "\<And>i. i < N \<Longrightarrow> distinct (L' i)" "\<And>i x. i < N \<Longrightarrow> x \<in> set (L' i) \<Longrightarrow> \<exists>b \<in> set B. x \<in> set (butlast b)"
      "\<And>i b x y. i < N \<Longrightarrow> b \<in> set B \<Longrightarrow> x \<in> set (L' i) \<Longrightarrow> y \<in> set (L' i) \<Longrightarrow> x \<in> set b \<Longrightarrow> y \<in> set b \<Longrightarrow> x = y"
    and cnt: "of_nat (in_slots N L c) + held (hold c) + v = of_nat (in_slots N L' c) + held (hold' c)"
  defines "s1 \<equiv> smr_set_refs (last c) (smr_refs s (last c) + v) s"
  shows "(0 < in_slots N L' c \<or> hold' c \<noteq> None) \<Longrightarrow> stays (hold' c) (in_slots N L' c) \<Longrightarrow> smr_ginv hold' N L' B F list s1"
    "in_slots N L' c = 0 \<Longrightarrow> hold' c = None \<Longrightarrow>
       smr_ginv hold' N L' (filter (\<lambda>d. d \<noteq> c) B) (c # F) (last c) (smr_set_next (last c) list s1)"
proof -
  note I = smr_ginvD [OF inv]
  let ?s = "smr_set_next (last c) list s1"
  have same: "same_nodes {last c} s s1" "same_nodes {last c} s ?s"
    by (simp_all add: same_nodes_def s1_def smr_set_refs_def smr_set_next_def)
  have dc: "distinct c" by (rule distinct_concat_mem [OF I(1) c])
  have lc: "last c \<in> set c" "last c \<noteq> 0" "last c \<notin> set (concat F)"
  proof -
    show l: "last c \<in> set c" using batch_ok_nonempty [OF I(8) [OF c]] by simp
    then have "last c \<in> set (concat B)" using c by auto
    then show "last c \<noteq> 0" "last c \<notin> set (concat F)" using I(3) by blast+
  qed
  have refs: "smr_refs s1 (last c) = of_nat (in_slots N L' c) + held (hold' c)"
    using I(9) [OF c] cnt by (simp add: s1_def smr_set_refs_def)
  have fld: "smr_refs ?s = smr_refs s1" "smr_link ?s = smr_link s" "smr_link s1 = smr_link s" "smr_next ?s (last c) = list"
    by (simp_all add: s1_def smr_set_refs_def smr_set_next_def)
  have "smr_refs s1 x = smr_refs s x" if "x \<in> set (butlast c)" for x
    using last_not_butlast [OF dc that] by (simp add: s1_def smr_set_refs_def)
  then have lnk: "batch_links (smr_refs s1) c = batch_links (smr_refs s) c"
    by (intro batch_links_cong) simp
  have other: "batch_ok s' d \<and> smr_refs s' (last d) = of_nat (in_slots N L' d) + held (hold' d)
      \<and> (0 < in_slots N L' d \<or> hold' d \<noteq> None) \<and> stays (hold' d) (in_slots N L' d)"
    if "d \<in> set B" "d \<noteq> c" "same_nodes {last c} s s'" for d s'
  proof -
    have out: "last c \<notin> set d" using distinct_concat_eq [OF I(1) that(1) c] lc(1) that(2) by blast
    then have "last d \<noteq> last c" using batch_ok_nonempty [OF I(8) [OF that(1)]] by (metis last_in_set)
    then have "smr_refs s' (last d) = smr_refs s (last d)" using that(3) by (simp add: same_nodes_def)
    with batch_ok_same [OF that(3) _ I(8) [OF that(1)]] out others [OF that(1,2)] I(9,10,12) [OF that(1)]
    show ?thesis by simp
  qed
  have pen: "pend s' list F" if "same_nodes {last c} s s'" for s'
    using pend_same [OF that _ I(11)] lc(3) by simp
  {
    assume z: "0 < in_slots N L' c \<or> hold' c \<noteq> None" "stays (hold' c) (in_slots N L' c)"
    have "batch_ok s1 c" using I(8) [OF c] lnk by (simp add: batch_ok_def fld)
    then have "\<forall>d \<in> set B. batch_ok s1 d \<and> smr_refs s1 (last d) = of_nat (in_slots N L' d) + held (hold' d)
        \<and> (0 < in_slots N L' d \<or> hold' d \<noteq> None) \<and> stays (hold' d) (in_slots N L' d)"
      using z refs other [OF _ _ same(1)] by metis
    moreover have "\<forall>k<N. distinct (L' k)" "\<forall>k<N. \<forall>x \<in> set (L' k). \<exists>b \<in> set B. x \<in> set (butlast b)"
      "\<forall>k<N. \<forall>b \<in> set B. \<forall>x \<in> set (L' k). \<forall>y \<in> set (L' k). x \<in> set b \<longrightarrow> y \<in> set b \<longrightarrow> x = y"
      using wf by blast+
    ultimately show "smr_ginv hold' N L' B F list s1"
      using pen [OF same(1)] inv unfolding smr_ginv_def by blast
  }
  assume z: "in_slots N L' c = 0" "hold' c = None"
  let ?B = "filter (\<lambda>d. d \<noteq> c) B"
  have mem: "\<exists>d \<in> set ?B. y \<in> set (butlast d)" if k: "k < N" and y: "y \<in> set (L' k)" for k y
  proof -
    obtain d where d: "d \<in> set B" "y \<in> set (butlast d)" using wf(2) [OF k y] by blast
    have "y \<notin> set c" using z(1) y k unfolding in_slots_0 by blast
    then have "d \<noteq> c" using d(2) by (auto dest: in_set_butlastD)
    with d show ?thesis by auto
  qed
  have dis: "distinct (concat ?B @ concat (c # F))" "0 \<notin> set (concat ?B @ concat (c # F))"
  proof -
    have "set c \<inter> set (concat ?B) = {}" using distinct_concat_eq [OF I(1) c] by auto
    moreover have "set c \<inter> set (concat F) = {}" "set (concat ?B) \<inter> set (concat F) = {}" using I(3) c by auto
    ultimately show "distinct (concat ?B @ concat (c # F))"
      using distinct_concat_filter [OF I(1)] I(2) dc by auto
    show "0 \<notin> set (concat ?B @ concat (c # F))" using I(3,4) c by auto
  qed
  have "c \<noteq> []" "0 \<notin> set c" "smr_refs ?s (last c) = 0" "batch_links (smr_refs ?s) c" "smr_link ?s (last c) = hd c"
    using batch_ok_nonempty [OF I(8) [OF c]] I(3) I(8) [OF c] c refs z lnk by (auto simp: fld batch_ok_def)
  then have "pend ?s (last c) (c # F)"
    using batch_links_chain [of "smr_refs ?s" c] lc(2) pen [OF same(2)] by (simp add: fld)
  moreover have "\<forall>d \<in> set ?B. batch_ok ?s d \<and> smr_refs ?s (last d) = of_nat (in_slots N L' d) + held (hold' d)
      \<and> (0 < in_slots N L' d \<or> hold' d \<noteq> None) \<and> stays (hold' d) (in_slots N L' d)"
    using other [OF _ _ same(2)] by auto
  moreover have "\<forall>k<N. distinct (L' k)"
    "\<forall>k<N. \<forall>b \<in> set ?B. \<forall>x \<in> set (L' k). \<forall>y \<in> set (L' k). x \<in> set b \<longrightarrow> y \<in> set b \<longrightarrow> x = y"
    using wf(1,3) by auto
  ultimately show "smr_ginv hold' N L' ?B (c # F) (last c) ?s"
    using dis mem unfolding smr_ginv_def by blast
qed

lemma smr_visit_step:
  assumes inv: "smr_ginv hold N L B F list s" and i: "i < N" "L i = x # xs" and N: "N < 2 ^ 64"
  obtains b where "b \<in> set B" "x \<in> set (butlast b)" "smr_link s x = last b"
    "\<And>c. c \<in> set B \<Longrightarrow> c \<noteq> b \<Longrightarrow> in_slots N (L(i := xs)) c = in_slots N L c"
    "smr_refs s (last b) = 1 \<Longrightarrow> in_slots N (L(i := xs)) b = 0 \<and> hold b = None
       \<and> smr_ginv hold N (L(i := xs)) (filter (\<lambda>c. c \<noteq> b) B) (b # F) (last b)
            (smr_set_next (last b) list (smr_visit b s))"
    "smr_refs s (last b) \<noteq> 1 \<Longrightarrow> (0 < in_slots N (L(i := xs)) b \<or> hold b \<noteq> None)
       \<and> smr_ginv hold N (L(i := xs)) B F list (smr_visit b s)"
proof -
  obtain b where b: "b \<in> set B" "x \<in> set (butlast b)" "smr_link s x = last b" "last b \<noteq> 0"
    "smr_refs s (last b) = of_nat (in_slots N L b) + held (hold b)"
    "in_slots N L b = Suc (in_slots N (L(i := xs)) b)"
    "\<And>c. c \<in> set B \<Longrightarrow> c \<noteq> b \<Longrightarrow> in_slots N (L(i := xs)) c = in_slots N L c"
    "\<And>c. c \<in> set B \<Longrightarrow> c \<noteq> b \<Longrightarrow> last b \<notin> set c" "last b \<notin> set (concat F)"
    "set xs \<inter> set b = {}"
    using smr_visit_batch [OF inv i] by blast
  note I = smr_ginvD [OF inv]
  let ?L = "L(i := xs)"
  have L: "distinct (?L k)" "set (?L k) \<subseteq> set (L k)" if "k < N" for k
    using I(5) [OF that] i(2) by (auto split: if_splits)
  have cnt: "of_nat (in_slots N L b) + held (hold b) + - 1 = of_nat (in_slots N ?L b) + held (hold b)"
    unfolding b(6) by simp
  have others: "in_slots N ?L d = in_slots N L d \<and> hold d = hold d" if "d \<in> set B" "d \<noteq> b" for d
    using b(7) [OF that] by simp
  have wf: "\<exists>c \<in> set B. y \<in> set (butlast c)" if "k < N" "y \<in> set (?L k)" for k y
    using I(6) [OF that(1)] L(2) [OF that(1)] that(2) by blast
  have wf': "y = z" if "k < N" "c \<in> set B" "y \<in> set (?L k)" "z \<in> set (?L k)" "y \<in> set c" "z \<in> set c" for k c y z
    using I(7) [OF that(1,2) subsetD [OF L(2) [OF that(1)] that(3)] subsetD [OF L(2) [OF that(1)] that(4)] that(5,6)] .
  have "smr_ginv hold N ?L B F list (smr_visit b s)"
    if "0 < in_slots N ?L b \<or> hold b \<noteq> None" "stays (hold b) (in_slots N ?L b)"
    unfolding smr_visit_def
    by (rule smr_ginv_change(1) [where L' = ?L and hold' = hold, OF inv b(1) others L(1) wf wf' cnt that])
  note live = this
  have "smr_ginv hold N ?L (filter (\<lambda>c. c \<noteq> b) B) (b # F) (last b) (smr_set_next (last b) list (smr_visit b s))"
    if "in_slots N ?L b = 0" "hold b = None"
    unfolding smr_visit_def
    by (rule smr_ginv_change(2) [where L' = ?L and hold' = hold, OF inv b(1) others L(1) wf wf' cnt that])
  note dead = this
  show thesis
  proof (rule that [OF b(1,2,3,7)])
    assume 1: "smr_refs s (last b) = 1"
    have nh: "hold b = None"
    proof (rule ccontr)
      assume "hold b \<noteq> None"
      then obtain v where v: "hold b = Some v" by blast
      have pos: "0 < in_slots N L b" using b(6) by linarith
      have eq: "of_nat (in_slots N L b) + v = (1 :: u64)" using 1 b(5) v by (metis held_def option.simps(5))
      from I(12) [OF b(1)] v have "of_nat (in_slots N L b) + v \<noteq> (1 :: u64)"
        unfolding stays_def using pos by blast
      with eq show False by blast
    qed
    have "in_slots N L b < 2 ^ 64" using in_slots_le [of N L b] N by linarith
    then have z: "in_slots N ?L b = 0"
      using 1 nh b(5,6) of_nat_eq_small [of "in_slots N L b" 1] by simp
    with nh dead show "in_slots N ?L b = 0 \<and> hold b = None
       \<and> smr_ginv hold N ?L (filter (\<lambda>c. c \<noteq> b) B) (b # F) (last b) (smr_set_next (last b) list (smr_visit b s))"
      by blast
  next
    assume 1: "smr_refs s (last b) \<noteq> 1"
    have p: "0 < in_slots N ?L b \<or> hold b \<noteq> None"
    proof (rule disjCI)
      assume "\<not> hold b \<noteq> None"
      with 1 b(5,6) show "0 < in_slots N ?L b" by (cases "in_slots N ?L b") auto
    qed
    have "stays (hold b) (in_slots N ?L b)" by (rule stays_mono [OF I(12) [OF b(1)]]) (use b(6) in simp)
    with p live show "(0 < in_slots N ?L b \<or> hold b \<noteq> None) \<and> smr_ginv hold N ?L B F list (smr_visit b s)"
      by blast
  qed
qed

text \<open>The words a traversal may write; everything else in the state stays.\<close>

definition smr_frame :: "'a smr_scheme \<Rightarrow> 'a smr_scheme \<Rightarrow> bool" where
  "smr_frame s s' \<longleftrightarrow> s' = s\<lparr>smr_next := smr_next s', smr_refs := smr_refs s'\<rparr>"

lemma smr_frame_refl [simp]: "smr_frame s s"
  by (simp add: smr_frame_def)

lemma smr_frame_trans: "smr_frame s s' \<Longrightarrow> smr_frame s' s'' \<Longrightarrow> smr_frame s s''"
  unfolding smr_frame_def by (metis (no_types, lifting) smr.fold_congs(1) smr.surjective smr.update_convs(1,3)
      smr.select_convs)

lemma smr_frame_visit: "smr_frame s (smr_visit b s)" "smr_frame s (smr_set_next n v (smr_visit b s))"
  by (simp_all add: smr_frame_def smr_visit_def smr_set_refs_def smr_set_next_def)

lemma smr_fetch_add_alone:
  "smr_fetch_add n v (s, []) = (smr_refs s n, (smr_set_refs n (smr_refs s n + v) s, []))"
  by (simp add: smr_fetch_add_def world_simps)

lemma gslot_node:
  assumes "smr_ginv hold N L B F list s" "b \<in> set B" "x \<in> set (butlast b)"
  shows "x \<in> set (concat B)" "x \<notin> last ` set B" "x \<notin> set (concat F)" "x \<noteq> 0"
proof -
  note I = smr_ginvD [OF assms(1)]
  have x: "x \<in> set b" using assms(3) by (auto dest: in_set_butlastD)
  with assms show B: "x \<in> set (concat B)" by auto
  show "x \<notin> last ` set B"
  proof
    assume "x \<in> last ` set B"
    then obtain c where c: "c \<in> set B" "x = last c" by auto
    then have "x \<in> set c" using batch_ok_nonempty [OF I(8) [OF c(1)]] by simp
    then have "c = b" using distinct_concat_eq [OF I(1) c(1) assms(2)] x by blast
    with c assms last_not_butlast [OF distinct_concat_mem [OF I(1) assms(2)]] show False by blast
  qed
  show "x \<notin> set (concat F)" "x \<noteq> 0" using I(3) [OF B] by simp_all
qed

text \<open>A traversal of the nodes \<open>ys\<close> of slot \<open>i\<close>, of which \<open>zs\<close> stay.  Without a threshold it visits
  them all.  With a threshold it may call \<open>lv\<close> once on the way, when \<open>ys2\<close> are left, and goes on
  without one.\<close>

lemma smr_gflush_run:
  assumes "smr_ginv hold N L B F list s" "i < N" "N < 2 ^ 64" "\<forall>x. check x" "L i = ys @ zs"
    "walk (smr_next s) end p ys" "length ys < fuel"
  shows "(\<exists>s' list' F'. smr_traverse fuel lv 0 check len list th p end (s, []) = Some (True, list', th, (s', []))
      \<and> smr_ginv hold N (L(i := zs)) (filter (\<lambda>b. 0 < in_slots N (L(i := zs)) b \<or> hold b \<noteq> None) B) F' list' s'
      \<and> set F' = set F \<union> {b \<in> set B. in_slots N (L(i := zs)) b = 0 \<and> hold b = None}
      \<and> same_nodes (last ` set B) s s' \<and> smr_frame s s')
    \<or> (th \<noteq> 0 \<and> (\<exists>ys2 s1 list1 F1 go q f len1. set ys2 \<subseteq> set ys
      \<and> smr_ginv hold N (L(i := ys2 @ zs)) (filter (\<lambda>b. 0 < in_slots N (L(i := ys2 @ zs)) b \<or> hold b \<noteq> None) B) F1 list1 s1
      \<and> set F1 = set F \<union> {b \<in> set B. in_slots N (L(i := ys2 @ zs)) b = 0 \<and> hold b = None}
      \<and> same_nodes (last ` set B) s s1 \<and> smr_frame s s1
      \<and> (if go then walk (smr_next s1) end q ys2 \<and> length ys2 < f else ys2 = [])
      \<and> smr_traverse fuel lv 0 check len list th p end (s, []) =
          (case lv list1 (s1, []) of None \<Rightarrow> None
           | Some (ok, list, w) \<Rightarrow> if \<not> ok then Some (False, list, th, w)
               else if go then smr_traverse f lv 0 check len1 list 0 q end w else Some (True, list, 0, w))))"
    (is "?done L B F list s p fuel len ys \<or> (th \<noteq> 0 \<and> ?flush L B F list s p fuel len ys)")
  using assms
proof (induction ys arbitrary: L B F list s p fuel len)
  case Nil
  then have L: "L(i := zs) = L" by (simp add: fun_upd_idem)
  have "filter (\<lambda>b. 0 < in_slots N L b \<or> hold b \<noteq> None) B = B"
    using smr_ginvD(10) [OF Nil.prems(1)] by (simp add: filter_id_conv)
  moreover have "{b \<in> set B. in_slots N L b = 0 \<and> hold b = None} = {}"
    using smr_ginvD(10) [OF Nil.prems(1)] by auto
  moreover obtain f where "fuel = Suc f" using Nil.prems(7) by (cases fuel) auto
  moreover have "p = 0" using Nil.prems(6) by simp
  ultimately show ?case unfolding L using Nil.prems(1)
    by (intro disjI1 exI [of _ s] exI [of _ list] exI [of _ F]) auto
next
  case (Cons x xs)
  obtain f where f: "fuel = Suc f" "length xs < f" using Cons.prems(7) by (cases fuel) auto
  have p: "p = x" "x \<noteq> 0" "if x = end then xs = [] else walk (smr_next s) end (smr_next s x) xs"
    using Cons.prems(6) by simp_all
  have Li: "L i = x # (xs @ zs)" using Cons.prems(5) by simp
  let ?L = "L(i := xs @ zs)"
  obtain b where b: "b \<in> set B" "x \<in> set (butlast b)" "smr_link s x = last b"
    "\<And>c. c \<in> set B \<Longrightarrow> c \<noteq> b \<Longrightarrow> in_slots N ?L c = in_slots N L c"
    "smr_refs s (last b) = 1 \<Longrightarrow> in_slots N ?L b = 0 \<and> hold b = None
       \<and> smr_ginv hold N ?L (filter (\<lambda>c. c \<noteq> b) B) (b # F) (last b)
            (smr_set_next (last b) list (smr_visit b s))"
    "smr_refs s (last b) \<noteq> 1 \<Longrightarrow> (0 < in_slots N ?L b \<or> hold b \<noteq> None)
       \<and> smr_ginv hold N ?L B F list (smr_visit b s)"
    using smr_visit_step [OF Cons.prems(1,2) Li Cons.prems(3)] by blast
  have lasts: "y \<notin> last ` set B" if y: "y \<in> set xs" for y
  proof -
    obtain d where d: "d \<in> set B" "y \<in> set (butlast d)"
      using smr_ginvD(6) [OF Cons.prems(1,2), of y] y Li by auto
    show ?thesis by (rule gslot_node(2) [OF Cons.prems(1) d])
  qed
  define one where "one \<longleftrightarrow> smr_refs s (last b) = 1"
  define s1 where "s1 = (if one then smr_set_next (last b) list (smr_visit b s) else smr_visit b s)"
  define B1 where "B1 = (if one then filter (\<lambda>c. c \<noteq> b) B else B)"
  define F1 where "F1 = (if one then b # F else F)"
  define l1 where "l1 = (if one then last b else list)"
  define len' where "len' = (if one \<and> th \<noteq> 0 then len + 1 else len)"
  have inv1: "smr_ginv hold N ?L B1 F1 l1 s1"
    using b(5,6) by (simp add: s1_def B1_def F1_def l1_def one_def)
  have same1: "same_nodes {last b} s s1" "smr_frame s s1"
    using smr_visit_same [of b s] smr_frame_visit(1) [of s b] smr_frame_visit(2) [of s "last b" list b] by (simp_all add: s1_def)
  have step: "smr_traverse fuel lv 0 check len list th p end (s, []) =
      (if one \<and> th \<noteq> 0 \<and> th \<le> len'
       then case lv l1 (s1, []) of None \<Rightarrow> None
            | Some (ok, list, w) \<Rightarrow> if \<not> ok then Some (False, list, th, w)
                else if x \<noteq> end then smr_traverse f lv 0 check len' list 0 (smr_next s x) end w else Some (True, list, 0, w)
       else if x \<noteq> end then smr_traverse f lv 0 check len' l1 th (smr_next s x) end (s1, [])
       else Some (True, l1, th, (s1, [])))"
    using f p(1,2) b(3) Cons.prems(4)
    unfolding s1_def l1_def len'_def one_def
    by (simp add: smr_addr_def smr_fetch_add_alone own_alone smr_visit_def Let_def cong: option.case_cong) auto
  have b0: "in_slots N (L(i := ys2 @ zs)) b = 0 \<and> hold b = None" if one "set ys2 \<subseteq> set xs" for ys2
  proof -
    have z: "in_slots N ?L b = 0" and h: "hold b = None" using b(5) that(1) by (simp_all add: one_def)
    have "set ((L(i := ys2 @ zs)) k) \<inter> set b = {}" if k: "k < N" for k
    proof -
      have "set (?L k) \<inter> set b = {}" using z k unfolding in_slots_0 by blast
      then show ?thesis using \<open>set ys2 \<subseteq> set xs\<close> by (cases "k = i") auto
    qed
    then show ?thesis using h unfolding in_slots_0 by blast
  qed
  have filt: "filter (\<lambda>c. 0 < in_slots N (L(i := ys2 @ zs)) c \<or> hold c \<noteq> None) B1 = filter (\<lambda>c. 0 < in_slots N (L(i := ys2 @ zs)) c \<or> hold c \<noteq> None) B"
    "set F1 \<union> {c \<in> set B1. in_slots N (L(i := ys2 @ zs)) c = 0 \<and> hold c = None} = set F \<union> {c \<in> set B. in_slots N (L(i := ys2 @ zs)) c = 0 \<and> hold c = None}"
    if "set ys2 \<subseteq> set xs" for ys2
    using b0 [OF _ that] b(1) by (auto simp: B1_def F1_def intro!: filter_cong)
  have B1: "last ` set B1 \<subseteq> last ` set B" "last b \<in> last ` set B"
    using b(1) by (auto simp: B1_def)
  have sB: "same_nodes (last ` set B) s s1" by (rule same_nodes_mono [OF same1(1)]) (use B1(2) in simp)
  have "y \<noteq> last b" if "y \<in> set xs" for y using lasts [OF that] B1(2) by auto
  then have "walk (smr_next s1) end (smr_next s x) xs = walk (smr_next s) end (smr_next s x) xs"
    using same1(1) by (intro walk_cong) (simp add: same_nodes_def)
  with p(3) have rest: "x \<noteq> end \<Longrightarrow> walk (smr_next s1) end (smr_next s x) xs" by simp
  have all: "filter (\<lambda>c. 0 < in_slots N ?L c \<or> hold c \<noteq> None) B1 = B1"
    "{c \<in> set B1. in_slots N ?L c = 0 \<and> hold c = None} = {}"
    using smr_ginvD(10) [OF inv1] by (auto simp: filter_id_conv)
  have here: "smr_ginv hold N ?L (filter (\<lambda>c. 0 < in_slots N ?L c \<or> hold c \<noteq> None) B) F1 l1 s1"
    "set F1 = set F \<union> {c \<in> set B. in_slots N ?L c = 0 \<and> hold c = None}"
    using inv1 filt [of xs] all by simp_all
  show ?case
  proof (cases "one \<and> th \<noteq> 0 \<and> th \<le> len'")
    case True
    have "?flush L B F list s p fuel len (x # xs)"
    proof (rule exI [of _ xs], rule exI [of _ s1], rule exI [of _ l1], rule exI [of _ F1], rule exI [of _ "x \<noteq> end"],
        rule exI [of _ "smr_next s x"], rule exI [of _ f], rule exI [of _ len'], intro conjI)
      show "smr_traverse fuel lv 0 check len list th p end (s, []) =
          (case lv l1 (s1, []) of None \<Rightarrow> None
           | Some (ok, list, w) \<Rightarrow> if \<not> ok then Some (False, list, th, w)
               else if x \<noteq> end then smr_traverse f lv 0 check len' list 0 (smr_next s x) end w else Some (True, list, 0, w))"
        by (rule trans [OF step if_P [OF True]])
      show "if x \<noteq> end then walk (smr_next s1) end (smr_next s x) xs \<and> length xs < f else xs = []"
        using rest f(2) p(3) by simp
      show "set xs \<subseteq> set (x # xs)" by auto
    qed (fact here sB same1(2))+
    with True show ?thesis by blast
  next
    case no: False
    note step = step [unfolded if_not_P [OF no]]
    show ?thesis
    proof (cases "x = end")
      case True
      with p(3) have xs: "xs = []" by simp
      have "smr_traverse fuel lv 0 check len list th p end (s, []) = Some (True, l1, th, (s1, []))"
        using step True by simp
      with here [unfolded xs append_Nil] sB same1(2) show ?thesis by blast
    next
      case False
      have upd: "?L(i := v) = L(i := v)" for v by simp
      have "?done ?L B1 F1 l1 s1 (smr_next s x) f len' xs \<or> (th \<noteq> 0 \<and> ?flush ?L B1 F1 l1 s1 (smr_next s x) f len' xs)"
        by (rule Cons.IH [OF inv1 Cons.prems(2-4) _ rest [OF False] f(2)]) simp
      then show ?thesis
        unfolding upd
      proof (elim disjE)
        assume "\<exists>s' list' F'. smr_traverse f lv 0 check len' l1 th (smr_next s x) end (s1, []) = Some (True, list', th, (s', []))
          \<and> smr_ginv hold N (L(i := zs)) (filter (\<lambda>b. 0 < in_slots N (L(i := zs)) b \<or> hold b \<noteq> None) B1) F' list' s'
          \<and> set F' = set F1 \<union> {b \<in> set B1. in_slots N (L(i := zs)) b = 0 \<and> hold b = None}
          \<and> same_nodes (last ` set B1) s1 s' \<and> smr_frame s1 s'"
        then obtain s' list' F' where r: "smr_traverse f lv 0 check len' l1 th (smr_next s x) end (s1, []) = Some (True, list', th, (s', []))"
          "smr_ginv hold N (L(i := zs)) (filter (\<lambda>b. 0 < in_slots N (L(i := zs)) b \<or> hold b \<noteq> None) B1) F' list' s'"
          "set F' = set F1 \<union> {b \<in> set B1. in_slots N (L(i := zs)) b = 0 \<and> hold b = None}"
          "same_nodes (last ` set B1) s1 s'" "smr_frame s1 s'" by blast
        have "same_nodes (last ` set B) s s'" by (rule same_nodes_trans [OF sB r(4)]) (use B1 in auto)
        moreover have "smr_frame s s'" by (rule smr_frame_trans [OF same1(2) r(5)])
        moreover have "smr_traverse fuel lv 0 check len list th p end (s, []) = Some (True, list', th, (s', []))"
          using step False r(1) by simp
        moreover have "set [] \<subseteq> set xs" by simp
        note e = filt [OF this, unfolded append_Nil]
        ultimately show ?thesis using r(2,3) unfolding e by blast
      next
        assume "th \<noteq> 0 \<and> (\<exists>ys2 s2 list1 F2 go q g len1. set ys2 \<subseteq> set xs
          \<and> smr_ginv hold N (L(i := ys2 @ zs)) (filter (\<lambda>b. 0 < in_slots N (L(i := ys2 @ zs)) b \<or> hold b \<noteq> None) B1) F2 list1 s2
          \<and> set F2 = set F1 \<union> {b \<in> set B1. in_slots N (L(i := ys2 @ zs)) b = 0 \<and> hold b = None}
          \<and> same_nodes (last ` set B1) s1 s2 \<and> smr_frame s1 s2
          \<and> (if go then walk (smr_next s2) end q ys2 \<and> length ys2 < g else ys2 = [])
          \<and> smr_traverse f lv 0 check len' l1 th (smr_next s x) end (s1, []) =
              (case lv list1 (s2, []) of None \<Rightarrow> None
               | Some (ok, list, w) \<Rightarrow> if \<not> ok then Some (False, list, th, w)
                   else if go then smr_traverse g lv 0 check len1 list 0 q end w else Some (True, list, 0, w)))"
        then obtain ys2 s2 list1 F2 go q g len1 where th: "th \<noteq> 0" and r: "set ys2 \<subseteq> set xs"
          "smr_ginv hold N (L(i := ys2 @ zs)) (filter (\<lambda>b. 0 < in_slots N (L(i := ys2 @ zs)) b \<or> hold b \<noteq> None) B1) F2 list1 s2"
          "set F2 = set F1 \<union> {b \<in> set B1. in_slots N (L(i := ys2 @ zs)) b = 0 \<and> hold b = None}"
          "same_nodes (last ` set B1) s1 s2" "smr_frame s1 s2"
          "if go then walk (smr_next s2) end q ys2 \<and> length ys2 < g else ys2 = []"
          "smr_traverse f lv 0 check len' l1 th (smr_next s x) end (s1, []) =
              (case lv list1 (s2, []) of None \<Rightarrow> None
               | Some (ok, list, w) \<Rightarrow> if \<not> ok then Some (False, list, th, w)
                   else if go then smr_traverse g lv 0 check len1 list 0 q end w else Some (True, list, 0, w))"
          by (elim exE conjE) (rule that)
        have "?flush L B F list s p fuel len (x # xs)"
        proof (rule exI [of _ ys2], rule exI [of _ s2], rule exI [of _ list1], rule exI [of _ F2], rule exI [of _ go],
            rule exI [of _ q], rule exI [of _ g], rule exI [of _ len1], intro conjI)
          show "smr_traverse fuel lv 0 check len list th p end (s, []) =
            (case lv list1 (s2, []) of None \<Rightarrow> None
             | Some (ok, list, w) \<Rightarrow> if \<not> ok then Some (False, list, th, w)
                 else if go then smr_traverse g lv 0 check len1 list 0 q end w else Some (True, list, 0, w))"
            using step r(7) unfolding if_P [OF False] by (rule trans)
          show "same_nodes (last ` set B) s s2" by (rule same_nodes_trans [OF sB r(4)]) (use B1 in auto)
          show "smr_frame s s2" by (rule smr_frame_trans [OF same1(2) r(5)])
          show "set ys2 \<subseteq> set (x # xs)" using r(1) by auto
          show "smr_ginv hold N (L(i := ys2 @ zs)) (filter (\<lambda>b. 0 < in_slots N (L(i := ys2 @ zs)) b \<or> hold b \<noteq> None) B) F2 list1 s2"
            using r(2) unfolding filt(1) [OF r(1)] .
          show "set F2 = set F \<union> {b \<in> set B. in_slots N (L(i := ys2 @ zs)) b = 0 \<and> hold b = None}"
            using r(3) unfolding filt(2) [OF r(1)] .
        qed (fact r(6))
        with th show ?thesis by blast
      qed
    qed
  qed
qed

lemma smr_gtraverse_run:
  assumes "smr_ginv hold N L B F list s" "i < N" "N < 2 ^ 64" "\<forall>x. check x"
    "walk (smr_next s) end p (L i)" "length (L i) < fuel"
  shows "\<exists>s' list' F'. smr_traverse fuel lv 0 check len list 0 p end (s, []) = Some (True, list', 0, (s', []))
    \<and> smr_ginv hold N (L(i := [])) (filter (\<lambda>b. 0 < in_slots N (L(i := [])) b \<or> hold b \<noteq> None) B) F' list' s'
    \<and> set F' = set F \<union> {b \<in> set B. in_slots N (L(i := [])) b = 0 \<and> hold b = None}
    \<and> same_nodes (last ` set B) s s' \<and> smr_frame s s'"
  using smr_gflush_run [OF assms(1-4) _ assms(5,6), of "[]" lv len 0] by simp

text \<open>\<open>adjust_refs\<close> on a batch that something still refers to, or from which the last reference
  goes.\<close>

lemma smr_adjust_run:
  assumes inv: "smr_ginv hold N L B F list s" and c: "c \<in> set B" "x \<in> set (butlast c)"
    and others: "\<And>d. d \<in> set B \<Longrightarrow> d \<noteq> c \<Longrightarrow> in_slots N L' d = in_slots N L d \<and> hold' d = hold d"
    and wf: "\<And>i. i < N \<Longrightarrow> distinct (L' i)" "\<And>i x. i < N \<Longrightarrow> x \<in> set (L' i) \<Longrightarrow> \<exists>b \<in> set B. x \<in> set (butlast b)"
      "\<And>i b x y. i < N \<Longrightarrow> b \<in> set B \<Longrightarrow> x \<in> set (L' i) \<Longrightarrow> y \<in> set (L' i) \<Longrightarrow> x \<in> set b \<Longrightarrow> y \<in> set b \<Longrightarrow> x = y"
    and cnt: "of_nat (in_slots N L c) + held (hold c) + v = of_nat (in_slots N L' c) + held (hold' c)"
    and live: "0 < in_slots N L' c \<or> hold' c \<noteq> None \<Longrightarrow>
      stays (hold' c) (in_slots N L' c) \<and> of_nat (in_slots N L' c) + held (hold' c) \<noteq> 0"
  shows "\<exists>s' list' F'. smr_adjust_refs list x v 0 (s, []) = (list', (s', []))
    \<and> smr_ginv hold' N L' (filter (\<lambda>d. 0 < in_slots N L' d \<or> hold' d \<noteq> None) B) F' list' s'
    \<and> set F' = set F \<union> {d \<in> set B. in_slots N L' d = 0 \<and> hold' d = None}
    \<and> (0 < in_slots N L' c \<or> hold' c \<noteq> None \<longrightarrow> list' = list)
    \<and> same_nodes {last c} s s' \<and> smr_frame s s'"
proof -
  note I = smr_ginvD [OF inv]
  let ?s1 = "smr_set_refs (last c) (smr_refs s (last c) + v) s" let ?s2 = "smr_set_next (last c) list ?s1"
  have lnk: "smr_link s x = last c" using I(8) [OF c(1)] c(2) by (simp add: batch_ok_def)
  have new: "smr_refs s (last c) + v = of_nat (in_slots N L' c) + held (hold' c)" using I(9) [OF c(1)] cnt by simp
  have run: "smr_adjust_refs list x v 0 (s, []) =
      (if smr_refs s (last c) + v = 0 then (last c, (?s2, [])) else (list, (?s1, [])))"
    using lnk by (simp add: smr_adjust_refs_def smr_addr_def smr_fetch_add_alone own_alone Let_def
        eq_neg_iff_add_eq_0)
  have same: "same_nodes {last c} s ?s1" "same_nodes {last c} s ?s2" "smr_frame s ?s1" "smr_frame s ?s2"
    by (simp_all add: same_nodes_def smr_frame_def smr_set_refs_def smr_set_next_def)
  have oth: "0 < in_slots N L' d \<or> hold' d \<noteq> None" if "d \<in> set B" "d \<noteq> c" for d
    using others [OF that] I(10) [OF that(1)] by simp
  have change1: "smr_ginv hold' N L' B F list ?s1"
    if "0 < in_slots N L' c \<or> hold' c \<noteq> None" "stays (hold' c) (in_slots N L' c)"
    by (rule smr_ginv_change(1) [where L' = L' and hold' = hold', OF inv c(1) others wf cnt that])
  have change2: "smr_ginv hold' N L' (filter (\<lambda>d. d \<noteq> c) B) (c # F) (last c) ?s2"
    if "in_slots N L' c = 0" "hold' c = None"
    by (rule smr_ginv_change(2) [where L' = L' and hold' = hold', OF inv c(1) others wf cnt that])
  show ?thesis
  proof (cases "0 < in_slots N L' c \<or> hold' c \<noteq> None")
    case True
    then have ginv: "smr_ginv hold' N L' B F list ?s1" using change1 live by blast
    have B: "filter (\<lambda>d. 0 < in_slots N L' d \<or> hold' d \<noteq> None) B = B"
      using oth True by (auto simp: filter_id_conv)
    show ?thesis
    proof (intro exI conjI)
      show "smr_adjust_refs list x v 0 (s, []) = (list, (?s1, []))" using run new live True by simp
      show "smr_ginv hold' N L' (filter (\<lambda>d. 0 < in_slots N L' d \<or> hold' d \<noteq> None) B) F list ?s1"
        unfolding B by (rule ginv)
      show "set F = set F \<union> {d \<in> set B. in_slots N L' d = 0 \<and> hold' d = None}"
        using oth True by fastforce
    qed (use same in simp_all)
  next
    case False
    then have z: "in_slots N L' c = 0" "hold' c = None" by simp_all
    have "smr_ginv hold' N L' (filter (\<lambda>d. d \<noteq> c) B) (c # F) (last c) ?s2" by (rule change2 [OF z])
    moreover have "filter (\<lambda>d. 0 < in_slots N L' d \<or> hold' d \<noteq> None) B = filter (\<lambda>d. d \<noteq> c) B"
      using oth z by (intro filter_cong) auto
    moreover have "{d \<in> set B. in_slots N L' d = 0 \<and> hold' d = None} = {c}" using oth z c(1) by fastforce
    moreover have "smr_adjust_refs list x v 0 (s, []) = (last c, (?s2, []))" using run new z by simp
    ultimately show ?thesis using same(2,4) z
      by (intro exI [of _ ?s2] exI [of _ "last c"] exI [of _ "c # F"]) simp
  qed
qed

text \<open>What the callback leaves alone.\<close>

abbreviation smr_kept :: "'a smr_scheme \<Rightarrow> nat \<times> bool \<times> (ptr \<Rightarrow> ptr) \<times> 'a" where
  "smr_kept s \<equiv> (task_num s, count_retired s, cells s, smr.more s)"

section \<open>What the invariant depends on\<close>

lemma smr_ginv_same:
  assumes inv: "smr_ginv hold N L B F list s" and X: "same_nodes X s s'" "X \<inter> set (concat B @ concat F) = {}"
    and h: "\<And>b. b \<in> set B \<Longrightarrow> hold' b = hold b"
  shows "smr_ginv hold' N L B F list s'"
proof -
  note I = smr_ginvD [OF inv]
  have "batch_ok s' b \<and> smr_refs s' (last b) = of_nat (in_slots N L b) + held (hold' b)
      \<and> (0 < in_slots N L b \<or> hold' b \<noteq> None) \<and> stays (hold' b) (in_slots N L b)"
    if b: "b \<in> set B" for b
  proof -
    have d: "X \<inter> set b = {}" using X(2) b by auto
    moreover have "last b \<in> set b" using batch_ok_nonempty [OF I(8) [OF b]] by simp
    ultimately have "last b \<notin> X" by auto
    then show ?thesis using batch_ok_same [OF X(1) d I(8) [OF b]] I(9,10,12) [OF b] X(1) h [OF b]
      by (simp add: same_nodes_def)
  qed
  moreover have "pend s' list F" by (rule pend_same [OF X(1) _ I(11)]) (use X(2) in auto)
  ultimately show ?thesis using inv unfolding smr_ginv_def by blast
qed

lemma smr_ginv_forget: "smr_ginv hold N L B F list s \<Longrightarrow> smr_ginv hold N L B [] 0 s"
  by (auto simp: smr_ginv_def)

lemma gslot_length:
  assumes "smr_ginv hold N L B F list s" "i < N"
  shows "length (L i) \<le> length (concat B)"
proof -
  have "set (L i) \<subseteq> set (concat B)"
    using smr_ginvD(6) [OF assms] gslot_node(1) [OF assms(1)] by blast
  then have "card (set (L i)) \<le> card (set (concat B))" by (simp add: card_mono)
  with smr_ginvD(5) [OF assms] show ?thesis
    by (metis card_length distinct_card le_trans)
qed

lemma batch_lasts: "smr_ginv hold N L B F list s \<Longrightarrow> last ` set B \<subseteq> set (concat B)"
proof
  fix y assume inv: "smr_ginv hold N L B F list s" and "y \<in> last ` set B"
  then obtain b where b: "b \<in> set B" "y = last b" by blast
  then have "y \<in> set b" using batch_ok_nonempty [OF smr_ginvD(8) [OF inv b(1)]] by simp
  with b(1) show "y \<in> set (concat B)" by auto
qed

lemma smr_frame_kept: "smr_frame s s' \<Longrightarrow> smr_kept s' = smr_kept s \<and> reclaimed s' = reclaimed s"
proof -
  assume "smr_frame s s'"
  then obtain a b where "s' = s\<lparr>smr_next := a, smr_refs := b\<rparr>" unfolding smr_frame_def by blast
  then show ?thesis by simp
qed

text \<open>The batches that stay and the batches that go.\<close>

lemma mset_concat_split:
  assumes "distinct (concat B)" "distinct (concat F)" "set F = {b \<in> set B. \<not> P b}"
  shows "mset (concat B) = mset (concat (filter P B)) + mset (concat F)"
proof -
  have "set (concat (filter P B)) \<inter> set (concat F) = {}"
  proof -
    { fix x assume "x \<in> set (concat (filter P B))" "x \<in> set (concat F)"
      then obtain b c where "b \<in> set B" "P b" "x \<in> set b" "c \<in> set B" "\<not> P c" "x \<in> set c"
        using assms(3) by auto
      with distinct_concat_eq [OF assms(1), of b c x] have False by simp }
    then show ?thesis by blast
  qed
  moreover have "set (concat B) = set (concat (filter P B)) \<union> set (concat F)" using assms(3) by auto
  ultimately show ?thesis
    using set_eq_iff_mset_eq_distinct [OF assms(1), of "concat (filter P B) @ concat F"] assms(2)
      distinct_concat_filter [OF assms(1)] by simp
qed

section \<open>Counters without other references\<close>

text \<open>The invariant where the counter of a batch is the number of slots that refer to it.\<close>

definition smr_inv :: "nat \<Rightarrow> (nat \<Rightarrow> ptr list) \<Rightarrow> ptr list list \<Rightarrow> ptr list list \<Rightarrow> u64 \<Rightarrow> 'a smr_scheme \<Rightarrow> bool" where
  "smr_inv = smr_ginv (\<lambda>b. None)"

lemma smr_inv_eq:
  "smr_inv N L B F list s \<longleftrightarrow> distinct (concat B @ concat F) \<and> 0 \<notin> set (concat B @ concat F)
     \<and> (\<forall>i<N. distinct (L i))
     \<and> (\<forall>i<N. \<forall>x \<in> set (L i). \<exists>b \<in> set B. x \<in> set (butlast b))
     \<and> (\<forall>i<N. \<forall>b \<in> set B. \<forall>x \<in> set (L i). \<forall>y \<in> set (L i). x \<in> set b \<longrightarrow> y \<in> set b \<longrightarrow> x = y)
     \<and> (\<forall>b \<in> set B. batch_ok s b \<and> smr_refs s (last b) = of_nat (in_slots N L b) \<and> 0 < in_slots N L b)
     \<and> pend s list F"
  by (simp add: smr_inv_def smr_ginv_def)

lemma smr_invD:
  assumes "smr_inv N L B F list s"
  shows "distinct (concat B)" "distinct (concat F)" "y \<in> set (concat B) \<Longrightarrow> y \<noteq> 0 \<and> y \<notin> set (concat F)"
    "y \<in> set (concat F) \<Longrightarrow> y \<noteq> 0" "i < N \<Longrightarrow> distinct (L i)"
    "i < N \<Longrightarrow> x \<in> set (L i) \<Longrightarrow> \<exists>b \<in> set B. x \<in> set (butlast b)"
    "i < N \<Longrightarrow> b \<in> set B \<Longrightarrow> x \<in> set (L i) \<Longrightarrow> y \<in> set (L i) \<Longrightarrow> x \<in> set b \<Longrightarrow> y \<in> set b \<Longrightarrow> x = y"
    "b \<in> set B \<Longrightarrow> batch_ok s b" "b \<in> set B \<Longrightarrow> smr_refs s (last b) = of_nat (in_slots N L b)"
    "b \<in> set B \<Longrightarrow> 0 < in_slots N L b" "pend s list F"
  using smr_ginvD [OF assms [unfolded smr_inv_def]] by (blast | simp)+

lemma smr_traverse_run:
  assumes "smr_inv N L B F list s" "i < N" "N < 2 ^ 64" "\<forall>x. check x"
    "walk (smr_next s) end p (L i)" "length (L i) < fuel"
  shows "\<exists>s' list' F'. smr_traverse fuel lv 0 check len list 0 p end (s, []) = Some (True, list', 0, (s', []))
    \<and> smr_inv N (L(i := [])) (filter (\<lambda>b. 0 < in_slots N (L(i := [])) b) B) F' list' s'
    \<and> set F' = set F \<union> {b \<in> set B. in_slots N (L(i := [])) b = 0}
    \<and> same_nodes (last ` set B) s s' \<and> smr_frame s s'"
  using smr_gtraverse_run [OF assms(1) [unfolded smr_inv_def] assms(2-6), of lv len]
  unfolding smr_inv_def by simp

section \<open>Open batches\<close>

text \<open>The batch a thread is filling, with room for \<open>m\<close> nodes; \<open>xs\<close> lists its nodes.\<close>

definition open_ok :: "'a smr_scheme \<Rightarrow> smr_batch \<Rightarrow> nat \<Rightarrow> ptr list \<Rightarrow> bool" where
  "open_ok s bt m xs \<longleftrightarrow> xs = [] \<and> batch_first bt = 0 \<and> batch_counter bt = 0
     \<or> xs \<noteq> [] \<and> batch_first bt = hd xs \<and> batch_last bt = last xs \<and> batch_counter bt = of_nat (length xs)
       \<and> length xs < m \<and> batch_links (smr_refs s) xs \<and> smr_refs s (last xs) = 0
       \<and> (\<forall>x \<in> set (butlast xs). smr_link s x = last xs)"

lemma open_ok_same:
  assumes "same_nodes X s s'" "X \<inter> set xs = {}" "open_ok s bt m xs"
  shows "open_ok s' bt m xs"
proof (cases "xs = []")
  case False
  have same: "smr_refs s' x = smr_refs s x" "smr_link s' x = smr_link s x" if "x \<in> set xs" for x
  proof -
    have "x \<notin> X" using assms(2) that by auto
    then show "smr_refs s' x = smr_refs s x" "smr_link s' x = smr_link s x"
      using assms(1) by (simp_all add: same_nodes_def)
  qed
  have "batch_links (smr_refs s') xs = batch_links (smr_refs s) xs"
    using same(1) by (intro batch_links_cong) (auto dest: in_set_butlastD)
  moreover have "smr_link s' x = smr_link s x" if "x \<in> set (butlast xs)" for x
    using same(2) [OF in_set_butlastD [OF that]] .
  ultimately show ?thesis using False assms(3) same(1) by (simp add: open_ok_def)
qed (use assms(3) in \<open>simp add: open_ok_def\<close>)

definition smr_add_node :: "ptr \<Rightarrow> ptr list \<Rightarrow> 'a smr_scheme \<Rightarrow> 'a smr_scheme" where
  "smr_add_node x xs s = smr_set_refs x (if xs = [] then 0 else hd xs)
     (if xs = [] then s else smr_set_link x (last xs) s)"

definition smr_close :: "ptr list \<Rightarrow> 'a smr_scheme \<Rightarrow> 'a smr_scheme" where
  "smr_close b s = smr_set_link (last b) (hd b) s"

lemma smr_add_node_same: "same_nodes {x} s (smr_add_node x xs s)"
  by (simp add: same_nodes_def smr_add_node_def smr_set_refs_def smr_set_link_def)

lemma smr_close_same: "b \<noteq> [] \<Longrightarrow> same_nodes (set b) s (smr_close b s)"
  by (auto simp: same_nodes_def smr_close_def smr_set_link_def)

lemma smr_add_node_fields:
  "smr_next (smr_add_node x xs s) = smr_next s" "reclaimed (smr_add_node x xs s) = reclaimed s"
  "smr_kept (smr_add_node x xs s) = smr_kept s"
  "smr_next (smr_close b s) = smr_next s" "reclaimed (smr_close b s) = reclaimed s"
  "smr_kept (smr_close b s) = smr_kept s"
  by (simp_all add: smr_add_node_def smr_close_def smr_set_refs_def smr_set_link_def)

definition smr_batch_add :: "ptr \<Rightarrow> ptr list \<Rightarrow> smr_batch \<Rightarrow> smr_batch" where
  "smr_batch_add x xs bt = \<lparr>batch_first = x, batch_last = last (x # xs), batch_counter = batch_counter bt + 1\<rparr>"

text \<open>\<open>retire\<close>: the node joins the open batch; a full batch is closed and handed over.\<close>

lemma smr_retire_run:
  assumes op: "open_ok s bt m xs" and nz: "\<forall>y \<in> set xs. y \<noteq> 0" and m: "0 < m" "m < 2 ^ 64"
  shows "smr_retire rt order x 0 bt (of_nat m) (s, []) =
     (if m \<le> Suc (length xs)
      then case rt order x (smr_close (x # xs) (smr_add_node x xs s), []) of None \<Rightarrow> None
           | Some (ok, w) \<Rightarrow> if \<not> ok then Some (False, smr_batch_add x xs bt, w)
                            else Some (True, smr_batch_init (smr_batch_add x xs bt), w)
      else Some (True, smr_batch_add x xs bt, (smr_add_node x xs s, [])))"
proof -
  have c: "batch_counter bt = of_nat (length xs)" "length xs < m"
    using op m(1) by (auto simp: open_ok_def)
  have le: "(of_nat m :: u64) \<le> of_nat (length xs) + 1 \<longleftrightarrow> m \<le> Suc (length xs)"
  proof -
    have "unat (of_nat m :: u64) = m" "unat (of_nat (Suc (length xs)) :: u64) = Suc (length xs)"
      using m(2) c(2) by (simp_all only: unat_of_nat) (simp_all add: take_bit_nat_eq_self unsigned_of_nat)
    then show ?thesis by (metis add.commute of_nat_Suc word_le_nat_alt)
  qed
  have f: "batch_first bt = (if xs = [] then 0 else hd xs)" "batch_first bt = 0 \<longleftrightarrow> xs = []"
    "xs \<noteq> [] \<Longrightarrow> batch_last bt = last xs"
    using op nz by (auto simp: open_ok_def)
  show ?thesis
  proof (cases "xs = []")
    case True
    have "smr_batch_add x [] bt = bt\<lparr>batch_last := x, batch_first := x, batch_counter := 1\<rparr>"
      using True c(1) by (cases bt) (simp add: smr_batch_add_def)
    with True show ?thesis using f(1,2) c(1) le
      by (simp add: smr_retire_def own_alone smr_addr_def smr_add_node_def smr_close_def Let_def
          split: option.split)
  next
    case False
    have e: "smr_batch_add x xs bt = bt\<lparr>batch_first := x, batch_counter := of_nat (length xs) + 1\<rparr>"
      using False f(3) c(1) by (cases bt) (simp add: smr_batch_add_def)
    with False show ?thesis using f(1) f(2) f(3) [OF False] e le c(1)
      unfolding smr_retire_def smr_addr_def smr_add_node_def smr_close_def
      by (simp add: own_alone Let_def split: option.split)
  qed
qed

lemma smr_add_node_links:
  assumes op: "open_ok s bt m xs" and x: "x \<notin> set xs"
  shows "batch_links (smr_refs (smr_add_node x xs s)) (x # xs)"
    "smr_refs (smr_add_node x xs s) (last (x # xs)) = 0"
    "\<forall>y \<in> set (butlast (x # xs)). smr_link (smr_add_node x xs s) y = last (x # xs)"
proof -
  let ?s = "smr_add_node x xs s"
  have new: "smr_refs ?s x = (if xs = [] then 0 else hd xs)" "xs \<noteq> [] \<Longrightarrow> smr_link ?s x = last xs"
    by (simp_all add: smr_add_node_def smr_set_refs_def smr_set_link_def)
  have old: "smr_refs ?s y = smr_refs s y" "smr_link ?s y = smr_link s y" if "y \<noteq> x" for y
    using that smr_add_node_same [of x s xs] by (simp_all add: same_nodes_def)
  show "batch_links (smr_refs ?s) (x # xs)"
  proof (cases xs)
    case (Cons y ys)
    have "batch_links (smr_refs ?s) xs = batch_links (smr_refs s) xs"
      using old(1) x by (intro batch_links_cong) (metis in_set_butlastD)
    with Cons op new show ?thesis by (simp add: open_ok_def)
  qed simp
  show "smr_refs ?s (last (x # xs)) = 0"
  proof (cases "xs = []")
    case False
    then have "last xs \<noteq> x" using x by (metis last_in_set)
    with False old op show ?thesis by (simp add: open_ok_def)
  qed (use new(1) in simp)
  show "\<forall>y \<in> set (butlast (x # xs)). smr_link ?s y = last (x # xs)"
  proof (cases "xs = []")
    case False
    have "smr_link ?s y = last xs" if "y \<in> set (butlast xs)" for y
      using old(2) [of y] that x op False by (metis in_set_butlastD open_ok_def)
    with False new(2) show ?thesis by simp
  qed simp
qed

lemma smr_add_node_open:
  assumes "open_ok s bt m xs" "x \<notin> set xs" "Suc (length xs) < m"
  shows "open_ok (smr_add_node x xs s) (smr_batch_add x xs bt) m (x # xs)"
proof -
  have "batch_counter bt = of_nat (length xs)" using assms(1) by (auto simp: open_ok_def)
  with smr_add_node_links [OF assms(1,2)] assms(3) show ?thesis
    unfolding open_ok_def smr_batch_add_def by simp
qed

lemma smr_close_ok:
  assumes "open_ok s bt m xs" "distinct (x # xs)" "xs \<noteq> []"
  shows "batch_ok (smr_close (x # xs) (smr_add_node x xs s)) (x # xs)"
    "smr_refs (smr_close (x # xs) (smr_add_node x xs s)) (last (x # xs)) = 0"
proof -
  let ?s = "smr_add_node x xs s" let ?b = "x # xs"
  have l: "smr_refs (smr_close ?b ?s) = smr_refs ?s" "smr_link (smr_close ?b ?s) = (smr_link ?s)(last ?b := hd ?b)"
    by (simp_all add: smr_close_def smr_set_link_def)
  note k = smr_add_node_links [OF assms(1), of x]
  have "y \<noteq> last ?b" if "y \<in> set (butlast ?b)" for y by (rule last_not_butlast [OF assms(2) that])
  moreover have "2 \<le> length ?b" using assms(3) by (cases xs) auto
  ultimately show "batch_ok (smr_close ?b ?s) ?b"
    using k assms(2) unfolding batch_ok_def l by (simp del: last.simps butlast.simps)
  show "smr_refs (smr_close ?b ?s) (last ?b) = 0" using k(2) assms(2) unfolding l by simp
qed

end
