(* ===== verification/One_Slot.thy ===== *)
theory One_Slot
  imports Smr_Inv
begin

text \<open>
  The libraries with one slot per thread (\<open>lfsmr_cas1.h\<close>, \<open>lfbsmr_cas1.h\<close>), one operation at a time.
  The locale \<open>one_slot\<close> is what the two have in common: \<open>head\<close> is the word of a slot, \<open>wants s j e\<close>
  says whether slot \<open>j\<close> is offered a batch with the smallest birth epoch \<open>e\<close>, \<open>rest\<close> is the part of
  the state that no operation here writes.  \<open>leave\<close> frees exactly the batches that no other slot
  refers to, \<open>retire\<close> hands a batch to every slot that takes it and frees it at once if there is none,
  \<open>trim\<close> keeps the first node of the slot as the new handle, or leaves and enters again when it has
  collected enough.  \<open>H i\<close> is the handle of slot \<open>i\<close>.
\<close>

section \<open>Heads\<close>

lemma and_or_one: "(x OR 1) AND 1 = (1 :: 64 word)" "(x :: 64 word) AND 1 = 0 \<Longrightarrow> (x OR 1) AND NOT 1 = x"
proof -
  show "(x OR 1) AND 1 = (1 :: 64 word)"
    by (rule bit_word_eqI) (auto simp: bit_and_iff bit_or_iff)
  assume x: "x AND 1 = 0"
  have "\<not> bit x 0"
  proof
    assume "bit x 0"
    then have "bit (x AND 1) 0" by (simp add: bit_and_iff)
    with x show False by simp
  qed
  then show "(x OR 1) AND NOT 1 = x"
    by (intro bit_word_eqI) (auto simp: bit_and_iff bit_or_iff bit_not_iff bit_1_iff intro: gr0I)
qed

definition one_slot_list :: "(ptr \<Rightarrow> u64) \<Rightarrow> u64 \<Rightarrow> u64 \<Rightarrow> ptr list \<Rightarrow> bool" where
  "one_slot_list nx h H xs \<longleftrightarrow> h = 0 \<and> xs = []
     \<or> h AND 1 \<noteq> 0 \<and> walk nx H (h AND NOT 1) xs \<and> (H = 0 \<or> H \<in> set xs)"

lemma one_slot_list_cong: "\<forall>x \<in> set xs. nx' x = nx x \<Longrightarrow> one_slot_list nx' h H xs = one_slot_list nx h H xs"
  using walk_cong [of xs nx' nx] by (simp add: one_slot_list_def)

lemma one_slot_list_idle: "one_slot_list nx h H xs \<Longrightarrow> h AND 1 = 0 \<longleftrightarrow> h = 0"
  by (auto simp: one_slot_list_def)

lemma smr_inv_same:
  "smr_inv N L B F list s \<Longrightarrow> same_nodes X s s' \<Longrightarrow> X \<inter> set (concat B @ concat F) = {} \<Longrightarrow> smr_inv N L B F list s'"
  unfolding smr_inv_def by (rule smr_ginv_same) simp_all

lemma smr_inv_forget: "smr_inv N L B F list s \<Longrightarrow> smr_inv N L B [] 0 s"
  unfolding smr_inv_def by (rule smr_ginv_forget)

lemma slot_node:
  assumes "smr_inv N L B F list s" "i < N" "x \<in> set (L i)"
  shows "x \<in> set (concat B)" "x \<notin> last ` set B" "x \<notin> set (concat F)"
proof -
  obtain b where b: "b \<in> set B" "x \<in> set (butlast b)" using smr_invD(6) [OF assms] by blast
  show "x \<in> set (concat B)" "x \<notin> last ` set B" "x \<notin> set (concat F)"
    using gslot_node(1,2,3) [OF assms(1) [unfolded smr_inv_def] b] by blast+
qed

lemma slot_length: "smr_inv N L B F list s \<Longrightarrow> i < N \<Longrightarrow> length (L i) \<le> length (concat B)"
  unfolding smr_inv_def by (rule gslot_length)

text \<open>The effect on one slot.\<close>

lemma one_slot_list_push:
  assumes "one_slot_list nx h H xs" "h AND 1 \<noteq> 0" "x \<notin> set xs" "x \<noteq> 0" "x AND 1 = 0"
  shows "one_slot_list (nx(x := h AND NOT 1)) (x OR 1) H (x # xs)"
proof -
  have w: "walk nx H (h AND NOT 1) xs" "H = 0 \<or> H \<in> set xs" using assms(1,2) by (auto simp: one_slot_list_def)
  have "walk (nx(x := h AND NOT 1)) H (h AND NOT 1) xs"
    using w(1) assms(3) walk_cong [of xs "nx(x := h AND NOT 1)" nx] by fastforce
  moreover have "x \<noteq> H" using w(2) assms(3,4) by auto
  ultimately show ?thesis using assms(4,5) w(2) and_or_one [of x] by (simp add: one_slot_list_def)
qed

text \<open>A new batch \<open>b\<close> is handed to the slots \<open>tk\<close>, a node to each, and its counter set to their number.\<close>

lemma smr_inv_hand:
  assumes inv0: "smr_inv N L B [] 0 s"
    and b: "batch_ok s b" "distinct b" "set b \<inter> set (concat B) = {}" "0 \<notin> set b"
    and L': "\<And>k. if k < N \<and> tk k then \<exists>x \<in> set (butlast b). L' k = x # L k else L' k = L k"
    and some: "\<exists>k<N. tk k"
    and same: "same_nodes (set b) s s'" "smr_link s' = smr_link s"
      "smr_refs s' = (smr_refs s)(last b := of_nat (length (filter tk [0..<N])))"
  shows "smr_inv N L' (b # B) [] 0 s'"
proof -
  note I = smr_invD [OF inv0]
  have LB: "set (L k) \<inter> set b = {}" if "k < N" for k using slot_node(1) [OF inv0 that] b(3) by blast
  have bb: "set (butlast b) \<subseteq> set b" by (auto dest: in_set_butlastD)
  have blast_ne: "x \<in> set (butlast b) \<Longrightarrow> x \<noteq> last b" for x by (rule last_not_butlast [OF b(2)])
  have cb: "in_slots N L' b = length (filter tk [0..<N])"
    unfolding in_slots_def
  proof (rule arg_cong [where f = length], rule filter_cong)
    fix k assume "k \<in> set [0..<N]"
    then have "k < N" by simp
    with L' [of k] LB [of k] bb show "(set (L' k) \<inter> set b \<noteq> {}) = tk k" by (auto split: if_splits)
  qed simp
  have pos: "0 < length (filter tk [0..<N])" using some by (auto simp: filter_empty_conv)
  have cc: "in_slots N L' c = in_slots N L c" if "c \<in> set B" for c
  proof (rule in_slots_other, intro allI impI)
    fix k assume "k < N"
    have "set b \<inter> set c = {}" using b(3) that by auto
    then have "set (butlast b) \<inter> set c = {}" using bb by blast
    with L' [of k] show "set (L' k) \<inter> set c = {} \<longleftrightarrow> set (L k) \<inter> set c = {}" by (auto split: if_splits)
  qed
  have okb: "batch_ok s' b"
  proof -
    have "batch_links (smr_refs s') b = batch_links (smr_refs s) b"
      using blast_ne same(3) by (intro batch_links_cong) simp
    with b(1) same(2) show ?thesis by (simp add: batch_ok_def)
  qed
  have oks: "batch_ok s' c \<and> smr_refs s' (last c) = of_nat (in_slots N L' c) \<and> 0 < in_slots N L' c"
    if c: "c \<in> set (b # B)" for c
  proof (cases "c = b")
    case True
    then show ?thesis using okb cb pos same(3) by simp
  next
    case c': False
    then have cB: "c \<in> set B" using c by simp
    have d: "set b \<inter> set c = {}" using b(3) cB by auto
    have "last c \<in> set c" using batch_ok_nonempty [OF I(8) [OF cB]] by simp
    then have "last c \<notin> set b" using d by auto
    then show ?thesis using batch_ok_same [OF same(1) d I(8) [OF cB]] I(9,10) [OF cB] cc [OF cB] same(1)
      by (simp add: same_nodes_def)
  qed
  have "distinct (L' k)" if "k < N" for k
    using L' [of k] I(5) [OF that] LB [OF that] bb that by (auto split: if_splits)
  moreover have "\<exists>c \<in> set (b # B). x \<in> set (butlast c)" if "k < N" "x \<in> set (L' k)" for k x
    using L' [of k] I(6) [OF that(1), of x] that by (auto split: if_splits)
  moreover have "x = y" if k: "k < N" and c: "c \<in> set (b # B)"
    and xy: "x \<in> set (L' k)" "y \<in> set (L' k)" "x \<in> set c" "y \<in> set c" for k c x y
  proof (cases "c = b")
    case True
    then show ?thesis using L' [of k] LB [OF k] xy by (auto split: if_splits)
  next
    case False
    then have cB: "c \<in> set B" using c by simp
    have "set b \<inter> set c = {}" using b(3) cB by auto
    then have "x \<in> set (L k)" "y \<in> set (L k)" using L' [of k] xy bb by (auto split: if_splits)
    with I(7) [OF k cB] xy(3,4) show ?thesis by blast
  qed
  moreover have "distinct (concat (b # B) @ concat [])" "0 \<notin> set (concat (b # B) @ concat [])"
    using I(1,3) b(2,3,4) by auto
  ultimately show ?thesis using oks unfolding smr_inv_eq by simp
qed

section \<open>Visits\<close>

lemma smr_inv_perm:
  assumes "smr_inv N L B F list s" "\<And>k. k < N \<Longrightarrow> set (L' k) = set (L k) \<and> distinct (L' k)"
  shows "smr_inv N L' B F list s" "in_slots N L' b = in_slots N L b"
proof -
  show c: "in_slots N L' b = in_slots N L b" for b by (rule in_slots_other) (use assms(2) in simp)
  show "smr_inv N L' B F list s" using assms unfolding smr_inv_eq c by simp
qed

text \<open>What a running operation has done to the batches \<open>B\<close> of the state \<open>s0\<close>: some nodes have been
  visited, \<open>L\<close> is left, and the batches to which nothing refers any more are on the local list.\<close>

definition visited :: "nat \<Rightarrow> ptr list list \<Rightarrow> 'a smr_scheme \<Rightarrow> (nat \<Rightarrow> ptr list) \<Rightarrow> ptr list list \<Rightarrow> u64
    \<Rightarrow> 'a smr_scheme \<Rightarrow> bool" where
  "visited N B s0 L F list s \<longleftrightarrow> smr_inv N L (filter (\<lambda>b. 0 < in_slots N L b) B) F list s
     \<and> set F = {b \<in> set B. in_slots N L b = 0} \<and> same_nodes (last ` set B) s0 s"

lemma visitedD:
  assumes "visited N B s0 L F list s"
  shows "smr_inv N L (filter (\<lambda>b. 0 < in_slots N L b) B) F list s"
    "set F = {b \<in> set B. in_slots N L b = 0}" "same_nodes (last ` set B) s0 s"
  using assms unfolding visited_def by blast+

lemma visited_start:
  assumes "smr_inv N L B [] 0 s"
  shows "visited N B s L [] 0 s"
proof -
  have "filter (\<lambda>b. 0 < in_slots N L b) B = B" "{b \<in> set B. in_slots N L b = 0} = {}"
    using smr_invD(10) [OF assms] by (auto simp: filter_id_conv)
  with assms show ?thesis by (simp add: visited_def)
qed

lemma visited_perm:
  assumes "visited N B s0 L F list s" "\<And>k. k < N \<Longrightarrow> set (L' k) = set (L k) \<and> distinct (L' k)"
  shows "visited N B s0 L' F list s"
  using visitedD [OF assms(1)] smr_inv_perm [OF visitedD(1) [OF assms(1)] assms(2)]
  unfolding visited_def by simp

lemma visited_same: "visited N B s0 L F list s \<Longrightarrow> same_nodes {} s s' \<Longrightarrow> visited N B s0 L F list s'"
  using smr_inv_same [of N L _ F list s "{}" s'] same_nodes_trans [of "last ` set B" s0 s "{}" s' "last ` set B"]
  unfolding visited_def by auto

lemma visited_trans:
  assumes "visited N B s0 L F list s"
    "smr_inv N L' (filter (\<lambda>b. 0 < in_slots N L' b) (filter (\<lambda>b. 0 < in_slots N L b) B)) F' list' s'"
    "set F' = set F \<union> {b \<in> set (filter (\<lambda>b. 0 < in_slots N L b) B). in_slots N L' b = 0}"
    "same_nodes (last ` set (filter (\<lambda>b. 0 < in_slots N L b) B)) s s'"
    "\<And>k. k < N \<Longrightarrow> set (L' k) \<subseteq> set (L k)"
  shows "visited N B s0 L' F' list' s'"
proof -
  note V = visitedD [OF assms(1)]
  have dead: "in_slots N L' b = 0" if "in_slots N L b = 0" for b
    unfolding in_slots_0
  proof (intro allI impI)
    fix k assume k: "k < N"
    then have "set (L k) \<inter> set b = {}" using that unfolding in_slots_0 by blast
    with assms(5) [OF k] show "set (L' k) \<inter> set b = {}" by blast
  qed
  have "filter (\<lambda>b. 0 < in_slots N L' b) (filter (\<lambda>b. 0 < in_slots N L b) B) = filter (\<lambda>b. 0 < in_slots N L' b) B"
    unfolding filter_filter by (rule filter_cong) (use dead in \<open>auto intro!: gr0I\<close>)
  moreover have "set F' = {b \<in> set B. in_slots N L' b = 0}" using assms(3) V(2) dead by auto
  moreover have "same_nodes (last ` set B) s0 s'"
    by (rule same_nodes_trans [OF V(3) assms(4)]) auto
  ultimately show ?thesis using assms(2) by (simp add: visited_def)
qed

text \<open>A traversal of the nodes \<open>ys\<close> of slot \<open>i\<close>, of which \<open>zs\<close> stay, with or without a call of
  \<open>lv\<close> on the way.\<close>

lemma visited_flush:
  assumes v: "visited N B s0 L F list s" and i: "i < N" "N < 2 ^ 64" and ck: "\<forall>x. check x"
    and L: "set (L i) = set (ys @ zs)" "distinct (ys @ zs)"
    and w: "walk (smr_next s) end p ys" "length ys < fuel"
  shows "(\<exists>s' list' F'. smr_traverse fuel lv 0 check len list th p end (s, []) = Some (True, list', th, (s', []))
      \<and> visited N B s0 (L(i := zs)) F' list' s' \<and> smr_frame s s')
    \<or> (th \<noteq> 0 \<and> (\<exists>ys2 s1 list1 F1 go q f len1. set ys2 \<subseteq> set ys \<and> distinct (ys2 @ zs)
      \<and> visited N B s0 (L(i := ys2 @ zs)) F1 list1 s1 \<and> smr_frame s s1
      \<and> (if go then walk (smr_next s1) end q ys2 \<and> length ys2 < f else ys2 = [])
      \<and> smr_traverse fuel lv 0 check len list th p end (s, []) =
          (case lv list1 (s1, []) of None \<Rightarrow> None
           | Some (ok, list, w) \<Rightarrow> if \<not> ok then Some (False, list, th, w)
               else if go then smr_traverse f lv 0 check len1 list 0 q end w else Some (True, list, 0, w))))"
proof -
  let ?L = "L(i := ys @ zs)" let ?B = "filter (\<lambda>b. 0 < in_slots N ?L b) B"
  have v': "visited N B s0 ?L F list s"
    by (rule visited_perm [OF v]) (use L smr_invD(5) [OF visitedD(1) [OF v]] in auto)
  note V = visitedD [OF v']
  have upd: "?L(i := xs) = L(i := xs)" for xs by simp
  have sub: "set (?L k) \<supseteq> set ((L(i := zs)) k)" "set xs \<subseteq> set ys \<Longrightarrow> set ((L(i := xs @ zs)) k) \<subseteq> set (?L k)"
    for k xs by auto
  note run = smr_gflush_run [OF V(1) [unfolded smr_inv_def] i ck _ w, of zs lv len th, unfolded upd]
  have "?L i = ys @ zs" by simp
  from run [OF this] show ?thesis
  proof (elim disjE)
    assume "\<exists>s' list' F'. smr_traverse fuel lv 0 check len list th p end (s, []) = Some (True, list', th, (s', []))
      \<and> smr_ginv (\<lambda>b. None) N (L(i := zs)) (filter (\<lambda>b. 0 < in_slots N (L(i := zs)) b \<or> None \<noteq> (None :: u64 option)) ?B) F' list' s'
      \<and> set F' = set F \<union> {b \<in> set ?B. in_slots N (L(i := zs)) b = 0 \<and> None = (None :: u64 option)}
      \<and> same_nodes (last ` set ?B) s s' \<and> smr_frame s s'"
    then obtain s' list' F' where r: "smr_traverse fuel lv 0 check len list th p end (s, []) = Some (True, list', th, (s', []))"
      "smr_ginv (\<lambda>b. None) N (L(i := zs)) (filter (\<lambda>b. 0 < in_slots N (L(i := zs)) b \<or> None \<noteq> (None :: u64 option)) ?B) F' list' s'"
      "set F' = set F \<union> {b \<in> set ?B. in_slots N (L(i := zs)) b = 0 \<and> None = (None :: u64 option)}"
      "same_nodes (last ` set ?B) s s'" "smr_frame s s'" by blast
    have "visited N B s0 (L(i := zs)) F' list' s'"
      by (rule visited_trans [OF v' _ _ r(4)]) (use r(2,3) sub(1) in \<open>simp_all add: smr_inv_def\<close>)
    with r(1,5) show ?thesis by blast
  next
    assume "th \<noteq> 0 \<and> (\<exists>ys2 s1 list1 F1 go q f len1. set ys2 \<subseteq> set ys
      \<and> smr_ginv (\<lambda>b. None) N (L(i := ys2 @ zs)) (filter (\<lambda>b. 0 < in_slots N (L(i := ys2 @ zs)) b \<or> None \<noteq> (None :: u64 option)) ?B) F1 list1 s1
      \<and> set F1 = set F \<union> {b \<in> set ?B. in_slots N (L(i := ys2 @ zs)) b = 0 \<and> None = (None :: u64 option)}
      \<and> same_nodes (last ` set ?B) s s1 \<and> smr_frame s s1
      \<and> (if go then walk (smr_next s1) end q ys2 \<and> length ys2 < f else ys2 = [])
      \<and> smr_traverse fuel lv 0 check len list th p end (s, []) =
          (case lv list1 (s1, []) of None \<Rightarrow> None
           | Some (ok, list, w) \<Rightarrow> if \<not> ok then Some (False, list, th, w)
               else if go then smr_traverse f lv 0 check len1 list 0 q end w else Some (True, list, 0, w)))"
    then obtain ys2 s1 list1 F1 go q f len1 where r: "th \<noteq> 0" "set ys2 \<subseteq> set ys"
      "smr_ginv (\<lambda>b. None) N (L(i := ys2 @ zs)) (filter (\<lambda>b. 0 < in_slots N (L(i := ys2 @ zs)) b \<or> None \<noteq> (None :: u64 option)) ?B) F1 list1 s1"
      "set F1 = set F \<union> {b \<in> set ?B. in_slots N (L(i := ys2 @ zs)) b = 0 \<and> None = (None :: u64 option)}"
      "same_nodes (last ` set ?B) s s1" "smr_frame s s1"
      "if go then walk (smr_next s1) end q ys2 \<and> length ys2 < f else ys2 = []"
      "smr_traverse fuel lv 0 check len list th p end (s, []) =
          (case lv list1 (s1, []) of None \<Rightarrow> None
           | Some (ok, list, w) \<Rightarrow> if \<not> ok then Some (False, list, th, w)
               else if go then smr_traverse f lv 0 check len1 list 0 q end w else Some (True, list, 0, w))"
      by (elim exE conjE) (rule that)
    have v1: "visited N B s0 (L(i := ys2 @ zs)) F1 list1 s1"
      by (rule visited_trans [OF v' _ _ r(5)]) (use r(3,4) sub(2) [OF r(2)] in \<open>simp_all add: smr_inv_def\<close>)
    have "distinct (ys2 @ zs)" using smr_invD(5) [OF visitedD(1) [OF v1] i(1)] by simp
    show ?thesis
    proof (rule disjI2, rule conjI [OF r(1)], rule exI [of _ ys2], rule exI [of _ s1], rule exI [of _ list1],
        rule exI [of _ F1], rule exI [of _ go], rule exI [of _ q], rule exI [of _ f], rule exI [of _ len1], intro conjI)
    qed (fact r(2,6,7,8) v1 \<open>distinct (ys2 @ zs)\<close>)+
  qed
qed

lemma visited_traverse:
  assumes "visited N B s0 L F list s" "i < N" "N < 2 ^ 64" "\<forall>x. check x"
    "set (L i) = set (ys @ zs)" "distinct (ys @ zs)" "walk (smr_next s) end p ys" "length ys < fuel"
  shows "\<exists>s' list' F'. smr_traverse fuel lv 0 check len list 0 p end (s, []) = Some (True, list', 0, (s', []))
      \<and> visited N B s0 (L(i := zs)) F' list' s' \<and> smr_frame s s'"
  using visited_flush [OF assms, of lv len 0] by simp

lemma visited_next:
  assumes inv: "smr_inv N L0 B [] 0 s0" and v: "visited N B s0 L F list s" and k: "k < N" "x \<in> set (L k)" "set (L k) \<subseteq> set (L0 k)"
  shows "smr_next s x = smr_next s0 x" "x \<notin> set (concat F)"
  using slot_node(2) [OF inv k(1), of x] slot_node(3) [OF visitedD(1) [OF v] k(1,2)] k visitedD(3) [OF v]
  by (auto simp: same_nodes_def)

section \<open>The contract\<close>

locale one_slot = smr_callback fr obj V smr_kept
  for fr :: "ptr \<Rightarrow> 'a smr_scheme \<Rightarrow> 'a smr_scheme" and obj :: "ptr \<Rightarrow> ptr" and V :: "ptr \<Rightarrow> bool" +
  fixes head :: "'a smr_scheme \<Rightarrow> nat \<Rightarrow> u64"
    and put_head :: "nat \<Rightarrow> u64 \<Rightarrow> 'a smr_scheme \<Rightarrow> 'a smr_scheme"
    and rest :: "'a smr_scheme \<Rightarrow> 'r"
    and wants :: "'a smr_scheme \<Rightarrow> nat \<Rightarrow> u64 \<Rightarrow> bool"
    and leave_list :: "nat \<Rightarrow> nat \<Rightarrow> (ptr \<Rightarrow> bool) \<Rightarrow> u64 \<Rightarrow> u64 \<Rightarrow> 'a smr_scheme world
      \<Rightarrow> (bool \<times> u64 \<times> 'a smr_scheme world) option"
    and slots :: "nat \<Rightarrow> u64 \<Rightarrow> nat list \<Rightarrow> u64 \<Rightarrow> u64 \<Rightarrow> 'a smr_scheme world \<Rightarrow> (u64 \<times> 'a smr_scheme world) option"
  assumes put_head: "smr_next (put_head i v s) = smr_next s \<and> smr_link (put_head i v s) = smr_link s
      \<and> smr_refs (put_head i v s) = smr_refs s \<and> reclaimed (put_head i v s) = reclaimed s
      \<and> head (put_head i v s) = (head s)(i := v) \<and> rest (put_head i v s) = rest s"
    and kept: "smr_kept s' = smr_kept s \<Longrightarrow> head s' = head s \<and> rest s' = rest s"
    and wants_rest: "rest s' = rest s \<Longrightarrow> wants s' = wants s"
    and leave_list: "leave_list fuel i check H list (s, []) =
      (let cur = head s i AND NOT 1; s1 = put_head i 0 s
       in if cur \<noteq> 0
          then map_option (\<lambda>(ok, list, threshold, w). (ok, list, w))
                 (smr_traverse fuel (\<lambda>_ _. None) 0 check 0 list 0 cur H (s1, []))
          else Some (True, list, (s1, [])))"
    and slots_Nil: "slots fuel e [] cur adjs (s, []) = Some (adjs, (s, []))"
    and slots_Cons: "slots (Suc fuel) e (j # js) cur adjs (s, []) =
      (if wants s j e \<and> head s j AND 1 \<noteq> 0
       then let s1 = put_head j (cur OR 1) (smr_set_next cur (head s j AND NOT 1) s)
            in slots (Suc fuel) e js (smr_refs s cur) (adjs + 1) (s1, [])
       else slots (Suc fuel) e js cur adjs (s, []))"

context one_slot begin

definition inv :: "nat \<Rightarrow> (nat \<Rightarrow> ptr list) \<Rightarrow> ptr list list \<Rightarrow> (nat \<Rightarrow> u64) \<Rightarrow> 'a smr_scheme \<Rightarrow> bool" where
  "inv N L B H s \<longleftrightarrow> smr_inv N L B [] 0 s
     \<and> (\<forall>i<N. one_slot_list (smr_next s) (head s i) (H i) (L i))"

abbreviation active :: "'a smr_scheme \<Rightarrow> nat \<Rightarrow> bool" where
  "active s k \<equiv> head s k AND 1 \<noteq> 0"

abbreviation takes :: "u64 \<Rightarrow> 'a smr_scheme \<Rightarrow> nat \<Rightarrow> bool" where
  "takes e s k \<equiv> wants s k e \<and> active s k"

lemma node: "head (smr_set_next x v s) = head s" "rest (smr_set_next x v s) = rest s"
  "head (smr_set_refs x v s) = head s" "rest (smr_set_refs x v s) = rest s"
  using kept [of "smr_set_next x v s" s] kept [of "smr_set_refs x v s" s]
  by (simp_all add: smr_set_next_def smr_set_refs_def)

section \<open>Handing a batch to the slots that take it\<close>

definition frame :: "'a smr_scheme \<Rightarrow> 'a smr_scheme \<Rightarrow> bool" where
  "frame s s' \<longleftrightarrow> smr_refs s' = smr_refs s \<and> smr_link s' = smr_link s \<and> reclaimed s' = reclaimed s \<and> rest s' = rest s"

lemma slots_run:
  assumes "\<forall>k<N. one_slot_list (smr_next s) (head s k) (H k) (L k)" "set js \<subseteq> {..<N}" "distinct js"
    "batch_links (smr_refs s) bs" "distinct bs" "length (filter (takes e s) js) < length bs"
    "\<forall>k<N. set (L k) \<inter> set bs = {}" "\<forall>x \<in> set bs. x \<noteq> 0 \<and> x AND 1 = 0"
  shows "\<exists>s' L'. slots (Suc fuel) e js (hd bs) adjs (s, [])
        = Some (adjs + of_nat (length (filter (takes e s) js)), (s', []))
     \<and> (\<forall>k<N. one_slot_list (smr_next s') (head s' k) (H k) (L' k))
     \<and> (\<forall>k. if k \<in> set js \<and> takes e s k then \<exists>x \<in> set (butlast bs). L' k = x # L k else L' k = L k)
     \<and> (\<forall>k. active s' k = active s k)
     \<and> same_nodes (set (butlast bs)) s s' \<and> frame s s'"
  using assms
proof (induction js arbitrary: s L bs adjs)
  case Nil
  then show ?case by (intro exI [of _ s] exI [of _ L]) (simp add: frame_def slots_Nil)
next
  case (Cons j js)
  show ?case
  proof (cases "takes e s j")
    case False
    have "\<exists>s' L'. slots (Suc fuel) e js (hd bs) adjs (s, [])
        = Some (adjs + of_nat (length (filter (takes e s) js)), (s', []))
     \<and> (\<forall>k<N. one_slot_list (smr_next s') (head s' k) (H k) (L' k))
     \<and> (\<forall>k. if k \<in> set js \<and> takes e s k then \<exists>x \<in> set (butlast bs). L' k = x # L k else L' k = L k)
     \<and> (\<forall>k. active s' k = active s k)
     \<and> same_nodes (set (butlast bs)) s s' \<and> frame s s'"
      by (rule Cons.IH) (use Cons.prems False in auto)
    then obtain s' L' where r: "slots (Suc fuel) e js (hd bs) adjs (s, [])
        = Some (adjs + of_nat (length (filter (takes e s) js)), (s', []))"
      "\<forall>k<N. one_slot_list (smr_next s') (head s' k) (H k) (L' k)"
      "\<forall>k. if k \<in> set js \<and> takes e s k then \<exists>x \<in> set (butlast bs). L' k = x # L k else L' k = L k"
      "\<forall>k. active s' k = active s k" "same_nodes (set (butlast bs)) s s'" "frame s s'"
      by blast
    have "slots (Suc fuel) e (j # js) (hd bs) adjs (s, []) = slots (Suc fuel) e js (hd bs) adjs (s, [])"
      using False unfolding slots_Cons by (rule if_not_P)
    moreover have "filter (takes e s) (j # js) = filter (takes e s) js" using False by simp
    moreover have "if k \<in> set (j # js) \<and> takes e s k then \<exists>x \<in> set (butlast bs). L' k = x # L k else L' k = L k" for k
      using r(3) [rule_format, of k] False by (cases "k = j") auto
    ultimately show ?thesis using r(1,2,4,5,6)
      by (intro exI [of _ s'] exI [of _ L']) simp
  next
    case True
    then obtain x y r where bs: "bs = x # y # r"
      using Cons.prems(6) by (cases bs; cases "tl bs") auto
    let ?s = "put_head j (x OR 1) (smr_set_next x (head s j AND NOT 1) s)"
    let ?L = "L(j := x # L j)"
    have x: "x \<noteq> 0" "x AND 1 = 0" "\<And>k. k < N \<Longrightarrow> x \<notin> set (L k)" "smr_refs s x = y"
      using Cons.prems(4,7,8) bs by auto
    have eq: "smr_next ?s = (smr_next s)(x := head s j AND NOT 1)" "head ?s = (head s)(j := x OR 1)"
      "smr_refs ?s = smr_refs s" "smr_link ?s = smr_link s" "reclaimed ?s = reclaimed s" "rest ?s = rest s"
      using put_head [of j "x OR 1" "smr_set_next x (head s j AND NOT 1) s"] node(1,2) [of x "head s j AND NOT 1" s]
      by (simp_all add: smr_set_next_def)
    have act: "active ?s k = active s k" for k
      using True and_or_one(1) [of x] unfolding eq(2) by simp
    note wn = wants_rest [OF eq(6)]
    have tk: "takes e ?s = takes e s" using act wn by simp
    have j: "j < N" "j \<notin> set js" using Cons.prems(2,3) by auto
    have "one_slot_list (smr_next ?s) (head ?s k) (H k) (?L k)" if k: "k < N" for k
    proof (cases "k = j")
      case True': True
      show ?thesis using one_slot_list_push [OF Cons.prems(1) [rule_format, OF k] _ x(3) [OF k] x(1,2)] True True'
        unfolding eq by simp
    next
      case False
      show ?thesis using Cons.prems(1) k False one_slot_list_cong [of "L k" "smr_next ?s" "smr_next s"] x(3) [OF k]
        unfolding eq by auto
    qed
    moreover have "length (filter (takes e ?s) js) < length (y # r)"
      using Cons.prems(6) True unfolding tk bs by simp
    moreover have "\<forall>k<N. set (?L k) \<inter> set (y # r) = {}"
      using Cons.prems(5,7) unfolding bs by auto
    ultimately have "\<exists>s' L'. slots (Suc fuel) e js (hd (y # r)) (adjs + 1) (?s, [])
        = Some (adjs + 1 + of_nat (length (filter (takes e ?s) js)), (s', []))
     \<and> (\<forall>k<N. one_slot_list (smr_next s') (head s' k) (H k) (L' k))
     \<and> (\<forall>k. if k \<in> set js \<and> takes e ?s k then \<exists>x \<in> set (butlast (y # r)). L' k = x # ?L k else L' k = ?L k)
     \<and> (\<forall>k. active s' k = active ?s k)
     \<and> same_nodes (set (butlast (y # r))) ?s s' \<and> frame ?s s'"
      by (intro Cons.IH) (use Cons.prems bs eq(3) in auto)
    then obtain s' L' where r: "slots (Suc fuel) e js y (adjs + 1) (?s, [])
        = Some (adjs + 1 + of_nat (length (filter (takes e s) js)), (s', []))"
      "\<forall>k<N. one_slot_list (smr_next s') (head s' k) (H k) (L' k)"
      "\<forall>k. if k \<in> set js \<and> takes e s k then \<exists>x \<in> set (butlast (y # r)). L' k = x # ?L k else L' k = ?L k"
      "\<forall>k. active s' k = active s k"
      "same_nodes (set (butlast (y # r))) ?s s'" "frame ?s s'"
      unfolding act wn list.sel by blast
    have "slots (Suc fuel) e (j # js) x adjs (s, []) = slots (Suc fuel) e js y (adjs + 1) (?s, [])"
      by (simp only: slots_Cons [of fuel e j js] if_P [OF True] Let_def x(4))
    then have run: "slots (Suc fuel) e (j # js) (hd bs) adjs (s, [])
        = Some (adjs + of_nat (length (filter (takes e s) (j # js))), (s', []))"
      using r(1) True bs by (simp add: algebra_simps)
    have nodes: "same_nodes (set (butlast bs)) s s'"
    proof (rule same_nodes_trans [OF _ r(5)])
      show "same_nodes {x} s ?s" unfolding same_nodes_def eq by simp
    qed (use bs in auto)
    have frame: "frame s s'" using r(6) unfolding frame_def eq .
    have "if k \<in> set (j # js) \<and> takes e s k then \<exists>x \<in> set (butlast bs). L' k = x # L k else L' k = L k" for k
      using r(3) [rule_format, of k] j(2) True bs by (cases "k = j") auto
    with run r(2,4) nodes frame show ?thesis by blast
  qed
qed

text \<open>The end of an operation: the local list is freed.\<close>

lemma visited_free:
  assumes inv: "smr_inv N L0 B [] 0 s0" and v: "visited N B s0 L F list s" and L: "\<And>k. k < N \<Longrightarrow> set (L k) \<subseteq> set (L0 k)"
    and fuel: "length (concat B) < fuel" and V: "\<forall>x \<in> set (concat B). V x"
  shows "\<exists>s'. smr_free_list fuel list fr 0 (s, []) = Some (s', []) \<and> reclaimed s' = reclaimed s @ map obj (concat F)
    \<and> smr_kept s' = smr_kept s \<and> same_nodes (set (concat B)) s0 s'
    \<and> smr_inv N L (filter (\<lambda>b. 0 < in_slots N L b) B) [] 0 s' \<and> distinct (concat F)
    \<and> (\<forall>k<N. \<forall>x \<in> set (L k). smr_next s' x = smr_next s0 x)"
proof -
  note W = visitedD [OF v] note I = smr_invD [OF W(1)]
  have sub: "set (concat F) \<subseteq> set (concat B)" using W(2) by auto
  have "length (concat F) \<le> length (concat B)"
    using card_mono [OF _ sub] distinct_card [OF I(2)] card_length [of "concat B"] by simp
  then obtain s' where f: "smr_free_list fuel list fr 0 (s, []) = Some (s', [])"
    "reclaimed s' = reclaimed s @ map obj (concat F)" "smr_kept s' = smr_kept s"
    "same_nodes (set (concat F)) s s'"
    using free_list_run [OF I(11) I(2), of fuel] fuel V sub by fastforce
  have lasts: "last ` set B \<subseteq> set (concat B)" by (rule batch_lasts [OF inv [unfolded smr_inv_def]])
  have same: "same_nodes (set (concat B)) s0 s'" by (rule same_nodes_trans [OF W(3) f(4)]) (use lasts sub in auto)
  have inv': "smr_inv N L (filter (\<lambda>b. 0 < in_slots N L b) B) [] 0 s'"
    by (rule smr_inv_same [OF smr_inv_forget [OF W(1)] f(4)]) (use I(3) in auto)
  have "smr_next s' x = smr_next s0 x" if "k < N" "x \<in> set (L k)" for k x
    using visited_next [OF inv v that L [OF that(1)]] f(4) by (simp add: same_nodes_def)
  with f(1-3) same inv' I(2) show ?thesis by (intro exI [of _ s']) simp
qed

section \<open>Leaving a slot\<close>

text \<open>\<open>__leave\<close>, also in the middle of a traversal by \<open>trim\<close>.\<close>

lemma leave_visit:
  assumes v: "visited N B s0 L F list s" and i: "i < N" "N < 2 ^ 64" and ck: "\<forall>x. check x"
    and L: "set (L i) = set (ys @ zs)" "distinct (ys @ zs)"
    and w: "walk (smr_next s) h (head s i AND NOT 1) ys" "length ys < fuel"
  shows "\<exists>s' list' F'. leave_list fuel i check h list (s, []) = Some (True, list', (s', []))
    \<and> visited N B s0 (L(i := zs)) F' list' s' \<and> smr_frame (put_head i 0 s) s'"
proof -
  let ?s = "put_head i 0 s"
  have v': "visited N B s0 L F list ?s"
    by (rule visited_same [OF v]) (use put_head [of i 0 s] in \<open>simp add: same_nodes_def\<close>)
  show ?thesis
  proof (cases "head s i AND NOT 1 = 0")
    case True
    have "ys = []" using w(1) True by (cases ys) auto
    then have "visited N B s0 (L(i := zs)) F list ?s"
      by (intro visited_perm [OF v']) (use L smr_invD(5) [OF visitedD(1) [OF v]] in auto)
    with True show ?thesis unfolding leave_list by (intro exI [of _ ?s] exI [of _ list] exI [of _ F]) simp
  next
    case False
    have "walk (smr_next ?s) h (head s i AND NOT 1) ys" using w(1) put_head [of i 0 s] by simp
    from visited_traverse [OF v' i ck L this w(2), of "\<lambda>_ _. None" 0] obtain s' list' F' where
      "smr_traverse fuel (\<lambda>_ _. None) 0 check 0 list 0 (head s i AND NOT 1) h (?s, []) = Some (True, list', 0, (s', []))"
      "visited N B s0 (L(i := zs)) F' list' s'" "smr_frame ?s s'" by blast
    with False show ?thesis unfolding leave_list Let_def by auto
  qed
qed

text \<open>What stays of the heads and of the rest of the state.\<close>

lemma frame_head: "smr_frame s s' \<Longrightarrow> head s' = head s \<and> rest s' = rest s \<and> reclaimed s' = reclaimed s"
  using smr_frame_kept kept by blast

lemma inv_heads:
  assumes "smr_inv N L' B' [] 0 s'" "\<And>k. k < N \<Longrightarrow> \<forall>x \<in> set (L' k). smr_next s' x = smr_next s x"
    "\<And>k. k < N \<Longrightarrow> one_slot_list (smr_next s) (head s' k) (H' k) (L' k)"
  shows "inv N L' B' H' s'"
  using assms(1,3) one_slot_list_cong [OF assms(2)] unfolding inv_def by blast

lemma leave_run:
  assumes inv: "inv N L B H s" and i: "i < N" "N < 2 ^ 64" and ck: "\<forall>x. check x"
    and fuel: "length (concat B) < fuel" and V: "\<forall>x \<in> set (concat B). V x"
  shows "\<exists>s' F. smr_leave fuel (leave_list fuel i check (H i)) fr 0 (s, []) = Some (True, (s', []))
    \<and> inv N (L(i := [])) (filter (\<lambda>b. 0 < in_slots N (L(i := [])) b) B) H s'
    \<and> set F = {b \<in> set B. in_slots N (L(i := [])) b = 0} \<and> distinct (concat F)
    \<and> reclaimed s' = reclaimed s @ map obj (concat F)
    \<and> same_nodes (set (concat B)) s s' \<and> head s' = (head s)(i := 0) \<and> rest s' = rest s"
proof -
  let ?L = "L(i := [])"
  have inv0: "smr_inv N L B [] 0 s" and sl: "\<And>k. k < N \<Longrightarrow> one_slot_list (smr_next s) (head s k) (H k) (L k)"
    using inv by (auto simp: inv_def)
  have w: "walk (smr_next s) (H i) (head s i AND NOT 1) (L i)" "length (L i) < fuel"
    using sl [OF i(1)] slot_length [OF inv0 i(1)] fuel by (auto simp: one_slot_list_def)
  obtain s1 list F where r: "leave_list fuel i check (H i) 0 (s, []) = Some (True, list, (s1, []))"
    "visited N B s ?L F list s1" "smr_frame (put_head i 0 s) s1"
    using leave_visit [OF visited_start [OF inv0] i ck _ _ w, of "[]"] smr_invD(5) [OF inv0 i(1)] by auto
  have sub: "set (?L k) \<subseteq> set (L k)" for k by simp
  obtain s2 where f: "smr_free_list fuel list fr 0 (s1, []) = Some (s2, [])"
    "reclaimed s2 = reclaimed s1 @ map obj (concat F)" "smr_kept s2 = smr_kept s1" "same_nodes (set (concat B)) s s2"
    "smr_inv N ?L (filter (\<lambda>b. 0 < in_slots N ?L b) B) [] 0 s2" "distinct (concat F)"
    "\<forall>k<N. \<forall>x \<in> set (?L k). smr_next s2 x = smr_next s x"
    using visited_free [OF inv0 r(2) sub fuel V] by blast
  have h: "head s2 = (head s)(i := 0)" "rest s2 = rest s" "reclaimed s1 = reclaimed s"
    using frame_head [OF r(3)] kept [OF f(3)] put_head [of i 0 s] by simp_all
  have "inv N ?L (filter (\<lambda>b. 0 < in_slots N ?L b) B) H s2"
    by (rule inv_heads [OF f(5)]) (use f(7) sl h(1) in \<open>auto simp: one_slot_list_def\<close>)
  then show ?thesis using r(1) f(1,2,4,6) h visitedD(2) [OF r(2)]
    by (intro exI [of _ s2] exI [of _ F]) (simp add: smr_leave_def)
qed

section \<open>Retiring a batch\<close>

definition retire_batch :: "nat \<Rightarrow> u64 \<Rightarrow> nat \<Rightarrow> u64 \<Rightarrow> 'a smr_scheme world \<Rightarrow> (bool \<times> 'a smr_scheme world) option" where
  "retire_batch fuel e order first w =
     (case slots fuel e [0..<2 ^ order] first 0 w of None \<Rightarrow> None
      | Some (adjs, w) \<Rightarrow>
          let (list, w) = smr_adjust_refs 0 first adjs 0 w
          in map_option (\<lambda>w. (True, w)) (smr_free_list fuel list fr 0 w))"

text \<open>The batch \<open>b\<close> is new: its nodes are not in use, its counter is 0, and it has more nodes than
  there are slots that take it.\<close>

lemma retire_run:
  assumes inv: "inv N L B H s" and N: "N = 2 ^ order" "N < 2 ^ 64"
    and b: "batch_ok s b" "smr_refs s (last b) = 0" "distinct b" "set b \<inter> set (concat B) = {}"
      "\<forall>x \<in> set b. x \<noteq> 0 \<and> x AND 1 = 0" "length (filter (takes e s) [0..<N]) < length b"
    and fuel: "length b < fuel" and V: "\<forall>x \<in> set b. V x"
  shows "\<exists>s' L'. retire_batch fuel e order (hd b) (s, []) = Some (True, (s', []))
     \<and> same_nodes (set b) s s' \<and> (\<forall>k. active s' k = active s k)
     \<and> rest s' = rest s
     \<and> (if \<exists>k<N. takes e s k
        then reclaimed s' = reclaimed s \<and> inv N L' (b # B) H s'
           \<and> (\<forall>k<N. if takes e s k then \<exists>x \<in> set (butlast b). L' k = x # L k else L' k = L k)
        else reclaimed s' = reclaimed s @ map obj b \<and> inv N L B H s')"
proof -
  have inv0: "smr_inv N L B [] 0 s" and sl: "\<forall>k<N. one_slot_list (smr_next s) (head s k) (H k) (L k)"
    using inv by (auto simp: inv_def)
  note I = smr_invD [OF inv0]
  let ?n = "length (filter (takes e s) [0..<N])"
  obtain f where f: "fuel = Suc f" using fuel by (cases fuel) auto
  have bl: "2 \<le> length b" "batch_links (smr_refs s) b" using b(1) by (auto simp: batch_ok_def)
  have LB: "set (L k) \<inter> set b = {}" if "k < N" for k
    using slot_node(1) [OF inv0 that] b(4) by blast
  have "\<exists>s' L'. slots (Suc f) e [0..<N] (hd b) 0 (s, []) = Some (0 + of_nat ?n, (s', []))
     \<and> (\<forall>k<N. one_slot_list (smr_next s') (head s' k) (H k) (L' k))
     \<and> (\<forall>k. if k \<in> set [0..<N] \<and> takes e s k then \<exists>x \<in> set (butlast b). L' k = x # L k else L' k = L k)
     \<and> (\<forall>k. active s' k = active s k) \<and> same_nodes (set (butlast b)) s s' \<and> frame s s'"
    by (rule slots_run) (use sl bl b LB in auto)
  then obtain s1 L' where r: "slots fuel e [0..<N] (hd b) 0 (s, []) = Some (of_nat ?n, (s1, []))"
    "\<forall>k<N. one_slot_list (smr_next s1) (head s1 k) (H k) (L' k)"
    "\<And>k. if k < N \<and> takes e s k then \<exists>x \<in> set (butlast b). L' k = x # L k else L' k = L k"
    "\<And>k. active s1 k = active s k" "same_nodes (set (butlast b)) s s1" "frame s s1"
    unfolding f by auto
  note fr1 = r(6) [unfolded frame_def, THEN conjunct1] r(6) [unfolded frame_def, THEN conjunct2, THEN conjunct1]
    r(6) [unfolded frame_def, THEN conjunct2, THEN conjunct2, THEN conjunct1]
    r(6) [unfolded frame_def, THEN conjunct2, THEN conjunct2, THEN conjunct2]
  have ne: "b \<noteq> []" "hd b \<in> set (butlast b)" "last b \<in> set b"
    using bl(1) by (cases b; auto split: if_splits)+
  have lnk: "smr_link s1 (hd b) = last b" using b(1) ne(2) fr1(2) by (simp add: batch_ok_def)
  have refs0: "smr_refs s1 (last b) = 0" using b(2) fr1(1) by simp
  have nN: "?n \<le> N" using length_filter_le [of "takes e s" "[0..<N]"] by simp
  have zero: "(of_nat ?n :: u64) = 0 \<longleftrightarrow> ?n = 0" using of_nat_eq_small [of ?n 0] nN N(2) by simp
  have act: "?n = 0 \<longleftrightarrow> \<not> (\<exists>k<N. takes e s k)" by (auto simp: filter_empty_conv)
  have bb: "set (butlast b) \<subseteq> set b" by (auto dest: in_set_butlastD)
  have blast_ne: "x \<in> set (butlast b) \<Longrightarrow> x \<noteq> last b" for x by (rule last_not_butlast [OF b(3)])
  show ?thesis
  proof (cases "?n = 0")
    case False
    let ?s = "smr_set_refs (last b) (of_nat ?n) s1"
    have run: "retire_batch fuel e order (hd b) (s, []) = Some (True, (?s, []))"
      using r(1) N(1) lnk refs0 zero False f
      by (simp add: retire_batch_def smr_adjust_refs_def smr_addr_def smr_fetch_add_alone own_alone Let_def)
    have same: "same_nodes (set b) s ?s"
      by (rule same_nodes_trans [OF r(5), of "{last b}"])
        (use ne bb in \<open>auto simp: same_nodes_def smr_set_refs_def\<close>)
    have fld: "smr_next ?s = smr_next s1" "head ?s = head s1" "smr_link ?s = smr_link s"
      "reclaimed ?s = reclaimed s" "rest ?s = rest s"
      unfolding node fr1 [symmetric] by (simp_all add: smr_set_refs_def)
    have ex: "\<exists>k<N. takes e s k" using act False by blast
    have "smr_inv N L' (b # B) [] 0 ?s"
      by (rule smr_inv_hand [where tk = "takes e s", OF inv0 b(1,3,4) _ r(3) ex same fld(3)])
        (use b(5) fr1(1) in \<open>auto simp: smr_set_refs_def\<close>)
    then have I': "inv N L' (b # B) H ?s" using r(2) fld by (simp add: inv_def)
    show ?thesis
    proof (intro exI [of _ ?s] exI [of _ L'] conjI)
      show "\<forall>k. active ?s k = active s k" using r(4) unfolding fld(2) by blast
      show "if \<exists>k<N. takes e s k
        then reclaimed ?s = reclaimed s \<and> inv N L' (b # B) H ?s
           \<and> (\<forall>k<N. if takes e s k then \<exists>x \<in> set (butlast b). L' k = x # L k else L' k = L k)
        else reclaimed ?s = reclaimed s @ map obj b \<and> inv N L B H ?s"
        using ex I' fld(4) r(3) by (simp only: if_True) metis
    qed (fact run same fld)+
  next
    case True
    let ?s = "smr_set_next (last b) 0 (smr_set_refs (last b) 0 s1)"
    have adj: "smr_adjust_refs 0 (hd b) (of_nat ?n) 0 (s1, []) = (last b, (?s, []))"
      using lnk refs0 True by (simp add: smr_adjust_refs_def smr_addr_def smr_fetch_add_alone own_alone Let_def)
    have same: "same_nodes (set b) s ?s"
      by (rule same_nodes_trans [OF r(5), of "{last b}"])
        (use ne bb in \<open>auto simp: same_nodes_def smr_set_refs_def smr_set_next_def\<close>)
    have fld: "head ?s = head s1" "reclaimed ?s = reclaimed s" "smr_link ?s = smr_link s"
      "smr_refs ?s = (smr_refs s)(last b := 0)" "smr_next ?s (last b) = 0" "rest ?s = rest s"
      "smr_next ?s = (smr_next s1)(last b := 0)"
      unfolding node fr1 [symmetric] by (simp_all add: smr_set_refs_def smr_set_next_def)
    have "batch_links (smr_refs ?s) b" using bl(2) batch_links_cong [of b "smr_refs ?s" "smr_refs s"] blast_ne
      unfolding fld(4) by auto
    then have "chain (smr_refs ?s) (hd b) b"
      using batch_links_chain [of "smr_refs ?s" b] ne(1) b(5) unfolding fld(4) by auto
    then have "pend ?s (last b) [b]"
      using b(1,5) ne fld by (simp add: batch_ok_def)
    then obtain s3 where s3: "smr_free_list fuel (last b) fr 0 (?s, []) = Some (s3, [])"
      "reclaimed s3 = reclaimed ?s @ map obj (concat [b])" "smr_kept s3 = smr_kept ?s"
      "same_nodes (set (concat [b])) ?s s3"
      using free_list_run [of ?s "last b" "[b]" fuel] b(3) fuel V by auto
    have run: "retire_batch fuel e order (hd b) (s, []) = Some (True, (s3, []))"
      using r(1) N(1) adj s3(1) by (simp add: retire_batch_def)
    have same3: "same_nodes (set b) s s3" by (rule same_nodes_trans [OF same s3(4)]) simp
    have head: "head s3 = head s1" using kept [OF s3(3)] fld(1) by simp
    have act0: "\<not> (\<exists>k<N. takes e s k)" using act True by simp
    have L: "L' k = L k" if "k < N" for k using r(3) [of k] act0 that by auto
    have inv3: "smr_inv N L B [] 0 s3" by (rule smr_inv_same [OF inv0 same3]) (use b(4) in auto)
    have "one_slot_list (smr_next s3) (head s3 k) (H k) (L k)" if k: "k < N" for k
    proof -
      have "smr_next s3 x = smr_next s1 x" if x: "x \<in> set (L k)" for x
      proof -
        have xb: "x \<notin> set b" using LB [OF k] x by blast
        then have "smr_next s3 x = smr_next ?s x" using s3(4) by (simp add: same_nodes_def)
        moreover have "x \<noteq> last b" using xb ne(3) by blast
        ultimately show ?thesis unfolding fld(7) by simp
      qed
      then have "one_slot_list (smr_next s3) (head s3 k) (H k) (L k) = one_slot_list (smr_next s1) (head s3 k) (H k) (L k)"
        by (intro one_slot_list_cong) blast
      with r(2) [rule_format, OF k] show ?thesis unfolding head L [OF k] by simp
    qed
    with inv3 have I': "inv N L B H s3" by (simp add: inv_def)
    have rec: "reclaimed s3 = reclaimed s @ map obj b" using s3(2) fld(2) by simp
    show ?thesis
    proof (intro exI [of _ s3] exI [of _ L] conjI)
      show "rest s3 = rest s" using kept [OF s3(3)] fld(6) by simp
      show "\<forall>k. active s3 k = active s k" using r(4) unfolding head by blast
      show "if \<exists>k<N. takes e s k
        then reclaimed s3 = reclaimed s \<and> inv N L (b # B) H s3
           \<and> (\<forall>k<N. if takes e s k then \<exists>x \<in> set (butlast b). L k = x # L k else L k = L k)
        else reclaimed s3 = reclaimed s @ map obj b \<and> inv N L B H s3"
        using act0 I' rec by (simp only: if_False)
    qed (fact run same3)+
  qed
qed

section \<open>Trimming a slot\<close>

text \<open>The traversal that \<open>trim\<close> makes when the list of the slot starts with the new node \<open>p\<close>: it
  visits the nodes \<open>xs\<close> behind \<open>p\<close>, or leaves on the way and then has visited all of the list.\<close>

lemma trim_visit:
  assumes inv0: "smr_inv N L B [] 0 s" and i: "i < N" "N < 2 ^ 64" and ck: "\<forall>x. check x"
    and L: "L i = p # xs" "p \<noteq> 0" and h: "head s i AND NOT 1 = p" and w: "walk (smr_next s) h0 q xs" "length xs < fuel" "1 < fuel"
  shows "\<exists>s' list F th' zs. smr_traverse fuel (leave_list fuel i check p) 0 check 0 0 th q h0 (s, []) = Some (True, list, th', (s', []))
      \<and> visited N B s (L(i := zs)) F list s' \<and> rest s' = rest s \<and> reclaimed s' = reclaimed s
      \<and> (th' = th \<and> zs = [p] \<and> head s' = head s \<or> th' \<noteq> th \<and> zs = [] \<and> head s' = (head s)(i := 0))"
proof -
  have dL: "distinct (p # xs)" using smr_invD(5) [OF inv0 i(1)] L(1) by simp
  have perm: "set (L i) = set (xs @ [p])" "distinct (xs @ [p])" using dL L(1) by auto
  show ?thesis
    using visited_flush [OF visited_start [OF inv0] i ck perm w(1,2), of "leave_list fuel i check p" 0 th]
  proof (elim disjE)
    assume "\<exists>s' list' F'. smr_traverse fuel (leave_list fuel i check p) 0 check 0 0 th q h0 (s, []) = Some (True, list', th, (s', []))
      \<and> visited N B s (L(i := [p])) F' list' s' \<and> smr_frame s s'"
    then obtain s' list F where "smr_traverse fuel (leave_list fuel i check p) 0 check 0 0 th q h0 (s, []) = Some (True, list, th, (s', []))"
      "visited N B s (L(i := [p])) F list s'" "smr_frame s s'" by blast
    with frame_head [of s s'] show ?thesis by blast
  next
    assume "th \<noteq> 0 \<and> (\<exists>ys2 s1 list1 F1 go q' f len1. set ys2 \<subseteq> set xs \<and> distinct (ys2 @ [p])
      \<and> visited N B s (L(i := ys2 @ [p])) F1 list1 s1 \<and> smr_frame s s1
      \<and> (if go then walk (smr_next s1) h0 q' ys2 \<and> length ys2 < f else ys2 = [])
      \<and> smr_traverse fuel (leave_list fuel i check p) 0 check 0 0 th q h0 (s, []) =
          (case leave_list fuel i check p list1 (s1, []) of None \<Rightarrow> None
           | Some (ok, list, w) \<Rightarrow> if \<not> ok then Some (False, list, th, w)
               else if go then smr_traverse f (leave_list fuel i check p) 0 check len1 list 0 q' h0 w else Some (True, list, 0, w)))"
    then obtain ys2 s1 list1 F1 go q' f len1 where th: "th \<noteq> 0" and ys: "set ys2 \<subseteq> set xs" "distinct (ys2 @ [p])"
      and v1: "visited N B s (L(i := ys2 @ [p])) F1 list1 s1" and f1: "smr_frame s s1"
      and go: "if go then walk (smr_next s1) h0 q' ys2 \<and> length ys2 < f else ys2 = []"
      and run: "smr_traverse fuel (leave_list fuel i check p) 0 check 0 0 th q h0 (s, []) =
          (case leave_list fuel i check p list1 (s1, []) of None \<Rightarrow> None
           | Some (ok, list, w) \<Rightarrow> if \<not> ok then Some (False, list, th, w)
               else if go then smr_traverse f (leave_list fuel i check p) 0 check len1 list 0 q' h0 w else Some (True, list, 0, w))"
      by (elim conjE exE) (rule that)
    note h1 = frame_head [OF f1]
    have w1: "walk (smr_next s1) p (head s1 i AND NOT 1) [p]" using h1 h L(2) by simp
    have perm1: "set ((L(i := ys2 @ [p])) i) = set ([p] @ ys2)" "distinct ([p] @ ys2)" using ys(2) by auto
    have "length [p] < fuel" using w(3) by simp
    note lv = leave_visit [OF v1 i ck perm1 w1 this, unfolded fun_upd_upd]
    from lv obtain s2 list2 F2 where
      r2: "leave_list fuel i check p list1 (s1, []) = Some (True, list2, (s2, []))"
      "visited N B s (L(i := ys2)) F2 list2 s2" "smr_frame (put_head i 0 s1) s2" by blast
    have h2: "head s2 = (head s)(i := 0)" "rest s2 = rest s" "reclaimed s2 = reclaimed s"
      using frame_head [OF r2(3)] put_head [of i 0 s1] h1 by simp_all
    show ?thesis
    proof (cases go)
      case False
      then have "ys2 = []" using go by simp
      with False run r2 h2 th show ?thesis
        by (intro exI [of _ s2] exI [of _ list2] exI [of _ F2] exI [of _ 0] exI [of _ "[]"]) simp
    next
      case True
      have sub: "set ((L(i := ys2)) i) \<subseteq> set (L i)" "set ((L(i := ys2 @ [p])) i) \<subseteq> set (L i)" using ys(1) L(1) by auto
      have "smr_next s2 x = smr_next s1 x" if "x \<in> set ys2" for x
        using visited_next(1) [OF inv0 r2(2) i(1) _ sub(1)] visited_next(1) [OF inv0 v1 i(1) _ sub(2)] that by simp
      then have "walk (smr_next s2) h0 q' ys2" using go True walk_cong [of ys2 "smr_next s2" "smr_next s1" h0 q'] by simp
      moreover have "set ((L(i := ys2)) i) = set (ys2 @ [])" "distinct (ys2 @ [])" "length ys2 < f" using ys(2) go True by auto
      ultimately obtain s3 list3 F3 where r3:
        "smr_traverse f (leave_list fuel i check p) 0 check len1 list2 0 q' h0 (s2, []) = Some (True, list3, 0, (s3, []))"
        "visited N B s (L(i := [])) F3 list3 s3" "smr_frame s2 s3"
        using visited_traverse [OF r2(2) i ck, of ys2 "[]" h0 q' f "leave_list fuel i check p" len1] by auto
      with True run r2(1) h2 th frame_head [OF r3(3)] show ?thesis
        by (intro exI [of _ s3] exI [of _ list3] exI [of _ F3] exI [of _ 0] exI [of _ "[]"]) simp
    qed
  qed
qed

lemma trim_run:
  assumes inv: "inv N L B H s" and i: "i < N" "N < 2 ^ 64" and act: "active s i" and ck: "\<forall>x. check x"
    and fuel: "length (concat B) < fuel" and V: "\<forall>x \<in> set (concat B). V x"
    and lnk: "lnk (s, []) = (head s i AND NOT 1, (s, []))"
    and ent: "\<And>s. enter (s, []) = Some (True, 0, (put_head i 1 s, []))"
  shows "\<exists>s' F zs h. smr_trim fuel lnk (leave_list fuel i check) enter (H i) fr 0 check th (s, []) = Some (True, h, (s', []))
    \<and> inv N (L(i := zs)) (filter (\<lambda>b. 0 < in_slots N (L(i := zs)) b) B) (H(i := h)) s' \<and> set zs \<subseteq> set (L i)
    \<and> set F = {b \<in> set B. in_slots N (L(i := zs)) b = 0} \<and> distinct (concat F)
    \<and> reclaimed s' = reclaimed s @ map obj (concat F)
    \<and> same_nodes (set (concat B)) s s' \<and> rest s' = rest s \<and> (\<forall>k. active s' k = active s k)"
proof -
  have inv0: "smr_inv N L B [] 0 s" and sl: "\<And>k. k < N \<Longrightarrow> one_slot_list (smr_next s) (head s k) (H k) (L k)"
    using inv by (auto simp: inv_def)
  let ?p = "head s i AND NOT 1"
  have w: "walk (smr_next s) (H i) ?p (L i)" "H i = 0 \<or> H i \<in> set (L i)"
    using sl [OF i(1)] act by (auto simp: one_slot_list_def)
  show ?thesis
  proof (cases "?p = H i")
    case True
    have "smr_trim fuel lnk (leave_list fuel i check) enter (H i) fr 0 check th (s, []) = Some (True, H i, (s, []))"
      using True by (simp add: smr_trim_def lnk)
    moreover have "L(i := L i) = L" "H(i := H i) = H" by simp_all
    moreover have "filter (\<lambda>b. 0 < in_slots N L b) B = B" "{b \<in> set B. in_slots N L b = 0} = {}"
      using smr_invD(10) [OF inv0] by (auto simp: filter_id_conv)
    ultimately show ?thesis using inv
      by (intro exI [of _ s] exI [of _ "[]"] exI [of _ "L i"] exI [of _ "H i"]) simp
  next
    case False
    have "L i \<noteq> []" using w False by (cases "L i") auto
    then obtain xs where L: "L i = ?p # xs" "?p \<noteq> 0" "walk (smr_next s) (H i) (smr_next s ?p) xs"
      using w(1) False by (cases "L i") (auto split: if_splits)
    have len: "length xs < fuel" "1 < fuel"
    proof -
      show "length xs < fuel" using slot_length [OF inv0 i(1)] L(1) fuel by simp
      obtain b where b: "b \<in> set B" using smr_invD(6) [OF inv0 i(1), of ?p] L(1) by auto
      then have "2 \<le> length b" using smr_invD(8) [OF inv0 b] by (simp add: batch_ok_def)
      moreover have "length b \<le> length (concat B)" using b by (induction B) auto
      ultimately show "1 < fuel" using fuel by simp
    qed
    obtain s1 list F th' zs where r: "smr_traverse fuel (leave_list fuel i check ?p) 0 check 0 0 th (smr_next s ?p) (H i) (s, [])
        = Some (True, list, th', (s1, []))"
      "visited N B s (L(i := zs)) F list s1" "rest s1 = rest s" "reclaimed s1 = reclaimed s"
      "th' = th \<and> zs = [?p] \<and> head s1 = head s \<or> th' \<noteq> th \<and> zs = [] \<and> head s1 = (head s)(i := 0)"
      using trim_visit [OF inv0 i ck L(1,2) refl L(3) len, of th] by blast
    let ?L = "L(i := zs)" let ?B = "filter (\<lambda>b. 0 < in_slots N ?L b) B"
    have sub: "set (?L k) \<subseteq> set (L k)" for k using r(5) L(1) by auto
    obtain s2 where f: "smr_free_list fuel list fr 0 (s1, []) = Some (s2, [])"
      "reclaimed s2 = reclaimed s1 @ map obj (concat F)" "smr_kept s2 = smr_kept s1" "same_nodes (set (concat B)) s s2"
      "smr_inv N ?L ?B [] 0 s2" "distinct (concat F)" "\<forall>k<N. \<forall>x \<in> set (?L k). smr_next s2 x = smr_next s x"
      using visited_free [OF inv0 r(2) sub fuel V] by blast
    note K = kept [OF f(3)]
    define s' where "s' = (if th = th' then s2 else put_head i 1 s2)"
    define h where "h = (if th = th' then ?p else 0)"
    note ph = put_head [of i 1 s2]
    have st: "smr_next s' = smr_next s2" "smr_link s' = smr_link s2" "smr_refs s' = smr_refs s2"
      "reclaimed s' = reclaimed s2" "rest s' = rest s"
      using ph K r(3) by (simp_all add: s'_def)
    have hd': "head s' = (if th = th' then head s else (head s)(i := 1))"
      using ph K r(5) by (auto simp: s'_def)
    have run: "smr_trim fuel lnk (leave_list fuel i check) enter (H i) fr 0 check th (s, []) = Some (True, h, (s', []))"
      using False r(1) f(1) ck by (simp add: smr_trim_def lnk ent smr_addr_def s'_def h_def)
    have "smr_inv N ?L ?B [] 0 s'" by (rule smr_inv_same [OF f(5), of "{}"]) (simp_all add: same_nodes_def st)
    moreover have "\<forall>x \<in> set (?L k). smr_next s' x = smr_next s x" if "k < N" for k using f(7) that by (simp add: st)
    moreover have "one_slot_list (smr_next s) (head s' k) ((H(i := h)) k) (?L k)" if "k < N" for k
      using sl [OF that] r(5) act L(2) unfolding hd' h_def by (cases "k = i") (auto simp: one_slot_list_def)
    ultimately have "inv N ?L ?B (H(i := h)) s'" by (rule inv_heads)
    moreover have "same_nodes (set (concat B)) s s'" using f(4) by (simp add: same_nodes_def st)
    moreover have "active s' k = active s k" for k using act unfolding hd' by auto
    ultimately show ?thesis using run f(2,6) r(4) st(4,5) visitedD(2) [OF r(2)] sub [of i]
      by (intro exI [of _ s'] exI [of _ F] exI [of _ zs] exI [of _ h]) simp
  qed
qed

end

end
