(* ===== verification/Lfsmro_Inv.thy ===== *)
theory Lfsmro_Inv
  imports Lfsmro One_Slot
begin

text \<open>
  The single-width library keeps the contract \<open>one_slot\<close>: it offers every batch to every slot.
\<close>

definition lfo_rest :: "'a lfsmro_scheme \<Rightarrow> nat \<times> bool \<times> (ptr \<Rightarrow> ptr) \<times> 'a" where
  "lfo_rest s = (task_num s, count_retired s, cells s, lfsmro.more s)"

locale lfo_callback = smr_callback fr obj V smr_kept
  for fr :: "ptr \<Rightarrow> 'a lfsmro_scheme \<Rightarrow> 'a lfsmro_scheme" and obj :: "ptr \<Rightarrow> ptr"
    and V :: "ptr \<Rightarrow> bool"

lemma lfo_kept: "smr_kept s' = smr_kept s \<Longrightarrow> lfo_head s' = lfo_head s \<and> lfo_rest s' = lfo_rest (s :: 'a lfsmro_scheme)"
  by (cases s, cases s') (simp add: lfo_rest_def)

sublocale lfo_callback \<subseteq> slot: one_slot fr obj V lfo_head lfo_put_head lfo_rest "\<lambda>s j e. True"
  "\<lambda>fuel i check. lfo_leave_list fuel i 0 check" "\<lambda>fuel e. lfo_slots fuel 0"
proof unfold_locales
  show "smr_kept s' = smr_kept s \<Longrightarrow> lfo_head s' = lfo_head s \<and> lfo_rest s' = lfo_rest s" for s s' :: "'a lfsmro_scheme"
    by (rule lfo_kept)
qed (simp_all add: lfo_put_head_def lfo_rest_def lfo_leave_list_def rmw_alone load_alone cas_alone own_alone
    smr_addr_def smr_set_next_def Let_def)

context lfo_callback begin

lemma lfo_retire_batch_eq: "lfo_retire_batch fuel fr 0 order = slot.retire_batch fuel e order"
  by (intro ext) (simp add: lfo_retire_batch_def slot.retire_batch_def)

end

end
