(* ===== verification/Atomics.thy ===== *)
theory Atomics
  imports Prelude
begin

text \<open>
  \<open>hyaline/bits/config.h\<close> and \<open>hyaline/bits/lf.h\<close>: the widths of an architecture and the layout of
  a double-width word, and the interface \<open>__lfref_*\<close>, \<open>__lfepoch_*\<close> that the headers
  \<open>gcc_x86.h\<close>, \<open>llvm_x86.h\<close>, \<open>c11.h\<close>, \<open>ppc.h\<close> and \<open>mips.h\<close> implement.

  A location is given by its reader \<open>g\<close> and its writer \<open>p\<close>.  \<open>dtype_t\<close> is a word type; half of it,
  \<open>lfatomic_t\<close>, is kept in a word of the double type whose upper half is 0.
\<close>

section \<open>\<open>config.h\<close>\<close>

datatype lf_arch = X86_64 | I386 | ARM | AARCH64 | PPC64 | PPC32 | MIPS_ABI64 | MIPS_ABI32 | MIPS_NABI32
  | IA64 | OTHER32 | OTHER64

fun LFATOMIC_WIDTH :: "lf_arch \<Rightarrow> nat" where
  "LFATOMIC_WIDTH a = (if a \<in> {X86_64, AARCH64, PPC64, MIPS_ABI64} then 64
     else if a \<in> {I386, ARM, PPC32, MIPS_ABI32, MIPS_NABI32} then 32
     else if a = OTHER32 then 32 else 64)"

fun LFATOMIC_BIG_WIDTH :: "lf_arch \<Rightarrow> nat" where
  "LFATOMIC_BIG_WIDTH a = (if a \<in> {X86_64, AARCH64, PPC64, MIPS_ABI64} then 128
     else if a \<in> {I386, ARM, PPC32, MIPS_ABI32, MIPS_NABI32} then 64
     else if a = OTHER32 then 32 else 64)"

fun LFATOMIC_LOG2 :: "lf_arch \<Rightarrow> nat" where
  "LFATOMIC_LOG2 a = (if a \<in> {X86_64, AARCH64, PPC64, MIPS_ABI64} then 3
     else if a \<in> {I386, ARM, PPC32, MIPS_ABI32, MIPS_NABI32} then 2
     else if a = OTHER32 then 2 else 3)"

fun lfepoch_width :: "lf_arch \<Rightarrow> nat" where
  "lfepoch_width a = (if a \<in> {X86_64, AARCH64, PPC64, MIPS_ABI64} then 64
     else if a = I386 then 64
     else if a \<in> {ARM, PPC32, MIPS_ABI32, MIPS_NABI32} then 32
     else if a = OTHER32 then 32 else 64)"

definition LFLOAD_SPLIT :: "lf_arch \<Rightarrow> nat \<Rightarrow> bool" where
  "LFLOAD_SPLIT a dtype_width \<longleftrightarrow> a \<in> {I386, X86_64, ARM, AARCH64} \<and> LFATOMIC_WIDTH a < dtype_width"

definition LFCMPXCHG_SPLIT :: "lf_arch \<Rightarrow> nat \<Rightarrow> bool" where
  "LFCMPXCHG_SPLIT a dtype_width \<longleftrightarrow> a = IA64 \<and> LFATOMIC_WIDTH a < dtype_width"

definition LF_CACHE_SHIFT :: nat where "LF_CACHE_SHIFT = 7"

definition LF_CACHE_BYTES :: nat where "LF_CACHE_BYTES = 2 ^ LF_CACHE_SHIFT"

definition LFMERGE :: "lf_arch \<Rightarrow> 'd::len word \<Rightarrow> 'd word \<Rightarrow> 'd word" where
  "LFMERGE a x y = (if a \<in> {I386, X86_64} then x + y else x OR y)"

section \<open>\<open>lf.h\<close>\<close>

text \<open>\<open>UINTPTR_MAX\<close>; the x32 and n32 variants are not among the architectures.\<close>

fun LFPTR_WIDTH :: "lf_arch \<Rightarrow> nat" where
  "LFPTR_WIDTH a = (if a \<in> {I386, ARM, PPC32, MIPS_ABI32, MIPS_NABI32, OTHER32} then 32 else 64)"

text \<open>The header of the atomic operations: \<open>gnuc\<close>, \<open>llvm\<close>, \<open>flags\<close> say that the compiler defines
  \<open>__GNUC__\<close>, \<open>__llvm__\<close> and \<open>__GCC_ASM_FLAG_OUTPUTS__\<close>.\<close>

datatype lf_header = GCC_X86 | LLVM_X86 | PPC_H | MIPS_H | C11_H

fun lf_header_of :: "lf_arch \<Rightarrow> bool \<Rightarrow> bool \<Rightarrow> bool \<Rightarrow> lf_header" where
  "lf_header_of a gnuc llvm flags =
     (if a \<in> {I386, X86_64} \<and> gnuc \<and> \<not> llvm \<and> flags then GCC_X86
      else if a \<in> {I386, X86_64} \<and> llvm then LLVM_X86
      else if a \<in> {PPC32, PPC64} \<and> gnuc then PPC_H
      else if a \<in> {MIPS_ABI64, MIPS_ABI32, MIPS_NABI32} then MIPS_H
      else C11_H)"

definition lfref_shift :: "'d::len itself \<Rightarrow> nat" where
  "lfref_shift t = LENGTH('d) div 2"

definition lfrptr_shift :: nat where
  "lfrptr_shift = 0"

definition lfref_mask :: "'d::len word" where
  "lfref_mask = push_bit (LENGTH('d) div 2) (NOT 0)"

definition lfref_step :: "'d::len word" where
  "lfref_step = push_bit (LENGTH('d) div 2) 1"

text \<open>The index of the pointer in a double word, for a compiler that defines \<open>__LITTLE_ENDIAN__\<close>
  or not.\<close>

definition LFREF_LINK :: "bool \<Rightarrow> nat" where
  "LFREF_LINK little_defined = (if little_defined then 0 else 1)"

text \<open>The ABA tag: half of the word when an access is split, above a \<open>type_t\<close> otherwise.\<close>

definition lfaba_shift :: "lf_arch \<Rightarrow> 'h::len itself \<Rightarrow> nat" where
  "lfaba_shift a t = (let W = LFATOMIC_BIG_WIDTH a in
     if LFLOAD_SPLIT a W \<or> LFCMPXCHG_SPLIT a W then W div 2 else LENGTH('h))"

definition lfaptr_shift :: nat where
  "lfaptr_shift = 0"

definition lfaba_mask :: "lf_arch \<Rightarrow> 'h::len itself \<Rightarrow> 'd::len word" where
  "lfaba_mask a t = push_bit (lfaba_shift a t) (NOT 0)"

definition lfaba_step :: "lf_arch \<Rightarrow> 'h::len itself \<Rightarrow> 'd::len word" where
  "lfaba_step a t = push_bit (lfaba_shift a t) 1"

definition lf_pow2 :: "nat \<Rightarrow> u64" where
  "lf_pow2 order = push_bit order 1"

definition lf_container_of :: "ptr \<Rightarrow> u64 \<Rightarrow> ptr" where
  "lf_container_of addr offset = addr - offset"

definition LF_ERROR :: u64 where
  "LF_ERROR = - 1"

definition LF_DONTCHECK :: "ptr \<Rightarrow> bool" where
  "LF_DONTCHECK addr = True"

text \<open>The instances of the constants and of the reference operations: for 32-bit, 64-bit and
  pointer-size words.\<close>

datatype lf_word = W32 | W64 | WPTR

definition lf_instances :: "lf_arch \<Rightarrow> lf_word list" where
  "lf_instances a =
     (if LFATOMIC_BIG_WIDTH a \<ge> 64 then [W32] else []) @
     (if LFATOMIC_BIG_WIDTH a \<ge> 128 then [W64] else []) @
     (if LFATOMIC_BIG_WIDTH a \<ge> 2 * LFPTR_WIDTH a then [WPTR] else [])"

section \<open>The halves of a double word\<close>

definition low :: "'d::len word \<Rightarrow> 'd word" where
  "low d = take_bit (LENGTH('d) div 2) d"

definition high :: "'d::len word \<Rightarrow> 'd word" where
  "high d = drop_bit (LENGTH('d) div 2) d"

definition wide :: "'d::len word \<Rightarrow> 'd word \<Rightarrow> 'd word" where
  "wide hi lo = push_bit (LENGTH('d) div 2) hi OR lo"

lemma wide_halves [simp]: "wide (high d) (low d) = d"
  by (rule bit_word_eqI)
     (auto simp: wide_def high_def low_def bit_or_iff bit_push_bit_iff bit_drop_bit_eq bit_take_bit_iff)

lemma low_low [simp]: "low (low d) = low d"
  by (simp add: low_def)

lemma low_wide [simp]: "low (wide h l) = low l"
  by (rule bit_word_eqI)
     (auto simp: wide_def low_def bit_or_iff bit_push_bit_iff bit_take_bit_iff)

lemma high_wide_low [simp]: "high (wide h (low l)) = high (wide h 0)"
  by (rule bit_word_eqI)
     (auto simp: wide_def low_def high_def bit_or_iff bit_push_bit_iff bit_take_bit_iff bit_drop_bit_eq)

lemma high_wide_high [simp]: "high (wide (high h) 0) = high h"
  by (rule bit_word_eqI)
     (auto simp: wide_def high_def bit_or_iff bit_push_bit_iff bit_drop_bit_eq dest: bit_imp_le_length)

lemma wide_eq: "high d = high e \<Longrightarrow> low d = low e \<Longrightarrow> d = e"
  by (metis wide_halves)

lemma and_not_mask [simp]: "d AND NOT lfref_mask = low d"
  by (rule bit_word_eqI)
     (auto simp: lfref_mask_def low_def bit_and_iff bit_not_iff bit_push_bit_iff bit_take_bit_iff bit_mask_iff not_le)

lemma and_mask [simp]: "d AND lfref_mask = wide (high d) 0"
  by (rule bit_word_eqI)
     (auto simp: lfref_mask_def wide_def high_def bit_and_iff bit_not_iff bit_push_bit_iff bit_drop_bit_eq bit_or_iff bit_mask_iff)

lemma low_step [simp]: "low (lfref_step :: 'd::len word) = 0"
  by (rule bit_word_eqI) (auto simp: low_def lfref_step_def bit_take_bit_iff bit_push_bit_iff bit_exp_iff)

text \<open>The words of the location in memory order, for either byte order.\<close>

definition word_at :: "bool \<Rightarrow> nat \<Rightarrow> 'd::len word \<Rightarrow> 'd word" where
  "word_at little i d = (if (i = 0) = little then low d else high d)"

definition of_words :: "bool \<Rightarrow> 'd::len word \<Rightarrow> 'd word \<Rightarrow> 'd word" where
  "of_words little h0 h1 = (if little then wide h1 h0 else wide h0 h1)"

lemma of_words_word_at [simp]: "of_words little (word_at little 0 d) (word_at little 1 d) = d"
  by (simp add: of_words_def word_at_def)

text \<open>A load in two word-atomic steps.\<close>

definition split_load :: "bool \<Rightarrow> ('s \<Rightarrow> 'd::len word) \<Rightarrow> 's world \<Rightarrow> 'd word \<times> 's world" where
  "split_load little g w =
     (let (h0, w) = load (\<lambda>s. word_at little 0 (g s)) w;
          (h1, w) = load (\<lambda>s. word_at little 1 (g s)) w
      in (of_words little h0 h1, w))"

lemma split_load_alone [world_simps]: "split_load little g (s, []) = (g s, (s, []))"
  using of_words_word_at [of little "g s"] by (simp add: split_load_def world_simps)

text \<open>The C11 operations.  A weak compare-and-swap may fail without reason while other threads
  run; \<open>lost\<close> says when.\<close>

definition cas_weak :: "('s world \<Rightarrow> bool) \<Rightarrow> ('s \<Rightarrow> 'v) \<Rightarrow> ('v \<Rightarrow> 's \<Rightarrow> 's) \<Rightarrow> 'v \<Rightarrow> 'v \<Rightarrow> 's world
    \<Rightarrow> bool \<times> 'v \<times> 's world" where
  "cas_weak lost get put expected desired w =
     (let (s, e) = others w in
      if get s = expected \<and> (e = [] \<or> \<not> lost (s, e)) then (True, expected, (put desired s, e))
      else (False, get s, (s, e)))"

definition fetch_add :: "('s \<Rightarrow> 'd::len word) \<Rightarrow> ('d word \<Rightarrow> 's \<Rightarrow> 's) \<Rightarrow> 'd word \<Rightarrow> 's world
    \<Rightarrow> 'd word \<times> 's world" where
  "fetch_add g p arg w = rmw (\<lambda>s. (g s, p (g s + arg) s)) w"

section \<open>The interface\<close>

text \<open>The operations on a reference word and on the epoch.  An operation that loops takes fuel.\<close>

record ('s, 'd, 'h) lf_atomics =
  ref_init :: "('d \<Rightarrow> 's \<Rightarrow> 's) \<Rightarrow> 'd \<Rightarrow> 's world \<Rightarrow> 's world"
  ref_load :: "('s \<Rightarrow> 'd) \<Rightarrow> 's world \<Rightarrow> 'd \<times> 's world"
  ref_link :: "('s \<Rightarrow> 'd) \<Rightarrow> 's world \<Rightarrow> 'h \<times> 's world"
  ref_cmpxchgptr_weak :: "('s \<Rightarrow> 'd) \<Rightarrow> ('d \<Rightarrow> 's \<Rightarrow> 's) \<Rightarrow> 'd \<Rightarrow> 'd \<Rightarrow> 's world \<Rightarrow> bool \<times> 'd \<times> 's world"
  ref_cmpxchgptr_strong :: "nat \<Rightarrow> ('s \<Rightarrow> 'd) \<Rightarrow> ('d \<Rightarrow> 's \<Rightarrow> 's) \<Rightarrow> 'd \<Rightarrow> 'd \<Rightarrow> 's world
    \<Rightarrow> (bool \<times> 'd \<times> 's world) option"
  ref_cmpxchgref_weak :: "('s \<Rightarrow> 'd) \<Rightarrow> ('d \<Rightarrow> 's \<Rightarrow> 's) \<Rightarrow> 'd \<Rightarrow> 'd \<Rightarrow> 's world \<Rightarrow> bool \<times> 'd \<times> 's world"
  ref_cmpxchgref_strong :: "nat \<Rightarrow> ('s \<Rightarrow> 'd) \<Rightarrow> ('d \<Rightarrow> 's \<Rightarrow> 's) \<Rightarrow> 'd \<Rightarrow> 'd \<Rightarrow> 's world
    \<Rightarrow> (bool \<times> 'd \<times> 's world) option"
  ref_fetch_add :: "nat \<Rightarrow> ('s \<Rightarrow> 'd) \<Rightarrow> ('d \<Rightarrow> 's \<Rightarrow> 's) \<Rightarrow> 'd \<Rightarrow> 's world \<Rightarrow> ('d \<times> 's world) option"
  ref_full :: bool

text \<open>\<open>later w w'\<close>: from \<open>w\<close> to \<open>w'\<close> only the other threads have acted.\<close>

definition later :: "'s world \<Rightarrow> 's world \<Rightarrow> bool" where
  "later w w' \<longleftrightarrow> (\<exists>k. w' = (others ^^ k) w)"

lemma later_refl [simp]: "later w w"
  unfolding later_def by (rule exI [of _ 0]) simp

lemma later_others: "later w (others w)"
  unfolding later_def by (rule exI [of _ 1]) simp

lemma later_trans: "later u v \<Longrightarrow> later v w \<Longrightarrow> later u w"
  unfolding later_def by (metis comp_apply funpow_add)

lemma later_load: "later w (snd (load f w))"
  by (simp add: load_split later_others)

lemma later_split_load: "later w (snd (split_load little g w))"
  by (simp add: split_load_def load_split) (blast intro: later_trans later_others)

lemma later_alone: "later (s, []) w \<longleftrightarrow> w = (s, [])"
proof
  assume "later (s, []) w"
  then obtain k where "w = (others ^^ k) (s, [])" by (auto simp: later_def)
  then show "w = (s, [])" by (induction k arbitrary: w) auto
qed simp

lemma later_stable: "later w w' \<Longrightarrow> stable I w \<Longrightarrow> stable I w'"
proof -
  have "stable I w \<Longrightarrow> stable I ((others ^^ k) w)" for k
    by (induction k) (simp_all add: stable_others)
  then show "later w w' \<Longrightarrow> stable I w \<Longrightarrow> stable I w'" by (auto simp: later_def)
qed

lemma later_length: "later w w' \<Longrightarrow> length (snd w') \<le> length (snd w)"
proof -
  have "length (snd ((others ^^ k) w)) \<le> length (snd w)" for k
    by (induction k) (simp_all add: le_diff_conv)
  then show "later w w' \<Longrightarrow> length (snd w') \<le> length (snd w)" by (auto simp: later_def)
qed


text \<open>What a compare-and-swap on the pointer or on the counter writes: the whole word, or only its
  half where the operation is not \<open>__LFREF_CMPXCHG_FULL\<close>.\<close>

definition new_ptr :: "bool \<Rightarrow> 'd::len word \<Rightarrow> 'd word \<Rightarrow> 'd word" where
  "new_ptr full old d = (if full then d else wide (high old) (low d))"

definition new_ref :: "bool \<Rightarrow> 'd::len word \<Rightarrow> 'd word \<Rightarrow> 'd word" where
  "new_ref full old d = (if full then d else wide (high d) (low old))"

definition cas_done :: "('s \<Rightarrow> 'd::len word) \<Rightarrow> ('d word \<Rightarrow> 's \<Rightarrow> 's) \<Rightarrow> ('d word \<Rightarrow> 'd word \<Rightarrow> 'd word)
    \<Rightarrow> 'd word \<Rightarrow> 'd word \<Rightarrow> 's world \<Rightarrow> bool \<times> 'd word \<times> 's world \<Rightarrow> bool" where
  "cas_done g p new e d w r \<longleftrightarrow> (case r of (ok, e', w') \<Rightarrow>
     if ok then e' = e \<and> (\<exists>w1. later w w1 \<and> g (fst w1) = e \<and> w' = (p (new e d) (fst w1), snd w1))
     else later w w')"

lemma cas_done_ok: "later w w1 \<Longrightarrow> g (fst w1) = e \<Longrightarrow> cas_done g p new e d w (True, e, (p (new e d) (fst w1), snd w1))"
  by (cases w1) (auto simp: cas_done_def)

lemma cas_done_fail: "later w w' \<Longrightarrow> cas_done g p new e d w (False, e', w')"
  by (simp add: cas_done_def)

lemma cas_done_failed: "later w (snd r) \<Longrightarrow> cas_done g p new e d w (False, r)"
  by (cases r) (simp add: cas_done_fail)

lemma cas_done: "cas_done g p (\<lambda>old d. d) e d w (cas g p e d w)"
  using cas_done_ok [OF later_others, of g w e p "\<lambda>old d. d" d]
  by (simp add: cas_split cas_done_fail later_others)

lemma cas_weak_done: "cas_done g p (\<lambda>old d. d) e d w (cas_weak lost g p e d w)"
  unfolding cas_done_def cas_weak_def using later_others [of w] by (auto split: prod.splits if_splits)

lemma new_full [simp]: "new_ptr True = (\<lambda>old d. d)" "new_ref True = (\<lambda>old d. d)"
  by (simp_all add: new_ptr_def new_ref_def fun_eq_iff)

lemma cas_weak_alone [world_simps]:
  "cas_weak lost g p e d (s, []) = (if g s = e then (True, e, (p d s, [])) else (False, g s, (s, [])))"
  by (simp add: cas_weak_def)

lemma fetch_add_done:
  "fetch_add g p x w = (old, w') \<Longrightarrow> \<exists>w1. later w w1 \<and> old = g (fst w1) \<and> w' = (p (old + x) (fst w1), snd w1)"
  unfolding fetch_add_def rmw_def using later_others [of w] by (auto split: prod.splits)

text \<open>The contract.  Under interference every operation acts at one moment: a compare-and-swap that
  succeeds finds the expected value in the whole word at that moment and replaces it there; one
  that fails changes nothing; \<open>fetch_add\<close> returns the value it adds to.  A load may be torn and
  promises nothing of its value.  Without interference nothing fails without reason.\<close>

locale lf_words =
  fixes A :: "('s, 'd::len word, 'h::len word) lf_atomics"
  assumes init: "ref_init A p d (s, []) = (p d s, [])"
    and load_later: "later w (snd (ref_load A g w))"
    and load_alone: "ref_load A g (s, []) = (g s, (s, []))"
    and ptr_weak: "cas_done g p (new_ptr (ref_full A)) e d w (ref_cmpxchgptr_weak A g p e d w)"
    and ptr_strong: "ref_cmpxchgptr_strong A fuel g p e d w = Some r \<Longrightarrow> cas_done g p (new_ptr (ref_full A)) e d w r"
    and ref_weak: "cas_done g p (new_ref (ref_full A)) e d w (ref_cmpxchgref_weak A g p e d w)"
    and ref_strong: "ref_cmpxchgref_strong A fuel g p e d w = Some r \<Longrightarrow> cas_done g p (new_ref (ref_full A)) e d w r"
    and ptr_weak_alone: "ref_cmpxchgptr_weak A g p e d (s, []) =
      (if g s = e then (True, e, (p (new_ptr (ref_full A) e d) s, [])) else (False, g s, (s, [])))"
    and ref_weak_alone: "ref_cmpxchgref_weak A g p e d (s, []) =
      (if g s = e then (True, e, (p (new_ref (ref_full A) e d) s, [])) else (False, g s, (s, [])))"
    and ptr_strong_alone: "0 < fuel \<Longrightarrow> ref_cmpxchgptr_strong A fuel g p e d (s, []) =
      Some (if g s = e then (True, e, (p (new_ptr (ref_full A) e d) s, [])) else (False, g s, (s, [])))"
    and ptr_strong_returns: "length (snd w) < fuel \<Longrightarrow> ref_cmpxchgptr_strong A fuel g p e d w \<noteq> None"
    and ref_strong_returns: "length (snd w) < fuel \<Longrightarrow> ref_cmpxchgref_strong A fuel g p e d w \<noteq> None"
    and add_done: "ref_fetch_add A fuel g p x w = Some (old, w') \<Longrightarrow> low x = 0 \<Longrightarrow>
      \<exists>w1. later w w1 \<and> old = g (fst w1) \<and> w' = (p (old + x) (fst w1), snd w1)"
    and add_returns: "length (snd w) < fuel \<Longrightarrow> ref_fetch_add A fuel g p x w \<noteq> None"

begin

lemma add_alone: "0 < fuel \<Longrightarrow> low x = 0 \<Longrightarrow> ref_fetch_add A fuel g p x (s, []) = Some (g s, (p (g s + x) s, []))"
  using add_returns [of "(s, [])" fuel g p x] add_done [of fuel g p x "(s, [])"]
  by (cases "ref_fetch_add A fuel g p x (s, [])") (auto simp: later_alone)

end

text \<open>The contract of a variant that also trims: \<open>__lfref_link\<close> reads the half of the word that
  holds the pointer.\<close>

locale lf_refs = lf_words +
  assumes link_later: "\<exists>w1. later w w1 \<and> ref_link A g w = (ucast (low (g (fst w1))), w1)"

begin

lemma link_alone: "ref_link A g (s, []) = (ucast (low (g s)), (s, []))"
  using link_later [of "(s, [])" g] by (auto simp: later_alone)

end

end
