(* ===== verification/Hyaline_O.thy ===== *)
theory Hyaline_O
  imports Lfsmro_Inv Atomics
begin

text \<open>
  \<open>log2.hpp\<close> and the trackers built on \<open>lfsmro.h\<close>, one slot per thread: \<open>HyalineOTrackerEL.hpp\<close>
  (an operation enters and leaves) and \<open>HyalineOTrackerTR.hpp\<close> (a thread enters once and trims
  at the end of each operation).  \<open>sz\<close> is \<open>sizeof(T)\<close>; the node of an object follows it.
  \<open>nx\<close>, \<open>lk\<close>, \<open>rf\<close> are what the memory of the nodes holds before it is written.
\<close>

section \<open>\<open>log2.hpp\<close>\<close>

text \<open>The compiler's \<open>__builtin_clzl\<close>: the number of leading zero bits.\<close>

definition builtin_clzl :: "u64 \<Rightarrow> nat" where
  "builtin_clzl x = length (takeWhile (\<lambda>i. \<not> bit x i) (rev [0..<64]))"

definition calc_next_log2 :: "u64 \<Rightarrow> nat" where
  "calc_next_log2 num =
     (let result = 64 - builtin_clzl num
      in if num AND (num - 1) = 0 then result - 1 else result)"

lemma clzl_eq:
  assumes "bit x h" "\<forall>k. h < k \<longrightarrow> \<not> bit x k"
  shows "64 - builtin_clzl x = Suc h"
proof -
  have h: "h < 64" using bit_imp_le_length [OF assms(1)] by simp
  have "[0..<64] = [0..<h] @ h # [Suc h..<64]"
    using h by (metis le_add_diff_inverse less_imp_le_nat upt_add_eq_append upt_conv_Cons le0 add_0)
  then have "rev [0..<64] = rev [Suc h..<64] @ h # rev [0..<h]" by simp
  moreover have "\<forall>i \<in> set (rev [Suc h..<64]). \<not> bit x i" using assms(2) by auto
  ultimately have "takeWhile (\<lambda>i. \<not> bit x i) (rev [0..<64]) = rev [Suc h..<64]"
    using assms(1) takeWhile_append2 [of "rev [Suc h..<64]" "\<lambda>i. \<not> bit x i" "h # rev [0..<h]"]
    by (metis (mono_tags, lifting) append_Nil2 takeWhile.simps(2))
  with h show ?thesis by (simp add: builtin_clzl_def)
qed

lemma highest_bit:
  assumes "(x :: 64 word) \<noteq> 0"
  obtains h where "bit x h" "\<forall>k. h < k \<longrightarrow> \<not> bit x k"
proof -
  let ?S = "{i. bit x i}"
  have f: "finite ?S" by (rule finite_subset [of _ "{..<64}"]) (auto dest: bit_imp_le_length)
  have "?S \<noteq> {}"
  proof
    assume "?S = {}"
    then have "x = 0" by (intro bit_word_eqI) auto
    with assms show False by simp
  qed
  then have m: "Max ?S \<in> ?S" "\<forall>k \<in> ?S. k \<le> Max ?S" using Max_in [OF f] Max_ge [OF f] by blast+
  show thesis by (rule that [of "Max ?S"]) (use m in \<open>auto simp: not_le [symmetric]\<close>)
qed

lemma highest_bit_bounds:
  assumes "bit (x :: 64 word) h" "\<forall>k. h < k \<longrightarrow> \<not> bit x k"
  shows "2 ^ h \<le> unat x" "unat x < 2 ^ Suc h"
proof -
  have "bit (unat x) h" using assms(1) by (simp add: bit_unsigned_iff)
  then have "odd (unat x div 2 ^ h)" by (simp add: bit_iff_odd)
  then have "unat x div 2 ^ h \<noteq> 0" by (metis even_zero)
  then show "2 ^ h \<le> unat x" by (simp add: div_eq_0_iff not_less)
  have "take_bit (Suc h) (unat x) = unat x"
    by (rule bit_eqI) (use assms(2) in \<open>auto simp: bit_take_bit_iff bit_unsigned_iff not_less_eq\<close>)
  then show "unat x < 2 ^ Suc h" by (metis take_bit_nat_less_exp)
qed

lemma calc_next_log2_bounds:
  assumes "x \<noteq> 0"
  shows "unat x \<le> 2 ^ calc_next_log2 x" "2 ^ calc_next_log2 x < 2 * unat x"
proof -
  obtain h where h: "bit x h" "\<forall>k. h < k \<longrightarrow> \<not> bit x k" by (rule highest_bit [OF assms])
  note b = highest_bit_bounds [OF h]
  have "x AND (x - 1) = 0 \<longleftrightarrow> unat x = 2 ^ h"
  proof
    assume z: "x AND (x - 1) = 0"
    show "unat x = 2 ^ h"
    proof (rule ccontr)
      assume "unat x \<noteq> 2 ^ h"
      with b have g: "2 ^ h \<le> unat (x - 1)" "unat (x - 1) < 2 ^ Suc h"
        using assms by (simp_all add: unat_minus_one)
      then have "unat (x - 1) div 2 ^ h = 1" by (simp add: div_nat_eqI)
      then have "bit (unat (x - 1)) h" by (simp add: bit_iff_odd)
      then have "bit (x - 1) h" by (simp add: bit_unsigned_iff)
      with h(1) have "bit (x AND (x - 1)) h" by (simp add: bit_and_iff)
      with z show False by simp
    qed
  next
    assume e: "unat x = 2 ^ h"
    show "x AND (x - 1) = 0"
    proof (rule bit_eqI)
      fix n assume "possible_bit TYPE(64 word) n"
      have "bit x n \<longleftrightarrow> n = h"
        using e bit_unsigned_iff [where ?'a = nat, of x n] bit_imp_le_length [of x n]
        by (auto simp: bit_exp_iff h(1))
      moreover have "\<not> bit (x - 1) h"
      proof
        assume "bit (x - 1) h"
        then have "bit (unat (x - 1)) h" by (simp add: bit_unsigned_iff)
        then have "odd (unat (x - 1) div 2 ^ h)" by (simp add: bit_iff_odd)
        moreover have "unat (x - 1) < 2 ^ h" using e assms by (simp add: unat_minus_one)
        ultimately show False by simp
      qed
      ultimately show "bit (x AND (x - 1)) n = bit 0 n" by (auto simp: bit_and_iff)
    qed
  qed
  moreover have "64 - builtin_clzl x = Suc h" by (rule clzl_eq [OF h])
  ultimately have "calc_next_log2 x = (if unat x = 2 ^ h then h else Suc h)"
    by (simp add: calc_next_log2_def)
  with b show "unat x \<le> 2 ^ calc_next_log2 x" "2 ^ calc_next_log2 x < 2 * unat x" by auto
qed

text \<open>With the order \<open>calc_next_log2 n\<close> there is a slot for each of \<open>n\<close> threads, and thread \<open>i\<close> starts
  from slot \<open>i\<close>.\<close>

lemma slots_for_threads:
  assumes "0 < n" "n < 2 ^ 31"
  shows "n \<le> 2 ^ calc_next_log2 (of_nat n)" "2 ^ calc_next_log2 (of_nat n) < 2 * n"
    "(2 :: nat) ^ calc_next_log2 (of_nat n) < 2 ^ 64" "i < n \<Longrightarrow> i AND (2 ^ calc_next_log2 (of_nat n) - 1) = i"
proof -
  let ?k = "calc_next_log2 (of_nat n)"
  have u: "unat (of_nat n :: u64) = n" using assms(2) by (simp add: unsigned_of_nat take_bit_nat_eq_self)
  have "(of_nat n :: u64) \<noteq> 0" using assms(1) u by (metis less_numeral_extra(3) unat_0)
  from calc_next_log2_bounds [OF this] show k: "n \<le> 2 ^ ?k" "2 ^ ?k < 2 * n" unfolding u .
  then show "(2 :: nat) ^ ?k < 2 ^ 64" using assms(2) by simp
  assume "i < n"
  then have "take_bit ?k i = i" using k(1) by (intro take_bit_nat_eq_self) simp
  then show "i AND (2 ^ ?k - 1) = i" by (simp add: take_bit_eq_mask mask_eq_exp_minus_1)
qed

section \<open>The trackers\<close>

record hy_task =
  hy_handle :: u64
  hy_batch :: smr_batch
  hy_enter_num :: nat

definition oel_free_node :: "u64 \<Rightarrow> ptr \<Rightarrow> 'a base_scheme \<Rightarrow> 'a base_scheme" where
  "oel_free_node sz node s = (let dnode = node - sz in dec_retired 0 (base_reclaim dnode s))"

subsection \<open>\<open>HyalineOELTracker\<close>\<close>

record hyoel = lfsmro +
  oel_collect :: bool
  oel_SMR_ORDER :: nat
  oel_SMR_BATCH :: u64
  oel_taskData :: "nat \<Rightarrow> hy_task"

definition oel_new :: "nat \<Rightarrow> int \<Rightarrow> bool \<Rightarrow> bool \<Rightarrow> (ptr \<Rightarrow> ptr) \<Rightarrow> (ptr \<Rightarrow> u64) \<Rightarrow> (ptr \<Rightarrow> u64) \<Rightarrow> (ptr \<Rightarrow> u64)
    \<Rightarrow> (nat \<Rightarrow> u64) \<Rightarrow> (nat \<Rightarrow> hy_task) \<Rightarrow> hyoel" where
  "oel_new n emptyFreq collect cnt mem nx lk rf hd0 td =
     (let SMR_ORDER = calc_next_log2 (of_nat n);
          SMR_NUM = 2 ^ SMR_ORDER;
          SMR_BATCH = (if int n < emptyFreq then emptyFreq else int n + 1)
      in lfo_init SMR_ORDER
           (base.extend (base_new n cnt mem)
              \<lparr>smr_next = nx, smr_link = lk, smr_refs = rf, lfo_head = hd0, oel_collect = collect,
               oel_SMR_ORDER = SMR_ORDER, oel_SMR_BATCH = of_int SMR_BATCH,
               oel_taskData = (\<lambda>i. if i < n
                  then (td i)\<lparr>hy_enter_num := i AND (SMR_NUM - 1), hy_batch := smr_batch_init (hy_batch (td i))\<rparr>
                  else td i)\<rparr>))"

definition oel_alloc :: "nat \<Rightarrow> ptr \<Rightarrow> hyoel \<Rightarrow> ptr \<times> hyoel" where
  "oel_alloc tid blk s = (blk, s)"

definition oel_set_handle :: "nat \<Rightarrow> u64 \<Rightarrow> hyoel \<Rightarrow> hyoel" where
  "oel_set_handle tid h s = s\<lparr>oel_taskData := (oel_taskData s)(tid := (oel_taskData s tid)\<lparr>hy_handle := h\<rparr>)\<rparr>"

definition oel_set_batch :: "nat \<Rightarrow> smr_batch \<Rightarrow> hyoel \<Rightarrow> hyoel" where
  "oel_set_batch tid b s = s\<lparr>oel_taskData := (oel_taskData s)(tid := (oel_taskData s tid)\<lparr>hy_batch := b\<rparr>)\<rparr>"

definition oel_start_op :: "nat \<Rightarrow> hyoel world \<Rightarrow> hyoel world" where
  "oel_start_op tid w =
     (let (ok, handle, w) = lfo_enter (hy_enter_num (oel_taskData (fst w) tid)) w
      in own (oel_set_handle tid handle) w)"

definition oel_end_op :: "nat \<Rightarrow> u64 \<Rightarrow> nat \<Rightarrow> hyoel world \<Rightarrow> hyoel world option" where
  "oel_end_op fuel sz tid w =
     map_option snd (lfo_leave fuel (hy_enter_num (oel_taskData (fst w) tid))
       (hy_handle (oel_taskData (fst w) tid)) (oel_free_node sz) 0 LF_DONTCHECK w)"

definition oel_retire :: "nat \<Rightarrow> u64 \<Rightarrow> ptr \<Rightarrow> nat \<Rightarrow> hyoel world \<Rightarrow> hyoel world option" where
  "oel_retire fuel sz obj tid w =
     (if obj = nullptr then Some w
      else map_option (\<lambda>(ok, batch, w). own (oel_set_batch tid batch) w)
             (lfo_retire fuel (oel_SMR_ORDER (fst w)) (obj + sz) (oel_free_node sz) 0
                (hy_batch (oel_taskData (fst w) tid)) (oel_SMR_BATCH (fst w)) w))"

text \<open>The body of \<open>last_end_op\<close> is compiled out.\<close>

definition oel_last_end_op :: "nat \<Rightarrow> hyoel \<Rightarrow> hyoel" where
  "oel_last_end_op tid s = s"

subsection \<open>\<open>HyalineOTRTracker\<close>\<close>

record hy_task_tr = hy_task +
  hy_firstTime :: bool

record hyotr = lfsmro +
  otr_collect :: bool
  otr_SMR_ORDER :: nat
  otr_SMR_BATCH :: u64
  otr_taskData :: "nat \<Rightarrow> hy_task_tr"

abbreviation FLUSH_THRESHOLD :: u64 where "FLUSH_THRESHOLD \<equiv> 5"

definition otr_new :: "nat \<Rightarrow> bool \<Rightarrow> bool \<Rightarrow> (ptr \<Rightarrow> ptr) \<Rightarrow> (ptr \<Rightarrow> u64) \<Rightarrow> (ptr \<Rightarrow> u64) \<Rightarrow> (ptr \<Rightarrow> u64)
    \<Rightarrow> (nat \<Rightarrow> u64) \<Rightarrow> (nat \<Rightarrow> hy_task_tr) \<Rightarrow> hyotr" where
  "otr_new n collect cnt mem nx lk rf hd0 td =
     (let SMR_ORDER = calc_next_log2 (of_nat n);
          SMR_NUM = 2 ^ SMR_ORDER;
          SMR_BATCH = (if n < 64 then 64 else SMR_NUM + 1)
      in lfo_init SMR_ORDER
           (base.extend (base_new n cnt mem)
              \<lparr>smr_next = nx, smr_link = lk, smr_refs = rf, lfo_head = hd0, otr_collect = collect,
               otr_SMR_ORDER = SMR_ORDER, otr_SMR_BATCH = of_nat SMR_BATCH,
               otr_taskData = (\<lambda>i. if i < n
                  then (td i)\<lparr>hy_firstTime := True, hy_enter_num := i AND (SMR_NUM - 1),
                              hy_batch := smr_batch_init (hy_batch (td i))\<rparr>
                  else td i)\<rparr>))"

definition otr_alloc :: "nat \<Rightarrow> ptr \<Rightarrow> hyotr \<Rightarrow> ptr \<times> hyotr" where
  "otr_alloc tid blk s = (blk, s)"

definition otr_set_handle :: "nat \<Rightarrow> u64 \<Rightarrow> hyotr \<Rightarrow> hyotr" where
  "otr_set_handle tid h s = s\<lparr>otr_taskData := (otr_taskData s)(tid := (otr_taskData s tid)\<lparr>hy_handle := h\<rparr>)\<rparr>"

definition otr_set_batch :: "nat \<Rightarrow> smr_batch \<Rightarrow> hyotr \<Rightarrow> hyotr" where
  "otr_set_batch tid b s = s\<lparr>otr_taskData := (otr_taskData s)(tid := (otr_taskData s tid)\<lparr>hy_batch := b\<rparr>)\<rparr>"

definition otr_start_op :: "nat \<Rightarrow> hyotr world \<Rightarrow> hyotr world" where
  "otr_start_op tid w =
     (if hy_firstTime (otr_taskData (fst w) tid)
      then let w = own (\<lambda>s. s\<lparr>otr_taskData := (otr_taskData s)(tid :=
                     (otr_taskData s tid)\<lparr>hy_firstTime := False\<rparr>)\<rparr>) w;
               (ok, handle, w) = lfo_enter (hy_enter_num (otr_taskData (fst w) tid)) w
           in own (otr_set_handle tid handle) w
      else w)"

definition otr_end_op :: "nat \<Rightarrow> u64 \<Rightarrow> nat \<Rightarrow> hyotr world \<Rightarrow> hyotr world option" where
  "otr_end_op fuel sz tid w =
     map_option (\<lambda>(ok, handle, w). own (otr_set_handle tid handle) w)
       (lfo_trim fuel (hy_enter_num (otr_taskData (fst w) tid)) (hy_handle (otr_taskData (fst w) tid))
          (oel_free_node sz) 0 LF_DONTCHECK FLUSH_THRESHOLD w)"

definition otr_last_end_op :: "nat \<Rightarrow> u64 \<Rightarrow> nat \<Rightarrow> hyotr world \<Rightarrow> hyotr world option" where
  "otr_last_end_op fuel sz tid w =
     map_option snd (lfo_leave fuel (hy_enter_num (otr_taskData (fst w) tid))
       (hy_handle (otr_taskData (fst w) tid)) (oel_free_node sz) 0 LF_DONTCHECK w)"

definition otr_retire :: "nat \<Rightarrow> u64 \<Rightarrow> ptr \<Rightarrow> nat \<Rightarrow> hyotr world \<Rightarrow> hyotr world option" where
  "otr_retire fuel sz obj tid w =
     (if obj = nullptr then Some w
      else map_option (\<lambda>(ok, batch, w). own (otr_set_batch tid batch) w)
             (lfo_retire fuel (otr_SMR_ORDER (fst w)) (obj + sz) (oel_free_node sz) 0
                (hy_batch (otr_taskData (fst w) tid)) (otr_SMR_BATCH (fst w)) w))"

text \<open>\<open>free_node\<close> keeps the contract of the callback.\<close>

interpretation oel: lfo_callback "oel_free_node sz" "\<lambda>n. n - sz" "\<lambda>n. n \<noteq> sz" for sz
  by unfold_locales (simp_all add: oel_free_node_def dec_retired_def base_reclaim_def Let_def)

end
