(* ===== verification/Hyaline_Safe.thy ===== *)
theory Hyaline_Safe
  imports Smr_Inv
begin

text \<open>
  Safety and progress of the trackers built on the Hyaline library, for every legal sequence of
  operations, each executed as a whole.  The locale \<open>hy_tracker\<close> is the contract between the library
  and a tracker: \<open>Inv e A D g B s\<close> is the invariant of the library when the threads in \<open>A\<close> have
  entered it and those in \<open>D\<close> have left it for good, no epoch is above \<open>e\<close>, \<open>B\<close> lists the batches
  that wait and \<open>g u b\<close> says that thread \<open>u\<close> holds batch \<open>b\<close> back; \<open>Open s t xs\<close> says that \<open>xs\<close> are
  the nodes in the open batch of thread \<open>t\<close>; \<open>sees s u x\<close> that the library would hand node \<open>x\<close> to
  thread \<open>u\<close> if it was retired now; \<open>born s x\<close> that the node has been initialised.
\<close>

section \<open>Histories\<close>

datatype hy_event = HyAlloc ptr nat | HyStart nat | HyRead ptr nat | HyEnd nat | HyLast nat | HyRetire ptr nat

text \<open>The operations of a tracker, without interference: \<open>alloc\<close> with the block \<open>malloc\<close> returns,
  \<open>start_op\<close>, \<open>read\<close> with the link to read, \<open>end_op\<close>, \<open>last_end_op\<close>, \<open>retire\<close>.\<close>

record 's hy_ops =
  ops_alloc :: "ptr \<Rightarrow> nat \<Rightarrow> 's \<Rightarrow> 's option"
  ops_start :: "nat \<Rightarrow> 's \<Rightarrow> 's option"
  ops_read :: "ptr \<Rightarrow> nat \<Rightarrow> 's \<Rightarrow> 's option"
  ops_end :: "nat \<Rightarrow> 's \<Rightarrow> 's option"
  ops_last :: "nat \<Rightarrow> 's \<Rightarrow> 's option"
  ops_retire :: "ptr \<Rightarrow> nat \<Rightarrow> 's \<Rightarrow> 's option"

fun hy_step :: "'s hy_ops \<Rightarrow> 's \<Rightarrow> hy_event \<Rightarrow> 's option" where
  "hy_step T s (HyAlloc p t) = ops_alloc T p t s"
| "hy_step T s (HyStart t) = ops_start T t s"
| "hy_step T s (HyRead a t) = ops_read T a t s"
| "hy_step T s (HyEnd t) = ops_end T t s"
| "hy_step T s (HyLast t) = ops_last T t s"
| "hy_step T s (HyRetire p t) = ops_retire T p t s"

text \<open>What a history says: the threads inside an operation, those that have entered the library
  and those that have left it for good, the objects in use and, in order, those retired.  With
  \<open>trims\<close> a thread stays in the library between its operations.\<close>

record hy_use =
  hu_inside :: "nat set"
  hu_entered :: "nat set"
  hu_gone :: "nat set"
  hu_live :: "ptr set"
  hu_retired :: "ptr list"

definition hy_idle :: hy_use where
  "hy_idle = \<lparr>hu_inside = {}, hu_entered = {}, hu_gone = {}, hu_live = {}, hu_retired = []\<rparr>"

fun hy_next :: "bool \<Rightarrow> hy_use \<Rightarrow> hy_event \<Rightarrow> hy_use" where
  "hy_next trims w (HyAlloc p t) = w\<lparr>hu_live := insert p (hu_live w)\<rparr>"
| "hy_next trims w (HyStart t) = w\<lparr>hu_inside := insert t (hu_inside w), hu_entered := insert t (hu_entered w)\<rparr>"
| "hy_next trims w (HyRead a t) = w"
| "hy_next trims w (HyEnd t) = w\<lparr>hu_inside := hu_inside w - {t},
     hu_entered := (if trims then hu_entered w else hu_entered w - {t})\<rparr>"
| "hy_next trims w (HyLast t) = w\<lparr>hu_entered := hu_entered w - {t}, hu_gone := insert t (hu_gone w)\<rparr>"
| "hy_next trims w (HyRetire p t) = w\<lparr>hu_live := hu_live w - {p}, hu_retired := hu_retired w @ [p]\<rparr>"

abbreviation hy_after :: "bool \<Rightarrow> hy_event list \<Rightarrow> hy_use" where
  "hy_after trims es \<equiv> foldl (hy_next trims) hy_idle es"

text \<open>The rules of use.  \<open>malloc\<close> returns a block that is neither in use nor waits for reclamation
  (it has been reclaimed as often as it has been retired), with a node the library can link
  (\<open>ok\<close>); an object in use is retired once; a thread reads inside an operation, starts one when it
  is in none, and calls \<open>last_end_op\<close> once, after its last operation.\<close>

fun hy_legal :: "bool \<Rightarrow> u64 \<Rightarrow> (ptr \<Rightarrow> bool) \<Rightarrow> hy_use \<Rightarrow> 'a base_scheme \<Rightarrow> hy_event \<Rightarrow> bool" where
  "hy_legal trims sz ok w s (HyAlloc p t) \<longleftrightarrow> t < task_num s \<and> p \<noteq> nullptr \<and> ok (p + sz) \<and> p \<notin> hu_live w
     \<and> count_list (hu_retired w) p = count_list (reclaimed s) p"
| "hy_legal trims sz ok w s (HyStart t) \<longleftrightarrow> t < task_num s \<and> t \<notin> hu_inside w \<and> t \<notin> hu_gone w"
| "hy_legal trims sz ok w s (HyRead a t) \<longleftrightarrow> t \<in> hu_inside w"
| "hy_legal trims sz ok w s (HyEnd t) \<longleftrightarrow> t \<in> hu_inside w"
| "hy_legal trims sz ok w s (HyLast t) \<longleftrightarrow> t < task_num s \<and> t \<notin> hu_inside w \<and> t \<notin> hu_gone w
     \<and> (trims \<longrightarrow> t \<in> hu_entered w)"
| "hy_legal trims sz ok w s (HyRetire p t) \<longleftrightarrow> t < task_num s \<and> p \<in> hu_live w"

text \<open>A run, and the condition that every step of it is legal in the state it starts from.\<close>

fun hy_run :: "'s hy_ops \<Rightarrow> hy_event list \<Rightarrow> 's \<Rightarrow> 's option" where
  "hy_run T [] s = Some s"
| "hy_run T (ev # es) s = (case hy_step T s ev of None \<Rightarrow> None | Some s' \<Rightarrow> hy_run T es s')"

fun hy_lawful :: "bool \<Rightarrow> 'a base_scheme hy_ops \<Rightarrow> u64 \<Rightarrow> (ptr \<Rightarrow> bool) \<Rightarrow> hy_use \<Rightarrow> hy_event list
    \<Rightarrow> 'a base_scheme \<Rightarrow> bool" where
  "hy_lawful trims T sz ok w [] s \<longleftrightarrow> True"
| "hy_lawful trims T sz ok w (ev # es) s \<longleftrightarrow> hy_legal trims sz ok w s ev
     \<and> (case hy_step T s ev of None \<Rightarrow> True | Some s' \<Rightarrow> hy_lawful trims T sz ok (hy_next trims w ev) es s')"

lemma hy_run_append:
  "hy_run T (xs @ ys) s = (case hy_run T xs s of None \<Rightarrow> None | Some s' \<Rightarrow> hy_run T ys s')"
  by (induction xs arbitrary: s) (auto split: option.splits)

lemma hy_lawful_append:
  "hy_lawful trims T sz ok w (xs @ ys) s \<Longrightarrow> hy_lawful trims T sz ok w xs s
     \<and> (\<forall>s'. hy_run T xs s = Some s' \<longrightarrow> hy_lawful trims T sz ok (foldl (hy_next trims) w xs) ys s')"
  by (induction xs arbitrary: w s) (auto split: option.splits)

lemma length_hy_retired: "length (hu_retired (foldl (hy_next trims) w es)) \<le> length (hu_retired w) + length es"
proof (induction es arbitrary: w)
  case (Cons ev es)
  have "length (hu_retired (hy_next trims w ev)) \<le> length (hu_retired w) + 1" by (cases ev) auto
  with Cons [of "hy_next trims w ev"] show ?case by simp
qed simp

text \<open>Thread \<open>u\<close> has read since it last could lose its place: with \<open>moves\<close> a thread may get another
  slot when it starts an operation.  \<open>b\<close> says that it had read before.\<close>

fun hy_looks :: "bool \<Rightarrow> nat \<Rightarrow> bool \<Rightarrow> hy_event list \<Rightarrow> bool" where
  "hy_looks moves u b [] \<longleftrightarrow> b"
| "hy_looks moves u b (HyRead a v # es) \<longleftrightarrow> hy_looks moves u (b \<or> u = v) es"
| "hy_looks moves u b (HyStart v # es) \<longleftrightarrow> hy_looks moves u (b \<and> \<not> (moves \<and> u = v)) es"
| "hy_looks moves u b (ev # es) \<longleftrightarrow> hy_looks moves u b es"

lemma hy_looks_stays: "hy_looks False u b es \<longleftrightarrow> b \<or> (\<exists>a. HyRead a u \<in> set es)"
  by (induction "False" u b es rule: hy_looks.induct) auto

lemma hy_looks_kept: "b \<Longrightarrow> HyStart u \<notin> set es \<Longrightarrow> hy_looks moves u b es"
  by (induction moves u b es rule: hy_looks.induct) auto

lemma hy_looks_mono: "b \<longrightarrow> c \<Longrightarrow> hy_looks moves u b es \<Longrightarrow> hy_looks moves u c es"
proof (induction es arbitrary: b c)
  case (Cons ev es)
  have "hy_looks moves u (b \<or> d) es \<Longrightarrow> hy_looks moves u (c \<or> d) es" "hy_looks moves u (b \<and> d) es \<Longrightarrow> hy_looks moves u (c \<and> d) es" for d
    using Cons.IH [of "b \<or> d" "c \<or> d"] Cons.IH [of "b \<and> d" "c \<and> d"] Cons.prems(1) by blast+
  with Cons show ?case by (cases ev) auto
qed simp

lemma hy_looks_read: "HyStart u \<notin> set ys \<Longrightarrow> hy_looks moves u b (xs @ HyRead a u # ys)"
  by (induction moves u b xs rule: hy_looks.induct) (auto simp: hy_looks_kept)

section \<open>Nodes that wait\<close>

definition pool :: "nat \<Rightarrow> (nat \<Rightarrow> ptr list) \<Rightarrow> ptr list list \<Rightarrow> ptr list" where
  "pool n W B = concat (map W [0..<n]) @ concat B"

lemma set_pool: "x \<in> set (pool n W B) \<longleftrightarrow> (\<exists>t<n. x \<in> set (W t)) \<or> x \<in> set (concat B)"
  by (auto simp: pool_def)

lemma pool_disjoint:
  assumes "distinct (pool n W B)" "u < n"
  shows "set (W u) \<inter> set (concat B) = {}"
proof -
  have "set (W u) \<subseteq> set (concat (map W [0..<n]))" using assms(2) by auto
  moreover have "set (concat (map W [0..<n])) \<inter> set (concat B) = {}"
    using assms(1) unfolding pool_def distinct_append by blast
  ultimately show ?thesis by blast
qed

lemma mset_pool_upd:
  "t < n \<Longrightarrow> mset (pool n (W(t := ys)) B) + mset (W t) = mset (pool n W B) + mset ys"
  using mset_concat_upd [of t n W ys] by (simp add: pool_def)

lemma pool_open:
  assumes "distinct (pool n W B)" "t < n"
  shows "distinct (W t)" "u < n \<Longrightarrow> u \<noteq> t \<Longrightarrow> set (W t) \<inter> set (W u) = {}"
proof -
  have d: "distinct (concat (map W [0..<n]))" using assms(1) by (simp add: pool_def)
  show "distinct (W t)" using d assms(2) by (auto simp: distinct_concat_iff)
  show "u < n \<Longrightarrow> u \<noteq> t \<Longrightarrow> set (W t) \<inter> set (W u) = {}"
    by (rule concat_map_disjoint [OF d]) (use assms(2) in auto)
qed

text \<open>Node \<open>x\<close> is safe from everybody but thread \<open>u\<close>: it is in an open batch and \<open>u\<close> will get it,
  or it is in a batch that \<open>u\<close> holds back.\<close>

definition hy_guarded :: "('s \<Rightarrow> nat \<Rightarrow> ptr \<Rightarrow> bool) \<Rightarrow> nat \<Rightarrow> (nat \<Rightarrow> ptr list \<Rightarrow> bool) \<Rightarrow> ptr list list
    \<Rightarrow> (nat \<Rightarrow> ptr list) \<Rightarrow> 's \<Rightarrow> nat \<Rightarrow> ptr \<Rightarrow> bool" where
  "hy_guarded sees n g B W s u x \<longleftrightarrow> (\<exists>v<n. x \<in> set (W v)) \<and> sees s u x \<or> (\<exists>b \<in> set B. x \<in> set b \<and> g u b)"

section \<open>The contract\<close>

text \<open>What a step that writes only to the nodes in \<open>X\<close> leaves: the open batches of the threads
  outside \<open>V\<close>, and what is seen and born where \<open>next\<close>, the place of the birth epoch, stays.\<close>

definition hy_keeps :: "('a smr_scheme \<Rightarrow> nat \<Rightarrow> ptr list \<Rightarrow> bool) \<Rightarrow> ('a smr_scheme \<Rightarrow> nat \<Rightarrow> ptr \<Rightarrow> bool)
    \<Rightarrow> ('a smr_scheme \<Rightarrow> ptr \<Rightarrow> bool) \<Rightarrow> ptr set \<Rightarrow> nat set \<Rightarrow> 'a smr_scheme \<Rightarrow> 'a smr_scheme \<Rightarrow> bool" where
  "hy_keeps Open sees born X V s s' \<longleftrightarrow> same_nodes X s s'
     \<and> (\<forall>u xs. u \<notin> V \<longrightarrow> X \<inter> set xs = {} \<longrightarrow> Open s u xs \<longrightarrow> Open s' u xs)
     \<and> (\<forall>u x. smr_next s' x = smr_next s x \<longrightarrow> sees s u x \<longrightarrow> sees s' u x)
     \<and> (\<forall>x. smr_next s' x = smr_next s x \<longrightarrow> born s x \<longrightarrow> born s' x)"

text \<open>What leaving or trimming gives back: the batches \<open>F\<close>; a batch that a thread in \<open>G\<close> holds
  back stays.\<close>

definition hy_drop :: "u64 \<Rightarrow> nat set \<Rightarrow> (nat \<Rightarrow> ptr list \<Rightarrow> bool) \<Rightarrow> ptr list list \<Rightarrow> 'a base_scheme
    \<Rightarrow> (nat \<Rightarrow> ptr list \<Rightarrow> bool) \<Rightarrow> ptr list list \<Rightarrow> ptr list list \<Rightarrow> 'a base_scheme \<Rightarrow> bool" where
  "hy_drop sz G g B s g' B' F s' \<longleftrightarrow> mset (concat B) = mset (concat B') + mset (concat F)
     \<and> reclaimed s' = reclaimed s @ map (\<lambda>x. x - sz) (concat F)
     \<and> (\<forall>u \<in> G. \<forall>b \<in> set B. g u b \<longrightarrow> b \<in> set B' \<and> g' u b)"

locale hy_tracker =
  fixes T :: "'a smr_scheme hy_ops" and n m :: nat and sz :: u64 and ok :: "ptr \<Rightarrow> bool" and fuel limit :: nat
    and trims moves :: bool
    and Inv :: "nat \<Rightarrow> nat set \<Rightarrow> nat set \<Rightarrow> (nat \<Rightarrow> ptr list \<Rightarrow> bool) \<Rightarrow> ptr list list \<Rightarrow> 'a smr_scheme \<Rightarrow> bool"
    and Open :: "'a smr_scheme \<Rightarrow> nat \<Rightarrow> ptr list \<Rightarrow> bool"
    and sees :: "'a smr_scheme \<Rightarrow> nat \<Rightarrow> ptr \<Rightarrow> bool"
    and born :: "'a smr_scheme \<Rightarrow> ptr \<Rightarrow> bool"
  assumes ok_null: "ok x \<Longrightarrow> x \<noteq> 0"
    and inv_threads: "Inv e A D g B s \<Longrightarrow> A \<subseteq> {..<n} \<and> task_num s = n"
    and inv_idle: "Inv e {} D g B s \<Longrightarrow> B = []"
    and open_length: "Open s t xs \<Longrightarrow> length xs < m"
    and alloc: "Inv e A D g B s \<Longrightarrow> t < n \<Longrightarrow> x \<notin> set (concat B) \<Longrightarrow> ok x \<Longrightarrow> Suc e < limit \<Longrightarrow>
      \<exists>s'. ops_alloc T (x - sz) t s = Some s' \<and> Inv (Suc e) A D g B s' \<and> hy_keeps Open sees born {x} {} s s'
        \<and> reclaimed s' = reclaimed s \<and> born s' x"
    and start: "Inv e A D g B s \<Longrightarrow> t < n \<Longrightarrow> t \<notin> D \<Longrightarrow> trims \<or> t \<notin> A \<Longrightarrow>
      \<exists>s' g'. ops_start T t s = Some s' \<and> Inv e (insert t A) D g' B s'
        \<and> hy_keeps Open (\<lambda>s u x. sees s u x \<and> \<not> (moves \<and> u = t)) born {} {} s s'
        \<and> reclaimed s' = reclaimed s \<and> (\<forall>u \<in> A. \<forall>b \<in> set B. g u b \<longrightarrow> g' u b)"
    and read: "Inv e A D g B s \<Longrightarrow> t \<in> A \<Longrightarrow>
      \<exists>s'. ops_read T a t s = Some s' \<and> Inv e A D g B s' \<and> hy_keeps Open sees born {} {} s s'
        \<and> reclaimed s' = reclaimed s \<and> (\<forall>x. born s x \<longrightarrow> sees s' t x)"
    and leave: "Inv e A D g B s \<Longrightarrow> t \<in> A \<Longrightarrow> \<forall>x \<in> set (concat B). ok x \<and> x \<noteq> sz \<Longrightarrow> length (concat B) < fuel \<Longrightarrow>
      \<exists>s' g' B' F. ops_end T t s = Some s' \<and> Inv e (if trims then A else A - {t}) D g' B' s'
        \<and> hy_keeps Open sees born (set (concat B)) {} s s' \<and> hy_drop sz (A - {t}) g B s g' B' F s'"
    and last_end: "Inv e A D g B s \<Longrightarrow> t < n \<Longrightarrow> t \<notin> D \<Longrightarrow> trims \<longleftrightarrow> t \<in> A \<Longrightarrow>
      \<forall>x \<in> set (concat B). ok x \<and> x \<noteq> sz \<Longrightarrow> length (concat B) < fuel \<Longrightarrow>
      \<exists>s' g' B' F. ops_last T t s = Some s' \<and> Inv e (A - {t}) (insert t D) g' B' s'
        \<and> hy_keeps Open sees born (set (concat B)) {} s s' \<and> hy_drop sz (A - {t}) g B s g' B' F s'"
    and retire_open: "Inv e A D g B s \<Longrightarrow> t < n \<Longrightarrow> Open s t xs \<Longrightarrow> distinct (x # xs)
      \<Longrightarrow> set (x # xs) \<inter> set (concat B) = {} \<Longrightarrow> \<forall>y \<in> set (x # xs). ok y \<and> y \<noteq> sz \<Longrightarrow> born s x
      \<Longrightarrow> Suc (length xs) < m \<Longrightarrow>
      \<exists>s'. ops_retire T (x - sz) t s = Some s' \<and> Inv e A D g B s' \<and> Open s' t (x # xs)
        \<and> hy_keeps Open sees born {x} {t} s s' \<and> smr_next s' x = smr_next s x \<and> reclaimed s' = reclaimed s"
    and retire_full: "Inv e A D g B s \<Longrightarrow> t < n \<Longrightarrow> Open s t xs \<Longrightarrow> distinct (x # xs)
      \<Longrightarrow> set (x # xs) \<inter> set (concat B) = {} \<Longrightarrow> \<forall>y \<in> set (x # xs). ok y \<and> y \<noteq> sz \<Longrightarrow> born s x
      \<Longrightarrow> Suc (length xs) = m \<Longrightarrow> length (x # xs) < fuel \<Longrightarrow>
      \<exists>s'. ops_retire T (x - sz) t s = Some s' \<and> Open s' t []
        \<and> hy_keeps Open sees born (set (x # xs) \<union> set (concat B)) {t} s s'
        \<and> (reclaimed s' = reclaimed s @ map (\<lambda>y. y - sz) (x # xs) \<and> Inv e A D g B s'
             \<and> (\<forall>u \<in> A. \<forall>y \<in> set (x # xs). \<not> sees s u y)
           \<or> reclaimed s' = reclaimed s \<and> (\<exists>g'. Inv e A D g' ((x # xs) # B) s'
             \<and> (\<forall>u \<in> A. ((\<exists>y \<in> set (x # xs). sees s u y) \<longrightarrow> g' u (x # xs)) \<and> (\<forall>c \<in> set B. g u c \<longrightarrow> g' u c))))"

begin

abbreviation guarded where
  "guarded \<equiv> hy_guarded sees n"

abbreviation keeps where
  "keeps \<equiv> hy_keeps Open sees born"

definition inv :: "hy_use \<Rightarrow> (nat \<Rightarrow> ptr list \<Rightarrow> bool) \<Rightarrow> ptr list list \<Rightarrow> (nat \<Rightarrow> ptr list) \<Rightarrow> nat
    \<Rightarrow> 'a smr_scheme \<Rightarrow> bool" where
  "inv w g B W e s \<longleftrightarrow> Inv e (hu_entered w) (hu_gone w) g B s \<and> (\<forall>t < n. Open s t (W t))
     \<and> distinct (pool n W B) \<and> (\<forall>x \<in> set (pool n W B). ok x \<and> x \<noteq> sz)
     \<and> mset (hu_retired w) = mset (reclaimed s) + mset (map (\<lambda>x. x - sz) (pool n W B))
     \<and> hu_inside w \<subseteq> hu_entered w \<and> (trims \<or> hu_inside w = hu_entered w)
     \<and> (\<forall>p \<in> hu_live w. p \<noteq> nullptr \<and> ok (p + sz) \<and> p + sz \<notin> set (pool n W B) \<and> born s (p + sz))"

lemma invD:
  assumes "inv w g B W e s"
  shows "Inv e (hu_entered w) (hu_gone w) g B s" "t < n \<Longrightarrow> Open s t (W t)" "distinct (pool n W B)"
    "x \<in> set (pool n W B) \<Longrightarrow> ok x \<and> x \<noteq> sz"
    "mset (hu_retired w) = mset (reclaimed s) + mset (map (\<lambda>x. x - sz) (pool n W B))"
    "hu_inside w \<subseteq> hu_entered w" "trims \<or> hu_inside w = hu_entered w"
    "p \<in> hu_live w \<Longrightarrow> p \<noteq> nullptr \<and> ok (p + sz) \<and> p + sz \<notin> set (pool n W B) \<and> born s (p + sz)"
    "hu_entered w \<subseteq> {..<n}" "task_num s = n" "\<forall>x \<in> set (concat B). ok x \<and> x \<noteq> sz"
proof -
  note 1 = assms [unfolded inv_def] note 2 = 1 [THEN conjunct2] note 3 = 2 [THEN conjunct2]
  note 4 = 3 [THEN conjunct2] note 5 = 4 [THEN conjunct2] note 6 = 5 [THEN conjunct2] note 7 = 6 [THEN conjunct2]
  show I: "Inv e (hu_entered w) (hu_gone w) g B s" by (rule 1 [THEN conjunct1])
  show "t < n \<Longrightarrow> Open s t (W t)" using 2 [THEN conjunct1] by blast
  show "distinct (pool n W B)" by (rule 3 [THEN conjunct1])
  show "x \<in> set (pool n W B) \<Longrightarrow> ok x \<and> x \<noteq> sz" using 4 [THEN conjunct1] by blast
  show "mset (hu_retired w) = mset (reclaimed s) + mset (map (\<lambda>x. x - sz) (pool n W B))"
    by (rule 5 [THEN conjunct1])
  show "hu_inside w \<subseteq> hu_entered w" by (rule 6 [THEN conjunct1])
  show "trims \<or> hu_inside w = hu_entered w" by (rule 7 [THEN conjunct1])
  show "p \<in> hu_live w \<Longrightarrow> p \<noteq> nullptr \<and> ok (p + sz) \<and> p + sz \<notin> set (pool n W B) \<and> born s (p + sz)"
    using 7 [THEN conjunct2] by blast
  show "hu_entered w \<subseteq> {..<n}" "task_num s = n" using inv_threads [OF I] by blast+
  show "\<forall>x \<in> set (concat B). ok x \<and> x \<noteq> sz" using 4 [THEN conjunct1] by (simp add: set_pool)
qed

text \<open>The invariant after a step: the nodes \<open>ys\<close> are new, the nodes \<open>zs\<close> freed.\<close>

lemma inv_next:
  assumes inv: "inv w g B W e s" and lib: "Inv e' (hu_entered w') (hu_gone w') g' B' s'"
    and opn: "\<And>t. t < n \<Longrightarrow> Open s' t (W' t)"
    and ms: "mset (pool n W' B') + mset zs = mset (pool n W B) + mset ys"
    and ys: "distinct ys" "set ys \<inter> set (pool n W B) = {}" "\<forall>y \<in> set ys. ok y \<and> y \<noteq> sz"
    and rec: "reclaimed s' = reclaimed s @ map (\<lambda>x. x - sz) zs"
    and ret: "hu_retired w' = hu_retired w @ map (\<lambda>x. x - sz) ys"
    and inside: "hu_inside w' \<subseteq> hu_entered w'" "trims \<or> hu_inside w' = hu_entered w'"
    and live: "\<And>p. p \<in> hu_live w' \<Longrightarrow> p \<noteq> nullptr \<and> ok (p + sz) \<and> p + sz \<notin> set (pool n W B) \<union> set ys \<and> born s' (p + sz)"
  shows "inv w' g' B' W' e' s'"
proof -
  note I = invD [OF inv]
  let ?P = "pool n W' B'" let ?Q = "pool n W B"
  have e: "mset (?P @ zs) = mset (?Q @ ys)" using ms by simp
  then have "distinct (?P @ zs)" using mset_eq_imp_distinct_iff [OF e] I(3) ys(1,2) by auto
  then have d: "distinct ?P" by simp
  have sub: "set ?P \<subseteq> set ?Q \<union> set ys" using mset_eq_setD [OF e] by auto
  have "mset (hu_retired w') = mset (reclaimed s') + mset (map (\<lambda>x. x - sz) ?P)"
  proof -
    have "mset (map (\<lambda>x. x - sz) (?P @ zs)) = mset (map (\<lambda>x. x - sz) (?Q @ ys))"
      using arg_cong [OF e, of "image_mset (\<lambda>x. x - sz)"] by (simp only: mset_map)
    then show ?thesis using I(5) unfolding ret rec by (simp del: mset_map add: ac_simps)
  qed
  moreover have "\<forall>x \<in> set ?P. ok x \<and> x \<noteq> sz" using sub I(4) ys(3) by blast
  moreover have "\<forall>p \<in> hu_live w'. p \<noteq> nullptr \<and> ok (p + sz) \<and> p + sz \<notin> set ?P \<and> born s' (p + sz)"
    using live sub by blast
  moreover have "\<forall>t < n. Open s' t (W' t)" using opn by blast
  ultimately show ?thesis using lib d inside unfolding inv_def by (intro conjI)
qed

text \<open>One step: the new ghost data, the nodes freed, and what stays or becomes guarded (\<open>X\<close>) from
  the threads in \<open>G\<close>.  What a thread outside \<open>M\<close> sees of the objects that stay in use does not change.\<close>

definition advance :: "hy_use \<Rightarrow> (nat \<Rightarrow> ptr list \<Rightarrow> bool) \<Rightarrow> ptr list list \<Rightarrow> (nat \<Rightarrow> ptr list) \<Rightarrow> nat
    \<Rightarrow> 'a smr_scheme \<Rightarrow> nat set \<Rightarrow> ptr set \<Rightarrow> nat set \<Rightarrow> hy_use \<Rightarrow> 'a smr_scheme \<Rightarrow> bool" where
  "advance w g B W e s G X M w' s' \<longleftrightarrow> (\<exists>g' B' W' e' xs.
     inv w' g' B' W' e' s' \<and> e' \<le> Suc e \<and> reclaimed s' = reclaimed s @ map (\<lambda>x. x - sz) xs
     \<and> (\<forall>u \<in> G. \<forall>x. guarded g B W s u x \<or> x \<in> X \<and> sees s u x \<longrightarrow> guarded g' B' W' s' u x \<and> x \<notin> set xs)
     \<and> (\<forall>u. u \<notin> M \<longrightarrow> (\<forall>p \<in> hu_live w \<inter> hu_live w'. sees s u (p + sz) \<longrightarrow> sees s' u (p + sz))))"

lemma advanceI:
  assumes "inv w' g' B' W' e' s'" "e' \<le> Suc e" "reclaimed s' = reclaimed s @ map (\<lambda>x. x - sz) xs"
    "\<And>u x. u \<in> G \<Longrightarrow> guarded g B W s u x \<or> x \<in> X \<and> sees s u x \<Longrightarrow> guarded g' B' W' s' u x \<and> x \<notin> set xs"
    "\<And>u p. u \<notin> M \<Longrightarrow> p \<in> hu_live w \<Longrightarrow> p \<in> hu_live w' \<Longrightarrow> sees s u (p + sz) \<Longrightarrow> sees s' u (p + sz)"
  shows "advance w g B W e s G X M w' s'"
  unfolding advance_def using assms by blast

lemma advanceE:
  assumes "advance w g B W e s G X M w' s'"
  obtains g' B' W' e' xs where "inv w' g' B' W' e' s'" "e' \<le> Suc e" "reclaimed s' = reclaimed s @ map (\<lambda>x. x - sz) xs"
    "\<And>u x. u \<in> G \<Longrightarrow> guarded g B W s u x \<or> x \<in> X \<and> sees s u x \<Longrightarrow> guarded g' B' W' s' u x \<and> x \<notin> set xs"
    "\<And>u p. u \<notin> M \<Longrightarrow> p \<in> hu_live w \<Longrightarrow> p \<in> hu_live w' \<Longrightarrow> sees s u (p + sz) \<Longrightarrow> sees s' u (p + sz)"
  using assms unfolding advance_def by blast

lemma keepsD:
  assumes "keeps X V s s'"
  shows "same_nodes X s s'" "u \<notin> V \<Longrightarrow> X \<inter> set xs = {} \<Longrightarrow> Open s u xs \<Longrightarrow> Open s' u xs"
    "smr_next s' x = smr_next s x \<Longrightarrow> sees s u x \<Longrightarrow> sees s' u x"
    "smr_next s' x = smr_next s x \<Longrightarrow> born s x \<Longrightarrow> born s' x"
    "x \<notin> X \<Longrightarrow> smr_next s' x = smr_next s x"
  using assms unfolding hy_keeps_def same_nodes_def by blast+

lemma pool_length: "inv w g B W e s \<Longrightarrow> length (pool n W B) \<le> length (hu_retired w)"
  using arg_cong [OF invD(5), of w g B W e s size] by simp

lemma pool_new:
  assumes inv: "inv w g B W e s" and c: "count_list (hu_retired w) p = count_list (reclaimed s) p"
  shows "p + sz \<notin> set (pool n W B)"
proof
  let ?P = "pool n W B"
  assume "p + sz \<in> set ?P"
  then have "p \<in># mset (map (\<lambda>x. x - sz) ?P)" by force
  then have "0 < count (mset (map (\<lambda>x. x - sz) ?P)) p" by (simp only: count_greater_zero_iff)
  moreover have "count (mset (hu_retired w)) p = count (mset (reclaimed s)) p + count (mset (map (\<lambda>x. x - sz) ?P)) p"
    using invD(5) [OF inv] by simp
  ultimately show False using c by (simp add: count_mset del: mset_map)
qed

section \<open>Steps\<close>

lemma keeps_seen: "keeps X V s s' \<Longrightarrow> x \<notin> X \<Longrightarrow> sees s u x \<Longrightarrow> sees s' u x"
  using keepsD(3,5) by blast

text \<open>A step that writes to no node.\<close>

lemma quiet_step:
  assumes inv: "inv w g B W e s" and lib: "Inv e (hu_entered w') (hu_gone w') g' B s'"
    and k: "hy_keeps Open (\<lambda>s u x. sees s u x \<and> u \<notin> M) born {} {} s s'" and GM: "G \<inter> M = {}"
    and rec: "reclaimed s' = reclaimed s"
    and use: "hu_inside w' \<subseteq> hu_entered w'" "trims \<or> hu_inside w' = hu_entered w'"
      "hu_retired w' = hu_retired w" "hu_live w' = hu_live w"
    and g: "\<And>u b. u \<in> G \<Longrightarrow> b \<in> set B \<Longrightarrow> g u b \<Longrightarrow> g' u b"
  shows "advance w g B W e s G {} M w' s'"
proof (rule advanceI [where xs = "[]" and e' = e and W' = W])
  note I = invD [OF inv]
  have K: "Open s u xs \<Longrightarrow> Open s' u xs" "u \<notin> M \<Longrightarrow> sees s u x \<Longrightarrow> sees s' u x" "born s x \<Longrightarrow> born s' x" for u xs x
    using k unfolding hy_keeps_def same_nodes_def by blast+
  show "inv w' g' B W e s'"
  proof (rule inv_next [OF inv lib, where zs = "[]" and ys = "[]"])
    show "Open s' t (W t)" if "t < n" for t using K(1) I(2) [OF that] by simp
    show "p \<noteq> nullptr \<and> ok (p + sz) \<and> p + sz \<notin> set (pool n W B) \<union> set [] \<and> born s' (p + sz)" if "p \<in> hu_live w'" for p
      using I(8) [of p] K(3) that use(4) by simp
  qed (use use rec in simp_all)
  show "guarded g' B W s' u x \<and> x \<notin> set []" if "u \<in> G" "guarded g B W s u x \<or> x \<in> {} \<and> sees s u x" for u x
    using that g K(2) [of u x] GM by (auto simp: hy_guarded_def)
  show "sees s' u (p + sz)" if "u \<notin> M" "sees s u (p + sz)" for u p by (rule K(2) [OF that])
qed (use rec in simp_all)

text \<open>A step that gives batches back.\<close>

lemma drop_step:
  assumes inv: "inv w g B W e s" and lib: "Inv e (hu_entered w') (hu_gone w') g' B' s'"
    and k: "keeps (set (concat B)) {} s s'" and drop: "hy_drop sz H g B s g' B' F s'" and G: "G \<subseteq> H"
    and use: "hu_inside w' \<subseteq> hu_entered w'" "trims \<or> hu_inside w' = hu_entered w'"
      "hu_retired w' = hu_retired w" "hu_live w' = hu_live w"
  shows "advance w g B W e s G {} {} w' s'"
proof (rule advanceI [where xs = "concat F" and e' = e and W' = W])
  note I = invD [OF inv] and K = keepsD [OF k]
  have D: "mset (concat B) = mset (concat B') + mset (concat F)"
    "reclaimed s' = reclaimed s @ map (\<lambda>x. x - sz) (concat F)"
    "\<And>u b. u \<in> H \<Longrightarrow> b \<in> set B \<Longrightarrow> g u b \<Longrightarrow> b \<in> set B' \<and> g' u b"
    using drop unfolding hy_drop_def by blast+
  have wait: "set (W u) \<inter> set (concat B) = {}" if "u < n" for u by (rule pool_disjoint [OF I(3) that])
  have sets: "set (concat B) = set (concat B') \<union> set (concat F)" using arg_cong [OF D(1), of set_mset] by simp
  have "mset (pool n W B' @ concat F) = mset (pool n W B)" using D(1) by (simp add: pool_def)
  note ms = mset_eq_imp_distinct_iff [OF this]
  have dis: "set (concat B') \<inter> set (concat F) = {}" using I(3) ms unfolding distinct_append by (auto simp: pool_def)
  have live: "p + sz \<notin> set (concat B)" if "p \<in> hu_live w" for p using I(8) [OF that] by (simp add: set_pool)
  show "inv w' g' B' W e s'"
  proof (rule inv_next [OF inv lib, where zs = "concat F" and ys = "[]"])
    show "Open s' t (W t)" if "t < n" for t using K(2) [of t "W t"] I(2) [OF that] wait [OF that] by (simp add: Int_commute)
    show "p \<noteq> nullptr \<and> ok (p + sz) \<and> p + sz \<notin> set (pool n W B) \<union> set [] \<and> born s' (p + sz)" if "p \<in> hu_live w'" for p
      using I(8) [of p] K(4,5) that use(4) live [of p] by simp
  qed (use use D(1,2) in \<open>simp_all add: pool_def\<close>)
  show "guarded g' B' W s' u x \<and> x \<notin> set (concat F)"
    if u: "u \<in> G" and gx: "guarded g B W s u x \<or> x \<in> {} \<and> sees s u x" for u x
  proof (cases "(\<exists>v < n. x \<in> set (W v)) \<and> sees s u x")
    case True
    then have x: "x \<notin> set (concat B)" using wait by blast
    with True keeps_seen [OF k x] sets show ?thesis by (auto simp: hy_guarded_def)
  next
    case False
    with gx obtain b where b: "b \<in> set B" "x \<in> set b" "g u b" unfolding hy_guarded_def by blast
    have b': "b \<in> set B'" "g' u b" using D(3) [OF _ b(1,3)] u G by blast+
    then have "x \<in> set (concat B')" using b(2) by auto
    then have "x \<notin> set (concat F)" using dis by blast
    with b' b(2) show ?thesis unfolding hy_guarded_def by blast
  qed
  show "sees s' u (p + sz)" if "p \<in> hu_live w" "sees s u (p + sz)" for u p
    by (rule keeps_seen [OF k live [OF that(1)] that(2)])
  show "reclaimed s' = reclaimed s @ map (\<lambda>x. x - sz) (concat F)" by (rule D(2))
qed simp

lemma alloc_step:
  assumes inv: "inv w g B W e s" and legal: "hy_legal trims sz ok w s (HyAlloc p t)" and e: "Suc e < limit"
  shows "\<exists>s'. ops_alloc T p t s = Some s' \<and> advance w g B W e s (hu_inside w) {} {} (hy_next trims w (HyAlloc p t)) s'"
proof -
  note I = invD [OF inv]
  let ?x = "p + sz" let ?w = "hy_next trims w (HyAlloc p t)"
  have p: "t < n" "p \<noteq> nullptr" "ok ?x" "p \<notin> hu_live w" and new: "?x \<notin> set (pool n W B)"
    using legal I(10) pool_new [OF inv] by auto
  then have xB: "?x \<notin> set (concat B)" and xW: "\<And>u. u < n \<Longrightarrow> ?x \<notin> set (W u)" by (auto simp: set_pool)
  obtain s' where r: "ops_alloc T p t s = Some s'" "Inv (Suc e) (hu_entered w) (hu_gone w) g B s'" "keeps {?x} {} s s'"
    "reclaimed s' = reclaimed s" "born s' ?x"
    using alloc [OF I(1) p(1) xB p(3) e] by auto
  note K = keepsD [OF r(3)]
  have other: "q + sz \<noteq> ?x" if "q \<in> hu_live w" for q using that p(4) by auto
  have "advance w g B W e s (hu_inside w) {} {} ?w s'"
  proof (rule advanceI [where xs = "[]" and e' = "Suc e" and W' = W])
    show "inv ?w g B W (Suc e) s'"
    proof (rule inv_next [OF inv, where zs = "[]" and ys = "[]"])
      show "Inv (Suc e) (hu_entered ?w) (hu_gone ?w) g B s'" using r(2) by simp
      show "Open s' u (W u)" if "u < n" for u using K(2) [of u "W u"] I(2) [OF that] xW [OF that] by simp
      show "q \<noteq> nullptr \<and> ok (q + sz) \<and> q + sz \<notin> set (pool n W B) \<union> set [] \<and> born s' (q + sz)"
        if q: "q \<in> hu_live ?w" for q
      proof (cases "q = p")
        case True
        with p new r(5) show ?thesis by simp
      next
        case False
        with q have q: "q \<in> hu_live w" by simp
        with I(8) [OF q] K(4,5) [of "q + sz"] other [OF q] show ?thesis by simp
      qed
    qed (use r(4) I(6,7) in simp_all)
    show "guarded g B W s' u x \<and> x \<notin> set []" if "guarded g B W s u x \<or> x \<in> {} \<and> sees s u x" for u x
    proof -
      have "x \<noteq> ?x" if "v < n" "x \<in> set (W v)" for v using xW that by blast
      with that keeps_seen [OF r(3), of x u] show ?thesis by (auto simp: hy_guarded_def)
    qed
    show "sees s' u (q + sz)" if "q \<in> hu_live w" "sees s u (q + sz)" for u q
      using keeps_seen [OF r(3) _ that(2)] other [OF that(1)] by simp
  qed (use r(4) in simp_all)
  with r(1) show ?thesis by blast
qed

lemma retire_step:
  assumes inv: "inv w g B W e s" and legal: "hy_legal trims sz ok w s (HyRetire p t)"
    and fuel: "length (hu_retired w) + 1 < fuel"
  shows "\<exists>s'. ops_retire T p t s = Some s'
    \<and> advance w g B W e s (hu_inside w) {p + sz} {} (hy_next trims w (HyRetire p t)) s'"
proof -
  note I = invD [OF inv]
  let ?x = "p + sz" let ?xs = "W t" let ?b = "?x # ?xs" let ?w = "hy_next trims w (HyRetire p t)"
  have t: "t < n" and lp: "p \<in> hu_live w" using legal I(10) by simp_all
  have p: "p \<noteq> nullptr" "ok ?x" "born s ?x" and new: "?x \<notin> set (pool n W B)" using I(8) [OF lp] by blast+
  have okx: "?x \<noteq> sz" "?x - sz = p" using p(1) by simp_all
  have xB: "?x \<notin> set (concat B)" and xW: "\<And>u. u < n \<Longrightarrow> ?x \<notin> set (W u)" using new by (auto simp: set_pool)
  have db: "distinct ?b" using pool_open(1) [OF I(3) t] xW [OF t] by simp
  have bB: "set ?b \<inter> set (concat B) = {}" using pool_disjoint [OF I(3) t] xB by auto
  have sub: "set ?xs \<subseteq> set (pool n W B)" using t by (auto simp: set_pool)
  have okb: "\<forall>y \<in> set ?b. ok y \<and> y \<noteq> sz" using I(4) sub p(2) okx(1) by auto
  have bW: "set ?b \<inter> set (W u) = {}" if "u < n" "u \<noteq> t" for u
    using pool_open(2) [OF I(3) t that] xW [OF that(1)] by auto
  have live: "q \<in> hu_live w \<and> q + sz \<notin> set ?b \<union> set (concat B)" if "q \<in> hu_live ?w" for q
  proof -
    have "q \<in> hu_live w" "q + sz \<noteq> ?x" using that by auto
    then show ?thesis using I(8) [of q] sub by (auto simp: pool_def)
  qed
  note nxt = inv_next [OF inv, where w' = ?w]
  show ?thesis
  proof (cases "Suc (length ?xs) < m")
    case True
    obtain s' where r: "ops_retire T p t s = Some s'" "Inv e (hu_entered w) (hu_gone w) g B s'" "Open s' t ?b"
      "keeps {?x} {t} s s'" "smr_next s' ?x = smr_next s ?x" "reclaimed s' = reclaimed s"
      using retire_open [OF I(1) t I(2) [OF t] db bB okb p(3) True] okx(2) by auto
    note K = keepsD [OF r(4)]
    have seen: "sees s u y \<Longrightarrow> sees s' u y" for u y using K(3) [of y u] K(5) [of y] r(5) by (cases "y = ?x") auto
    have "advance w g B W e s (hu_inside w) {?x} {} ?w s'"
    proof (rule advanceI [where xs = "[]" and e' = e and W' = "W(t := ?b)"])
      show "inv ?w g B (W(t := ?b)) e s'"
      proof (rule nxt [where zs = "[]" and ys = "[?x]"])
        show "Open s' u ((W(t := ?b)) u)" if "u < n" for u
          using r(3) K(2) [of u "W u"] I(2) [OF that] xW [OF that] by (cases "u = t") auto
        show "q \<noteq> nullptr \<and> ok (q + sz) \<and> q + sz \<notin> set (pool n W B) \<union> set [?x] \<and> born s' (q + sz)"
          if "q \<in> hu_live ?w" for q
          using I(8) [of q] live [OF that] K(4,5) [of "q + sz"] that by auto
        show "mset (pool n (W(t := ?b)) B) + mset [] = mset (pool n W B) + mset [?x]"
          using mset_pool_upd [OF t, of W ?b B] by simp
      qed (use r(2,6) I(6,7) new p(2) okx in simp_all)
      show "guarded g B (W(t := ?b)) s' u y \<and> y \<notin> set []"
        if "guarded g B W s u y \<or> y \<in> {?x} \<and> sees s u y" for u y
        using that seen [of u y] t by (auto simp: hy_guarded_def)
      show "sees s u (q + sz) \<Longrightarrow> sees s' u (q + sz)" for u q by (rule seen)
    qed (use r(6) in simp_all)
    with r(1) show ?thesis by blast
  next
    case False
    then have len: "Suc (length ?xs) = m" using open_length [OF I(2) [OF t]] by simp
    have "length ?xs \<le> length (pool n W B)"
      using card_mono [OF _ sub] distinct_card [of ?xs] db distinct_card [OF I(3)] by simp
    then have fu: "length ?b < fuel" using pool_length [OF inv] fuel by simp
    obtain s' where r: "ops_retire T p t s = Some s'" "Open s' t []" "keeps (set ?b \<union> set (concat B)) {t} s s'"
      "reclaimed s' = reclaimed s @ map (\<lambda>y. y - sz) ?b \<and> Inv e (hu_entered w) (hu_gone w) g B s'
           \<and> (\<forall>u \<in> hu_entered w. \<forall>y \<in> set ?b. \<not> sees s u y)
         \<or> reclaimed s' = reclaimed s \<and> (\<exists>g'. Inv e (hu_entered w) (hu_gone w) g' (?b # B) s'
           \<and> (\<forall>u \<in> hu_entered w. ((\<exists>y \<in> set ?b. sees s u y) \<longrightarrow> g' u ?b) \<and> (\<forall>c \<in> set B. g u c \<longrightarrow> g' u c)))"
      using retire_full [OF I(1) t I(2) [OF t] db bB okb p(3) len fu] unfolding okx(2) by blast
    note K = keepsD [OF r(3)]
    have opens: "Open s' u ((W(t := [])) u)" if u: "u < n" for u
    proof (cases "u = t")
      case False
      then have "(set ?b \<union> set (concat B)) \<inter> set (W u) = {}" using bW [OF u] pool_disjoint [OF I(3) u] by blast
      with False K(2) [of u "W u"] I(2) [OF u] show ?thesis by simp
    qed (use r(2) in simp)
    have lives: "q \<noteq> nullptr \<and> ok (q + sz) \<and> q + sz \<notin> set (pool n W B) \<union> set [?x] \<and> born s' (q + sz)"
      if "q \<in> hu_live ?w" for q
      using I(8) [of q] live [OF that] K(4,5) [of "q + sz"] that by auto
    have seen: "sees s' u (q + sz)" if "q \<in> hu_live ?w" "sees s u (q + sz)" for u q
      using keeps_seen [OF r(3) _ that(2)] live [OF that(1)] by blast
    have old: "(\<exists>v < n. y \<in> set ((W(t := [])) v)) \<and> sees s' u y"
      if "v < n" "v \<noteq> t" "y \<in> set (W v)" "sees s u y" for u v y
    proof -
      have "y \<notin> set ?b \<union> set (concat B)" using bW [OF that(1,2)] pool_disjoint [OF I(3) that(1)] that(3) by blast
      with keeps_seen [OF r(3) _ that(4)] that(1-3) show ?thesis by auto
    qed
    have ms: "mset (pool n (W(t := [])) B) + mset ?b = mset (pool n W B) + mset [?x]"
      using mset_pool_upd [OF t, of W "[]" B] by simp
    from r(4) have "advance w g B W e s (hu_inside w) {?x} {} ?w s'"
    proof (elim disjE conjE exE)
      assume rec: "reclaimed s' = reclaimed s @ map (\<lambda>y. y - sz) ?b" and lib: "Inv e (hu_entered w) (hu_gone w) g B s'"
        and none: "\<forall>u \<in> hu_entered w. \<forall>y \<in> set ?b. \<not> sees s u y"
      show ?thesis
      proof (rule advanceI [where xs = ?b and e' = e and W' = "W(t := [])"])
        show "inv ?w g B (W(t := [])) e s'"
          by (rule nxt [where zs = ?b and ys = "[?x]"])
            (use opens lives ms rec lib I(6,7) new p(2) okx in simp_all)
        show "guarded g B (W(t := [])) s' u y \<and> y \<notin> set ?b"
          if u: "u \<in> hu_inside w" and y: "guarded g B W s u y \<or> y \<in> {?x} \<and> sees s u y" for u y
        proof -
          have ns: "\<not> sees s u z" if "z \<in> set ?b" for z using none u I(6) that by blast
          from y ns consider v where "v < n" "v \<noteq> t" "y \<in> set (W v)" "sees s u y"
            | b where "b \<in> set B" "y \<in> set b" "g u b"
            unfolding hy_guarded_def by (metis insert_iff list.set_intros singletonD list.simps(15))
          then show ?thesis
          proof cases
            case 1
            with old [OF 1] bW [OF 1(1,2)] show ?thesis unfolding hy_guarded_def by blast
          next
            case 2
            then have "y \<in> set (concat B)" by auto
            then have "y \<notin> set ?b" using bB by blast
            with 2 show ?thesis unfolding hy_guarded_def by blast
          qed
        qed
      qed (use rec seen in simp_all)
    next
      fix g' assume rec: "reclaimed s' = reclaimed s" and lib: "Inv e (hu_entered w) (hu_gone w) g' (?b # B) s'"
        and all: "\<forall>u \<in> hu_entered w. ((\<exists>y \<in> set ?b. sees s u y) \<longrightarrow> g' u ?b) \<and> (\<forall>c \<in> set B. g u c \<longrightarrow> g' u c)"
      show ?thesis
      proof (rule advanceI [where xs = "[]" and e' = e and W' = "W(t := [])"])
        have "mset (pool n (W(t := [])) (?b # B)) + mset [] = mset (pool n W B) + mset [?x]"
          using ms by (simp add: pool_def)
        then show "inv ?w g' (?b # B) (W(t := [])) e s'"
          by (intro nxt [where zs = "[]" and ys = "[?x]"])
            (use opens lives rec lib I(6,7) new p(2) okx in simp_all)
        show "guarded g' (?b # B) (W(t := [])) s' u y \<and> y \<notin> set []"
          if u: "u \<in> hu_inside w" and y: "guarded g B W s u y \<or> y \<in> {?x} \<and> sees s u y" for u y
        proof -
          have ua: "(\<exists>y \<in> set ?b. sees s u y) \<longrightarrow> g' u ?b" "\<forall>c \<in> set B. g u c \<longrightarrow> g' u c" using all u I(6) by blast+
          from y consider v where "v < n" "v \<noteq> t" "y \<in> set (W v)" "sees s u y"
            | "y \<in> set ?b" "sees s u y" | b where "b \<in> set B" "y \<in> set b" "g u b"
            unfolding hy_guarded_def by (metis insert_iff list.set_intros singletonD list.simps(15))
          then show ?thesis
          proof cases
            case 1
            with old [OF 1] show ?thesis unfolding hy_guarded_def by simp
          next
            case 2
            with ua(1) have "g' u ?b" by blast
            with 2(1) show ?thesis unfolding hy_guarded_def by auto
          next
            case 3
            with ua(2) show ?thesis unfolding hy_guarded_def by auto
          qed
        qed
      qed (use rec seen in simp_all)
    qed
    with r(1) show ?thesis by blast
  qed
qed

section \<open>Runs\<close>

text \<open>Who stays guarded in a step, and from whom a retired node becomes guarded.\<close>

lemma step_inv:
  assumes inv: "inv w g B W e s" and legal: "hy_legal trims sz ok w s ev"
    and fuel: "length (hu_retired w) + 1 < fuel" and e: "Suc e < limit"
  shows "\<exists>s'. hy_step T s ev = Some s'
     \<and> advance w g B W e s {u \<in> hu_inside w. ev \<noteq> HyEnd u} (case ev of HyRetire p t \<Rightarrow> {p + sz} | _ \<Rightarrow> {})
          {u. moves \<and> ev = HyStart u} (hy_next trims w ev) s'
     \<and> (\<forall>a u. ev = HyRead a u \<longrightarrow> (\<forall>p \<in> hu_live w. sees s' u (p + sz)))"
proof -
  note I = invD [OF inv]
  have len: "length (concat B) < fuel" using pool_length [OF inv] fuel by (simp add: pool_def)
  show ?thesis
  proof (cases ev)
    case (HyAlloc p t)
    with alloc_step [OF inv _ e, of p t] legal show ?thesis by auto
  next
    case (HyRetire p t)
    with retire_step [OF inv _ fuel, of p t] legal show ?thesis by auto
  next
    case ev: (HyStart t)
    with legal I(10) have t: "t < n" "t \<notin> hu_gone w" "t \<notin> hu_inside w" by simp_all
    have "trims \<or> t \<notin> hu_entered w" using I(7) t(3) by auto
    then obtain s' g' where r: "ops_start T t s = Some s'" "Inv e (insert t (hu_entered w)) (hu_gone w) g' B s'"
      "hy_keeps Open (\<lambda>s u x. sees s u x \<and> \<not> (moves \<and> u = t)) born {} {} s s'"
      "reclaimed s' = reclaimed s" "\<forall>u \<in> hu_entered w. \<forall>b \<in> set B. g u b \<longrightarrow> g' u b"
      using start [OF I(1) t(1,2)] by blast
    have k: "hy_keeps Open (\<lambda>s u x. sees s u x \<and> u \<notin> {u. moves \<and> ev = HyStart u}) born {} {} s s'"
      proof -
      have "(\<lambda>s u x. sees s u x \<and> u \<notin> {u. moves \<and> ev = HyStart u}) = (\<lambda>s u x. sees s u x \<and> \<not> (moves \<and> u = t))"
        using ev by (auto simp: fun_eq_iff)
      with r(3) show ?thesis by simp
    qed
    have "advance w g B W e s {u \<in> hu_inside w. ev \<noteq> HyEnd u} {} {u. moves \<and> ev = HyStart u} (hy_next trims w ev) s'"
      by (rule quiet_step [where g' = g', OF inv _ k _ r(4)]) (use ev r(2,5) I(6,7) t(3) in auto)
    with r(1) ev show ?thesis by simp
  next
    case ev: (HyRead a t)
    then have "t \<in> hu_entered w" using legal I(6) by auto
    then obtain s' where r: "ops_read T a t s = Some s'" "Inv e (hu_entered w) (hu_gone w) g B s'" "keeps {} {} s s'"
      "reclaimed s' = reclaimed s" "\<forall>x. born s x \<longrightarrow> sees s' t x"
      using read [OF I(1)] by blast
    have "advance w g B W e s {u \<in> hu_inside w. ev \<noteq> HyEnd u} {} {} (hy_next trims w ev) s'"
      by (rule quiet_step [where g' = g, OF inv _ _ _ r(4)]) (use ev r(2,3) I(6,7) in auto)
    with r(1,5) ev I(8) show ?thesis by auto
  next
    case ev: (HyEnd t)
    then have t: "t \<in> hu_inside w" "t \<in> hu_entered w" using legal I(6) by auto
    obtain s' g' B' F where r: "ops_end T t s = Some s'"
      "Inv e (if trims then hu_entered w else hu_entered w - {t}) (hu_gone w) g' B' s'"
      "keeps (set (concat B)) {} s s'" "hy_drop sz (hu_entered w - {t}) g B s g' B' F s'"
      using leave [OF I(1) t(2) I(11) len] by blast
    have "advance w g B W e s {u \<in> hu_inside w. ev \<noteq> HyEnd u} {} {} (hy_next trims w ev) s'"
      by (rule drop_step [OF inv _ r(3,4)]) (use ev r(2) I(6,7) in auto)
    with r(1) ev show ?thesis by simp
  next
    case ev: (HyLast t)
    then have t: "t < n" "t \<notin> hu_gone w" "t \<notin> hu_inside w" "trims \<longrightarrow> t \<in> hu_entered w" using legal I(10) by simp_all
    then have "trims \<longleftrightarrow> t \<in> hu_entered w" using I(7) by auto
    then obtain s' g' B' F where r: "ops_last T t s = Some s'"
      "Inv e (hu_entered w - {t}) (insert t (hu_gone w)) g' B' s'"
      "keeps (set (concat B)) {} s s'" "hy_drop sz (hu_entered w - {t}) g B s g' B' F s'"
      using last_end [OF I(1) t(1,2) _ I(11) len] by blast
    have "advance w g B W e s {u \<in> hu_inside w. ev \<noteq> HyEnd u} {} {} (hy_next trims w ev) s'"
      by (rule drop_step [OF inv _ r(3,4)]) (use ev r(2) I(6,7) t(3) in auto)
    with r(1) ev show ?thesis by simp
  qed
qed

lemma run_inv:
  assumes "inv w g B W e s" "hy_lawful trims T sz ok w es s" "length (hu_retired w) + length es < fuel"
    "e + length es < limit"
  shows "\<exists>s' g' B' W' e' xs. hy_run T es s = Some s' \<and> inv (foldl (hy_next trims) w es) g' B' W' e' s'
     \<and> e' \<le> e + length es \<and> reclaimed s' = reclaimed s @ map (\<lambda>x. x - sz) xs
     \<and> (\<forall>u \<in> hu_inside w. HyEnd u \<notin> set es \<longrightarrow> (\<forall>x. guarded g B W s u x \<longrightarrow>
           guarded g' B' W' s' u x \<and> x \<notin> set xs))
     \<and> (\<forall>p \<in> hu_live w. (\<forall>v. HyRetire p v \<notin> set es) \<longrightarrow> p \<in> hu_live (foldl (hy_next trims) w es)
          \<and> (\<forall>u. hy_looks moves u (sees s u (p + sz)) es \<longrightarrow> sees s' u (p + sz)))"
  using assms
proof (induction es arbitrary: w g B W e s)
  case Nil
  then show ?case by (intro exI [of _ s] exI [of _ g] exI [of _ B] exI [of _ W] exI [of _ e] exI [of _ "[]"]) simp
next
  case (Cons ev es)
  let ?w = "hy_next trims w ev" let ?w' = "foldl (hy_next trims) ?w es"
  have pre: "hy_legal trims sz ok w s ev" "length (hu_retired w) + 1 < fuel" "Suc e < limit"
    using Cons.prems(2-4) by simp_all
  obtain s1 where s1: "hy_step T s ev = Some s1"
    "advance w g B W e s {u \<in> hu_inside w. ev \<noteq> HyEnd u} (case ev of HyRetire p t \<Rightarrow> {p + sz} | _ \<Rightarrow> {})
       {u. moves \<and> ev = HyStart u} ?w s1"
    "\<And>a u p. ev = HyRead a u \<Longrightarrow> p \<in> hu_live w \<Longrightarrow> sees s1 u (p + sz)"
    using step_inv [OF Cons.prems(1) pre] by blast
  from s1(2) obtain g1 B1 W1 e1 xs1 where a: "inv ?w g1 B1 W1 e1 s1" "e1 \<le> Suc e"
    "reclaimed s1 = reclaimed s @ map (\<lambda>x. x - sz) xs1"
    "\<And>u x. u \<in> hu_inside w \<Longrightarrow> ev \<noteq> HyEnd u \<Longrightarrow> guarded g B W s u x \<Longrightarrow> guarded g1 B1 W1 s1 u x \<and> x \<notin> set xs1"
    "\<And>u p. \<not> (moves \<and> ev = HyStart u) \<Longrightarrow> p \<in> hu_live w \<Longrightarrow> p \<in> hu_live ?w \<Longrightarrow> sees s u (p + sz) \<Longrightarrow> sees s1 u (p + sz)"
    unfolding advance_def by blast
  have law: "hy_lawful trims T sz ok ?w es s1" using Cons.prems(2) s1(1) by simp
  have "length (hu_retired ?w) \<le> length (hu_retired w) + 1" by (cases ev) auto
  then have len: "length (hu_retired ?w) + length es < fuel" "e1 + length es < limit"
    using Cons.prems(3,4) a(2) by simp_all
  obtain s' g' B' W' e' xs where b: "hy_run T es s1 = Some s'" "inv ?w' g' B' W' e' s'"
    "e' \<le> e1 + length es" "reclaimed s' = reclaimed s1 @ map (\<lambda>x. x - sz) xs"
    "\<forall>u \<in> hu_inside ?w. HyEnd u \<notin> set es \<longrightarrow> (\<forall>x. guarded g1 B1 W1 s1 u x \<longrightarrow>
           guarded g' B' W' s' u x \<and> x \<notin> set xs)"
    "\<forall>p \<in> hu_live ?w. (\<forall>v. HyRetire p v \<notin> set es) \<longrightarrow> p \<in> hu_live ?w'
          \<and> (\<forall>u. hy_looks moves u (sees s1 u (p + sz)) es \<longrightarrow> sees s' u (p + sz))"
    using Cons.IH [OF a(1) law len] by (elim exE conjE) (rule that)
  have "guarded g' B' W' s' u x \<and> x \<notin> set (xs1 @ xs)"
    if u: "u \<in> hu_inside w" "HyEnd u \<notin> set (ev # es)" "guarded g B W s u x" for u x
  proof -
    have ne: "ev \<noteq> HyEnd u" "HyEnd u \<notin> set es" using u(2) by auto
    have in1: "u \<in> hu_inside ?w" using u(1) ne(1) by (cases ev) auto
    have "guarded g1 B1 W1 s1 u x" "x \<notin> set xs1" using a(4) [OF u(1) ne(1) u(3)] by blast+
    moreover from this have "guarded g' B' W' s' u x \<and> x \<notin> set xs" using b(5) in1 ne(2) by blast
    ultimately show ?thesis by simp
  qed
  moreover have "p \<in> hu_live ?w' \<and> (\<forall>u. hy_looks moves u (sees s u (p + sz)) (ev # es) \<longrightarrow> sees s' u (p + sz))"
    if p: "p \<in> hu_live w" "\<forall>v. HyRetire p v \<notin> set (ev # es)" for p
  proof -
    have l1: "p \<in> hu_live ?w" and nr: "\<forall>v. HyRetire p v \<notin> set es" using p by (cases ev; auto)+
    note r = b(6) [rule_format, OF l1 nr [rule_format]]
    have "hy_looks moves u (sees s1 u (p + sz)) es" if l: "hy_looks moves u (sees s u (p + sz)) (ev # es)" for u
    proof -
      define b where "b = (case ev of HyRead a v \<Rightarrow> sees s u (p + sz) \<or> u = v
        | HyStart v \<Rightarrow> sees s u (p + sz) \<and> \<not> (moves \<and> u = v) | _ \<Rightarrow> sees s u (p + sz))"
      have "b \<longrightarrow> sees s1 u (p + sz)" using a(5) [OF _ p(1) l1, of u] s1(3) [OF _ p(1)] by (auto simp: b_def split: hy_event.splits)
      moreover have "hy_looks moves u b es" using l by (cases ev) (simp_all add: b_def)
      ultimately show ?thesis by (rule hy_looks_mono)
    qed
    with r show ?thesis by auto
  qed
  moreover have "hy_run T (ev # es) s = Some s'" using s1(1) b(1) by simp
  moreover have "inv (foldl (hy_next trims) w (ev # es)) g' B' W' e' s'" using b(2) by simp
  moreover have "e' \<le> e + length (ev # es)" using a(2) b(3) by simp
  moreover have "reclaimed s' = reclaimed s @ map (\<lambda>x. x - sz) (xs1 @ xs)" using a(3) b(4) by simp
  ultimately show ?case
    by (intro exI [of _ s'] exI [of _ g'] exI [of _ B'] exI [of _ W'] exI [of _ e'] exI [of _ "xs1 @ xs"])
      (simp only: foldl_Cons, blast)
qed

lemma init:
  assumes "Inv e {} {} g [] s" "reclaimed s = []" "\<And>t. t < n \<Longrightarrow> Open s t []"
  shows "inv hy_idle g [] (\<lambda>_. []) e s"
proof -
  have "pool n (\<lambda>_. []) [] = []" by (simp add: pool_def)
  with assms show ?thesis by (simp add: inv_def hy_idle_def)
qed

text \<open>An object that thread \<open>u\<close> sees when it is retired is not reclaimed before \<open>u\<close> ends its
  operation.\<close>

lemma protects_seen:
  assumes s0: "inv w g0 B0 W0 e s0"
    and law: "hy_lawful trims T sz ok w (es @ HyRetire p v # es') s0"
    and len: "length (hu_retired w) + length es + length es' + 1 < fuel" "e + length es + length es' + 1 < limit"
    and u: "u \<in> hu_inside (foldl (hy_next trims) w es)" "HyEnd u \<notin> set es'"
    and seen: "\<And>s. hy_run T es s0 = Some s \<Longrightarrow> sees s u (p + sz)"
  shows "\<exists>s s' ps. hy_run T es s0 = Some s \<and> hy_run T (HyRetire p v # es') s = Some s'
     \<and> reclaimed s' = reclaimed s @ ps \<and> p \<notin> set ps"
proof -
  let ?w = "foldl (hy_next trims) w es" let ?ev = "HyRetire p v"
  note law' = hy_lawful_append [OF law]
  have l0: "length (hu_retired w) + length es < fuel" "e + length es < limit" using len by simp_all
  from run_inv [OF s0 law' [THEN conjunct1] l0]
  obtain s g1 B1 W1 e1 where s: "hy_run T es s0 = Some s" "inv ?w g1 B1 W1 e1 s" "e1 \<le> e + length es" by blast
  have "hy_lawful trims T sz ok ?w (?ev # es') s" using law' s(1) by blast
  then have l: "hy_legal trims sz ok ?w s ?ev" "\<And>s1. hy_step T s ?ev = Some s1 \<Longrightarrow> hy_lawful trims T sz ok (hy_next trims ?w ?ev) es' s1"
    by simp_all
  have lr: "length (hu_retired ?w) \<le> length (hu_retired w) + length es" by (rule length_hy_retired)
  have l1: "length (hu_retired ?w) + 1 < fuel" "Suc e1 < limit" using lr len s(3) by simp_all
  obtain s1 where s1: "hy_step T s ?ev = Some s1"
    "advance ?w g1 B1 W1 e1 s {u \<in> hu_inside ?w. ?ev \<noteq> HyEnd u} {p + sz} {u. moves \<and> ?ev = HyStart u} (hy_next trims ?w ?ev) s1"
    using step_inv [OF s(2) l(1) l1] unfolding hy_event.case by blast
  obtain g2 B2 W2 e2 xs where a0: "inv (hy_next trims ?w ?ev) g2 B2 W2 e2 s1" "e2 \<le> Suc e1"
    "reclaimed s1 = reclaimed s @ map (\<lambda>x. x - sz) xs"
    "\<And>u x. u \<in> {u \<in> hu_inside ?w. ?ev \<noteq> HyEnd u} \<Longrightarrow> guarded g1 B1 W1 s u x \<or> x \<in> {p + sz} \<and> sees s u x
       \<Longrightarrow> guarded g2 B2 W2 s1 u x \<and> x \<notin> set xs"
    by (rule advanceE [OF s1(2)]) (rule that)
  have "guarded g2 B2 W2 s1 u (p + sz) \<and> p + sz \<notin> set xs" by (rule a0(4)) (use u(1) seen [OF s(1)] in simp_all)
  with a0(1-3) have a: "inv (hy_next trims ?w ?ev) g2 B2 W2 e2 s1" "e2 \<le> Suc e1"
    "reclaimed s1 = reclaimed s @ map (\<lambda>x. x - sz) xs" "guarded g2 B2 W2 s1 u (p + sz)" "p + sz \<notin> set xs"
    by blast+
  have l2: "length (hu_retired (hy_next trims ?w ?ev)) + length es' < fuel" "e2 + length es' < limit"
    using lr len s(3) a(2) by simp_all
  have "u \<in> hu_inside (hy_next trims ?w ?ev)" using u(1) by simp
  with run_inv [OF a(1) l(2) [OF s1(1)] l2] u(2) a(4)
  obtain s' ys where b: "hy_run T es' s1 = Some s'" "reclaimed s' = reclaimed s1 @ map (\<lambda>x. x - sz) ys" "p + sz \<notin> set ys"
    by blast
  have "p \<notin> set (map (\<lambda>x. x - sz) (xs @ ys))" using a(5) b(3) by auto
  moreover have "hy_run T (?ev # es') s = Some s'" using s1(1) b(1) by simp
  moreover have "reclaimed s' = reclaimed s @ map (\<lambda>x. x - sz) (xs @ ys)" using a(3) b(2) by simp
  ultimately show ?thesis using s(1) by blast
qed

text \<open>A thread sees the object if it has read anything since the object was allocated.\<close>

lemma protects_read:
  assumes s0: "inv hy_idle g0 B0 W0 e s0"
    and law: "hy_lawful trims T sz ok hy_idle ((es1 @ HyAlloc p t # es2) @ HyRetire p v # es') s0"
    and len: "length es1 + length es2 + length es' + 2 < fuel" "e + length es1 + length es2 + length es' + 2 < limit"
    and u: "hy_looks moves u False es2" "u \<in> hu_inside (hy_after trims (es1 @ HyAlloc p t # es2))" "HyEnd u \<notin> set es'"
    and p: "\<forall>v. HyRetire p v \<notin> set es2"
  shows "\<exists>s s' ps. hy_run T (es1 @ HyAlloc p t # es2) s0 = Some s \<and> hy_run T (HyRetire p v # es') s = Some s'
     \<and> reclaimed s' = reclaimed s @ ps \<and> p \<notin> set ps"
proof (rule protects_seen [OF s0 law _ _ u(2,3)])
  fix s assume run: "hy_run T (es1 @ HyAlloc p t # es2) s0 = Some s"
  let ?w = "hy_after trims es1" let ?ev = "HyAlloc p t"
  have law': "hy_lawful trims T sz ok hy_idle (es1 @ ?ev # es2) s0" using hy_lawful_append [OF law] by blast
  note law1 = hy_lawful_append [OF law']
  have l1: "length (hu_retired hy_idle) + length es1 < fuel" "e + length es1 < limit"
    using len by (simp_all add: hy_idle_def)
  from run_inv [OF s0 law1 [THEN conjunct1] l1]
  obtain s1 g1 B1 W1 e1 where s1: "hy_run T es1 s0 = Some s1" "inv ?w g1 B1 W1 e1 s1" "e1 \<le> e + length es1" by blast
  have l: "hy_lawful trims T sz ok ?w (?ev # es2) s1" using law1 s1(1) by blast
  have lr: "length (hu_retired ?w) \<le> length es1" using length_hy_retired [of trims hy_idle es1] by (simp add: hy_idle_def)
  have l2: "length (hu_retired ?w) + 1 < fuel" "Suc e1 < limit" using lr len s1(3) by simp_all
  have leg: "hy_legal trims sz ok ?w s1 ?ev" using l by simp
  obtain s2 where s2: "hy_step T s1 ?ev = Some s2"
    "advance ?w g1 B1 W1 e1 s1 {u \<in> hu_inside ?w. ?ev \<noteq> HyEnd u} {} {u. moves \<and> ?ev = HyStart u} (hy_next trims ?w ?ev) s2"
    using step_inv [OF s1(2) leg l2] unfolding hy_event.case by blast
  from s2(2) obtain g2 B2 W2 e2 where a: "inv (hy_next trims ?w ?ev) g2 B2 W2 e2 s2" "e2 \<le> Suc e1"
    by (rule advanceE)
  have law2: "hy_lawful trims T sz ok (hy_next trims ?w ?ev) es2 s2" using l s2(1) by simp
  have l3: "length (hu_retired (hy_next trims ?w ?ev)) + length es2 < fuel" "e2 + length es2 < limit"
    using lr len s1(3) a(2) by simp_all
  have "p \<in> hu_live (hy_next trims ?w ?ev)" by simp
  then obtain s' where "hy_run T es2 s2 = Some s'" "sees s' u (p + sz)"
    using run_inv [OF a(1) law2 l3] p hy_looks_mono [OF _ u(1)] by blast
  moreover have "hy_run T es2 s2 = Some s" using run s1(1) s2(1) by (simp add: hy_run_append)
  ultimately show "sees s u (p + sz)" by simp
qed (use len in \<open>simp_all add: hy_idle_def\<close>)

text \<open>Nothing is reclaimed twice, and with every thread out only the open batches wait.\<close>

lemma reclaims:
  assumes "inv hy_idle g B W e s0" "hy_lawful trims T sz ok hy_idle es s0" "length es < fuel" "e + length es < limit"
  shows "\<exists>s. hy_run T es s0 = Some s \<and> mset (reclaimed s) \<subseteq># mset (hu_retired (hy_after trims es))
     \<and> (hu_entered (hy_after trims es) = {} \<longrightarrow>
          length (hu_retired (hy_after trims es)) - length (reclaimed s) \<le> n * (m - 1))"
proof -
  let ?w = "hy_after trims es"
  have l: "length (hu_retired hy_idle) + length es < fuel" using assms(3) by (simp add: hy_idle_def)
  obtain s g1 B1 W1 e1 where s: "hy_run T es s0 = Some s" "inv ?w g1 B1 W1 e1 s"
    using run_inv [OF assms(1,2) l assms(4)] by blast
  note I = invD [OF s(2)]
  have "length (hu_retired ?w) - length (reclaimed s) \<le> n * (m - 1)" if "hu_entered ?w = {}"
  proof -
    have "B1 = []" using inv_idle I(1) that by simp
    then have "length (hu_retired ?w) - length (reclaimed s) = length (concat (map W1 [0..<n]))"
      using arg_cong [OF I(5), of size] by (simp add: pool_def)
    also have "\<dots> = (\<Sum>t\<leftarrow>[0..<n]. length (W1 t))" by (simp add: length_concat o_def)
    also have "\<dots> \<le> (\<Sum>t\<leftarrow>[0..<n]. m - 1)"
      using open_length [OF I(2)] by (intro sum_list_mono) fastforce
    also have "\<dots> = n * (m - 1)" by (simp add: sum_list_triv)
    finally show ?thesis .
  qed
  moreover have "mset (reclaimed s) \<subseteq># mset (hu_retired ?w)" unfolding I(5) by (rule mset_subset_eq_add_left)
  ultimately show ?thesis using s(1) by blast
qed

end

end
