(* ===== verification/Hyaline_Smr.thy ===== *)
theory Hyaline_Smr
  imports Hyaline_Safe
begin

text \<open>
  The trackers whose batches are filled by \<open>retire\<close> of \<open>lfsmr_common.h\<close> and handed to every thread
  inside: the contract \<open>hy_smr\<close> asks for the library's operations on whole batches only and gives
  the contract \<open>hy_tracker\<close>.  Every thread sees every node.
\<close>

locale hy_smr =
  fixes T :: "'a smr_scheme hy_ops" and n m :: nat and sz :: u64 and ok :: "ptr \<Rightarrow> bool" and fuel limit :: nat
    and trims :: bool and order :: nat
    and rt :: "nat \<Rightarrow> u64 \<Rightarrow> 'a smr_scheme world \<Rightarrow> (bool \<times> 'a smr_scheme world) option"
    and batch :: "'a smr_scheme \<Rightarrow> nat \<Rightarrow> smr_batch"
    and set_batch :: "nat \<Rightarrow> smr_batch \<Rightarrow> 'a smr_scheme \<Rightarrow> 'a smr_scheme"
    and Inv :: "nat set \<Rightarrow> nat set \<Rightarrow> (nat \<Rightarrow> ptr list \<Rightarrow> bool) \<Rightarrow> ptr list list \<Rightarrow> 'a smr_scheme \<Rightarrow> bool"
  assumes sizes: "Inv A D g B s \<Longrightarrow> 1 < m \<and> m < 2 ^ 64"
    and node_ok: "ok x \<Longrightarrow> x \<noteq> 0"
    and threads: "Inv A D g B s \<Longrightarrow> A \<subseteq> {..<n} \<and> task_num s = n"
    and idle: "Inv {} D g B s \<Longrightarrow> B = []"
    and inv_keep: "Inv A D g B s \<Longrightarrow> same_nodes X s s' \<Longrightarrow> X \<inter> set (concat B) = {}
      \<Longrightarrow> smr_next s' = smr_next s \<Longrightarrow> smr_kept s' = smr_kept s \<Longrightarrow> Inv A D g B s'"
    and inv_batch: "Inv A D g B s \<Longrightarrow> Inv A D g B (set_batch t bt s)"
    and set_batch: "same_nodes {} s (set_batch t bt s) \<and> reclaimed (set_batch t bt s) = reclaimed s
      \<and> batch (set_batch t bt s) = (batch s)(t := bt)"
    and batch_kept: "smr_kept s' = smr_kept s \<Longrightarrow> batch s' = batch s"
    and same_ops: "ops_alloc T p t s = Some s" "ops_read T a t s = Some s"
    and op_start: "Inv A D g B s \<Longrightarrow> t < n \<Longrightarrow> t \<notin> D \<Longrightarrow> trims \<or> t \<notin> A \<Longrightarrow>
      \<exists>s' g'. ops_start T t s = Some s' \<and> same_nodes {} s s' \<and> reclaimed s' = reclaimed s \<and> batch s' = batch s
      \<and> Inv (insert t A) D g' B s' \<and> (\<forall>u \<in> A. \<forall>b \<in> set B. g u b \<longrightarrow> g' u b)"
    and op_end: "Inv A D g B s \<Longrightarrow> t \<in> A \<Longrightarrow> \<forall>x \<in> set (concat B). ok x \<and> x \<noteq> sz \<Longrightarrow> length (concat B) < fuel \<Longrightarrow>
      \<exists>s' g' B' F. ops_end T t s = Some s' \<and> Inv (if trims then A else A - {t}) D g' B' s'
      \<and> same_nodes (set (concat B)) s s' \<and> batch s' = batch s \<and> hy_drop sz (A - {t}) g B s g' B' F s'"
    and op_last: "Inv A D g B s \<Longrightarrow> t < n \<Longrightarrow> t \<notin> D \<Longrightarrow> trims \<longleftrightarrow> t \<in> A \<Longrightarrow>
      \<forall>x \<in> set (concat B). ok x \<and> x \<noteq> sz \<Longrightarrow> length (concat B) < fuel \<Longrightarrow>
      \<exists>s' g' B' F. ops_last T t s = Some s' \<and> Inv (A - {t}) (insert t D) g' B' s'
      \<and> same_nodes (set (concat B)) s s' \<and> batch s' = batch s \<and> hy_drop sz (A - {t}) g B s g' B' F s'"
    and retire_batch: "Inv A D g B s \<Longrightarrow> batch_ok s b \<Longrightarrow> smr_refs s (last b) = 0 \<Longrightarrow> distinct b
      \<Longrightarrow> set b \<inter> set (concat B) = {} \<Longrightarrow> \<forall>x \<in> set b. ok x \<and> x \<noteq> sz \<Longrightarrow> length b = m \<Longrightarrow> length b < fuel \<Longrightarrow>
      \<exists>s'. rt order (hd b) (s, []) = Some (True, (s', []))
      \<and> same_nodes (set b \<union> set (concat B)) s s' \<and> batch s' = batch s
      \<and> (if A = {} then reclaimed s' = reclaimed s @ map (\<lambda>x. x - sz) b \<and> Inv A D g B s'
         else reclaimed s' = reclaimed s
           \<and> (\<exists>g'. Inv A D g' (b # B) s' \<and> (\<forall>u \<in> A. g' u b \<and> (\<forall>c \<in> set B. g u c \<longrightarrow> g' u c))))"
    and op_retire: "Inv A D g B s \<Longrightarrow> p \<noteq> nullptr \<Longrightarrow>
      ops_retire T p t s = map_option (\<lambda>(ok, bt, w). set_batch t bt (fst w))
        (smr_retire rt order (p + sz) 0 (batch s t) (of_nat m) (s, []))"

begin

definition Open :: "'a smr_scheme \<Rightarrow> nat \<Rightarrow> ptr list \<Rightarrow> bool" where
  "Open s t xs \<longleftrightarrow> open_ok s (batch s t) m xs \<and> length xs < m"

abbreviation kept :: "ptr set \<Rightarrow> nat set \<Rightarrow> 'a smr_scheme \<Rightarrow> 'a smr_scheme \<Rightarrow> bool" where
  "kept \<equiv> hy_keeps Open (\<lambda>s u x. True) (\<lambda>s x. True)"

lemma keptI:
  assumes "same_nodes X s s'" "\<And>u. u \<notin> V \<Longrightarrow> batch s' u = batch s u"
  shows "kept X V s s'"
  unfolding hy_keeps_def Open_def using assms open_ok_same [OF assms(1)] by metis

lemma kept_batch: "same_nodes X s s1 \<Longrightarrow> batch s1 = batch s \<Longrightarrow> kept X {t} s (set_batch t bt s1)"
  by (rule keptI, rule same_nodes_trans [where Y = "{}"]) (use set_batch [of s1 t bt] in auto)

lemma Open_batch: "open_ok s1 bt m xs \<Longrightarrow> length xs < m \<Longrightarrow> Open (set_batch t bt s1) t xs"
  using open_ok_same [of "{}" s1 "set_batch t bt s1" xs bt m] set_batch [of s1 t bt] by (simp add: Open_def)

lemma smr_retire_open:
  assumes lib: "Inv A D g B s" and op: "Open s t xs" "distinct (x # xs)" "set (x # xs) \<inter> set (concat B) = {}"
    and okb: "\<forall>y \<in> set (x # xs). ok y \<and> y \<noteq> sz" and len: "Suc (length xs) < m"
  shows "\<exists>s'. ops_retire T (x - sz) t s = Some s' \<and> Inv A D g B s' \<and> Open s' t (x # xs)
    \<and> kept {x} {t} s s' \<and> smr_next s' x = smr_next s x \<and> reclaimed s' = reclaimed s"
proof -
  have o: "open_ok s (batch s t) m xs" using op(1) by (simp add: Open_def)
  have nz: "\<forall>y \<in> set xs. y \<noteq> 0" using okb node_ok by auto
  let ?s1 = "smr_add_node x xs s" let ?bt1 = "smr_batch_add x xs (batch s t)" let ?s' = "set_batch t ?bt1 ?s1"
  have m: "0 < m" "m < 2 ^ 64" using sizes [OF lib] by simp_all
  have op': "ops_retire T (x - sz) t s = map_option (\<lambda>(ok, bt, w). set_batch t bt (fst w))
        (smr_retire rt order x 0 (batch s t) (of_nat m) (s, []))"
    using op_retire [OF lib, of "x - sz" t] okb by simp
  have "ops_retire T (x - sz) t s = Some ?s'" unfolding op' using smr_retire_run [OF o nz m, of rt order x] len by simp
  moreover have "Inv A D g B ?s'"
    by (rule inv_batch, rule inv_keep [OF lib smr_add_node_same]) (use op(3) in \<open>simp_all add: smr_add_node_fields\<close>)
  moreover have bt: "batch ?s1 = batch s" by (rule batch_kept) (simp add: smr_add_node_fields)
  moreover have "Open ?s' t (x # xs)"
    by (rule Open_batch [OF smr_add_node_open [OF o]]) (use op(2) len in simp_all)
  moreover have "kept {x} {t} s ?s'" by (rule kept_batch [OF smr_add_node_same bt])
  moreover have "smr_next ?s' x = smr_next s x"
    using set_batch [of ?s1 t ?bt1] by (simp add: same_nodes_def smr_add_node_fields)
  moreover have "reclaimed ?s' = reclaimed s" using set_batch [of ?s1 t ?bt1] by (simp add: smr_add_node_fields)
  ultimately show ?thesis by blast
qed

lemma smr_retire_full:
  assumes lib: "Inv A D g B s" and op: "Open s t xs" "distinct (x # xs)" "set (x # xs) \<inter> set (concat B) = {}"
    and okb: "\<forall>y \<in> set (x # xs). ok y \<and> y \<noteq> sz" and len: "Suc (length xs) = m" "length (x # xs) < fuel"
  shows "\<exists>s'. ops_retire T (x - sz) t s = Some s' \<and> Open s' t []
    \<and> kept (set (x # xs) \<union> set (concat B)) {t} s s'
    \<and> (reclaimed s' = reclaimed s @ map (\<lambda>y. y - sz) (x # xs) \<and> Inv A D g B s' \<and> A = {}
       \<or> reclaimed s' = reclaimed s \<and> (\<exists>g'. Inv A D g' ((x # xs) # B) s'
         \<and> (\<forall>u \<in> A. g' u (x # xs) \<and> (\<forall>c \<in> set B. g u c \<longrightarrow> g' u c))))"
proof -
  have o: "open_ok s (batch s t) m xs" using op(1) by (simp add: Open_def)
  have nz: "\<forall>y \<in> set xs. y \<noteq> 0" using okb node_ok by auto
  let ?b = "x # xs"
  let ?s1 = "smr_add_node x xs s" let ?bt1 = "smr_batch_add x xs (batch s t)" let ?s3 = "smr_close ?b ?s1"
  have m: "0 < m" "m < 2 ^ 64" "1 < m" using sizes [OF lib] by simp_all
  have ne: "xs \<noteq> []" using len(1) m(3) by auto
  have same3: "same_nodes (set ?b) s ?s3"
    by (rule same_nodes_trans [OF smr_add_node_same smr_close_same]) auto
  have fld: "smr_kept ?s3 = smr_kept s" "smr_next ?s3 = smr_next s" "reclaimed ?s3 = reclaimed s"
    by (simp_all add: smr_add_node_fields)
  have inv3: "Inv A D g B ?s3" by (rule inv_keep [OF lib same3 op(3) fld(2,1)])
  have len': "length ?b = m" using len(1) by simp
  obtain s4 where r: "rt order x (?s3, []) = Some (True, (s4, []))"
    "same_nodes (set ?b \<union> set (concat B)) ?s3 s4" "batch s4 = batch ?s3"
    "if A = {} then reclaimed s4 = reclaimed ?s3 @ map (\<lambda>x. x - sz) ?b \<and> Inv A D g B s4
     else reclaimed s4 = reclaimed ?s3
       \<and> (\<exists>g'. Inv A D g' (?b # B) s4 \<and> (\<forall>u \<in> A. g' u ?b \<and> (\<forall>c \<in> set B. g u c \<longrightarrow> g' u c)))"
    using retire_batch [OF inv3 smr_close_ok [OF o op(2) ne] op(2,3) okb len' len(2)]
    by (simp only: list.sel) blast
  let ?bt = "smr_batch_init ?bt1" let ?s' = "set_batch t ?bt s4"
  have op': "ops_retire T (x - sz) t s = map_option (\<lambda>(ok, bt, w). set_batch t bt (fst w))
        (smr_retire rt order x 0 (batch s t) (of_nat m) (s, []))"
    using op_retire [OF lib, of "x - sz" t] okb by simp
  have run: "ops_retire T (x - sz) t s = Some ?s'"
    unfolding op' using smr_retire_run [OF o nz m(1,2), of rt order x] len(1) r(1) by simp
  have bt: "batch s4 = batch s" using r(3) batch_kept [OF fld(1)] by simp
  have same4: "same_nodes (set ?b \<union> set (concat B)) s s4"
    by (rule same_nodes_trans [OF same3 r(2)]) blast
  have opn: "Open ?s' t []"
    by (rule Open_batch) (use m(1) in \<open>simp_all add: open_ok_def smr_batch_init_def\<close>)
  have k: "kept (set ?b \<union> set (concat B)) {t} s ?s'" by (rule kept_batch [OF same4 bt])
  have rec: "reclaimed ?s' = reclaimed s4" using set_batch [of s4 t ?bt] by simp
  show ?thesis
  proof (intro exI conjI)
    show "reclaimed ?s' = reclaimed s @ map (\<lambda>y. y - sz) ?b \<and> Inv A D g B ?s' \<and> A = {}
       \<or> reclaimed ?s' = reclaimed s \<and> (\<exists>g'. Inv A D g' (?b # B) ?s'
         \<and> (\<forall>u \<in> A. g' u ?b \<and> (\<forall>c \<in> set B. g u c \<longrightarrow> g' u c)))"
    proof (cases "A = {}")
      case True
      with r(4) have "reclaimed s4 = reclaimed ?s3 @ map (\<lambda>x. x - sz) ?b" "Inv A D g B s4" by simp_all
      with True rec fld(3) inv_batch [of A D g B s4 t ?bt] show ?thesis by simp
    next
      case False
      then obtain g' where "reclaimed s4 = reclaimed ?s3" "Inv A D g' (?b # B) s4"
        "\<forall>u \<in> A. g' u ?b \<and> (\<forall>c \<in> set B. g u c \<longrightarrow> g' u c)" using r(4) by auto
      with rec fld(3) inv_batch [of A D g' "?b # B" s4 t ?bt] show ?thesis by auto
    qed
  qed (fact run opn k)+
qed

end

sublocale hy_smr \<subseteq> hy: hy_tracker T n m sz ok fuel limit trims False "\<lambda>e. Inv" Open "\<lambda>s u x. True" "\<lambda>s x. True"
proof unfold_locales
  fix e A D g B s t X x a xs
  assume lib: "Inv A D g B s"
  show "A \<subseteq> {..<n} \<and> task_num s = n" by (rule threads [OF lib])
  have self: "kept Y {} s s" for Y by (rule keptI) simp_all
  show "\<exists>s'. ops_alloc T (x - sz) t s = Some s' \<and> Inv A D g B s' \<and> kept {x} {} s s' \<and> reclaimed s' = reclaimed s \<and> True"
    using lib self same_ops(1) by simp
  show "\<exists>s'. ops_read T a t s = Some s' \<and> Inv A D g B s' \<and> kept {} {} s s' \<and> reclaimed s' = reclaimed s
      \<and> (\<forall>x. True \<longrightarrow> True)"
    using lib self same_ops(2) by simp
  show "\<exists>s' g'. ops_start T t s = Some s' \<and> Inv (insert t A) D g' B s'
      \<and> hy_keeps Open (\<lambda>s u x. True \<and> \<not> (False \<and> u = t)) (\<lambda>s x. True) {} {} s s'
      \<and> reclaimed s' = reclaimed s \<and> (\<forall>u \<in> A. \<forall>b \<in> set B. g u b \<longrightarrow> g' u b)"
    if "t < n" "t \<notin> D" "trims \<or> t \<notin> A"
    unfolding simp_thms using op_start [OF lib that] keptI [of "{}" s _ "{}"] by metis
  show "\<exists>s' g' B' F. ops_end T t s = Some s' \<and> Inv (if trims then A else A - {t}) D g' B' s'
      \<and> kept (set (concat B)) {} s s' \<and> hy_drop sz (A - {t}) g B s g' B' F s'"
    if "t \<in> A" "\<forall>x \<in> set (concat B). ok x \<and> x \<noteq> sz" "length (concat B) < fuel"
    using op_end [OF lib that] keptI [of "set (concat B)" s _ "{}"] by metis
  show "\<exists>s' g' B' F. ops_last T t s = Some s' \<and> Inv (A - {t}) (insert t D) g' B' s'
      \<and> kept (set (concat B)) {} s s' \<and> hy_drop sz (A - {t}) g B s g' B' F s'"
    if "t < n" "t \<notin> D" "trims \<longleftrightarrow> t \<in> A" "\<forall>x \<in> set (concat B). ok x \<and> x \<noteq> sz" "length (concat B) < fuel"
    using op_last [OF lib that] keptI [of "set (concat B)" s _ "{}"] by metis
  show "\<exists>s'. ops_retire T (x - sz) t s = Some s' \<and> Inv A D g B s' \<and> Open s' t (x # xs)
      \<and> kept {x} {t} s s' \<and> smr_next s' x = smr_next s x \<and> reclaimed s' = reclaimed s"
    if "t < n" "Open s t xs" "distinct (x # xs)" "set (x # xs) \<inter> set (concat B) = {}"
      "\<forall>y \<in> set (x # xs). ok y \<and> y \<noteq> sz" "Suc (length xs) < m"
    by (rule smr_retire_open [OF lib that(2-6)])
  show "\<exists>s'. ops_retire T (x - sz) t s = Some s' \<and> Open s' t []
      \<and> kept (set (x # xs) \<union> set (concat B)) {t} s s'
      \<and> (reclaimed s' = reclaimed s @ map (\<lambda>y. y - sz) (x # xs) \<and> Inv A D g B s'
           \<and> (\<forall>u \<in> A. \<forall>y \<in> set (x # xs). \<not> True)
         \<or> reclaimed s' = reclaimed s \<and> (\<exists>g'. Inv A D g' ((x # xs) # B) s'
           \<and> (\<forall>u \<in> A. ((\<exists>y \<in> set (x # xs). True) \<longrightarrow> g' u (x # xs)) \<and> (\<forall>c \<in> set B. g u c \<longrightarrow> g' u c))))"
    if "t < n" "Open s t xs" "distinct (x # xs)" "set (x # xs) \<inter> set (concat B) = {}"
      "\<forall>y \<in> set (x # xs). ok y \<and> y \<noteq> sz" "Suc (length xs) = m" "length (x # xs) < fuel"
  proof -
    from smr_retire_full [OF lib that(2-7)]
    obtain s' where r: "ops_retire T (x - sz) t s = Some s'" "Open s' t []"
      "kept (set (x # xs) \<union> set (concat B)) {t} s s'"
      "reclaimed s' = reclaimed s @ map (\<lambda>y. y - sz) (x # xs) \<and> Inv A D g B s' \<and> A = {}
       \<or> reclaimed s' = reclaimed s \<and> (\<exists>g'. Inv A D g' ((x # xs) # B) s'
         \<and> (\<forall>u \<in> A. g' u (x # xs) \<and> (\<forall>c \<in> set B. g u c \<longrightarrow> g' u c)))"
      by blast
    from r(4) show ?thesis by (intro exI [of _ s'] conjI r(1-3)) blast
  qed
next
  show "ok x \<Longrightarrow> x \<noteq> 0" for x by (rule node_ok)
  show "Inv {} D g B s \<Longrightarrow> B = []" for D g B s by (rule idle)
  show "Open s t xs \<Longrightarrow> length xs < m" for s t xs by (simp add: Open_def)
qed

end
