(* ===== verification/Hyaline_One.thy ===== *)
theory Hyaline_One
  imports Hyaline_Safe One_Slot
begin

text \<open>
  The trackers with one slot per thread, on top of \<open>one_slot\<close>: thread \<open>t\<close> uses slot \<open>t\<close> and keeps its
  handle between the operations.  The locale holds what a tracker does with the library in each of its
  operations, for the trackers that leave after every operation and those that trim.  \<open>fits s\<close> says
  that the sizes stored in the tracker are \<open>k\<close>, \<open>n\<close> and \<open>m\<close> and that every thread has its own slot.
\<close>

locale one_slot_tasks = one_slot fr "\<lambda>x. x - sz" "\<lambda>x. x \<noteq> sz" head put_head rest wants leave_list slots
  for fr :: "ptr \<Rightarrow> 'a smr_scheme \<Rightarrow> 'a smr_scheme" and sz :: u64
    and head :: "'a smr_scheme \<Rightarrow> nat \<Rightarrow> u64"
    and put_head :: "nat \<Rightarrow> u64 \<Rightarrow> 'a smr_scheme \<Rightarrow> 'a smr_scheme"
    and rest :: "'a smr_scheme \<Rightarrow> 'r"
    and wants :: "'a smr_scheme \<Rightarrow> nat \<Rightarrow> u64 \<Rightarrow> bool"
    and leave_list :: "nat \<Rightarrow> nat \<Rightarrow> (ptr \<Rightarrow> bool) \<Rightarrow> u64 \<Rightarrow> u64 \<Rightarrow> 'a smr_scheme world
      \<Rightarrow> (bool \<times> u64 \<times> 'a smr_scheme world) option"
    and slots :: "nat \<Rightarrow> u64 \<Rightarrow> nat list \<Rightarrow> u64 \<Rightarrow> u64 \<Rightarrow> 'a smr_scheme world \<Rightarrow> (u64 \<times> 'a smr_scheme world) option" +
  fixes k n m :: nat
    and handle :: "'a smr_scheme \<Rightarrow> nat \<Rightarrow> u64"
    and set_handle :: "nat \<Rightarrow> u64 \<Rightarrow> 'a smr_scheme \<Rightarrow> 'a smr_scheme"
    and fits :: "'a smr_scheme \<Rightarrow> bool"
  assumes set_handle: "same_nodes {} s (set_handle t h s) \<and> reclaimed (set_handle t h s) = reclaimed s
      \<and> head (set_handle t h s) = head s \<and> handle (set_handle t h s) = (handle s)(t := h)
      \<and> fits (set_handle t h s) = fits s \<and> wants (set_handle t h s) = wants s"
    and rest_fits: "rest s' = rest s \<Longrightarrow> fits s' = fits s \<and> handle s' = handle s"

context one_slot_tasks begin

definition lib :: "nat set \<Rightarrow> (nat \<Rightarrow> ptr list \<Rightarrow> bool) \<Rightarrow> ptr list list \<Rightarrow> 'a smr_scheme \<Rightarrow> bool" where
  "lib A g B s \<longleftrightarrow> (\<exists>L H. inv (2 ^ k) L B H s \<and> g = (\<lambda>u b. set (L u) \<inter> set b \<noteq> {}) \<and> (\<forall>t \<in> A. handle s t = H t))
     \<and> fits s \<and> n \<le> 2 ^ k \<and> (2 :: nat) ^ k < 2 ^ 64 \<and> 0 < n \<and> n < m \<and> m < 2 ^ 64 \<and> A \<subseteq> {..<n}
     \<and> (\<forall>i < 2 ^ k. active s i \<longleftrightarrow> i \<in> A)"

lemma libD:
  assumes "lib A g B s"
  shows "fits s" "n \<le> 2 ^ k" "(2 :: nat) ^ k < 2 ^ 64" "0 < n" "n < m" "m < 2 ^ 64" "A \<subseteq> {..<n}"
    "i < 2 ^ k \<Longrightarrow> active s i \<longleftrightarrow> i \<in> A"
  using assms unfolding lib_def by blast+

lemma libE:
  assumes "lib A g B s"
  obtains L H where "inv (2 ^ k) L B H s" "g = (\<lambda>u b. set (L u) \<inter> set b \<noteq> {})" "\<And>t. t \<in> A \<Longrightarrow> handle s t = H t"
    "smr_inv (2 ^ k) L B [] 0 s" "\<And>i. i < 2 ^ k \<Longrightarrow> one_slot_list (smr_next s) (head s i) (H i) (L i)"
  using assms unfolding lib_def inv_def by blast

lemma libI:
  assumes "lib A g B s" "inv (2 ^ k) L B' H s'" "fits s'" "A' \<subseteq> {..<n}" "\<And>i. i < 2 ^ k \<Longrightarrow> active s' i \<longleftrightarrow> i \<in> A'"
    "\<And>t. t \<in> A' \<Longrightarrow> handle s' t = H t"
  shows "lib A' (\<lambda>u b. set (L u) \<inter> set b \<noteq> {}) B' s'"
  using assms unfolding lib_def by auto

lemma lib_idle:
  assumes "lib {} g B s"
  shows "B = []"
proof -
  obtain L H where L: "smr_inv (2 ^ k) L B [] 0 s" "\<And>i. i < 2 ^ k \<Longrightarrow> one_slot_list (smr_next s) (head s i) (H i) (L i)"
    by (rule libE [OF assms]) blast
  have "L i = []" if "i < 2 ^ k" for i using L(2) [OF that] libD(8) [OF assms that] by (simp add: one_slot_list_def)
  then have "in_slots (2 ^ k) L b = 0" for b unfolding in_slots_0 by simp
  then show ?thesis using smr_invD(10) [OF L(1)] by (cases B) auto
qed

text \<open>A step that changes neither the lists nor the heads.\<close>

lemma inv_same:
  assumes "inv N L B H s" "same_nodes X s s'" "X \<inter> set (concat B) = {}" "head s' = head s"
  shows "inv N L B H s'"
proof -
  have si: "smr_inv N L B [] 0 s" and os: "\<And>i. i < N \<Longrightarrow> one_slot_list (smr_next s) (head s i) (H i) (L i)"
    using assms(1) by (simp_all add: inv_def)
  have "one_slot_list (smr_next s') (head s' i) (H i) (L i)" if i: "i < N" for i
  proof -
    have "\<forall>x \<in> set (L i). smr_next s' x = smr_next s x"
      using slot_node(1) [OF si i] assms(2,3) by (auto simp: same_nodes_def)
    with os [OF i] one_slot_list_cong show ?thesis unfolding assms(4) by blast
  qed
  with smr_inv_same [OF si assms(2)] assms(3) show ?thesis by (simp add: inv_def)
qed

lemma lib_keep:
  assumes lib: "lib A g B s" and s': "same_nodes X s s'" "X \<inter> set (concat B) = {}" "head s' = head s"
    "fits s'" "\<And>t. t \<in> A \<Longrightarrow> handle s' t = handle s t"
  shows "lib A g B s'"
proof -
  obtain L H where L: "inv (2 ^ k) L B H s" "g = (\<lambda>u b. set (L u) \<inter> set b \<noteq> {})" "\<And>t. t \<in> A \<Longrightarrow> handle s t = H t"
    by (rule libE [OF lib]) blast
  have "inv (2 ^ k) L B H s'" by (rule inv_same [OF L(1) s'(1-3)])
  then show ?thesis unfolding L(2)
    by (rule libI [OF lib]) (use s' L(3) libD [OF lib] in auto)
qed

lemma lib_self: "lib A g B s \<Longrightarrow> same_nodes {} s s' \<Longrightarrow> head s' = head s \<Longrightarrow> fits s' \<Longrightarrow>
   (\<And>t. t \<in> A \<Longrightarrow> handle s' t = handle s t) \<Longrightarrow> lib A g B s'"
  by (rule lib_keep [where X = "{}"]) (auto simp: same_nodes_def)

lemma lib_enter:
  assumes lib: "lib A g B s" and t: "t < n" "t \<notin> A"
  shows "\<exists>g'. lib (insert t A) g' B (set_handle t 0 (put_head t 1 s)) \<and> (\<forall>u \<in> A. \<forall>b. g u b \<longrightarrow> g' u b)"
proof -
  note I = libD [OF lib]
  let ?s = "set_handle t 0 (put_head t 1 s)"
  obtain L H where L: "g = (\<lambda>u b. set (L u) \<inter> set b \<noteq> {})" "smr_inv (2 ^ k) L B [] 0 s" "\<And>t. t \<in> A \<Longrightarrow> handle s t = H t"
    "\<And>i. i < 2 ^ k \<Longrightarrow> one_slot_list (smr_next s) (head s i) (H i) (L i)"
    by (rule libE [OF lib]) blast
  note p = put_head [of t 1 s] set_handle [of "put_head t 1 s" t 0]
  have same: "same_nodes {} s ?s" using p by (simp add: same_nodes_def)
  have tN: "t < 2 ^ k" using t(1) I(2) by simp
  have "L t = []" using L(4) [OF tN] I(8) [OF tN] t(2) by (auto simp: one_slot_list_def)
  moreover have "smr_next ?s = smr_next s" "head ?s = (head s)(t := 1)" using p same by (auto simp: same_nodes_def)
  ultimately have "one_slot_list (smr_next ?s) (head ?s i) ((H(t := 0)) i) (L i)" if "i < 2 ^ k" for i
    using L(4) [OF that] by (simp add: one_slot_list_def)
  moreover have "smr_inv (2 ^ k) L B [] 0 ?s" by (rule smr_inv_same [OF L(2) same]) simp
  ultimately have "inv (2 ^ k) L B (H(t := 0)) ?s" by (simp add: inv_def)
  then have "lib (insert t A) (\<lambda>u b. set (L u) \<inter> set b \<noteq> {}) B ?s"
    by (rule libI [OF lib]) (use I t p L(3) rest_fits [of "put_head t 1 s" s] in auto)
  then show ?thesis unfolding L(1) by blast
qed

text \<open>The batches that leave and those that stay.\<close>

lemma lib_drop:
  assumes "smr_inv (2 ^ k) L B [] 0 s" "g = (\<lambda>u b. set (L u) \<inter> set b \<noteq> {})" "G \<subseteq> {..<2 ^ k}"
    "\<And>u. u \<in> G \<Longrightarrow> L' u = L u" "set F = {b \<in> set B. in_slots (2 ^ k) L' b = 0}" "distinct (concat F)"
    "reclaimed s' = reclaimed s @ map (\<lambda>x. x - sz) (concat F)"
  shows "hy_drop sz G g B s (\<lambda>u b. set (L' u) \<inter> set b \<noteq> {}) (filter (\<lambda>b. 0 < in_slots (2 ^ k) L' b) B) F s'"
proof -
  have "mset (concat B) = mset (concat (filter (\<lambda>b. 0 < in_slots (2 ^ k) L' b) B)) + mset (concat F)"
    by (rule mset_concat_split [OF smr_invD(1) [OF assms(1)] assms(6)]) (use assms(5) in simp)
  moreover have "0 < in_slots (2 ^ k) L' b" if "u \<in> G" "set (L u) \<inter> set b \<noteq> {}" for u b
    using that assms(3,4) in_slots_0 [of "2 ^ k" L' b] by fastforce
  ultimately show ?thesis using assms(2,4,7) by (simp add: hy_drop_def)
qed

lemma lib_leave:
  assumes lib: "lib A g B s" and t: "t \<in> A" and V: "\<forall>x \<in> set (concat B). x \<noteq> sz" and ck: "\<forall>x. check x"
    and fuel: "length (concat B) < fuel"
  shows "\<exists>s' g' B' F. smr_leave fuel (leave_list fuel t check (handle s t)) fr 0 (s, []) = Some (True, (s', []))
      \<and> lib (A - {t}) g' B' s' \<and> same_nodes (set (concat B)) s s' \<and> rest s' = rest s
      \<and> hy_drop sz (A - {t}) g B s g' B' F s'"
proof -
  note I = libD [OF lib]
  obtain L H where L: "inv (2 ^ k) L B H s" "g = (\<lambda>u b. set (L u) \<inter> set b \<noteq> {})" "\<And>t. t \<in> A \<Longrightarrow> handle s t = H t"
    "smr_inv (2 ^ k) L B [] 0 s" by (rule libE [OF lib]) blast
  let ?N = "(2 :: nat) ^ k" let ?L = "L(t := [])" let ?B = "filter (\<lambda>b. 0 < in_slots ?N ?L b) B"
  have tN: "t < ?N" "A \<subseteq> {..<?N}" using t I(2,7) by auto
  obtain s' F where r: "smr_leave fuel (leave_list fuel t check (H t)) fr 0 (s, []) = Some (True, (s', []))"
    "inv ?N ?L ?B H s'" "set F = {b \<in> set B. in_slots ?N ?L b = 0}" "distinct (concat F)"
    "reclaimed s' = reclaimed s @ map (\<lambda>n. n - sz) (concat F)" "same_nodes (set (concat B)) s s'"
    "head s' = (head s)(t := 0)" "rest s' = rest s"
    using leave_run [OF L(1) tN(1) I(3) ck fuel V] by blast
  have "lib (A - {t}) (\<lambda>u b. set (?L u) \<inter> set b \<noteq> {}) ?B s'"
    by (rule libI [OF lib r(2)]) (use I r(7) rest_fits [OF r(8)] L(3) in auto)
  moreover have "hy_drop sz (A - {t}) g B s (\<lambda>u b. set (?L u) \<inter> set b \<noteq> {}) ?B F s'"
    by (rule lib_drop [OF L(4,2) _ _ r(3,4,5)]) (use tN(2) in auto)
  ultimately show ?thesis using r(1,6,8) L(3) [OF t] by (intro exI conjI) simp_all
qed

lemma lib_trim:
  assumes lib: "lib A g B s" and t: "t \<in> A" and V: "\<forall>x \<in> set (concat B). x \<noteq> sz" and ck: "\<forall>x. check x"
    and fuel: "length (concat B) < fuel" and lnk: "lnk (s, []) = (head s t AND NOT 1, (s, []))"
    and ent: "\<And>s. enter (s, []) = Some (True, 0, (put_head t 1 s, []))"
  shows "\<exists>s' h g' B' F. smr_trim fuel lnk (leave_list fuel t check) enter (handle s t) fr 0 check th (s, []) = Some (True, h, (s', []))
      \<and> lib A g' B' (set_handle t h s') \<and> same_nodes (set (concat B)) s s' \<and> rest s' = rest s
      \<and> hy_drop sz (A - {t}) g B s g' B' F s'"
proof -
  note I = libD [OF lib]
  obtain L H where L: "inv (2 ^ k) L B H s" "g = (\<lambda>u b. set (L u) \<inter> set b \<noteq> {})" "\<And>t. t \<in> A \<Longrightarrow> handle s t = H t"
    "smr_inv (2 ^ k) L B [] 0 s" by (rule libE [OF lib]) blast
  let ?N = "(2 :: nat) ^ k"
  have tN: "t < ?N" "A \<subseteq> {..<?N}" using t I(2,7) by auto
  have act: "active s t" using I(8) [OF tN(1)] t by blast
  obtain s' F zs h where r: "smr_trim fuel lnk (leave_list fuel t check) enter (H t) fr 0 check th (s, []) = Some (True, h, (s', []))"
    "inv ?N (L(t := zs)) (filter (\<lambda>b. 0 < in_slots ?N (L(t := zs)) b) B) (H(t := h)) s'"
    "set F = {b \<in> set B. in_slots ?N (L(t := zs)) b = 0}" "distinct (concat F)"
    "reclaimed s' = reclaimed s @ map (\<lambda>n. n - sz) (concat F)" "same_nodes (set (concat B)) s s'"
    "rest s' = rest s" "\<And>i. active s' i = active s i"
    using trim_run [where enter = enter and th = th and lnk = lnk and s = s, OF L(1) tN(1) I(3) act ck fuel V lnk ent] by blast
  let ?L = "L(t := zs)" let ?B = "filter (\<lambda>b. 0 < in_slots ?N ?L b) B"
  note p = set_handle [of s' t h]
  have "inv ?N ?L ?B (H(t := h)) (set_handle t h s')"
    by (rule inv_same [OF r(2), of "{}"]) (use p in \<open>auto simp: same_nodes_def\<close>)
  then have "lib A (\<lambda>u b. set (?L u) \<inter> set b \<noteq> {}) ?B (set_handle t h s')"
    by (rule libI [OF lib]) (use I r(8) p rest_fits [OF r(7)] L(3) in auto)
  moreover have "hy_drop sz (A - {t}) g B s (\<lambda>u b. set (?L u) \<inter> set b \<noteq> {}) ?B F s'"
    by (rule lib_drop [OF L(4,2) _ _ r(3,4,5)]) (use tN(2) in auto)
  ultimately show ?thesis using r(1,6,7) L(3) [OF t] by (intro exI conjI) simp_all
qed

lemma lib_retire:
  assumes lib: "lib A g B s" and b: "batch_ok s b" "smr_refs s (last b) = 0" "distinct b"
      "set b \<inter> set (concat B) = {}" "\<forall>x \<in> set b. x \<noteq> 0 \<and> x AND 1 = 0 \<and> x \<noteq> sz" "length b = m" "length b < fuel"
  shows "\<exists>s'. retire_batch fuel e k (hd b) (s, []) = Some (True, (s', [])) \<and> same_nodes (set b) s s' \<and> rest s' = rest s
      \<and> (if \<exists>u \<in> A. wants s u e
         then reclaimed s' = reclaimed s
           \<and> (\<exists>g'. lib A g' (b # B) s' \<and> (\<forall>u \<in> A. (wants s u e \<longrightarrow> g' u b) \<and> (\<forall>c \<in> set B. g u c \<longrightarrow> g' u c)))
         else reclaimed s' = reclaimed s @ map (\<lambda>x. x - sz) b \<and> lib A g B s')"
proof -
  note I = libD [OF lib]
  obtain L H where L: "inv (2 ^ k) L B H s" "g = (\<lambda>u b. set (L u) \<inter> set b \<noteq> {})" "\<And>t. t \<in> A \<Longrightarrow> handle s t = H t"
    by (rule libE [OF lib]) blast
  let ?N = "(2 :: nat) ^ k"
  have AN: "A \<subseteq> {..<?N}" using I(2,7) by auto
  have few: "length (filter (takes e s) [0..<?N]) < length b"
  proof -
    have "set (filter (takes e s) [0..<?N]) \<subseteq> {..<n}" using I(7,8) by auto
    then have "card (set (filter (takes e s) [0..<?N])) \<le> card {..<n}" by (intro card_mono) auto
    moreover have "length (filter (takes e s) [0..<?N]) = card (set (filter (takes e s) [0..<?N]))"
      by (rule distinct_card [symmetric]) simp
    ultimately show ?thesis using b(6) I(5) by simp
  qed
  have okb: "\<forall>x \<in> set b. x \<noteq> 0 \<and> x AND 1 = 0" "\<forall>x \<in> set b. x \<noteq> sz" using b(5) by blast+
  obtain s' L' where r: "retire_batch fuel e k (hd b) (s, []) = Some (True, (s', []))"
    "same_nodes (set b) s s'" "\<And>i. active s' i = active s i" "rest s' = rest s"
    "if \<exists>i<?N. takes e s i
     then reclaimed s' = reclaimed s \<and> inv ?N L' (b # B) H s'
       \<and> (\<forall>i<?N. if takes e s i then \<exists>x \<in> set (butlast b). L' i = x # L i else L' i = L i)
     else reclaimed s' = reclaimed s @ map (\<lambda>n. n - sz) b \<and> inv ?N L B H s'"
    using retire_run [OF L(1) refl I(3) b(1-4) okb(1) few b(7) okb(2)] by blast
  have tk: "(\<exists>i<?N. takes e s i) \<longleftrightarrow> (\<exists>u \<in> A. wants s u e)" using AN I(8) by blast
  have same: "lib A (\<lambda>u b. set (L'' u) \<inter> set b \<noteq> {}) B'' s'" if "inv ?N L'' B'' H s'" for L'' B''
    by (rule libI [OF lib that]) (use I r(3) rest_fits [OF r(4)] L(3) in auto)
  show ?thesis
  proof (cases "\<exists>u \<in> A. wants s u e")
    case False
    with tk r(5) have "reclaimed s' = reclaimed s @ map (\<lambda>n. n - sz) b" "inv ?N L B H s'" by simp_all
    with False r(1,2,4) same show ?thesis unfolding L(2) by (intro exI [of _ s']) simp
  next
    case True
    with tk have ex: "\<exists>i<?N. takes e s i" by blast
    have l: "reclaimed s' = reclaimed s" "inv ?N L' (b # B) H s'"
      "\<And>i. i < ?N \<Longrightarrow> if takes e s i then \<exists>x \<in> set (butlast b). L' i = x # L i else L' i = L i"
      using r(5) [unfolded if_P [OF ex]] by blast+
    have "(wants s u e \<longrightarrow> set (L' u) \<inter> set b \<noteq> {}) \<and> (\<forall>c \<in> set B. set (L u) \<inter> set c \<noteq> {} \<longrightarrow> set (L' u) \<inter> set c \<noteq> {})"
      if u: "u \<in> A" for u
    proof -
      have uN: "u < ?N" using u AN by auto
      have "active s u" using I(8) [OF uN] u by blast
      with l(3) [OF uN] show ?thesis by (auto split: if_splits dest: in_set_butlastD)
    qed
    then have "\<exists>g'. lib A g' (b # B) s' \<and> (\<forall>u \<in> A. (wants s u e \<longrightarrow> g' u b) \<and> (\<forall>c \<in> set B. g u c \<longrightarrow> g' u c))"
      unfolding L(2) by (intro exI [of _ "\<lambda>u b. set (L' u) \<inter> set b \<noteq> {}"] conjI same [OF l(2)]) blast
    with r(1,2,4) l(1) True show ?thesis by (intro exI [of _ s']) simp
  qed
qed

lemma lib_start:
  assumes "fits s" "n \<le> 2 ^ k" "(2 :: nat) ^ k < 2 ^ 64" "0 < n" "n < m" "m < 2 ^ 64" "\<And>i. i < 2 ^ k \<Longrightarrow> head s i = 0"
  shows "lib {} (\<lambda>u b. set [] \<inter> set b \<noteq> {}) [] s"
  using assms unfolding lib_def
  by (intro conjI exI [of _ "\<lambda>_. []"] exI [of _ "\<lambda>_. 0"]) (simp_all add: inv_def smr_inv_eq one_slot_list_def)

end

end
