(* ===== verification/Hyaline_O_Safe.thy ===== *)
theory Hyaline_O_Safe
  imports Hyaline_O Hyaline_Smr Hyaline_One
begin

text \<open>
  Safety and progress of \<open>HyalineOELTracker\<close>: with the single-width library it keeps the contract
  \<open>hy_smr\<close>.  A thread holds back the batches its slot refers to.
\<close>

definition oel_ops :: "nat \<Rightarrow> u64 \<Rightarrow> hyoel hy_ops" where
  "oel_ops fuel sz = \<lparr>ops_alloc = (\<lambda>p t s. Some (snd (oel_alloc t p s))),
     ops_start = (\<lambda>t s. Some (solo (oel_start_op t) s)),
     ops_read = (\<lambda>a t s. Some (fst (snd (base_read a 0 t nullptr (s, []))))),
     ops_end = (\<lambda>t s. map_option fst (oel_end_op fuel sz t (s, []))),
     ops_last = (\<lambda>t s. Some (oel_last_end_op t s)),
     ops_retire = (\<lambda>p t s. map_option fst (oel_retire fuel sz p t (s, [])))\<rparr>"

abbreviation oel_run :: "nat \<Rightarrow> u64 \<Rightarrow> hy_event list \<Rightarrow> hyoel \<Rightarrow> hyoel option" where
  "oel_run fuel sz \<equiv> hy_run (oel_ops fuel sz)"

text \<open>A node of the single-width library has an even address.\<close>

definition even_node :: "ptr \<Rightarrow> bool" where
  "even_node x \<longleftrightarrow> x \<noteq> 0 \<and> x AND 1 = 0"

abbreviation oel_lawful :: "nat \<Rightarrow> u64 \<Rightarrow> hy_event list \<Rightarrow> hyoel \<Rightarrow> bool" where
  "oel_lawful fuel sz \<equiv> hy_lawful False (oel_ops fuel sz) sz even_node hy_idle"

section \<open>The contract\<close>

definition oel_fits :: "nat \<Rightarrow> nat \<Rightarrow> nat \<Rightarrow> hyoel \<Rightarrow> bool" where
  "oel_fits k n m s \<longleftrightarrow> oel_SMR_ORDER s = k \<and> oel_SMR_BATCH s = of_nat m \<and> task_num s = n
     \<and> (\<forall>t < n. hy_enter_num (oel_taskData s t) = t)"

interpretation oel_s: one_slot_tasks "oel_free_node sz" sz lfo_head lfo_put_head lfo_rest "\<lambda>s j e. True"
  "\<lambda>fuel i check. lfo_leave_list fuel i 0 check" "\<lambda>fuel e. lfo_slots fuel 0" k n m
  "\<lambda>s t. hy_handle (oel_taskData s t)" oel_set_handle "oel_fits k n m" for sz k n m
proof unfold_locales
  fix s s' :: hyoel and t h
  show "lfo_rest s' = lfo_rest s \<Longrightarrow> oel_fits k n m s' = oel_fits k n m s
      \<and> (\<lambda>t. hy_handle (oel_taskData s' t)) = (\<lambda>t. hy_handle (oel_taskData s t))"
    by (cases s, cases s') (simp add: lfo_rest_def oel_fits_def)
  have "hy_enter_num (oel_taskData (oel_set_handle t h s) u) = hy_enter_num (oel_taskData s u)" for u
    by (simp add: oel_set_handle_def)
  then show "same_nodes {} s (oel_set_handle t h s) \<and> reclaimed (oel_set_handle t h s) = reclaimed s
      \<and> lfo_head (oel_set_handle t h s) = lfo_head s
      \<and> (\<lambda>u. hy_handle (oel_taskData (oel_set_handle t h s) u)) = (\<lambda>u. hy_handle (oel_taskData s u))(t := h)
      \<and> oel_fits k n m (oel_set_handle t h s) = oel_fits k n m s \<and> (\<lambda>j e. True) = (\<lambda>j e. True)"
    by (auto simp: oel_set_handle_def oel_fits_def same_nodes_def)
qed

lemma oel_kept: "smr_kept s' = smr_kept s \<Longrightarrow> oel_taskData s' = oel_taskData s \<and> lfo_head s' = lfo_head s
  \<and> oel_fits k n m s' = oel_fits k n m s"
  by (cases s, cases s') (simp add: oel_fits_def)

lemma oel_set_batch_fields:
  "smr_next (oel_set_batch t b s) = smr_next s" "smr_link (oel_set_batch t b s) = smr_link s"
  "smr_refs (oel_set_batch t b s) = smr_refs s" "lfo_head (oel_set_batch t b s) = lfo_head s"
  "task_num (oel_set_batch t b s) = task_num s" "reclaimed (oel_set_batch t b s) = reclaimed s"
  "oel_fits k n m (oel_set_batch t b s) = oel_fits k n m s"
  "oel_taskData (oel_set_batch t b s) = (oel_taskData s)(t := (oel_taskData s t)\<lparr>hy_batch := b\<rparr>)"
  by (auto simp: oel_set_batch_def oel_fits_def)

lemma oel_rest: "lfo_rest s' = lfo_rest s \<Longrightarrow> oel_taskData s' = oel_taskData (s :: hyoel)"
  by (cases s, cases s') (simp add: lfo_rest_def)

interpretation oel_t: hy_smr "oel_ops fuel sz" n m sz even_node fuel limit False k "lfo_retire_batch fuel (oel_free_node sz) 0"
  "\<lambda>s t. hy_batch (oel_taskData s t)" oel_set_batch "\<lambda>A D. oel_s.lib k n m A" for fuel sz n m k limit
proof unfold_locales
  fix A D g B and s s' :: hyoel and t b X p
  assume lib: "oel_s.lib k n m A g B s"
  note I = oel_s.libD [OF lib]
  have fit: "oel_SMR_ORDER s = k" "oel_SMR_BATCH s = of_nat m" "task_num s = n"
    "\<And>u. u < n \<Longrightarrow> hy_enter_num (oel_taskData s u) = u" using I(1) by (simp_all add: oel_fits_def)
  show "1 < m \<and> m < 2 ^ 64" using I(4-6) by linarith
  show "A \<subseteq> {..<n} \<and> task_num s = n" using I(7) fit(3) by blast
  show "oel_s.lib k n m A g B (oel_set_batch t bt s)" for bt
    by (rule oel_s.lib_self [OF lib]) (use I(1) in \<open>auto simp: same_nodes_def oel_set_batch_fields\<close>)
  show "oel_s.lib k n m A g B s'" if "same_nodes X s s'" "X \<inter> set (concat B) = {}" "smr_next s' = smr_next s"
    "smr_kept s' = smr_kept s"
    by (rule oel_s.lib_keep [OF lib that(1,2)]) (use oel_kept [OF that(4)] I(1) in simp_all)
  show "\<exists>s' g'. ops_start (oel_ops fuel sz) t s = Some s' \<and> same_nodes {} s s' \<and> reclaimed s' = reclaimed s
      \<and> (\<lambda>t'. hy_batch (oel_taskData s' t')) = (\<lambda>t'. hy_batch (oel_taskData s t'))
      \<and> oel_s.lib k n m (insert t A) g' B s' \<and> (\<forall>u \<in> A. \<forall>b \<in> set B. g u b \<longrightarrow> g' u b)"
    if t: "t < n" "t \<notin> D" "False \<or> t \<notin> A"
  proof -
    let ?s = "oel_set_handle t 0 (lfo_put_head t 1 s)"
    have "solo (oel_start_op t) s = ?s" using fit(4) [OF t(1)] by (simp add: oel_start_op_def lfo_enter_def store_alone own_alone)
    moreover obtain g' where "oel_s.lib k n m (insert t A) g' B ?s" "\<forall>u \<in> A. \<forall>b. g u b \<longrightarrow> g' u b"
      using oel_s.lib_enter [OF lib t(1)] t(3) by blast
    ultimately show ?thesis
      by (intro exI [of _ ?s] exI [of _ g']) (auto simp: oel_ops_def same_nodes_def oel_set_handle_def lfo_put_head_def)
  qed
  show "\<exists>s' g' B' F. ops_end (oel_ops fuel sz) t s = Some s' \<and> oel_s.lib k n m (if False then A else A - {t}) g' B' s'
      \<and> same_nodes (set (concat B)) s s' \<and> (\<lambda>t. hy_batch (oel_taskData s' t)) = (\<lambda>t. hy_batch (oel_taskData s t))
      \<and> hy_drop sz (A - {t}) g B s g' B' F s'"
    if t: "t \<in> A" and ok: "\<forall>x \<in> set (concat B). even_node x \<and> x \<noteq> sz" and len: "length (concat B) < fuel"
  proof -
    have ok: "\<forall>x \<in> set (concat B). x \<noteq> sz" and ck: "\<forall>x. LF_DONTCHECK x" using ok by (simp_all add: LF_DONTCHECK_def)
    have tn: "t < n" using t I(7) by blast
    obtain s' g' B' F where r: "smr_leave fuel (lfo_leave_list fuel t 0 LF_DONTCHECK (hy_handle (oel_taskData s t)))
        (oel_free_node sz) 0 (s, []) = Some (True, (s', []))" "oel_s.lib k n m (A - {t}) g' B' s'"
      "same_nodes (set (concat B)) s s'" "lfo_rest s' = lfo_rest s" "hy_drop sz (A - {t}) g B s g' B' F s'"
      using oel_s.lib_leave [OF lib t ok ck len] by blast
    have "ops_end (oel_ops fuel sz) t s = Some s'"
      using r(1) fit(4) [OF tn] by (simp add: oel_ops_def oel_end_op_def lfo_leave_def)
    with r(2,3,5) oel_rest [OF r(4)] show ?thesis by auto
  qed
  show "\<exists>s' g' B' F. ops_last (oel_ops fuel sz) t s = Some s' \<and> oel_s.lib k n m (A - {t}) g' B' s'
      \<and> same_nodes (set (concat B)) s s' \<and> (\<lambda>t. hy_batch (oel_taskData s' t)) = (\<lambda>t. hy_batch (oel_taskData s t))
      \<and> hy_drop sz (A - {t}) g B s g' B' F s'" if "False \<longleftrightarrow> t \<in> A"
    by (intro exI [of _ s] exI [of _ g] exI [of _ B] exI [of _ "[]"])
      (use that lib in \<open>simp add: oel_ops_def oel_last_end_op_def hy_drop_def\<close>)
  show "\<exists>s'. lfo_retire_batch fuel (oel_free_node sz) 0 k (hd b) (s, []) = Some (True, (s', []))
      \<and> same_nodes (set b \<union> set (concat B)) s s' \<and> (\<lambda>t. hy_batch (oel_taskData s' t)) = (\<lambda>t. hy_batch (oel_taskData s t))
      \<and> (if A = {} then reclaimed s' = reclaimed s @ map (\<lambda>x. x - sz) b \<and> oel_s.lib k n m A g B s'
         else reclaimed s' = reclaimed s
           \<and> (\<exists>g'. oel_s.lib k n m A g' (b # B) s' \<and> (\<forall>u \<in> A. g' u b \<and> (\<forall>c \<in> set B. g u c \<longrightarrow> g' u c))))"
    if b: "batch_ok s b" "smr_refs s (last b) = 0" "distinct b" "set b \<inter> set (concat B) = {}"
      "\<forall>x \<in> set b. even_node x \<and> x \<noteq> sz" "length b = m" "length b < fuel"
  proof -
    have okb: "\<forall>x \<in> set b. x \<noteq> 0 \<and> x AND 1 = 0 \<and> x \<noteq> sz" using b(5) by (simp add: even_node_def)
    obtain s' where r: "oel.slot.retire_batch sz fuel 0 k (hd b) (s, []) = Some (True, (s', []))" "same_nodes (set b) s s'"
      "lfo_rest s' = lfo_rest s"
      "if \<exists>u \<in> A. True then reclaimed s' = reclaimed s
         \<and> (\<exists>g'. oel_s.lib k n m A g' (b # B) s' \<and> (\<forall>u \<in> A. (True \<longrightarrow> g' u b) \<and> (\<forall>c \<in> set B. g u c \<longrightarrow> g' u c)))
       else reclaimed s' = reclaimed s @ map (\<lambda>x. x - sz) b \<and> oel_s.lib k n m A g B s'"
      using oel_s.lib_retire [OF lib b(1-4) okb b(6,7)] by blast
    have "same_nodes (set b \<union> set (concat B)) s s'" by (rule same_nodes_mono [OF r(2)]) blast
    with r(1,4) oel_rest [OF r(3)] show ?thesis unfolding oel.lfo_retire_batch_eq [where e = 0]
      by (intro exI [of _ s'] conjI) (auto split: if_splits)
  qed
  show "ops_retire (oel_ops fuel sz) p t s = map_option (\<lambda>(ok, bt, w). oel_set_batch t bt (fst w))
        (smr_retire (lfo_retire_batch fuel (oel_free_node sz) 0) k (p + sz) 0 (hy_batch (oel_taskData s t)) (of_nat m) (s, []))"
    if "p \<noteq> nullptr"
    using that fit(1,2)
    by (simp add: oel_ops_def oel_retire_def lfo_retire_def option.map_comp) (auto intro!: option.map_cong)
next
  show "ops_alloc (oel_ops fuel sz) p t s = Some s" "ops_read (oel_ops fuel sz) a t s = Some s" for p a t s
    by (simp_all add: oel_ops_def oel_alloc_def base_read_def load_alone)
  show "oel_s.lib k n m {} g B s \<Longrightarrow> B = []" for g B s by (rule oel_s.lib_idle)
  show "even_node x \<Longrightarrow> x \<noteq> 0" for x by (simp add: even_node_def)
  show "same_nodes {} s (oel_set_batch t bt s) \<and> reclaimed (oel_set_batch t bt s) = reclaimed s
      \<and> (\<lambda>t'. hy_batch (oel_taskData (oel_set_batch t bt s) t')) = (\<lambda>t'. hy_batch (oel_taskData s t'))(t := bt)"
    for s t bt by (auto simp: same_nodes_def oel_set_batch_fields)
  show "smr_kept s' = smr_kept s \<Longrightarrow> (\<lambda>t. hy_batch (oel_taskData s' t)) = (\<lambda>t. hy_batch (oel_taskData s t))" for s' s :: hyoel
    using oel_kept [of s' s] by simp
qed

lemma lfo_init_from_run:
  "lfo_init_from js s = s\<lparr>lfo_head := (\<lambda>i. if i \<in> set js then 0 else lfo_head s i)\<rparr>"
  by (induction js arbitrary: s) (auto simp: lfo_put_head_def fun_eq_iff intro!: lfsmro.fold_congs)

lemma oel_new_lib:
  assumes n: "0 < n" "n < 2 ^ 31" and e: "emptyFreq < 2 ^ 31"
  shows "oel_t.hy.inv n sz (calc_next_log2 (of_nat n)) (nat (max emptyFreq (int n + 1))) hy_idle
     (\<lambda>u b. set [] \<inter> set b \<noteq> {}) [] (\<lambda>_. []) 0 (oel_new n emptyFreq collect cnt mem nx lk rf hd0 td)"
proof -
  let ?s = "oel_new n emptyFreq collect cnt mem nx lk rf hd0 td" let ?k = "calc_next_log2 (of_nat n)"
  let ?m = "nat (max emptyFreq (int n + 1))"
  note k = slots_for_threads [OF n]
  have fld: "oel_SMR_ORDER ?s = ?k" "task_num ?s = n" "reclaimed ?s = []"
    "oel_SMR_BATCH ?s = of_int (if int n < emptyFreq then emptyFreq else int n + 1)"
    "lfo_head ?s = (\<lambda>i. if i < 2 ^ ?k then 0 else hd0 i)"
    "oel_taskData ?s = (\<lambda>i. if i < n
        then (td i)\<lparr>hy_enter_num := i AND (2 ^ ?k - 1), hy_batch := smr_batch_init (hy_batch (td i))\<rparr> else td i)"
    by (simp_all add: oel_new_def lfo_init_def lfo_init_from_run base_new_def base.defs Let_def atLeast0LessThan cong: if_cong)
  have mx: "(if int n < emptyFreq then emptyFreq else int n + 1) = int ?m" by simp
  have m: "oel_SMR_BATCH ?s = of_nat ?m" unfolding fld(4) mx by (rule of_int_of_nat_eq)
  have m': "n < ?m" "?m < 2 ^ 64" using n e by simp_all
  have "oel_fits ?k n ?m ?s" using m k(4) by (simp add: oel_fits_def fld)
  then have lib: "oel_s.lib ?k n ?m {} (\<lambda>u b. set [] \<inter> set b \<noteq> {}) [] ?s"
    using k(1,3) n(1) m' by (intro oel_s.lib_start) (simp_all add: fld)
  show ?thesis
    by (rule oel_t.hy.init [OF lib fld(3)]) (use m' in \<open>simp add: fld oel_t.Open_def open_ok_def smr_batch_init_def\<close>)
qed

section \<open>Safety and progress\<close>

text \<open>Two threads, batches of three; thread 0 is inside an operation while thread 1 retires three
  objects.\<close>

definition hy_td0 :: "nat \<Rightarrow> hy_task" where
  "hy_td0 t = \<lparr>hy_handle = 0, hy_batch = \<lparr>batch_first = 0, batch_last = 0, batch_counter = 0\<rparr>, hy_enter_num = 0\<rparr>"

abbreviation hy_two :: hyoel where
  "hy_two \<equiv> oel_new 2 0 True False (\<lambda>_. 0) (\<lambda>_. 0) (\<lambda>_. 0) (\<lambda>_. 0) (\<lambda>_. 0) hy_td0"

text \<open>C1: No use after free.  In any legal history, if thread \<open>u\<close> is inside an operation when an
  object is retired, the object is not reclaimed until \<open>u\<close> has ended that operation, whatever the
  other threads do; and every operation of the history returns.\<close>

theorem oel_protects:
  assumes "0 < n" "n < 2 ^ 31" "emptyFreq < 2 ^ 31"
    and "oel_lawful fuel sz (es @ HyRetire p v # es') (oel_new n emptyFreq collect cnt mem nx lk rf hd0 td)"
    and "length es + length es' + 1 < fuel"
    and "u \<in> hu_inside (hy_after False es)" "HyEnd u \<notin> set es'"
  shows "\<exists>s s' ps. oel_run fuel sz es (oel_new n emptyFreq collect cnt mem nx lk rf hd0 td) = Some s
     \<and> oel_run fuel sz (HyRetire p v # es') s = Some s'
     \<and> reclaimed s' = reclaimed s @ ps \<and> p \<notin> set ps"
  by (rule oel_t.hy.protects_seen [where limit = "length es + length es' + 2",
        OF oel_new_lib [OF assms(1-3)] assms(4) _ _ assms(6,7)])
    (use assms(5) in \<open>simp_all add: hy_idle_def\<close>)

theorem oel_protects_witness:
  "\<exists>s s' ps. oel_run 16 8 [HyAlloc 16 1, HyAlloc 32 1, HyAlloc 48 1, HyStart 0] hy_two = Some s
     \<and> oel_run 16 8 (HyRetire 16 1 # [HyRetire 32 1, HyRetire 48 1, HyStart 1, HyEnd 1, HyLast 1]) s = Some s'
     \<and> reclaimed s' = reclaimed s @ ps \<and> (16 :: ptr) \<notin> set ps"
proof (rule oel_protects [where u = 0])
  show "oel_lawful 16 8 ([HyAlloc 16 1, HyAlloc 32 1, HyAlloc 48 1, HyStart 0]
      @ HyRetire 16 1 # [HyRetire 32 1, HyRetire 48 1, HyStart 1, HyEnd 1, HyLast 1]) hy_two"
    by code_simp
qed (simp_all add: hy_idle_def)

text \<open>C2: No double free and no leak.  In any legal history an object is reclaimed at most as often
  as it has been retired; and when no thread is inside an operation, at most one batch less one
  object per thread still waits.\<close>

theorem oel_reclaims:
  assumes "0 < n" "n < 2 ^ 31" "emptyFreq < 2 ^ 31"
    and "oel_lawful fuel sz es (oel_new n emptyFreq collect cnt mem nx lk rf hd0 td)"
    and "length es < fuel"
  shows "\<exists>s. oel_run fuel sz es (oel_new n emptyFreq collect cnt mem nx lk rf hd0 td) = Some s
     \<and> mset (reclaimed s) \<subseteq># mset (hu_retired (hy_after False es))
     \<and> (hu_entered (hy_after False es) = {} \<longrightarrow> length (hu_retired (hy_after False es)) - length (reclaimed s)
          \<le> n * (nat (max emptyFreq (int n + 1)) - 1))"
  by (rule oel_t.hy.reclaims [where limit = "length es + 1", OF oel_new_lib [OF assms(1-3)] assms(4,5)]) simp

theorem oel_reclaims_witness:
  "\<exists>s. oel_run 16 8 [HyAlloc 16 1, HyStart 0, HyRetire 16 1, HyEnd 0] hy_two = Some s
     \<and> mset (reclaimed s) \<subseteq># mset (hu_retired (hy_after False [HyAlloc 16 1, HyStart 0, HyRetire 16 1, HyEnd 0]))
     \<and> (hu_entered (hy_after False [HyAlloc 16 1, HyStart 0, HyRetire 16 1, HyEnd 0]) = {} \<longrightarrow>
          length (hu_retired (hy_after False [HyAlloc 16 1, HyStart 0, HyRetire 16 1, HyEnd 0])) - length (reclaimed s)
            \<le> 2 * (nat (max 0 (int 2 + 1)) - 1))"
proof (rule oel_reclaims)
  show "oel_lawful 16 8 [HyAlloc 16 1, HyStart 0, HyRetire 16 1, HyEnd 0] hy_two" by code_simp
qed simp_all

end
