(* ===== verification/Hyaline_OTR_Safe.thy ===== *)
theory Hyaline_OTR_Safe
  imports Hyaline_O_Safe
begin

text \<open>
  Safety and progress of \<open>HyalineOTRTracker\<close>: a thread enters the library with its first operation,
  trims its slot after every operation and leaves with \<open>last_end_op\<close>.  Between its operations it
  still holds back the batches its slot refers to.
\<close>

definition otr_ops :: "nat \<Rightarrow> u64 \<Rightarrow> hyotr hy_ops" where
  "otr_ops fuel sz = \<lparr>ops_alloc = (\<lambda>p t s. Some (snd (otr_alloc t p s))),
     ops_start = (\<lambda>t s. Some (solo (otr_start_op t) s)),
     ops_read = (\<lambda>a t s. Some (fst (snd (base_read a 0 t nullptr (s, []))))),
     ops_end = (\<lambda>t s. map_option fst (otr_end_op fuel sz t (s, []))),
     ops_last = (\<lambda>t s. map_option fst (otr_last_end_op fuel sz t (s, []))),
     ops_retire = (\<lambda>p t s. map_option fst (otr_retire fuel sz p t (s, [])))\<rparr>"

abbreviation otr_run :: "nat \<Rightarrow> u64 \<Rightarrow> hy_event list \<Rightarrow> hyotr \<Rightarrow> hyotr option" where
  "otr_run fuel sz \<equiv> hy_run (otr_ops fuel sz)"

abbreviation otr_lawful :: "nat \<Rightarrow> u64 \<Rightarrow> hy_event list \<Rightarrow> hyotr \<Rightarrow> bool" where
  "otr_lawful fuel sz \<equiv> hy_lawful True (otr_ops fuel sz) sz even_node hy_idle"

section \<open>The contract\<close>

definition otr_fits :: "nat \<Rightarrow> nat \<Rightarrow> nat \<Rightarrow> hyotr \<Rightarrow> bool" where
  "otr_fits k n m s \<longleftrightarrow> otr_SMR_ORDER s = k \<and> otr_SMR_BATCH s = of_nat m \<and> task_num s = n
     \<and> (\<forall>t < n. hy_enter_num (otr_taskData s t) = t)"

interpretation otr_s: one_slot_tasks "oel_free_node sz" sz lfo_head lfo_put_head lfo_rest "\<lambda>s j e. True"
  "\<lambda>fuel i check. lfo_leave_list fuel i 0 check" "\<lambda>fuel e. lfo_slots fuel 0" k n m
  "\<lambda>s t. hy_handle (otr_taskData s t)" otr_set_handle "otr_fits k n m" for sz k n m
proof unfold_locales
  fix s s' :: hyotr and t h
  show "lfo_rest s' = lfo_rest s \<Longrightarrow> otr_fits k n m s' = otr_fits k n m s
      \<and> (\<lambda>t. hy_handle (otr_taskData s' t)) = (\<lambda>t. hy_handle (otr_taskData s t))"
    by (cases s, cases s') (simp add: lfo_rest_def otr_fits_def)
  have "hy_enter_num (otr_taskData (otr_set_handle t h s) u) = hy_enter_num (otr_taskData s u)" for u
    by (simp add: otr_set_handle_def)
  then show "same_nodes {} s (otr_set_handle t h s) \<and> reclaimed (otr_set_handle t h s) = reclaimed s
      \<and> lfo_head (otr_set_handle t h s) = lfo_head s
      \<and> (\<lambda>u. hy_handle (otr_taskData (otr_set_handle t h s) u)) = (\<lambda>u. hy_handle (otr_taskData s u))(t := h)
      \<and> otr_fits k n m (otr_set_handle t h s) = otr_fits k n m s \<and> (\<lambda>j e. True) = (\<lambda>j e. True)"
    by (auto simp: otr_set_handle_def otr_fits_def same_nodes_def)
qed

text \<open>A thread that is not in the library and has not left it for good has not started yet.\<close>

definition otr_first :: "nat \<Rightarrow> nat set \<Rightarrow> nat set \<Rightarrow> hyotr \<Rightarrow> bool" where
  "otr_first n A D s \<longleftrightarrow> (\<forall>t < n. hy_firstTime (otr_taskData s t) \<longleftrightarrow> t \<notin> A \<union> D)"

lemma otr_kept: "smr_kept s' = smr_kept s \<Longrightarrow> otr_taskData s' = otr_taskData s \<and> lfo_head s' = lfo_head s
  \<and> otr_fits k n m s' = otr_fits k n m s \<and> otr_first n A D s' = otr_first n A D s"
  by (cases s, cases s') (simp add: otr_fits_def otr_first_def)

lemma otr_rest: "lfo_rest s' = lfo_rest s \<Longrightarrow> otr_taskData s' = otr_taskData (s :: hyotr)"
  by (cases s, cases s') (simp add: lfo_rest_def)

lemma otr_set_batch_fields:
  "smr_next (otr_set_batch t b s) = smr_next s" "smr_link (otr_set_batch t b s) = smr_link s"
  "smr_refs (otr_set_batch t b s) = smr_refs s" "lfo_head (otr_set_batch t b s) = lfo_head s"
  "task_num (otr_set_batch t b s) = task_num s" "reclaimed (otr_set_batch t b s) = reclaimed s"
  "otr_fits k n m (otr_set_batch t b s) = otr_fits k n m s"
  "otr_taskData (otr_set_batch t b s) = (otr_taskData s)(t := (otr_taskData s t)\<lparr>hy_batch := b\<rparr>)"
  by (auto simp: otr_set_batch_def otr_fits_def)

abbreviation otr_lib :: "nat \<Rightarrow> nat \<Rightarrow> nat \<Rightarrow> nat set \<Rightarrow> nat set \<Rightarrow> (nat \<Rightarrow> ptr list \<Rightarrow> bool) \<Rightarrow> ptr list list \<Rightarrow> hyotr \<Rightarrow> bool" where
  "otr_lib k n m A D g B s \<equiv> otr_s.lib k n m A g B s \<and> otr_first n A D s"

text \<open>The two kinds of \<open>start_op\<close>.\<close>

lemma otr_start:
  assumes lib: "otr_lib k n m A D g B s" and t: "t < n" "t \<notin> D"
  shows "\<exists>g'. same_nodes {} s (solo (otr_start_op t) s) \<and> reclaimed (solo (otr_start_op t) s) = reclaimed s
    \<and> (\<forall>u. hy_batch (otr_taskData (solo (otr_start_op t) s) u) = hy_batch (otr_taskData s u))
    \<and> otr_lib k n m (insert t A) D g' B (solo (otr_start_op t) s) \<and> (\<forall>u \<in> A. \<forall>b \<in> set B. g u b \<longrightarrow> g' u b)"
proof (cases "t \<in> A")
  case True
  with lib t(1) have "\<not> hy_firstTime (otr_taskData s t)" by (simp add: otr_first_def)
  then have "solo (otr_start_op t) s = s" by (simp add: otr_start_op_def)
  with True lib show ?thesis by (intro exI [of _ g]) (simp add: insert_absorb)
next
  case False
  with lib t have f: "hy_firstTime (otr_taskData s t)" by (simp add: otr_first_def)
  have num: "hy_enter_num (otr_taskData s t) = t" using otr_s.libD(1) [of k n m A g B s] lib t(1) by (simp add: otr_fits_def)
  let ?f = "\<lambda>s. s\<lparr>otr_taskData := (otr_taskData s)(t := (otr_taskData s t)\<lparr>hy_firstTime := False\<rparr>)\<rparr>"
  let ?s1 = "otr_set_handle t 0 (lfo_put_head t 1 s)" let ?s2 = "otr_set_handle t 0 (lfo_put_head t 1 (?f s))"
  have run: "solo (otr_start_op t) s = ?s2"
    using f num by (simp add: otr_start_op_def lfo_enter_def store_alone own_alone)
  obtain g' where g': "otr_s.lib k n m (insert t A) g' B ?s1" "\<forall>u \<in> A. \<forall>b. g u b \<longrightarrow> g' u b"
    using otr_s.lib_enter [of k n m A g B s t] lib t(1) False by blast
  have nums: "hy_enter_num (otr_taskData ?s2 u) = hy_enter_num (otr_taskData ?s1 u)" for u
    by (simp add: otr_set_handle_def lfo_put_head_def)
  have "otr_s.lib k n m (insert t A) g' B ?s2"
  proof (rule otr_s.lib_self [OF g'(1)])
    show "otr_fits k n m ?s2" using otr_s.libD(1) [OF g'(1)] unfolding otr_fits_def nums
      by (simp add: otr_set_handle_def lfo_put_head_def)
  qed (simp_all add: same_nodes_def otr_set_handle_def lfo_put_head_def)
  moreover have "otr_first n (insert t A) D ?s2"
    using lib by (auto simp: otr_first_def otr_set_handle_def lfo_put_head_def)
  ultimately show ?thesis unfolding run using g'(2)
    by (intro exI [of _ g']) (simp add: same_nodes_def otr_set_handle_def lfo_put_head_def)
qed

interpretation otr_t: hy_smr "otr_ops fuel sz" n m sz even_node fuel limit True k "lfo_retire_batch fuel (oel_free_node sz) 0"
  "\<lambda>s t. hy_batch (otr_taskData s t)" otr_set_batch "otr_lib k n m" for fuel sz n m k limit
proof unfold_locales
  fix A D g B and s s' :: hyotr and t b X p
  assume both: "otr_lib k n m A D g B s"
  then have lib: "otr_s.lib k n m A g B s" and fst: "otr_first n A D s" by blast+
  note I = otr_s.libD [OF lib]
  have fit: "otr_SMR_ORDER s = k" "otr_SMR_BATCH s = of_nat m" "task_num s = n"
    "\<And>u. u < n \<Longrightarrow> hy_enter_num (otr_taskData s u) = u" using I(1) by (simp_all add: otr_fits_def)
  show "1 < m \<and> m < 2 ^ 64" using I(4-6) by linarith
  show "A \<subseteq> {..<n} \<and> task_num s = n" using I(7) fit(3) by blast
  show "otr_lib k n m A D g B (otr_set_batch t bt s)" for bt
    by (rule conjI, rule otr_s.lib_self [OF lib])
      (use I(1) fst in \<open>auto simp: same_nodes_def otr_set_batch_fields otr_first_def\<close>)
  show "otr_lib k n m A D g B s'" if "same_nodes X s s'" "X \<inter> set (concat B) = {}" "smr_next s' = smr_next s"
    "smr_kept s' = smr_kept s"
    by (rule conjI, rule otr_s.lib_keep [OF lib that(1,2)]) (use otr_kept [OF that(4)] I(1) fst in simp_all)
  show "\<exists>s' g'. ops_start (otr_ops fuel sz) t s = Some s' \<and> same_nodes {} s s' \<and> reclaimed s' = reclaimed s
      \<and> (\<lambda>t'. hy_batch (otr_taskData s' t')) = (\<lambda>t'. hy_batch (otr_taskData s t'))
      \<and> otr_lib k n m (insert t A) D g' B s' \<and> (\<forall>u \<in> A. \<forall>b \<in> set B. g u b \<longrightarrow> g' u b)"
    if td: "t < n" "t \<notin> D"
  proof -
    let ?s = "solo (otr_start_op t) s"
    obtain g' where "same_nodes {} s ?s" "reclaimed ?s = reclaimed s"
      "\<forall>u. hy_batch (otr_taskData ?s u) = hy_batch (otr_taskData s u)"
      "otr_lib k n m (insert t A) D g' B ?s" "\<forall>u \<in> A. \<forall>b \<in> set B. g u b \<longrightarrow> g' u b"
      using otr_start [OF both td] by blast
    then show ?thesis by (intro exI [of _ ?s] exI [of _ g']) (simp add: otr_ops_def)
  qed
  have ck: "\<forall>x. LF_DONTCHECK x" by (simp add: LF_DONTCHECK_def)
  show "\<exists>s' g' B' F. ops_end (otr_ops fuel sz) t s = Some s' \<and> otr_lib k n m (if True then A else A - {t}) D g' B' s'
      \<and> same_nodes (set (concat B)) s s' \<and> (\<lambda>t. hy_batch (otr_taskData s' t)) = (\<lambda>t. hy_batch (otr_taskData s t))
      \<and> hy_drop sz (A - {t}) g B s g' B' F s'"
    if t: "t \<in> A" and okb: "\<forall>x \<in> set (concat B). even_node x \<and> x \<noteq> sz" and len: "length (concat B) < fuel"
  proof -
    have ok: "\<forall>x \<in> set (concat B). x \<noteq> sz" using okb by simp
    have tn: "t < n" using t I(7) by blast
    have lnk: "lfo_link t (s, []) = (lfo_head s t AND NOT 1, (s, []))" by (simp add: lfo_link_def load_alone)
    have ent: "Some (lfo_enter t (s, [])) = Some (True, 0, (lfo_put_head t 1 s, []))" for s :: hyotr
      by (simp add: lfo_enter_def store_alone)
    obtain s1 h g' B' F where r: "smr_trim fuel (lfo_link t) (lfo_leave_list fuel t 0 LF_DONTCHECK) (\<lambda>w. Some (lfo_enter t w))
        (hy_handle (otr_taskData s t)) (oel_free_node sz) 0 LF_DONTCHECK FLUSH_THRESHOLD (s, []) = Some (True, h, (s1, []))"
      "otr_s.lib k n m A g' B' (otr_set_handle t h s1)"
      "same_nodes (set (concat B)) s s1" "lfo_rest s1 = lfo_rest s" "hy_drop sz (A - {t}) g B s g' B' F s1"
      using otr_s.lib_trim [where lnk = "lfo_link t" and enter = "\<lambda>w. Some (lfo_enter t w)" and s = s, OF lib t ok ck len lnk ent] by blast
    let ?s' = "otr_set_handle t h s1"
    have td: "otr_taskData s1 = otr_taskData s" by (rule otr_rest [OF r(4)])
    have "ops_end (otr_ops fuel sz) t s = Some ?s'"
      using r(1) fit(4) [OF tn] by (simp add: otr_ops_def otr_end_op_def lfo_trim_def own_alone)
    moreover have "otr_first n A D ?s'" using fst td by (simp add: otr_first_def otr_set_handle_def)
    moreover have "same_nodes (set (concat B)) s ?s'" using r(3) by (simp add: same_nodes_def otr_set_handle_def)
    moreover have "hy_batch (otr_taskData ?s' u) = hy_batch (otr_taskData s u)" for u using td by (simp add: otr_set_handle_def)
    moreover have "hy_drop sz (A - {t}) g B s g' B' F ?s'" using r(5) by (simp add: hy_drop_def otr_set_handle_def)
    ultimately show ?thesis using r(2) by auto
  qed
  show "\<exists>s' g' B' F. ops_last (otr_ops fuel sz) t s = Some s' \<and> otr_lib k n m (A - {t}) (insert t D) g' B' s'
      \<and> same_nodes (set (concat B)) s s' \<and> (\<lambda>t. hy_batch (otr_taskData s' t)) = (\<lambda>t. hy_batch (otr_taskData s t))
      \<and> hy_drop sz (A - {t}) g B s g' B' F s'"
    if t: "True \<longleftrightarrow> t \<in> A" and okb: "\<forall>x \<in> set (concat B). even_node x \<and> x \<noteq> sz" and len: "length (concat B) < fuel"
  proof -
    have ok: "\<forall>x \<in> set (concat B). x \<noteq> sz" using okb by simp
    have tA: "t \<in> A" and tn: "t < n" using t I(7) by blast+
    obtain s' g' B' F where r: "smr_leave fuel (lfo_leave_list fuel t 0 LF_DONTCHECK (hy_handle (otr_taskData s t)))
        (oel_free_node sz) 0 (s, []) = Some (True, (s', []))" "otr_s.lib k n m (A - {t}) g' B' s'"
      "same_nodes (set (concat B)) s s'" "lfo_rest s' = lfo_rest s" "hy_drop sz (A - {t}) g B s g' B' F s'"
      using otr_s.lib_leave [OF lib tA ok ck len] by blast
    have "ops_last (otr_ops fuel sz) t s = Some s'"
      using r(1) fit(4) [OF tn] by (simp add: otr_ops_def otr_last_end_op_def lfo_leave_def)
    moreover have "otr_first n (A - {t}) (insert t D) s'" using fst otr_rest [OF r(4)] tA by (auto simp: otr_first_def)
    ultimately show ?thesis using r(2,3,5) otr_rest [OF r(4)] by auto
  qed
  show "\<exists>s'. lfo_retire_batch fuel (oel_free_node sz) 0 k (hd b) (s, []) = Some (True, (s', []))
      \<and> same_nodes (set b \<union> set (concat B)) s s' \<and> (\<lambda>t. hy_batch (otr_taskData s' t)) = (\<lambda>t. hy_batch (otr_taskData s t))
      \<and> (if A = {} then reclaimed s' = reclaimed s @ map (\<lambda>x. x - sz) b \<and> otr_lib k n m A D g B s'
         else reclaimed s' = reclaimed s
           \<and> (\<exists>g'. otr_lib k n m A D g' (b # B) s' \<and> (\<forall>u \<in> A. g' u b \<and> (\<forall>c \<in> set B. g u c \<longrightarrow> g' u c))))"
    if b: "batch_ok s b" "smr_refs s (last b) = 0" "distinct b" "set b \<inter> set (concat B) = {}"
      "\<forall>x \<in> set b. even_node x \<and> x \<noteq> sz" "length b = m" "length b < fuel"
  proof -
    have okb: "\<forall>x \<in> set b. x \<noteq> 0 \<and> x AND 1 = 0 \<and> x \<noteq> sz" using b(5) by (simp add: even_node_def)
    obtain s' where r: "oel.slot.retire_batch sz fuel 0 k (hd b) (s, []) = Some (True, (s', []))" "same_nodes (set b) s s'"
      "lfo_rest s' = lfo_rest s"
      "if \<exists>u \<in> A. True then reclaimed s' = reclaimed s
         \<and> (\<exists>g'. otr_s.lib k n m A g' (b # B) s' \<and> (\<forall>u \<in> A. (True \<longrightarrow> g' u b) \<and> (\<forall>c \<in> set B. g u c \<longrightarrow> g' u c)))
       else reclaimed s' = reclaimed s @ map (\<lambda>x. x - sz) b \<and> otr_s.lib k n m A g B s'"
      using otr_s.lib_retire [OF lib b(1-4) okb b(6,7)] by blast
    have "same_nodes (set b \<union> set (concat B)) s s'" by (rule same_nodes_mono [OF r(2)]) blast
    moreover have "otr_first n A D s'" using fst otr_rest [OF r(3)] by (simp add: otr_first_def)
    ultimately show ?thesis using r(1,4) otr_rest [OF r(3)] unfolding oel.lfo_retire_batch_eq [where e = 0]
      by (intro exI [of _ s'] conjI) (auto split: if_splits)
  qed
  show "ops_retire (otr_ops fuel sz) p t s = map_option (\<lambda>(ok, bt, w). otr_set_batch t bt (fst w))
        (smr_retire (lfo_retire_batch fuel (oel_free_node sz) 0) k (p + sz) 0 (hy_batch (otr_taskData s t)) (of_nat m) (s, []))"
    if "p \<noteq> nullptr"
    using that fit(1,2)
    by (simp add: otr_ops_def otr_retire_def lfo_retire_def option.map_comp) (auto intro!: option.map_cong)
next
  show "ops_alloc (otr_ops fuel sz) p t s = Some s" "ops_read (otr_ops fuel sz) a t s = Some s" for p a t s
    by (simp_all add: otr_ops_def otr_alloc_def base_read_def load_alone)
  show "otr_lib k n m {} D g B s \<Longrightarrow> B = []" for D g B s using otr_s.lib_idle by blast
  show "even_node x \<Longrightarrow> x \<noteq> 0" for x by (simp add: even_node_def)
  show "same_nodes {} s (otr_set_batch t bt s) \<and> reclaimed (otr_set_batch t bt s) = reclaimed s
      \<and> (\<lambda>t'. hy_batch (otr_taskData (otr_set_batch t bt s) t')) = (\<lambda>t'. hy_batch (otr_taskData s t'))(t := bt)"
    for s t bt by (auto simp: same_nodes_def otr_set_batch_fields)
  show "smr_kept s' = smr_kept s \<Longrightarrow> (\<lambda>t. hy_batch (otr_taskData s' t)) = (\<lambda>t. hy_batch (otr_taskData s t))" for s' s :: hyotr
    using otr_kept [of s' s] by simp
qed

lemma otr_new_lib:
  assumes n: "0 < n" "n < 2 ^ 31"
  shows "otr_t.hy.inv n sz (calc_next_log2 (of_nat n)) (if n < 64 then 64 else 2 ^ calc_next_log2 (of_nat n) + 1) hy_idle
     (\<lambda>u b. set [] \<inter> set b \<noteq> {}) [] (\<lambda>_. []) 0 (otr_new n collect cnt mem nx lk rf hd0 td)"
proof -
  let ?s = "otr_new n collect cnt mem nx lk rf hd0 td" let ?k = "calc_next_log2 (of_nat n)"
  let ?m = "if n < 64 then 64 else 2 ^ ?k + 1 :: nat"
  note k = slots_for_threads [OF n]
  have fld: "otr_SMR_ORDER ?s = ?k" "task_num ?s = n" "reclaimed ?s = []" "otr_SMR_BATCH ?s = of_nat ?m"
    "lfo_head ?s = (\<lambda>i. if i < 2 ^ ?k then 0 else hd0 i)"
    "otr_taskData ?s = (\<lambda>i. if i < n then (td i)\<lparr>hy_firstTime := True, hy_enter_num := i AND (2 ^ ?k - 1),
        hy_batch := smr_batch_init (hy_batch (td i))\<rparr> else td i)"
    by (simp_all add: otr_new_def lfo_init_def lfo_init_from_run base_new_def base.defs Let_def atLeast0LessThan cong: if_cong)
  have m: "n < ?m" "?m < 2 ^ 64" "(2 :: nat) ^ ?k < 2 ^ 64" using n k by auto
  have "otr_fits ?k n ?m ?s" using k(4) by (simp add: otr_fits_def fld)
  then have lib: "otr_s.lib ?k n ?m {} (\<lambda>u b. set [] \<inter> set b \<noteq> {}) [] ?s"
    using k(1) n(1) m by (intro otr_s.lib_start) (simp_all add: fld)
  have first: "otr_first n {} {} ?s" by (simp add: otr_first_def fld)
  show ?thesis
    by (rule otr_t.hy.init [OF conjI [OF lib first] fld(3)])
      (use m(1) in \<open>auto simp add: fld otr_t.Open_def open_ok_def smr_batch_init_def\<close>)
qed

section \<open>Safety and progress\<close>

text \<open>C3: No use after free with trimming.  \<open>start_op\<close> enters the slot the first time and does nothing after,
  every \<open>end_op\<close> trims, \<open>last_end_op\<close> leaves.  In any legal history, if thread \<open>u\<close> is inside an operation
  when an object is retired, the object is not reclaimed until \<open>u\<close> ends that operation with \<open>end_op\<close>,
  whatever the other threads trim, flush, leave or retire; and every operation of the history returns.\<close>

theorem otr_protects:
  assumes "0 < n" "n < 2 ^ 31"
    and "otr_lawful fuel sz (es @ HyRetire p v # es') (otr_new n collect cnt mem nx lk rf hd0 td)"
    and "length es + length es' + 1 < fuel"
    and "u \<in> hu_inside (hy_after True es)" "HyEnd u \<notin> set es'"
  shows "\<exists>s s' ps. otr_run fuel sz es (otr_new n collect cnt mem nx lk rf hd0 td) = Some s
     \<and> otr_run fuel sz (HyRetire p v # es') s = Some s'
     \<and> reclaimed s' = reclaimed s @ ps \<and> p \<notin> set ps"
  by (rule otr_t.hy.protects_seen [where limit = "length es + length es' + 2",
        OF otr_new_lib [OF assms(1,2)] assms(3) _ _ assms(5,6)])
    (use assms(4) in \<open>simp_all add: hy_idle_def\<close>)

text \<open>No double free and no leak with trimming.  An object is reclaimed at most as often as it has
  been retired; and when every thread that has started has left with \<open>last_end_op\<close>, at most one batch
  less one object per thread still waits.\<close>

theorem otr_reclaims:
  assumes "0 < n" "n < 2 ^ 31"
    and "otr_lawful fuel sz es (otr_new n collect cnt mem nx lk rf hd0 td)"
    and "length es < fuel"
  shows "\<exists>s. otr_run fuel sz es (otr_new n collect cnt mem nx lk rf hd0 td) = Some s
     \<and> mset (reclaimed s) \<subseteq># mset (hu_retired (hy_after True es))
     \<and> (hu_entered (hy_after True es) = {} \<longrightarrow> length (hu_retired (hy_after True es)) - length (reclaimed s)
          \<le> n * ((if n < 64 then 64 else 2 ^ calc_next_log2 (of_nat n) + 1) - 1))"
  by (rule otr_t.hy.reclaims [where limit = "length es + 1", OF otr_new_lib [OF assms(1,2)] assms(3,4)]) simp

text \<open>Two threads; thread 0 stays inside its operation while thread 1 works and leaves.\<close>

abbreviation otr_two :: hyotr where
  "otr_two \<equiv> otr_new 2 True False (\<lambda>_. 0) (\<lambda>_. 0) (\<lambda>_. 0) (\<lambda>_. 0) (\<lambda>_. 0)
     (\<lambda>t. \<lparr>hy_handle = 0, hy_batch = \<lparr>batch_first = 0, batch_last = 0, batch_counter = 0\<rparr>, hy_enter_num = 0, hy_firstTime = False\<rparr>)"

theorem otr_protects_witness:
  "\<exists>s s' ps. otr_run 16 8 [HyAlloc 16 1, HyAlloc 32 1, HyStart 0, HyEnd 0, HyStart 0] otr_two = Some s
     \<and> otr_run 16 8 (HyRetire 16 1 # [HyStart 1, HyRetire 32 1, HyEnd 1, HyStart 1, HyEnd 1, HyLast 1]) s = Some s'
     \<and> reclaimed s' = reclaimed s @ ps \<and> (16 :: ptr) \<notin> set ps"
proof (rule otr_protects [where u = 0])
  show "otr_lawful 16 8 ([HyAlloc 16 1, HyAlloc 32 1, HyStart 0, HyEnd 0, HyStart 0]
      @ HyRetire 16 1 # [HyStart 1, HyRetire 32 1, HyEnd 1, HyStart 1, HyEnd 1, HyLast 1]) otr_two"
    by code_simp
qed (simp_all add: hy_idle_def)

theorem otr_reclaims_witness:
  "\<exists>s. otr_run 16 8 [HyAlloc 16 1, HyStart 0, HyRetire 16 1, HyEnd 0, HyLast 0] otr_two = Some s
     \<and> mset (reclaimed s) \<subseteq># mset (hu_retired (hy_after True [HyAlloc 16 1, HyStart 0, HyRetire 16 1, HyEnd 0, HyLast 0]))
     \<and> (hu_entered (hy_after True [HyAlloc 16 1, HyStart 0, HyRetire 16 1, HyEnd 0, HyLast 0]) = {} \<longrightarrow>
          length (hu_retired (hy_after True [HyAlloc 16 1, HyStart 0, HyRetire 16 1, HyEnd 0, HyLast 0])) - length (reclaimed s)
            \<le> 2 * ((if (2 :: nat) < 64 then 64 else 2 ^ calc_next_log2 (of_nat 2) + 1) - 1))"
proof (rule otr_reclaims)
  show "otr_lawful 16 8 [HyAlloc 16 1, HyStart 0, HyRetire 16 1, HyEnd 0, HyLast 0] otr_two" by code_simp
qed simp_all

end
