(* ===== verification/Bsmr.thy ===== *)
theory Bsmr
  imports Smr Atomics
begin

text \<open>
  \<open>hyaline/bits/lfbsmr_common.h\<close>: the part of the robust Hyaline library (with birth epochs) that
  its two variants share, for a 64-bit \<open>type_t\<close> and \<open>lfepoch_t\<close>.  A node has the three words of
  \<open>lfsmr_common.h\<close>; its first word, \<open>next\<close>, is \<open>birth_epoch\<close> until the node is in a list.  The
  header word \<open>global\<close> and the \<open>access\<close> epochs of the slots are in both variants.
\<close>

record bsmr = smr +
  bs_global :: u64
  bs_access :: "nat \<Rightarrow> u64"

record bsmr_batch = smr_batch +
  batch_min_epoch :: u64

text \<open>\<open>__LFBSMR_EPOCH_CMP\<close> with \<open>>=\<close> and with \<open>>\<close>.\<close>

definition EPOCH_GE :: "u64 \<Rightarrow> u64 \<Rightarrow> bool" where
  "EPOCH_GE x y \<longleftrightarrow> 0 \<le> sint (x - y)"

definition EPOCH_GT :: "u64 \<Rightarrow> u64 \<Rightarrow> bool" where
  "EPOCH_GT x y \<longleftrightarrow> 0 < sint (x - y)"

definition bs_set_global :: "u64 \<Rightarrow> 'a bsmr_scheme \<Rightarrow> 'a bsmr_scheme" where
  "bs_set_global v s = s\<lparr>bs_global := v\<rparr>"

definition bs_set_access :: "nat \<Rightarrow> u64 \<Rightarrow> 'a bsmr_scheme \<Rightarrow> 'a bsmr_scheme" where
  "bs_set_access i v s = s\<lparr>bs_access := (bs_access s)(i := v)\<rparr>"

definition bsmr_birth_epoch :: "'a smr_scheme \<Rightarrow> ptr \<Rightarrow> u64" where
  "bsmr_birth_epoch s node = smr_next s node"

definition bsmr_addr :: "u64 \<Rightarrow> ptr \<Rightarrow> ptr" where
  "bsmr_addr base offset = base + offset"

definition bsmr_adjust_refs :: "u64 \<Rightarrow> u64 \<Rightarrow> u64 \<Rightarrow> ptr \<Rightarrow> 'a smr_scheme world \<Rightarrow> u64 \<times> 'a smr_scheme world" where
  "bsmr_adjust_refs list prev refs base w =
     (let node = bsmr_addr base prev;
          prev = smr_link (fst w) node;
          node = bsmr_addr base prev;
          (old, w) = smr_fetch_add node refs w
      in if old = - refs then (prev, own (smr_set_next node list) w) else (list, w))"

text \<open>\<open>__traverse\<close>: \<open>lv\<close> is the call of \<open>__leave\<close>, \<open>ack\<close> the one of \<open>__ack\<close> with the number of
  rounds.\<close>

fun bsmr_traverse :: "nat \<Rightarrow> (u64 \<Rightarrow> 'a smr_scheme world \<Rightarrow> (bool \<times> u64 \<times> 'a smr_scheme world) option)
    \<Rightarrow> (u64 \<Rightarrow> 'a smr_scheme world \<Rightarrow> 'a smr_scheme world)
    \<Rightarrow> ptr \<Rightarrow> (ptr \<Rightarrow> bool) \<Rightarrow> u64 \<Rightarrow> u64 \<Rightarrow> u64 \<Rightarrow> u64 \<Rightarrow> u64 \<Rightarrow> u64 \<Rightarrow> 'a smr_scheme world
    \<Rightarrow> (bool \<times> u64 \<times> u64 \<times> 'a smr_scheme world) option" where
  "bsmr_traverse 0 lv ack base check len counter list threshold next end w = None"
| "bsmr_traverse (Suc fuel) lv ack base check len counter list threshold next end w =
     (let counter = counter + 1; cur = next in
      if cur = 0 then Some (True, list, threshold, ack counter w)
      else let node = bsmr_addr base cur in
      if \<not> check node then Some (False, list, threshold, w)
      else let next = smr_next (fst w) node;
               link = smr_link (fst w) node;
               node = bsmr_addr base link in
      if \<not> check node then Some (False, list, threshold, w)
      else let (old, w) = smr_fetch_add node (- 1) w in
      if old = 1
      then let w = own (smr_set_next node list) w; list = link in
           if threshold \<noteq> 0
           then let len = len + 1 in
                if threshold \<le> len
                then (case lv list w of None \<Rightarrow> None
                      | Some (ok, list, w) \<Rightarrow>
                          if \<not> ok then Some (False, list, threshold, w)
                          else if cur \<noteq> end then bsmr_traverse fuel lv ack base check len counter list 0 next end w
                          else Some (True, list, 0, ack counter w))
                else if cur \<noteq> end then bsmr_traverse fuel lv ack base check len counter list threshold next end w
                else Some (True, list, threshold, ack counter w)
           else if cur \<noteq> end then bsmr_traverse fuel lv ack base check len counter list threshold next end w
           else Some (True, list, threshold, ack counter w)
      else if cur \<noteq> end then bsmr_traverse fuel lv ack base check len counter list threshold next end w
      else Some (True, list, threshold, ack counter w))"

text \<open>\<open>__free\<close>: the inner loop frees the nodes of a batch, the outer one walks the batches.\<close>

fun bsmr_free_batch :: "nat \<Rightarrow> u64 \<Rightarrow> (ptr \<Rightarrow> 'a smr_scheme \<Rightarrow> 'a smr_scheme) \<Rightarrow> ptr \<Rightarrow> 'a smr_scheme world
    \<Rightarrow> 'a smr_scheme world option" where
  "bsmr_free_batch 0 start fr base w = None"
| "bsmr_free_batch (Suc fuel) start fr base w =
     (let node = bsmr_addr base start;
          start = smr_refs (fst w) node;
          w = own (fr node) w
      in if start \<noteq> 0 then bsmr_free_batch fuel start fr base w else Some w)"

fun bsmr_free_list :: "nat \<Rightarrow> u64 \<Rightarrow> (ptr \<Rightarrow> 'a smr_scheme \<Rightarrow> 'a smr_scheme) \<Rightarrow> ptr \<Rightarrow> 'a smr_scheme world
    \<Rightarrow> 'a smr_scheme world option" where
  "bsmr_free_list 0 list fr base w = None"
| "bsmr_free_list (Suc fuel) list fr base w =
     (if list = 0 then Some w
      else let node = bsmr_addr base list;
               start = smr_link (fst w) node;
               list = smr_next (fst w) node
           in case bsmr_free_batch fuel start fr base w of None \<Rightarrow> None
              | Some w \<Rightarrow> bsmr_free_list fuel list fr base w)"

definition bsmr_leave :: "nat \<Rightarrow> (u64 \<Rightarrow> 'a smr_scheme world \<Rightarrow> (bool \<times> u64 \<times> 'a smr_scheme world) option)
    \<Rightarrow> (ptr \<Rightarrow> 'a smr_scheme \<Rightarrow> 'a smr_scheme) \<Rightarrow> ptr \<Rightarrow> 'a smr_scheme world
    \<Rightarrow> (bool \<times> 'a smr_scheme world) option" where
  "bsmr_leave fuel lv fr base w =
     (case lv 0 w of None \<Rightarrow> None
      | Some (ok, list, w) \<Rightarrow>
          if \<not> ok then Some (False, w)
          else map_option (\<lambda>w. (True, w)) (bsmr_free_list fuel list fr base w))"

text \<open>\<open>trim\<close>: the slot and the handle are in and out; \<open>lnk\<close>, \<open>lv\<close> and \<open>ack\<close> are those of the slot
  \<open>vec\<close>, \<open>enter\<close> starts from it.\<close>

definition bsmr_trim :: "nat \<Rightarrow> ('a smr_scheme world \<Rightarrow> u64 \<times> 'a smr_scheme world)
    \<Rightarrow> (u64 \<Rightarrow> u64 \<Rightarrow> 'a smr_scheme world \<Rightarrow> (bool \<times> u64 \<times> 'a smr_scheme world) option)
    \<Rightarrow> (u64 \<Rightarrow> 'a smr_scheme world \<Rightarrow> 'a smr_scheme world)
    \<Rightarrow> (nat \<Rightarrow> 'a smr_scheme world \<Rightarrow> (bool \<times> nat \<times> u64 \<times> 'a smr_scheme world) option)
    \<Rightarrow> nat \<Rightarrow> u64 \<Rightarrow> (ptr \<Rightarrow> 'a smr_scheme \<Rightarrow> 'a smr_scheme) \<Rightarrow> ptr \<Rightarrow> (ptr \<Rightarrow> bool) \<Rightarrow> u64 \<Rightarrow> 'a smr_scheme world
    \<Rightarrow> (bool \<times> nat \<times> u64 \<times> 'a smr_scheme world) option" where
  "bsmr_trim fuel lnk lv ack enter vec smr fr base check threshold w =
     (let end = smr;
          (link, w) = lnk w
      in if link \<noteq> end
         then let smr = link; node = bsmr_addr base link in
              if \<not> check node then Some (False, vec, smr, w)
              else let link = smr_next (fst w) node in
                   case bsmr_traverse fuel (lv smr) ack base check 0 0 0 threshold link end w of None \<Rightarrow> None
                   | Some (ok, list, new_threshold, w) \<Rightarrow>
                       if \<not> ok then Some (False, vec, smr, w)
                       else case bsmr_free_list fuel list fr base w of None \<Rightarrow> None
                            | Some w \<Rightarrow> if threshold \<noteq> new_threshold then enter vec w
                                       else Some (True, vec, smr, w)
         else Some (True, vec, smr, w))"

definition bsmr_batch_init :: "bsmr_batch \<Rightarrow> bsmr_batch" where
  "bsmr_batch_init batch = batch\<lparr>batch_first := 0, batch_counter := 0\<rparr>"

definition bsmr_batch_empty :: "bsmr_batch \<Rightarrow> bool" where
  "bsmr_batch_empty batch \<longleftrightarrow> batch_counter batch = 0"

text \<open>\<open>retire_one\<close> and \<open>retire\<close>: \<open>rt\<close> is \<open>__retire\<close> with its order, first node and epoch.  The
  parameter \<open>epoch\<close> of \<open>retire_one\<close> is not used.\<close>

definition bsmr_retire_one :: "(nat \<Rightarrow> u64 \<Rightarrow> u64 \<Rightarrow> 'a smr_scheme world \<Rightarrow> (bool \<times> 'a smr_scheme world) option)
    \<Rightarrow> ptr \<Rightarrow> ptr \<Rightarrow> u64 \<Rightarrow> 'a smr_scheme world \<Rightarrow> (bool \<times> 'a smr_scheme world) option" where
  "bsmr_retire_one rt node base epoch w = rt 0 (node - base) (bsmr_birth_epoch (fst w) node) w"

definition bsmr_retire :: "(nat \<Rightarrow> u64 \<Rightarrow> u64 \<Rightarrow> 'a smr_scheme world \<Rightarrow> (bool \<times> 'a smr_scheme world) option)
    \<Rightarrow> nat \<Rightarrow> ptr \<Rightarrow> ptr \<Rightarrow> bsmr_batch \<Rightarrow> u64 \<Rightarrow> 'a smr_scheme world
    \<Rightarrow> (bool \<times> bsmr_batch \<times> 'a smr_scheme world) option" where
  "bsmr_retire rt order node base batch threshold w =
     (let cur = node - base;
          birth = bsmr_birth_epoch (fst w) node;
          (batch, w) = (if batch_first batch = 0 then (batch\<lparr>batch_min_epoch := birth, batch_last := cur\<rparr>, w)
                        else (if EPOCH_GT (batch_min_epoch batch) birth then batch\<lparr>batch_min_epoch := birth\<rparr> else batch,
                              own (smr_set_link node (batch_last batch)) w));
          w = own (smr_set_refs node (batch_first batch)) w;
          batch = batch\<lparr>batch_first := cur\<rparr>;
          batch = batch\<lparr>batch_counter := batch_counter batch + 1\<rparr>
      in if threshold \<le> batch_counter batch
         then let node = bsmr_addr base (batch_last batch);
                  w = own (smr_set_link node (batch_first batch)) w
              in case rt order (batch_first batch) (batch_min_epoch batch) w of None \<Rightarrow> None
                 | Some (ok, w) \<Rightarrow> if \<not> ok then Some (False, batch, w)
                                  else Some (True, bsmr_batch_init batch, w)
         else Some (True, batch, w))"

text \<open>\<open>init_node\<close>, for \<open>freq > 0\<close>: the new counter is part of the result.\<close>

definition bsmr_init_node :: "ptr \<Rightarrow> u64 \<Rightarrow> u64 \<Rightarrow> 'a bsmr_scheme world \<Rightarrow> u64 \<times> 'a bsmr_scheme world" where
  "bsmr_init_node node counter freq w =
     (let counter = counter + 1;
          (birth, w) = (if counter mod freq \<noteq> 0 then load bs_global w
                        else let (old, w) = fetch_add bs_global bs_set_global 1 w in (old + 1, w))
      in (counter, own (smr_set_next node birth) w))"

section \<open>The parts that do not look at epochs are those of \<open>lfsmr_common.h\<close>\<close>

lemma bsmr_adjust_refs_eq: "bsmr_adjust_refs = smr_adjust_refs"
  by (intro ext) (simp add: bsmr_adjust_refs_def smr_adjust_refs_def bsmr_addr_def smr_addr_def)

lemma bsmr_free_batch_eq: "bsmr_free_batch fuel start fr base w = smr_free_batch fuel start fr base w"
  by (induction fuel start fr base w rule: bsmr_free_batch.induct) (simp_all add: bsmr_addr_def smr_addr_def Let_def)

lemma bsmr_free_list_eq: "bsmr_free_list fuel list fr base w = smr_free_list fuel list fr base w"
  by (induction fuel list fr base w rule: bsmr_free_list.induct)
    (simp_all add: bsmr_addr_def smr_addr_def bsmr_free_batch_eq Let_def split: option.split)

text \<open>The traversal of \<open>lfbsmr_common.h\<close> is the one of \<open>lfsmr_common.h\<close> followed by the
  acknowledgement.  The number of rounds depends only on the links.\<close>

lemma bsmr_traverse_eq:
  "\<exists>k. bsmr_traverse fuel lv ack base check len c list threshold next end w =
     map_option (\<lambda>(ok, list, threshold, w). (ok, list, threshold, if ok then ack (c + k) w else w))
       (smr_traverse fuel lv base check len list threshold next end w)"
proof (induction fuel arbitrary: len c list threshold "next" w)
  case (Suc fuel)
  have step: "\<exists>k. bsmr_traverse fuel lv ack base check l (c + 1) li th nx end v =
     map_option (\<lambda>(ok, list, threshold, w). (ok, list, threshold, if ok then ack (c + k) w else w))
       (smr_traverse fuel lv base check l li th nx end v)" for l li th nx v
  proof -
    from Suc [of l "c + 1" li th nx v] obtain k where
      "bsmr_traverse fuel lv ack base check l (c + 1) li th nx end v =
        map_option (\<lambda>(ok, list, threshold, w). (ok, list, threshold, if ok then ack (c + 1 + k) w else w))
          (smr_traverse fuel lv base check l li th nx end v)" by blast
    then show ?thesis by (intro exI [of _ "1 + k"]) (simp add: add.assoc cong: if_cong)
  qed
  have last: "\<exists>k. Some (True, l, t, ack (c + 1) v) =
     map_option (\<lambda>(ok, list, threshold, w). (ok, list, threshold, if ok then ack (c + k) w else w)) (Some (True, l, t, v))"
    for l t v by (intro exI [of _ 1]) simp
  show ?case
    using step last
    by (simp add: Let_def bsmr_addr_def smr_addr_def split: prod.split option.split cong: if_cong)
qed simp

end
