(* ===== verification/Lfbsmro.thy ===== *)
theory Lfbsmro
  imports Bsmr
begin

text \<open>
  \<open>hyaline/bits/lfbsmr_cas1.h\<close> (the library of \<open>lfbsmro.h\<close>): one slot per thread as in
  \<open>lfsmr_cas1.h\<close>; a batch goes only to the slots whose access epoch has reached the smallest birth
  epoch of the batch.
\<close>

record lfbsmro = bsmr +
  lbo_head :: "nat \<Rightarrow> u64"

definition lbo_put_head :: "nat \<Rightarrow> u64 \<Rightarrow> 'a lfbsmro_scheme \<Rightarrow> 'a lfbsmro_scheme" where
  "lbo_put_head i v s = s\<lparr>lbo_head := (lbo_head s)(i := v)\<rparr>"

fun lbo_init_from :: "nat list \<Rightarrow> 'a lfbsmro_scheme \<Rightarrow> 'a lfbsmro_scheme" where
  "lbo_init_from [] s = s"
| "lbo_init_from (i # js) s = lbo_init_from js (bs_set_access i 0 (lbo_put_head i 0 s))"

definition lbo_init :: "nat \<Rightarrow> 'a lfbsmro_scheme \<Rightarrow> 'a lfbsmro_scheme" where
  "lbo_init order s = bs_set_global 0 (lbo_init_from [0..<2 ^ order] s)"

definition lbo_link :: "nat \<Rightarrow> 'a lfbsmro_scheme world \<Rightarrow> u64 \<times> 'a lfbsmro_scheme world" where
  "lbo_link vec w = (let (h, w) = load (\<lambda>s. lbo_head s vec) w in (h AND NOT 0x1, w))"

definition lbo_access :: "nat \<Rightarrow> u64 \<Rightarrow> u64 \<Rightarrow> 'a lfbsmro_scheme world \<Rightarrow> u64 \<times> 'a lfbsmro_scheme world" where
  "lbo_access vec access epoch w = (epoch, store (bs_set_access vec epoch) w)"

definition lbo_enter :: "nat \<Rightarrow> 'a lfbsmro_scheme world \<Rightarrow> bool \<times> nat \<times> u64 \<times> 'a lfbsmro_scheme world" where
  "lbo_enter vec w = (let smr = 0; w = store (lbo_put_head vec 0x1) w in (True, vec, smr, w))"

definition lbo_ack :: "nat \<Rightarrow> u64 \<Rightarrow> 'a lfbsmro_scheme world \<Rightarrow> 'a lfbsmro_scheme world" where
  "lbo_ack vec counter w = w"

definition lbo_leave_list :: "nat \<Rightarrow> nat \<Rightarrow> ptr \<Rightarrow> (ptr \<Rightarrow> bool) \<Rightarrow> u64 \<Rightarrow> u64 \<Rightarrow> 'a lfbsmro_scheme world
    \<Rightarrow> (bool \<times> u64 \<times> 'a lfbsmro_scheme world) option" where
  "lbo_leave_list fuel vec base check smr list w =
     (let (old, w) = rmw (\<lambda>s. (lbo_head s vec, lbo_put_head vec 0 s)) w;
          cur = old AND NOT 0x1
      in if cur \<noteq> 0
         then map_option (\<lambda>(ok, list, threshold, w). (ok, list, w))
                (bsmr_traverse fuel (\<lambda>_ _. None) (lbo_ack vec) base check 0 0 list 0 cur smr w)
         else Some (True, list, w))"

text \<open>\<open>deref\<close>: \<open>rd\<close> reads the location \<open>ptr\<close> points to.\<close>

fun lbo_deref_loop :: "nat \<Rightarrow> nat \<Rightarrow> ('a lfbsmro_scheme \<Rightarrow> u64) \<Rightarrow> u64 \<Rightarrow> 'a lfbsmro_scheme world
    \<Rightarrow> (u64 \<times> 'a lfbsmro_scheme world) option" where
  "lbo_deref_loop 0 vec rd access w = None"
| "lbo_deref_loop (Suc fuel) vec rd access w =
     (let (val, w) = load rd w;
          (global, w) = load bs_global w
      in if access = global then Some (val, w)
         else let (access, w) = lbo_access vec access global w in lbo_deref_loop fuel vec rd access w)"

definition lbo_deref :: "nat \<Rightarrow> nat \<Rightarrow> ('a lfbsmro_scheme \<Rightarrow> u64) \<Rightarrow> 'a lfbsmro_scheme world
    \<Rightarrow> (u64 \<times> 'a lfbsmro_scheme world) option" where
  "lbo_deref fuel vec rd w =
     (let (access, w) = load (\<lambda>s. bs_access s vec) w in lbo_deref_loop fuel vec rd access w)"

fun lbo_push :: "nat \<Rightarrow> ptr \<Rightarrow> nat \<Rightarrow> u64 \<Rightarrow> u64 \<Rightarrow> 'a lfbsmro_scheme world \<Rightarrow> (bool \<times> 'a lfbsmro_scheme world) option" where
  "lbo_push 0 base i cur lst w = None"
| "lbo_push (Suc fuel) base i cur lst w =
     (if lst AND 0x1 = 0 then Some (False, w)
      else let w = own (smr_set_next (bsmr_addr base cur) (lst AND NOT 0x1)) w;
               head = cur OR 0x1;
               (ok, lst, w) = cas (\<lambda>s. lbo_head s i) (lbo_put_head i) lst head w
           in if ok then Some (True, w) else lbo_push fuel base i cur lst w)"

fun lbo_slots :: "nat \<Rightarrow> ptr \<Rightarrow> u64 \<Rightarrow> nat list \<Rightarrow> u64 \<Rightarrow> u64 \<Rightarrow> 'a lfbsmro_scheme world
    \<Rightarrow> (u64 \<times> 'a lfbsmro_scheme world) option" where
  "lbo_slots fuel base epoch [] cur adjs w = Some (adjs, w)"
| "lbo_slots fuel base epoch (i # js) cur adjs w =
     (let node = bsmr_addr base cur;
          (access, w) = load (\<lambda>s. bs_access s i) w
      in if EPOCH_GE access epoch
         then let (lst, w) = load (\<lambda>s. lbo_head s i) w
              in case lbo_push fuel base i cur lst w of None \<Rightarrow> None
                 | Some (pushed, w) \<Rightarrow>
                     if pushed then lbo_slots fuel base epoch js (smr_refs (fst w) node) (adjs + 1) w
                     else lbo_slots fuel base epoch js cur adjs w
         else lbo_slots fuel base epoch js cur adjs w)"

definition lbo_retire_batch :: "nat \<Rightarrow> (ptr \<Rightarrow> 'a lfbsmro_scheme \<Rightarrow> 'a lfbsmro_scheme) \<Rightarrow> ptr \<Rightarrow> nat \<Rightarrow> u64 \<Rightarrow> u64
    \<Rightarrow> 'a lfbsmro_scheme world \<Rightarrow> (bool \<times> 'a lfbsmro_scheme world) option" where
  "lbo_retire_batch fuel fr base order first epoch w =
     (case lbo_slots fuel base epoch [0..<2 ^ order] first 0 w of None \<Rightarrow> None
      | Some (adjs, w) \<Rightarrow>
          let (list, w) = bsmr_adjust_refs 0 first adjs base w
          in map_option (\<lambda>w. (True, w)) (bsmr_free_list fuel list fr base w))"

text \<open>The operations of \<open>lfbsmr_common.h\<close> for this variant.\<close>

definition lbo_leave :: "nat \<Rightarrow> nat \<Rightarrow> u64 \<Rightarrow> (ptr \<Rightarrow> 'a lfbsmro_scheme \<Rightarrow> 'a lfbsmro_scheme) \<Rightarrow> ptr \<Rightarrow> (ptr \<Rightarrow> bool)
    \<Rightarrow> 'a lfbsmro_scheme world \<Rightarrow> (bool \<times> 'a lfbsmro_scheme world) option" where
  "lbo_leave fuel vec smr fr base check w = bsmr_leave fuel (lbo_leave_list fuel vec base check smr) fr base w"

definition lbo_trim :: "nat \<Rightarrow> nat \<Rightarrow> u64 \<Rightarrow> (ptr \<Rightarrow> 'a lfbsmro_scheme \<Rightarrow> 'a lfbsmro_scheme) \<Rightarrow> ptr \<Rightarrow> (ptr \<Rightarrow> bool)
    \<Rightarrow> u64 \<Rightarrow> 'a lfbsmro_scheme world \<Rightarrow> (bool \<times> nat \<times> u64 \<times> 'a lfbsmro_scheme world) option" where
  "lbo_trim fuel vec smr fr base check threshold w =
     bsmr_trim fuel (lbo_link vec) (lbo_leave_list fuel vec base check) (lbo_ack vec)
       (\<lambda>vec w. Some (lbo_enter vec w)) vec smr fr base check threshold w"

definition lbo_retire_one :: "nat \<Rightarrow> ptr \<Rightarrow> (ptr \<Rightarrow> 'a lfbsmro_scheme \<Rightarrow> 'a lfbsmro_scheme) \<Rightarrow> ptr \<Rightarrow> u64
    \<Rightarrow> 'a lfbsmro_scheme world \<Rightarrow> (bool \<times> 'a lfbsmro_scheme world) option" where
  "lbo_retire_one fuel node fr base epoch w = bsmr_retire_one (lbo_retire_batch fuel fr base) node base epoch w"

definition lbo_retire :: "nat \<Rightarrow> nat \<Rightarrow> ptr \<Rightarrow> (ptr \<Rightarrow> 'a lfbsmro_scheme \<Rightarrow> 'a lfbsmro_scheme) \<Rightarrow> ptr \<Rightarrow> bsmr_batch
    \<Rightarrow> u64 \<Rightarrow> 'a lfbsmro_scheme world \<Rightarrow> (bool \<times> bsmr_batch \<times> 'a lfbsmro_scheme world) option" where
  "lbo_retire fuel order node fr base batch threshold w =
     bsmr_retire (lbo_retire_batch fuel fr base) order node base batch threshold w"

end
