(* ===== verification/Lfbsmro_Inv.thy ===== *)
theory Lfbsmro_Inv
  imports Lfbsmro Smr_Inv One_Slot
begin

text \<open>
  The robust single-width library keeps the contract \<open>one_slot\<close>: it offers a batch to the slots whose
  access epoch has reached the smallest birth epoch of the batch.  Below \<open>2 ^ 63\<close> the comparison of
  epochs is the one of natural numbers.
\<close>

section \<open>Epochs\<close>

lemma sint_minus:
  assumes "unat (x :: u64) < 2 ^ 63" "unat (y :: u64) < 2 ^ 63"
  shows "sint (x - y) = int (unat x) - int (unat y)"
proof -
  have "int (unat x) < int (2 ^ 63)" "int (unat y) < int (2 ^ 63)" using assms by (simp_all only: of_nat_less_iff)
  then have "int (unat x) < 2 ^ 63" "int (unat y) < 2 ^ 63" by (simp_all only: of_nat_power of_nat_numeral)
  then have b: "- (2 ^ 63) \<le> int (unat x) - int (unat y)" "int (unat x) - int (unat y) < 2 ^ 63" by linarith+
  have "x - y = word_of_int (int (unat x) - int (unat y))" by simp
  then have "sint (x - y) = signed_take_bit 63 (int (unat x) - int (unat y))"
    by (simp only: signed_of_int) simp
  also have "\<dots> = int (unat x) - int (unat y)"
    by (rule signed_take_bit_int_eq_self [OF b])
  finally show ?thesis .
qed

lemma EPOCH_le:
  assumes "unat x < 2 ^ 63" "unat y < 2 ^ 63"
  shows "EPOCH_GE x y \<longleftrightarrow> y \<le> x" "EPOCH_GT x y \<longleftrightarrow> y < x"
  unfolding EPOCH_GE_def EPOCH_GT_def sint_minus [OF assms] word_le_nat_alt word_less_nat_alt by linarith+

section \<open>The contract\<close>

definition lbo_rest :: "'a lfbsmro_scheme \<Rightarrow> nat \<times> bool \<times> (ptr \<Rightarrow> ptr) \<times> u64 \<times> (nat \<Rightarrow> u64) \<times> 'a" where
  "lbo_rest s = (task_num s, count_retired s, cells s, bs_global s, bs_access s, lfbsmro.more s)"

locale lbo_callback = smr_callback fr obj V smr_kept
  for fr :: "ptr \<Rightarrow> 'a lfbsmro_scheme \<Rightarrow> 'a lfbsmro_scheme" and obj :: "ptr \<Rightarrow> ptr"
    and V :: "ptr \<Rightarrow> bool"

lemma lbo_kept: "smr_kept s' = smr_kept s \<Longrightarrow> lbo_head s' = lbo_head s \<and> lbo_rest s' = lbo_rest (s :: 'a lfbsmro_scheme)"
  by (cases s, cases s') (simp add: lbo_rest_def)

text \<open>This variant acknowledges nothing, so it traverses as \<open>lfsmr_common.h\<close> does.\<close>

lemma lbo_traverse_eq:
  "bsmr_traverse fuel lv (lbo_ack vec) base check len c list th next end w
    = smr_traverse fuel lv base check len list th next end w"
proof -
  obtain k where "bsmr_traverse fuel lv (lbo_ack vec) base check len c list th next end w =
     map_option (\<lambda>(ok, list, threshold, w). (ok, list, threshold, if ok then lbo_ack vec (c + k) w else w))
       (smr_traverse fuel lv base check len list th next end w)"
    using bsmr_traverse_eq by blast
  then show ?thesis
    by (cases "smr_traverse fuel lv base check len list th next end w") (auto simp: lbo_ack_def)
qed

lemma bsmr_leave_eq: "bsmr_leave fuel lv fr base w = smr_leave fuel lv fr base w"
  by (simp add: bsmr_leave_def smr_leave_def bsmr_free_list_eq split: option.split)

lemma lbo_trim_eq:
  "bsmr_trim fuel lnk lv (lbo_ack vec) (\<lambda>vec w. Some (lbo_enter vec w)) vec smr fr base check th w
    = map_option (\<lambda>(ok, h, w). (ok, vec, h, w))
        (smr_trim fuel lnk lv (\<lambda>w. let (ok, v, h, w) = lbo_enter vec w in Some (ok, h, w)) smr fr base check th w)"
  by (simp add: bsmr_trim_def smr_trim_def lbo_traverse_eq bsmr_free_list_eq bsmr_addr_def smr_addr_def
      lbo_enter_def Let_def split: prod.split option.split)

sublocale lbo_callback \<subseteq> slot: one_slot fr obj V lbo_head lbo_put_head lbo_rest "\<lambda>s j e. EPOCH_GE (bs_access s j) e"
  "\<lambda>fuel i check. lbo_leave_list fuel i 0 check" "\<lambda>fuel. lbo_slots fuel 0"
proof unfold_locales
  show "smr_kept s' = smr_kept s \<Longrightarrow> lbo_head s' = lbo_head s \<and> lbo_rest s' = lbo_rest s" for s s' :: "'a lfbsmro_scheme"
    by (rule lbo_kept)
qed (simp_all add: lbo_put_head_def lbo_rest_def lbo_leave_list_def lbo_traverse_eq rmw_alone load_alone cas_alone own_alone
    bsmr_addr_def smr_set_next_def Let_def)

context lbo_callback begin

lemma lbo_retire_batch_eq: "lbo_retire_batch fuel fr 0 order first e = slot.retire_batch fuel e order first"
  by (intro ext) (simp add: lbo_retire_batch_def slot.retire_batch_def bsmr_adjust_refs_eq bsmr_free_list_eq
      split: option.split prod.split)

end

section \<open>\<open>retire\<close>\<close>

text \<open>The smallest birth epoch of the open batch after a node born in \<open>birth\<close> joins it.\<close>

definition bsmr_min :: "bsmr_batch \<Rightarrow> u64 \<Rightarrow> u64" where
  "bsmr_min bt birth = (if batch_first bt = 0 \<or> EPOCH_GT (batch_min_epoch bt) birth then birth else batch_min_epoch bt)"

text \<open>Apart from that \<open>retire\<close> is the one of \<open>lfsmr_common.h\<close>.\<close>

lemma bsmr_retire_eq:
  "bsmr_retire rt order node base bt th (s, []) =
     (let e = bsmr_min bt (smr_next s node)
      in map_option (\<lambda>(ok, b, w). (ok, smr_batch.extend b \<lparr>batch_min_epoch = e\<rparr>, w))
           (smr_retire (\<lambda>order first. rt order first e) order node base (smr_batch.truncate bt) th (s, [])))"
  by (cases bt) (simp add: bsmr_retire_def smr_retire_def bsmr_min_def bsmr_birth_epoch_def bsmr_batch_init_def
      smr_batch_init_def smr_batch.defs own_alone bsmr_addr_def smr_addr_def Let_def split: option.split)

end
