(* ===== verification/Hyaline_OS.thy ===== *)
theory Hyaline_OS
  imports Lfbsmro_Inv Hyaline_O
begin

text \<open>
  The trackers built on \<open>lfbsmro.h\<close>, one slot per thread: \<open>HyalineOSTrackerEL.hpp\<close> (an operation
  enters and leaves) and \<open>HyalineOSTrackerTR.hpp\<close> (a thread enters once and trims at the end of each
  operation).  \<open>alloc\<close> stores the epoch in the node of the object, \<open>read\<close> publishes the epoch in the
  slot of the thread; it is the overload without node, which \<open>MemoryTracker\<close> does not call.  Their
  \<open>free_node\<close> is that of \<open>HyalineOTrackerEL.hpp\<close>, \<open>oel_free_node\<close>.
\<close>

record hos_task =
  hos_handle :: u64
  hos_batch :: bsmr_batch
  hos_enter_num :: nat
  hos_counter :: u64

section \<open>\<open>HyalineOSELTracker\<close>\<close>

record hyosel = lfbsmro +
  osel_collect :: bool
  osel_SMR_EFREQ :: u64
  osel_SMR_ORDER :: nat
  osel_SMR_BATCH :: u64
  osel_taskData :: "nat \<Rightarrow> hos_task"

definition osel_new :: "nat \<Rightarrow> int \<Rightarrow> int \<Rightarrow> bool \<Rightarrow> bool \<Rightarrow> (ptr \<Rightarrow> ptr) \<Rightarrow> (ptr \<Rightarrow> u64) \<Rightarrow> (ptr \<Rightarrow> u64) \<Rightarrow> (ptr \<Rightarrow> u64)
    \<Rightarrow> u64 \<Rightarrow> (nat \<Rightarrow> u64) \<Rightarrow> (nat \<Rightarrow> u64) \<Rightarrow> (nat \<Rightarrow> hos_task) \<Rightarrow> hyosel" where
  "osel_new n epochFreq emptyFreq collect cnt mem nx lk rf gl0 ac0 hd0 td =
     (let SMR_EFREQ = epochFreq * int n;
          SMR_ORDER = calc_next_log2 (of_nat n);
          SMR_NUM = 2 ^ SMR_ORDER;
          SMR_BATCH = (if int n < emptyFreq then emptyFreq else int n + 1)
      in lbo_init SMR_ORDER
           (base.extend (base_new n cnt mem)
              \<lparr>smr_next = nx, smr_link = lk, smr_refs = rf, bs_global = gl0, bs_access = ac0, lbo_head = hd0,
               osel_collect = collect, osel_SMR_EFREQ = of_int SMR_EFREQ, osel_SMR_ORDER = SMR_ORDER,
               osel_SMR_BATCH = of_int SMR_BATCH,
               osel_taskData = (\<lambda>i. if i < n
                  then (td i)\<lparr>hos_counter := 0, hos_enter_num := i AND (SMR_NUM - 1),
                              hos_batch := bsmr_batch_init (hos_batch (td i))\<rparr>
                  else td i)\<rparr>))"

definition osel_set_task :: "nat \<Rightarrow> (hos_task \<Rightarrow> hos_task) \<Rightarrow> hyosel \<Rightarrow> hyosel" where
  "osel_set_task tid f s = s\<lparr>osel_taskData := (osel_taskData s)(tid := f (osel_taskData s tid))\<rparr>"

definition osel_alloc :: "u64 \<Rightarrow> nat \<Rightarrow> ptr \<Rightarrow> hyosel world \<Rightarrow> ptr \<times> hyosel world" where
  "osel_alloc sz tid blk w =
     (let node = blk;
          (counter, w) = bsmr_init_node (node + sz) (hos_counter (osel_taskData (fst w) tid)) (osel_SMR_EFREQ (fst w)) w
      in (node, own (osel_set_task tid (hos_counter_update (\<lambda>_. counter))) w))"

definition osel_read :: "nat \<Rightarrow> ptr \<Rightarrow> nat \<Rightarrow> hyosel world \<Rightarrow> (ptr \<times> hyosel world) option" where
  "osel_read fuel obj tid w = lbo_deref fuel (hos_enter_num (osel_taskData (fst w) tid)) (\<lambda>s. cells s obj) w"

definition osel_start_op :: "nat \<Rightarrow> hyosel world \<Rightarrow> hyosel world" where
  "osel_start_op tid w =
     (let (ok, vec, handle, w) = lbo_enter (hos_enter_num (osel_taskData (fst w) tid)) w
      in own (osel_set_task tid (\<lambda>d. d\<lparr>hos_enter_num := vec, hos_handle := handle\<rparr>)) w)"

definition osel_end_op :: "nat \<Rightarrow> u64 \<Rightarrow> nat \<Rightarrow> hyosel world \<Rightarrow> hyosel world option" where
  "osel_end_op fuel sz tid w =
     map_option snd (lbo_leave fuel (hos_enter_num (osel_taskData (fst w) tid))
       (hos_handle (osel_taskData (fst w) tid)) (oel_free_node sz) 0 LF_DONTCHECK w)"

definition osel_retire :: "nat \<Rightarrow> u64 \<Rightarrow> ptr \<Rightarrow> nat \<Rightarrow> hyosel world \<Rightarrow> hyosel world option" where
  "osel_retire fuel sz obj tid w =
     (if obj = nullptr then Some w
      else map_option (\<lambda>(ok, batch, w). own (osel_set_task tid (hos_batch_update (\<lambda>_. batch))) w)
             (lbo_retire fuel (osel_SMR_ORDER (fst w)) (obj + sz) (oel_free_node sz) 0
                (hos_batch (osel_taskData (fst w) tid)) (osel_SMR_BATCH (fst w)) w))"

text \<open>The body of \<open>last_end_op\<close> is compiled out.\<close>

definition osel_last_end_op :: "nat \<Rightarrow> hyosel \<Rightarrow> hyosel" where
  "osel_last_end_op tid s = s"

section \<open>\<open>HyalineOSTRTracker\<close>\<close>

record hos_task_tr = hos_task +
  hos_firstTime :: bool

record hyostr = lfbsmro +
  ostr_collect :: bool
  ostr_SMR_ORDER :: nat
  ostr_SMR_BATCH :: u64
  ostr_taskData :: "nat \<Rightarrow> hos_task_tr"

abbreviation SMR_OFREQ :: u64 where "SMR_OFREQ \<equiv> 500"

definition ostr_new :: "nat \<Rightarrow> bool \<Rightarrow> bool \<Rightarrow> (ptr \<Rightarrow> ptr) \<Rightarrow> (ptr \<Rightarrow> u64) \<Rightarrow> (ptr \<Rightarrow> u64) \<Rightarrow> (ptr \<Rightarrow> u64)
    \<Rightarrow> u64 \<Rightarrow> (nat \<Rightarrow> u64) \<Rightarrow> (nat \<Rightarrow> u64) \<Rightarrow> (nat \<Rightarrow> hos_task_tr) \<Rightarrow> hyostr" where
  "ostr_new n collect cnt mem nx lk rf gl0 ac0 hd0 td =
     (let SMR_ORDER = calc_next_log2 (of_nat n);
          SMR_NUM = 2 ^ SMR_ORDER;
          SMR_BATCH = (if n < 64 then 64 else SMR_NUM + 1)
      in lbo_init SMR_ORDER
           (base.extend (base_new n cnt mem)
              \<lparr>smr_next = nx, smr_link = lk, smr_refs = rf, bs_global = gl0, bs_access = ac0, lbo_head = hd0,
               ostr_collect = collect, ostr_SMR_ORDER = SMR_ORDER, ostr_SMR_BATCH = of_nat SMR_BATCH,
               ostr_taskData = (\<lambda>i. if i < n
                  then (td i)\<lparr>hos_counter := 0, hos_firstTime := True, hos_enter_num := i AND (SMR_NUM - 1),
                              hos_batch := bsmr_batch_init (hos_batch (td i))\<rparr>
                  else td i)\<rparr>))"

definition ostr_set_task :: "nat \<Rightarrow> (hos_task_tr \<Rightarrow> hos_task_tr) \<Rightarrow> hyostr \<Rightarrow> hyostr" where
  "ostr_set_task tid f s = s\<lparr>ostr_taskData := (ostr_taskData s)(tid := f (ostr_taskData s tid))\<rparr>"

definition ostr_alloc :: "u64 \<Rightarrow> nat \<Rightarrow> ptr \<Rightarrow> hyostr world \<Rightarrow> ptr \<times> hyostr world" where
  "ostr_alloc sz tid blk w =
     (let node = blk;
          (counter, w) = bsmr_init_node (node + sz) (hos_counter (ostr_taskData (fst w) tid)) SMR_OFREQ w
      in (node, own (ostr_set_task tid (hos_counter_update (\<lambda>_. counter))) w))"

definition ostr_read :: "nat \<Rightarrow> ptr \<Rightarrow> nat \<Rightarrow> hyostr world \<Rightarrow> (ptr \<times> hyostr world) option" where
  "ostr_read fuel obj tid w = lbo_deref fuel (hos_enter_num (ostr_taskData (fst w) tid)) (\<lambda>s. cells s obj) w"

definition ostr_start_op :: "nat \<Rightarrow> hyostr world \<Rightarrow> hyostr world" where
  "ostr_start_op tid w =
     (if hos_firstTime (ostr_taskData (fst w) tid)
      then let w = own (ostr_set_task tid (hos_firstTime_update (\<lambda>_. False))) w;
               (ok, vec, handle, w) = lbo_enter (hos_enter_num (ostr_taskData (fst w) tid)) w
           in own (ostr_set_task tid (\<lambda>d. d\<lparr>hos_enter_num := vec, hos_handle := handle\<rparr>)) w
      else w)"

definition ostr_end_op :: "nat \<Rightarrow> u64 \<Rightarrow> nat \<Rightarrow> hyostr world \<Rightarrow> hyostr world option" where
  "ostr_end_op fuel sz tid w =
     map_option (\<lambda>(ok, vec, handle, w). own (ostr_set_task tid (\<lambda>d. d\<lparr>hos_enter_num := vec, hos_handle := handle\<rparr>)) w)
       (lbo_trim fuel (hos_enter_num (ostr_taskData (fst w) tid)) (hos_handle (ostr_taskData (fst w) tid))
          (oel_free_node sz) 0 LF_DONTCHECK FLUSH_THRESHOLD w)"

definition ostr_last_end_op :: "nat \<Rightarrow> u64 \<Rightarrow> nat \<Rightarrow> hyostr world \<Rightarrow> hyostr world option" where
  "ostr_last_end_op fuel sz tid w =
     map_option snd (lbo_leave fuel (hos_enter_num (ostr_taskData (fst w) tid))
       (hos_handle (ostr_taskData (fst w) tid)) (oel_free_node sz) 0 LF_DONTCHECK w)"

definition ostr_retire :: "nat \<Rightarrow> u64 \<Rightarrow> ptr \<Rightarrow> nat \<Rightarrow> hyostr world \<Rightarrow> hyostr world option" where
  "ostr_retire fuel sz obj tid w =
     (if obj = nullptr then Some w
      else map_option (\<lambda>(ok, batch, w). own (ostr_set_task tid (hos_batch_update (\<lambda>_. batch))) w)
             (lbo_retire fuel (ostr_SMR_ORDER (fst w)) (obj + sz) (oel_free_node sz) 0
                (hos_batch (ostr_taskData (fst w) tid)) (ostr_SMR_BATCH (fst w)) w))"

text \<open>\<open>free_node\<close> keeps the contract of the callback.\<close>

interpretation osel: lbo_callback "oel_free_node sz" "\<lambda>n. n - sz" "\<lambda>n. n \<noteq> sz" for sz
  by unfold_locales (simp_all add: oel_free_node_def dec_retired_def base_reclaim_def Let_def)

end
