(* ===== verification/Hyaline_Bsmr.thy ===== *)
theory Hyaline_Bsmr
  imports Hyaline_Safe Lfbsmro_Inv
begin

text \<open>
  The trackers whose batches are filled by \<open>retire\<close> of \<open>lfbsmr_common.h\<close>: as \<open>hy_smr\<close>, but a full batch
  goes only to the threads inside whose access epoch has reached its smallest birth epoch.  A thread
  sees the nodes born up to its access epoch; that is every node born before its last \<open>read\<close>.  The
  epoch stays below \<open>2 ^ 63\<close>.
\<close>

text \<open>The part of the state that the operations on the lists leave alone.\<close>

abbreviation hb_epochs :: "'a bsmr_scheme \<Rightarrow> u64 \<times> (nat \<Rightarrow> u64)" where
  "hb_epochs s \<equiv> (bs_global s, bs_access s)"

lemma hb_epochs_kept: "smr_kept s' = smr_kept s \<Longrightarrow> hb_epochs s' = hb_epochs (s :: 'a bsmr_scheme)"
  by (cases s, cases s') simp

locale hy_bsmr =
  fixes T :: "'a bsmr_scheme hy_ops" and n m :: nat and sz :: u64 and ok :: "ptr \<Rightarrow> bool" and fuel :: nat
    and trims :: bool and order :: nat
    and rt :: "nat \<Rightarrow> u64 \<Rightarrow> u64 \<Rightarrow> 'a bsmr_scheme world \<Rightarrow> (bool \<times> 'a bsmr_scheme world) option"
    and batch :: "'a bsmr_scheme \<Rightarrow> nat \<Rightarrow> bsmr_batch"
    and set_batch :: "nat \<Rightarrow> bsmr_batch \<Rightarrow> 'a bsmr_scheme \<Rightarrow> 'a bsmr_scheme"
    and Inv :: "nat set \<Rightarrow> nat set \<Rightarrow> (nat \<Rightarrow> ptr list \<Rightarrow> bool) \<Rightarrow> ptr list list \<Rightarrow> 'a bsmr_scheme \<Rightarrow> bool"
    and slots :: nat and moves :: bool and place :: "'a bsmr_scheme \<Rightarrow> nat \<Rightarrow> nat"
  assumes sizes: "Inv A D g B s \<Longrightarrow> 1 < m \<and> m < 2 ^ 64"
    and node_ok: "ok x \<Longrightarrow> x \<noteq> 0"
    and threads: "Inv A D g B s \<Longrightarrow> A \<subseteq> {..<n} \<and> task_num s = n"
    and idle: "Inv {} D g B s \<Longrightarrow> B = []"
    and inv_keep: "Inv A D g B s \<Longrightarrow> same_nodes X s s' \<Longrightarrow> X \<inter> set (concat B) = {}
      \<Longrightarrow> smr_kept s' = smr_kept s \<Longrightarrow> Inv A D g B s'"
    and place: "Inv A D g B s \<Longrightarrow> u < n \<Longrightarrow> place s u < slots"
    and inv_batch: "Inv A D g B s \<Longrightarrow> Inv A D g B (set_batch t bt s)"
    and inv_access: "Inv A D g B s \<Longrightarrow> Inv A D g B (bs_set_access t v s)"
    and set_batch: "same_nodes {} s (set_batch t bt s) \<and> reclaimed (set_batch t bt s) = reclaimed s
      \<and> batch (set_batch t bt s) = (batch s)(t := bt) \<and> place (set_batch t bt s) = place s
      \<and> hb_epochs (set_batch t bt s) = hb_epochs s"
    and batch_kept: "smr_kept s' = smr_kept s \<Longrightarrow> batch s' = batch s" "batch (bs_set_access t v s) = batch s"
    and place_kept: "smr_kept s' = smr_kept s \<Longrightarrow> place s' = place s" "place (bs_set_access t v s) = place s"
    and op_alloc: "Inv A D g B s \<Longrightarrow> t < n \<Longrightarrow> x \<notin> set (concat B) \<Longrightarrow>
      \<exists>s'. ops_alloc T (x - sz) t s = Some s' \<and> same_nodes {x} s s' \<and> reclaimed s' = reclaimed s
      \<and> batch s' = batch s \<and> place s' = place s \<and> Inv A D g B s' \<and> bs_access s' = bs_access s
      \<and> (bs_global s' = bs_global s \<or> bs_global s' = bs_global s + 1) \<and> smr_next s' x = bs_global s'"
    and op_start: "Inv A D g B s \<Longrightarrow> t < n \<Longrightarrow> t \<notin> D \<Longrightarrow> trims \<or> t \<notin> A \<Longrightarrow>
      \<exists>s' g'. ops_start T t s = Some s' \<and> same_nodes {} s s' \<and> reclaimed s' = reclaimed s \<and> batch s' = batch s
      \<and> (\<forall>u. \<not> (moves \<and> u = t) \<longrightarrow> place s' u = place s u)
      \<and> hb_epochs s' = hb_epochs s \<and> Inv (insert t A) D g' B s' \<and> (\<forall>u \<in> A. \<forall>b \<in> set B. g u b \<longrightarrow> g' u b)"
    and op_read: "Inv A D g B s \<Longrightarrow> t \<in> A \<Longrightarrow> ops_read T a t s = Some (bs_set_access (place s t) (bs_global s) s)"
    and op_end: "Inv A D g B s \<Longrightarrow> t \<in> A \<Longrightarrow> \<forall>x \<in> set (concat B). ok x \<and> x \<noteq> sz \<Longrightarrow> length (concat B) < fuel \<Longrightarrow>
      \<exists>s' g' B' F. ops_end T t s = Some s' \<and> Inv (if trims then A else A - {t}) D g' B' s'
      \<and> same_nodes (set (concat B)) s s' \<and> batch s' = batch s \<and> place s' = place s \<and> hb_epochs s' = hb_epochs s
      \<and> hy_drop sz (A - {t}) g B s g' B' F s'"
    and op_last: "Inv A D g B s \<Longrightarrow> t < n \<Longrightarrow> t \<notin> D \<Longrightarrow> trims \<longleftrightarrow> t \<in> A \<Longrightarrow>
      \<forall>x \<in> set (concat B). ok x \<and> x \<noteq> sz \<Longrightarrow> length (concat B) < fuel \<Longrightarrow>
      \<exists>s' g' B' F. ops_last T t s = Some s' \<and> Inv (A - {t}) (insert t D) g' B' s'
      \<and> same_nodes (set (concat B)) s s' \<and> batch s' = batch s \<and> place s' = place s \<and> hb_epochs s' = hb_epochs s
      \<and> hy_drop sz (A - {t}) g B s g' B' F s'"
    and retire_batch: "Inv A D g B s \<Longrightarrow> batch_ok s b \<Longrightarrow> smr_refs s (last b) = 0 \<Longrightarrow> distinct b
      \<Longrightarrow> set b \<inter> set (concat B) = {} \<Longrightarrow> \<forall>x \<in> set b. ok x \<and> x \<noteq> sz \<Longrightarrow> length b = m \<Longrightarrow> length b < fuel \<Longrightarrow>
      \<exists>s'. rt order (hd b) e (s, []) = Some (True, (s', []))
      \<and> same_nodes (set b \<union> set (concat B)) s s' \<and> batch s' = batch s \<and> place s' = place s \<and> hb_epochs s' = hb_epochs s
      \<and> (if \<exists>u \<in> A. EPOCH_GE (bs_access s (place s u)) e
         then reclaimed s' = reclaimed s \<and> (\<exists>g'. Inv A D g' (b # B) s'
           \<and> (\<forall>u \<in> A. (EPOCH_GE (bs_access s (place s u)) e \<longrightarrow> g' u b) \<and> (\<forall>c \<in> set B. g u c \<longrightarrow> g' u c)))
         else reclaimed s' = reclaimed s @ map (\<lambda>x. x - sz) b \<and> Inv A D g B s')"
    and op_retire: "Inv A D g B s \<Longrightarrow> p \<noteq> nullptr \<Longrightarrow>
      ops_retire T p t s = map_option (\<lambda>(ok, bt, w). set_batch t bt (fst w))
        (bsmr_retire rt order (p + sz) 0 (batch s t) (of_nat m) (s, []))"

begin

definition Open :: "'a bsmr_scheme \<Rightarrow> nat \<Rightarrow> ptr list \<Rightarrow> bool" where
  "Open s t xs \<longleftrightarrow> open_ok s (smr_batch.truncate (batch s t)) m xs \<and> length xs < m
     \<and> (xs \<noteq> [] \<longrightarrow> unat (batch_min_epoch (batch s t)) < 2 ^ 63 \<and> (\<forall>x \<in> set xs. batch_min_epoch (batch s t) \<le> smr_next s x))"

definition sees :: "'a bsmr_scheme \<Rightarrow> nat \<Rightarrow> ptr \<Rightarrow> bool" where
  "sees s u x \<longleftrightarrow> smr_next s x \<le> bs_access s (place s u)"

definition born :: "'a bsmr_scheme \<Rightarrow> ptr \<Rightarrow> bool" where
  "born s x \<longleftrightarrow> smr_next s x \<le> bs_global s"

definition epochs :: "nat \<Rightarrow> 'a bsmr_scheme \<Rightarrow> bool" where
  "epochs e s \<longleftrightarrow> e < 2 ^ 63 \<and> unat (bs_global s) \<le> e \<and> (\<forall>i < slots. bs_access s i \<le> bs_global s)"

abbreviation EInv where
  "EInv e A D g B s \<equiv> Inv A D g B s \<and> epochs e s"

abbreviation kept :: "ptr set \<Rightarrow> nat set \<Rightarrow> 'a bsmr_scheme \<Rightarrow> 'a bsmr_scheme \<Rightarrow> bool" where
  "kept \<equiv> hy_keeps Open sees born"

lemma epochs_same: "hb_epochs s' = hb_epochs s \<Longrightarrow> epochs e s' = epochs e s"
  by (simp add: epochs_def)

lemma keptI:
  assumes same: "same_nodes X s s'" and b: "\<And>u. u \<notin> V \<Longrightarrow> batch s' u = batch s u"
    and up: "bs_global s \<le> bs_global s'" "\<And>u. bs_access s (place s u) \<le> bs_access s' (place s' u)"
  shows "kept X V s s'"
  unfolding hy_keeps_def
proof (intro conjI allI impI)
  show "same_nodes X s s'" by (rule same)
  show "Open s' u xs" if "u \<notin> V" "X \<inter> set xs = {}" "Open s u xs" for u xs
  proof -
    have "smr_next s' x = smr_next s x" if "x \<in> set xs" for x using same that \<open>X \<inter> set xs = {}\<close> by (auto simp: same_nodes_def)
    with that(3) b [OF that(1)] open_ok_same [OF same that(2)] show ?thesis by (simp add: Open_def)
  qed
  show "sees s' u x" if "smr_next s' x = smr_next s x" "sees s u x" for u x
    using that order_trans [OF _ up(2)] by (simp add: sees_def)
  show "born s' x" if "smr_next s' x = smr_next s x" "born s x" for x
    using that order_trans [OF _ up(1)] by (simp add: born_def)
qed

lemma kept_same: "same_nodes X s s' \<Longrightarrow> (\<And>u. u \<notin> V \<Longrightarrow> batch s' u = batch s u) \<Longrightarrow> place s' = place s
  \<Longrightarrow> hb_epochs s' = hb_epochs s \<Longrightarrow> kept X V s s'"
  by (rule keptI) simp_all

lemma kept_batch:
  assumes "same_nodes X s s1" "batch s1 = batch s" "place s1 = place s" "hb_epochs s1 = hb_epochs s"
  shows "kept X {t} s (set_batch t bt s1)"
  by (rule kept_same, rule same_nodes_trans [OF assms(1), of "{}"]) (use assms(2-4) set_batch [of s1 t bt] in auto)

lemma Open_batch:
  assumes "open_ok s1 (smr_batch.truncate bt) m xs" "length xs < m"
    "xs \<noteq> [] \<Longrightarrow> unat (batch_min_epoch bt) < 2 ^ 63 \<and> (\<forall>x \<in> set xs. batch_min_epoch bt \<le> smr_next s1 x)"
  shows "Open (set_batch t bt s1) t xs"
  using assms open_ok_same [of "{}" s1 "set_batch t bt s1" xs "smr_batch.truncate bt" m] set_batch [of s1 t bt]
  by (simp add: Open_def same_nodes_def)

text \<open>The smallest birth epoch of the batch with the new node.\<close>

lemma min_birth:
  assumes op: "Open s t xs" and nz: "\<forall>y \<in> set xs. y \<noteq> 0" and x: "born s x" and e: "epochs e s"
  shows "unat (bsmr_min (batch s t) (smr_next s x)) < 2 ^ 63"
    "\<forall>y \<in> set (x # xs). bsmr_min (batch s t) (smr_next s x) \<le> smr_next s y"
proof -
  have x': "unat (smr_next s x) < 2 ^ 63" using x e by (simp add: born_def epochs_def word_le_nat_alt)
  have f: "batch_first (batch s t) = 0 \<longleftrightarrow> xs = []"
    using op nz by (auto simp: Open_def open_ok_def smr_batch.defs)
  show "unat (bsmr_min (batch s t) (smr_next s x)) < 2 ^ 63"
    using x' op f by (auto simp: bsmr_min_def Open_def)
  show "\<forall>y \<in> set (x # xs). bsmr_min (batch s t) (smr_next s x) \<le> smr_next s y"
    using op f EPOCH_le(2) [OF _ x'] by (fastforce simp: bsmr_min_def Open_def)
qed

lemma op_retire_eq:
  assumes lib: "Inv A D g B s" and x: "x \<noteq> sz"
  shows "ops_retire T (x - sz) t s =
    (let e = bsmr_min (batch s t) (smr_next s x)
     in map_option (\<lambda>(ok, b, w). set_batch t (smr_batch.extend b \<lparr>batch_min_epoch = e\<rparr>) (fst w))
          (smr_retire (\<lambda>order first. rt order first e) order x 0 (smr_batch.truncate (batch s t)) (of_nat m) (s, [])))"
  using op_retire [OF lib, of "x - sz" t] x
  by (simp add: bsmr_retire_eq Let_def option.map_comp o_def case_prod_beta')

lemma bsmr_retire_open:
  assumes lib: "Inv A D g B s" "epochs e s" and op: "Open s t xs" "distinct (x # xs)" "set (x # xs) \<inter> set (concat B) = {}"
    and okb: "\<forall>y \<in> set (x # xs). ok y \<and> y \<noteq> sz" and x: "born s x" and len: "Suc (length xs) < m"
  shows "\<exists>s'. ops_retire T (x - sz) t s = Some s' \<and> EInv e A D g B s' \<and> Open s' t (x # xs)
    \<and> kept {x} {t} s s' \<and> smr_next s' x = smr_next s x \<and> reclaimed s' = reclaimed s"
proof -
  let ?c = "smr_batch.truncate (batch s t)" let ?e = "bsmr_min (batch s t) (smr_next s x)"
  have o: "open_ok s ?c m xs" using op(1) by (simp add: Open_def)
  have nz: "\<forall>y \<in> set xs. y \<noteq> 0" using okb node_ok by auto
  let ?s1 = "smr_add_node x xs s" let ?bt = "smr_batch.extend (smr_batch_add x xs ?c) \<lparr>batch_min_epoch = ?e\<rparr>"
  let ?s' = "set_batch t ?bt ?s1"
  have m: "0 < m" "m < 2 ^ 64" using sizes [OF lib(1)] by simp_all
  have run: "ops_retire T (x - sz) t s = Some ?s'"
    using op_retire_eq [OF lib(1), of x t] okb smr_retire_run [OF o nz m, of _ order x] len by (simp add: Let_def)
  have keep: "smr_kept ?s1 = smr_kept s" by (simp add: smr_add_node_fields)
  note b1 = batch_kept(1) [OF keep] place_kept(1) [OF keep] note e1 = hb_epochs_kept [OF keep]
  have nx: "smr_next ?s' y = smr_next s y" for y using set_batch [of ?s1 t ?bt] by (simp add: same_nodes_def smr_add_node_fields)
  have "Inv A D g B ?s'"
    by (rule inv_batch, rule inv_keep [OF lib(1) smr_add_node_same _ keep]) (use op(3) in simp)
  moreover have "epochs e ?s'" using lib(2) set_batch [of ?s1 t ?bt] e1 epochs_same [of ?s' s e] by simp
  moreover have "Open ?s' t (x # xs)"
    by (rule Open_batch)
      (use smr_add_node_open [OF o] op(2) len min_birth [OF op(1) nz x lib(2)] in
        \<open>simp_all add: smr_batch.defs smr_batch_add_def smr_add_node_fields\<close>)
  moreover have "kept {x} {t} s ?s'" by (rule kept_batch [OF smr_add_node_same b1 e1])
  moreover have "reclaimed ?s' = reclaimed s" using set_batch [of ?s1 t ?bt] by (simp add: smr_add_node_fields)
  ultimately show ?thesis using run nx by (intro exI [of _ ?s'] conjI) simp_all
qed

lemma bsmr_retire_full:
  assumes lib: "Inv A D g B s" "epochs e s" and op: "Open s t xs" "distinct (x # xs)" "set (x # xs) \<inter> set (concat B) = {}"
    and okb: "\<forall>y \<in> set (x # xs). ok y \<and> y \<noteq> sz" and x: "born s x"
    and len: "Suc (length xs) = m" "length (x # xs) < fuel"
  shows "\<exists>s'. ops_retire T (x - sz) t s = Some s' \<and> Open s' t []
    \<and> kept (set (x # xs) \<union> set (concat B)) {t} s s'
    \<and> (reclaimed s' = reclaimed s @ map (\<lambda>y. y - sz) (x # xs) \<and> EInv e A D g B s'
         \<and> (\<forall>u \<in> A. \<forall>y \<in> set (x # xs). \<not> sees s u y)
       \<or> reclaimed s' = reclaimed s \<and> (\<exists>g'. EInv e A D g' ((x # xs) # B) s'
         \<and> (\<forall>u \<in> A. ((\<exists>y \<in> set (x # xs). sees s u y) \<longrightarrow> g' u (x # xs)) \<and> (\<forall>c \<in> set B. g u c \<longrightarrow> g' u c))))
    \<and> ((\<forall>u \<in> A. bs_access s (place s u) < bsmr_min (batch s t) (smr_next s x)) \<longrightarrow>
         reclaimed s' = reclaimed s @ map (\<lambda>y. y - sz) (x # xs))"
proof -
  let ?c = "smr_batch.truncate (batch s t)" let ?e = "bsmr_min (batch s t) (smr_next s x)" let ?b = "x # xs"
  have o: "open_ok s ?c m xs" using op(1) by (simp add: Open_def)
  have nz: "\<forall>y \<in> set xs. y \<noteq> 0" using okb node_ok by auto
  let ?s1 = "smr_add_node x xs s" let ?bt1 = "smr_batch_add x xs ?c" let ?s3 = "smr_close ?b ?s1"
  have m: "0 < m" "m < 2 ^ 64" "1 < m" using sizes [OF lib(1)] by simp_all
  have ne: "xs \<noteq> []" using len(1) m(3) by auto
  have same3: "same_nodes (set ?b) s ?s3"
    by (rule same_nodes_trans [OF smr_add_node_same smr_close_same]) auto
  have fld: "smr_kept ?s3 = smr_kept s" "reclaimed ?s3 = reclaimed s" by (simp_all add: smr_add_node_fields)
  note b3 = batch_kept(1) [OF fld(1)] and p3 = place_kept(1) [OF fld(1)] note e3 = hb_epochs_kept [OF fld(1)]
  have inv3: "Inv A D g B ?s3" by (rule inv_keep [OF lib(1) same3 op(3) fld(1)])
  have len': "length ?b = m" using len(1) by simp
  obtain s4 where r: "rt order x ?e (?s3, []) = Some (True, (s4, []))"
    "same_nodes (set ?b \<union> set (concat B)) ?s3 s4" "batch s4 = batch ?s3" "place s4 = place ?s3" "hb_epochs s4 = hb_epochs ?s3"
    "if \<exists>u \<in> A. EPOCH_GE (bs_access ?s3 (place ?s3 u)) ?e
     then reclaimed s4 = reclaimed ?s3 \<and> (\<exists>g'. Inv A D g' (?b # B) s4
       \<and> (\<forall>u \<in> A. (EPOCH_GE (bs_access ?s3 (place ?s3 u)) ?e \<longrightarrow> g' u ?b) \<and> (\<forall>c \<in> set B. g u c \<longrightarrow> g' u c)))
     else reclaimed s4 = reclaimed ?s3 @ map (\<lambda>x. x - sz) ?b \<and> Inv A D g B s4"
    using retire_batch [OF inv3 smr_close_ok [OF o op(2) ne] op(2,3) okb len' len(2), of ?e]
    by (simp only: list.sel) blast
  let ?bt = "smr_batch.extend (smr_batch_init ?bt1) \<lparr>batch_min_epoch = ?e\<rparr>" let ?s' = "set_batch t ?bt s4"
  have run: "ops_retire T (x - sz) t s = Some ?s'"
    using op_retire_eq [OF lib(1), of x t] okb smr_retire_run [OF o nz m(1,2), of _ order x] len(1) r(1)
    by (simp add: Let_def)
  have bt: "batch s4 = batch s" and pl: "place s4 = place s" and ep: "hb_epochs s4 = hb_epochs s" using r(3-5) b3 p3 e3 by simp_all
  have same4: "same_nodes (set ?b \<union> set (concat B)) s s4" by (rule same_nodes_trans [OF same3 r(2)]) blast
  have opn: "Open ?s' t []"
    by (rule Open_batch) (use m(1) in \<open>simp_all add: open_ok_def smr_batch_init_def smr_batch.defs\<close>)
  have k: "kept (set ?b \<union> set (concat B)) {t} s ?s'" by (rule kept_batch [OF same4 bt pl ep])
  have rec: "reclaimed ?s' = reclaimed s4" using set_batch [of s4 t ?bt] by simp
  have ep': "epochs e ?s'" using lib(2) set_batch [of s4 t ?bt] ep epochs_same [of ?s' s e] by simp
  note mb = min_birth [OF op(1) nz x lib(2)]
  have ge: "EPOCH_GE (bs_access ?s3 (place ?s3 u)) ?e \<longleftrightarrow> ?e \<le> bs_access s (place s u)" if u: "u \<in> A" for u
  proof -
    have "place s u < slots" using place [OF lib(1)] threads [OF lib(1)] u by blast
    then have "unat (bs_access s (place s u)) < 2 ^ 63" using lib(2) unfolding epochs_def word_le_nat_alt by fastforce
    then show ?thesis using EPOCH_le(1) [OF _ mb(1)] e3 p3 by simp
  qed
  have seen: "?e \<le> bs_access s (place s u)" if "y \<in> set ?b" "sees s u y" for u y
    using mb(2) that unfolding sees_def by (meson order_trans)
  show ?thesis
  proof (intro exI conjI)
    show "reclaimed ?s' = reclaimed s @ map (\<lambda>y. y - sz) ?b \<and> EInv e A D g B ?s'
         \<and> (\<forall>u \<in> A. \<forall>y \<in> set ?b. \<not> sees s u y)
       \<or> reclaimed ?s' = reclaimed s \<and> (\<exists>g'. EInv e A D g' (?b # B) ?s'
         \<and> (\<forall>u \<in> A. ((\<exists>y \<in> set ?b. sees s u y) \<longrightarrow> g' u ?b) \<and> (\<forall>c \<in> set B. g u c \<longrightarrow> g' u c)))"
    proof (cases "\<exists>u \<in> A. EPOCH_GE (bs_access ?s3 (place ?s3 u)) ?e")
      case False
      with r(6) have "reclaimed s4 = reclaimed ?s3 @ map (\<lambda>x. x - sz) ?b" "Inv A D g B s4" by simp_all
      moreover have "\<forall>u \<in> A. \<forall>y \<in> set ?b. \<not> sees s u y" using False ge seen by blast
      ultimately show ?thesis using rec fld(2) ep' inv_batch [of A D g B s4 t ?bt] by simp
    next
      case True
      then obtain g' where g': "reclaimed s4 = reclaimed ?s3" "Inv A D g' (?b # B) s4"
        "\<forall>u \<in> A. (EPOCH_GE (bs_access ?s3 (place ?s3 u)) ?e \<longrightarrow> g' u ?b) \<and> (\<forall>c \<in> set B. g u c \<longrightarrow> g' u c)"
        using r(6) by auto
      have "reclaimed ?s' = reclaimed s" using rec g'(1) fld(2) by simp
      moreover have "EInv e A D g' (?b # B) ?s'" using inv_batch [OF g'(2)] ep' by blast
      moreover have "\<forall>u \<in> A. ((\<exists>y \<in> set ?b. sees s u y) \<longrightarrow> g' u ?b) \<and> (\<forall>c \<in> set B. g u c \<longrightarrow> g' u c)"
        using g'(3) ge seen by blast
      ultimately show ?thesis by blast
    qed
    show "(\<forall>u \<in> A. bs_access s (place s u) < ?e) \<longrightarrow> reclaimed ?s' = reclaimed s @ map (\<lambda>y. y - sz) ?b"
      using r(6) ge rec fld(2) by (auto simp: not_le [symmetric] split: if_splits)
  qed (fact run opn k)+
qed

lemma alloc_epochs:
  assumes "epochs e s" "Suc e < 2 ^ 63" "bs_access s' = bs_access s"
    "bs_global s' = bs_global s \<or> bs_global s' = bs_global s + 1"
  shows "epochs (Suc e) s'" "bs_global s \<le> bs_global s'"
proof -
  have g: "unat (bs_global s) \<le> e" using assms(1) by (simp add: epochs_def)
  have "bs_global s + 1 \<noteq> 0"
  proof
    assume "bs_global s + 1 = 0"
    then have "bs_global s = - 1" by (simp add: eq_neg_iff_add_eq_0)
    with g assms(2) show False by (simp add: unsigned_minus_1_eq_mask mask_eq_exp_minus_1)
  qed
  then have "unat (bs_global s + 1) = Suc (unat (bs_global s))" using unatSuc [of "bs_global s"] by (simp add: add.commute)
  then have u: "unat (bs_global s) \<le> unat (bs_global s')" "unat (bs_global s') \<le> Suc e" using assms(4) g by auto
  then show "bs_global s \<le> bs_global s'" by (simp add: word_le_nat_alt)
  with u(2) assms show "epochs (Suc e) s'" by (fastforce simp: epochs_def)
qed

end

sublocale hy_bsmr \<subseteq> hy: hy_tracker T n m sz ok fuel "2 ^ 63" trims moves EInv Open sees born
proof unfold_locales
  fix e A D g B s t X x a xs
  assume both: "EInv e A D g B s"
  then have lib: "Inv A D g B s" and ep: "epochs e s" by blast+
  note epI = epochs_same [THEN iffD2, OF _ ep]
  show "A \<subseteq> {..<n} \<and> task_num s = n" by (rule threads [OF lib])
  show "\<exists>s'. ops_alloc T (x - sz) t s = Some s' \<and> EInv (Suc e) A D g B s' \<and> kept {x} {} s s'
      \<and> reclaimed s' = reclaimed s \<and> born s' x"
    if h: "t < n" "x \<notin> set (concat B)" "ok x" "Suc e < 2 ^ 63"
  proof -
    obtain s' where r: "ops_alloc T (x - sz) t s = Some s'" "same_nodes {x} s s'" "reclaimed s' = reclaimed s"
      "batch s' = batch s" "place s' = place s" "Inv A D g B s'" "bs_access s' = bs_access s"
      "bs_global s' = bs_global s \<or> bs_global s' = bs_global s + 1" "smr_next s' x = bs_global s'"
      using op_alloc [OF lib h(1,2)] by blast
    note a = alloc_epochs [OF ep h(4) r(7,8)]
    have "kept {x} {} s s'" by (rule keptI [OF r(2)]) (use a(2) r(4,5,7) in simp_all)
    with r(1,3,6,9) a(1) show ?thesis by (auto simp: born_def)
  qed
  show "\<exists>s'. ops_read T a t s = Some s' \<and> EInv e A D g B s' \<and> kept {} {} s s' \<and> reclaimed s' = reclaimed s
      \<and> (\<forall>x. born s x \<longrightarrow> sees s' t x)" if t: "t \<in> A"
  proof (intro exI conjI)
    let ?s' = "bs_set_access (place s t) (bs_global s) s"
    have "place s t < slots" using place [OF lib] threads [OF lib] t by blast
    then have "bs_access s (place s t) \<le> bs_global s" using ep by (simp add: epochs_def)
    then show "kept {} {} s ?s'"
      by (intro keptI) (simp_all add: place_kept(2) batch_kept(2), simp_all add: bs_set_access_def same_nodes_def)
    show "epochs e ?s'" using ep by (simp add: epochs_def bs_set_access_def)
  qed (use op_read [OF lib t] inv_access [OF lib] in \<open>simp_all add: place_kept(2) born_def sees_def, simp_all add: bs_set_access_def\<close>)
  show "\<exists>s' g'. ops_start T t s = Some s' \<and> EInv e (insert t A) D g' B s'
      \<and> hy_keeps Open (\<lambda>s u x. sees s u x \<and> \<not> (moves \<and> u = t)) born {} {} s s'
      \<and> reclaimed s' = reclaimed s \<and> (\<forall>u \<in> A. \<forall>b \<in> set B. g u b \<longrightarrow> g' u b)"
    if t: "t < n" "t \<notin> D" "trims \<or> t \<notin> A"
  proof -
    obtain s' g' where r: "ops_start T t s = Some s'" "same_nodes {} s s'" "reclaimed s' = reclaimed s" "batch s' = batch s"
      "\<And>u. \<not> (moves \<and> u = t) \<Longrightarrow> place s' u = place s u" "hb_epochs s' = hb_epochs s" "Inv (insert t A) D g' B s'"
      "\<forall>u \<in> A. \<forall>b \<in> set B. g u b \<longrightarrow> g' u b" using op_start [OF lib t] by blast
    have "Open s' u xs" if "Open s u xs" for u xs
      using that open_ok_same [OF r(2)] r(2,4) by (simp add: Open_def same_nodes_def)
    moreover have "sees s' u x" if "sees s u x" "\<not> (moves \<and> u = t)" for u x
      using that r(2,6) r(5) [OF that(2)] by (simp add: sees_def same_nodes_def)
    moreover have "born s' x" if "born s x" for x using that r(2,6) by (simp add: born_def same_nodes_def)
    ultimately have "hy_keeps Open (\<lambda>s u x. sees s u x \<and> \<not> (moves \<and> u = t)) born {} {} s s'"
      using r(2) unfolding hy_keeps_def by blast
    with r(1,3,7,8) epI [OF r(6)] show ?thesis by blast
  qed
  show "\<exists>s' g' B' F. ops_end T t s = Some s' \<and> EInv e (if trims then A else A - {t}) D g' B' s'
      \<and> kept (set (concat B)) {} s s' \<and> hy_drop sz (A - {t}) g B s g' B' F s'"
    if "t \<in> A" "\<forall>x \<in> set (concat B). ok x \<and> x \<noteq> sz" "length (concat B) < fuel"
    using op_end [OF lib that] kept_same [of "set (concat B)" s _ "{}"] epI by metis
  show "\<exists>s' g' B' F. ops_last T t s = Some s' \<and> EInv e (A - {t}) (insert t D) g' B' s'
      \<and> kept (set (concat B)) {} s s' \<and> hy_drop sz (A - {t}) g B s g' B' F s'"
    if "t < n" "t \<notin> D" "trims \<longleftrightarrow> t \<in> A" "\<forall>x \<in> set (concat B). ok x \<and> x \<noteq> sz" "length (concat B) < fuel"
    using op_last [OF lib that] kept_same [of "set (concat B)" s _ "{}"] epI by metis
  show "\<exists>s'. ops_retire T (x - sz) t s = Some s' \<and> EInv e A D g B s' \<and> Open s' t (x # xs)
      \<and> kept {x} {t} s s' \<and> smr_next s' x = smr_next s x \<and> reclaimed s' = reclaimed s"
    if "t < n" "Open s t xs" "distinct (x # xs)" "set (x # xs) \<inter> set (concat B) = {}"
      "\<forall>y \<in> set (x # xs). ok y \<and> y \<noteq> sz" "born s x" "Suc (length xs) < m"
    by (rule bsmr_retire_open [OF lib ep that(2-7)])
  show "\<exists>s'. ops_retire T (x - sz) t s = Some s' \<and> Open s' t []
      \<and> kept (set (x # xs) \<union> set (concat B)) {t} s s'
      \<and> (reclaimed s' = reclaimed s @ map (\<lambda>y. y - sz) (x # xs) \<and> EInv e A D g B s'
           \<and> (\<forall>u \<in> A. \<forall>y \<in> set (x # xs). \<not> sees s u y)
         \<or> reclaimed s' = reclaimed s \<and> (\<exists>g'. EInv e A D g' ((x # xs) # B) s'
           \<and> (\<forall>u \<in> A. ((\<exists>y \<in> set (x # xs). sees s u y) \<longrightarrow> g' u (x # xs)) \<and> (\<forall>c \<in> set B. g u c \<longrightarrow> g' u c))))"
    if "t < n" "Open s t xs" "distinct (x # xs)" "set (x # xs) \<inter> set (concat B) = {}"
      "\<forall>y \<in> set (x # xs). ok y \<and> y \<noteq> sz" "born s x" "Suc (length xs) = m" "length (x # xs) < fuel"
    using bsmr_retire_full [OF lib ep that(2-8)] by blast
next
  show "ok x \<Longrightarrow> x \<noteq> 0" for x by (rule node_ok)
  show "EInv e {} D g B s \<Longrightarrow> B = []" for e D g B s using idle by blast
  show "Open s t xs \<Longrightarrow> length xs < m" for s t xs by (simp add: Open_def)
qed

context hy_bsmr begin

text \<open>A batch whose objects are all younger than what the threads in the library have seen does not
  wait for them: the \<open>retire\<close> that fills it gives it back.\<close>

lemma fills_and_frees:
  assumes inv: "hy.inv w g B W e s" and legal: "hy_legal trims sz ok w s (HyRetire p t)"
    and fuel: "length (hu_retired w) + 1 < fuel" and full: "batch_counter (batch s t) + 1 = of_nat m"
    and old: "\<forall>u \<in> hu_entered w. bs_access s (place s u) < bsmr_min (batch s t) (smr_next s (p + sz))"
  shows "\<exists>s' ps. ops_retire T p t s = Some s' \<and> reclaimed s' = reclaimed s @ ps \<and> p \<in> set ps \<and> length ps = m"
proof -
  note I = hy.invD [OF inv]
  let ?x = "p + sz" let ?xs = "W t"
  have t: "t < n" and lp: "p \<in> hu_live w" using legal I(10) by simp_all
  have x: "p \<noteq> nullptr" "ok ?x" "born s ?x" "?x \<notin> set (pool n W B)" using I(8) [OF lp] by blast+
  have xW: "?x \<notin> set ?xs" "?x \<notin> set (concat B)" using x(4) t by (auto simp: set_pool)
  have db: "distinct (?x # ?xs)" using pool_open(1) [OF I(3) t] xW by simp
  have bB: "set (?x # ?xs) \<inter> set (concat B) = {}" using pool_disjoint [OF I(3) t] xW by auto
  have sub: "set ?xs \<subseteq> set (pool n W B)" using t by (auto simp: set_pool)
  have okb: "\<forall>y \<in> set (?x # ?xs). ok y \<and> y \<noteq> sz" using I(4) sub x(1,2) by auto
  have lib: "Inv (hu_entered w) (hu_gone w) g B s" "epochs e s" using I(1) by blast+
  have op: "Open s t ?xs" by (rule I(2) [OF t])
  have "batch_counter (smr_batch.truncate (batch s t)) = of_nat (length ?xs)"
    using op unfolding Open_def open_ok_def by fastforce
  then have c: "of_nat (Suc (length ?xs)) = (of_nat m :: u64)" using full by (simp add: smr_batch.defs add.commute)
  have lt: "Suc (length ?xs) < 2 ^ 64" "m < 2 ^ 64" using hy.open_length [OF op] sizes [OF lib(1)] by simp_all
  have "unat (of_nat (Suc (length ?xs)) :: u64) = Suc (length ?xs)" "unat (of_nat m :: u64) = m"
    using lt by (simp_all only: unat_of_nat) (simp_all add: take_bit_nat_eq_self unsigned_of_nat)
  then have len: "Suc (length ?xs) = m" unfolding c by simp
  have "length ?xs \<le> length (pool n W B)"
    using card_mono [OF _ sub] distinct_card [of ?xs] db distinct_card [OF I(3)] by simp
  then have fu: "length (?x # ?xs) < fuel" using hy.pool_length [OF inv] fuel by simp
  obtain s' where "ops_retire T (?x - sz) t s = Some s'" "reclaimed s' = reclaimed s @ map (\<lambda>y. y - sz) (?x # ?xs)"
    using bsmr_retire_full [OF lib op db bB okb x(3) len fu] old by blast
  with len show ?thesis by (intro exI [of _ s'] exI [of _ "map (\<lambda>y. y - sz) (?x # ?xs)"]) simp
qed

lemma robust:
  assumes s0: "hy.inv hy_idle g0 B0 W0 e s0" and law: "hy_lawful trims T sz ok hy_idle (es @ [HyRetire p t]) s0"
    and len: "length es + 1 < fuel" "e + length es < 2 ^ 63"
    and s: "hy_run T es s0 = Some s"
    and full: "batch_counter (batch s t) + 1 = of_nat m"
    and old: "\<forall>u \<in> (if trims then hu_entered else hu_inside) (hy_after trims es). bs_access s (place s u) < bsmr_min (batch s t) (smr_next s (p + sz))"
  shows "\<exists>s' ps. hy_run T [HyRetire p t] s = Some s' \<and> reclaimed s' = reclaimed s @ ps \<and> p \<in> set ps \<and> length ps = m"
proof -
  note law' = hy_lawful_append [OF law]
  have l0: "length (hu_retired hy_idle) + length es < fuel" using len by (simp add: hy_idle_def)
  obtain g1 B1 W1 e1 where inv: "hy.inv (hy_after trims es) g1 B1 W1 e1 s"
    using hy.run_inv [OF s0 law' [THEN conjunct1] l0 len(2)] s by auto
  have legal: "hy_legal trims sz ok (hy_after trims es) s (HyRetire p t)" using law' s by simp
  have fu: "length (hu_retired (hy_after trims es)) + 1 < fuel"
    using length_hy_retired [of trims hy_idle es] len(1) by (simp add: hy_idle_def)
  have "hu_entered (hy_after trims es) = (if trims then hu_entered else hu_inside) (hy_after trims es)"
    using hy.invD(7) [OF inv] by auto
  from fills_and_frees [OF inv legal fu full old [folded this]] show ?thesis by auto
qed

end

end
