(* ===== verification/Hyaline_OSEL_Safe.thy ===== *)
theory Hyaline_OSEL_Safe
  imports Hyaline_OS Hyaline_Bsmr Hyaline_O_Safe
begin

text \<open>
  Safety, progress and robustness of \<open>HyalineOSELTracker\<close>, used through its own members: with the
  robust single-width library it keeps the contract \<open>hy_bsmr\<close>.  A thread that is alone publishes the
  epoch in the second round of \<open>read\<close> at the latest.
\<close>

definition osel_ops :: "nat \<Rightarrow> u64 \<Rightarrow> hyosel hy_ops" where
  "osel_ops fuel sz = \<lparr>ops_alloc = (\<lambda>p t s. Some (fst (snd (osel_alloc sz t p (s, []))))),
     ops_start = (\<lambda>t s. Some (solo (osel_start_op t) s)),
     ops_read = (\<lambda>a t s. map_option (\<lambda>(v, w). fst w) (osel_read 2 a t (s, []))),
     ops_end = (\<lambda>t s. map_option fst (osel_end_op fuel sz t (s, []))),
     ops_last = (\<lambda>t s. Some (osel_last_end_op t s)),
     ops_retire = (\<lambda>p t s. map_option fst (osel_retire fuel sz p t (s, [])))\<rparr>"

abbreviation osel_run :: "nat \<Rightarrow> u64 \<Rightarrow> hy_event list \<Rightarrow> hyosel \<Rightarrow> hyosel option" where
  "osel_run fuel sz \<equiv> hy_run (osel_ops fuel sz)"

abbreviation osel_lawful :: "nat \<Rightarrow> u64 \<Rightarrow> hy_event list \<Rightarrow> hyosel \<Rightarrow> bool" where
  "osel_lawful fuel sz \<equiv> hy_lawful False (osel_ops fuel sz) sz even_node hy_idle"

section \<open>The contract\<close>

definition osel_fits :: "nat \<Rightarrow> nat \<Rightarrow> nat \<Rightarrow> hyosel \<Rightarrow> bool" where
  "osel_fits k n m s \<longleftrightarrow> osel_SMR_ORDER s = k \<and> osel_SMR_BATCH s = of_nat m \<and> task_num s = n
     \<and> (\<forall>t < n. hos_enter_num (osel_taskData s t) = t)"

abbreviation osel_set_handle :: "nat \<Rightarrow> u64 \<Rightarrow> hyosel \<Rightarrow> hyosel" where
  "osel_set_handle t h \<equiv> osel_set_task t (hos_handle_update (\<lambda>_. h))"

abbreviation osel_set_batch :: "nat \<Rightarrow> bsmr_batch \<Rightarrow> hyosel \<Rightarrow> hyosel" where
  "osel_set_batch t b \<equiv> osel_set_task t (hos_batch_update (\<lambda>_. b))"

lemma osel_set_task_fields:
  "smr_next (osel_set_task t f s) = smr_next s" "smr_link (osel_set_task t f s) = smr_link s"
  "smr_refs (osel_set_task t f s) = smr_refs s" "lbo_head (osel_set_task t f s) = lbo_head s"
  "reclaimed (osel_set_task t f s) = reclaimed s" "task_num (osel_set_task t f s) = task_num s"
  "bs_global (osel_set_task t f s) = bs_global s" "bs_access (osel_set_task t f s) = bs_access s"
  "osel_taskData (osel_set_task t f s) = (osel_taskData s)(t := f (osel_taskData s t))"
  "(\<And>d. hos_enter_num (f d) = hos_enter_num d) \<Longrightarrow> osel_fits k n m (osel_set_task t f s) = osel_fits k n m s"
  by (auto simp: osel_set_task_def osel_fits_def)

interpretation osel_s: one_slot_tasks "oel_free_node sz" sz lbo_head lbo_put_head lbo_rest
  "\<lambda>s j e. EPOCH_GE (bs_access s j) e"
  "\<lambda>fuel i check. lbo_leave_list fuel i 0 check" "\<lambda>fuel. lbo_slots fuel 0" k n m
  "\<lambda>s t. hos_handle (osel_taskData s t)" osel_set_handle "osel_fits k n m" for sz k n m
proof unfold_locales
  fix s s' :: hyosel and t h
  show "lbo_rest s' = lbo_rest s \<Longrightarrow> osel_fits k n m s' = osel_fits k n m s
      \<and> (\<lambda>t. hos_handle (osel_taskData s' t)) = (\<lambda>t. hos_handle (osel_taskData s t))"
    by (cases s, cases s') (simp add: lbo_rest_def osel_fits_def)
  show "same_nodes {} s (osel_set_handle t h s) \<and> reclaimed (osel_set_handle t h s) = reclaimed s
      \<and> lbo_head (osel_set_handle t h s) = lbo_head s
      \<and> (\<lambda>u. hos_handle (osel_taskData (osel_set_handle t h s) u)) = (\<lambda>u. hos_handle (osel_taskData s u))(t := h)
      \<and> osel_fits k n m (osel_set_handle t h s) = osel_fits k n m s
      \<and> (\<lambda>j e. EPOCH_GE (bs_access (osel_set_handle t h s) j) e) = (\<lambda>j e. EPOCH_GE (bs_access s j) e)"
    by (auto simp: osel_set_task_fields same_nodes_def)
qed

lemma osel_kept: "smr_kept s' = smr_kept s \<Longrightarrow> osel_taskData s' = osel_taskData s \<and> lbo_head s' = lbo_head s
  \<and> osel_fits k n m s' = osel_fits k n m s"
  by (cases s, cases s') (simp add: osel_fits_def)

lemma osel_rest: "lbo_rest s' = lbo_rest s \<Longrightarrow> osel_taskData s' = osel_taskData (s :: hyosel) \<and> hb_epochs s' = hb_epochs s"
  by (cases s, cases s') (simp add: lbo_rest_def)

lemma hos_same_num: "hos_enter_num d = t \<Longrightarrow> d\<lparr>hos_enter_num := t, hos_handle := h\<rparr> = d\<lparr>hos_handle := h\<rparr>"
  by (cases d) simp

text \<open>\<open>init_node\<close> and \<open>deref\<close> of a thread that is alone.\<close>

lemma bsmr_init_node_alone:
  "\<exists>s'. bsmr_init_node x c freq (s, []) = (c + 1, (s', []))
    \<and> (s' = smr_set_next x (bs_global s) s
       \<or> s' = smr_set_next x (bs_global s + 1) (bs_set_global (bs_global s + 1) s))"
  by (simp add: bsmr_init_node_def fetch_add_def world_simps Let_def)

lemma lbo_deref_alone:
  "lbo_deref 2 t rd (s, []) = Some (rd (if bs_access s t = bs_global s then s else bs_set_access t (bs_global s) s),
     (bs_set_access t (bs_global s) s, []))"
proof -
  have "bs_set_access t (bs_global s) s = s" if "bs_access s t = bs_global s"
    using that by (cases s) (simp add: bs_set_access_def fun_upd_idem)
  then show ?thesis
    by (simp add: numeral_2_eq_2 lbo_deref_def lbo_access_def load_alone store_alone bs_set_access_def)
qed

interpretation osel_t: hy_bsmr "osel_ops fuel sz" n m sz even_node fuel False k "lbo_retire_batch fuel (oel_free_node sz) 0"
  "\<lambda>s t. hos_batch (osel_taskData s t)" osel_set_batch "\<lambda>A D. osel_s.lib k n m A" n False "\<lambda>s t. t" for fuel sz n m k
proof unfold_locales
  fix A D g B and s s' :: hyosel and t b X p x a e
  assume lib: "osel_s.lib k n m A g B s"
  note I = osel_s.libD [OF lib]
  have fit: "osel_SMR_ORDER s = k" "osel_SMR_BATCH s = of_nat m" "task_num s = n"
    "\<And>u. u < n \<Longrightarrow> hos_enter_num (osel_taskData s u) = u" using I(1) by (simp_all add: osel_fits_def)
  show "1 < m \<and> m < 2 ^ 64" using I(4-6) by linarith
  show "A \<subseteq> {..<n} \<and> task_num s = n" using I(7) fit(3) by blast
  show "osel_s.lib k n m A g B (osel_set_batch t bt s)" for bt
    by (rule osel_s.lib_self [OF lib]) (use I(1) in \<open>simp_all add: same_nodes_def osel_set_task_fields\<close>)
  show "osel_s.lib k n m A g B s'" if "same_nodes X s s'" "X \<inter> set (concat B) = {}" "smr_kept s' = smr_kept s"
    by (rule osel_s.lib_keep [OF lib that(1,2)]) (use osel_kept [OF that(3)] I(1) in simp_all)
  show "osel_s.lib k n m A g B (bs_set_access t v s)" for v
    by (rule osel_s.lib_self [OF lib]) (use I(1) in \<open>simp_all add: same_nodes_def bs_set_access_def osel_fits_def\<close>)
  show "\<exists>s'. ops_alloc (osel_ops fuel sz) (x - sz) t s = Some s' \<and> same_nodes {x} s s' \<and> reclaimed s' = reclaimed s
      \<and> (\<lambda>t. hos_batch (osel_taskData s' t)) = (\<lambda>t. hos_batch (osel_taskData s t)) \<and> (\<lambda>t. t) = (\<lambda>t. t)
      \<and> osel_s.lib k n m A g B s' \<and> bs_access s' = bs_access s
      \<and> (bs_global s' = bs_global s \<or> bs_global s' = bs_global s + 1) \<and> smr_next s' x = bs_global s'"
    if h: "t < n" "x \<notin> set (concat B)"
  proof -
    let ?c = "hos_counter (osel_taskData s t)"
    obtain s1 where s1: "bsmr_init_node x ?c (osel_SMR_EFREQ s) (s, []) = (?c + 1, (s1, []))"
      "s1 = smr_set_next x (bs_global s) s \<or> s1 = smr_set_next x (bs_global s + 1) (bs_set_global (bs_global s + 1) s)"
      using bsmr_init_node_alone by blast
    let ?s' = "osel_set_task t (hos_counter_update (\<lambda>_. ?c + 1)) s1"
    have "ops_alloc (osel_ops fuel sz) (x - sz) t s = Some ?s'"
      using s1(1) by (simp add: osel_ops_def osel_alloc_def own_alone)
    moreover have f: "same_nodes {x} s ?s'" "reclaimed ?s' = reclaimed s" "lbo_head ?s' = lbo_head s"
      "bs_access ?s' = bs_access s" "bs_global ?s' = bs_global s \<or> bs_global ?s' = bs_global s + 1"
      "smr_next ?s' x = bs_global ?s'" "osel_fits k n m ?s' = osel_fits k n m s"
      "\<And>u. hos_batch (osel_taskData ?s' u) = hos_batch (osel_taskData s u)"
      "\<And>u. hos_handle (osel_taskData ?s' u) = hos_handle (osel_taskData s u)"
      using s1(2) by (auto simp: same_nodes_def osel_set_task_def smr_set_next_def bs_set_global_def osel_fits_def)
    moreover have "osel_s.lib k n m A g B ?s'"
      by (rule osel_s.lib_keep [OF lib f(1)]) (use h(2) f I(1) in simp_all)
    ultimately show ?thesis by (intro exI [of _ ?s']) simp
  qed
  show "\<exists>s' g'. ops_start (osel_ops fuel sz) t s = Some s' \<and> same_nodes {} s s' \<and> reclaimed s' = reclaimed s
      \<and> (\<lambda>t'. hos_batch (osel_taskData s' t')) = (\<lambda>t'. hos_batch (osel_taskData s t')) \<and> (\<forall>u. \<not> (False \<and> u = t) \<longrightarrow> u = u) \<and> hb_epochs s' = hb_epochs s
      \<and> osel_s.lib k n m (insert t A) g' B s' \<and> (\<forall>u \<in> A. \<forall>b \<in> set B. g u b \<longrightarrow> g' u b)"
    if t: "t < n" "t \<notin> D" "False \<or> t \<notin> A"
  proof -
    let ?s = "osel_set_handle t 0 (lbo_put_head t 1 s)"
    have "solo (osel_start_op t) s = ?s" using fit(4) [OF t(1)]
      by (simp add: osel_start_op_def lbo_enter_def store_alone own_alone osel_set_task_def lbo_put_head_def hos_same_num)
    moreover obtain g' where "osel_s.lib k n m (insert t A) g' B ?s" "\<forall>u \<in> A. \<forall>b. g u b \<longrightarrow> g' u b"
      using osel_s.lib_enter [OF lib t(1)] t(3) by blast
    ultimately show ?thesis
      by (intro exI [of _ ?s] exI [of _ g']) (auto simp: osel_ops_def same_nodes_def osel_set_task_def lbo_put_head_def)
  qed
  show "ops_read (osel_ops fuel sz) a t s = Some (bs_set_access t (bs_global s) s)" if "t \<in> A"
    using fit(4) [of t] that I(7) by (auto simp: osel_ops_def osel_read_def lbo_deref_alone)
  show "\<exists>s' g' B' F. ops_end (osel_ops fuel sz) t s = Some s' \<and> osel_s.lib k n m (if False then A else A - {t}) g' B' s'
      \<and> same_nodes (set (concat B)) s s' \<and> (\<lambda>t. hos_batch (osel_taskData s' t)) = (\<lambda>t. hos_batch (osel_taskData s t)) \<and> (\<lambda>t. t) = (\<lambda>t. t)
      \<and> hb_epochs s' = hb_epochs s \<and> hy_drop sz (A - {t}) g B s g' B' F s'"
    if t: "t \<in> A" and ok: "\<forall>x \<in> set (concat B). even_node x \<and> x \<noteq> sz" and len: "length (concat B) < fuel"
  proof -
    have ok: "\<forall>x \<in> set (concat B). x \<noteq> sz" and ck: "\<forall>x. LF_DONTCHECK x" using ok by (simp_all add: LF_DONTCHECK_def)
    have tn: "t < n" using t I(7) by blast
    obtain s' g' B' F where r: "smr_leave fuel (lbo_leave_list fuel t 0 LF_DONTCHECK (hos_handle (osel_taskData s t)))
        (oel_free_node sz) 0 (s, []) = Some (True, (s', []))" "osel_s.lib k n m (A - {t}) g' B' s'"
      "same_nodes (set (concat B)) s s'" "lbo_rest s' = lbo_rest s" "hy_drop sz (A - {t}) g B s g' B' F s'"
      using osel_s.lib_leave [OF lib t ok ck len] by blast
    have "ops_end (osel_ops fuel sz) t s = Some s'"
      using r(1) fit(4) [OF tn] by (simp add: osel_ops_def osel_end_op_def lbo_leave_def bsmr_leave_eq)
    with r(2,3,5) osel_rest [OF r(4)] show ?thesis by auto
  qed
  show "\<exists>s' g' B' F. ops_last (osel_ops fuel sz) t s = Some s' \<and> osel_s.lib k n m (A - {t}) g' B' s'
      \<and> same_nodes (set (concat B)) s s' \<and> (\<lambda>t. hos_batch (osel_taskData s' t)) = (\<lambda>t. hos_batch (osel_taskData s t)) \<and> (\<lambda>t. t) = (\<lambda>t. t)
      \<and> hb_epochs s' = hb_epochs s \<and> hy_drop sz (A - {t}) g B s g' B' F s'" if "False \<longleftrightarrow> t \<in> A"
    by (intro exI [of _ s] exI [of _ g] exI [of _ B] exI [of _ "[]"])
      (use that lib in \<open>simp add: osel_ops_def osel_last_end_op_def hy_drop_def\<close>)
  show "\<exists>s'. lbo_retire_batch fuel (oel_free_node sz) 0 k (hd b) e (s, []) = Some (True, (s', []))
      \<and> same_nodes (set b \<union> set (concat B)) s s' \<and> (\<lambda>t. hos_batch (osel_taskData s' t)) = (\<lambda>t. hos_batch (osel_taskData s t)) \<and> (\<lambda>t. t) = (\<lambda>t. t)
      \<and> hb_epochs s' = hb_epochs s
      \<and> (if \<exists>u \<in> A. EPOCH_GE (bs_access s u) e
         then reclaimed s' = reclaimed s \<and> (\<exists>g'. osel_s.lib k n m A g' (b # B) s'
           \<and> (\<forall>u \<in> A. (EPOCH_GE (bs_access s u) e \<longrightarrow> g' u b) \<and> (\<forall>c \<in> set B. g u c \<longrightarrow> g' u c)))
         else reclaimed s' = reclaimed s @ map (\<lambda>x. x - sz) b \<and> osel_s.lib k n m A g B s')"
    if b: "batch_ok s b" "smr_refs s (last b) = 0" "distinct b" "set b \<inter> set (concat B) = {}"
      "\<forall>x \<in> set b. even_node x \<and> x \<noteq> sz" "length b = m" "length b < fuel"
  proof -
    have okb: "\<forall>x \<in> set b. x \<noteq> 0 \<and> x AND 1 = 0 \<and> x \<noteq> sz" using b(5) by (simp add: even_node_def)
    obtain s' where r: "osel.slot.retire_batch sz fuel e k (hd b) (s, []) = Some (True, (s', []))" "same_nodes (set b) s s'"
      "lbo_rest s' = lbo_rest s"
      "if \<exists>u \<in> A. EPOCH_GE (bs_access s u) e then reclaimed s' = reclaimed s
         \<and> (\<exists>g'. osel_s.lib k n m A g' (b # B) s'
           \<and> (\<forall>u \<in> A. (EPOCH_GE (bs_access s u) e \<longrightarrow> g' u b) \<and> (\<forall>c \<in> set B. g u c \<longrightarrow> g' u c)))
       else reclaimed s' = reclaimed s @ map (\<lambda>x. x - sz) b \<and> osel_s.lib k n m A g B s'"
      using osel_s.lib_retire [OF lib b(1-4) okb b(6,7), of e] by blast
    have "same_nodes (set b \<union> set (concat B)) s s'" by (rule same_nodes_mono [OF r(2)]) blast
    with r(1,4) osel_rest [OF r(3)] show ?thesis unfolding osel.lbo_retire_batch_eq
      by (intro exI [of _ s'] conjI) simp_all
  qed
  show "ops_retire (osel_ops fuel sz) p t s = map_option (\<lambda>(ok, bt, w). osel_set_batch t bt (fst w))
        (bsmr_retire (lbo_retire_batch fuel (oel_free_node sz) 0) k (p + sz) 0 (hos_batch (osel_taskData s t)) (of_nat m) (s, []))"
    if "p \<noteq> nullptr"
    using that fit(1,2)
    by (simp add: osel_ops_def osel_retire_def lbo_retire_def option.map_comp) (auto intro!: option.map_cong)
next
  show "osel_s.lib k n m {} g B s \<Longrightarrow> B = []" for g B s by (rule osel_s.lib_idle)
  show "even_node x \<Longrightarrow> x \<noteq> 0" for x by (simp add: even_node_def)
  show "same_nodes {} s (osel_set_batch t bt s) \<and> reclaimed (osel_set_batch t bt s) = reclaimed s
      \<and> (\<lambda>t'. hos_batch (osel_taskData (osel_set_batch t bt s) t')) = (\<lambda>t'. hos_batch (osel_taskData s t'))(t := bt) \<and> (\<lambda>t. t) = (\<lambda>t. t)
      \<and> hb_epochs (osel_set_batch t bt s) = hb_epochs s"
    for s t bt by (auto simp: same_nodes_def osel_set_task_fields)
  show "smr_kept s' = smr_kept s \<Longrightarrow> (\<lambda>t. hos_batch (osel_taskData s' t)) = (\<lambda>t. hos_batch (osel_taskData s t))" for s' s :: hyosel
    using osel_kept [of s' s] by simp
  show "(\<lambda>u. hos_batch (osel_taskData (bs_set_access t v s) u)) = (\<lambda>u. hos_batch (osel_taskData s u))" for t v s
    by (simp add: bs_set_access_def)
qed simp_all

lemma lbo_init_from_run:
  "lbo_init_from js s = s\<lparr>lbo_head := (\<lambda>i. if i \<in> set js then 0 else lbo_head s i),
     bs_access := (\<lambda>i. if i \<in> set js then 0 else bs_access s i)\<rparr>"
  by (induction js arbitrary: s)
    (auto simp: lbo_put_head_def bs_set_access_def fun_eq_iff intro!: lfbsmro.fold_congs bsmr.fold_congs)

lemma osel_new_inv:
  assumes n: "0 < n" "n < 2 ^ 31" and e: "emptyFreq < 2 ^ 31"
  shows "osel_t.hy.inv n sz (calc_next_log2 (of_nat n)) (nat (max emptyFreq (int n + 1))) hy_idle
     (\<lambda>u b. set [] \<inter> set b \<noteq> {}) [] (\<lambda>_. []) 0 (osel_new n epochFreq emptyFreq collect cnt mem nx lk rf gl0 ac0 hd0 td)"
proof -
  let ?s = "osel_new n epochFreq emptyFreq collect cnt mem nx lk rf gl0 ac0 hd0 td" let ?k = "calc_next_log2 (of_nat n)"
  let ?m = "nat (max emptyFreq (int n + 1))"
  note k = slots_for_threads [OF n]
  have fld: "osel_SMR_ORDER ?s = ?k" "task_num ?s = n" "reclaimed ?s = []"
    "osel_SMR_BATCH ?s = of_int (if int n < emptyFreq then emptyFreq else int n + 1)"
    "lbo_head ?s = (\<lambda>i. if i < 2 ^ ?k then 0 else hd0 i)" "bs_access ?s = (\<lambda>i. if i < 2 ^ ?k then 0 else ac0 i)"
    "bs_global ?s = 0"
    "osel_taskData ?s = (\<lambda>i. if i < n
        then (td i)\<lparr>hos_counter := 0, hos_enter_num := i AND (2 ^ ?k - 1), hos_batch := bsmr_batch_init (hos_batch (td i))\<rparr>
        else td i)"
    by (simp_all add: osel_new_def lbo_init_def bs_set_global_def lbo_init_from_run base_new_def base.defs Let_def
        atLeast0LessThan cong: if_cong)
  have mx: "(if int n < emptyFreq then emptyFreq else int n + 1) = int ?m" by simp
  have m: "osel_SMR_BATCH ?s = of_nat ?m" unfolding fld(4) mx by (rule of_int_of_nat_eq)
  have m': "n < ?m" "?m < 2 ^ 64" using n e by simp_all
  have "osel_fits ?k n ?m ?s" using m k(4) by (simp add: osel_fits_def fld)
  then have lib: "osel_s.lib ?k n ?m {} (\<lambda>u b. set [] \<inter> set b \<noteq> {}) [] ?s"
    using k(1,3) n(1) m' by (intro osel_s.lib_start) (simp_all add: fld)
  moreover have "osel_t.epochs n 0 ?s" using k(1) by (simp add: osel_t.epochs_def fld)
  ultimately show ?thesis
    by (intro osel_t.hy.init conjI fld(3))
      (use m' in \<open>simp_all add: fld osel_t.Open_def open_ok_def bsmr_batch_init_def smr_batch.defs\<close>)
qed

section \<open>Safety, progress and robustness\<close>

definition hos_td0 :: "nat \<Rightarrow> hos_task" where
  "hos_td0 t = \<lparr>hos_handle = 0, hos_batch = \<lparr>batch_first = 0, batch_last = 0, batch_counter = 0, batch_min_epoch = 0\<rparr>,
     hos_enter_num = 0, hos_counter = 0\<rparr>"

text \<open>C4: No use after free.  If thread \<open>u\<close> has read any link after an object was allocated and is
  inside an operation when the object is retired, the object is not reclaimed until \<open>u\<close> has ended that
  operation; and every operation of the history returns.  The history is shorter than \<open>2 ^ 63\<close>, the
  epoch at which the comparison of epochs turns around.\<close>

theorem osel_protects:
  assumes "0 < n" "n < 2 ^ 31" "emptyFreq < 2 ^ 31" "0 < epochFreq * int n" "epochFreq * int n < 2 ^ 31"
    and "osel_lawful fuel sz ((es1 @ HyAlloc p t # es2) @ HyRetire p v # es')
      (osel_new n epochFreq emptyFreq collect cnt mem nx lk rf gl0 ac0 hd0 td)"
    and "length es1 + length es2 + length es' + 2 < fuel" "length es1 + length es2 + length es' + 2 < 2 ^ 63"
    and "\<forall>v. HyRetire p v \<notin> set es2" "HyRead a u \<in> set es2"
    and "u \<in> hu_inside (hy_after False (es1 @ HyAlloc p t # es2))" "HyEnd u \<notin> set es'"
  shows "\<exists>s s' ps. osel_run fuel sz (es1 @ HyAlloc p t # es2)
        (osel_new n epochFreq emptyFreq collect cnt mem nx lk rf gl0 ac0 hd0 td) = Some s
     \<and> osel_run fuel sz (HyRetire p v # es') s = Some s'
     \<and> reclaimed s' = reclaimed s @ ps \<and> p \<notin> set ps"
  using osel_t.hy.protects_read [OF osel_new_inv [OF assms(1-3)] assms(6,7) _ _ assms(11,12,9)] assms(8,10)
    by (auto simp: hy_looks_stays)

text \<open>One thread, batches of two: it reads after the first object is born and stays inside.\<close>

abbreviation osel_one :: hyosel where
  "osel_one \<equiv> osel_new 1 1 0 True False (\<lambda>_. 0) (\<lambda>_. 0) (\<lambda>_. 0) (\<lambda>_. 0) 0 (\<lambda>_. 0) (\<lambda>_. 0) hos_td0"

theorem osel_protects_witness:
  "\<exists>s s' ps. osel_run 8 8 ([HyStart 0] @ HyAlloc 16 0 # [HyRead 5 0, HyAlloc 32 0]) osel_one = Some s
     \<and> osel_run 8 8 (HyRetire 16 0 # [HyRetire 32 0]) s = Some s'
     \<and> reclaimed s' = reclaimed s @ ps \<and> (16 :: ptr) \<notin> set ps"
proof (rule osel_protects [where u = 0 and a = 5])
  show "osel_lawful 8 8 (([HyStart 0] @ HyAlloc 16 0 # [HyRead 5 0, HyAlloc 32 0]) @ HyRetire 16 0 # [HyRetire 32 0]) osel_one"
    by code_simp
qed (simp_all add: hy_idle_def)

text \<open>C5: Robustness.  A thread that stays inside without reading does not hold back the objects
  born after its last \<open>read\<close>: if every thread inside has published an epoch below the birth epochs of
  a batch, the \<open>retire\<close> that fills the batch reclaims all of it at once.\<close>

theorem osel_robust:
  assumes "0 < n" "n < 2 ^ 31" "emptyFreq < 2 ^ 31" "0 < epochFreq * int n" "epochFreq * int n < 2 ^ 31"
    and "osel_lawful fuel sz (es @ [HyRetire p t]) (osel_new n epochFreq emptyFreq collect cnt mem nx lk rf gl0 ac0 hd0 td)"
    and "length es + 1 < fuel" "length es < 2 ^ 63"
    and "osel_run fuel sz es (osel_new n epochFreq emptyFreq collect cnt mem nx lk rf gl0 ac0 hd0 td) = Some s"
    and "batch_counter (hos_batch (osel_taskData s t)) + 1 = of_int (max emptyFreq (int n + 1))"
    and "\<forall>u \<in> hu_inside (hy_after False es).
      bs_access s u < bsmr_min (hos_batch (osel_taskData s t)) (bsmr_birth_epoch s (p + sz))"
  shows "\<exists>s' ps. osel_run fuel sz [HyRetire p t] s = Some s' \<and> reclaimed s' = reclaimed s @ ps
     \<and> p \<in> set ps \<and> length ps = nat (max emptyFreq (int n + 1))"
proof -
  have m: "of_int (max emptyFreq (int n + 1)) = (of_nat (nat (max emptyFreq (int n + 1))) :: u64)"
    by (simp add: of_nat_nat)
  show ?thesis
    using osel_t.robust [OF osel_new_inv [OF assms(1-3)] assms(6,7) _ assms(9) assms(10) [unfolded m]] assms(8,11)
    by (simp add: bsmr_birth_epoch_def)
qed

text \<open>The thread is inside and has never read; its two objects are born in the epochs 1 and 2.\<close>

theorem osel_robust_witness:
  "\<exists>s' ps. osel_run 8 8 [HyRetire 24 0]
      (the (osel_run 8 8 [HyStart 0, HyAlloc 8 0, HyAlloc 24 0, HyRetire 8 0] osel_one)) = Some s'
    \<and> reclaimed s' = reclaimed (the (osel_run 8 8 [HyStart 0, HyAlloc 8 0, HyAlloc 24 0, HyRetire 8 0] osel_one)) @ ps
    \<and> (24 :: ptr) \<in> set ps \<and> length ps = 2"
proof -
  let ?es = "[HyStart 0, HyAlloc 8 0, HyAlloc 24 0, HyRetire 8 0]"
  have "\<not> Option.is_none (osel_run 8 8 ?es osel_one)" by code_simp
  then have run: "osel_run 8 8 ?es osel_one = Some (the (osel_run 8 8 ?es osel_one))" by (simp add: Option.is_none_def)
  have law: "osel_lawful 8 8 (?es @ [HyRetire 24 0]) osel_one" by code_simp
  have c: "batch_counter (hos_batch (osel_taskData (the (osel_run 8 8 ?es osel_one)) 0)) + 1 = of_int (max 0 (int 1 + 1))"
    by code_simp
  have b: "bs_access (the (osel_run 8 8 ?es osel_one)) 0
     < bsmr_min (hos_batch (osel_taskData (the (osel_run 8 8 ?es osel_one)) 0)) (bsmr_birth_epoch (the (osel_run 8 8 ?es osel_one)) (24 + 8))"
    by code_simp
  show ?thesis using osel_robust [OF _ _ _ _ _ law _ _ run c] b by (simp add: hy_idle_def)
qed

end
