(* ===== verification/Hyaline_OSTR_Safe.thy ===== *)
theory Hyaline_OSTR_Safe
  imports Hyaline_OSEL_Safe
begin

text \<open>
  Safety and progress of \<open>HyalineOSTRTracker\<close>, used through its own members: a thread enters the robust
  library with its first operation, trims its slot after every operation and leaves with
  \<open>last_end_op\<close>.
\<close>

definition ostr_ops :: "nat \<Rightarrow> u64 \<Rightarrow> hyostr hy_ops" where
  "ostr_ops fuel sz = \<lparr>ops_alloc = (\<lambda>p t s. Some (fst (snd (ostr_alloc sz t p (s, []))))),
     ops_start = (\<lambda>t s. Some (solo (ostr_start_op t) s)),
     ops_read = (\<lambda>a t s. map_option (\<lambda>(v, w). fst w) (ostr_read 2 a t (s, []))),
     ops_end = (\<lambda>t s. map_option fst (ostr_end_op fuel sz t (s, []))),
     ops_last = (\<lambda>t s. map_option fst (ostr_last_end_op fuel sz t (s, []))),
     ops_retire = (\<lambda>p t s. map_option fst (ostr_retire fuel sz p t (s, [])))\<rparr>"

abbreviation ostr_run :: "nat \<Rightarrow> u64 \<Rightarrow> hy_event list \<Rightarrow> hyostr \<Rightarrow> hyostr option" where
  "ostr_run fuel sz \<equiv> hy_run (ostr_ops fuel sz)"

abbreviation ostr_lawful :: "nat \<Rightarrow> u64 \<Rightarrow> hy_event list \<Rightarrow> hyostr \<Rightarrow> bool" where
  "ostr_lawful fuel sz \<equiv> hy_lawful True (ostr_ops fuel sz) sz even_node hy_idle"

section \<open>The contract\<close>

definition ostr_fits :: "nat \<Rightarrow> nat \<Rightarrow> nat \<Rightarrow> hyostr \<Rightarrow> bool" where
  "ostr_fits k n m s \<longleftrightarrow> ostr_SMR_ORDER s = k \<and> ostr_SMR_BATCH s = of_nat m \<and> task_num s = n
     \<and> (\<forall>t < n. hos_enter_num (ostr_taskData s t) = t)"

abbreviation ostr_set_handle :: "nat \<Rightarrow> u64 \<Rightarrow> hyostr \<Rightarrow> hyostr" where
  "ostr_set_handle t h \<equiv> ostr_set_task t (hos_handle_update (\<lambda>_. h))"

abbreviation ostr_set_batch :: "nat \<Rightarrow> bsmr_batch \<Rightarrow> hyostr \<Rightarrow> hyostr" where
  "ostr_set_batch t b \<equiv> ostr_set_task t (hos_batch_update (\<lambda>_. b))"

lemma ostr_set_task_fields:
  "smr_next (ostr_set_task t f s) = smr_next s" "smr_link (ostr_set_task t f s) = smr_link s"
  "smr_refs (ostr_set_task t f s) = smr_refs s" "lbo_head (ostr_set_task t f s) = lbo_head s"
  "reclaimed (ostr_set_task t f s) = reclaimed s" "task_num (ostr_set_task t f s) = task_num s"
  "bs_global (ostr_set_task t f s) = bs_global s" "bs_access (ostr_set_task t f s) = bs_access s"
  "ostr_taskData (ostr_set_task t f s) = (ostr_taskData s)(t := f (ostr_taskData s t))"
  "(\<And>d. hos_enter_num (f d) = hos_enter_num d) \<Longrightarrow> ostr_fits k n m (ostr_set_task t f s) = ostr_fits k n m s"
  by (auto simp: ostr_set_task_def ostr_fits_def)

interpretation ostr_s: one_slot_tasks "oel_free_node sz" sz lbo_head lbo_put_head lbo_rest
  "\<lambda>s j e. EPOCH_GE (bs_access s j) e"
  "\<lambda>fuel i check. lbo_leave_list fuel i 0 check" "\<lambda>fuel. lbo_slots fuel 0" k n m
  "\<lambda>s t. hos_handle (ostr_taskData s t)" ostr_set_handle "ostr_fits k n m" for sz k n m
proof unfold_locales
  fix s s' :: hyostr and t h
  show "lbo_rest s' = lbo_rest s \<Longrightarrow> ostr_fits k n m s' = ostr_fits k n m s
      \<and> (\<lambda>t. hos_handle (ostr_taskData s' t)) = (\<lambda>t. hos_handle (ostr_taskData s t))"
    by (cases s, cases s') (simp add: lbo_rest_def ostr_fits_def)
  show "same_nodes {} s (ostr_set_handle t h s) \<and> reclaimed (ostr_set_handle t h s) = reclaimed s
      \<and> lbo_head (ostr_set_handle t h s) = lbo_head s
      \<and> (\<lambda>u. hos_handle (ostr_taskData (ostr_set_handle t h s) u)) = (\<lambda>u. hos_handle (ostr_taskData s u))(t := h)
      \<and> ostr_fits k n m (ostr_set_handle t h s) = ostr_fits k n m s
      \<and> (\<lambda>j e. EPOCH_GE (bs_access (ostr_set_handle t h s) j) e) = (\<lambda>j e. EPOCH_GE (bs_access s j) e)"
    by (auto simp: ostr_set_task_fields same_nodes_def)
qed

text \<open>A thread that is not in the library and has not left it for good has not started yet.\<close>

definition ostr_first :: "nat \<Rightarrow> nat set \<Rightarrow> nat set \<Rightarrow> hyostr \<Rightarrow> bool" where
  "ostr_first n A D s \<longleftrightarrow> (\<forall>t < n. hos_firstTime (ostr_taskData s t) \<longleftrightarrow> t \<notin> A \<union> D)"

abbreviation ostr_lib :: "nat \<Rightarrow> nat \<Rightarrow> nat \<Rightarrow> nat set \<Rightarrow> nat set \<Rightarrow> (nat \<Rightarrow> ptr list \<Rightarrow> bool) \<Rightarrow> ptr list list \<Rightarrow> hyostr \<Rightarrow> bool" where
  "ostr_lib k n m A D g B s \<equiv> ostr_s.lib k n m A g B s \<and> ostr_first n A D s"

lemma ostr_kept: "smr_kept s' = smr_kept s \<Longrightarrow> ostr_taskData s' = ostr_taskData s \<and> lbo_head s' = lbo_head s
  \<and> ostr_fits k n m s' = ostr_fits k n m s \<and> ostr_first n A D s' = ostr_first n A D s"
  by (cases s, cases s') (simp add: ostr_fits_def ostr_first_def)

lemma ostr_rest: "lbo_rest s' = lbo_rest s \<Longrightarrow> ostr_taskData s' = ostr_taskData (s :: hyostr) \<and> hb_epochs s' = hb_epochs s"
  by (cases s, cases s') (simp add: lbo_rest_def)

text \<open>The two kinds of \<open>start_op\<close>.\<close>

lemma ostr_start:
  assumes lib: "ostr_lib k n m A D g B s" and t: "t < n" "t \<notin> D"
  shows "\<exists>s' g'. solo (ostr_start_op t) s = s' \<and> same_nodes {} s s' \<and> reclaimed s' = reclaimed s
    \<and> (\<forall>u. hos_batch (ostr_taskData s' u) = hos_batch (ostr_taskData s u)) \<and> hb_epochs s' = hb_epochs s
    \<and> ostr_lib k n m (insert t A) D g' B s' \<and> (\<forall>u \<in> A. \<forall>b \<in> set B. g u b \<longrightarrow> g' u b)"
proof (cases "t \<in> A")
  case True
  with lib t(1) have "\<not> hos_firstTime (ostr_taskData s t)" by (simp add: ostr_first_def)
  then have "solo (ostr_start_op t) s = s" by (simp add: ostr_start_op_def)
  with True lib show ?thesis by (intro exI [of _ s] exI [of _ g]) (simp add: insert_absorb)
next
  case False
  with lib t have f: "hos_firstTime (ostr_taskData s t)" by (simp add: ostr_first_def)
  have num: "hos_enter_num (ostr_taskData s t) = t" using ostr_s.libD(1) [of k n m A g B s] lib t(1) by (simp add: ostr_fits_def)
  let ?s1 = "ostr_set_handle t 0 (lbo_put_head t 1 s)"
  let ?s2 = "ostr_set_handle t 0 (ostr_set_task t (hos_firstTime_update (\<lambda>_. False)) (lbo_put_head t 1 s))"
  have run: "solo (ostr_start_op t) s = ?s2"
    using f num by (simp add: ostr_start_op_def lbo_enter_def store_alone own_alone ostr_set_task_def lbo_put_head_def hos_same_num)
  obtain g' where g': "ostr_s.lib k n m (insert t A) g' B ?s1" "\<forall>u \<in> A. \<forall>b. g u b \<longrightarrow> g' u b"
    using ostr_s.lib_enter [of k n m A g B s t] lib t(1) False by blast
  have "ostr_s.lib k n m (insert t A) g' B ?s2"
    by (rule ostr_s.lib_self [OF g'(1)])
      (use ostr_s.libD(1) [OF g'(1)] in \<open>simp_all add: same_nodes_def ostr_set_task_fields\<close>)
  moreover have "ostr_first n (insert t A) D ?s2"
    using lib by (auto simp: ostr_first_def ostr_set_task_def lbo_put_head_def)
  ultimately show ?thesis unfolding run using g'(2)
    by (intro exI [of _ ?s2] exI [of _ g']) (simp add: same_nodes_def ostr_set_task_def lbo_put_head_def)
qed

interpretation ostr_t: hy_bsmr "ostr_ops fuel sz" n m sz even_node fuel True k "lbo_retire_batch fuel (oel_free_node sz) 0"
  "\<lambda>s t. hos_batch (ostr_taskData s t)" ostr_set_batch "ostr_lib k n m" n False "\<lambda>s t. t" for fuel sz n m k
proof unfold_locales
  fix A D g B and s s' :: hyostr and t b X p x a e
  assume both: "ostr_lib k n m A D g B s"
  then have lib: "ostr_s.lib k n m A g B s" and first: "ostr_first n A D s" by blast+
  note I = ostr_s.libD [OF lib]
  have fit: "ostr_SMR_ORDER s = k" "ostr_SMR_BATCH s = of_nat m" "task_num s = n"
    "\<And>u. u < n \<Longrightarrow> hos_enter_num (ostr_taskData s u) = u" using I(1) by (simp_all add: ostr_fits_def)
  show "1 < m \<and> m < 2 ^ 64" using I(4-6) by linarith
  show "A \<subseteq> {..<n} \<and> task_num s = n" using I(7) fit(3) by blast
  show "ostr_lib k n m A D g B (ostr_set_batch t bt s)" for bt
    by (rule conjI, rule ostr_s.lib_self [OF lib])
      (use I(1) first in \<open>auto simp: same_nodes_def ostr_set_task_fields ostr_first_def\<close>)
  show "ostr_lib k n m A D g B s'" if "same_nodes X s s'" "X \<inter> set (concat B) = {}" "smr_kept s' = smr_kept s"
    by (rule conjI, rule ostr_s.lib_keep [OF lib that(1,2)]) (use ostr_kept [OF that(3)] I(1) first in simp_all)
  show "ostr_lib k n m A D g B (bs_set_access t v s)" for v
    by (rule conjI, rule ostr_s.lib_self [OF lib])
      (use I(1) first in \<open>simp_all add: same_nodes_def bs_set_access_def ostr_fits_def ostr_first_def\<close>)
  show "\<exists>s'. ops_alloc (ostr_ops fuel sz) (x - sz) t s = Some s' \<and> same_nodes {x} s s' \<and> reclaimed s' = reclaimed s
      \<and> (\<lambda>t. hos_batch (ostr_taskData s' t)) = (\<lambda>t. hos_batch (ostr_taskData s t)) \<and> (\<lambda>t. t) = (\<lambda>t. t)
      \<and> ostr_lib k n m A D g B s' \<and> bs_access s' = bs_access s
      \<and> (bs_global s' = bs_global s \<or> bs_global s' = bs_global s + 1) \<and> smr_next s' x = bs_global s'"
    if h: "t < n" "x \<notin> set (concat B)"
  proof -
    let ?c = "hos_counter (ostr_taskData s t)"
    obtain s1 where s1: "bsmr_init_node x ?c SMR_OFREQ (s, []) = (?c + 1, (s1, []))"
      "s1 = smr_set_next x (bs_global s) s \<or> s1 = smr_set_next x (bs_global s + 1) (bs_set_global (bs_global s + 1) s)"
      using bsmr_init_node_alone by blast
    let ?s' = "ostr_set_task t (hos_counter_update (\<lambda>_. ?c + 1)) s1"
    have "ops_alloc (ostr_ops fuel sz) (x - sz) t s = Some ?s'"
      using s1(1) by (simp add: ostr_ops_def ostr_alloc_def own_alone)
    moreover have f: "same_nodes {x} s ?s'" "reclaimed ?s' = reclaimed s" "lbo_head ?s' = lbo_head s"
      "bs_access ?s' = bs_access s" "bs_global ?s' = bs_global s \<or> bs_global ?s' = bs_global s + 1"
      "smr_next ?s' x = bs_global ?s'" "ostr_fits k n m ?s' = ostr_fits k n m s"
      "\<And>u. hos_batch (ostr_taskData ?s' u) = hos_batch (ostr_taskData s u)"
      "\<And>u. hos_handle (ostr_taskData ?s' u) = hos_handle (ostr_taskData s u)" "ostr_first n A D ?s' = ostr_first n A D s"
      using s1(2) by (auto simp: same_nodes_def ostr_set_task_def smr_set_next_def bs_set_global_def ostr_fits_def ostr_first_def)
    moreover have "ostr_s.lib k n m A g B ?s'"
      by (rule ostr_s.lib_keep [OF lib f(1)]) (use h(2) f I(1) in simp_all)
    ultimately show ?thesis by (intro exI [of _ ?s']) (simp add: first)
  qed
  show "\<exists>s' g'. ops_start (ostr_ops fuel sz) t s = Some s' \<and> same_nodes {} s s' \<and> reclaimed s' = reclaimed s
      \<and> (\<lambda>t'. hos_batch (ostr_taskData s' t')) = (\<lambda>t'. hos_batch (ostr_taskData s t')) \<and> (\<forall>u. \<not> (False \<and> u = t) \<longrightarrow> u = u) \<and> hb_epochs s' = hb_epochs s
      \<and> ostr_lib k n m (insert t A) D g' B s' \<and> (\<forall>u \<in> A. \<forall>b \<in> set B. g u b \<longrightarrow> g' u b)"
    if td: "t < n" "t \<notin> D"
    using ostr_start [OF both td] by (simp add: ostr_ops_def)
  show "ops_read (ostr_ops fuel sz) a t s = Some (bs_set_access t (bs_global s) s)" if "t \<in> A"
    using fit(4) [of t] that I(7) by (auto simp: ostr_ops_def ostr_read_def lbo_deref_alone)
  have ck: "\<forall>x. LF_DONTCHECK x" by (simp add: LF_DONTCHECK_def)
  show "\<exists>s' g' B' F. ops_end (ostr_ops fuel sz) t s = Some s' \<and> ostr_lib k n m (if True then A else A - {t}) D g' B' s'
      \<and> same_nodes (set (concat B)) s s' \<and> (\<lambda>t. hos_batch (ostr_taskData s' t)) = (\<lambda>t. hos_batch (ostr_taskData s t)) \<and> (\<lambda>t. t) = (\<lambda>t. t)
      \<and> hb_epochs s' = hb_epochs s \<and> hy_drop sz (A - {t}) g B s g' B' F s'"
    if t: "t \<in> A" and okb: "\<forall>x \<in> set (concat B). even_node x \<and> x \<noteq> sz" and len: "length (concat B) < fuel"
  proof -
    have ok: "\<forall>x \<in> set (concat B). x \<noteq> sz" using okb by simp
    have tn: "t < n" using t I(7) by blast
    let ?ent = "\<lambda>w. let (ok, v, h, w) = lbo_enter t w in Some (ok, h, w)"
    have lnk: "lbo_link t (s, []) = (lbo_head s t AND NOT 1, (s, []))" by (simp add: lbo_link_def load_alone)
    have ent: "?ent (s, []) = Some (True, 0, (lbo_put_head t 1 s, []))" for s :: hyostr
      by (simp add: lbo_enter_def store_alone)
    obtain s1 h g' B' F where r: "smr_trim fuel (lbo_link t) (lbo_leave_list fuel t 0 LF_DONTCHECK) ?ent
        (hos_handle (ostr_taskData s t)) (oel_free_node sz) 0 LF_DONTCHECK FLUSH_THRESHOLD (s, []) = Some (True, h, (s1, []))"
      "ostr_s.lib k n m A g' B' (ostr_set_handle t h s1)"
      "same_nodes (set (concat B)) s s1" "lbo_rest s1 = lbo_rest s" "hy_drop sz (A - {t}) g B s g' B' F s1"
      using ostr_s.lib_trim [where lnk = "lbo_link t" and enter = ?ent and s = s, OF lib t ok ck len lnk ent] by blast
    let ?s' = "ostr_set_handle t h s1"
    have td: "ostr_taskData s1 = ostr_taskData s" "hb_epochs s1 = hb_epochs s" using ostr_rest [OF r(4)] by blast+
    have "ops_end (ostr_ops fuel sz) t s = Some ?s'"
      using r(1) fit(4) [OF tn] td(1)
      by (simp add: ostr_ops_def ostr_end_op_def lbo_trim_def lbo_trim_eq own_alone ostr_set_task_def hos_same_num)
    moreover have "ostr_first n A D ?s'" using first td by (simp add: ostr_first_def ostr_set_task_def)
    moreover have "same_nodes (set (concat B)) s ?s'" using r(3) by (simp add: same_nodes_def ostr_set_task_def)
    moreover have "hos_batch (ostr_taskData ?s' u) = hos_batch (ostr_taskData s u)" for u using td by (simp add: ostr_set_task_def)
    moreover have "hy_drop sz (A - {t}) g B s g' B' F ?s'" using r(5) by (simp add: hy_drop_def ostr_set_task_def)
    moreover have "hb_epochs ?s' = hb_epochs s" using td(2) by (simp add: ostr_set_task_fields)
    ultimately show ?thesis using r(2) by auto
  qed
  show "\<exists>s' g' B' F. ops_last (ostr_ops fuel sz) t s = Some s' \<and> ostr_lib k n m (A - {t}) (insert t D) g' B' s'
      \<and> same_nodes (set (concat B)) s s' \<and> (\<lambda>t. hos_batch (ostr_taskData s' t)) = (\<lambda>t. hos_batch (ostr_taskData s t)) \<and> (\<lambda>t. t) = (\<lambda>t. t)
      \<and> hb_epochs s' = hb_epochs s \<and> hy_drop sz (A - {t}) g B s g' B' F s'"
    if t: "True \<longleftrightarrow> t \<in> A" and okb: "\<forall>x \<in> set (concat B). even_node x \<and> x \<noteq> sz" and len: "length (concat B) < fuel"
  proof -
    have ok: "\<forall>x \<in> set (concat B). x \<noteq> sz" using okb by simp
    have tA: "t \<in> A" and tn: "t < n" using t I(7) by blast+
    obtain s' g' B' F where r: "smr_leave fuel (lbo_leave_list fuel t 0 LF_DONTCHECK (hos_handle (ostr_taskData s t)))
        (oel_free_node sz) 0 (s, []) = Some (True, (s', []))" "ostr_s.lib k n m (A - {t}) g' B' s'"
      "same_nodes (set (concat B)) s s'" "lbo_rest s' = lbo_rest s" "hy_drop sz (A - {t}) g B s g' B' F s'"
      using ostr_s.lib_leave [OF lib tA ok ck len] by blast
    have "ops_last (ostr_ops fuel sz) t s = Some s'"
      using r(1) fit(4) [OF tn] by (simp add: ostr_ops_def ostr_last_end_op_def lbo_leave_def bsmr_leave_eq)
    moreover have "ostr_first n (A - {t}) (insert t D) s'" using first ostr_rest [OF r(4)] tA by (auto simp: ostr_first_def)
    ultimately show ?thesis using r(2,3,5) ostr_rest [OF r(4)] by auto
  qed
  show "\<exists>s'. lbo_retire_batch fuel (oel_free_node sz) 0 k (hd b) e (s, []) = Some (True, (s', []))
      \<and> same_nodes (set b \<union> set (concat B)) s s' \<and> (\<lambda>t. hos_batch (ostr_taskData s' t)) = (\<lambda>t. hos_batch (ostr_taskData s t)) \<and> (\<lambda>t. t) = (\<lambda>t. t)
      \<and> hb_epochs s' = hb_epochs s
      \<and> (if \<exists>u \<in> A. EPOCH_GE (bs_access s u) e
         then reclaimed s' = reclaimed s \<and> (\<exists>g'. ostr_lib k n m A D g' (b # B) s'
           \<and> (\<forall>u \<in> A. (EPOCH_GE (bs_access s u) e \<longrightarrow> g' u b) \<and> (\<forall>c \<in> set B. g u c \<longrightarrow> g' u c)))
         else reclaimed s' = reclaimed s @ map (\<lambda>x. x - sz) b \<and> ostr_lib k n m A D g B s')"
    if b: "batch_ok s b" "smr_refs s (last b) = 0" "distinct b" "set b \<inter> set (concat B) = {}"
      "\<forall>x \<in> set b. even_node x \<and> x \<noteq> sz" "length b = m" "length b < fuel"
  proof -
    have okb: "\<forall>x \<in> set b. x \<noteq> 0 \<and> x AND 1 = 0 \<and> x \<noteq> sz" using b(5) by (simp add: even_node_def)
    obtain s' where r: "osel.slot.retire_batch sz fuel e k (hd b) (s, []) = Some (True, (s', []))" "same_nodes (set b) s s'"
      "lbo_rest s' = lbo_rest s"
      "if \<exists>u \<in> A. EPOCH_GE (bs_access s u) e then reclaimed s' = reclaimed s
         \<and> (\<exists>g'. ostr_s.lib k n m A g' (b # B) s'
           \<and> (\<forall>u \<in> A. (EPOCH_GE (bs_access s u) e \<longrightarrow> g' u b) \<and> (\<forall>c \<in> set B. g u c \<longrightarrow> g' u c)))
       else reclaimed s' = reclaimed s @ map (\<lambda>x. x - sz) b \<and> ostr_s.lib k n m A g B s'"
      using ostr_s.lib_retire [OF lib b(1-4) okb b(6,7), of e] by blast
    have "same_nodes (set b \<union> set (concat B)) s s'" by (rule same_nodes_mono [OF r(2)]) blast
    moreover have "ostr_first n A D s'" using first ostr_rest [OF r(3)] by (simp add: ostr_first_def)
    ultimately show ?thesis using r(1,4) ostr_rest [OF r(3)] unfolding osel.lbo_retire_batch_eq
      by (intro exI [of _ s'] conjI) (auto split: if_splits)
  qed
  show "ops_retire (ostr_ops fuel sz) p t s = map_option (\<lambda>(ok, bt, w). ostr_set_batch t bt (fst w))
        (bsmr_retire (lbo_retire_batch fuel (oel_free_node sz) 0) k (p + sz) 0 (hos_batch (ostr_taskData s t)) (of_nat m) (s, []))"
    if "p \<noteq> nullptr"
    using that fit(1,2)
    by (simp add: ostr_ops_def ostr_retire_def lbo_retire_def option.map_comp) (auto intro!: option.map_cong)
next
  show "ostr_lib k n m {} D g B s \<Longrightarrow> B = []" for D g B s using ostr_s.lib_idle by blast
  show "even_node x \<Longrightarrow> x \<noteq> 0" for x by (simp add: even_node_def)
  show "same_nodes {} s (ostr_set_batch t bt s) \<and> reclaimed (ostr_set_batch t bt s) = reclaimed s
      \<and> (\<lambda>t'. hos_batch (ostr_taskData (ostr_set_batch t bt s) t')) = (\<lambda>t'. hos_batch (ostr_taskData s t'))(t := bt) \<and> (\<lambda>t. t) = (\<lambda>t. t)
      \<and> hb_epochs (ostr_set_batch t bt s) = hb_epochs s"
    for s t bt by (auto simp: same_nodes_def ostr_set_task_fields)
  show "smr_kept s' = smr_kept s \<Longrightarrow> (\<lambda>t. hos_batch (ostr_taskData s' t)) = (\<lambda>t. hos_batch (ostr_taskData s t))" for s' s :: hyostr
    using ostr_kept [of s' s 0 0 0 "{}" "{}"] by simp
  show "(\<lambda>u. hos_batch (ostr_taskData (bs_set_access t v s) u)) = (\<lambda>u. hos_batch (ostr_taskData s u))" for t v s
    by (simp add: bs_set_access_def)
qed simp_all

lemma ostr_new_inv:
  assumes n: "0 < n" "n < 2 ^ 31"
  shows "ostr_t.hy.inv n sz (calc_next_log2 (of_nat n)) (if n < 64 then 64 else 2 ^ calc_next_log2 (of_nat n) + 1) hy_idle
     (\<lambda>u b. set [] \<inter> set b \<noteq> {}) [] (\<lambda>_. []) 0 (ostr_new n collect cnt mem nx lk rf gl0 ac0 hd0 td)"
proof -
  let ?s = "ostr_new n collect cnt mem nx lk rf gl0 ac0 hd0 td" let ?k = "calc_next_log2 (of_nat n)"
  let ?m = "if n < 64 then 64 else 2 ^ ?k + 1 :: nat"
  note k = slots_for_threads [OF n]
  have fld: "ostr_SMR_ORDER ?s = ?k" "task_num ?s = n" "reclaimed ?s = []" "ostr_SMR_BATCH ?s = of_nat ?m"
    "lbo_head ?s = (\<lambda>i. if i < 2 ^ ?k then 0 else hd0 i)" "bs_access ?s = (\<lambda>i. if i < 2 ^ ?k then 0 else ac0 i)"
    "bs_global ?s = 0"
    "ostr_taskData ?s = (\<lambda>i. if i < n
        then (td i)\<lparr>hos_counter := 0, hos_firstTime := True, hos_enter_num := i AND (2 ^ ?k - 1),
          hos_batch := bsmr_batch_init (hos_batch (td i))\<rparr>
        else td i)"
    by (simp_all add: ostr_new_def lbo_init_def bs_set_global_def lbo_init_from_run base_new_def base.defs Let_def
        atLeast0LessThan cong: if_cong)
  have m: "n < ?m" "?m < 2 ^ 64" using n k(1,2) by auto
  have "ostr_fits ?k n ?m ?s" using k(4) by (simp add: ostr_fits_def fld)
  then have "ostr_s.lib ?k n ?m {} (\<lambda>u b. set [] \<inter> set b \<noteq> {}) [] ?s"
    using k(1,3) n(1) m by (intro ostr_s.lib_start) (simp_all add: fld)
  moreover have "ostr_first n {} {} ?s" by (simp add: ostr_first_def fld)
  moreover have "ostr_t.epochs n 0 ?s" using k(1) by (simp add: ostr_t.epochs_def fld)
  ultimately show ?thesis
    by (intro ostr_t.hy.init conjI fld(3))
      (use m(1) in \<open>auto simp add: fld ostr_t.Open_def open_ok_def bsmr_batch_init_def smr_batch.defs\<close>)
qed

section \<open>Safety and progress\<close>

text \<open>C6: No use after free with trimming and birth epochs.  If thread \<open>u\<close> has read any link after an
  object was allocated and is inside an operation when the object is retired, the object is not
  reclaimed until \<open>u\<close> has ended that operation; and every operation of the history returns.\<close>

theorem ostr_protects:
  assumes "0 < n" "n < 2 ^ 31"
    and "ostr_lawful fuel sz ((es1 @ HyAlloc p t # es2) @ HyRetire p v # es')
      (ostr_new n collect cnt mem nx lk rf gl0 ac0 hd0 td)"
    and "length es1 + length es2 + length es' + 2 < fuel" "length es1 + length es2 + length es' + 2 < 2 ^ 63"
    and "\<forall>v. HyRetire p v \<notin> set es2" "HyRead a u \<in> set es2"
    and "u \<in> hu_inside (hy_after True (es1 @ HyAlloc p t # es2))" "HyEnd u \<notin> set es'"
  shows "\<exists>s s' ps. ostr_run fuel sz (es1 @ HyAlloc p t # es2)
        (ostr_new n collect cnt mem nx lk rf gl0 ac0 hd0 td) = Some s
     \<and> ostr_run fuel sz (HyRetire p v # es') s = Some s'
     \<and> reclaimed s' = reclaimed s @ ps \<and> p \<notin> set ps"
  using ostr_t.hy.protects_read [OF ostr_new_inv [OF assms(1,2)] assms(3,4) _ _ assms(8,9,6)] assms(5,7)
    by (auto simp: hy_looks_stays)

abbreviation ostr_two :: hyostr where
  "ostr_two \<equiv> ostr_new 2 True False (\<lambda>_. 0) (\<lambda>_. 0) (\<lambda>_. 0) (\<lambda>_. 0) 0 (\<lambda>_. 0) (\<lambda>_. 0)
     (\<lambda>t. \<lparr>hos_handle = 0, hos_batch = \<lparr>batch_first = 0, batch_last = 0, batch_counter = 0, batch_min_epoch = 0\<rparr>,
        hos_enter_num = 0, hos_counter = 0, hos_firstTime = False\<rparr>)"

theorem ostr_protects_witness:
  "\<exists>s s' ps. ostr_run 12 8 ([HyStart 0, HyEnd 0, HyStart 0] @ HyAlloc 16 1 # [HyRead 5 0]) ostr_two = Some s
     \<and> ostr_run 12 8 (HyRetire 16 1 # [HyStart 1, HyEnd 1, HyLast 1]) s = Some s'
     \<and> reclaimed s' = reclaimed s @ ps \<and> (16 :: ptr) \<notin> set ps"
proof (rule ostr_protects [where u = 0 and a = 5])
  show "ostr_lawful 12 8 (([HyStart 0, HyEnd 0, HyStart 0] @ HyAlloc 16 1 # [HyRead 5 0])
      @ HyRetire 16 1 # [HyStart 1, HyEnd 1, HyLast 1]) ostr_two"
    by code_simp
qed (simp_all add: hy_idle_def)

end
