(* ===== verification/Lfbsmr.thy ===== *)
theory Lfbsmr
  imports Bsmr
begin

text \<open>
  \<open>hyaline/bits/lfbsmr_cas2.h\<close> (the library of \<open>lfbsmr.h\<close>): slots shared by threads as in
  \<open>lfsmr_cas2.h\<close>, with an access epoch and a counter per slot that estimates how far its threads
  lag behind.  \<open>A\<close> is the implementation of the \<open>__lfref_*\<close> operations; \<open>lost\<close> says when a weak
  compare-and-swap on an epoch fails without reason.
\<close>

record lfbsmr = bsmr +
  lbs_head :: "nat \<Rightarrow> u128"
  lbs_counter :: "nat \<Rightarrow> u64"

definition lbs_put_head :: "nat \<Rightarrow> u128 \<Rightarrow> 'a lfbsmr_scheme \<Rightarrow> 'a lfbsmr_scheme" where
  "lbs_put_head i v s = s\<lparr>lbs_head := (lbs_head s)(i := v)\<rparr>"

definition lbs_put_counter :: "nat \<Rightarrow> u64 \<Rightarrow> 'a lfbsmr_scheme \<Rightarrow> 'a lfbsmr_scheme" where
  "lbs_put_counter i v s = s\<lparr>lbs_counter := (lbs_counter s)(i := v)\<rparr>"

type_synonym 'a lbs_atomics = "('a lfbsmr_scheme, u128, u64) lf_atomics"

definition lbs_ptr :: "u128 \<Rightarrow> u64" where
  "lbs_ptr head = ucast (drop_bit lfrptr_shift (head AND NOT lfref_mask))"

definition lbs_refs :: "u128 \<Rightarrow> u64" where
  "lbs_refs head = ucast (drop_bit (lfref_shift TYPE(128)) (head AND lfref_mask))"

definition lbs_addend :: "nat \<Rightarrow> u64" where
  "lbs_addend order = drop_bit order (NOT 0) + 1"

definition STALL_THRESHOLD :: int where
  "STALL_THRESHOLD = 32768"

fun lbs_init_from :: "'a lbs_atomics \<Rightarrow> nat list \<Rightarrow> 'a lfbsmr_scheme world \<Rightarrow> 'a lfbsmr_scheme world" where
  "lbs_init_from A [] w = w"
| "lbs_init_from A (i # js) w =
     lbs_init_from A js (own (lbs_put_counter i 0) (own (bs_set_access i 0) (ref_init A (lbs_put_head i) 0 w)))"

definition lbs_init :: "'a lbs_atomics \<Rightarrow> nat \<Rightarrow> 'a lfbsmr_scheme world \<Rightarrow> 'a lfbsmr_scheme world" where
  "lbs_init A order w = own (bs_set_global 0) (lbs_init_from A [0..<2 ^ order] w)"

definition lbs_link :: "'a lbs_atomics \<Rightarrow> nat \<Rightarrow> 'a lfbsmr_scheme world \<Rightarrow> u64 \<times> 'a lfbsmr_scheme world" where
  "lbs_link A vec w = ref_link A (\<lambda>s. lbs_head s vec) w"

fun lbs_access :: "nat \<Rightarrow> ('a lfbsmr_scheme world \<Rightarrow> bool) \<Rightarrow> nat \<Rightarrow> u64 \<Rightarrow> u64 \<Rightarrow> 'a lfbsmr_scheme world
    \<Rightarrow> (u64 \<times> 'a lfbsmr_scheme world) option" where
  "lbs_access 0 lost vec access epoch w = None"
| "lbs_access (Suc fuel) lost vec access epoch w =
     (let (ok, access, w) = cas_weak lost (\<lambda>s. bs_access s vec) (bs_set_access vec) access epoch w
      in if ok then Some (epoch, w)
         else if EPOCH_GE access epoch then Some (access, w)
         else lbs_access fuel lost vec access epoch w)"

text \<open>\<open>enter\<close> looks for a slot that is not stalled, from \<open>vec\<close> on, and stops before it comes back.\<close>

fun lbs_enter_loop :: "nat \<Rightarrow> 'a lbs_atomics \<Rightarrow> nat \<Rightarrow> nat \<Rightarrow> nat \<Rightarrow> nat \<Rightarrow> 'a lfbsmr_scheme world
    \<Rightarrow> (bool \<times> nat \<times> u64 \<times> 'a lfbsmr_scheme world) option" where
  "lbs_enter_loop 0 A afuel vec order i w = None"
| "lbs_enter_loop (Suc fuel) A afuel vec order i w =
     (let mask = 2 ^ order; j = (i + 1) AND (mask - 1);
          (stop, w) = (if j = vec then (True, w)
                       else let (counter, w) = load (\<lambda>s. lbs_counter s i) w
                            in (sint counter < STALL_THRESHOLD, w))
      in if stop
         then map_option (\<lambda>(head, w). (True, i, lbs_ptr head, w))
                (ref_fetch_add A afuel (\<lambda>s. lbs_head s i) (lbs_put_head i) lfref_step w)
         else lbs_enter_loop fuel A afuel vec order j w)"

definition lbs_enter :: "'a lbs_atomics \<Rightarrow> nat \<Rightarrow> nat \<Rightarrow> nat \<Rightarrow> 'a lfbsmr_scheme world
    \<Rightarrow> (bool \<times> nat \<times> u64 \<times> 'a lfbsmr_scheme world) option" where
  "lbs_enter A fuel order vec w = lbs_enter_loop fuel A fuel vec order vec w"

definition lbs_ack :: "nat \<Rightarrow> u64 \<Rightarrow> 'a lfbsmr_scheme world \<Rightarrow> 'a lfbsmr_scheme world" where
  "lbs_ack vec counter w = snd (rmw (\<lambda>s. (lbs_counter s vec, lbs_put_counter vec (lbs_counter s vec - counter) s)) w)"

fun lbs_leave_loop :: "nat \<Rightarrow> 'a lbs_atomics \<Rightarrow> nat \<Rightarrow> ptr \<Rightarrow> (ptr \<Rightarrow> bool) \<Rightarrow> u64 \<Rightarrow> u64 \<Rightarrow> u128
    \<Rightarrow> 'a lfbsmr_scheme world \<Rightarrow> (bool \<times> u64 \<times> u64 \<times> u128 \<times> u128 \<times> 'a lfbsmr_scheme world) option" where
  "lbs_leave_loop 0 A vec base check smr next lst w = None"
| "lbs_leave_loop (Suc fuel) A vec base check smr next lst w =
     (let cur = lbs_ptr lst in
      if cur \<noteq> smr \<and> \<not> check (bsmr_addr base cur) then Some (False, cur, next, 0, lst, w)
      else let next = (if cur \<noteq> smr then smr_next (fst w) (bsmr_addr base cur) else next);
               head = (lst - lfref_step) AND lfref_mask;
               head = (if \<not> ref_full A \<or> head \<noteq> 0 then head OR (lst AND NOT lfref_mask) else head);
               (ok, lst, w) = ref_cmpxchgref_weak A (\<lambda>s. lbs_head s vec) (lbs_put_head vec) lst head w
           in if ok then Some (True, cur, next, head, lst, w)
              else lbs_leave_loop fuel A vec base check smr next lst w)"

definition lbs_detach :: "nat \<Rightarrow> 'a lbs_atomics \<Rightarrow> nat \<Rightarrow> nat \<Rightarrow> ptr \<Rightarrow> u128 \<Rightarrow> u64 \<Rightarrow> u64
    \<Rightarrow> 'a lfbsmr_scheme world \<Rightarrow> (u64 \<times> 'a lfbsmr_scheme world) option" where
  "lbs_detach fuel A vec order base head start list w =
     (if \<not> ref_full A \<and> start \<noteq> 0 \<and> drop_bit (lfref_shift TYPE(128)) (head AND lfref_mask) = 0
      then case ref_cmpxchgptr_strong A fuel (\<lambda>s. lbs_head s vec) (lbs_put_head vec) head 0 w of
             None \<Rightarrow> None
           | Some (ok, head, w) \<Rightarrow>
               if ok then Some (bsmr_adjust_refs list start (lbs_addend order) base w) else Some (list, w)
      else if head = 0 \<and> start \<noteq> 0 then Some (bsmr_adjust_refs list start (lbs_addend order) base w)
      else Some (list, w))"

definition lbs_leave_list :: "nat \<Rightarrow> 'a lbs_atomics \<Rightarrow> nat \<Rightarrow> nat \<Rightarrow> ptr \<Rightarrow> (ptr \<Rightarrow> bool) \<Rightarrow> u64 \<Rightarrow> u64
    \<Rightarrow> 'a lfbsmr_scheme world \<Rightarrow> (bool \<times> u64 \<times> 'a lfbsmr_scheme world) option" where
  "lbs_leave_list fuel A vec order base check smr list w =
     (let (lst, w) = ref_load A (\<lambda>s. lbs_head s vec) w
      in case lbs_leave_loop fuel A vec base check smr 0 lst w of None \<Rightarrow> None
         | Some (ok, cur, next, head, lst, w) \<Rightarrow>
             if \<not> ok then Some (False, list, w)
             else let start = lbs_ptr lst in
                  case lbs_detach fuel A vec order base head start list w of None \<Rightarrow> None
                  | Some (list, w) \<Rightarrow>
                      if cur \<noteq> smr
                      then map_option (\<lambda>(ok, list, threshold, w). (ok, list, w))
                             (bsmr_traverse fuel (\<lambda>_ _. None) (lbs_ack vec) base check 0 0 list 0 next smr w)
                      else Some (True, list, w))"

text \<open>\<open>deref\<close>: \<open>rd\<close> reads the location \<open>ptr\<close> points to.\<close>

fun lbs_deref_loop :: "nat \<Rightarrow> ('a lfbsmr_scheme world \<Rightarrow> bool) \<Rightarrow> nat \<Rightarrow> nat \<Rightarrow> ('a lfbsmr_scheme \<Rightarrow> u64) \<Rightarrow> u64
    \<Rightarrow> 'a lfbsmr_scheme world \<Rightarrow> (u64 \<times> 'a lfbsmr_scheme world) option" where
  "lbs_deref_loop 0 lost afuel vec rd access w = None"
| "lbs_deref_loop (Suc fuel) lost afuel vec rd access w =
     (let (val, w) = load rd w;
          (global, w) = load bs_global w
      in if access = global then Some (val, w)
         else case lbs_access afuel lost vec access global w of None \<Rightarrow> None
              | Some (access, w) \<Rightarrow> lbs_deref_loop fuel lost afuel vec rd access w)"

definition lbs_deref :: "nat \<Rightarrow> ('a lfbsmr_scheme world \<Rightarrow> bool) \<Rightarrow> nat \<Rightarrow> ('a lfbsmr_scheme \<Rightarrow> u64)
    \<Rightarrow> 'a lfbsmr_scheme world \<Rightarrow> (u64 \<times> 'a lfbsmr_scheme world) option" where
  "lbs_deref fuel lost vec rd w =
     (let (access, w) = load (\<lambda>s. bs_access s vec) w in lbs_deref_loop fuel lost fuel vec rd access w)"

fun lbs_push :: "nat \<Rightarrow> 'a lbs_atomics \<Rightarrow> ptr \<Rightarrow> nat \<Rightarrow> u64 \<Rightarrow> u128 \<Rightarrow> 'a lfbsmr_scheme world
    \<Rightarrow> (bool \<times> u64 \<times> u64 \<times> 'a lfbsmr_scheme world) option" where
  "lbs_push 0 A base i cur lst w = None"
| "lbs_push (Suc fuel) A base i cur lst w =
     (let refs = lbs_refs lst in
      if refs = 0 then Some (False, 0, refs, w)
      else let prev = lbs_ptr lst;
               w = own (smr_set_next (bsmr_addr base cur) prev) w;
               head = (lst AND lfref_mask) OR (push_bit lfrptr_shift (ucast cur) AND NOT lfref_mask);
               (ok, lst, w) = ref_cmpxchgptr_weak A (\<lambda>s. lbs_head s i) (lbs_put_head i) lst head w
           in if ok then Some (True, prev, refs, w) else lbs_push fuel A base i cur lst w)"

fun lbs_slots :: "nat \<Rightarrow> 'a lbs_atomics \<Rightarrow> nat \<Rightarrow> ptr \<Rightarrow> u64 \<Rightarrow> nat list \<Rightarrow> u64 \<Rightarrow> u64 \<Rightarrow> bool \<Rightarrow> u64
    \<Rightarrow> 'a lfbsmr_scheme world \<Rightarrow> (u64 \<times> bool \<times> u64 \<times> 'a lfbsmr_scheme world) option" where
  "lbs_slots fuel A order base epoch [] cur adjs do_adjs list w = Some (adjs, do_adjs, list, w)"
| "lbs_slots fuel A order base epoch (i # js) cur adjs do_adjs list w =
     (let node = bsmr_addr base cur;
          (access, w) = load (\<lambda>s. bs_access s i) w
      in if EPOCH_GE access epoch
         then let (lst, w) = ref_load A (\<lambda>s. lbs_head s i) w
              in case lbs_push fuel A base i cur lst w of None \<Rightarrow> None
                 | Some (pushed, prev, refs, w) \<Rightarrow>
                     if \<not> pushed then lbs_slots fuel A order base epoch js cur (adjs + lbs_addend order) True list w
                     else let (list, w) = (if prev \<noteq> 0 then bsmr_adjust_refs list prev (lbs_addend order + refs) base w
                                           else (list, w));
                              w = snd (rmw (\<lambda>s. (lbs_counter s i, lbs_put_counter i (lbs_counter s i + refs) s)) w)
                          in lbs_slots fuel A order base epoch js (smr_refs (fst w) node) adjs do_adjs list w
         else lbs_slots fuel A order base epoch js cur (adjs + lbs_addend order) True list w)"

definition lbs_retire_batch :: "nat \<Rightarrow> 'a lbs_atomics \<Rightarrow> (ptr \<Rightarrow> 'a lfbsmr_scheme \<Rightarrow> 'a lfbsmr_scheme) \<Rightarrow> ptr \<Rightarrow> nat \<Rightarrow> u64
    \<Rightarrow> u64 \<Rightarrow> 'a lfbsmr_scheme world \<Rightarrow> (bool \<times> 'a lfbsmr_scheme world) option" where
  "lbs_retire_batch fuel A fr base order first epoch w =
     (case lbs_slots fuel A order base epoch [0..<2 ^ order] first 0 False 0 w of None \<Rightarrow> None
      | Some (adjs, do_adjs, list, w) \<Rightarrow>
          let (list, w) = (if do_adjs then bsmr_adjust_refs list first adjs base w else (list, w))
          in map_option (\<lambda>w. (True, w)) (bsmr_free_list fuel list fr base w))"

text \<open>The operations of \<open>lfbsmr_common.h\<close> for this variant.\<close>

definition lbs_leave :: "nat \<Rightarrow> 'a lbs_atomics \<Rightarrow> nat \<Rightarrow> nat \<Rightarrow> u64 \<Rightarrow> (ptr \<Rightarrow> 'a lfbsmr_scheme \<Rightarrow> 'a lfbsmr_scheme) \<Rightarrow> ptr
    \<Rightarrow> (ptr \<Rightarrow> bool) \<Rightarrow> 'a lfbsmr_scheme world \<Rightarrow> (bool \<times> 'a lfbsmr_scheme world) option" where
  "lbs_leave fuel A vec order smr fr base check w =
     bsmr_leave fuel (lbs_leave_list fuel A vec order base check smr) fr base w"

definition lbs_trim :: "nat \<Rightarrow> 'a lbs_atomics \<Rightarrow> nat \<Rightarrow> nat \<Rightarrow> u64 \<Rightarrow> (ptr \<Rightarrow> 'a lfbsmr_scheme \<Rightarrow> 'a lfbsmr_scheme) \<Rightarrow> ptr
    \<Rightarrow> (ptr \<Rightarrow> bool) \<Rightarrow> u64 \<Rightarrow> 'a lfbsmr_scheme world \<Rightarrow> (bool \<times> nat \<times> u64 \<times> 'a lfbsmr_scheme world) option" where
  "lbs_trim fuel A vec order smr fr base check threshold w =
     bsmr_trim fuel (lbs_link A vec) (lbs_leave_list fuel A vec order base check) (lbs_ack vec)
       (lbs_enter A fuel order) vec smr fr base check threshold w"

definition lbs_retire_one :: "nat \<Rightarrow> 'a lbs_atomics \<Rightarrow> ptr \<Rightarrow> (ptr \<Rightarrow> 'a lfbsmr_scheme \<Rightarrow> 'a lfbsmr_scheme) \<Rightarrow> ptr \<Rightarrow> u64
    \<Rightarrow> 'a lfbsmr_scheme world \<Rightarrow> (bool \<times> 'a lfbsmr_scheme world) option" where
  "lbs_retire_one fuel A node fr base epoch w = bsmr_retire_one (lbs_retire_batch fuel A fr base) node base epoch w"

definition lbs_retire :: "nat \<Rightarrow> 'a lbs_atomics \<Rightarrow> nat \<Rightarrow> ptr \<Rightarrow> (ptr \<Rightarrow> 'a lfbsmr_scheme \<Rightarrow> 'a lfbsmr_scheme) \<Rightarrow> ptr
    \<Rightarrow> bsmr_batch \<Rightarrow> u64 \<Rightarrow> 'a lfbsmr_scheme world \<Rightarrow> (bool \<times> bsmr_batch \<times> 'a lfbsmr_scheme world) option" where
  "lbs_retire fuel A order node fr base batch threshold w =
     bsmr_retire (lbs_retire_batch fuel A fr base) order node base batch threshold w"

end
