(* ===== verification/Lfsmr.thy ===== *)
theory Lfsmr
  imports Smr Atomics
begin

text \<open>
  \<open>hyaline/bits/lfsmr_cas2.h\<close> (the library of \<open>lfsmr.h\<close>): a slot is shared by threads; its head is
  a 128-bit word with the number of threads inside in the upper half and the pointer to the
  retirement list in the lower half.  \<open>A\<close> is the implementation of the \<open>__lfref_*\<close> operations.
\<close>

record lfsmr = smr +
  lfs_head :: "nat \<Rightarrow> u128"

definition lfs_put_head :: "nat \<Rightarrow> u128 \<Rightarrow> 'a lfsmr_scheme \<Rightarrow> 'a lfsmr_scheme" where
  "lfs_put_head i v s = s\<lparr>lfs_head := (lfs_head s)(i := v)\<rparr>"

type_synonym 'a lfs_atomics = "('a lfsmr_scheme, u128, u64) lf_atomics"

definition lfs_ptr :: "u128 \<Rightarrow> u64" where
  "lfs_ptr head = ucast (drop_bit lfrptr_shift (head AND NOT lfref_mask))"

definition lfs_refs :: "u128 \<Rightarrow> u64" where
  "lfs_refs head = ucast (drop_bit (lfref_shift TYPE(128)) (head AND lfref_mask))"

definition lfs_addend :: "nat \<Rightarrow> u64" where
  "lfs_addend order = drop_bit order (NOT 0) + 1"

fun lfs_init_from :: "'a lfs_atomics \<Rightarrow> nat list \<Rightarrow> 'a lfsmr_scheme world \<Rightarrow> 'a lfsmr_scheme world" where
  "lfs_init_from A [] w = w"
| "lfs_init_from A (i # js) w = lfs_init_from A js (ref_init A (lfs_put_head i) 0 w)"

definition lfs_init :: "'a lfs_atomics \<Rightarrow> nat \<Rightarrow> 'a lfsmr_scheme world \<Rightarrow> 'a lfsmr_scheme world" where
  "lfs_init A order w = lfs_init_from A [0..<2 ^ order] w"

definition lfs_link :: "'a lfs_atomics \<Rightarrow> nat \<Rightarrow> 'a lfsmr_scheme world \<Rightarrow> u64 \<times> 'a lfsmr_scheme world" where
  "lfs_link A vec w = ref_link A (\<lambda>s. lfs_head s vec) w"

definition lfs_enter :: "'a lfs_atomics \<Rightarrow> nat \<Rightarrow> nat \<Rightarrow> 'a lfsmr_scheme world
    \<Rightarrow> (bool \<times> u64 \<times> 'a lfsmr_scheme world) option" where
  "lfs_enter A fuel vec w =
     map_option (\<lambda>(head, w). (True, lfs_ptr head, w))
       (ref_fetch_add A fuel (\<lambda>s. lfs_head s vec) (lfs_put_head vec) lfref_step w)"

text \<open>The loop of \<open>__leave\<close>: the flag, \<open>curr\<close>, \<open>next\<close>, \<open>head\<close> and \<open>last\<close>.\<close>

fun lfs_leave_loop :: "nat \<Rightarrow> 'a lfs_atomics \<Rightarrow> nat \<Rightarrow> ptr \<Rightarrow> (ptr \<Rightarrow> bool) \<Rightarrow> u64 \<Rightarrow> u64 \<Rightarrow> u128
    \<Rightarrow> 'a lfsmr_scheme world \<Rightarrow> (bool \<times> u64 \<times> u64 \<times> u128 \<times> u128 \<times> 'a lfsmr_scheme world) option" where
  "lfs_leave_loop 0 A vec base check smr next lst w = None"
| "lfs_leave_loop (Suc fuel) A vec base check smr next lst w =
     (let cur = lfs_ptr lst in
      if cur \<noteq> smr \<and> \<not> check (smr_addr base cur) then Some (False, cur, next, 0, lst, w)
      else let next = (if cur \<noteq> smr then smr_next (fst w) (smr_addr base cur) else next);
               head = (lst - lfref_step) AND lfref_mask;
               head = (if \<not> ref_full A \<or> head \<noteq> 0 then head OR (lst AND NOT lfref_mask) else head);
               (ok, lst, w) = ref_cmpxchgref_weak A (\<lambda>s. lfs_head s vec) (lfs_put_head vec) lst head w
           in if ok then Some (True, cur, next, head, lst, w)
              else lfs_leave_loop fuel A vec base check smr next lst w)"

text \<open>The step after the loop: the last thread of the slot detaches the list and drops the
  reference of the slot to its first batch.\<close>

definition lfs_detach :: "nat \<Rightarrow> 'a lfs_atomics \<Rightarrow> nat \<Rightarrow> nat \<Rightarrow> ptr \<Rightarrow> u128 \<Rightarrow> u64 \<Rightarrow> u64
    \<Rightarrow> 'a lfsmr_scheme world \<Rightarrow> (u64 \<times> 'a lfsmr_scheme world) option" where
  "lfs_detach fuel A vec order base head start list w =
     (if \<not> ref_full A \<and> start \<noteq> 0 \<and> drop_bit (lfref_shift TYPE(128)) (head AND lfref_mask) = 0
      then case ref_cmpxchgptr_strong A fuel (\<lambda>s. lfs_head s vec) (lfs_put_head vec) head 0 w of
             None \<Rightarrow> None
           | Some (ok, head, w) \<Rightarrow>
               if ok then Some (smr_adjust_refs list start (lfs_addend order) base w) else Some (list, w)
      else if head = 0 \<and> start \<noteq> 0 then Some (smr_adjust_refs list start (lfs_addend order) base w)
      else Some (list, w))"

definition lfs_leave_list :: "nat \<Rightarrow> 'a lfs_atomics \<Rightarrow> nat \<Rightarrow> nat \<Rightarrow> ptr \<Rightarrow> (ptr \<Rightarrow> bool) \<Rightarrow> u64 \<Rightarrow> u64
    \<Rightarrow> 'a lfsmr_scheme world \<Rightarrow> (bool \<times> u64 \<times> 'a lfsmr_scheme world) option" where
  "lfs_leave_list fuel A vec order base check smr list w =
     (let (lst, w) = ref_load A (\<lambda>s. lfs_head s vec) w
      in case lfs_leave_loop fuel A vec base check smr 0 lst w of None \<Rightarrow> None
         | Some (ok, cur, next, head, lst, w) \<Rightarrow>
             if \<not> ok then Some (False, list, w)
             else let start = lfs_ptr lst in
                  case lfs_detach fuel A vec order base head start list w of None \<Rightarrow> None
                  | Some (list, w) \<Rightarrow>
                      if cur \<noteq> smr
                      then map_option (\<lambda>(ok, list, threshold, w). (ok, list, w))
                             (smr_traverse fuel (\<lambda>_ _. None) base check 0 list 0 next smr w)
                      else Some (True, list, w))"

text \<open>\<open>__retire\<close>: the attempts at one slot (inserted or not, \<open>prev\<close>, \<open>refs\<close>), then the slots.\<close>

fun lfs_push :: "nat \<Rightarrow> 'a lfs_atomics \<Rightarrow> ptr \<Rightarrow> nat \<Rightarrow> u64 \<Rightarrow> u128 \<Rightarrow> 'a lfsmr_scheme world
    \<Rightarrow> (bool \<times> u64 \<times> u64 \<times> 'a lfsmr_scheme world) option" where
  "lfs_push 0 A base i cur lst w = None"
| "lfs_push (Suc fuel) A base i cur lst w =
     (let refs = lfs_refs lst in
      if refs = 0 then Some (False, 0, refs, w)
      else let prev = lfs_ptr lst;
               w = own (smr_set_next (smr_addr base cur) prev) w;
               head = (lst AND lfref_mask) OR (push_bit lfrptr_shift (ucast cur) AND NOT lfref_mask);
               (ok, lst, w) = ref_cmpxchgptr_weak A (\<lambda>s. lfs_head s i) (lfs_put_head i) lst head w
           in if ok then Some (True, prev, refs, w) else lfs_push fuel A base i cur lst w)"

fun lfs_slots :: "nat \<Rightarrow> 'a lfs_atomics \<Rightarrow> nat \<Rightarrow> ptr \<Rightarrow> nat list \<Rightarrow> u64 \<Rightarrow> u64 \<Rightarrow> bool \<Rightarrow> u64
    \<Rightarrow> 'a lfsmr_scheme world \<Rightarrow> (u64 \<times> bool \<times> u64 \<times> 'a lfsmr_scheme world) option" where
  "lfs_slots fuel A order base [] cur adjs do_adjs list w = Some (adjs, do_adjs, list, w)"
| "lfs_slots fuel A order base (i # js) cur adjs do_adjs list w =
     (let node = smr_addr base cur;
          (lst, w) = ref_load A (\<lambda>s. lfs_head s i) w
      in case lfs_push fuel A base i cur lst w of None \<Rightarrow> None
         | Some (pushed, prev, refs, w) \<Rightarrow>
             if \<not> pushed then lfs_slots fuel A order base js cur (adjs + lfs_addend order) True list w
             else let (list, w) = (if prev \<noteq> 0 then smr_adjust_refs list prev (lfs_addend order + refs) base w
                                   else (list, w))
                  in lfs_slots fuel A order base js (smr_refs (fst w) node) adjs do_adjs list w)"

definition lfs_retire_batch :: "nat \<Rightarrow> 'a lfs_atomics \<Rightarrow> (ptr \<Rightarrow> 'a lfsmr_scheme \<Rightarrow> 'a lfsmr_scheme) \<Rightarrow> ptr \<Rightarrow> nat \<Rightarrow> u64
    \<Rightarrow> 'a lfsmr_scheme world \<Rightarrow> (bool \<times> 'a lfsmr_scheme world) option" where
  "lfs_retire_batch fuel A fr base order first w =
     (case lfs_slots fuel A order base [0..<2 ^ order] first 0 False 0 w of None \<Rightarrow> None
      | Some (adjs, do_adjs, list, w) \<Rightarrow>
          let (list, w) = (if do_adjs then smr_adjust_refs list first adjs base w else (list, w))
          in map_option (\<lambda>w. (True, w)) (smr_free_list fuel list fr base w))"

text \<open>The operations of \<open>lfsmr_common.h\<close> for this variant.  The \<open>__leave\<close> that \<open>trim\<close> makes has
  the slot's \<open>order\<close>.\<close>

definition lfs_leave :: "nat \<Rightarrow> 'a lfs_atomics \<Rightarrow> nat \<Rightarrow> nat \<Rightarrow> u64 \<Rightarrow> (ptr \<Rightarrow> 'a lfsmr_scheme \<Rightarrow> 'a lfsmr_scheme) \<Rightarrow> ptr
    \<Rightarrow> (ptr \<Rightarrow> bool) \<Rightarrow> 'a lfsmr_scheme world \<Rightarrow> (bool \<times> 'a lfsmr_scheme world) option" where
  "lfs_leave fuel A vec order smr fr base check w =
     smr_leave fuel (lfs_leave_list fuel A vec order base check smr) fr base w"

definition lfs_trim :: "nat \<Rightarrow> 'a lfs_atomics \<Rightarrow> nat \<Rightarrow> nat \<Rightarrow> u64 \<Rightarrow> (ptr \<Rightarrow> 'a lfsmr_scheme \<Rightarrow> 'a lfsmr_scheme) \<Rightarrow> ptr
    \<Rightarrow> (ptr \<Rightarrow> bool) \<Rightarrow> u64 \<Rightarrow> 'a lfsmr_scheme world \<Rightarrow> (bool \<times> u64 \<times> 'a lfsmr_scheme world) option" where
  "lfs_trim fuel A vec order smr fr base check threshold w =
     smr_trim fuel (lfs_link A vec) (lfs_leave_list fuel A vec order base check) (lfs_enter A fuel vec)
       smr fr base check threshold w"

definition lfs_retire_one :: "nat \<Rightarrow> 'a lfs_atomics \<Rightarrow> ptr \<Rightarrow> (ptr \<Rightarrow> 'a lfsmr_scheme \<Rightarrow> 'a lfsmr_scheme) \<Rightarrow> ptr
    \<Rightarrow> 'a lfsmr_scheme world \<Rightarrow> (bool \<times> 'a lfsmr_scheme world) option" where
  "lfs_retire_one fuel A node fr base w = smr_retire_one (lfs_retire_batch fuel A fr base) node base w"

definition lfs_retire :: "nat \<Rightarrow> 'a lfs_atomics \<Rightarrow> nat \<Rightarrow> ptr \<Rightarrow> (ptr \<Rightarrow> 'a lfsmr_scheme \<Rightarrow> 'a lfsmr_scheme) \<Rightarrow> ptr
    \<Rightarrow> smr_batch \<Rightarrow> u64 \<Rightarrow> 'a lfsmr_scheme world \<Rightarrow> (bool \<times> smr_batch \<times> 'a lfsmr_scheme world) option" where
  "lfs_retire fuel A order node fr base batch threshold w =
     smr_retire (lfs_retire_batch fuel A fr base) order node base batch threshold w"

end
