(* ===== verification/Lfsmr_Inv.thy ===== *)
theory Lfsmr_Inv
  imports Lfsmr Smr_Inv
begin

text \<open>
  Correctness of the double-width variant, one operation at a time, for every implementation of the
  \<open>__lfref_*\<close> operations that keeps the contract \<open>lf_words\<close>.  Threads share slots: \<open>slot u\<close> is the
  slot of thread \<open>u\<close>, \<open>A\<close> the set of the threads inside, \<open>H u\<close> the handle of \<open>u\<close>, \<open>K u\<close> the
  nodes \<open>u\<close> will visit when it leaves.  The head of a slot is a node no thread of the slot counts
  yet: the counter of its batch holds \<open>2 ^ 64 - h * addend\<close> for the \<open>h\<close> slots whose head is in it,
  beside the number of the threads that will visit the batch.
\<close>

section \<open>Heads\<close>

definition lfs_mk :: "u64 \<Rightarrow> u64 \<Rightarrow> u128" where
  "lfs_mk r p = wide (ucast r) (ucast p)"

lemma bit_lfs_mk: "bit (lfs_mk r p) i \<longleftrightarrow> (if i < 64 then bit p i else bit r (i - 64))"
  using bit_imp_le_length [of p i] bit_imp_le_length [of r "i - 64"]
  by (auto simp: lfs_mk_def wide_def bit_or_iff bit_push_bit_iff bit_ucast_iff)

lemma lfs_ptr_mk [simp]: "lfs_ptr (lfs_mk r p) = p"
  by (rule bit_word_eqI)
    (auto simp: lfs_ptr_def lfrptr_shift_def low_def bit_lfs_mk bit_ucast_iff bit_take_bit_iff)

lemma lfs_refs_mk [simp]: "lfs_refs (lfs_mk r p) = r"
  by (rule bit_word_eqI)
    (auto simp: lfs_refs_def lfref_shift_def wide_def high_def bit_lfs_mk bit_ucast_iff bit_drop_bit_eq
      bit_push_bit_iff)

lemma lfs_mk_eta: "lfs_mk (lfs_refs h) (lfs_ptr h) = h"
  by (rule bit_word_eqI)
    (auto simp: lfs_refs_def lfs_ptr_def lfrptr_shift_def lfref_shift_def low_def wide_def high_def bit_lfs_mk
      bit_ucast_iff bit_drop_bit_eq bit_push_bit_iff bit_take_bit_iff)

lemma lfs_mk_cases: obtains r p where "h = lfs_mk r p" "lfs_refs h = r" "lfs_ptr h = p"
  using lfs_mk_eta [of h] by metis

lemma lfs_mk_0: "lfs_mk r p = 0 \<longleftrightarrow> r = 0 \<and> p = 0" "lfs_mk 0 0 = 0"
  "lfs_ptr 0 = 0" "lfs_refs 0 = 0"
proof -
  show "lfs_mk 0 0 = 0" by (rule bit_word_eqI) (simp add: bit_lfs_mk)
  then show "lfs_mk r p = 0 \<longleftrightarrow> r = 0 \<and> p = 0" "lfs_ptr 0 = 0" "lfs_refs 0 = 0"
    by (metis lfs_ptr_mk lfs_refs_mk)+
qed

lemma halves_mk: "low (lfs_mk r p) = lfs_mk 0 p" "wide (high (lfs_mk r p)) 0 = lfs_mk r 0"
  "lfs_mk r 0 OR lfs_mk 0 p = lfs_mk r p" "wide (high (lfs_mk r p)) (low (lfs_mk r' p')) = lfs_mk r p'"
  "push_bit lfrptr_shift (ucast p) AND NOT lfref_mask = lfs_mk 0 p"
  by (rule bit_word_eqI; auto simp: low_def wide_def high_def bit_lfs_mk bit_or_iff bit_take_bit_iff
      bit_push_bit_iff bit_drop_bit_eq lfrptr_shift_def bit_ucast_iff dest: bit_imp_le_length)+

lemma lfs_mk_step: "lfs_mk r p + lfref_step = lfs_mk (r + 1) p" "lfs_mk (r + 1) p - lfref_step = lfs_mk r p"
proof -
  have mk: "lfs_mk r p = push_bit 64 (ucast r) + ucast p" for r p
  proof -
    have "push_bit 64 (ucast r :: u128) AND ucast p = 0"
      by (rule bit_word_eqI) (auto simp: bit_and_iff bit_push_bit_iff bit_ucast_iff dest: bit_imp_le_length)
    then show ?thesis by (simp add: lfs_mk_def wide_def disjunctive_add_eq_or)
  qed
  have "push_bit 64 (ucast (r + 1) :: u128) = push_bit 64 (ucast r + 1)"
  proof -
    have t: "take_bit 64 (ucast (r + 1) :: u128) = take_bit 64 (ucast r + 1)"
      by transfer (simp add: take_bit_eq_mod mod_simps)
    have p: "push_bit 64 (take_bit 64 a) = push_bit 64 a" for a :: u128
      by (rule bit_word_eqI) (auto simp: bit_push_bit_iff bit_take_bit_iff)
    show ?thesis using t p by metis
  qed
  also have "\<dots> = push_bit 64 (ucast r) + lfref_step" by (simp add: push_bit_add lfref_step_def)
  finally show "lfs_mk r p + lfref_step = lfs_mk (r + 1) p" by (simp add: mk)
  then show "lfs_mk (r + 1) p - lfref_step = lfs_mk r p" by (simp add: diff_eq_eq)
qed

text \<open>The words of \<open>__leave\<close> that counts a thread out.\<close>

lemma lfs_count_out:
  "(lfs_mk (q + 1) x - lfref_step) AND lfref_mask = lfs_mk q 0" "lfs_mk q 0 OR (lfs_mk (q + 1) x AND NOT lfref_mask) = lfs_mk q x"
  "new_ref full (lfs_mk (q + 1) x) (lfs_mk q x) = lfs_mk q x" "new_ptr False (lfs_mk q x) 0 = lfs_mk q 0"
proof -
  show "(lfs_mk (q + 1) x - lfref_step) AND lfref_mask = lfs_mk q 0"
    unfolding lfs_mk_step by (simp only: and_mask halves_mk)
  show "lfs_mk q 0 OR (lfs_mk (q + 1) x AND NOT lfref_mask) = lfs_mk q x" by (simp only: and_not_mask halves_mk)
  show "new_ref full (lfs_mk (q + 1) x) (lfs_mk q x) = lfs_mk q x" "new_ptr False (lfs_mk q x) 0 = lfs_mk q 0"
    using halves_mk(4) [of q x 0 0] halves_mk(4) [of q x "q + 1" x] unfolding new_ref_def new_ptr_def lfs_mk_0(2) by simp_all
qed

lemma drop_mk: "drop_bit (lfref_shift TYPE(128)) (lfs_mk q 0) = 0 \<longleftrightarrow> q = 0"
proof -
  have "drop_bit (lfref_shift TYPE(128)) (lfs_mk q 0) = ucast q"
    by (rule bit_word_eqI) (auto simp: lfref_shift_def bit_drop_bit_eq bit_lfs_mk bit_ucast_iff dest: bit_imp_le_length)
  then have "drop_bit (lfref_shift TYPE(128)) (lfs_mk q 0) = 0 \<longleftrightarrow> (ucast q :: u128) = 0" by simp
  also have "\<dots> \<longleftrightarrow> q = 0"
    by (metis lfs_mk_0(1) lfs_mk_0(2) lfs_refs_mk lfs_mk_def unsigned_0)
  finally show ?thesis .
qed

section \<open>The share of the heads in a counter\<close>

lemma lfs_addend_eq: "order \<le> 64 \<Longrightarrow> lfs_addend order = of_nat (2 ^ (64 - order))"
proof -
  assume o: "order \<le> 64"
  have "drop_bit order (NOT 0 :: u64) = mask (64 - order)"
    by (rule bit_word_eqI) (use o in \<open>auto simp: bit_drop_bit_eq bit_mask_iff bit_not_iff\<close>)
  then show ?thesis by (simp add: lfs_addend_def mask_eq_exp_minus_1)
qed

definition hold_of :: "nat \<Rightarrow> nat \<Rightarrow> u64 option" where
  "hold_of order h = (if h = 0 then None else Some (- (of_nat h * lfs_addend order)))"

lemma held_hold: "held (hold_of order h) = - (of_nat h * lfs_addend order)" "hold_of order h = None \<longleftrightarrow> h = 0"
  by (simp_all add: hold_of_def held_def)

text \<open>All slots together hold nothing.\<close>

lemma hold_all: "order \<le> 64 \<Longrightarrow> h \<le> 2 ^ order \<Longrightarrow> of_nat (2 ^ order - h) * lfs_addend order = held (hold_of order h)"
proof -
  assume o: "order \<le> 64" "h \<le> 2 ^ order"
  have "(2 :: nat) ^ order * 2 ^ (64 - order) = 2 ^ 64" using o(1) by (simp flip: power_add)
  then have "(of_nat (2 ^ order * 2 ^ (64 - order)) :: u64) = of_nat (2 ^ 64)" by (simp only:)
  then have "(of_nat (2 ^ order) :: u64) * of_nat (2 ^ (64 - order)) = 0" unfolding of_nat_mult by simp
  then show ?thesis using o by (simp add: held_hold lfs_addend_eq of_nat_diff left_diff_distrib)
qed

lemma hold_count:
  assumes o: "order \<le> 64" and h: "h < 2 ^ order" and j: "j < 2 ^ (64 - order)" "0 < j \<or> 0 < h"
  shows "of_nat j + held (hold_of order h) \<noteq> 0" "0 < j \<Longrightarrow> 0 < h \<Longrightarrow> of_nat j + held (hold_of order h) \<noteq> 1"
proof -
  let ?D = "(2 :: nat) ^ (64 - order)"
  have D: "2 ^ order * ?D = 2 ^ 64" using o by (simp flip: power_add)
  have hD: "h * ?D + ?D \<le> 2 ^ 64"
  proof -
    have "Suc h * ?D \<le> 2 ^ order * ?D" using h by (intro mult_right_mono) simp_all
    then show ?thesis unfolding D by simp
  qed
  have jD: "j < 2 ^ 64" using j(1) power_increasing [of "64 - order" 64 "2 :: nat"] by simp
  have e: "of_nat j + held (hold_of order h) = of_nat j - (of_nat (h * ?D) :: u64)"
    by (simp add: held_hold lfs_addend_eq [OF o])
  have pos: "0 < ?D" by simp
  show "of_nat j + held (hold_of order h) \<noteq> 0"
  proof
    assume "of_nat j + held (hold_of order h) = 0"
    then have "of_nat j = (of_nat (h * ?D) :: u64)" unfolding e by simp
    moreover have "h * ?D < 2 ^ 64" using hD pos by linarith
    ultimately have jh: "j = h * ?D" using jD of_nat_eq_small [of j "h * ?D"] by (simp del: of_nat_mult)
    show False
    proof (cases h)
      case 0
      with jh j(2) show ?thesis by simp
    next
      case (Suc h')
      with jh j(1) show ?thesis by simp
    qed
  qed
  assume p: "0 < j" "0 < h"
  show "of_nat j + held (hold_of order h) \<noteq> 1"
  proof
    assume "of_nat j + held (hold_of order h) = 1"
    then have "of_nat j = (of_nat (h * ?D + 1) :: u64)" unfolding e by (simp add: diff_eq_eq add.commute)
    moreover have "h * ?D + 1 < 2 ^ 64" using hD j(1) p(1) by linarith
    ultimately have "j = h * ?D + 1" using jD of_nat_eq_small [of j "h * ?D + 1"] by (simp del: of_nat_mult of_nat_add)
    moreover have "1 * ?D \<le> h * ?D" using p(2) by (intro mult_right_mono) simp_all
    ultimately show False using j(1) by linarith
  qed
qed

lemma hold_stays:
  assumes "order \<le> 64" "h \<le> 2 ^ order" "h = 2 ^ order \<Longrightarrow> k = 0" "k < 2 ^ (64 - order)"
  shows "stays (hold_of order h) k" "0 < k \<Longrightarrow> of_nat k + held (hold_of order h) \<noteq> 0"
proof -
  have h: "h < 2 ^ order" if "0 < k" using that assms(2,3) by (cases "h = 2 ^ order") auto
  show "stays (hold_of order h) k"
    unfolding stays_def
  proof (intro allI impI)
    fix v j assume v: "hold_of order h = Some v" and j: "0 < j" "j \<le> k"
    have "0 < h" using v by (simp add: hold_of_def split: if_splits)
    moreover have "h < 2 ^ order" by (rule h) (use j in simp)
    moreover have "held (hold_of order h) = v" using v by (simp add: held_def)
    ultimately show "of_nat j + v \<noteq> 1" using hold_count(2) [OF assms(1), of h j] j assms(4) by simp
  qed
  show "0 < k \<Longrightarrow> of_nat k + held (hold_of order h) \<noteq> 0"
    using hold_count(1) [OF assms(1) h assms(4)] by simp
qed

section \<open>The invariant\<close>

definition lfs_heads :: "nat \<Rightarrow> 'a lfsmr_scheme \<Rightarrow> ptr list \<Rightarrow> nat" where
  "lfs_heads order s b = card {i. i < 2 ^ order \<and> lfs_ptr (lfs_head s i) \<in> set b}"

abbreviation lfs_hold :: "nat \<Rightarrow> 'a lfsmr_scheme \<Rightarrow> ptr list \<Rightarrow> u64 option" where
  "lfs_hold order s \<equiv> (\<lambda>b. hold_of order (lfs_heads order s b))"

text \<open>Where a thread with handle \<open>H\<close> stands in a slot with head \<open>p\<close>: it will visit \<open>xs\<close>, the nodes
  behind the head up to its handle.\<close>

definition lfs_at :: "(ptr \<Rightarrow> u64) \<Rightarrow> u64 \<Rightarrow> u64 \<Rightarrow> ptr list \<Rightarrow> bool" where
  "lfs_at nx p H xs \<longleftrightarrow> (if p = H then xs = [] else p \<noteq> 0 \<and> walk nx H (nx p) xs \<and> (H = 0 \<or> H \<in> set xs))"

abbreviation lfs_in :: "(nat \<Rightarrow> nat) \<Rightarrow> nat set \<Rightarrow> nat \<Rightarrow> nat set" where
  "lfs_in slot A i \<equiv> {u \<in> A. slot u = i}"

abbreviation lfs_top :: "'a lfsmr_scheme \<Rightarrow> nat \<Rightarrow> u64" where
  "lfs_top s i \<equiv> lfs_ptr (lfs_head s i)"

text \<open>The slots and the threads, when the nodes of the batches \<open>C\<close> are in the slots.\<close>

definition lfs_ghost :: "nat \<Rightarrow> nat \<Rightarrow> (nat \<Rightarrow> nat) \<Rightarrow> nat set \<Rightarrow> (nat \<Rightarrow> ptr list) \<Rightarrow> ptr list list \<Rightarrow> (nat \<Rightarrow> u64)
    \<Rightarrow> 'a lfsmr_scheme \<Rightarrow> bool" where
  "lfs_ghost order n slot A K C H s \<longleftrightarrow> order \<le> 64 \<and> n < 2 ^ (64 - order) \<and> A \<subseteq> {..<n} \<and> (\<forall>u < n. slot u < 2 ^ order)
     \<and> (\<forall>i < 2 ^ order. lfs_refs (lfs_head s i) = of_nat (card (lfs_in slot A i))
          \<and> (lfs_in slot A i = {} \<longrightarrow> lfs_top s i = 0)
          \<and> (lfs_top s i \<noteq> 0 \<longrightarrow> (\<exists>b \<in> set C. lfs_top s i \<in> set (butlast b))))
     \<and> (\<forall>u \<in> A. lfs_at (smr_next s) (lfs_top s (slot u)) (H u) (K u)
          \<and> (\<forall>b \<in> set C. lfs_top s (slot u) \<in> set b \<longrightarrow> set (K u) \<inter> set b = {}))
     \<and> (\<forall>u < n. u \<notin> A \<longrightarrow> K u = [])"

lemma lfs_ghostD:
  assumes "lfs_ghost order n slot A K C H s"
  shows "order \<le> 64" "n < 2 ^ (64 - order)" "A \<subseteq> {..<n}" "u < n \<Longrightarrow> slot u < 2 ^ order"
    "i < 2 ^ order \<Longrightarrow> lfs_refs (lfs_head s i) = of_nat (card (lfs_in slot A i))"
    "i < 2 ^ order \<Longrightarrow> lfs_in slot A i = {} \<Longrightarrow> lfs_top s i = 0"
    "i < 2 ^ order \<Longrightarrow> lfs_top s i \<noteq> 0 \<Longrightarrow> \<exists>b \<in> set C. lfs_top s i \<in> set (butlast b)"
    "u \<in> A \<Longrightarrow> lfs_at (smr_next s) (lfs_top s (slot u)) (H u) (K u)"
    "u \<in> A \<Longrightarrow> b \<in> set C \<Longrightarrow> lfs_top s (slot u) \<in> set b \<Longrightarrow> set (K u) \<inter> set b = {}"
    "u < n \<Longrightarrow> u \<notin> A \<Longrightarrow> K u = []" "finite A" "n < 2 ^ 64"
proof -
  note g = assms [unfolded lfs_ghost_def]
  show "order \<le> 64" "n < 2 ^ (64 - order)" "A \<subseteq> {..<n}" "u < n \<Longrightarrow> slot u < 2 ^ order"
    "u < n \<Longrightarrow> u \<notin> A \<Longrightarrow> K u = []" using g by blast+
  show "i < 2 ^ order \<Longrightarrow> lfs_refs (lfs_head s i) = of_nat (card (lfs_in slot A i))"
    "i < 2 ^ order \<Longrightarrow> lfs_in slot A i = {} \<Longrightarrow> lfs_top s i = 0"
    "i < 2 ^ order \<Longrightarrow> lfs_top s i \<noteq> 0 \<Longrightarrow> \<exists>b \<in> set C. lfs_top s i \<in> set (butlast b)"
    "u \<in> A \<Longrightarrow> lfs_at (smr_next s) (lfs_top s (slot u)) (H u) (K u)"
    "u \<in> A \<Longrightarrow> b \<in> set C \<Longrightarrow> lfs_top s (slot u) \<in> set b \<Longrightarrow> set (K u) \<inter> set b = {}" using g by blast+
  show "finite A" using g finite_subset [of A "{..<n}"] by blast
  have "(2 :: nat) ^ (64 - order) \<le> 2 ^ 64" by (rule power_increasing) simp_all
  with g show "n < 2 ^ 64" by linarith
qed

text \<open>The counter of a slot counts its threads.\<close>

lemma lfs_occupied:
  assumes g: "lfs_ghost order n slot A K C H s" and i: "i < 2 ^ order"
  shows "lfs_refs (lfs_head s i) = 0 \<longleftrightarrow> lfs_in slot A i = {}" "card (lfs_in slot A i) < 2 ^ 64"
    "lfs_refs (lfs_head s i) = 1 \<longleftrightarrow> card (lfs_in slot A i) = 1"
proof -
  note G = lfs_ghostD [OF g]
  have "lfs_in slot A i \<subseteq> {..<n}" using G(3) by auto
  from card_mono [OF _ this] have le: "card (lfs_in slot A i) \<le> n" by simp
  with G(12) show c: "card (lfs_in slot A i) < 2 ^ 64" by simp
  have z: "card (lfs_in slot A i) = 0 \<longleftrightarrow> lfs_in slot A i = {}" "(0 :: nat) < 2 ^ 64" "(1 :: nat) < 2 ^ 64"
    using G(11) by simp_all
  show "lfs_refs (lfs_head s i) = 0 \<longleftrightarrow> lfs_in slot A i = {}"
    unfolding G(5) [OF i] by (rule trans [OF of_nat_eq_small [OF c z(2), unfolded semiring_1_class.of_nat_0] z(1)])
  show "lfs_refs (lfs_head s i) = 1 \<longleftrightarrow> card (lfs_in slot A i) = 1"
    unfolding G(5) [OF i] by (rule of_nat_eq_small [OF c z(3), unfolded of_nat_1])
qed

text \<open>A batch that is at the head of every slot is visited by nobody.\<close>

lemma lfs_counts:
  assumes g: "lfs_ghost order n slot A K C H s" and b: "b \<in> set C"
  shows "lfs_heads order s b \<le> 2 ^ order" "lfs_heads order s b = 2 ^ order \<Longrightarrow> in_slots n K b = 0"
    "stays (lfs_hold order s b) (in_slots n K b)"
    "0 < in_slots n K b \<Longrightarrow> of_nat (in_slots n K b) + held (lfs_hold order s b) \<noteq> 0"
proof -
  note G = lfs_ghostD [OF g]
  let ?S = "{i. i < 2 ^ order \<and> lfs_top s i \<in> set b}"
  have S: "?S \<subseteq> {..<2 ^ order}" by auto
  from card_mono [OF _ S] show le: "lfs_heads order s b \<le> 2 ^ order" by (simp add: lfs_heads_def)
  show full: "in_slots n K b = 0" if "lfs_heads order s b = 2 ^ order"
  proof -
    have "?S = {..<2 ^ order}" using card_subset_eq [OF _ S] that by (simp add: lfs_heads_def)
    then have "lfs_top s i \<in> set b" if "i < 2 ^ order" for i using that by auto
    then have "set (K u) \<inter> set b = {}" if "u < n" for u
      using G(4,9,10) [of u] that b by (cases "u \<in> A") auto
    then show ?thesis unfolding in_slots_0 by blast
  qed
  have k: "in_slots n K b < 2 ^ (64 - order)" using in_slots_le [of n K b] G(2) by linarith
  show "stays (lfs_hold order s b) (in_slots n K b)"
    "0 < in_slots n K b \<Longrightarrow> of_nat (in_slots n K b) + held (lfs_hold order s b) \<noteq> 0"
    using hold_stays [OF G(1) le full k] by blast+
qed

lemma lfs_at_cong: "\<forall>x \<in> insert p (set xs). nx' x = nx x \<Longrightarrow> lfs_at nx' p H xs = lfs_at nx p H xs"
  using walk_cong [of xs nx' nx] by (simp add: lfs_at_def)

lemma lfs_ghost_cong:
  assumes g: "lfs_ghost order n slot A K C H s" and h: "lfs_head s' = lfs_head s"
    and nx: "\<And>u x. u \<in> A \<Longrightarrow> x \<in> insert (lfs_top s (slot u)) (set (K u)) \<Longrightarrow> x \<noteq> 0 \<Longrightarrow> smr_next s' x = smr_next s x"
  shows "lfs_ghost order n slot A K C H s'"
proof -
  have "lfs_at (smr_next s') (lfs_top s (slot u)) (H u) (K u)" if u: "u \<in> A" for u
  proof (cases "lfs_top s (slot u) = H u")
    case True
    with lfs_ghostD(8) [OF g u] show ?thesis by (simp add: lfs_at_def)
  next
    case False
    then have at: "lfs_top s (slot u) \<noteq> 0" "walk (smr_next s) (H u) (smr_next s (lfs_top s (slot u))) (K u)"
      using lfs_ghostD(8) [OF g u] by (simp_all add: lfs_at_def)
    have "0 \<notin> set xs" if "walk nx e q xs" for nx e q xs
      using that by (induction nx e q xs rule: walk.induct) (auto split: if_splits)
    with at(2) have "0 \<notin> set (K u)" by blast
    then have "\<forall>x \<in> insert (lfs_top s (slot u)) (set (K u)). smr_next s' x = smr_next s x"
      using nx [OF u] at(1) by (metis insert_iff)
    from lfs_at_cong [OF this, of "H u"] lfs_ghostD(8) [OF g u] show ?thesis by blast
  qed
  then show ?thesis using g unfolding lfs_ghost_def h by blast
qed

lemma lfs_heads_cong: "lfs_head s' = lfs_head s \<Longrightarrow> lfs_heads order s' = lfs_heads order s"
  by (simp add: lfs_heads_def fun_eq_iff)

definition lfs_inv :: "nat \<Rightarrow> nat \<Rightarrow> (nat \<Rightarrow> nat) \<Rightarrow> nat set \<Rightarrow> (nat \<Rightarrow> ptr list) \<Rightarrow> ptr list list \<Rightarrow> (nat \<Rightarrow> u64)
    \<Rightarrow> 'a lfsmr_scheme \<Rightarrow> bool" where
  "lfs_inv order n slot A K B H s \<longleftrightarrow> smr_ginv (lfs_hold order s) n K B [] 0 s \<and> lfs_ghost order n slot A K B H s"

text \<open>Thread \<open>u\<close> holds batch \<open>c\<close> back: it will visit it, or a head of its slot belongs to it.\<close>

definition lfs_holds :: "(nat \<Rightarrow> nat) \<Rightarrow> (nat \<Rightarrow> ptr list) \<Rightarrow> 'a lfsmr_scheme \<Rightarrow> nat \<Rightarrow> ptr list \<Rightarrow> bool" where
  "lfs_holds slot K s u c \<longleftrightarrow> lfs_top s (slot u) \<in> set c \<or> set (K u) \<inter> set c \<noteq> {}"

lemma lfs_inv_same:
  assumes "lfs_inv order n slot U K B H s" "same_nodes X s s'" "X \<inter> set (concat B) = {}" "lfs_head s' = lfs_head s"
    "smr_next s' = smr_next s"
  shows "lfs_inv order n slot U K B H s'" "lfs_holds slot K s' = lfs_holds slot K s"
proof -
  have gi: "smr_ginv (lfs_hold order s) n K B [] 0 s" and g: "lfs_ghost order n slot U K B H s"
    using assms(1) by (simp_all add: lfs_inv_def)
  have "smr_ginv (lfs_hold order s') n K B [] 0 s'"
    by (rule smr_ginv_same [OF gi assms(2)]) (use assms(3) lfs_heads_cong [OF assms(4)] in simp_all)
  moreover have "lfs_ghost order n slot U K B H s'" by (rule lfs_ghost_cong [OF g assms(4)]) (simp add: assms(5))
  ultimately show "lfs_inv order n slot U K B H s'" by (simp add: lfs_inv_def)
  show "lfs_holds slot K s' = lfs_holds slot K s" by (simp add: lfs_holds_def fun_eq_iff assms(4))
qed

lemma lfs_inv_keep:
  assumes "lfs_inv order n slot U K B H s" "same_nodes X s s'" "X \<inter> set (concat B) = {}" "lfs_head s' = lfs_head s"
  shows "lfs_inv order n slot U K B H s'" "lfs_holds slot K s' = lfs_holds slot K s"
proof -
  have gi: "smr_ginv (lfs_hold order s) n K B [] 0 s" and g: "lfs_ghost order n slot U K B H s"
    using assms(1) by (simp_all add: lfs_inv_def)
  note G = lfs_ghostD [OF g]
  have "smr_ginv (lfs_hold order s') n K B [] 0 s'"
    by (rule smr_ginv_same [OF gi assms(2)]) (use assms(3) lfs_heads_cong [OF assms(4)] in simp_all)
  moreover have "lfs_ghost order n slot U K B H s'"
  proof (rule lfs_ghost_cong [OF g assms(4)])
    fix u x assume u: "u \<in> U" and x: "x \<in> insert (lfs_top s (slot u)) (set (K u))" "x \<noteq> 0"
    have un: "u < n" using G(3) u by blast
    obtain b where "b \<in> set B" "x \<in> set (butlast b)"
      using x smr_ginvD(6) [OF gi un, of x] G(7) [OF G(4) [OF un]] by blast
    then have "x \<in> set (concat B)" by (auto dest: in_set_butlastD)
    then show "smr_next s' x = smr_next s x" using assms(2,3) by (auto simp: same_nodes_def)
  qed
  ultimately show "lfs_inv order n slot U K B H s'" by (simp add: lfs_inv_def)
  show "lfs_holds slot K s' = lfs_holds slot K s" by (simp add: lfs_holds_def fun_eq_iff assms(4))
qed

text \<open>A thread that is outside may take another slot.\<close>

lemma lfs_inv_slot:
  assumes "lfs_inv order n slot U K B H s" "t \<notin> U" "i < 2 ^ order"
  shows "lfs_inv order n (slot(t := i)) U K B H s" "u \<in> U \<Longrightarrow> lfs_holds (slot(t := i)) K s u = lfs_holds slot K s u"
proof -
  have same: "(slot(t := i)) u = slot u" if "u \<in> U" for u using that assms(2) by auto
  have sets: "lfs_in (slot(t := i)) U k = lfs_in slot U k" for k using assms(2) by auto
  have g: "lfs_ghost order n slot U K B H s" using assms(1) by (simp add: lfs_inv_def)
  note G = lfs_ghostD [OF g]
  have "lfs_ghost order n (slot(t := i)) U K B H s"
    unfolding lfs_ghost_def sets
  proof (intro conjI allI impI ballI)
    fix u assume "u < n"
    then show "(slot(t := i)) u < 2 ^ order" using G(4) assms(3) by simp
  next
    fix u assume u: "u \<in> U"
    show "lfs_at (smr_next s) (lfs_top s ((slot(t := i)) u)) (H u) (K u)" unfolding same [OF u] by (rule G(8) [OF u])
    show "set (K u) \<inter> set b = {}" if "b \<in> set B" "lfs_top s ((slot(t := i)) u) \<in> set b" for b
      using G(9) [OF u] that unfolding same [OF u] .
  qed (use G in blast)+
  then show "lfs_inv order n (slot(t := i)) U K B H s" using assms(1) by (simp add: lfs_inv_def)
  show "u \<in> U \<Longrightarrow> lfs_holds (slot(t := i)) K s u = lfs_holds slot K s u" using same by (simp add: lfs_holds_def fun_eq_iff)
qed

text \<open>There are no more slots in use than threads.\<close>

lemma lfs_few:
  assumes g: "lfs_ghost order n slot U K B H s" and js: "set js \<subseteq> {..<2 ^ order}" "distinct js"
  shows "length (filter (\<lambda>i. lfs_refs (lfs_head s i) \<noteq> 0) js) \<le> min n (2 ^ order)"
proof -
  note G = lfs_ghostD [OF g]
  let ?S = "set (filter (\<lambda>i. lfs_refs (lfs_head s i) \<noteq> 0) js)"
  have "?S \<subseteq> slot ` U"
  proof
    fix i assume i: "i \<in> ?S"
    then have "i < 2 ^ order" using js(1) by auto
    with i have "lfs_in slot U i \<noteq> {}" using lfs_occupied(1) [OF g, of i] by simp
    then show "i \<in> slot ` U" by blast
  qed
  then have "card ?S \<le> card U" using G(11) surj_card_le by blast
  also have "card U \<le> n" using card_mono [OF _ G(3)] by simp
  finally have "card ?S \<le> n" .
  moreover have "card ?S \<le> card {..<(2 :: nat) ^ order}" by (rule card_mono) (use js(1) in auto)
  ultimately show ?thesis using distinct_card [of "filter (\<lambda>i. lfs_refs (lfs_head s i) \<noteq> 0) js"] js(2) by simp
qed

section \<open>Handing a node to a slot\<close>

abbreviation lfs_pushed :: "nat \<Rightarrow> ptr \<Rightarrow> 'a lfsmr_scheme \<Rightarrow> 'a lfsmr_scheme" where
  "lfs_pushed j y s \<equiv> lfs_put_head j (lfs_mk (lfs_refs (lfs_head s j)) y) (smr_set_next y (lfs_top s j) s)"

abbreviation lfs_behind :: "(nat \<Rightarrow> nat) \<Rightarrow> nat set \<Rightarrow> nat \<Rightarrow> u64 \<Rightarrow> (nat \<Rightarrow> ptr list) \<Rightarrow> nat \<Rightarrow> ptr list" where
  "lfs_behind slot A j p K \<equiv> (\<lambda>u. if u \<in> A \<and> slot u = j \<and> p \<noteq> 0 then p # K u else K u)"

lemma lfs_pushed_top: "lfs_top (lfs_pushed j y s) i = (if i = j then y else lfs_top s i)"
  "lfs_refs (lfs_head (lfs_pushed j y s) i) = lfs_refs (lfs_head s i)"
  "smr_next (lfs_pushed j y s) = (smr_next s)(y := lfs_top s j)"
  by (simp_all add: lfs_put_head_def smr_set_next_def)

lemma lfs_ghost_push:
  assumes g: "lfs_ghost order n slot A K C H s" and b: "b \<in> set C" "y \<in> set (butlast b)"
    and j: "j < 2 ^ order" "lfs_refs (lfs_head s j) \<noteq> 0"
    and y: "y \<noteq> 0" "\<And>i. i < 2 ^ order \<Longrightarrow> lfs_top s i \<noteq> y" "\<And>u. u < n \<Longrightarrow> set (K u) \<inter> set b = {}"
    and dis: "\<And>c. c \<in> set C \<Longrightarrow> c \<noteq> b \<Longrightarrow> set c \<inter> set b = {}" and p: "lfs_top s j \<notin> set b"
  shows "lfs_ghost order n slot A (lfs_behind slot A j (lfs_top s j) K) C H (lfs_pushed j y s)"
proof -
  note G = lfs_ghostD [OF g]
  let ?p = "lfs_top s j" let ?K = "lfs_behind slot A j ?p K" let ?s = "lfs_pushed j y s"
  have yb: "y \<in> set b" by (rule in_set_butlastD [OF b(2)])
  have un: "u < n" if "u \<in> A" for u using G(3) that by blast
  have ne: "lfs_in slot A j \<noteq> {}" using lfs_occupied(1) [OF g j(1)] j(2) by blast
  have at: "lfs_at (smr_next ?s) (lfs_top ?s (slot u)) (H u) (?K u)" if u: "u \<in> A" for u
  proof (cases "slot u = j")
    case False
    have "\<forall>x \<in> insert (lfs_top s (slot u)) (set (K u)). smr_next ?s x = smr_next s x"
      using y(2) [OF G(4) [OF un [OF u]]] y(3) [OF un [OF u]] yb unfolding lfs_pushed_top(3) by auto
    from lfs_at_cong [OF this, of "H u"] G(8) [OF u] False show ?thesis
      unfolding lfs_pushed_top(1) by simp
  next
    case True
    have old: "lfs_at (smr_next s) ?p (H u) (K u)" using G(8) [OF u] True by simp
    have yK: "y \<notin> set (K u)" using y(3) [OF un [OF u]] yb by blast
    have "y \<noteq> H u" using old y(1) y(2) [OF j(1)] yK unfolding lfs_at_def by (auto split: if_splits)
    moreover have "walk (smr_next ?s) (H u) ?p (?K u) \<and> (H u = 0 \<or> H u \<in> set (?K u))"
    proof (cases "?p = 0")
      case p0: True
      with old have "K u = []" "H u = 0" unfolding lfs_at_def by (auto split: if_splits)
      with p0 show ?thesis by simp
    next
      case False
      have "walk (smr_next ?s) (H u) q (K u) = walk (smr_next s) (H u) q (K u)" for q
        by (rule walk_cong) (use yK in \<open>auto simp: lfs_pushed_top(3)\<close>)
      with False old u True show ?thesis
        unfolding lfs_at_def lfs_pushed_top(3) using y(2) [OF j(1)] by (auto split: if_splits)
    qed
    moreover have "lfs_top ?s (slot u) = y" using True unfolding lfs_pushed_top(1) by simp
    ultimately show ?thesis using y(1) unfolding lfs_at_def lfs_pushed_top(3) by simp
  qed
  have top: "set (?K u) \<inter> set c = {}" if u: "u \<in> A" and c: "c \<in> set C" "lfs_top ?s (slot u) \<in> set c" for u c
  proof (cases "slot u = j")
    case True
    then have "y \<in> set c" using c(2) unfolding lfs_pushed_top(1) by simp
    then have "c = b" using dis [OF c(1)] yb by blast
    with y(3) [OF un [OF u]] p show ?thesis by auto
  next
    case False
    then have "lfs_top s (slot u) \<in> set c" using c(2) unfolding lfs_pushed_top(1) by simp
    from G(9) [OF u c(1) this] False show ?thesis by simp
  qed
  have slots: "lfs_refs (lfs_head ?s i) = of_nat (card (lfs_in slot A i)) \<and> (lfs_in slot A i = {} \<longrightarrow> lfs_top ?s i = 0)
      \<and> (lfs_top ?s i \<noteq> 0 \<longrightarrow> (\<exists>b \<in> set C. lfs_top ?s i \<in> set (butlast b)))" if i: "i < 2 ^ order" for i
    using G(5-7) [OF i] ne b unfolding lfs_pushed_top(1,2) by (cases "i = j") auto
  show ?thesis
    unfolding lfs_ghost_def
  proof (intro conjI allI impI ballI)
    fix u assume "u < n" "u \<notin> A"
    then show "?K u = []" using G(10) by simp
  qed (use G(1-4) slots at top in blast)+
qed

text \<open>The old head moves behind the new one, to every thread of the slot.\<close>

lemma in_slots_behind:
  assumes "A \<subseteq> {..<n}" "\<And>u. u \<in> lfs_in slot A j \<Longrightarrow> set (K u) \<inter> set c = {}" "p \<noteq> 0" "finite A"
  shows "in_slots n (lfs_behind slot A j p K) c = in_slots n K c + (if p \<in> set c then card (lfs_in slot A j) else 0)"
proof -
  let ?K = "lfs_behind slot A j p K" let ?S = "{u. u < n \<and> set (K u) \<inter> set c \<noteq> {}}"
  have "{u. u < n \<and> set (?K u) \<inter> set c \<noteq> {}} = ?S \<union> (if p \<in> set c then lfs_in slot A j else {})"
    using assms(1,3) by (auto split: if_splits)
  moreover have "?S \<inter> (if p \<in> set c then lfs_in slot A j else {}) = {}" using assms(2) by auto
  moreover have "finite ?S" "finite (if p \<in> set c then lfs_in slot A j else {})" using assms(4) by auto
  ultimately show ?thesis unfolding in_slots_card by (simp add: card_Un_disjoint)
qed

lemma lfs_heads_push:
  assumes "j < 2 ^ order" "y \<notin> set c"
  shows "lfs_heads order s c = lfs_heads order (lfs_pushed j y s) c + (if lfs_top s j \<in> set c then 1 else 0)"
proof -
  let ?S = "{i. i < 2 ^ order \<and> lfs_top (lfs_pushed j y s) i \<in> set c}"
  have "{i. i < 2 ^ order \<and> lfs_top s i \<in> set c} = ?S \<union> (if lfs_top s j \<in> set c then {j} else {})"
    "?S \<inter> (if lfs_top s j \<in> set c then {j} else {}) = {}"
    using assms unfolding lfs_pushed_top(1) by (auto split: if_splits)
  moreover have "finite ?S" by simp
  ultimately show ?thesis unfolding lfs_heads_def by (simp add: card_Un_disjoint)
qed

lemma smr_frame_head: "smr_frame s s' \<Longrightarrow> lfs_head s' = lfs_head (s :: 'a lfsmr_scheme)"
proof -
  assume "smr_frame s s'"
  then obtain a b where "s' = s\<lparr>smr_next := a, smr_refs := b\<rparr>" unfolding smr_frame_def by blast
  then show ?thesis by simp
qed

text \<open>The last nodes of the batches are in no slot.\<close>

lemma lfs_ghost_lasts:
  assumes inv: "smr_ginv hold n K B F list s0" and g: "lfs_ghost order n slot A K C H s"
    and C: "set C \<subseteq> insert b (set B)" "set b \<inter> set (concat B) = {}" and u: "u \<in> A"
    and x: "x \<in> insert (lfs_top s (slot u)) (set (K u))" "x \<noteq> 0"
  shows "x \<notin> last ` set B"
proof -
  note G = lfs_ghostD [OF g]
  have un: "u < n" using G(3) u by blast
  have "\<exists>c \<in> insert b (set B). x \<in> set (butlast c)"
    using x G(7) [OF G(4) [OF un]] smr_ginvD(6) [OF inv un] C(1) by blast
  then obtain c where c: "c \<in> insert b (set B)" "x \<in> set (butlast c)" by blast
  show ?thesis
  proof (cases "c \<in> set B")
    case True
    then show ?thesis by (rule gslot_node(2) [OF inv _ c(2)])
  next
    case False
    then have "x \<in> set b" using c by (auto dest: in_set_butlastD)
    then show ?thesis using C(2) batch_lasts [OF inv] by blast
  qed
qed

lemma lfs_slot_push:
  assumes inv: "smr_ginv (lfs_hold order s) n K B [] 0 s" and g: "lfs_ghost order n slot A K (b # B) H s"
    and j: "j < 2 ^ order" "lfs_refs (lfs_head s j) \<noteq> 0"
    and y: "y \<in> set (butlast b)" "\<And>i. i < 2 ^ order \<Longrightarrow> lfs_top s i \<noteq> y"
    and b: "set b \<inter> set (concat B) = {}" "0 \<notin> set b" and p: "lfs_top s j \<notin> set b"
  shows "\<exists>s'. (if lfs_top s j \<noteq> 0
        then smr_adjust_refs 0 (lfs_top s j) (lfs_addend order + lfs_refs (lfs_head s j)) 0 (lfs_pushed j y s, []) = (0, (s', []))
        else s' = lfs_pushed j y s)
    \<and> smr_ginv (lfs_hold order s') n (lfs_behind slot A j (lfs_top s j) K) B [] 0 s'
    \<and> lfs_ghost order n slot A (lfs_behind slot A j (lfs_top s j) K) (b # B) H s'
    \<and> same_nodes (insert y (last ` set B)) s s' \<and> (\<forall>x. x \<notin> last ` set B \<longrightarrow> smr_refs s' x = smr_refs s x)
    \<and> smr_frame (lfs_pushed j y s) s'"
proof -
  note G = lfs_ghostD [OF g] and I = smr_ginvD [OF inv]
  let ?p = "lfs_top s j" let ?K = "lfs_behind slot A j ?p K" let ?s = "lfs_pushed j y s"
  have yb: "y \<in> set b" by (rule in_set_butlastD [OF y(1)])
  have Kb: "set (K u) \<inter> set b = {}" if "u < n" for u
    using I(6) [OF that] gslot_node(1) [OF inv] b(1) by blast
  have dis: "set c \<inter> set b = {}" if "c \<in> set (b # B)" "c \<noteq> b" for c using that b(1) by auto
  have yB: "y \<notin> set c" if "c \<in> set B" for c using b(1) that yb by auto
  have same1: "same_nodes {y} s ?s" by (simp add: same_nodes_def lfs_put_head_def smr_set_next_def)
  have inv1: "smr_ginv (lfs_hold order s) n K B [] 0 ?s"
    by (rule smr_ginv_same [OF inv same1]) (use b(1) yb in auto)
  have g1: "lfs_ghost order n slot A ?K (b # B) H ?s"
    by (rule lfs_ghost_push [OF g _ y(1) j _ y(2) Kb dis p]) (use b(2) yb in auto)
  show ?thesis
  proof (cases "?p = 0")
    case True
    then have K: "?K = K" by simp
    have "?p \<notin> set c" if "c \<in> set B" for c using I(3) that unfolding True by auto
    then have "lfs_hold order ?s c = lfs_hold order s c" if "c \<in> set B" for c
      using lfs_heads_push [OF j(1) yB [OF that], of s] that by simp
    then have "smr_ginv (lfs_hold order ?s) n ?K B [] 0 ?s"
      unfolding K by (intro smr_ginv_same [OF inv1 same_nodes_refl]) auto
    moreover have "same_nodes (insert y (last ` set B)) s ?s" by (rule same_nodes_mono [OF same1]) simp
    moreover have "smr_refs ?s = smr_refs s" by (simp add: lfs_put_head_def smr_set_next_def)
    ultimately show ?thesis using g1 True by (intro exI [of _ ?s]) simp
  next
    case False
    then obtain c where c: "c \<in> set B" "?p \<in> set (butlast c)"
      using G(7) [OF j(1)] p by (auto dest: in_set_butlastD)
    have pc: "?p \<in> set c" by (rule in_set_butlastD [OF c(2)])
    have pd: "?p \<notin> set d" if "d \<in> set B" "d \<noteq> c" for d
      using distinct_concat_eq [OF I(1) that(1) c(1)] pc that(2) by blast
    have free: "set (K u) \<inter> set d = {}" if "u \<in> lfs_in slot A j" "d \<in> set B" "?p \<in> set d" for u d
      using G(9) [of u d] that by auto
    have ins: "in_slots n ?K d = in_slots n K d + (if ?p \<in> set d then card (lfs_in slot A j) else 0)" if "d \<in> set B" for d
    proof (cases "?p \<in> set d")
      case True
      then show ?thesis using free that by (intro in_slots_behind [OF G(3) _ False G(11)]) blast
    next
      case out: False
      have "in_slots n ?K d = in_slots n K d" by (rule in_slots_other) (use out in auto)
      with out show ?thesis by simp
    qed
    note hds = lfs_heads_push [where s = s, OF j(1) yB]
    have others: "in_slots n ?K d = in_slots n K d \<and> lfs_hold order ?s d = lfs_hold order s d"
      if "d \<in> set B" "d \<noteq> c" for d
      using ins [OF that(1)] hds [OF that(1)] pd [OF that] by simp
    have "?p \<notin> set (K u)" if "u \<in> A" "slot u = j" for u
      using free [of u c] that c(1) pc by auto
    then have wf1: "distinct (?K u)" if "u < n" for u using I(5) [OF that] by auto
    have wf2: "\<exists>d \<in> set B. x \<in> set (butlast d)" if "u < n" "x \<in> set (?K u)" for u x
      using I(6) [OF that(1)] that(2) c by (auto split: if_splits)
    have wf3: "x = z" if "u < n" "d \<in> set B" "x \<in> set (?K u)" "z \<in> set (?K u)" "x \<in> set d" "z \<in> set d" for u d x z
    proof (cases "u \<in> lfs_in slot A j \<and> ?p \<in> set d")
      case True
      then show ?thesis using free [of u d] that by (auto split: if_splits)
    next
      case out: False
      then have "x \<in> set (K u)" "z \<in> set (K u)" using that(3-6) by (auto split: if_splits)
      then show ?thesis using I(7) [OF that(1,2)] that(5,6) by blast
    qed
    have r: "lfs_refs (lfs_head s j) = of_nat (card (lfs_in slot A j))" by (rule G(5) [OF j(1)])
    have pos: "0 < in_slots n ?K c"
    proof -
      have "card (lfs_in slot A j) \<noteq> 0" using lfs_occupied(1) [OF g j(1)] j(2) G(11) by simp
      then show ?thesis using ins [OF c(1)] pc by simp
    qed
    have cnt: "of_nat (in_slots n K c) + held (lfs_hold order s c) + (lfs_addend order + lfs_refs (lfs_head s j))
        = of_nat (in_slots n ?K c) + held (lfs_hold order ?s c)"
      using ins [OF c(1)] hds [OF c(1)] pc unfolding held_hold r by (simp add: algebra_simps)
    have cs: "c \<in> set (b # B)" using c(1) by simp
    have live: "stays (lfs_hold order ?s c) (in_slots n ?K c) \<and> of_nat (in_slots n ?K c) + held (lfs_hold order ?s c) \<noteq> 0"
      using lfs_counts(3) [OF g1 cs] lfs_counts(4) [OF g1 cs pos] by blast
    have "\<exists>s' list' F'. smr_adjust_refs 0 ?p (lfs_addend order + lfs_refs (lfs_head s j)) 0 (?s, []) = (list', (s', []))
      \<and> smr_ginv (lfs_hold order ?s) n ?K (filter (\<lambda>d. 0 < in_slots n ?K d \<or> lfs_hold order ?s d \<noteq> None) B) F' list' s'
      \<and> set F' = set [] \<union> {d \<in> set B. in_slots n ?K d = 0 \<and> lfs_hold order ?s d = None}
      \<and> (0 < in_slots n ?K c \<or> lfs_hold order ?s c \<noteq> None \<longrightarrow> list' = 0) \<and> same_nodes {last c} ?s s' \<and> smr_frame ?s s'"
      by (rule smr_adjust_run [where L' = ?K and hold' = "lfs_hold order ?s", OF inv1 c others wf1 wf2 wf3 cnt live])
    then obtain s' list' F' where a: "smr_adjust_refs 0 ?p (lfs_addend order + lfs_refs (lfs_head s j)) 0 (?s, []) = (list', (s', []))"
      "smr_ginv (lfs_hold order ?s) n ?K (filter (\<lambda>d. 0 < in_slots n ?K d \<or> lfs_hold order ?s d \<noteq> None) B) F' list' s'"
      "set F' = set [] \<union> {d \<in> set B. in_slots n ?K d = 0 \<and> lfs_hold order ?s d = None}"
      "0 < in_slots n ?K c \<or> lfs_hold order ?s c \<noteq> None \<longrightarrow> list' = 0" "same_nodes {last c} ?s s'" "smr_frame ?s s'"
      by (elim exE conjE) (rule that)
    have l0: "list' = 0" using a(4) pos by blast
    have all: "0 < in_slots n ?K d \<or> lfs_hold order ?s d \<noteq> None" if "d \<in> set B" for d
      using I(10) [OF that] others [OF that] pos by (cases "d = c") auto
    then have "set F' = {}" unfolding a(3) by fastforce
    then have "F' = []" "filter (\<lambda>d. 0 < in_slots n ?K d \<or> lfs_hold order ?s d \<noteq> None) B = B"
      using all by (simp_all add: filter_id_conv)
    then have "smr_ginv (lfs_hold order ?s) n ?K B [] 0 s'" using a(2) l0 by simp
    moreover have h: "lfs_head s' = lfs_head ?s" by (rule smr_frame_head [OF a(6)])
    ultimately have inv': "smr_ginv (lfs_hold order s') n ?K B [] 0 s'" by (simp only: lfs_heads_cong [OF h])
    have "lfs_ghost order n slot A ?K (b # B) H s'"
    proof (rule lfs_ghost_cong [OF g1 h])
      fix u x assume ux: "u \<in> A" "x \<in> insert (lfs_top ?s (slot u)) (set (?K u))" "x \<noteq> 0"
      have "x \<notin> last ` set B" by (rule lfs_ghost_lasts [OF inv' g1 _ b(1) ux]) simp
      then show "smr_next s' x = smr_next ?s x" using a(5) c(1) by (auto simp: same_nodes_def)
    qed
    moreover have "same_nodes (insert y (last ` set B)) s s'"
      by (rule same_nodes_trans [OF same1 a(5)]) (use c(1) in auto)
    moreover have "smr_refs s' x = smr_refs s x" if "x \<notin> last ` set B" for x
    proof -
      have "smr_refs s' x = smr_refs ?s x" using a(5) that c(1) by (auto simp: same_nodes_def)
      then show ?thesis by (simp add: lfs_put_head_def smr_set_next_def)
    qed
    ultimately show ?thesis using a(1,6) l0 inv' False by (intro exI [of _ s']) simp
  qed
qed

section \<open>Counting a thread out\<close>

abbreviation lfs_left :: "nat \<Rightarrow> 'a lfsmr_scheme \<Rightarrow> 'a lfsmr_scheme" where
  "lfs_left i s \<equiv> lfs_put_head i
     (if lfs_refs (lfs_head s i) = 1 then 0 else lfs_mk (lfs_refs (lfs_head s i) - 1) (lfs_top s i)) s"

lemma lfs_left_top:
  "lfs_top (lfs_left i s) k = (if k = i \<and> lfs_refs (lfs_head s i) = 1 then 0 else lfs_top s k)"
  "lfs_refs (lfs_head (lfs_left i s) k) = (if k = i then lfs_refs (lfs_head s i) - 1 else lfs_refs (lfs_head s k))"
  by (simp_all add: lfs_put_head_def lfs_mk_0)

lemma lfs_heads_left:
  assumes "i < 2 ^ order" "0 \<notin> set c"
  shows "lfs_heads order s c = lfs_heads order (lfs_left i s) c
    + (if lfs_refs (lfs_head s i) = 1 \<and> lfs_top s i \<in> set c then 1 else 0)"
proof -
  let ?S = "{k. k < 2 ^ order \<and> lfs_top (lfs_left i s) k \<in> set c}"
  let ?X = "if lfs_refs (lfs_head s i) = 1 \<and> lfs_top s i \<in> set c then {i} else {}"
  have "{k. k < 2 ^ order \<and> lfs_top s k \<in> set c} = ?S \<union> ?X" "?S \<inter> ?X = {}"
    using assms unfolding lfs_left_top(1) by (auto split: if_splits)
  moreover have "finite ?S" "finite ?X" by simp_all
  ultimately show ?thesis unfolding lfs_heads_def by (simp add: card_Un_disjoint)
qed

text \<open>The last thread of a slot takes the list off and drops the share of the slot in the batch of
  its head.\<close>

lemma lfs_left_run:
  assumes inv: "lfs_inv order n slot U K B H s" and i: "i < 2 ^ order"
  shows "\<exists>s' list F. (if lfs_refs (lfs_head s i) = 1 \<and> lfs_top s i \<noteq> 0
        then smr_adjust_refs 0 (lfs_top s i) (lfs_addend order) 0 (lfs_left i s, []) else (0, (lfs_left i s, [])))
      = (list, (s', []))
    \<and> smr_ginv (lfs_hold order s') n K (filter (\<lambda>d. 0 < in_slots n K d \<or> lfs_hold order s' d \<noteq> None) B) F list s'
    \<and> set F = {d \<in> set B. in_slots n K d = 0 \<and> lfs_hold order s' d = None}
    \<and> same_nodes (last ` set B) s s' \<and> smr_frame (lfs_left i s) s'"
proof -
  have gi: "smr_ginv (lfs_hold order s) n K B [] 0 s" and g: "lfs_ghost order n slot U K B H s"
    using inv by (simp_all add: lfs_inv_def)
  note I = smr_ginvD [OF gi] and G = lfs_ghostD [OF g]
  let ?s = "lfs_left i s" let ?p = "lfs_top s i"
  have c0: "0 \<notin> set c" if "c \<in> set B" for c using I(3) [of 0] that by auto
  have same1: "same_nodes {} s ?s" by (simp add: same_nodes_def lfs_put_head_def)
  note hds = lfs_heads_left [where s = s, OF i c0]
  show ?thesis
  proof (cases "lfs_refs (lfs_head s i) = 1 \<and> ?p \<noteq> 0")
    case False
    have eq: "lfs_hold order ?s c = lfs_hold order s c" if "c \<in> set B" for c
      using hds [OF that] False c0 [OF that] by (auto split: if_splits)
    have gi1: "smr_ginv (lfs_hold order ?s) n K B [] 0 ?s"
      by (rule smr_ginv_same [OF gi same1 _ eq]) simp_all
    have all: "filter (\<lambda>d. 0 < in_slots n K d \<or> lfs_hold order ?s d \<noteq> None) B = B"
      "{d \<in> set B. in_slots n K d = 0 \<and> lfs_hold order ?s d = None} = {}"
      using smr_ginvD(10) [OF gi1] by (auto simp: filter_id_conv)
    show ?thesis
    proof (intro exI conjI)
      show "(if lfs_refs (lfs_head s i) = 1 \<and> ?p \<noteq> 0 then smr_adjust_refs 0 ?p (lfs_addend order) 0 (?s, [])
          else (0, (?s, []))) = (0, (?s, []))" by (rule if_not_P [OF False])
      show "smr_ginv (lfs_hold order ?s) n K (filter (\<lambda>d. 0 < in_slots n K d \<or> lfs_hold order ?s d \<noteq> None) B) [] 0 ?s"
        unfolding all by (rule gi1)
      show "set [] = {d \<in> set B. in_slots n K d = 0 \<and> lfs_hold order ?s d = None}" unfolding all by simp
      show "same_nodes (last ` set B) s ?s" by (rule same_nodes_mono [OF same1]) simp
    qed simp
  next
    case True
    then obtain c where c: "c \<in> set B" "?p \<in> set (butlast c)" using G(7) [OF i] by blast
    have pc: "?p \<in> set c" by (rule in_set_butlastD [OF c(2)])
    have pd: "?p \<notin> set d" if "d \<in> set B" "d \<noteq> c" for d
      using distinct_concat_eq [OF I(1) that(1) c(1)] pc that(2) by blast
    have hc: "lfs_heads order s c = Suc (lfs_heads order ?s c)" using hds [OF c(1)] pc True by simp
    have others: "in_slots n K d = in_slots n K d \<and> lfs_hold order ?s d = lfs_hold order s d"
      if "d \<in> set B" "d \<noteq> c" for d
      using hds [OF that(1)] pd [OF that] by simp
    have cnt: "of_nat (in_slots n K c) + held (lfs_hold order s c) + lfs_addend order
        = of_nat (in_slots n K c) + held (lfs_hold order ?s c)"
      unfolding held_hold hc by (simp add: algebra_simps)
    have h: "lfs_heads order ?s c < 2 ^ order" using lfs_counts(1) [OF g c(1)] hc by linarith
    have k: "in_slots n K c < 2 ^ (64 - order)" using in_slots_le [of n K c] G(2) by linarith
    have live: "stays (lfs_hold order ?s c) (in_slots n K c) \<and> of_nat (in_slots n K c) + held (lfs_hold order ?s c) \<noteq> 0"
      if "0 < in_slots n K c \<or> lfs_hold order ?s c \<noteq> None"
      using hold_stays(1) [OF G(1) less_imp_le [OF h] _ k] hold_count(1) [OF G(1) h k] h that
      by (simp add: held_hold(2))
    have gi1: "smr_ginv (lfs_hold order s) n K B [] 0 ?s" by (rule smr_ginv_same [OF gi same1]) simp_all
    have "\<exists>s' list' F'. smr_adjust_refs 0 ?p (lfs_addend order) 0 (?s, []) = (list', (s', []))
      \<and> smr_ginv (lfs_hold order ?s) n K (filter (\<lambda>d. 0 < in_slots n K d \<or> lfs_hold order ?s d \<noteq> None) B) F' list' s'
      \<and> set F' = set [] \<union> {d \<in> set B. in_slots n K d = 0 \<and> lfs_hold order ?s d = None}
      \<and> (0 < in_slots n K c \<or> lfs_hold order ?s c \<noteq> None \<longrightarrow> list' = 0) \<and> same_nodes {last c} ?s s' \<and> smr_frame ?s s'"
      by (rule smr_adjust_run [where L' = K and hold' = "lfs_hold order ?s", OF gi1 c others I(5,6,7) cnt live])
    then obtain s' list' F' where a: "smr_adjust_refs 0 ?p (lfs_addend order) 0 (?s, []) = (list', (s', []))"
      "smr_ginv (lfs_hold order ?s) n K (filter (\<lambda>d. 0 < in_slots n K d \<or> lfs_hold order ?s d \<noteq> None) B) F' list' s'"
      "set F' = set [] \<union> {d \<in> set B. in_slots n K d = 0 \<and> lfs_hold order ?s d = None}"
      "same_nodes {last c} ?s s'" "smr_frame ?s s'"
      by (elim exE conjE) (rule that)
    note h = lfs_heads_cong [OF smr_frame_head [OF a(5)], of order]
    show ?thesis
    proof (intro exI conjI)
      show "(if lfs_refs (lfs_head s i) = 1 \<and> ?p \<noteq> 0 then smr_adjust_refs 0 ?p (lfs_addend order) 0 (?s, [])
          else (0, (?s, []))) = (list', (s', []))" unfolding if_P [OF True] by (rule a(1))
      show "smr_ginv (lfs_hold order s') n K (filter (\<lambda>d. 0 < in_slots n K d \<or> lfs_hold order s' d \<noteq> None) B) F' list' s'"
        using a(2) unfolding h .
      show "set F' = {d \<in> set B. in_slots n K d = 0 \<and> lfs_hold order s' d = None}" using a(3) unfolding h by simp
      show "same_nodes (last ` set B) s s'" by (rule same_nodes_trans [OF same1 a(4)]) (use c(1) in auto)
    qed (fact a(5))
  qed
qed

text \<open>The other threads of the slot keep their place.\<close>

lemma lfs_left_others:
  assumes g: "lfs_ghost order n slot U K C H s" and t: "t \<in> U" and u: "u \<in> U" "u \<noteq> t"
  shows "lfs_top (lfs_left (slot t) s) (slot u) = lfs_top s (slot u)"
proof (cases "slot u = slot t")
  case True
  have "slot t < 2 ^ order" using lfs_ghostD(3,4) [OF g] t by blast
  note one = lfs_occupied(3) [OF g this]
  have "card (lfs_in slot U (slot t)) \<noteq> 1"
  proof
    assume "card (lfs_in slot U (slot t)) = 1"
    then obtain x where "lfs_in slot U (slot t) = {x}" by (auto simp: card_1_singleton_iff)
    moreover have "t \<in> lfs_in slot U (slot t)" "u \<in> lfs_in slot U (slot t)" using t u True by simp_all
    ultimately show False using u(2) by (metis singletonD)
  qed
  with one show ?thesis unfolding lfs_left_top(1) by simp
qed (simp add: lfs_left_top(1))

lemma lfs_ghost_leave:
  assumes g: "lfs_ghost order n slot U K B H s" and t: "t \<in> U" and h: "lfs_head s' = lfs_head (lfs_left (slot t) s)"
    and P: "\<And>d. d \<in> set B \<Longrightarrow> lfs_heads order s' d \<noteq> 0 \<Longrightarrow> P d"
    and nx: "\<And>u x. u \<in> U - {t} \<Longrightarrow> x \<in> insert (lfs_top s (slot u)) (set (K u)) \<Longrightarrow> x \<noteq> 0 \<Longrightarrow> smr_next s' x = smr_next s x"
  shows "lfs_ghost order n slot (U - {t}) (K(t := [])) (filter P B) H s'"
proof -
  note G = lfs_ghostD [OF g]
  let ?i = "slot t" let ?s = "lfs_left ?i s" let ?U = "U - {t}"
  have i: "?i < 2 ^ order" using G(3,4) t by blast
  have tin: "t \<in> lfs_in slot U ?i" using t by simp
  have others: "lfs_top ?s (slot u) = lfs_top s (slot u)" if "u \<in> ?U" for u
    using lfs_left_others [OF g t] that by simp
  have fin: "finite (lfs_in slot U k)" for k using G(11) by simp
  have slots: "lfs_refs (lfs_head ?s k) = of_nat (card (lfs_in slot ?U k)) \<and> (lfs_in slot ?U k = {} \<longrightarrow> lfs_top ?s k = 0)
      \<and> (lfs_top ?s k \<noteq> 0 \<longrightarrow> (\<exists>b \<in> set (filter P B). lfs_top ?s k \<in> set (butlast b)))" if k: "k < 2 ^ order" for k
  proof (intro conjI impI)
    have part: "lfs_in slot ?U k = lfs_in slot U k - (if k = ?i then {t} else {})" by auto
    have card: "card (lfs_in slot U k) = card (lfs_in slot ?U k) + (if k = ?i then 1 else 0)"
    proof (cases "k = ?i")
      case True
      have "card (lfs_in slot U k) = Suc (card (lfs_in slot U k - {t}))"
        using card.remove [OF fin tin] True by simp
      with True part show ?thesis by simp
    next
      case False
      then show ?thesis unfolding part by simp
    qed
    show "lfs_refs (lfs_head ?s k) = of_nat (card (lfs_in slot ?U k))"
      using lfs_left_top(2) [of ?i s k] card G(5) [OF i] G(5) [OF k] by (cases "k = ?i") simp_all
    show "lfs_top ?s k = 0" if e: "lfs_in slot ?U k = {}"
    proof (cases "k = ?i")
      case True
      have "card (lfs_in slot U k) = 0 + (if k = ?i then 1 else 0)" using card unfolding e card.empty .
      with True have "card (lfs_in slot U ?i) = 1" by simp
      with True lfs_occupied(3) [OF g i] show ?thesis unfolding lfs_left_top(1) by simp
    next
      case False
      have "lfs_in slot U k = lfs_in slot ?U k" unfolding part using False by simp
      then have "lfs_in slot U k = {}" unfolding e .
      with G(6) [OF k] False show ?thesis unfolding lfs_left_top(1) by simp
    qed
    show "\<exists>b \<in> set (filter P B). lfs_top ?s k \<in> set (butlast b)" if nz: "lfs_top ?s k \<noteq> 0"
    proof -
      have same: "lfs_top ?s k = lfs_top s k" using nz unfolding lfs_left_top(1) by (auto split: if_splits)
      then obtain b where b: "b \<in> set B" "lfs_top ?s k \<in> set (butlast b)" using G(7) [OF k] nz by auto
      have "k \<in> {k. k < 2 ^ order \<and> lfs_top s' k \<in> set b}"
        using k in_set_butlastD [OF b(2)] unfolding h by simp
      then have "lfs_heads order s' b \<noteq> 0" unfolding lfs_heads_def by (auto simp: card_eq_0_iff)
      with P b show ?thesis by auto
    qed
  qed
  have "lfs_at (smr_next ?s) (lfs_top ?s (slot u)) (H u) ((K(t := [])) u)
      \<and> (\<forall>b \<in> set (filter P B). lfs_top ?s (slot u) \<in> set b \<longrightarrow> set ((K(t := [])) u) \<inter> set b = {})" if u: "u \<in> ?U" for u
    using G(8,9) [of u] u unfolding others [OF u] by (simp add: lfs_put_head_def)
  moreover have "\<forall>u < n. u \<notin> ?U \<longrightarrow> (K(t := [])) u = []" using G(10) by auto
  ultimately have "lfs_ghost order n slot ?U (K(t := [])) (filter P B) H ?s"
    using G(1-4) slots unfolding lfs_ghost_def by (intro conjI) auto
  then show ?thesis
  proof (rule lfs_ghost_cong [OF _ h])
    fix u x assume u: "u \<in> ?U" and x: "x \<in> insert (lfs_top ?s (slot u)) (set ((K(t := [])) u))" "x \<noteq> 0"
    have "smr_next s' x = smr_next s x" by (rule nx [OF u _ x(2)]) (use x(1) u others [OF u] in auto)
    then show "smr_next s' x = smr_next ?s x" by (simp add: lfs_put_head_def)
  qed
qed

section \<open>Handing a batch to the slots\<close>

definition lfs_frame :: "'a lfsmr_scheme \<Rightarrow> 'a lfsmr_scheme \<Rightarrow> bool" where
  "lfs_frame s s' \<longleftrightarrow> s' = s\<lparr>smr_next := smr_next s', smr_refs := smr_refs s', lfs_head := lfs_head s'\<rparr>"

lemma lfs_frameI: "s' = s\<lparr>smr_next := a, smr_refs := r, lfs_head := h\<rparr> \<Longrightarrow> lfs_frame s s'"
  by (simp add: lfs_frame_def)

lemma lfs_frame_trans: "lfs_frame s s' \<Longrightarrow> lfs_frame s' s'' \<Longrightarrow> lfs_frame s s''"
proof -
  assume "lfs_frame s s'" "lfs_frame s' s''"
  then obtain a b c d e f where "s' = s\<lparr>smr_next := a, smr_refs := b, lfs_head := c\<rparr>"
    "s'' = s'\<lparr>smr_next := d, smr_refs := e, lfs_head := f\<rparr>" unfolding lfs_frame_def by blast
  then show ?thesis by (simp add: lfs_frame_def)
qed

lemma lfs_frame_pushed: "smr_frame (lfs_pushed j y s) s' \<Longrightarrow> lfs_frame s s'"
proof -
  assume "smr_frame (lfs_pushed j y s) s'"
  then obtain a b where "s' = (lfs_pushed j y s)\<lparr>smr_next := a, smr_refs := b\<rparr>" unfolding smr_frame_def by blast
  then show ?thesis by (simp add: lfs_frame_def lfs_put_head_def smr_set_next_def)
qed

lemma lfs_frame_fields:
  assumes "lfs_frame s s'"
  shows "smr_link s' = smr_link s" "reclaimed s' = reclaimed s" "task_num s' = task_num s"
    "count_retired s' = count_retired s" "cells s' = cells s" "lfsmr.more s' = lfsmr.more s"
proof -
  obtain a b c where "s' = s\<lparr>smr_next := a, smr_refs := b, lfs_head := c\<rparr>" using assms unfolding lfs_frame_def by blast
  then show "smr_link s' = smr_link s" "reclaimed s' = reclaimed s" "task_num s' = task_num s"
    "count_retired s' = count_retired s" "cells s' = cells s" "lfsmr.more s' = lfsmr.more s" by simp_all
qed

abbreviation lfs_active :: "'a lfsmr_scheme \<Rightarrow> nat \<Rightarrow> bool" where
  "lfs_active s i \<equiv> lfs_refs (lfs_head s i) \<noteq> 0"

text \<open>\<open>__retire\<close> for some of the slots; the others have been skipped, as often as \<open>adjs\<close> says.\<close>

definition lfs_hand :: "nat \<Rightarrow> 'a lfs_atomics \<Rightarrow> (ptr \<Rightarrow> 'a lfsmr_scheme \<Rightarrow> 'a lfsmr_scheme) \<Rightarrow> ptr \<Rightarrow> nat \<Rightarrow> nat list
    \<Rightarrow> u64 \<Rightarrow> u64 \<Rightarrow> bool \<Rightarrow> 'a lfsmr_scheme world \<Rightarrow> (bool \<times> 'a lfsmr_scheme world) option" where
  "lfs_hand fuel A fr base order js first adjs d w =
     (case lfs_slots fuel A order base js first adjs d 0 w of None \<Rightarrow> None
      | Some (adjs, do_adjs, list, w) \<Rightarrow>
          let (list, w) = (if do_adjs then smr_adjust_refs list first adjs base w else (list, w))
          in map_option (\<lambda>w. (True, w)) (smr_free_list fuel list fr base w))"

locale lfs_lib = lf_words A + smr_callback fr obj V smr_kept
  for A :: "'a lfs_atomics" and fr :: "ptr \<Rightarrow> 'a lfsmr_scheme \<Rightarrow> 'a lfsmr_scheme" and obj :: "ptr \<Rightarrow> ptr"
    and V :: "ptr \<Rightarrow> bool"

context lfs_lib begin

lemma lfs_push_run:
  "lfs_push (Suc f) A 0 i y (lfs_head s i) (s, []) =
     (if lfs_active s i then Some (True, lfs_top s i, lfs_refs (lfs_head s i), (lfs_pushed i y s, []))
      else Some (False, 0, 0, (s, [])))"
proof (cases "lfs_active s i")
  case True
  obtain r p where h: "lfs_head s i = lfs_mk r p" by (rule lfs_mk_cases)
  have "(lfs_mk r p AND lfref_mask) OR (push_bit lfrptr_shift (ucast y) AND NOT lfref_mask) = lfs_mk r y"
    by (simp only: and_mask halves_mk)
  moreover have "new_ptr full (lfs_mk r p) (lfs_mk r y) = lfs_mk r y" for full
    by (simp only: new_ptr_def halves_mk(4) if_cancel)
  ultimately show ?thesis using True h
    by (simp add: smr_addr_def own_alone ptr_weak_alone smr_set_next_def Let_def del: and_mask and_not_mask)
qed simp

lemma lfs_slots_run:
  assumes "smr_ginv (lfs_hold order s) n K B [] 0 s" "lfs_ghost order n slot U K (b # B) H s"
    and "set js \<subseteq> {..<2 ^ order}" "distinct js" "\<forall>j \<in> set js. lfs_top s j \<notin> set b"
    and "batch_links (smr_refs s) rest" "distinct rest" "set (butlast rest) \<subseteq> set (butlast b)"
      "length (filter (lfs_active s) js) < length rest" "\<forall>i < 2 ^ order. lfs_top s i \<notin> set rest"
    and "set b \<inter> set (concat B) = {}" "0 \<notin> set b"
  shows "\<exists>s' K'. lfs_slots (Suc f) A order 0 js (hd rest) adjs d 0 (s, [])
        = Some (adjs + of_nat (length (filter (\<lambda>j. \<not> lfs_active s j) js)) * lfs_addend order,
                d \<or> (\<exists>j \<in> set js. \<not> lfs_active s j), 0, (s', []))
     \<and> smr_ginv (lfs_hold order s') n K' B [] 0 s' \<and> lfs_ghost order n slot U K' (b # B) H s'
     \<and> (\<forall>j < 2 ^ order. if j \<in> set js \<and> lfs_active s j then lfs_top s' j \<in> set b else lfs_top s' j = lfs_top s j)
     \<and> (\<forall>j. lfs_active s' j = lfs_active s j)
     \<and> (\<forall>u \<in> U. \<forall>c \<in> set B. lfs_holds slot K s u c \<longrightarrow> lfs_holds slot K' s' u c)
     \<and> same_nodes (set (butlast rest) \<union> last ` set B) s s'
     \<and> (\<forall>x. x \<notin> last ` set B \<longrightarrow> smr_refs s' x = smr_refs s x) \<and> lfs_frame s s'"
  using assms
proof (induction js arbitrary: s K rest adjs d)
  case Nil
  then show ?case by (intro exI [of _ s] exI [of _ K]) (simp add: lfs_frame_def)
next
  case (Cons j js)
  note inv = Cons.prems(1) and g = Cons.prems(2)
  show ?case
  proof (cases "lfs_active s j")
    case False
    have "\<exists>s' K'. lfs_slots (Suc f) A order 0 js (hd rest) (adjs + lfs_addend order) True 0 (s, [])
        = Some (adjs + lfs_addend order + of_nat (length (filter (\<lambda>j. \<not> lfs_active s j) js)) * lfs_addend order,
                True \<or> (\<exists>j \<in> set js. \<not> lfs_active s j), 0, (s', []))
     \<and> smr_ginv (lfs_hold order s') n K' B [] 0 s' \<and> lfs_ghost order n slot U K' (b # B) H s'
     \<and> (\<forall>j < 2 ^ order. if j \<in> set js \<and> lfs_active s j then lfs_top s' j \<in> set b else lfs_top s' j = lfs_top s j)
     \<and> (\<forall>j. lfs_active s' j = lfs_active s j)
     \<and> (\<forall>u \<in> U. \<forall>c \<in> set B. lfs_holds slot K s u c \<longrightarrow> lfs_holds slot K' s' u c)
     \<and> same_nodes (set (butlast rest) \<union> last ` set B) s s'
     \<and> (\<forall>x. x \<notin> last ` set B \<longrightarrow> smr_refs s' x = smr_refs s x) \<and> lfs_frame s s'"
      by (rule Cons.IH [OF inv g]) (use Cons.prems(3-) False in simp_all)
    then obtain s' K' where r: "lfs_slots (Suc f) A order 0 js (hd rest) (adjs + lfs_addend order) True 0 (s, [])
        = Some (adjs + lfs_addend order + of_nat (length (filter (\<lambda>j. \<not> lfs_active s j) js)) * lfs_addend order,
                True, 0, (s', []))"
      "smr_ginv (lfs_hold order s') n K' B [] 0 s'" "lfs_ghost order n slot U K' (b # B) H s'"
      "\<And>j. j < 2 ^ order \<Longrightarrow> if j \<in> set js \<and> lfs_active s j then lfs_top s' j \<in> set b else lfs_top s' j = lfs_top s j"
      "\<forall>j. lfs_active s' j = lfs_active s j"
      "\<forall>u \<in> U. \<forall>c \<in> set B. lfs_holds slot K s u c \<longrightarrow> lfs_holds slot K' s' u c"
      "same_nodes (set (butlast rest) \<union> last ` set B) s s'"
      "\<forall>x. x \<notin> last ` set B \<longrightarrow> smr_refs s' x = smr_refs s x" "lfs_frame s s'"
      by (elim exE conjE) (rule that; simp)
    have run: "lfs_slots (Suc f) A order 0 (j # js) (hd rest) adjs d 0 (s, [])
        = lfs_slots (Suc f) A order 0 js (hd rest) (adjs + lfs_addend order) True 0 (s, [])"
      using False lfs_push_run [of f j "hd rest" s] by (simp add: load_alone del: lfs_push.simps)
    have "if i \<in> set (j # js) \<and> lfs_active s i then lfs_top s' i \<in> set b else lfs_top s' i = lfs_top s i"
      if "i < 2 ^ order" for i using r(4) [OF that] False by (cases "i = j") auto
    then show ?thesis unfolding run r(1) using r(2,3,5-) False
      by (intro exI [of _ s'] exI [of _ K']) (simp add: algebra_simps)
  next
    case True
    then obtain x y r where rest: "rest = x # y # r"
      using Cons.prems(9) by (cases rest; cases "tl rest") auto
    have jo: "j < 2 ^ order" "j \<notin> set js" using Cons.prems(3,4) by auto
    have x: "x \<in> set (butlast b)" "\<And>i. i < 2 ^ order \<Longrightarrow> lfs_top s i \<noteq> x" "smr_refs s x = y"
      using Cons.prems(6,8,10) rest by auto
    have xB: "x \<notin> last ` set B"
      using batch_lasts [OF inv] Cons.prems(11) in_set_butlastD [OF x(1)] by blast
    let ?p = "lfs_top s j" let ?K = "lfs_behind slot U j ?p K"
    obtain s1 where s1: "if ?p \<noteq> 0
        then smr_adjust_refs 0 ?p (lfs_addend order + lfs_refs (lfs_head s j)) 0 (lfs_pushed j x s, []) = (0, (s1, []))
        else s1 = lfs_pushed j x s"
      "smr_ginv (lfs_hold order s1) n ?K B [] 0 s1" "lfs_ghost order n slot U ?K (b # B) H s1"
      "same_nodes (insert x (last ` set B)) s s1" "\<And>z. z \<notin> last ` set B \<Longrightarrow> smr_refs s1 z = smr_refs s z"
      "smr_frame (lfs_pushed j x s) s1"
      using lfs_slot_push [OF inv g jo(1) True x(1,2) Cons.prems(11,12)] Cons.prems(5) by auto
    note h1 = smr_frame_head [OF s1(6)]
    have top: "lfs_top s1 i = (if i = j then x else lfs_top s i)" "lfs_refs (lfs_head s1 i) = lfs_refs (lfs_head s i)" for i
      unfolding h1 by (simp_all add: lfs_put_head_def smr_set_next_def)
    have "\<exists>s' K'. lfs_slots (Suc f) A order 0 js (hd (y # r)) adjs d 0 (s1, [])
        = Some (adjs + of_nat (length (filter (\<lambda>j. \<not> lfs_active s1 j) js)) * lfs_addend order,
                d \<or> (\<exists>j \<in> set js. \<not> lfs_active s1 j), 0, (s', []))
     \<and> smr_ginv (lfs_hold order s') n K' B [] 0 s' \<and> lfs_ghost order n slot U K' (b # B) H s'
     \<and> (\<forall>j < 2 ^ order. if j \<in> set js \<and> lfs_active s1 j then lfs_top s' j \<in> set b else lfs_top s' j = lfs_top s1 j)
     \<and> (\<forall>j. lfs_active s' j = lfs_active s1 j)
     \<and> (\<forall>u \<in> U. \<forall>c \<in> set B. lfs_holds slot ?K s1 u c \<longrightarrow> lfs_holds slot K' s' u c)
     \<and> same_nodes (set (butlast (y # r)) \<union> last ` set B) s1 s'
     \<and> (\<forall>x. x \<notin> last ` set B \<longrightarrow> smr_refs s' x = smr_refs s1 x) \<and> lfs_frame s1 s'"
    proof (rule Cons.IH [OF s1(2,3)])
      show "set js \<subseteq> {..<2 ^ order}" "distinct js" "set b \<inter> set (concat B) = {}" "0 \<notin> set b"
        using Cons.prems(3,4,11,12) by auto
      show "\<forall>j \<in> set js. lfs_top s1 j \<notin> set b" using Cons.prems(5) jo(2) top(1) by auto
      show "distinct (y # r)" "set (butlast (y # r)) \<subseteq> set (butlast b)" using Cons.prems(7,8) rest by auto
      show "length (filter (lfs_active s1) js) < length (y # r)" using Cons.prems(9) True rest top(2) by simp
      show "\<forall>i < 2 ^ order. lfs_top s1 i \<notin> set (y # r)" using Cons.prems(7,10) rest top(1) by auto
      have "smr_refs s1 z = smr_refs s z" if "z \<in> set (butlast (y # r))" for z
      proof -
        have "z \<in> set b" using that Cons.prems(8) rest by (auto dest: in_set_butlastD split: if_splits)
        then show ?thesis using s1(5) batch_lasts [OF inv] Cons.prems(11) by blast
      qed
      then have "batch_links (smr_refs s1) (y # r) = batch_links (smr_refs s) (y # r)"
        by (intro batch_links_cong) blast
      then show "batch_links (smr_refs s1) (y # r)" using Cons.prems(6) rest by simp
    qed
    then obtain s' K' where r: "lfs_slots (Suc f) A order 0 js y adjs d 0 (s1, [])
        = Some (adjs + of_nat (length (filter (\<lambda>j. \<not> lfs_active s j) js)) * lfs_addend order,
                d \<or> (\<exists>j \<in> set js. \<not> lfs_active s j), 0, (s', []))"
      "smr_ginv (lfs_hold order s') n K' B [] 0 s'" "lfs_ghost order n slot U K' (b # B) H s'"
      "\<And>j. j < 2 ^ order \<Longrightarrow> if j \<in> set js \<and> lfs_active s j then lfs_top s' j \<in> set b else lfs_top s' j = lfs_top s1 j"
      "\<forall>j. lfs_active s' j = lfs_active s j"
      "\<And>u c. u \<in> U \<Longrightarrow> c \<in> set B \<Longrightarrow> lfs_holds slot ?K s1 u c \<Longrightarrow> lfs_holds slot K' s' u c"
      "same_nodes (set (butlast (y # r)) \<union> last ` set B) s1 s'"
      "\<And>x. x \<notin> last ` set B \<Longrightarrow> smr_refs s' x = smr_refs s1 x" "lfs_frame s1 s'"
      unfolding top(2) list.sel by (elim exE conjE) (rule that; blast)
    have "lfs_slots (Suc f) A order 0 (j # js) x adjs d 0 (s, []) = lfs_slots (Suc f) A order 0 js y adjs d 0 (s1, [])"
      using True s1(1) s1(5) [OF xB] x(3) lfs_push_run [of f j x s]
      by (simp add: load_alone smr_addr_def del: lfs_push.simps split: if_splits)
    then have run: "lfs_slots (Suc f) A order 0 (j # js) (hd rest) adjs d 0 (s, [])
        = Some (adjs + of_nat (length (filter (\<lambda>j. \<not> lfs_active s j) (j # js))) * lfs_addend order,
                d \<or> (\<exists>j \<in> set (j # js). \<not> lfs_active s j), 0, (s', []))"
      using r(1) True rest by simp
    have tops: "if i \<in> set (j # js) \<and> lfs_active s i then lfs_top s' i \<in> set b else lfs_top s' i = lfs_top s i"
      if "i < 2 ^ order" for i
      using r(4) [OF that] True jo(2) top(1) [of i] in_set_butlastD [OF x(1)] by (cases "i = j") auto
    have hold: "lfs_holds slot K' s' u c" if "u \<in> U" "c \<in> set B" "lfs_holds slot K s u c" for u c
    proof (rule r(6) [OF that(1,2)])
      have "lfs_top s (slot u) \<noteq> 0" if "lfs_top s (slot u) \<in> set c"
        using smr_ginvD(3) [OF inv, of 0] \<open>c \<in> set B\<close> that by force
      then show "lfs_holds slot ?K s1 u c"
        using that top(1) [of "slot u"] unfolding lfs_holds_def by (cases "slot u = j") auto
    qed
    have nodes: "same_nodes (set (butlast rest) \<union> last ` set B) s s'"
      by (rule same_nodes_trans [OF s1(4) r(7)]) (use rest in auto)
    have frame: "lfs_frame s s'" by (rule lfs_frame_trans [OF lfs_frame_pushed [OF s1(6)] r(9)])
    have all: "\<forall>i < 2 ^ order. if i \<in> set (j # js) \<and> lfs_active s i then lfs_top s' i \<in> set b else lfs_top s' i = lfs_top s i"
      "\<forall>u \<in> U. \<forall>c \<in> set B. lfs_holds slot K s u c \<longrightarrow> lfs_holds slot K' s' u c"
      "\<forall>x. x \<notin> last ` set B \<longrightarrow> smr_refs s' x = smr_refs s x"
      using tops hold r(8) s1(5) by simp_all
    show ?thesis
      by (intro exI [of _ s'] exI [of _ K'] conjI) (fact run r(2,3,5) all nodes frame)+
  qed
qed

text \<open>The batch \<open>b\<close> is new: its nodes are not in use, its counter is 0, and it has more nodes than
  there are active slots.\<close>

lemma lfs_ghost_new:
  assumes g: "lfs_ghost order n slot U K B H s" and b: "set b \<inter> set (concat B) = {}" "0 \<notin> set b"
  shows "lfs_ghost order n slot U K (b # B) H s" "\<And>i. i < 2 ^ order \<Longrightarrow> lfs_top s i \<notin> set b"
proof -
  note G = lfs_ghostD [OF g]
  show top: "lfs_top s i \<notin> set b" if i: "i < 2 ^ order" for i
  proof (cases "lfs_top s i = 0")
    case False
    then have "lfs_top s i \<in> set (concat B)" using G(7) [OF i] by (auto dest: in_set_butlastD)
    with b(1) show ?thesis by blast
  qed (use b(2) in simp)
  have "\<forall>u \<in> U. lfs_top s (slot u) \<notin> set b" using top G(3,4) by blast
  then show "lfs_ghost order n slot U K (b # B) H s" using g unfolding lfs_ghost_def by auto
qed

lemma lfs_ghost_drop:
  assumes "lfs_ghost order n slot U K (b # B) H s" "\<And>i. i < 2 ^ order \<Longrightarrow> lfs_top s i \<notin> set b"
  shows "lfs_ghost order n slot U K B H s"
proof -
  note G = lfs_ghostD [OF assms(1)]
  have "\<exists>c \<in> set B. lfs_top s i \<in> set (butlast c)" if "i < 2 ^ order" "lfs_top s i \<noteq> 0" for i
    using G(7) [OF that] assms(2) [OF that(1)] by (auto dest: in_set_butlastD)
  moreover have "lfs_at (smr_next s) (lfs_top s (slot u)) (H u) (K u)
      \<and> (\<forall>c \<in> set B. lfs_top s (slot u) \<in> set c \<longrightarrow> set (K u) \<inter> set c = {})" if "u \<in> U" for u
    using G(8,9) [OF that] by simp
  ultimately show ?thesis using G(1-6,10) unfolding lfs_ghost_def by blast
qed

lemma smr_ginv_add:
  assumes inv: "smr_ginv hold N L B [] 0 s" and b: "batch_ok s b" "distinct b" "0 \<notin> set b" "set b \<inter> set (concat B) = {}"
    and h: "hold b \<noteq> None" "smr_refs s (last b) = held (hold b)"
  shows "smr_ginv hold N L (b # B) [] 0 s"
proof -
  note I = smr_ginvD [OF inv]
  have out: "set (L i) \<inter> set b = {}" if "i < N" for i
    using I(6) [OF that] gslot_node(1) [OF inv] b(4) by blast
  then have z: "in_slots N L b = 0" unfolding in_slots_0 by blast
  have "\<forall>c \<in> set (b # B). batch_ok s c \<and> smr_refs s (last c) = of_nat (in_slots N L c) + held (hold c)
      \<and> (0 < in_slots N L c \<or> hold c \<noteq> None) \<and> stays (hold c) (in_slots N L c)"
    using I(8-10,12) b(1) h z by (auto simp: stays_def)
  moreover have "\<forall>i<N. \<forall>c \<in> set (b # B). \<forall>x \<in> set (L i). \<forall>y \<in> set (L i). x \<in> set c \<longrightarrow> y \<in> set c \<longrightarrow> x = y"
    using I(7) out by (simp add: disjoint_iff)
  moreover have "distinct (concat (b # B) @ concat [])" "0 \<notin> set (concat (b # B) @ concat [])"
    using I(1,3) b(2-4) by auto
  ultimately show ?thesis using I(5,6,11) unfolding smr_ginv_def by auto
qed

lemma lfs_hand_run:
  assumes inv: "lfs_inv order n slot U K B H s"
    and b: "batch_ok s b" "smr_refs s (last b) = 0" "distinct b" "set b \<inter> set (concat B) = {}"
      "\<forall>x \<in> set b. x \<noteq> 0 \<and> V x" "length (filter (lfs_active s) js) < length b"
    and js: "set js \<subseteq> {..<2 ^ order}" "distinct js"
    and fuel: "length b < fuel"
  shows "\<exists>s' K'. lfs_hand fuel A fr 0 order js (hd b) (of_nat (2 ^ order - length js) * lfs_addend order)
         (length js < 2 ^ order) (s, []) = Some (True, (s', []))
     \<and> same_nodes (set b \<union> set (concat B)) s s' \<and> task_num s' = task_num s \<and> count_retired s' = count_retired s
     \<and> cells s' = cells s \<and> lfsmr.more s' = lfsmr.more s
     \<and> (\<forall>u \<in> U. \<forall>c \<in> set B. lfs_holds slot K s u c \<longrightarrow> lfs_holds slot K' s' u c)
     \<and> (if \<exists>j \<in> set js. lfs_active s j
        then reclaimed s' = reclaimed s \<and> lfs_inv order n slot U K' (b # B) H s'
          \<and> (\<forall>u \<in> U. slot u \<in> set js \<longrightarrow> lfs_holds slot K' s' u b)
        else reclaimed s' = reclaimed s @ map obj b \<and> lfs_inv order n slot U K' B H s')"
proof -
  have gi: "smr_ginv (lfs_hold order s) n K B [] 0 s" and g: "lfs_ghost order n slot U K B H s"
    using inv by (simp_all add: lfs_inv_def)
  let ?N = "(2 :: nat) ^ order" let ?idle = "\<lambda>j. \<not> lfs_active s j"
  let ?a = "of_nat (?N - length js) * lfs_addend order" let ?p = "length js < ?N"
  obtain f where f: "fuel = Suc f" using fuel by (cases fuel) auto
  have b0: "0 \<notin> set b" using b(5) by blast
  have bl: "2 \<le> length b" "batch_links (smr_refs s) b" using b(1) by (auto simp: batch_ok_def)
  note new = lfs_ghost_new [OF g b(4) b0]
  have top: "\<forall>i < ?N. lfs_top s i \<notin> set b" using new(2) by blast
  have "\<exists>s' K'. lfs_slots (Suc f) A order 0 js (hd b) ?a ?p 0 (s, [])
        = Some (?a + of_nat (length (filter ?idle js)) * lfs_addend order,
                ?p \<or> (\<exists>j \<in> set js. ?idle j), 0, (s', []))
     \<and> smr_ginv (lfs_hold order s') n K' B [] 0 s' \<and> lfs_ghost order n slot U K' (b # B) H s'
     \<and> (\<forall>j < ?N. if j \<in> set js \<and> lfs_active s j then lfs_top s' j \<in> set b else lfs_top s' j = lfs_top s j)
     \<and> (\<forall>j. lfs_active s' j = lfs_active s j)
     \<and> (\<forall>u \<in> U. \<forall>c \<in> set B. lfs_holds slot K s u c \<longrightarrow> lfs_holds slot K' s' u c)
     \<and> same_nodes (set (butlast b) \<union> last ` set B) s s'
     \<and> (\<forall>x. x \<notin> last ` set B \<longrightarrow> smr_refs s' x = smr_refs s x) \<and> lfs_frame s s'"
    by (rule lfs_slots_run [OF gi new(1)]) (use bl b b0 top js in auto)
  then obtain s1 K' where r0: "lfs_slots (Suc f) A order 0 js (hd b) ?a ?p 0 (s, [])
        = Some (?a + of_nat (length (filter ?idle js)) * lfs_addend order,
                ?p \<or> (\<exists>j \<in> set js. ?idle j), 0, (s1, []))"
      "smr_ginv (lfs_hold order s1) n K' B [] 0 s1" "lfs_ghost order n slot U K' (b # B) H s1"
      "\<forall>j < ?N. if j \<in> set js \<and> lfs_active s j then lfs_top s1 j \<in> set b else lfs_top s1 j = lfs_top s j"
      "\<forall>u \<in> U. \<forall>c \<in> set B. lfs_holds slot K s u c \<longrightarrow> lfs_holds slot K' s1 u c"
      "same_nodes (set (butlast b) \<union> last ` set B) s s1"
      "\<forall>x. x \<notin> last ` set B \<longrightarrow> smr_refs s1 x = smr_refs s x" "lfs_frame s s1"
    by (elim exE conjE) (rule that)
  let ?h = "lfs_heads order s1 b" let ?d = "?p \<or> (\<exists>j \<in> set js. ?idle j)"
  have tops: "lfs_top s1 j \<in> set b \<longleftrightarrow> j \<in> set js \<and> lfs_active s j" if "j < ?N" for j
    using r0(4) [rule_format, OF that] top that by (cases "j \<in> set js \<and> lfs_active s j") simp_all
  have len: "length js \<le> ?N" using card_mono [OF _ js(1)] distinct_card [OF js(2)] by simp
  have h: "?h = length (filter (lfs_active s) js)"
  proof -
    have "{i. i < ?N \<and> lfs_top s1 i \<in> set b} = set (filter (lfs_active s) js)" using tops js(1) by auto
    then show ?thesis unfolding lfs_heads_def using distinct_card [of "filter (lfs_active s) js"] js(2) by simp
  qed
  have split: "length (filter (lfs_active s) js) + length (filter ?idle js) = length js"
    using sum_length_filter_compl [of "lfs_active s" js] by simp
  have idle: "?N - length js + length (filter ?idle js) = ?N - ?h" using len split h by linarith
  have hN: "?h \<le> ?N" by (rule lfs_counts(1) [OF r0(3)]) simp
  have adjs: "?a + of_nat (length (filter ?idle js)) * lfs_addend order = held (hold_of order ?h)"
  proof -
    have "?a + of_nat (length (filter ?idle js)) * lfs_addend order
        = of_nat (?N - length js + length (filter ?idle js)) * lfs_addend order"
      by (simp only: of_nat_add distrib_right)
    also have "\<dots> = held (hold_of order ?h)" unfolding idle by (rule hold_all [OF lfs_ghostD(1) [OF g] hN])
    finally show ?thesis .
  qed
  have d: "?d \<longleftrightarrow> ?h \<noteq> ?N"
  proof -
    have "(\<exists>j \<in> set js. ?idle j) \<longleftrightarrow> length (filter ?idle js) \<noteq> 0" by (simp add: filter_empty_conv)
    then have "?d \<longleftrightarrow> ?N - ?h \<noteq> 0" unfolding idle [symmetric] by auto
    then show ?thesis using hN by linarith
  qed
  have slots: "lfs_slots fuel A order 0 js (hd b) ?a ?p 0 (s, []) = Some (held (hold_of order ?h), ?d, 0, (s1, []))"
    using r0(1) unfolding f adjs by simp
  have bB: "last c \<notin> set b" if "c \<in> set B" for c using batch_lasts [OF gi] b(4) that by blast
  have refs: "smr_refs s1 x = smr_refs s x" if "x \<in> set b" for x
    using r0(7) that bB by (metis imageE)
  note fr = lfs_frame_fields [OF r0(8)]
  have ne: "b \<noteq> []" "hd b \<in> set (butlast b)" "last b \<in> set b"
    using bl(1) by (cases b; auto split: if_splits)+
  have lnk: "smr_link s1 (hd b) = last b" using b(1) ne(2) fr(1) by (simp add: batch_ok_def)
  have refs0: "smr_refs s1 (last b) = 0" using b(2) refs [OF ne(3)] by simp
  have bb: "set (butlast b) \<subseteq> set b" by (auto dest: in_set_butlastD)
  have ok1: "batch_ok s1 b"
  proof -
    have "batch_links (smr_refs s1) b = batch_links (smr_refs s) b"
      using refs bb by (intro batch_links_cong) blast
    with b(1) fr(1) show ?thesis by (simp add: batch_ok_def)
  qed
  have none: "(\<exists>j \<in> set js. lfs_active s j) \<longleftrightarrow> ?h \<noteq> 0" unfolding h by (simp add: filter_empty_conv)
  have same1: "same_nodes (set b \<union> set (concat B)) s s1"
    by (rule same_nodes_mono [OF r0(6)]) (use bb batch_lasts [OF gi] in blast)
  let ?v = "held (hold_of order ?h)"
  have run: "lfs_hand fuel A fr 0 order js (hd b) ?a ?p (s, []) =
      (let (list, w) = (if ?d then smr_adjust_refs 0 (hd b) ?v 0 (s1, []) else (0, (s1, [])))
       in map_option (\<lambda>w. (True, w)) (smr_free_list fuel list fr 0 w))"
    by (simp only: lfs_hand_def slots option.case prod.case)
  let ?s2 = "smr_set_refs (last b) ?v s1" let ?s3 = "smr_set_next (last b) 0 ?s2"
  have adj: "smr_adjust_refs 0 (hd b) ?v 0 (s1, []) = (if ?v = 0 then (last b, (?s3, [])) else (0, (?s2, [])))"
    using lnk refs0 by (simp add: smr_adjust_refs_def smr_addr_def smr_fetch_add_alone own_alone Let_def)
  have same: "same_nodes {last b} s1 ?s2" "same_nodes {last b} s1 ?s3"
    by (simp_all add: same_nodes_def smr_set_refs_def smr_set_next_def)
  have lb: "{last b} \<inter> set (concat B @ concat []) = {}" using ne(3) b(4) by auto
  show ?thesis
  proof (cases "\<exists>j \<in> set js. lfs_active s j")
    case False
    then have h0: "?h = 0" using none by blast
    then have d1: ?d and v0: "?v = 0" using d by (simp_all add: held_hold)
    have fld: "smr_refs ?s3 = (smr_refs s1)(last b := 0)" "smr_link ?s3 = smr_link s1" "smr_next ?s3 (last b) = 0"
      "lfs_head ?s3 = lfs_head s1" "smr_kept ?s3 = smr_kept s1" "reclaimed ?s3 = reclaimed s1"
      using v0 by (simp_all add: smr_set_refs_def smr_set_next_def)
    have "chain (smr_refs ?s3) (hd b) b"
    proof (rule batch_links_chain)
      show "batch_links (smr_refs ?s3) b"
        using ok1 last_not_butlast [OF b(3)] batch_links_cong [of b "smr_refs ?s3" "smr_refs s1"]
        unfolding fld(1) batch_ok_def by auto
    qed (use ne(1) b0 in \<open>simp_all add: fld(1)\<close>)
    moreover have "last b \<noteq> 0" using ne(3) b0 by metis
    ultimately have "pend ?s3 (last b) [b]"
      using ok1 ne(1) fld(2,3) by (simp add: batch_ok_def)
    then obtain s4 where s4: "smr_free_list fuel (last b) fr 0 (?s3, []) = Some (s4, [])"
      "reclaimed s4 = reclaimed ?s3 @ map obj (concat [b])" "smr_kept s4 = smr_kept ?s3"
      "same_nodes (set (concat [b])) ?s3 s4"
      using free_list_run [of ?s3 "last b" "[b]" fuel] b(3,5) fuel by auto
    have run': "lfs_hand fuel A fr 0 order js (hd b) ?a ?p (s, []) = Some (True, (s4, []))"
      unfolding run adj using d1 v0 s4(1) by simp
    have kept: "smr_kept s4 = smr_kept s1" using s4(3) fld(5) by simp
    then have head: "lfs_head s4 = lfs_head s1" by (cases s4, cases s1) simp
    have same4: "same_nodes (set b) s1 s4" by (rule same_nodes_trans [OF same(2) s4(4)]) (use ne(3) in auto)
    have "smr_ginv (lfs_hold order s4) n K' B [] 0 s4"
      by (rule smr_ginv_same [OF r0(2) same4]) (use b(4) lfs_heads_cong [OF head] in auto)
    moreover have "lfs_ghost order n slot U K' (b # B) H s4"
    proof (rule lfs_ghost_cong [OF r0(3) head])
      fix u x assume u: "u \<in> U" and x: "x \<in> insert (lfs_top s1 (slot u)) (set (K' u))" "x \<noteq> 0"
      have un: "u < n" "slot u < ?N" using lfs_ghostD(3,4) [OF g] u by blast+
      have "x \<notin> set b"
      proof (cases "x \<in> set (K' u)")
        case True
        from smr_ginvD(6) [OF r0(2) un(1) True] obtain c where "c \<in> set B" "x \<in> set (butlast c)" by blast
        then have "x \<in> set (concat B)" by (auto dest: in_set_butlastD)
        with b(4) show ?thesis by blast
      next
        case False
        with x have "x = lfs_top s1 (slot u)" by simp
        with h0 un(2) show ?thesis unfolding lfs_heads_def by auto
      qed
      then show "smr_next s4 x = smr_next s1 x" using same4 by (simp add: same_nodes_def)
    qed
    then have "lfs_ghost order n slot U K' B H s4"
    proof (rule lfs_ghost_drop)
      fix i :: nat assume "i < ?N"
      then show "lfs_top s4 i \<notin> set b" using h0 unfolding head lfs_heads_def by auto
    qed
    ultimately have "lfs_inv order n slot U K' B H s4" by (simp add: lfs_inv_def)
    moreover have "same_nodes (set b \<union> set (concat B)) s s4"
      by (rule same_nodes_trans [OF same1 same4]) auto
    moreover have "reclaimed s4 = reclaimed s @ map obj b" using s4(2) fld(6) fr(2) by simp
    moreover have "lfsmr.more s4 = lfsmr.more s1" using kept by (cases s4, cases s1) simp
    moreover have "lfs_holds slot K' s4 = lfs_holds slot K' s1" by (simp add: lfs_holds_def fun_eq_iff head)
    ultimately show ?thesis using run' False kept fr r0(5)
      by (intro exI [of _ s4] exI [of _ K']) simp
  next
    case True
    then have pos: "0 < ?h" using none by blast
    define s2 where "s2 = (if ?d then ?s2 else s1)"
    have vd: "?d \<Longrightarrow> ?v \<noteq> 0" "\<not> ?d \<Longrightarrow> ?v = 0"
    proof -
      assume ?d
      then have "?h < ?N" using d hN by linarith
      then show "?v \<noteq> 0" using hold_count(1) [OF lfs_ghostD(1) [OF g], of ?h 0] pos by simp
    next
      assume "\<not> ?d"
      then have "?h = ?N" using d by blast
      then show "?v = 0" using hold_all [OF lfs_ghostD(1) [OF g] hN] by simp
    qed
    have run': "lfs_hand fuel A fr 0 order js (hd b) ?a ?p (s, []) = Some (True, (s2, []))"
      unfolding run adj using vd(1) f by (simp add: s2_def)
    have same2: "same_nodes {last b} s1 s2" using same(1) by (simp add: s2_def)
    have fld: "lfs_head s2 = lfs_head s1" "reclaimed s2 = reclaimed s1" "smr_kept s2 = smr_kept s1"
      "lfsmr.more s2 = lfsmr.more s1" "smr_next s2 = smr_next s1" "smr_refs s2 (last b) = ?v" "smr_link s2 = smr_link s1"
      "\<And>x. x \<noteq> last b \<Longrightarrow> smr_refs s2 x = smr_refs s1 x"
      using vd(2) refs0 by (simp_all add: s2_def smr_set_refs_def)
    have "smr_ginv (lfs_hold order s2) n K' B [] 0 s2"
      by (rule smr_ginv_same [OF r0(2) same2 lb]) (simp add: lfs_heads_cong [OF fld(1)])
    moreover have "batch_ok s2 b"
      using ok1 last_not_butlast [OF b(3)] batch_links_cong [of b "smr_refs s2" "smr_refs s1"] fld(7,8)
      by (simp add: batch_ok_def)
    ultimately have "smr_ginv (lfs_hold order s2) n K' (b # B) [] 0 s2"
      using b(3,4) b0 pos fld(6) by (intro smr_ginv_add) (simp_all add: lfs_heads_cong [OF fld(1)] held_hold(2))
    moreover have "lfs_ghost order n slot U K' (b # B) H s2"
      by (rule lfs_ghost_cong [OF r0(3) fld(1)]) (simp add: fld(5))
    ultimately have "lfs_inv order n slot U K' (b # B) H s2" by (simp add: lfs_inv_def)
    moreover have "same_nodes (set b \<union> set (concat B)) s s2"
      by (rule same_nodes_trans [OF same1 same2]) (use ne(3) in auto)
    moreover have "lfs_holds slot K' s2 u b" if u: "u \<in> U" "slot u \<in> set js" for u
    proof -
      have "slot u < ?N" using lfs_ghostD(3,4) [OF g] u(1) by blast
      moreover from this have "lfs_active s (slot u)" using lfs_occupied(1) [OF g] u(1) by blast
      ultimately show ?thesis using tops u(2) fld(1) by (simp add: lfs_holds_def)
    qed
    moreover have "lfs_holds slot K' s2 = lfs_holds slot K' s1" by (simp add: lfs_holds_def fun_eq_iff fld(1))
    ultimately show ?thesis using run' True fld(2-4) fr r0(5)
      by (intro exI [of _ s2] exI [of _ K']) simp
  qed
qed

lemma lfs_retire_run:
  assumes inv: "lfs_inv order n slot U K B H s"
    and b: "batch_ok s b" "smr_refs s (last b) = 0" "distinct b" "set b \<inter> set (concat B) = {}"
      "\<forall>x \<in> set b. x \<noteq> 0 \<and> V x" "length (filter (lfs_active s) [0..<2 ^ order]) < length b"
    and fuel: "length b < fuel"
  shows "\<exists>s' K'. lfs_retire_batch fuel A fr 0 order (hd b) (s, []) = Some (True, (s', []))
     \<and> same_nodes (set b \<union> set (concat B)) s s' \<and> task_num s' = task_num s \<and> count_retired s' = count_retired s
     \<and> cells s' = cells s \<and> lfsmr.more s' = lfsmr.more s
     \<and> (if U = {} then reclaimed s' = reclaimed s @ map obj b \<and> lfs_inv order n slot U K' B H s'
        else reclaimed s' = reclaimed s \<and> lfs_inv order n slot U K' (b # B) H s'
          \<and> (\<forall>u \<in> U. lfs_holds slot K' s' u b \<and> (\<forall>c \<in> set B. lfs_holds slot K s u c \<longrightarrow> lfs_holds slot K' s' u c)))"
proof -
  have g: "lfs_ghost order n slot U K B H s" using inv by (simp add: lfs_inv_def)
  note G = lfs_ghostD [OF g]
  have "(\<exists>j \<in> set [0..<2 ^ order]. lfs_active s j) \<longleftrightarrow> (\<exists>j < 2 ^ order. lfs_in slot U j \<noteq> {})"
    using lfs_occupied(1) [OF g] by auto
  also have "\<dots> \<longleftrightarrow> U \<noteq> {}" using G(3,4) by auto
  finally have U: "(\<exists>j \<in> set [0..<2 ^ order]. lfs_active s j) \<longleftrightarrow> U \<noteq> {}" .
  have sub: "set [0..<2 ^ order] \<subseteq> {..<2 ^ order}" by auto
  have all: "slot u \<in> set [0..<2 ^ order]" if "u \<in> U" for u using G(3,4) that by auto
  obtain s' K' where r: "lfs_hand fuel A fr 0 order [0..<2 ^ order] (hd b)
         (of_nat (2 ^ order - length [0..<2 ^ order :: nat]) * lfs_addend order) (length [0..<2 ^ order :: nat] < 2 ^ order) (s, [])
       = Some (True, (s', []))"
     "same_nodes (set b \<union> set (concat B)) s s'" "task_num s' = task_num s" "count_retired s' = count_retired s"
     "cells s' = cells s" "lfsmr.more s' = lfsmr.more s"
     "\<forall>u \<in> U. \<forall>c \<in> set B. lfs_holds slot K s u c \<longrightarrow> lfs_holds slot K' s' u c"
     "if U \<noteq> {} then reclaimed s' = reclaimed s \<and> lfs_inv order n slot U K' (b # B) H s'
          \<and> (\<forall>u \<in> U. slot u \<in> set [0..<2 ^ order] \<longrightarrow> lfs_holds slot K' s' u b)
        else reclaimed s' = reclaimed s @ map obj b \<and> lfs_inv order n slot U K' B H s'"
    using lfs_hand_run [OF inv b sub distinct_upt fuel] unfolding U by blast
  have "lfs_retire_batch fuel A fr 0 order (hd b) (s, []) = Some (True, (s', []))"
    using r(1) by (simp add: lfs_retire_batch_def lfs_hand_def)
  moreover have "if U = {} then reclaimed s' = reclaimed s @ map obj b \<and> lfs_inv order n slot U K' B H s'
      else reclaimed s' = reclaimed s \<and> lfs_inv order n slot U K' (b # B) H s'
        \<and> (\<forall>u \<in> U. lfs_holds slot K' s' u b \<and> (\<forall>c \<in> set B. lfs_holds slot K s u c \<longrightarrow> lfs_holds slot K' s' u c))"
    using r(7,8) all by (cases "U = {}") simp_all
  ultimately show ?thesis using r(2-6) by blast
qed

text \<open>\<open>__leave\<close> with any kind of \<open>__LFREF_CMPXCHG_FULL\<close>: the thread is counted out, the last one takes
  the list off.\<close>

lemma lfs_leave_list_eq:
  assumes "\<forall>x. check x" "0 < fuel"
  shows "lfs_leave_list fuel A i order 0 check hdl list (s, []) =
     (let (list, w) = (if lfs_refs (lfs_head s i) = 1 \<and> lfs_top s i \<noteq> 0
                       then smr_adjust_refs list (lfs_top s i) (lfs_addend order) 0 (lfs_left i s, [])
                       else (list, (lfs_left i s, [])))
      in if lfs_top s i \<noteq> hdl
         then map_option (\<lambda>(ok, list, threshold, w). (ok, list, w))
                (smr_traverse fuel (\<lambda>_ _. None) 0 check 0 list 0 (smr_next s (lfs_top s i)) hdl w)
         else Some (True, list, w))"
proof -
  obtain f where f: "fuel = Suc f" using assms(2) by (cases fuel) auto
  obtain r p where h: "lfs_head s i = lfs_mk r p" by (rule lfs_mk_cases)
  define q where "q = r - 1"
  have r: "r = q + 1" "r = 1 \<longleftrightarrow> q = 0" by (simp_all add: q_def)
  note ops = lfs_count_out [where q = q, folded r(1)]
  let ?hd = "if ref_full A \<and> q = 0 then 0 else lfs_mk q p"
  let ?next = "if p \<noteq> hdl then smr_next s p else 0"
  have loop: "lfs_leave_loop fuel A i 0 check hdl 0 (lfs_mk r p) (s, [])
      = Some (True, p, ?next, ?hd, lfs_mk r p, (lfs_put_head i ?hd s, []))"
    using assms(1) h unfolding f
    by (cases "ref_full A \<and> q = 0"; cases "p = hdl")
      (auto simp: Let_def smr_addr_def ref_weak_alone ops lfs_mk_0 simp del: and_mask and_not_mask)
  have left: "lfs_left i s = lfs_put_head i (if q = 0 then 0 else lfs_mk q p) s"
    unfolding h by (simp add: r q_def [symmetric])
  have put: "lfs_put_head i x (lfs_put_head i y s) = lfs_put_head i x s" "lfs_head (lfs_put_head i x s) i = x" for x y
    by (simp_all add: lfs_put_head_def)
  have det: "lfs_detach fuel A i order 0 ?hd p list (lfs_put_head i ?hd s, []) =
      Some (if r = 1 \<and> p \<noteq> 0 then smr_adjust_refs list p (lfs_addend order) 0 (lfs_left i s, [])
            else (list, (lfs_left i s, [])))"
  proof (cases "ref_full A")
    case True
    then show ?thesis unfolding left lfs_detach_def by (auto simp: r lfs_mk_0)
  next
    case False
    have "ref_cmpxchgptr_strong A fuel (\<lambda>s. lfs_head s i) (lfs_put_head i) (lfs_mk q p) 0 (lfs_put_head i (lfs_mk q p) s, [])
        = Some (True, lfs_mk q p, (lfs_put_head i (lfs_mk q 0) s, []))"
      using ptr_strong_alone [OF assms(2)] False by (simp add: put ops)
    with False show ?thesis unfolding left lfs_detach_def
      by (auto simp: r lfs_mk_0 drop_mk halves_mk(2))
  qed
  show ?thesis
    unfolding lfs_leave_list_def h
    by (simp add: load_alone loop det Let_def h split: prod.splits)
qed

lemma lfs_leave_run:
  assumes inv: "lfs_inv order n slot U K B H s" and t: "t \<in> U" and ck: "\<forall>x. check x"
    and fuel: "length (concat B) < fuel" and V: "\<forall>x \<in> set (concat B). V x"
  shows "\<exists>s' P F. lfs_leave fuel A (slot t) order (H t) fr 0 check (s, []) = Some (True, (s', []))
    \<and> lfs_inv order n slot (U - {t}) (K(t := [])) (filter P B) H s'
    \<and> set F = {b \<in> set B. \<not> P b} \<and> distinct (concat F) \<and> reclaimed s' = reclaimed s @ map obj (concat F)
    \<and> same_nodes (set (concat B)) s s' \<and> task_num s' = task_num s \<and> count_retired s' = count_retired s
    \<and> cells s' = cells s \<and> lfsmr.more s' = lfsmr.more s
    \<and> (\<forall>u \<in> U - {t}. \<forall>b \<in> set B. lfs_holds slot K s u b \<longrightarrow> P b \<and> lfs_holds slot (K(t := [])) s' u b)"
proof -
  have gi: "smr_ginv (lfs_hold order s) n K B [] 0 s" and g: "lfs_ghost order n slot U K B H s"
    using inv by (simp_all add: lfs_inv_def)
  note G = lfs_ghostD [OF g]
  let ?i = "slot t" let ?p = "lfs_top s ?i" let ?K = "K(t := [])"
  have tn: "t < n" using t G(3) by blast
  have i: "?i < 2 ^ order" by (rule G(4) [OF tn])
  have fu: "0 < fuel" using fuel by simp
  obtain s2 list F where r: "(if lfs_refs (lfs_head s ?i) = 1 \<and> ?p \<noteq> 0
        then smr_adjust_refs 0 ?p (lfs_addend order) 0 (lfs_left ?i s, []) else (0, (lfs_left ?i s, []))) = (list, (s2, []))"
    "smr_ginv (lfs_hold order s2) n K (filter (\<lambda>d. 0 < in_slots n K d \<or> lfs_hold order s2 d \<noteq> None) B) F list s2"
    "set F = {d \<in> set B. in_slots n K d = 0 \<and> lfs_hold order s2 d = None}"
    "same_nodes (last ` set B) s s2" "smr_frame (lfs_left ?i s) s2"
    using lfs_left_run [OF inv i] by (elim exE conjE) (rule that)
  let ?B1 = "filter (\<lambda>d. 0 < in_slots n K d \<or> lfs_hold order s2 d \<noteq> None) B"
  define P where "P d \<longleftrightarrow> 0 < in_slots n ?K d \<or> lfs_hold order s2 d \<noteq> None" for d
  have less: "in_slots n ?K d \<le> in_slots n K d" for d
    unfolding in_slots_card by (rule card_mono) (auto split: if_splits)
  have B1: "filter (\<lambda>d. 0 < in_slots n ?K d \<or> lfs_hold order s2 d \<noteq> None) ?B1 = filter P B"
    unfolding P_def filter_filter using less_le_trans [OF _ less] by (intro filter_cong) auto
  have node: "\<exists>d \<in> set B. x \<in> set (butlast d)"
    if "u \<in> U" "x \<in> insert (lfs_top s (slot u)) (set (K u))" "x \<noteq> 0" for u x
  proof -
    have un: "u < n" using G(3) that(1) by blast
    show ?thesis
    proof (cases "x \<in> set (K u)")
      case True
      show ?thesis by (rule smr_ginvD(6) [OF gi un True])
    next
      case False
      with that have "x = lfs_top s (slot u)" by simp
      with G(7) [OF G(4) [OF un]] that(3) show ?thesis by simp
    qed
  qed
  have lasts: "x \<notin> last ` set B" if "u \<in> U" "x \<in> insert (lfs_top s (slot u)) (set (K u))" "x \<noteq> 0" for u x
  proof -
    from node [OF that] obtain d where "d \<in> set B" "x \<in> set (butlast d)" by blast
    then show ?thesis by (rule gslot_node(2) [OF gi])
  qed
  have "\<exists>s3 list' F'. (if ?p \<noteq> H t
       then map_option (\<lambda>(ok, list, threshold, w). (ok, list, w))
              (smr_traverse fuel (\<lambda>_ _. None) 0 check 0 list 0 (smr_next s ?p) (H t) (s2, []))
       else Some (True, list, (s2, []))) = Some (True, list', (s3, []))
     \<and> smr_ginv (lfs_hold order s2) n ?K (filter P B) F' list' s3 \<and> set F' = {d \<in> set B. \<not> P d}
     \<and> same_nodes (last ` set B) s s3 \<and> smr_frame s2 s3"
  proof (cases "?p = H t")
    case True
    then have "K t = []" using G(8) [OF t] by (simp add: lfs_at_def)
    then have K: "?K = K" by (simp add: fun_upd_idem)
    have "?B1 = filter P B" "set F = {d \<in> set B. \<not> P d}" using r(3) unfolding P_def K by auto
    then show ?thesis using True r(2,4) unfolding K by (intro exI [of _ s2] exI [of _ list] exI [of _ F]) simp
  next
    case False
    then have at: "?p \<noteq> 0" "walk (smr_next s) (H t) (smr_next s ?p) (K t)" using G(8) [OF t] by (simp_all add: lfs_at_def)
    have "smr_next s2 x = smr_next s x" if "x \<in> set (K t)" for x
    proof -
      have "x \<noteq> 0" using smr_ginvD(6) [OF gi tn that] gslot_node(4) [OF gi] by blast
      then show ?thesis using lasts [OF t] that r(4) by (simp add: same_nodes_def)
    qed
    then have w: "walk (smr_next s2) (H t) (smr_next s ?p) (K t)" using at(2) walk_cong [of "K t" "smr_next s2"] by blast
    have "length (K t) < fuel" using gslot_length [OF gi tn] fuel by simp
    from smr_gtraverse_run [OF r(2) tn G(12) ck w this, of "\<lambda>_ _. None" 0]
    obtain s3 list' F' where a: "smr_traverse fuel (\<lambda>_ _. None) 0 check 0 list 0 (smr_next s ?p) (H t) (s2, []) = Some (True, list', 0, (s3, []))"
      "smr_ginv (lfs_hold order s2) n ?K (filter P B) F' list' s3"
      "set F' = set F \<union> {b \<in> set ?B1. in_slots n ?K b = 0 \<and> lfs_hold order s2 b = None}"
      "same_nodes (last ` set ?B1) s2 s3" "smr_frame s2 s3" unfolding B1 by blast
    have "set F' = {d \<in> set B. \<not> P d}"
    proof (rule set_eqI)
      fix d show "d \<in> set F' \<longleftrightarrow> d \<in> {d \<in> set B. \<not> P d}"
        using less [of d] unfolding a(3) r(3) P_def by auto
    qed
    moreover have "same_nodes (last ` set B) s s3" by (rule same_nodes_trans [OF r(4) a(4)]) auto
    ultimately show ?thesis using False a(1,2,5) by (intro exI [of _ s3] exI [of _ list'] exI [of _ F']) simp
  qed
  then obtain s3 list' F' where c: "(if ?p \<noteq> H t
       then map_option (\<lambda>(ok, list, threshold, w). (ok, list, w))
              (smr_traverse fuel (\<lambda>_ _. None) 0 check 0 list 0 (smr_next s ?p) (H t) (s2, []))
       else Some (True, list, (s2, []))) = Some (True, list', (s3, []))"
     "smr_ginv (lfs_hold order s2) n ?K (filter P B) F' list' s3" "set F' = {d \<in> set B. \<not> P d}"
     "same_nodes (last ` set B) s s3" "smr_frame s2 s3" by (elim exE conjE) (rule that)
  note I3 = smr_ginvD [OF c(2)]
  have leave: "lfs_leave_list fuel A ?i order 0 check (H t) 0 (s, []) = Some (True, list', (s3, []))"
    unfolding lfs_leave_list_eq [OF ck fu] r(1) using c(1) by (simp only: Let_def prod.case)
  have sub: "set (concat F') \<subseteq> set (concat B)" using c(3) by auto
  have "length (concat F') \<le> length (concat B)"
    using card_mono [OF _ sub] distinct_card [OF I3(2)] card_length [of "concat B"] by simp
  then obtain s4 where f: "smr_free_list fuel list' fr 0 (s3, []) = Some (s4, [])"
    "reclaimed s4 = reclaimed s3 @ map obj (concat F')" "smr_kept s4 = smr_kept s3"
    "same_nodes (set (concat F')) s3 s4"
    using free_list_run [OF I3(11,2), of fuel] fuel V sub by fastforce
  have run: "lfs_leave fuel A ?i order (H t) fr 0 check (s, []) = Some (True, (s4, []))"
    by (simp add: lfs_leave_def smr_leave_def leave f(1))
  have kept: "smr_kept s4 = smr_kept (lfs_left ?i s)" "reclaimed s3 = reclaimed s"
    using f(3) smr_frame_kept [OF c(5)] smr_frame_kept [OF r(5)] by (simp_all add: lfs_put_head_def)
  then have head: "lfs_head s4 = lfs_head (lfs_left ?i s)" by (cases s4, cases s) (simp add: lfs_put_head_def)
  have head2: "lfs_head s4 = lfs_head s2" unfolding head by (rule smr_frame_head [OF r(5), symmetric])
  have same: "same_nodes (set (concat B)) s s4"
    by (rule same_nodes_trans [OF c(4) f(4)]) (use batch_lasts [OF gi] sub in auto)
  have inv4: "smr_ginv (lfs_hold order s4) n ?K (filter P B) [] 0 s4"
    by (rule smr_ginv_same [OF smr_ginv_forget [OF c(2)] f(4)])
      (use I3(3) in \<open>auto simp: lfs_heads_cong [OF head2]\<close>)
  have headP: "P d" if "lfs_heads order s4 d \<noteq> 0" for d
    using that lfs_heads_cong [OF head2, of order] by (simp add: P_def held_hold(2))
  have visitP: "P d" if "u \<in> U - {t}" "set (K u) \<inter> set d \<noteq> {}" for u d
  proof -
    have "u < n" "set (?K u) \<inter> set d \<noteq> {}" using that G(3) by auto
    then have "in_slots n ?K d \<noteq> 0" unfolding in_slots_0 by blast
    then show ?thesis by (simp add: P_def)
  qed
  have topP: "lfs_top s4 (slot u) = lfs_top s (slot u) \<and> (lfs_top s (slot u) \<in> set d \<longrightarrow> P d)" if u: "u \<in> U - {t}" for u d
  proof -
    have top: "lfs_top s4 (slot u) = lfs_top s (slot u)" unfolding head using lfs_left_others [OF g t] u by blast
    moreover have "P d" if "lfs_top s (slot u) \<in> set d"
    proof -
      have "slot u \<in> {k. k < 2 ^ order \<and> lfs_top s4 k \<in> set d}" using that top u G(3,4) by auto
      then have "lfs_heads order s4 d \<noteq> 0" unfolding lfs_heads_def by (auto simp: card_eq_0_iff)
      then show ?thesis by (rule headP)
    qed
    ultimately show ?thesis by blast
  qed
  have "lfs_ghost order n slot (U - {t}) ?K (filter P B) H s4"
  proof (rule lfs_ghost_leave [OF g t head])
    show "P d" if "lfs_heads order s4 d \<noteq> 0" for d by (rule headP [OF that])
    fix u x assume u: "u \<in> U - {t}" and x: "x \<in> insert (lfs_top s (slot u)) (set (K u))" "x \<noteq> 0"
    obtain d where d: "d \<in> set B" "x \<in> set (butlast d)" using node [OF _ x] u by blast
    have xd: "x \<in> set d" by (rule in_set_butlastD [OF d(2)])
    have "P d" using x(1) xd topP [OF u, of d] visitP [OF u, of d] by blast
    then have "x \<in> set (concat (filter P B))" using d(1) xd by auto
    then have "x \<notin> set (concat F')" using I3(3) by blast
    then show "smr_next s4 x = smr_next s x"
      using lasts [of u x] u x c(4) f(4) by (simp add: same_nodes_def)
  qed
  with inv4 have "lfs_inv order n slot (U - {t}) ?K (filter P B) H s4" by (simp add: lfs_inv_def)
  moreover have "lfsmr.more s4 = lfsmr.more s" using kept(1) by (cases s4, cases s) (simp add: lfs_put_head_def)
  moreover have "P b \<and> lfs_holds slot ?K s4 u b" if "u \<in> U - {t}" "lfs_holds slot K s u b" for u b
    using that topP [OF that(1), of b] visitP [OF that(1), of b] unfolding lfs_holds_def by auto
  moreover have "task_num s4 = task_num s" "count_retired s4 = count_retired s" "cells s4 = cells s"
    using kept(1) by (simp_all add: lfs_put_head_def)
  moreover have "reclaimed s4 = reclaimed s @ map obj (concat F')" using f(2) kept(2) by simp
  ultimately show ?thesis using run c(3) I3(2) same by blast
qed

lemma lfs_enter_run:
  assumes inv: "lfs_inv order n slot U K B H s" and t: "t < n" "t \<notin> U" and fuel: "0 < fuel"
  defines "s' \<equiv> lfs_put_head (slot t) (lfs_mk (lfs_refs (lfs_head s (slot t)) + 1) (lfs_top s (slot t))) s"
  shows "lfs_enter A fuel (slot t) (s, []) = Some (True, lfs_top s (slot t), (s', []))"
    "lfs_inv order n slot (insert t U) K B (H(t := lfs_top s (slot t))) s'" "lfs_holds slot K s' = lfs_holds slot K s"
proof -
  let ?i = "slot t"
  have gi: "smr_ginv (lfs_hold order s) n K B [] 0 s" and g: "lfs_ghost order n slot U K B H s"
    using inv by (simp_all add: lfs_inv_def)
  note G = lfs_ghostD [OF g]
  obtain r p where h: "lfs_head s ?i = lfs_mk r p" by (rule lfs_mk_cases)
  show "lfs_enter A fuel ?i (s, []) = Some (True, lfs_top s ?i, (s', []))"
    using add_alone [OF fuel low_step, of "\<lambda>s. lfs_head s ?i" "lfs_put_head ?i" s]
    by (simp add: lfs_enter_def h lfs_mk_step s'_def)
  have top: "lfs_top s' k = lfs_top s k" for k by (simp add: s'_def lfs_put_head_def h)
  then show "lfs_holds slot K s' = lfs_holds slot K s" by (simp add: lfs_holds_def fun_eq_iff)
  have refs: "lfs_refs (lfs_head s' k) = of_nat (card (lfs_in slot (insert t U) k))" if k: "k < 2 ^ order" for k
  proof (cases "k = ?i")
    case True
    have "lfs_in slot (insert t U) ?i = insert t (lfs_in slot U ?i)" by auto
    moreover have "finite (lfs_in slot U ?i)" "t \<notin> lfs_in slot U ?i" using G(11) t(2) by simp_all
    ultimately have "card (lfs_in slot (insert t U) ?i) = Suc (card (lfs_in slot U ?i))" by simp
    then show ?thesis using G(5) [OF G(4) [OF t(1)]] True by (simp add: s'_def lfs_put_head_def)
  next
    case False
    then have "lfs_in slot (insert t U) k = lfs_in slot U k" by auto
    then show ?thesis using G(5) [OF k] False by (simp add: s'_def lfs_put_head_def)
  qed
  have "lfs_at (smr_next s') (lfs_top s' (slot u)) ((H(t := lfs_top s ?i)) u) (K u)
      \<and> (\<forall>b \<in> set B. lfs_top s' (slot u) \<in> set b \<longrightarrow> set (K u) \<inter> set b = {})" if u: "u \<in> insert t U" for u
  proof (cases "u = t")
    case True
    then have "K u = []" using G(10) t by blast
    with True show ?thesis by (simp add: lfs_at_def top)
  next
    case False
    then have "u \<in> U" using u by blast
    with False G(8,9) show ?thesis unfolding top by (simp add: s'_def lfs_put_head_def)
  qed
  moreover have "lfs_top s' k = 0" if "k < 2 ^ order" "lfs_in slot (insert t U) k = {}" for k
  proof -
    have "lfs_in slot U k \<subseteq> lfs_in slot (insert t U) k" by blast
    then have "lfs_in slot U k = {}" using that(2) by (metis subset_empty)
    with G(6) [OF that(1)] show ?thesis unfolding top by blast
  qed
  ultimately have "lfs_ghost order n slot (insert t U) K B (H(t := lfs_top s ?i)) s'"
    using G(1,2,3,4,7,10) t(1) refs unfolding lfs_ghost_def top by (intro conjI allI impI ballI) auto
  moreover have "smr_ginv (lfs_hold order s') n K B [] 0 s'"
  proof (rule smr_ginv_same [OF gi, of "{}"])
    show "same_nodes {} s s'" by (simp add: same_nodes_def s'_def lfs_put_head_def)
    show "lfs_hold order s' b = lfs_hold order s b" for b by (simp add: lfs_heads_def top)
  qed simp
  ultimately show "lfs_inv order n slot (insert t U) K B (H(t := lfs_top s ?i)) s'" by (simp add: lfs_inv_def)
qed

end

end
