(* ===== verification/Gcc_X86.thy ===== *)
theory Gcc_X86
  imports Atomics
begin

text \<open>
  \<open>hyaline/bits/gcc_x86.h\<close>: the double-width operations of GCC on x86, with \<open>cmpxchg8b\<close> or
  \<open>cmpxchg16b\<close>.  A volatile read of a double word is two word loads.  \<open>W\<close> is
  \<open>LFATOMIC_BIG_WIDTH\<close>, so \<open>LENGTH('d) = W\<close> is \<open>sizeof(dtype_t) == sizeof(lfatomic_big_t)\<close>;
  \<open>i386\<close> says that \<open>__i386__\<close> is defined, \<open>le\<close> that \<open>__LITTLE_ENDIAN__\<close> is, which GCC
  does not do on x86.
\<close>

definition gcc_big_init :: "('d::len word \<Rightarrow> 's \<Rightarrow> 's) \<Rightarrow> 'd word \<Rightarrow> 's world \<Rightarrow> 's world" where
  "gcc_big_init p val w = own (p val) w"

definition gcc_big_load :: "('s \<Rightarrow> 'd::len word) \<Rightarrow> 's world \<Rightarrow> 'd word \<times> 's world" where
  "gcc_big_load g w = split_load True g w"

definition gcc_big_cmpxchg_strong :: "('s \<Rightarrow> 'd::len word) \<Rightarrow> ('d word \<Rightarrow> 's \<Rightarrow> 's) \<Rightarrow> 'd word \<Rightarrow> 'd word \<Rightarrow> 's world
    \<Rightarrow> bool \<times> 'd word \<times> 's world" where
  "gcc_big_cmpxchg_strong g p expected desired w =
     (let lo = low desired; hi = high desired in cas g p expected (wide hi lo) w)"

definition gcc_big_cmpxchg_weak :: "('s \<Rightarrow> 'd::len word) \<Rightarrow> ('d word \<Rightarrow> 's \<Rightarrow> 's) \<Rightarrow> 'd word \<Rightarrow> 'd word \<Rightarrow> 's world
    \<Rightarrow> bool \<times> 'd word \<times> 's world" where
  "gcc_big_cmpxchg_weak g p expected desired w = gcc_big_cmpxchg_strong g p expected desired w"

fun gcc_add_loop :: "nat \<Rightarrow> ('s \<Rightarrow> 'd::len word) \<Rightarrow> ('d word \<Rightarrow> 's \<Rightarrow> 's) \<Rightarrow> 'd word \<Rightarrow> 'd word \<Rightarrow> 's world
    \<Rightarrow> ('d word \<times> 's world) option" where
  "gcc_add_loop 0 g p arg old_val w = None"
| "gcc_add_loop (Suc fuel) g p arg old_val w =
     (let new_val = old_val + arg;
          (ok, old_val, w) = gcc_big_cmpxchg_weak g p old_val new_val w
      in if ok then Some (old_val, w) else gcc_add_loop fuel g p arg old_val w)"

definition gcc_big_fetch_add :: "nat \<Rightarrow> ('s \<Rightarrow> 'd::len word) \<Rightarrow> ('d word \<Rightarrow> 's \<Rightarrow> 's) \<Rightarrow> 'd word \<Rightarrow> 's world
    \<Rightarrow> ('d word \<times> 's world) option" where
  "gcc_big_fetch_add fuel g p arg w =
     (let (old_val, w) = gcc_big_load g w in gcc_add_loop fuel g p arg old_val w)"

section \<open>The epoch\<close>

definition gcc_epoch_init :: "('d::len word \<Rightarrow> 's \<Rightarrow> 's) \<Rightarrow> 'd word \<Rightarrow> 's world \<Rightarrow> 's world" where
  "gcc_epoch_init p val w = own (p val) w"

definition gcc_epoch_load :: "('s \<Rightarrow> 'd::len word) \<Rightarrow> 's world \<Rightarrow> 'd word \<times> 's world" where
  "gcc_epoch_load g w = load g w"

definition gcc_epoch_cmpxchg_weak :: "bool \<Rightarrow> ('s world \<Rightarrow> bool) \<Rightarrow> ('s \<Rightarrow> 'd::len word) \<Rightarrow> ('d word \<Rightarrow> 's \<Rightarrow> 's) \<Rightarrow> 'd word
    \<Rightarrow> 'd word \<Rightarrow> 's world \<Rightarrow> bool \<times> 'd word \<times> 's world" where
  "gcc_epoch_cmpxchg_weak i386 lost g p expected desired w =
     (if i386 then gcc_big_cmpxchg_weak g p expected desired w
      else cas_weak lost g p expected desired w)"

definition gcc_epoch_fetch_add :: "bool \<Rightarrow> nat \<Rightarrow> ('s \<Rightarrow> 'd::len word) \<Rightarrow> ('d word \<Rightarrow> 's \<Rightarrow> 's) \<Rightarrow> 'd word \<Rightarrow> 's world
    \<Rightarrow> ('d word \<times> 's world) option" where
  "gcc_epoch_fetch_add i386 fuel g p arg w =
     (if i386 then gcc_big_fetch_add fuel g p arg w else Some (fetch_add g p arg w))"

section \<open>Reference words\<close>

definition gcc_ref_init :: "nat \<Rightarrow> ('d::len word \<Rightarrow> 's \<Rightarrow> 's) \<Rightarrow> 'd word \<Rightarrow> 's world \<Rightarrow> 's world" where
  "gcc_ref_init W p val w = (if LENGTH('d) \<noteq> W then own (p val) w else gcc_big_init p val w)"

definition gcc_ref_load :: "nat \<Rightarrow> ('s \<Rightarrow> 'd::len word) \<Rightarrow> 's world \<Rightarrow> 'd word \<times> 's world" where
  "gcc_ref_load W g w = (if LENGTH('d) \<noteq> W then load g w else gcc_big_load g w)"

definition gcc_ref_link :: "bool \<Rightarrow> nat \<Rightarrow> ('s \<Rightarrow> 'd::len word) \<Rightarrow> 's world \<Rightarrow> 'h::len word \<times> 's world" where
  "gcc_ref_link le W g w =
     (if LENGTH('d) \<noteq> W
      then let (d, w) = load g w in (ucast (drop_bit lfrptr_shift (d AND NOT lfref_mask)), w)
      else load (\<lambda>s. ucast (word_at True (LFREF_LINK le) (g s))) w)"

definition gcc_ref_cmpxchgptr_weak :: "nat \<Rightarrow> ('s world \<Rightarrow> bool) \<Rightarrow> ('s \<Rightarrow> 'd::len word) \<Rightarrow> ('d word \<Rightarrow> 's \<Rightarrow> 's) \<Rightarrow> 'd word
    \<Rightarrow> 'd word \<Rightarrow> 's world \<Rightarrow> bool \<times> 'd word \<times> 's world" where
  "gcc_ref_cmpxchgptr_weak W lost g p expected desired w =
     (if LENGTH('d) \<noteq> W then cas_weak lost g p expected desired w
      else gcc_big_cmpxchg_weak g p expected desired w)"

definition gcc_ref_cmpxchgptr_strong :: "nat \<Rightarrow> ('s \<Rightarrow> 'd::len word) \<Rightarrow> ('d word \<Rightarrow> 's \<Rightarrow> 's) \<Rightarrow> 'd word
    \<Rightarrow> 'd word \<Rightarrow> 's world \<Rightarrow> bool \<times> 'd word \<times> 's world" where
  "gcc_ref_cmpxchgptr_strong W g p expected desired w =
     (if LENGTH('d) \<noteq> W then cas g p expected desired w
      else gcc_big_cmpxchg_strong g p expected desired w)"

definition gcc_ref_cmpxchgref_weak :: "nat \<Rightarrow> ('s world \<Rightarrow> bool) \<Rightarrow> ('s \<Rightarrow> 'd::len word) \<Rightarrow> ('d word \<Rightarrow> 's \<Rightarrow> 's) \<Rightarrow> 'd word
    \<Rightarrow> 'd word \<Rightarrow> 's world \<Rightarrow> bool \<times> 'd word \<times> 's world" where
  "gcc_ref_cmpxchgref_weak W lost g p expected desired w =
     (if LENGTH('d) \<noteq> W then cas_weak lost g p expected desired w
      else gcc_big_cmpxchg_weak g p expected desired w)"

definition gcc_ref_cmpxchgref_strong :: "nat \<Rightarrow> ('s \<Rightarrow> 'd::len word) \<Rightarrow> ('d word \<Rightarrow> 's \<Rightarrow> 's) \<Rightarrow> 'd word
    \<Rightarrow> 'd word \<Rightarrow> 's world \<Rightarrow> bool \<times> 'd word \<times> 's world" where
  "gcc_ref_cmpxchgref_strong W g p expected desired w =
     (if LENGTH('d) \<noteq> W then cas g p expected desired w
      else gcc_big_cmpxchg_strong g p expected desired w)"

definition gcc_ref_fetch_add :: "nat \<Rightarrow> nat \<Rightarrow> ('s \<Rightarrow> 'd::len word) \<Rightarrow> ('d word \<Rightarrow> 's \<Rightarrow> 's) \<Rightarrow> 'd word \<Rightarrow> 's world
    \<Rightarrow> ('d word \<times> 's world) option" where
  "gcc_ref_fetch_add W fuel g p arg w =
     (if LENGTH('d) \<noteq> W then Some (fetch_add g p arg w) else gcc_big_fetch_add fuel g p arg w)"

definition gcc_atomics :: "bool \<Rightarrow> nat \<Rightarrow> ('s world \<Rightarrow> bool) \<Rightarrow> ('s, 'd::len word, 'h::len word) lf_atomics" where
  "gcc_atomics le W lost = \<lparr>ref_init = gcc_ref_init W, ref_load = gcc_ref_load W, ref_link = gcc_ref_link le W,
     ref_cmpxchgptr_weak = gcc_ref_cmpxchgptr_weak W lost,
     ref_cmpxchgptr_strong = (\<lambda>fuel g p e d w. Some (gcc_ref_cmpxchgptr_strong W g p e d w)),
     ref_cmpxchgref_weak = gcc_ref_cmpxchgref_weak W lost,
     ref_cmpxchgref_strong = (\<lambda>fuel g p e d w. Some (gcc_ref_cmpxchgref_strong W g p e d w)),
     ref_fetch_add = gcc_ref_fetch_add W, ref_full = True\<rparr>"

section \<open>The contract\<close>

lemma gcc_add_loop_done:
  "gcc_add_loop fuel g p x v w = Some (old, w') \<Longrightarrow>
   \<exists>w1. later w w1 \<and> old = g (fst w1) \<and> w' = (p (old + x) (fst w1), snd w1)"
proof (induction fuel arbitrary: v w)
  case (Suc fuel)
  show ?case
  proof (cases "g (fst (others w)) = v")
    case True
    with Suc.prems show ?thesis
      by (intro exI [of _ "others w"]) (auto simp: gcc_big_cmpxchg_weak_def gcc_big_cmpxchg_strong_def cas_split later_others)
  next
    case False
    with Suc.prems have "gcc_add_loop fuel g p x (g (fst (others w))) (others w) = Some (old, w')"
      by (simp add: gcc_big_cmpxchg_weak_def gcc_big_cmpxchg_strong_def cas_split)
    from Suc.IH [OF this] show ?thesis by (blast intro: later_trans later_others)
  qed
qed simp

text \<open>The first attempt may fail on a torn load although nobody interferes any more; after that an
  attempt fails only if the others act.\<close>

lemma gcc_add_loop_returns:
  "length (snd w) + (if g (fst (others w)) = v then 0 else 1) < fuel \<Longrightarrow> gcc_add_loop fuel g p x v w \<noteq> None"
proof (induction fuel arbitrary: v w)
  case (Suc fuel)
  show ?case
  proof (cases "g (fst (others w)) = v")
    case ne: False
    let ?w = "others w" let ?v = "g (fst ?w)"
    have "length (snd ?w) + (if g (fst (others ?w)) = ?v then 0 else 1) < fuel"
    proof (cases "snd ?w = []")
      case True
      with Suc.prems ne show ?thesis by (simp add: others_alone split: if_splits)
    next
      case False
      then have "snd w \<noteq> []" by (cases w rule: others.cases) auto
      with Suc.prems ne show ?thesis by (cases "snd w") auto
    qed
    from Suc.IH [OF this] ne show ?thesis
      by (simp add: gcc_big_cmpxchg_weak_def gcc_big_cmpxchg_strong_def cas_split)
  qed (simp add: gcc_big_cmpxchg_weak_def gcc_big_cmpxchg_strong_def cas_split)
qed simp


lemma gcc_big_fetch_add_done:
  "gcc_big_fetch_add fuel g p x w = Some (old, w') \<Longrightarrow>
   \<exists>w1. later w w1 \<and> old = g (fst w1) \<and> w' = (p (old + x) (fst w1), snd w1)"
  unfolding gcc_big_fetch_add_def gcc_big_load_def Let_def
  using gcc_add_loop_done [of fuel g p x "fst (split_load True g w)" "snd (split_load True g w)" old w']
    later_split_load [of w True g]
  by (auto split: prod.splits intro: later_trans)

lemma split_load_last:
  "length (snd w) \<le> 1 \<Longrightarrow> fst (split_load le g w) = g (fst (others w)) \<and> snd (split_load le g w) = others w
     \<and> snd (others w) = []"
  using of_words_word_at [of le "g (fst (others w))"]
  by (cases w rule: others.cases) (auto simp: split_load_def load_split)

lemma gcc_big_fetch_add_returns: "length (snd w) < fuel \<Longrightarrow> gcc_big_fetch_add fuel g p x w \<noteq> None"
proof -
  assume l: "length (snd w) < fuel"
  let ?v = "fst (split_load True g w)" let ?w = "snd (split_load True g w)"
  have "length (snd ?w) + (if g (fst (others ?w)) = ?v then 0 else 1) < fuel"
  proof (cases "length (snd w) \<le> 1")
    case True
    with split_load_last [OF True, of True g] l show ?thesis by (simp add: others_alone)
  next
    case False
    have "length (snd ?w) = length (snd w) - 2" by (simp add: split_load_def load_split)
    with False l show ?thesis by (cases "snd w") auto
  qed
  from gcc_add_loop_returns [of ?w g ?v fuel p x, OF this] show ?thesis
    unfolding gcc_big_fetch_add_def gcc_big_load_def by (cases "split_load True g w") (simp del: not_None_eq)
qed

lemmas gcc_defs = gcc_ref_init_def gcc_ref_load_def gcc_ref_link_def gcc_ref_cmpxchgptr_weak_def
  gcc_ref_cmpxchgptr_strong_def gcc_ref_cmpxchgref_weak_def gcc_ref_cmpxchgref_strong_def gcc_ref_fetch_add_def
  gcc_big_init_def gcc_big_load_def gcc_big_cmpxchg_weak_def gcc_big_cmpxchg_strong_def

interpretation gcc: lf_words "gcc_atomics le W lost :: ('s, 'd::len word, 'h::len word) lf_atomics" for le W lost
proof unfold_locales
  let ?A = "gcc_atomics le W lost :: ('s, 'd word, 'h word) lf_atomics"
  fix g :: "'s \<Rightarrow> 'd word" and w :: "'s world" and fuel p x old w'
  show "length (snd w) < fuel \<Longrightarrow> ref_fetch_add ?A fuel g p x w \<noteq> None"
    using gcc_big_fetch_add_returns [of w fuel g p x] by (auto simp: gcc_atomics_def gcc_defs simp del: not_None_eq)
  show "\<exists>w1. later w w1 \<and> old = g (fst w1) \<and> w' = (p (old + x) (fst w1), snd w1)"
    if "ref_fetch_add ?A fuel g p x w = Some (old, w')"
    using that gcc_big_fetch_add_done [of fuel g p x w old w'] fetch_add_done [of g p x w old w']
    by (simp add: gcc_atomics_def gcc_defs split: if_splits)
qed (auto simp: gcc_atomics_def gcc_defs world_simps later_load later_split_load cas_done cas_weak_done)

text \<open>The pointer is read where the compiler defines \<open>__LITTLE_ENDIAN__\<close>.\<close>

interpretation gcc_little: lf_refs "gcc_atomics True W lost :: ('s, 'd::len word, 'h::len word) lf_atomics" for W lost
proof unfold_locales
  let ?A = "gcc_atomics True W lost :: ('s, 'd word, 'h word) lf_atomics"
  fix g :: "'s \<Rightarrow> 'd word" and w :: "'s world"
  show "\<exists>w1. later w w1 \<and> ref_link ?A g w = (ucast (low (g (fst w1))), w1)"
    by (intro exI [of _ "others w"])
      (simp add: gcc_atomics_def gcc_defs load_split lfrptr_shift_def word_at_def LFREF_LINK_def later_others)
qed

section \<open>What the header promises\<close>

text \<open>C14: The loop of \<open>fetch_add\<close> is one atomic addition.  Whatever the other threads do between the
  two halves of the first load and between the attempts, the loop returns, and there is a moment
  at which the location held the value it returns and received that value plus the argument.\<close>

theorem gcc_fetch_add_atomic:
  fixes g :: "'s \<Rightarrow> 'd::len word"
  assumes "length (snd w) < fuel"
  shows "\<exists>s e. later w (s, e) \<and> gcc_ref_fetch_add W fuel g p x w = Some (g s, (p (g s + x) s, e))"
proof (cases "LENGTH('d) = W")
  case True
  obtain old w' where r: "gcc_big_fetch_add fuel g p x w = Some (old, w')"
    using gcc_big_fetch_add_returns [OF assms, of g p x] by (cases "gcc_big_fetch_add fuel g p x w") auto
  with gcc_big_fetch_add_done [OF r] True show ?thesis by (auto simp: gcc_ref_fetch_add_def)
next
  case False
  obtain old w' where r: "fetch_add g p x w = (old, w')" by (cases "fetch_add g p x w") auto
  from fetch_add_done [OF r] False r show ?thesis by (auto simp: gcc_ref_fetch_add_def)
qed

lemma gcc_fetch_add_atomic_witness:
  "\<exists>s e. later (5 :: 128 word, [\<lambda>s. s + 1, \<lambda>s. 2 * s]) (s, e) \<and>
     gcc_ref_fetch_add 128 3 (\<lambda>s. s) (\<lambda>v s. v) 7 (5, [\<lambda>s. s + 1, \<lambda>s. 2 * s]) = Some (s, (s + 7, e))"
  using gcc_fetch_add_atomic [of "(5 :: 128 word, [\<lambda>s. s + 1, \<lambda>s. 2 * s])" 3 128 "\<lambda>s. s" "\<lambda>v s. v" 7] by simp

end
