(* ===== verification/Llvm_X86.thy ===== *)
theory Llvm_X86
  imports Atomics
begin

text \<open>
  \<open>hyaline/bits/llvm_x86.h\<close>: the operations of clang on x86.  A volatile read of a double word is
  two word loads; everything else is a C11 operation on the whole word.  \<open>W\<close> is
  \<open>LFATOMIC_BIG_WIDTH\<close>, \<open>i386\<close> says that \<open>__i386__\<close> is defined, \<open>le\<close> that
  \<open>__LITTLE_ENDIAN__\<close> is.
\<close>

definition llvm_aba_init :: "('d::len word \<Rightarrow> 's \<Rightarrow> 's) \<Rightarrow> 'd word \<Rightarrow> 's world \<Rightarrow> 's world" where
  "llvm_aba_init p val w = own (p val) w"

definition llvm_aba_load :: "('s \<Rightarrow> 'd::len word) \<Rightarrow> 's world \<Rightarrow> 'd word \<times> 's world" where
  "llvm_aba_load g w = split_load True g w"

definition llvm_aba_cmpxchg_weak :: "('s world \<Rightarrow> bool) \<Rightarrow> ('s \<Rightarrow> 'd::len word) \<Rightarrow> ('d word \<Rightarrow> 's \<Rightarrow> 's) \<Rightarrow> 'd word \<Rightarrow> 'd word \<Rightarrow> 's world
    \<Rightarrow> bool \<times> 'd word \<times> 's world" where
  "llvm_aba_cmpxchg_weak lost g p expected desired w = cas_weak lost g p expected desired w"

definition llvm_aba_cmpxchg_strong :: "('s \<Rightarrow> 'd::len word) \<Rightarrow> ('d word \<Rightarrow> 's \<Rightarrow> 's) \<Rightarrow> 'd word \<Rightarrow> 'd word \<Rightarrow> 's world
    \<Rightarrow> bool \<times> 'd word \<times> 's world" where
  "llvm_aba_cmpxchg_strong g p expected desired w = cas g p expected desired w"

text \<open>The pair \<open>fildq\<close>, \<open>fistpq\<close> of the i386 is one 64-bit access.\<close>

definition llvm_epoch_init :: "('d::len word \<Rightarrow> 's \<Rightarrow> 's) \<Rightarrow> 'd word \<Rightarrow> 's world \<Rightarrow> 's world" where
  "llvm_epoch_init p val w = own (p val) w"

definition llvm_epoch_load :: "bool \<Rightarrow> ('s \<Rightarrow> 'd::len word) \<Rightarrow> 's world \<Rightarrow> 'd word \<times> 's world" where
  "llvm_epoch_load i386 g w =
     (if i386 then let (st, w) = load g w; result = st in (result, w) else load g w)"

definition llvm_epoch_cmpxchg_weak :: "('s world \<Rightarrow> bool) \<Rightarrow> ('s \<Rightarrow> 'd::len word) \<Rightarrow> ('d word \<Rightarrow> 's \<Rightarrow> 's) \<Rightarrow> 'd word \<Rightarrow> 'd word \<Rightarrow> 's world
    \<Rightarrow> bool \<times> 'd word \<times> 's world" where
  "llvm_epoch_cmpxchg_weak lost g p expected desired w = cas_weak lost g p expected desired w"

definition llvm_epoch_fetch_add :: "('s \<Rightarrow> 'd::len word) \<Rightarrow> ('d word \<Rightarrow> 's \<Rightarrow> 's) \<Rightarrow> 'd word \<Rightarrow> 's world
    \<Rightarrow> 'd word \<times> 's world" where
  "llvm_epoch_fetch_add g p arg w = fetch_add g p arg w"

section \<open>Reference words\<close>

definition llvm_ref_init :: "('d::len word \<Rightarrow> 's \<Rightarrow> 's) \<Rightarrow> 'd word \<Rightarrow> 's world \<Rightarrow> 's world" where
  "llvm_ref_init p val w = own (p val) w"

definition llvm_ref_load :: "nat \<Rightarrow> ('s \<Rightarrow> 'd::len word) \<Rightarrow> 's world \<Rightarrow> 'd word \<times> 's world" where
  "llvm_ref_load W g w = (if LENGTH('d) \<noteq> W then load g w else split_load True g w)"

definition llvm_ref_link :: "bool \<Rightarrow> nat \<Rightarrow> ('s \<Rightarrow> 'd::len word) \<Rightarrow> 's world \<Rightarrow> 'h::len word \<times> 's world" where
  "llvm_ref_link le W g w =
     (if LENGTH('d) \<noteq> W
      then let (d, w) = load g w in (ucast (drop_bit lfrptr_shift (d AND NOT lfref_mask)), w)
      else load (\<lambda>s. ucast (word_at True (LFREF_LINK le) (g s))) w)"

definition llvm_ref_cmpxchgptr_weak :: "('s world \<Rightarrow> bool) \<Rightarrow> ('s \<Rightarrow> 'd::len word) \<Rightarrow> ('d word \<Rightarrow> 's \<Rightarrow> 's) \<Rightarrow> 'd word \<Rightarrow> 'd word \<Rightarrow> 's world
    \<Rightarrow> bool \<times> 'd word \<times> 's world" where
  "llvm_ref_cmpxchgptr_weak lost g p expected desired w = cas_weak lost g p expected desired w"

definition llvm_ref_cmpxchgptr_strong :: "('s \<Rightarrow> 'd::len word) \<Rightarrow> ('d word \<Rightarrow> 's \<Rightarrow> 's) \<Rightarrow> 'd word \<Rightarrow> 'd word \<Rightarrow> 's world
    \<Rightarrow> bool \<times> 'd word \<times> 's world" where
  "llvm_ref_cmpxchgptr_strong g p expected desired w = cas g p expected desired w"

definition llvm_ref_cmpxchgref_weak :: "('s world \<Rightarrow> bool) \<Rightarrow> ('s \<Rightarrow> 'd::len word) \<Rightarrow> ('d word \<Rightarrow> 's \<Rightarrow> 's) \<Rightarrow> 'd word \<Rightarrow> 'd word \<Rightarrow> 's world
    \<Rightarrow> bool \<times> 'd word \<times> 's world" where
  "llvm_ref_cmpxchgref_weak lost g p expected desired w = cas_weak lost g p expected desired w"

definition llvm_ref_cmpxchgref_strong :: "('s \<Rightarrow> 'd::len word) \<Rightarrow> ('d word \<Rightarrow> 's \<Rightarrow> 's) \<Rightarrow> 'd word \<Rightarrow> 'd word \<Rightarrow> 's world
    \<Rightarrow> bool \<times> 'd word \<times> 's world" where
  "llvm_ref_cmpxchgref_strong g p expected desired w = cas g p expected desired w"

definition llvm_ref_fetch_add :: "('s \<Rightarrow> 'd::len word) \<Rightarrow> ('d word \<Rightarrow> 's \<Rightarrow> 's) \<Rightarrow> 'd word \<Rightarrow> 's world
    \<Rightarrow> 'd word \<times> 's world" where
  "llvm_ref_fetch_add g p arg w = fetch_add g p arg w"

definition llvm_atomics :: "bool \<Rightarrow> nat \<Rightarrow> ('s world \<Rightarrow> bool) \<Rightarrow> ('s, 'd::len word, 'h::len word) lf_atomics" where
  "llvm_atomics le W lost = \<lparr>ref_init = llvm_ref_init, ref_load = llvm_ref_load W, ref_link = llvm_ref_link le W,
     ref_cmpxchgptr_weak = llvm_ref_cmpxchgptr_weak lost,
     ref_cmpxchgptr_strong = (\<lambda>fuel g p e d w. Some (llvm_ref_cmpxchgptr_strong g p e d w)),
     ref_cmpxchgref_weak = llvm_ref_cmpxchgref_weak lost,
     ref_cmpxchgref_strong = (\<lambda>fuel g p e d w. Some (llvm_ref_cmpxchgref_strong g p e d w)),
     ref_fetch_add = (\<lambda>fuel g p arg w. Some (llvm_ref_fetch_add g p arg w)), ref_full = True\<rparr>"

lemmas llvm_defs = llvm_atomics_def llvm_ref_init_def llvm_ref_load_def llvm_ref_link_def llvm_ref_cmpxchgptr_weak_def
  llvm_ref_cmpxchgptr_strong_def llvm_ref_cmpxchgref_weak_def llvm_ref_cmpxchgref_strong_def llvm_ref_fetch_add_def

interpretation llvm: lf_refs "llvm_atomics True W lost :: ('s, 'd::len word, 'h::len word) lf_atomics" for W lost
proof unfold_locales
  let ?A = "llvm_atomics True W lost :: ('s, 'd word, 'h word) lf_atomics"
  fix g :: "'s \<Rightarrow> 'd word" and w :: "'s world" and fuel p x old w'
  show "\<exists>w1. later w w1 \<and> ref_link ?A g w = (ucast (low (g (fst w1))), w1)"
    by (intro exI [of _ "others w"])
      (simp add: llvm_defs load_split lfrptr_shift_def word_at_def LFREF_LINK_def later_others)
  show "\<exists>w1. later w w1 \<and> old = g (fst w1) \<and> w' = (p (old + x) (fst w1), snd w1)"
    if "ref_fetch_add ?A fuel g p x w = Some (old, w')"
    using that fetch_add_done [of g p x w old w'] by (simp add: llvm_defs)
qed (auto simp: llvm_defs world_simps later_load later_split_load cas_done cas_weak_done)

end
