(* ===== verification/C11.thy ===== *)
theory C11
  imports Atomics
begin

text \<open>
  \<open>hyaline/bits/c11.h\<close>: C11 operations, with loads that are split into words where \<open>config.h\<close>
  says so.  \<open>a\<close> is the architecture, \<open>little\<close> its byte order, and \<open>le\<close> says whether the
  compiler defines \<open>__LITTLE_ENDIAN__\<close>.
\<close>

definition c11_aba_init :: "('d::len word \<Rightarrow> 's \<Rightarrow> 's) \<Rightarrow> 'd word \<Rightarrow> 's world \<Rightarrow> 's world" where
  "c11_aba_init p val w = own (p val) w"

definition c11_aba_load :: "lf_arch \<Rightarrow> bool \<Rightarrow> ('s \<Rightarrow> 'd::len word) \<Rightarrow> 's world \<Rightarrow> 'd word \<times> 's world" where
  "c11_aba_load a little g w =
     (if LFLOAD_SPLIT a (LFATOMIC_BIG_WIDTH a) then split_load little g w else load g w)"

definition c11_aba_cmpxchg_weak :: "('s world \<Rightarrow> bool) \<Rightarrow> ('s \<Rightarrow> 'd::len word) \<Rightarrow> ('d word \<Rightarrow> 's \<Rightarrow> 's) \<Rightarrow> 'd word \<Rightarrow> 'd word \<Rightarrow> 's world
    \<Rightarrow> bool \<times> 'd word \<times> 's world" where
  "c11_aba_cmpxchg_weak lost g p expected desired w = cas_weak lost g p expected desired w"

definition c11_aba_cmpxchg_strong :: "('s \<Rightarrow> 'd::len word) \<Rightarrow> ('d word \<Rightarrow> 's \<Rightarrow> 's) \<Rightarrow> 'd word \<Rightarrow> 'd word \<Rightarrow> 's world
    \<Rightarrow> bool \<times> 'd word \<times> 's world" where
  "c11_aba_cmpxchg_strong g p expected desired w = cas g p expected desired w"

section \<open>Reference words\<close>

definition c11_ref_init :: "('d::len word \<Rightarrow> 's \<Rightarrow> 's) \<Rightarrow> 'd word \<Rightarrow> 's world \<Rightarrow> 's world" where
  "c11_ref_init p val w = own (p val) w"

definition c11_ref_load :: "lf_arch \<Rightarrow> bool \<Rightarrow> ('s \<Rightarrow> 'd::len word) \<Rightarrow> 's world \<Rightarrow> 'd word \<times> 's world" where
  "c11_ref_load a little g w =
     (if \<not> LFLOAD_SPLIT a (LENGTH('d)) then load g w
      else let (h0, w) = load (\<lambda>s. word_at little 0 (g s)) w;
               (h1, w) = load (\<lambda>s. word_at little 1 (g s)) w
           in (of_words little h0 h1, w))"

definition c11_ref_link :: "lf_arch \<Rightarrow> bool \<Rightarrow> bool \<Rightarrow> ('s \<Rightarrow> 'd::len word) \<Rightarrow> 's world \<Rightarrow> 'h::len word \<times> 's world" where
  "c11_ref_link a little le g w =
     (if \<not> LFLOAD_SPLIT a (LENGTH('d))
      then let (d, w) = load g w in (ucast (drop_bit lfrptr_shift (d AND NOT lfref_mask)), w)
      else load (\<lambda>s. ucast (word_at little (LFREF_LINK le) (g s))) w)"

definition c11_ref_cmpxchgptr_weak :: "('s world \<Rightarrow> bool) \<Rightarrow> ('s \<Rightarrow> 'd::len word) \<Rightarrow> ('d word \<Rightarrow> 's \<Rightarrow> 's) \<Rightarrow> 'd word \<Rightarrow> 'd word \<Rightarrow> 's world
    \<Rightarrow> bool \<times> 'd word \<times> 's world" where
  "c11_ref_cmpxchgptr_weak lost g p expected desired w = cas_weak lost g p expected desired w"

definition c11_ref_cmpxchgptr_strong :: "('s \<Rightarrow> 'd::len word) \<Rightarrow> ('d word \<Rightarrow> 's \<Rightarrow> 's) \<Rightarrow> 'd word \<Rightarrow> 'd word \<Rightarrow> 's world
    \<Rightarrow> bool \<times> 'd word \<times> 's world" where
  "c11_ref_cmpxchgptr_strong g p expected desired w = cas g p expected desired w"

definition c11_ref_cmpxchgref_weak :: "('s world \<Rightarrow> bool) \<Rightarrow> ('s \<Rightarrow> 'd::len word) \<Rightarrow> ('d word \<Rightarrow> 's \<Rightarrow> 's) \<Rightarrow> 'd word \<Rightarrow> 'd word \<Rightarrow> 's world
    \<Rightarrow> bool \<times> 'd word \<times> 's world" where
  "c11_ref_cmpxchgref_weak lost g p expected desired w = cas_weak lost g p expected desired w"

definition c11_ref_cmpxchgref_strong :: "('s \<Rightarrow> 'd::len word) \<Rightarrow> ('d word \<Rightarrow> 's \<Rightarrow> 's) \<Rightarrow> 'd word \<Rightarrow> 'd word \<Rightarrow> 's world
    \<Rightarrow> bool \<times> 'd word \<times> 's world" where
  "c11_ref_cmpxchgref_strong g p expected desired w = cas g p expected desired w"

definition c11_ref_fetch_add :: "('s \<Rightarrow> 'd::len word) \<Rightarrow> ('d word \<Rightarrow> 's \<Rightarrow> 's) \<Rightarrow> 'd word \<Rightarrow> 's world
    \<Rightarrow> 'd word \<times> 's world" where
  "c11_ref_fetch_add g p arg w = fetch_add g p arg w"

definition c11_atomics :: "lf_arch \<Rightarrow> bool \<Rightarrow> bool \<Rightarrow> ('s world \<Rightarrow> bool) \<Rightarrow> ('s, 'd::len word, 'h::len word) lf_atomics" where
  "c11_atomics a little le lost = \<lparr>ref_init = c11_ref_init, ref_load = c11_ref_load a little,
     ref_link = c11_ref_link a little le,
     ref_cmpxchgptr_weak = c11_ref_cmpxchgptr_weak lost,
     ref_cmpxchgptr_strong = (\<lambda>fuel g p e d w. Some (c11_ref_cmpxchgptr_strong g p e d w)),
     ref_cmpxchgref_weak = c11_ref_cmpxchgref_weak lost,
     ref_cmpxchgref_strong = (\<lambda>fuel g p e d w. Some (c11_ref_cmpxchgref_strong g p e d w)),
     ref_fetch_add = (\<lambda>fuel g p arg w. Some (c11_ref_fetch_add g p arg w)), ref_full = True\<rparr>"

lemma c11_ref_load_split: "c11_ref_load a little (g :: 's \<Rightarrow> 'd::len word) w =
    (if LFLOAD_SPLIT a (LENGTH('d)) then split_load little g w else load g w)"
  by (simp add: c11_ref_load_def split_load_def)

lemmas c11_defs = c11_atomics_def c11_ref_init_def c11_ref_load_split c11_ref_link_def c11_ref_cmpxchgptr_weak_def
  c11_ref_cmpxchgptr_strong_def c11_ref_cmpxchgref_weak_def c11_ref_cmpxchgref_strong_def c11_ref_fetch_add_def

text \<open>The contract holds where the compiler tells the byte order.\<close>

interpretation c11: lf_refs "c11_atomics a little little lost :: ('s, 'd::len word, 'h::len word) lf_atomics"
  for a little lost
proof unfold_locales
  let ?A = "c11_atomics a little little lost :: ('s, 'd word, 'h word) lf_atomics"
  fix g :: "'s \<Rightarrow> 'd word" and w :: "'s world" and fuel p x old w'
  show "\<exists>w1. later w w1 \<and> ref_link ?A g w = (ucast (low (g (fst w1))), w1)"
    by (intro exI [of _ "others w"])
      (simp add: c11_atomics_def c11_ref_link_def load_split lfrptr_shift_def word_at_def LFREF_LINK_def later_others)
  show "\<exists>w1. later w w1 \<and> old = g (fst w1) \<and> w' = (p (old + x) (fst w1), snd w1)"
    if "ref_fetch_add ?A fuel g p x w = Some (old, w')"
    using that fetch_add_done [of g p x w old w'] by (simp add: c11_defs)
qed (auto simp: c11_defs world_simps later_load later_split_load cas_done cas_weak_done)

end
