(* ===== verification/Llsc.thy ===== *)
theory Llsc
  imports Atomics
begin

text \<open>
  The load-linked / store-conditional sequence that \<open>ppc.h\<close> and \<open>mips.h\<close> share: a load of the
  first half that takes a reservation, a plain load of the second half, a test, a conditional
  store to the first half only.  The reservation covers both halves (they share a granule) and is
  gone when the location is seen changed; \<open>lost\<close> says when the processor loses it for another
  reason, which it may do while other threads run.
\<close>

text \<open>Writing one word of the location.\<close>

definition put_word :: "bool \<Rightarrow> nat \<Rightarrow> 'd::len word \<Rightarrow> 'd word \<Rightarrow> 'd word" where
  "put_word little i v d = (if (i = 0) = little then wide (high d) v else wide v (low d))"

definition store_cond :: "('s world \<Rightarrow> bool) \<Rightarrow> ('s \<Rightarrow> 'd::len word) \<Rightarrow> ('d word \<Rightarrow> 's \<Rightarrow> 's) \<Rightarrow> bool \<Rightarrow> 'd word
    \<Rightarrow> ('d word \<Rightarrow> 'd word) \<Rightarrow> 's world \<Rightarrow> bool \<times> 's world" where
  "store_cond lost g p held snap upd w =
     (let (s, e) = others w in
      if held \<and> g s = snap \<and> (e = [] \<or> \<not> lost (s, e)) then (True, (p (upd (g s)) s, e)) else (False, (s, e)))"

text \<open>One pass: the two values, and whether the conditional store was reached and succeeded.\<close>

definition llsc :: "bool \<Rightarrow> ('s world \<Rightarrow> bool) \<Rightarrow> ('s \<Rightarrow> 'd::len word) \<Rightarrow> ('d word \<Rightarrow> 's \<Rightarrow> 's) \<Rightarrow> nat \<Rightarrow> nat
    \<Rightarrow> ('d word \<Rightarrow> 'd word \<Rightarrow> bool) \<Rightarrow> ('d word \<Rightarrow> 'd word) \<Rightarrow> 's world
    \<Rightarrow> 'd word \<times> 'd word \<times> bool \<times> 's world" where
  "llsc little lost g p i j test new w =
     (let (snap, w) = load g w;
          first = word_at little i snap;
          (sec, w) = load (\<lambda>s. (word_at little j (g s), g s = snap)) w;
          (second, held) = sec
      in if \<not> test first second then (first, second, False, w)
         else let (ok, w) = store_cond lost g p held snap (put_word little i (new first)) w
              in (first, second, ok, w))"

lemma llsc_eq:
  "llsc little lost g p i j test new w =
     (let w1 = others w; w2 = others w1; w3 = others w2; d = g (fst w1);
          first = word_at little i d; second = word_at little j (g (fst w2))
      in if \<not> test first second then (first, second, False, w2)
         else if g (fst w2) = d \<and> g (fst w3) = d \<and> (snd w3 = [] \<or> \<not> lost w3)
              then (first, second, True, (p (put_word little i (new first) d) (fst w3), snd w3))
              else (first, second, False, w3))"
  by (cases "others (others (others w))") (auto simp: llsc_def load_split store_cond_def Let_def)

lemma llsc_store:
  assumes "llsc little lost g p i j test new w = (first, second, True, w')"
  shows "test first second \<and> (\<exists>s e. later w (s, e) \<and> first = word_at little i (g s)
    \<and> second = word_at little j (g s) \<and> w' = (p (put_word little i (new first) (g s)) s, e))"
proof -
  let ?w3 = "others (others (others w))"
  have l: "later w ?w3" by (meson later_others later_trans)
  from assms show ?thesis
    by (intro conjI exI [of _ "fst ?w3"] exI [of _ "snd ?w3"]) (auto simp: llsc_eq Let_def l split: if_splits)
qed

lemma llsc_no_store:
  assumes "llsc little lost g p i j test new w = (first, second, False, w')"
  shows "later w w'" "test first second \<Longrightarrow> length (snd w') < length (snd w)"
proof -
  have l: "later w (others (others w))" "later w (others (others (others w)))" by (meson later_others later_trans)+
  with assms show "later w w'" by (auto simp: llsc_eq Let_def split: if_splits)
  show "length (snd w') < length (snd w)" if t: "test first second"
  proof (cases "snd w = []")
    case True
    with assms t show ?thesis by (auto simp: llsc_eq Let_def others_alone split: if_splits)
  next
    case False
    from assms t have "w' = others (others (others w))" by (auto simp: llsc_eq Let_def split: if_splits)
    with False show ?thesis by (cases "snd w") auto
  qed
qed

lemma llsc_alone:
  "llsc little lost g p i j test new (s, []) =
     (let first = word_at little i (g s); second = word_at little j (g s) in
      if test first second then (first, second, True, (p (put_word little i (new first) (g s)) s, []))
      else (first, second, False, (s, [])))"
  by (simp add: llsc_def world_simps store_cond_def Let_def)

text \<open>The halves determine the word, and the counter can be added to on its own.\<close>

lemma half_eq: "d = e \<longleftrightarrow> low d = low e \<and> high d = high e"
  by (metis wide_halves)

lemma add_high:
  assumes "even (LENGTH('d))" "low x = 0"
  shows "wide (low (high d + high x)) (low d) = d + (x :: 'd::len word)"
proof -
  let ?n = "LENGTH('d) div 2"
  have split: "push_bit ?n h + low l = wide h (low l)" for h l :: "'d word"
    unfolding wide_def by (rule disjunctive_add) (auto simp: low_def bit_push_bit_iff bit_take_bit_iff)
  have cut: "push_bit ?n (low y) = push_bit ?n y" for y :: "'d word"
    by (rule bit_word_eqI) (use assms(1) in \<open>auto simp: low_def bit_push_bit_iff bit_take_bit_iff elim!: evenE\<close>)
  have x: "x = push_bit ?n (high x)"
    using wide_halves [of x] assms(2) by (simp add: wide_def)
  have "wide (low (high d + high x)) (low d) = push_bit ?n (high d + high x) + low d"
    by (simp add: split [symmetric] cut)
  also have "\<dots> = (push_bit ?n (high d) + low d) + push_bit ?n (high x)"
    by (simp add: push_bit_add)
  also have "\<dots> = d + x" using x by (simp add: split)
  finally show ?thesis .
qed


lemma xor_or_zero: "(a XOR b) OR (c XOR d) = 0 \<longleftrightarrow> a = b \<and> c = (d :: 'd::len word)"
proof
  assume z: "(a XOR b) OR (c XOR d) = 0"
  have "bit a n = bit b n \<and> bit c n = bit d n" if "n < LENGTH('d)" for n
    using arg_cong [OF z, of "\<lambda>x. bit x n"] that by (simp add: bit_or_iff bit_xor_iff)
  then show "a = b \<and> c = d" by (auto intro: bit_word_eqI)
qed simp

text \<open>The jump back: the pass is repeated while its test succeeds and its store does not.\<close>

fun llsc_loop :: "nat \<Rightarrow> bool \<Rightarrow> ('s world \<Rightarrow> bool) \<Rightarrow> ('s \<Rightarrow> 'd::len word) \<Rightarrow> ('d word \<Rightarrow> 's \<Rightarrow> 's) \<Rightarrow> nat \<Rightarrow> nat
    \<Rightarrow> ('d word \<Rightarrow> 'd word \<Rightarrow> bool) \<Rightarrow> ('d word \<Rightarrow> 'd word) \<Rightarrow> 's world
    \<Rightarrow> ('d word \<times> 'd word \<times> bool \<times> 's world) option" where
  "llsc_loop 0 little lost g p i j test new w = None"
| "llsc_loop (Suc fuel) little lost g p i j test new w =
     (let (first, second, ok, w) = llsc little lost g p i j test new w
      in if test first second \<and> \<not> ok then llsc_loop fuel little lost g p i j test new w
         else Some (first, second, ok, w))"

lemma llsc_loop_store:
  "llsc_loop fuel little lost g p i j test new w = Some (first, second, True, w') \<Longrightarrow>
   test first second \<and> (\<exists>s e. later w (s, e) \<and> first = word_at little i (g s)
    \<and> second = word_at little j (g s) \<and> w' = (p (put_word little i (new first) (g s)) s, e))"
proof (induction fuel arbitrary: w)
  case (Suc fuel)
  obtain f s ok w1 where a: "llsc little lost g p i j test new w = (f, s, ok, w1)" by (metis prod_cases4)
  show ?case
  proof (cases ok)
    case True
    with Suc.prems a llsc_store [of little lost g p i j test new w f s w1] show ?thesis by simp
  next
    case False
    with Suc.prems a have "llsc_loop fuel little lost g p i j test new w1 = Some (first, second, True, w')"
      by (simp split: if_splits)
    from Suc.IH [OF this] obtain t en where t: "test first second" "later w1 (t, en)"
      "first = word_at little i (g t)" "second = word_at little j (g t)"
      "w' = (p (put_word little i (new first) (g t)) t, en)" by blast
    have "later w (t, en)"
      using llsc_no_store(1) [of little lost g p i j test new w f s w1] a False t(2) by (simp add: later_trans)
    with t show ?thesis by blast
  qed
qed simp

lemma llsc_loop_no_store:
  "llsc_loop fuel little lost g p i j test new w = Some (first, second, False, w') \<Longrightarrow> \<not> test first second \<and> later w w'"
proof (induction fuel arbitrary: w)
  case (Suc fuel)
  obtain f s ok w1 where a: "llsc little lost g p i j test new w = (f, s, ok, w1)" by (metis prod_cases4)
  with Suc.prems have ok: "\<not> ok" using llsc_store [of little lost g p i j test new w f s w1]
    by (auto split: if_splits)
  with a have l: "later w w1" using llsc_no_store(1) [of little lost g p i j test new w f s w1] by simp
  show ?case
  proof (cases "test f s")
    case True
    with Suc.prems a ok have "llsc_loop fuel little lost g p i j test new w1 = Some (first, second, False, w')" by simp
    from Suc.IH [OF this] l show ?thesis by (meson later_trans)
  next
    case False
    with Suc.prems a ok l show ?thesis by simp
  qed
qed simp

lemma llsc_loop_returns:
  "length (snd w) < fuel \<Longrightarrow> llsc_loop fuel little lost g p i j test new w \<noteq> None"
proof (induction fuel arbitrary: w)
  case (Suc fuel)
  obtain f s ok w1 where a: "llsc little lost g p i j test new w = (f, s, ok, w1)" by (metis prod_cases4)
  have "length (snd w1) < fuel" if "test f s" "\<not> ok"
    using llsc_no_store(2) [of little lost g p i j test new w f s w1] a that Suc.prems by simp
  with Suc.IH [of w1] a show ?case by auto
qed simp

lemma llsc_loop_alone:
  "0 < fuel \<Longrightarrow> llsc_loop fuel little lost g p i j test new (s, []) = Some (llsc little lost g p i j test new (s, []))"
  by (cases fuel) (auto simp: llsc_alone Let_def)

text \<open>What a successful compare-and-swap has done, and a pass that compares both halves.\<close>

definition acted :: "('s \<Rightarrow> 'd) \<Rightarrow> ('d \<Rightarrow> 's \<Rightarrow> 's) \<Rightarrow> 'd \<Rightarrow> 'd \<Rightarrow> 's world \<Rightarrow> 's world \<Rightarrow> bool" where
  "acted g p e v w w' \<longleftrightarrow> (\<exists>s en. later w (s, en) \<and> g s = e \<and> w' = (p v s, en))"

lemma acted_done: "acted g p e (upd e d) w w' \<Longrightarrow> cas_done g p upd e d w (True, e, w')"
  unfolding acted_def using cas_done_ok [of w "(s, en)" g e p upd d for s en] by auto

lemma both_words: "i = 0 \<and> j = 1 \<or> i = 1 \<and> j = (0 :: nat) \<Longrightarrow>
  word_at little i d = word_at little i e \<Longrightarrow> word_at little j d = word_at little j e \<Longrightarrow> d = e"
  by (rule half_eq [THEN iffD2]) (auto simp: word_at_def split: if_splits)

lemma llsc_cas:
  assumes "llsc little lost g p i j test (\<lambda>a. x) w = (first, second, True, w')"
    and "i = 0 \<and> j = 1 \<or> i = 1 \<and> j = 0"
    and "test first second \<Longrightarrow> first = word_at little i e \<and> second = word_at little j e"
  shows "acted g p e (put_word little i x e) w w' \<and> first = word_at little i e \<and> second = word_at little j e"
proof -
  from llsc_store [OF assms(1)] obtain s en where s: "test first second" "later w (s, en)"
    "first = word_at little i (g s)" "second = word_at little j (g s)" "w' = (p (put_word little i x (g s)) s, en)"
    by blast
  note f = assms(3) [OF s(1)]
  have "g s = e" by (rule both_words [OF assms(2), of little]) (use f s(3,4) in simp_all)
  with s f show ?thesis unfolding acted_def by blast
qed

lemma llsc_loop_cas:
  assumes "llsc_loop fuel little lost g p i j test (\<lambda>a. x) w = Some (first, second, True, w')"
    and "i = 0 \<and> j = 1 \<or> i = 1 \<and> j = 0"
    and "test first second \<Longrightarrow> first = word_at little i e \<and> second = word_at little j e"
  shows "acted g p e (put_word little i x e) w w' \<and> first = word_at little i e \<and> second = word_at little j e"
proof -
  from llsc_loop_store [OF assms(1)] obtain s en where s: "test first second" "later w (s, en)"
    "first = word_at little i (g s)" "second = word_at little j (g s)" "w' = (p (put_word little i x (g s)) s, en)"
    by blast
  note f = assms(3) [OF s(1)]
  have "g s = e" by (rule both_words [OF assms(2), of little]) (use f s(3,4) in simp_all)
  with s f show ?thesis unfolding acted_def by blast
qed

text \<open>\<open>fetch_add\<close>: the loop over the counter adds to the word it returns.\<close>

lemma llsc_loop_add:
  fixes g :: "'s \<Rightarrow> 'd::len word"
  assumes "llsc_loop fuel little lost g p i j (\<lambda>a b. True) (\<lambda>ref. low (ref + high x)) w = Some (ref, ptr, ok, w')"
    and "low x = 0" "even (LENGTH('d))"
    and "\<And>d :: 'd word. word_at little i d = high d" "\<And>d :: 'd word. word_at little j d = low d"
    and "\<And>v d :: 'd word. put_word little i v d = wide v (low d)"
  shows "acted g p (wide ref ptr) (wide ref ptr + x) w w'"
proof -
  have ok using assms(1) llsc_loop_no_store [of fuel little lost g p i j "\<lambda>a b. True" "\<lambda>ref. low (ref + high x)" w ref ptr w']
    by (cases ok) auto
  with assms(1) have "llsc_loop fuel little lost g p i j (\<lambda>a b. True) (\<lambda>ref. low (ref + high x)) w = Some (ref, ptr, True, w')"
    by simp
  from llsc_loop_store [OF this] obtain s e where "later w (s, e)" "ref = word_at little i (g s)"
    "ptr = word_at little j (g s)" "w' = (p (put_word little i (low (ref + high x)) (g s)) s, e)" by blast
  then have s: "later w (s, e)" "ref = high (g s)" "ptr = low (g s)"
    "w' = (p (wide (low (ref + high x)) (low (g s))) s, e)" unfolding assms(4-6) by simp_all
  with add_high [OF assms(3,2), of "g s"] have "wide ref ptr = g s" "w' = (p (wide ref ptr + x) s, e)" by simp_all
  with s(1) show ?thesis by (auto simp: acted_def)
qed

end
