(* ===== verification/Ppc.thy ===== *)
theory Ppc
  imports Llsc
begin

text \<open>
  \<open>hyaline/bits/ppc.h\<close>.  \<open>little\<close> is the byte order, which \<open>__LITTLE_ENDIAN__\<close> tells;
  \<open>const_p\<close> is what \<open>__builtin_constant_p\<close> answers.  The inline assembly of one pass is \<open>llsc\<close>;
  the jump back to \<open>.E\<close> is recursion with fuel.
\<close>

definition ppc_big_init :: "('d::len word \<Rightarrow> 's \<Rightarrow> 's) \<Rightarrow> 'd word \<Rightarrow> 's world \<Rightarrow> 's world" where
  "ppc_big_init p val w = own (p val) w"

definition ppc_big_load :: "bool \<Rightarrow> ('s \<Rightarrow> 'd::len word) \<Rightarrow> 's world \<Rightarrow> 'd word \<times> 's world" where
  "ppc_big_load little g w =
     (let (h0, w) = load (\<lambda>s. word_at little 0 (g s)) w;
          (h1, w) = load (\<lambda>s. word_at little 1 (g s)) w
      in (of_words little h0 h1, w))"

definition PPC_MPTR :: "bool \<Rightarrow> nat" where
  "PPC_MPTR little = (if little then 0 else 1)"

definition PPC_MREF :: "bool \<Rightarrow> nat" where
  "PPC_MREF little = (if little then 1 else 0)"

text \<open>\<open>__LFPPC_OP\<close>: the values of \<open>ref\<close> and \<open>ptr\<close>.\<close>

definition ppc_op :: "nat \<Rightarrow> bool \<Rightarrow> ('s world \<Rightarrow> bool) \<Rightarrow> ('s \<Rightarrow> 'd::len word) \<Rightarrow> ('d word \<Rightarrow> 's \<Rightarrow> 's) \<Rightarrow> 'd word \<Rightarrow> 's world
    \<Rightarrow> ('d word \<times> 'd word \<times> 's world) option" where
  "ppc_op fuel little lost g p arg w =
     map_option (\<lambda>(ref, ptr, ok, w). (ref, ptr, w))
       (llsc_loop fuel little lost g p (PPC_MREF little) (PPC_MPTR little) (\<lambda>ref ptr. True) (\<lambda>ref. low (ref + arg)) w)"

text \<open>\<open>__LFPPC_CMPXCHG\<close>: \<open>tmp\<close> is the register that is or-ed to the difference of the first
  halves, \<open>out\<close> that of the result.  The weak form goes through once and hands on the EQ bit of
  the condition register; the strong form jumps back when the conditional store fails and hands
  on \<open>out\<close>.\<close>

definition ppc_out :: "('d::len word \<Rightarrow> 'd word) \<Rightarrow> 'd word \<Rightarrow> 'd word \<Rightarrow> 'd word \<Rightarrow> 'd word" where
  "ppc_out tmp arg_first first second = (first XOR arg_first) OR tmp second"

definition ppc_cmpxchg_weak :: "bool \<Rightarrow> ('s world \<Rightarrow> bool) \<Rightarrow> ('s \<Rightarrow> 'd::len word) \<Rightarrow> ('d word \<Rightarrow> 's \<Rightarrow> 's) \<Rightarrow> nat \<Rightarrow> nat
    \<Rightarrow> ('d word \<Rightarrow> 'd word) \<Rightarrow> 'd word \<Rightarrow> 'd word \<Rightarrow> 's world \<Rightarrow> 'd word \<times> 'd word \<times> bool \<times> 's world" where
  "ppc_cmpxchg_weak little lost g p mfirst msecond tmp arg_first desired_first w =
     llsc little lost g p mfirst msecond (\<lambda>first second. ppc_out tmp arg_first first second = 0)
       (\<lambda>first. desired_first) w"

definition ppc_cmpxchg_strong :: "nat \<Rightarrow> bool \<Rightarrow> ('s world \<Rightarrow> bool) \<Rightarrow> ('s \<Rightarrow> 'd::len word) \<Rightarrow> ('d word \<Rightarrow> 's \<Rightarrow> 's) \<Rightarrow> nat \<Rightarrow> nat
    \<Rightarrow> ('d word \<Rightarrow> 'd word) \<Rightarrow> 'd word \<Rightarrow> 'd word \<Rightarrow> 's world \<Rightarrow> ('d word \<times> 'd word \<times> 'd word \<times> 's world) option" where
  "ppc_cmpxchg_strong fuel little lost g p mfirst msecond tmp arg_first desired_first w =
     map_option (\<lambda>(first, second, eq, w). (first, second, ppc_out tmp arg_first first second, w))
       (llsc_loop fuel little lost g p mfirst msecond (\<lambda>first second. ppc_out tmp arg_first first second = 0)
          (\<lambda>first. desired_first) w)"

section \<open>Double words\<close>

text \<open>The special case of a counter that is the constant 0 leaves out the xor.\<close>

definition ppc_tmp :: "bool \<Rightarrow> 'd::len word \<Rightarrow> 'd word \<Rightarrow> 'd word" where
  "ppc_tmp const_p arg_second second =
     (if const_p \<and> arg_second = 0 then second else second XOR arg_second)"

definition ppc_big_cmpxchgptr_strong :: "bool \<Rightarrow> bool \<Rightarrow> ('s world \<Rightarrow> bool) \<Rightarrow> nat \<Rightarrow> ('s \<Rightarrow> 'd::len word) \<Rightarrow> ('d word \<Rightarrow> 's \<Rightarrow> 's) \<Rightarrow> 'd word \<Rightarrow> 'd word \<Rightarrow> 's world
    \<Rightarrow> (bool \<times> 'd word \<times> 's world) option" where
  "ppc_big_cmpxchgptr_strong little const_p lost fuel g p expected desired w =
     (let arg_first = low expected; arg_second = high expected; desired_first = low desired;
          mfirst = PPC_MPTR little; msecond = PPC_MREF little
      in map_option (\<lambda>(first, second, result, w). (result = 0, wide second first, w))
           (ppc_cmpxchg_strong fuel little lost g p mfirst msecond (ppc_tmp const_p arg_second) arg_first desired_first w))"

definition ppc_big_cmpxchgptr_weak :: "bool \<Rightarrow> bool \<Rightarrow> ('s world \<Rightarrow> bool) \<Rightarrow> ('s \<Rightarrow> 'd::len word) \<Rightarrow> ('d word \<Rightarrow> 's \<Rightarrow> 's) \<Rightarrow> 'd word \<Rightarrow> 'd word \<Rightarrow> 's world
    \<Rightarrow> bool \<times> 'd word \<times> 's world" where
  "ppc_big_cmpxchgptr_weak little const_p lost g p expected desired w =
     (let arg_first = low expected; arg_second = high expected; desired_first = low desired;
          mfirst = PPC_MPTR little; msecond = PPC_MREF little;
          (first, second, eq, w) =
            ppc_cmpxchg_weak little lost g p mfirst msecond (ppc_tmp const_p arg_second) arg_first desired_first w;
          (expected, w) = (if \<not> eq then ppc_big_load little g w else (expected, w))
      in (eq, expected, w))"

definition ppc_big_cmpxchgref_strong :: "bool \<Rightarrow> ('s world \<Rightarrow> bool) \<Rightarrow> nat \<Rightarrow> ('s \<Rightarrow> 'd::len word) \<Rightarrow> ('d word \<Rightarrow> 's \<Rightarrow> 's) \<Rightarrow> 'd word \<Rightarrow> 'd word \<Rightarrow> 's world
    \<Rightarrow> (bool \<times> 'd word \<times> 's world) option" where
  "ppc_big_cmpxchgref_strong little lost fuel g p expected desired w =
     (let arg_first = high expected; arg_second = low expected; desired_first = high desired;
          mfirst = PPC_MREF little; msecond = PPC_MPTR little
      in map_option (\<lambda>(first, second, result, w). (result = 0, wide first second, w))
           (ppc_cmpxchg_strong fuel little lost g p mfirst msecond (\<lambda>second. second XOR arg_second)
              arg_first desired_first w))"

definition ppc_big_cmpxchgref_weak :: "bool \<Rightarrow> ('s world \<Rightarrow> bool) \<Rightarrow> ('s \<Rightarrow> 'd::len word) \<Rightarrow> ('d word \<Rightarrow> 's \<Rightarrow> 's) \<Rightarrow> 'd word \<Rightarrow> 'd word \<Rightarrow> 's world
    \<Rightarrow> bool \<times> 'd word \<times> 's world" where
  "ppc_big_cmpxchgref_weak little lost g p expected desired w =
     (let arg_first = high expected; arg_second = low expected; desired_first = high desired;
          mfirst = PPC_MREF little; msecond = PPC_MPTR little;
          (first, second, eq, w) =
            ppc_cmpxchg_weak little lost g p mfirst msecond (\<lambda>second. second XOR arg_second) arg_first desired_first w;
          (expected, w) = (if \<not> eq then ppc_big_load little g w else (expected, w))
      in (eq, expected, w))"

text \<open>\<open>addi\<close>, for a constant below 32768, and \<open>add\<close> compute the same sum.\<close>

definition ppc_big_fetch_add :: "bool \<Rightarrow> ('s world \<Rightarrow> bool) \<Rightarrow> nat \<Rightarrow> ('s \<Rightarrow> 'd::len word) \<Rightarrow> ('d word \<Rightarrow> 's \<Rightarrow> 's) \<Rightarrow> 'd word \<Rightarrow> 's world
    \<Rightarrow> ('d word \<times> 's world) option" where
  "ppc_big_fetch_add little lost fuel g p arg w =
     (let arg_ref = high arg
      in map_option (\<lambda>(ref, ptr, w). (wide ref ptr, w)) (ppc_op fuel little lost g p arg_ref w))"

section \<open>Reference words\<close>

text \<open>\<open>W\<close> is \<open>LFATOMIC_BIG_WIDTH\<close>.\<close>

definition ppc_ref_init :: "nat \<Rightarrow> ('d::len word \<Rightarrow> 's \<Rightarrow> 's) \<Rightarrow> 'd word \<Rightarrow> 's world \<Rightarrow> 's world" where
  "ppc_ref_init W p val w = (if LENGTH('d) \<noteq> W then own (p val) w else ppc_big_init p val w)"

definition ppc_ref_load :: "bool \<Rightarrow> nat \<Rightarrow> ('s \<Rightarrow> 'd::len word) \<Rightarrow> 's world \<Rightarrow> 'd word \<times> 's world" where
  "ppc_ref_load little W g w = (if LENGTH('d) \<noteq> W then load g w else ppc_big_load little g w)"

definition ppc_ref_link :: "bool \<Rightarrow> bool \<Rightarrow> nat \<Rightarrow> ('s \<Rightarrow> 'd::len word) \<Rightarrow> 's world \<Rightarrow> 'h::len word \<times> 's world" where
  "ppc_ref_link little le W g w =
     (if LENGTH('d) \<noteq> W
      then let (d, w) = load g w in (ucast (drop_bit lfrptr_shift (d AND NOT lfref_mask)), w)
      else load (\<lambda>s. ucast (word_at little (LFREF_LINK le) (g s))) w)"

definition ppc_ref_cmpxchgptr_weak :: "bool \<Rightarrow> bool \<Rightarrow> nat \<Rightarrow> ('s world \<Rightarrow> bool) \<Rightarrow> ('s \<Rightarrow> 'd::len word) \<Rightarrow> ('d word \<Rightarrow> 's \<Rightarrow> 's) \<Rightarrow> 'd word \<Rightarrow> 'd word \<Rightarrow> 's world
    \<Rightarrow> bool \<times> 'd word \<times> 's world" where
  "ppc_ref_cmpxchgptr_weak little const_p W lost g p expected desired w =
     (if LENGTH('d) \<noteq> W then cas_weak lost g p expected desired w
      else ppc_big_cmpxchgptr_weak little const_p lost g p expected desired w)"

definition ppc_ref_cmpxchgptr_strong :: "bool \<Rightarrow> bool \<Rightarrow> nat \<Rightarrow> ('s world \<Rightarrow> bool) \<Rightarrow> nat \<Rightarrow> ('s \<Rightarrow> 'd::len word) \<Rightarrow> ('d word \<Rightarrow> 's \<Rightarrow> 's) \<Rightarrow> 'd word \<Rightarrow> 'd word \<Rightarrow> 's world
    \<Rightarrow> (bool \<times> 'd word \<times> 's world) option" where
  "ppc_ref_cmpxchgptr_strong little const_p W lost fuel g p expected desired w =
     (if LENGTH('d) \<noteq> W then Some (cas g p expected desired w)
      else ppc_big_cmpxchgptr_strong little const_p lost fuel g p expected desired w)"

definition ppc_ref_cmpxchgref_weak :: "bool \<Rightarrow> bool \<Rightarrow> nat \<Rightarrow> ('s world \<Rightarrow> bool) \<Rightarrow> ('s \<Rightarrow> 'd::len word) \<Rightarrow> ('d word \<Rightarrow> 's \<Rightarrow> 's) \<Rightarrow> 'd word \<Rightarrow> 'd word \<Rightarrow> 's world
    \<Rightarrow> bool \<times> 'd word \<times> 's world" where
  "ppc_ref_cmpxchgref_weak little const_p W lost g p expected desired w =
     (if LENGTH('d) \<noteq> W then cas_weak lost g p expected desired w
      else ppc_big_cmpxchgref_weak little lost g p expected desired w)"

definition ppc_ref_cmpxchgref_strong :: "bool \<Rightarrow> bool \<Rightarrow> nat \<Rightarrow> ('s world \<Rightarrow> bool) \<Rightarrow> nat \<Rightarrow> ('s \<Rightarrow> 'd::len word) \<Rightarrow> ('d word \<Rightarrow> 's \<Rightarrow> 's) \<Rightarrow> 'd word \<Rightarrow> 'd word \<Rightarrow> 's world
    \<Rightarrow> (bool \<times> 'd word \<times> 's world) option" where
  "ppc_ref_cmpxchgref_strong little const_p W lost fuel g p expected desired w =
     (if LENGTH('d) \<noteq> W then Some (cas g p expected desired w)
      else ppc_big_cmpxchgref_strong little lost fuel g p expected desired w)"

definition ppc_ref_fetch_add :: "bool \<Rightarrow> nat \<Rightarrow> ('s world \<Rightarrow> bool) \<Rightarrow> nat \<Rightarrow> ('s \<Rightarrow> 'd::len word) \<Rightarrow> ('d word \<Rightarrow> 's \<Rightarrow> 's) \<Rightarrow> 'd word \<Rightarrow> 's world
    \<Rightarrow> ('d word \<times> 's world) option" where
  "ppc_ref_fetch_add little W lost fuel g p arg w =
     (if LENGTH('d) \<noteq> W then Some (fetch_add g p arg w) else ppc_big_fetch_add little lost fuel g p arg w)"

text \<open>\<open>__LFREF_CMPXCHG_FULL\<close>: \<open>sizeof(dtype_t) <= sizeof(lfatomic_t)\<close>.\<close>

definition ppc_LFREF_CMPXCHG_FULL :: "nat \<Rightarrow> nat \<Rightarrow> bool" where
  "ppc_LFREF_CMPXCHG_FULL dtype_width atomic_width \<longleftrightarrow> dtype_width \<le> atomic_width"

definition ppc_atomics :: "bool \<Rightarrow> bool \<Rightarrow> bool \<Rightarrow> nat \<Rightarrow> nat \<Rightarrow> ('s world \<Rightarrow> bool) \<Rightarrow> ('s, 'd::len word, 'h::len word) lf_atomics" where
  "ppc_atomics little le const_p W aw lost = \<lparr>ref_init = ppc_ref_init W, ref_load = ppc_ref_load little W,
     ref_link = ppc_ref_link little le W,
     ref_cmpxchgptr_weak = ppc_ref_cmpxchgptr_weak little const_p W lost,
     ref_cmpxchgptr_strong = ppc_ref_cmpxchgptr_strong little const_p W lost,
     ref_cmpxchgref_weak = ppc_ref_cmpxchgref_weak little const_p W lost,
     ref_cmpxchgref_strong = ppc_ref_cmpxchgref_strong little const_p W lost,
     ref_fetch_add = ppc_ref_fetch_add little W lost,
     ref_full = ppc_LFREF_CMPXCHG_FULL (LENGTH('d)) aw\<rparr>"

section \<open>The contract\<close>

lemma ppc_word [simp]:
  "word_at little (PPC_MPTR little) d = low d" "word_at little (PPC_MREF little) d = high d"
  "put_word little (PPC_MPTR little) v d = wide (high d) v"
  "put_word little (PPC_MREF little) v d = wide v (low d)"
  by (simp_all add: word_at_def put_word_def PPC_MPTR_def PPC_MREF_def)

lemma ppc_index:
  "PPC_MPTR little = 0 \<and> PPC_MREF little = 1 \<or> PPC_MPTR little = 1 \<and> PPC_MREF little = 0"
  "PPC_MREF little = 0 \<and> PPC_MPTR little = 1 \<or> PPC_MREF little = 1 \<and> PPC_MPTR little = 0"
  by (simp_all add: PPC_MPTR_def PPC_MREF_def)

lemma ppc_big_load_split: "ppc_big_load little g w = split_load little g w"
  by (simp add: ppc_big_load_def split_load_def)

lemma ppc_out_tmp: "ppc_out (ppc_tmp c b) a x y = 0 \<longleftrightarrow> x = a \<and> y = b"
  and ppc_out_xor: "ppc_out (\<lambda>second. second XOR b) a x y = 0 \<longleftrightarrow> x = a \<and> y = b"
  using xor_or_zero [of x a y 0] by (simp_all add: ppc_out_def ppc_tmp_def xor_or_zero)

lemma ppc_ptr_weak:
  "cas_done g p (new_ptr False) e d w (ppc_big_cmpxchgptr_weak little c lost g p e d w)"
proof -
  obtain a b ok w1 where r: "llsc little lost g p (PPC_MPTR little) (PPC_MREF little)
      (\<lambda>x y. x = low e \<and> y = high e) (\<lambda>x. low d) w = (a, b, ok, w1)" by (metis prod_cases4)
  show ?thesis
  proof (cases ok)
    case True
    with r llsc_cas [OF _ ppc_index(1) [of little], of little lost g p _ "low d" w a b w1 e]
    have "acted g p e (new_ptr False e d) w w1" by (simp add: new_ptr_def)
    from acted_done [of g p e "new_ptr False", OF this] r True show ?thesis
      by (simp add: ppc_big_cmpxchgptr_weak_def ppc_cmpxchg_weak_def ppc_out_tmp)
  next
    case False
    with r have "later w w1" using llsc_no_store(1) by fastforce
    then have "later w (snd (split_load little g w1))" by (meson later_split_load later_trans)
    with r False show ?thesis
      by (simp add: ppc_big_cmpxchgptr_weak_def ppc_cmpxchg_weak_def ppc_out_tmp ppc_big_load_split cas_done_failed
          split: prod.splits)
  qed
qed

lemma ppc_ref_weak:
  "cas_done g p (new_ref False) e d w (ppc_big_cmpxchgref_weak little lost g p e d w)"
proof -
  obtain a b ok w1 where r: "llsc little lost g p (PPC_MREF little) (PPC_MPTR little)
      (\<lambda>x y. x = high e \<and> y = low e) (\<lambda>x. high d) w = (a, b, ok, w1)" by (metis prod_cases4)
  show ?thesis
  proof (cases ok)
    case True
    with r llsc_cas [OF _ ppc_index(2) [of little], of little lost g p _ "high d" w a b w1 e]
    have "acted g p e (new_ref False e d) w w1" by (simp add: new_ref_def)
    from acted_done [of g p e "new_ref False", OF this] r True show ?thesis
      by (simp add: ppc_big_cmpxchgref_weak_def ppc_cmpxchg_weak_def ppc_out_xor)
  next
    case False
    with r have "later w w1" using llsc_no_store(1) by fastforce
    then have "later w (snd (split_load little g w1))" by (meson later_split_load later_trans)
    with r False show ?thesis
      by (simp add: ppc_big_cmpxchgref_weak_def ppc_cmpxchg_weak_def ppc_out_xor ppc_big_load_split cas_done_failed
          split: prod.splits)
  qed
qed

lemma ppc_ptr_strong:
  assumes "ppc_big_cmpxchgptr_strong little c lost fuel g p e d w = Some r"
  shows "cas_done g p (new_ptr False) e d w r"
proof -
  obtain a b ok w1 where l: "llsc_loop fuel little lost g p (PPC_MPTR little) (PPC_MREF little)
      (\<lambda>x y. x = low e \<and> y = high e) (\<lambda>x. low d) w = Some (a, b, ok, w1)"
    and r: "r = (a = low e \<and> b = high e, wide b a, w1)"
    using assms by (auto simp: ppc_big_cmpxchgptr_strong_def ppc_cmpxchg_strong_def ppc_out_tmp Let_def)
  show ?thesis
  proof (cases ok)
    case True
    with l llsc_loop_cas [OF _ ppc_index(1) [of little], of fuel little lost g p _ "low d" w a b w1 e]
    have "acted g p e (new_ptr False e d) w w1" "a = low e" "b = high e" by (simp_all add: new_ptr_def)
    with acted_done [of g p e "new_ptr False" d w w1] r show ?thesis by simp
  next
    case False
    then have "ok = False" by simp
    from llsc_loop_no_store [OF l [unfolded this]] r show ?thesis by (auto simp: cas_done_def)
  qed
qed

lemma ppc_ref_strong:
  assumes "ppc_big_cmpxchgref_strong little lost fuel g p e d w = Some r"
  shows "cas_done g p (new_ref False) e d w r"
proof -
  obtain a b ok w1 where l: "llsc_loop fuel little lost g p (PPC_MREF little) (PPC_MPTR little)
      (\<lambda>x y. x = high e \<and> y = low e) (\<lambda>x. high d) w = Some (a, b, ok, w1)"
    and r: "r = (a = high e \<and> b = low e, wide a b, w1)"
    using assms by (auto simp: ppc_big_cmpxchgref_strong_def ppc_cmpxchg_strong_def ppc_out_xor Let_def)
  show ?thesis
  proof (cases ok)
    case True
    with l llsc_loop_cas [OF _ ppc_index(2) [of little], of fuel little lost g p _ "high d" w a b w1 e]
    have "acted g p e (new_ref False e d) w w1" "a = high e" "b = low e" by (simp_all add: new_ref_def)
    with acted_done [of g p e "new_ref False" d w w1] r show ?thesis by simp
  next
    case False
    then have "ok = False" by simp
    from llsc_loop_no_store [OF l [unfolded this]] r show ?thesis by (auto simp: cas_done_def)
  qed
qed

lemma ppc_strong_returns:
  assumes "length (snd w) < fuel"
  shows "ppc_big_cmpxchgptr_strong little c lost fuel g p e d w \<noteq> None"
    and "ppc_big_cmpxchgref_strong little lost fuel g p e d w \<noteq> None"
    and "ppc_big_fetch_add little lost fuel g p x w \<noteq> None"
  using assms by (simp_all add: ppc_big_cmpxchgptr_strong_def ppc_big_cmpxchgref_strong_def ppc_cmpxchg_strong_def
      ppc_big_fetch_add_def ppc_op_def llsc_loop_returns Let_def del: not_None_eq)

lemma ppc_fetch_add_done:
  fixes g :: "'s \<Rightarrow> 'd::len word"
  assumes "ppc_big_fetch_add little lost fuel g p x w = Some (old, w')" "low x = 0" "even (LENGTH('d))"
  shows "\<exists>w1. later w w1 \<and> old = g (fst w1) \<and> w' = (p (old + x) (fst w1), snd w1)"
proof -
  obtain ref ptr ok where l: "llsc_loop fuel little lost g p (PPC_MREF little) (PPC_MPTR little) (\<lambda>a b. True)
      (\<lambda>ref. low (ref + high x)) w = Some (ref, ptr, ok, w')" and o: "old = wide ref ptr"
    using assms(1) by (auto simp: ppc_big_fetch_add_def ppc_op_def)
  from llsc_loop_add [OF l assms(2,3)] have "acted g p (wide ref ptr) (wide ref ptr + x) w w'" by simp
  then show ?thesis unfolding acted_def o by force
qed

lemma ppc_alone [simp]:
  "ppc_big_cmpxchgptr_weak little c lost g p e d (s, []) =
     (if g s = e then (True, e, (p (new_ptr False e d) s, [])) else (False, g s, (s, [])))"
  "ppc_big_cmpxchgref_weak little lost g p e d (s, []) =
     (if g s = e then (True, e, (p (new_ref False e d) s, [])) else (False, g s, (s, [])))"
  "0 < fuel \<Longrightarrow> ppc_big_cmpxchgptr_strong little c lost fuel g p e d (s, []) =
     Some (if g s = e then (True, e, (p (new_ptr False e d) s, [])) else (False, g s, (s, [])))"
  by (auto simp: ppc_big_cmpxchgptr_weak_def ppc_big_cmpxchgref_weak_def ppc_big_cmpxchgptr_strong_def
      ppc_cmpxchg_weak_def ppc_cmpxchg_strong_def ppc_out_tmp ppc_out_xor llsc_alone llsc_loop_alone Let_def
      ppc_big_load_split split_load_alone new_ptr_def new_ref_def intro: wide_eq)

lemmas ppc_defs = ppc_atomics_def ppc_ref_init_def ppc_ref_load_def ppc_ref_link_def ppc_ref_cmpxchgptr_weak_def
  ppc_ref_cmpxchgptr_strong_def ppc_ref_cmpxchgref_weak_def ppc_ref_cmpxchgref_strong_def ppc_ref_fetch_add_def
  ppc_big_init_def ppc_big_load_split ppc_LFREF_CMPXCHG_FULL_def

text \<open>The 64-bit instance: 128-bit reference words on a machine with 64-bit conditional stores.\<close>

interpretation ppc: lf_refs "ppc_atomics little little c 128 64 lost :: ('s, 128 word, 64 word) lf_atomics"
  for little c lost
proof unfold_locales
  let ?A = "ppc_atomics little little c 128 64 lost :: ('s, 128 word, 64 word) lf_atomics"
  fix g :: "'s \<Rightarrow> 128 word" and w :: "'s world" and fuel p x old w'
  show "\<exists>w1. later w w1 \<and> ref_link ?A g w = (ucast (low (g (fst w1))), w1)"
    by (intro exI [of _ "others w"])
      (simp add: ppc_defs load_split lfrptr_shift_def word_at_def LFREF_LINK_def later_others)
  show "\<exists>w1. later w w1 \<and> old = g (fst w1) \<and> w' = (p (old + x) (fst w1), snd w1)"
    if "ref_fetch_add ?A fuel g p x w = Some (old, w')" "low x = 0"
    using that by (intro ppc_fetch_add_done [of little lost fuel]) (simp_all add: ppc_defs)
qed (simp_all add: ppc_defs world_simps later_split_load ppc_ptr_weak ppc_ref_weak ppc_ptr_strong ppc_ref_strong
    ppc_strong_returns del: not_None_eq)

section \<open>What the header promises\<close>

text \<open>C15: The weak compare-and-swap of the pointer, which stores only one word, is a compare-and-swap
  of the whole double word: if it succeeds there is a moment at which pointer and counter both had
  the expected value, and at that moment the pointer is replaced and the counter kept; if it fails
  it has changed nothing.\<close>

theorem ppc_cmpxchgptr_atomic:
  fixes g :: "'s \<Rightarrow> 128 word"
  shows "case ppc_ref_cmpxchgptr_weak little const_p 128 lost g p e d w of (ok, e', w') \<Rightarrow>
     if ok then e' = e \<and> (\<exists>s en. later w (s, en) \<and> g s = e \<and> w' = (p (wide (high e) (low d)) s, en))
     else later w w'"
  using ppc.ptr_weak [where g = g and p = p and e = e and d = d and w = w and little = little and c = const_p and lost = lost]
  by (auto simp: cas_done_def ppc_defs new_ptr_def split: prod.splits)

end
