(* ===== verification/Hyaline_EL.thy ===== *)
theory Hyaline_EL
  imports Hyaline_O_Safe Lfsmr_Inv Gcc_X86 Llvm_X86 C11 Ppc
begin

text \<open>
  The trackers built on \<open>lfsmr.h\<close>, slots shared by threads: \<open>HyalineTrackerEL.hpp\<close> (an operation
  enters and leaves) and \<open>HyalineTrackerTR.hpp\<close> (a thread enters once and trims at the end of each
  operation), and the safety and progress of the first, for every implementation \<open>A\<close> of the
  \<open>__lfref_*\<close> operations that keeps the contract \<open>lf_words\<close>.  \<open>sz\<close> is \<open>sizeof(T)\<close>; \<open>nx\<close>, \<open>lk\<close>, \<open>rf\<close>
  are what the memory of the nodes holds before it is written.
\<close>

definition el_free_node :: "u64 \<Rightarrow> ptr \<Rightarrow> 'a base_scheme \<Rightarrow> 'a base_scheme" where
  "el_free_node sz node s = (let dnode = node - sz in dec_retired 0 (base_reclaim dnode s))"

section \<open>\<open>HyalineELTracker\<close>\<close>

record hyel = lfsmr +
  el_collect :: bool
  el_SMR_ORDER :: nat
  el_SMR_BATCH :: u64
  el_taskData :: "nat \<Rightarrow> hy_task"

type_synonym el_atomics = "(hyel, u128, u64) lf_atomics"

definition el_new :: "el_atomics \<Rightarrow> nat \<Rightarrow> int \<Rightarrow> bool \<Rightarrow> bool \<Rightarrow> (ptr \<Rightarrow> ptr) \<Rightarrow> (ptr \<Rightarrow> u64) \<Rightarrow> (ptr \<Rightarrow> u64)
    \<Rightarrow> (ptr \<Rightarrow> u64) \<Rightarrow> (nat \<Rightarrow> u128) \<Rightarrow> (nat \<Rightarrow> hy_task) \<Rightarrow> hyel" where
  "el_new A n slots collect cnt mem nx lk rf hd0 td =
     (let SMR_ORDER = calc_next_log2 (of_int (if slots < int n then slots else int n));
          SMR_NUM = 2 ^ SMR_ORDER;
          SMR_BATCH = (if n < SMR_NUM then SMR_NUM else SMR_NUM + 1)
      in solo (lfs_init A SMR_ORDER)
           (base.extend (base_new n cnt mem)
              \<lparr>smr_next = nx, smr_link = lk, smr_refs = rf, lfs_head = hd0, el_collect = collect,
               el_SMR_ORDER = SMR_ORDER, el_SMR_BATCH = of_nat SMR_BATCH,
               el_taskData = (\<lambda>i. if i < n
                  then (td i)\<lparr>hy_enter_num := i AND (SMR_NUM - 1), hy_batch := smr_batch_init (hy_batch (td i))\<rparr>
                  else td i)\<rparr>))"

definition el_alloc :: "nat \<Rightarrow> ptr \<Rightarrow> hyel \<Rightarrow> ptr \<times> hyel" where
  "el_alloc tid blk s = (blk, s)"

definition el_set_handle :: "nat \<Rightarrow> u64 \<Rightarrow> hyel \<Rightarrow> hyel" where
  "el_set_handle tid h s = s\<lparr>el_taskData := (el_taskData s)(tid := (el_taskData s tid)\<lparr>hy_handle := h\<rparr>)\<rparr>"

definition el_set_batch :: "nat \<Rightarrow> smr_batch \<Rightarrow> hyel \<Rightarrow> hyel" where
  "el_set_batch tid b s = s\<lparr>el_taskData := (el_taskData s)(tid := (el_taskData s tid)\<lparr>hy_batch := b\<rparr>)\<rparr>"

definition el_start_op :: "el_atomics \<Rightarrow> nat \<Rightarrow> nat \<Rightarrow> hyel world \<Rightarrow> hyel world option" where
  "el_start_op A fuel tid w =
     map_option (\<lambda>(ok, handle, w). own (el_set_handle tid handle) w)
       (lfs_enter A fuel (hy_enter_num (el_taskData (fst w) tid)) w)"

definition el_end_op :: "el_atomics \<Rightarrow> nat \<Rightarrow> u64 \<Rightarrow> nat \<Rightarrow> hyel world \<Rightarrow> hyel world option" where
  "el_end_op A fuel sz tid w =
     map_option snd (lfs_leave fuel A (hy_enter_num (el_taskData (fst w) tid)) (el_SMR_ORDER (fst w))
       (hy_handle (el_taskData (fst w) tid)) (el_free_node sz) 0 LF_DONTCHECK w)"

definition el_retire :: "el_atomics \<Rightarrow> nat \<Rightarrow> u64 \<Rightarrow> ptr \<Rightarrow> nat \<Rightarrow> hyel world \<Rightarrow> hyel world option" where
  "el_retire A fuel sz obj tid w =
     (if obj = nullptr then Some w
      else map_option (\<lambda>(ok, batch, w). own (el_set_batch tid batch) w)
             (lfs_retire fuel A (el_SMR_ORDER (fst w)) (obj + sz) (el_free_node sz) 0
                (hy_batch (el_taskData (fst w) tid)) (el_SMR_BATCH (fst w)) w))"

text \<open>The body of \<open>last_end_op\<close> is compiled out.\<close>

definition el_last_end_op :: "nat \<Rightarrow> hyel \<Rightarrow> hyel" where
  "el_last_end_op tid s = s"

section \<open>\<open>HyalineTRTracker\<close>\<close>

record hytr = lfsmr +
  tr_collect :: bool
  tr_SMR_ORDER :: nat
  tr_SMR_BATCH :: u64
  tr_taskData :: "nat \<Rightarrow> hy_task_tr"

type_synonym tr_atomics = "(hytr, u128, u64) lf_atomics"

definition tr_new :: "tr_atomics \<Rightarrow> nat \<Rightarrow> int \<Rightarrow> bool \<Rightarrow> bool \<Rightarrow> (ptr \<Rightarrow> ptr) \<Rightarrow> (ptr \<Rightarrow> u64) \<Rightarrow> (ptr \<Rightarrow> u64)
    \<Rightarrow> (ptr \<Rightarrow> u64) \<Rightarrow> (nat \<Rightarrow> u128) \<Rightarrow> (nat \<Rightarrow> hy_task_tr) \<Rightarrow> hytr" where
  "tr_new A n slots collect cnt mem nx lk rf hd0 td =
     (let SMR_ORDER = calc_next_log2 (of_int (if slots < int n then slots else int n));
          SMR_NUM = 2 ^ SMR_ORDER;
          SMR_BATCH = (if n < 64 then 64 else SMR_NUM + 1)
      in solo (lfs_init A SMR_ORDER)
           (base.extend (base_new n cnt mem)
              \<lparr>smr_next = nx, smr_link = lk, smr_refs = rf, lfs_head = hd0, tr_collect = collect,
               tr_SMR_ORDER = SMR_ORDER, tr_SMR_BATCH = of_nat SMR_BATCH,
               tr_taskData = (\<lambda>i. if i < n
                  then (td i)\<lparr>hy_firstTime := True, hy_enter_num := i AND (SMR_NUM - 1),
                              hy_batch := smr_batch_init (hy_batch (td i))\<rparr>
                  else td i)\<rparr>))"

definition tr_alloc :: "nat \<Rightarrow> ptr \<Rightarrow> hytr \<Rightarrow> ptr \<times> hytr" where
  "tr_alloc tid blk s = (blk, s)"

definition tr_set_handle :: "nat \<Rightarrow> u64 \<Rightarrow> hytr \<Rightarrow> hytr" where
  "tr_set_handle tid h s = s\<lparr>tr_taskData := (tr_taskData s)(tid := (tr_taskData s tid)\<lparr>hy_handle := h\<rparr>)\<rparr>"

definition tr_set_batch :: "nat \<Rightarrow> smr_batch \<Rightarrow> hytr \<Rightarrow> hytr" where
  "tr_set_batch tid b s = s\<lparr>tr_taskData := (tr_taskData s)(tid := (tr_taskData s tid)\<lparr>hy_batch := b\<rparr>)\<rparr>"

definition tr_start_op :: "tr_atomics \<Rightarrow> nat \<Rightarrow> nat \<Rightarrow> hytr world \<Rightarrow> hytr world option" where
  "tr_start_op A fuel tid w =
     (if hy_firstTime (tr_taskData (fst w) tid)
      then let w = own (\<lambda>s. s\<lparr>tr_taskData := (tr_taskData s)(tid :=
                     (tr_taskData s tid)\<lparr>hy_firstTime := False\<rparr>)\<rparr>) w
           in map_option (\<lambda>(ok, handle, w). own (tr_set_handle tid handle) w)
                (lfs_enter A fuel (hy_enter_num (tr_taskData (fst w) tid)) w)
      else Some w)"

definition tr_end_op :: "tr_atomics \<Rightarrow> nat \<Rightarrow> u64 \<Rightarrow> nat \<Rightarrow> hytr world \<Rightarrow> hytr world option" where
  "tr_end_op A fuel sz tid w =
     map_option (\<lambda>(ok, handle, w). own (tr_set_handle tid handle) w)
       (lfs_trim fuel A (hy_enter_num (tr_taskData (fst w) tid)) (tr_SMR_ORDER (fst w))
          (hy_handle (tr_taskData (fst w) tid)) (el_free_node sz) 0 LF_DONTCHECK FLUSH_THRESHOLD w)"

definition tr_last_end_op :: "tr_atomics \<Rightarrow> nat \<Rightarrow> u64 \<Rightarrow> nat \<Rightarrow> hytr world \<Rightarrow> hytr world option" where
  "tr_last_end_op A fuel sz tid w =
     map_option snd (lfs_leave fuel A (hy_enter_num (tr_taskData (fst w) tid)) (tr_SMR_ORDER (fst w))
       (hy_handle (tr_taskData (fst w) tid)) (el_free_node sz) 0 LF_DONTCHECK w)"

definition tr_retire :: "tr_atomics \<Rightarrow> nat \<Rightarrow> u64 \<Rightarrow> ptr \<Rightarrow> nat \<Rightarrow> hytr world \<Rightarrow> hytr world option" where
  "tr_retire A fuel sz obj tid w =
     (if obj = nullptr then Some w
      else map_option (\<lambda>(ok, batch, w). own (tr_set_batch tid batch) w)
             (lfs_retire fuel A (tr_SMR_ORDER (fst w)) (obj + sz) (el_free_node sz) 0
                (hy_batch (tr_taskData (fst w) tid)) (tr_SMR_BATCH (fst w)) w))"

section \<open>The contract\<close>

definition el_ops :: "el_atomics \<Rightarrow> nat \<Rightarrow> u64 \<Rightarrow> hyel hy_ops" where
  "el_ops A fuel sz = \<lparr>ops_alloc = (\<lambda>p t s. Some (snd (el_alloc t p s))),
     ops_start = (\<lambda>t s. map_option fst (el_start_op A fuel t (s, []))),
     ops_read = (\<lambda>a t s. Some (fst (snd (base_read a 0 t nullptr (s, []))))),
     ops_end = (\<lambda>t s. map_option fst (el_end_op A fuel sz t (s, []))),
     ops_last = (\<lambda>t s. Some (el_last_end_op t s)),
     ops_retire = (\<lambda>p t s. map_option fst (el_retire A fuel sz p t (s, [])))\<rparr>"

lemma lfs_lib_el: "lf_words A \<Longrightarrow> lfs_lib (A :: el_atomics) (el_free_node sz) (\<lambda>x. x - sz) (\<lambda>x. x \<noteq> sz)"
  by (intro lfs_lib.intro smr_callback.intro)
    (simp_all add: el_free_node_def dec_retired_def base_reclaim_def Let_def)

definition el_lib :: "el_atomics \<Rightarrow> nat \<Rightarrow> nat \<Rightarrow> nat \<Rightarrow> nat \<Rightarrow> nat set \<Rightarrow> (nat \<Rightarrow> ptr list \<Rightarrow> bool) \<Rightarrow> ptr list list \<Rightarrow> hyel \<Rightarrow> bool" where
  "el_lib A fuel k n m U g B s \<longleftrightarrow> lf_words A \<and> 0 < fuel
     \<and> (\<exists>K H. lfs_inv k n (\<lambda>t. t mod 2 ^ k) U K B H s \<and> (\<forall>t \<in> U. hy_handle (el_taskData s t) = H t)
          \<and> (\<forall>u \<in> U. \<forall>b \<in> set B. g u b \<longrightarrow> lfs_holds (\<lambda>t. t mod 2 ^ k) K s u b))
     \<and> el_SMR_ORDER s = k \<and> el_SMR_BATCH s = of_nat m \<and> task_num s = n \<and> 1 < m \<and> m < 2 ^ 64
     \<and> min n (2 ^ k) < m \<and> (\<forall>t < n. hy_enter_num (el_taskData s t) = t mod 2 ^ k)"

lemma el_libD:
  assumes "el_lib A fuel k n m U g B s"
  shows "lf_words A" "0 < fuel" "el_SMR_ORDER s = k" "el_SMR_BATCH s = of_nat m" "task_num s = n" "1 < m" "m < 2 ^ 64"
    "min n (2 ^ k) < m" "t < n \<Longrightarrow> hy_enter_num (el_taskData s t) = t mod 2 ^ k"
  using assms unfolding el_lib_def by blast+

lemma el_libE:
  assumes "el_lib A fuel k n m U g B s"
  obtains K H where "lfs_inv k n (\<lambda>t. t mod 2 ^ k) U K B H s" "\<And>t. t \<in> U \<Longrightarrow> hy_handle (el_taskData s t) = H t"
    "\<And>u b. u \<in> U \<Longrightarrow> b \<in> set B \<Longrightarrow> g u b \<Longrightarrow> lfs_holds (\<lambda>t. t mod 2 ^ k) K s u b"
    "lfs_ghost k n (\<lambda>t. t mod 2 ^ k) U K B H s" "smr_ginv (lfs_hold k s) n K B [] 0 s"
  using assms unfolding el_lib_def lfs_inv_def by blast

lemma el_lib_same:
  assumes "el_lib A fuel k n m U g B s" "lfs_inv k n (\<lambda>t. t mod 2 ^ k) U' K B' H s'"
    "\<And>t. t \<in> U' \<Longrightarrow> hy_handle (el_taskData s' t) = H t"
    "\<And>u b. u \<in> U' \<Longrightarrow> b \<in> set B' \<Longrightarrow> g' u b \<Longrightarrow> lfs_holds (\<lambda>t. t mod 2 ^ k) K s' u b"
    "el_SMR_ORDER s' = el_SMR_ORDER s" "el_SMR_BATCH s' = el_SMR_BATCH s" "task_num s' = task_num s"
    "\<And>t. hy_enter_num (el_taskData s' t) = hy_enter_num (el_taskData s t)"
  shows "el_lib A fuel k n m U' g' B' s'"
proof -
  note I = el_libD [OF assms(1)]
  have "\<exists>K H. lfs_inv k n (\<lambda>t. t mod 2 ^ k) U' K B' H s' \<and> (\<forall>t \<in> U'. hy_handle (el_taskData s' t) = H t)
      \<and> (\<forall>u \<in> U'. \<forall>b \<in> set B'. g' u b \<longrightarrow> lfs_holds (\<lambda>t. t mod 2 ^ k) K s' u b)"
    using assms(2,3,4) by blast
  then show ?thesis using I unfolding el_lib_def assms(5-8) by simp
qed

lemma el_more: "lfsmr.more s' = lfsmr.more s \<Longrightarrow> el_SMR_ORDER s' = el_SMR_ORDER s
  \<and> el_SMR_BATCH s' = el_SMR_BATCH s \<and> el_taskData s' = el_taskData s"
  by (cases s, cases s') simp

lemma el_kept: "smr_kept s' = smr_kept (s :: hyel) \<Longrightarrow> lfsmr.more s' = lfsmr.more s \<and> lfs_head s' = lfs_head s
  \<and> task_num s' = task_num s"
  by (cases s, cases s') simp

lemma lfs_idle:
  assumes g: "lfs_ghost k n slot {} K B H s" and i: "smr_ginv (lfs_hold k s) n K B [] 0 s"
  shows "B = []"
proof -
  note G = lfs_ghostD [OF g] and I = smr_ginvD [OF i]
  have "b \<notin> set B" for b
  proof
    assume b: "b \<in> set B"
    have "in_slots n K b = 0" unfolding in_slots_0 using G(10) by simp
    moreover have "lfs_heads k s b = 0"
    proof -
      have "lfs_top s i = 0" if "i < 2 ^ k" for i using G(6) [OF that] by simp
      moreover have "0 \<notin> set b" using I(3) [of 0] b by auto
      ultimately show ?thesis by (auto simp: lfs_heads_def)
    qed
    ultimately show False using I(10) [OF b] by (simp add: held_hold(2))
  qed
  then show ?thesis by (cases B) auto
qed

lemma el_lib_idle:
  assumes "el_lib A fuel k n m {} g B s"
  shows "B = []"
  using assms by (rule el_libE) (rule lfs_idle)

lemma el_lib_keep:
  assumes lib: "el_lib A fuel k n m U g B s" and s': "same_nodes X s s'" "X \<inter> set (concat B) = {}"
    "smr_next s' = smr_next s" "smr_kept s' = smr_kept s"
  shows "el_lib A fuel k n m U g B s'"
proof -
  obtain K H where L: "lfs_inv k n (\<lambda>t. t mod 2 ^ k) U K B H s" "\<And>t. t \<in> U \<Longrightarrow> hy_handle (el_taskData s t) = H t"
    "\<And>u b. u \<in> U \<Longrightarrow> b \<in> set B \<Longrightarrow> g u b \<Longrightarrow> lfs_holds (\<lambda>t. t mod 2 ^ k) K s u b"
    by (rule el_libE [OF lib]) (rule that)
  note M = el_kept [OF s'(4)]
  have h: "lfs_head s' = lfs_head s" using M by blast
  note N = el_more [OF M [THEN conjunct1]]
  show ?thesis
    by (rule el_lib_same [OF lib lfs_inv_same(1) [OF L(1) s'(1,2) h s'(3)]])
      (use L(2,3) M N lfs_inv_same(2) [OF L(1) s'(1,2) h s'(3)] in simp_all)
qed

lemma el_set_batch_fields:
  "smr_next (el_set_batch t b s) = smr_next s" "smr_link (el_set_batch t b s) = smr_link s"
  "smr_refs (el_set_batch t b s) = smr_refs s" "lfs_head (el_set_batch t b s) = lfs_head s"
  "task_num (el_set_batch t b s) = task_num s" "reclaimed (el_set_batch t b s) = reclaimed s"
  "el_SMR_ORDER (el_set_batch t b s) = el_SMR_ORDER s" "el_SMR_BATCH (el_set_batch t b s) = el_SMR_BATCH s"
  "el_taskData (el_set_batch t b s) = (el_taskData s)(t := (el_taskData s t)\<lparr>hy_batch := b\<rparr>)"
  by (simp_all add: el_set_batch_def)

lemma el_set_handle_fields:
  "smr_next (el_set_handle t b s) = smr_next s" "smr_link (el_set_handle t b s) = smr_link s"
  "smr_refs (el_set_handle t b s) = smr_refs s" "lfs_head (el_set_handle t b s) = lfs_head s"
  "task_num (el_set_handle t b s) = task_num s" "reclaimed (el_set_handle t b s) = reclaimed s"
  "el_SMR_ORDER (el_set_handle t b s) = el_SMR_ORDER s" "el_SMR_BATCH (el_set_handle t b s) = el_SMR_BATCH s"
  "el_taskData (el_set_handle t b s) = (el_taskData s)(t := (el_taskData s t)\<lparr>hy_handle := b\<rparr>)"
  by (simp_all add: el_set_handle_def)

lemma el_lib_batch:
  assumes lib: "el_lib A fuel k n m U g B s"
  shows "el_lib A fuel k n m U g B (el_set_batch t b s)"
proof -
  obtain K H where L: "lfs_inv k n (\<lambda>t. t mod 2 ^ k) U K B H s" "\<And>t. t \<in> U \<Longrightarrow> hy_handle (el_taskData s t) = H t"
    "\<And>u b. u \<in> U \<Longrightarrow> b \<in> set B \<Longrightarrow> g u b \<Longrightarrow> lfs_holds (\<lambda>t. t mod 2 ^ k) K s u b"
    by (rule el_libE [OF lib]) (rule that)
  have same: "same_nodes {} s (el_set_batch t b s)" by (simp add: same_nodes_def el_set_batch_fields)
  note S = lfs_inv_same [OF L(1) same]
  show ?thesis
    by (rule el_lib_same [OF lib S(1)]) (use L(2,3) S(2) in \<open>auto simp: el_set_batch_fields\<close>)
qed

lemma el_start:
  assumes lib: "el_lib A fuel k n m U g B s" and t: "t < n" "t \<notin> U"
  shows "\<exists>s' g'. el_start_op A fuel t (s, []) = Some (s', []) \<and> same_nodes {} s s' \<and> reclaimed s' = reclaimed s
      \<and> (\<lambda>t. hy_batch (el_taskData s' t)) = (\<lambda>t. hy_batch (el_taskData s t))
      \<and> el_lib A fuel k n m (insert t U) g' B s' \<and> (\<forall>u \<in> U. \<forall>b \<in> set B. g u b \<longrightarrow> g' u b)"
proof -
  note I = el_libD [OF lib]
  obtain K H where L: "lfs_inv k n (\<lambda>t. t mod 2 ^ k) U K B H s" "\<And>t. t \<in> U \<Longrightarrow> hy_handle (el_taskData s t) = H t"
    "\<And>u b. u \<in> U \<Longrightarrow> b \<in> set B \<Longrightarrow> g u b \<Longrightarrow> lfs_holds (\<lambda>t. t mod 2 ^ k) K s u b"
    by (rule el_libE [OF lib]) (rule that)
  let ?i = "t mod 2 ^ k"
  let ?s = "lfs_put_head ?i (lfs_mk (lfs_refs (lfs_head s ?i) + 1) (lfs_top s ?i)) s"
  let ?s' = "el_set_handle t (lfs_top s ?i) ?s"
  note E = lfs_lib.lfs_enter_run [OF lfs_lib_el [OF I(1)] L(1) t I(2)]
  have run: "el_start_op A fuel t (s, []) = Some (?s', [])"
    using E(1) I(9) [OF t(1)] by (simp add: el_start_op_def own_alone)
  have same: "same_nodes {} ?s ?s'" by (simp add: same_nodes_def el_set_handle_fields)
  have hd: "lfs_head ?s' = lfs_head ?s" "smr_next ?s' = smr_next ?s" by (simp_all add: el_set_handle_fields)
  note S = lfs_inv_same [OF E(2) same _ hd]
  define g' where "g' u b \<longleftrightarrow> lfs_holds (\<lambda>t. t mod 2 ^ k) K s u b" for u b
  have "el_lib A fuel k n m (insert t U) g' B ?s'"
    by (rule el_lib_same [OF lib S(1)])
      (use L(2) S(2) E(3) in \<open>auto simp: el_set_handle_fields lfs_put_head_def g'_def\<close>)
  moreover have "\<forall>u \<in> U. \<forall>b \<in> set B. g u b \<longrightarrow> g' u b" using L(3) by (simp add: g'_def)
  moreover have "same_nodes {} s ?s'" "reclaimed ?s' = reclaimed s"
    "(\<lambda>t. hy_batch (el_taskData ?s' t)) = (\<lambda>t. hy_batch (el_taskData s t))"
    by (auto simp: same_nodes_def el_set_handle_fields lfs_put_head_def)
  ultimately show ?thesis using run by blast
qed

lemma el_leave:
  assumes lib: "el_lib A fuel k n m U g B s" and t: "t \<in> U" and V: "\<forall>x \<in> set (concat B). x \<noteq> sz"
    and fuel: "length (concat B) < fuel"
  shows "\<exists>s' g' B' F. el_end_op A fuel sz t (s, []) = Some (s', []) \<and> el_lib A fuel k n m (U - {t}) g' B' s'
      \<and> mset (concat B) = mset (concat B') + mset (concat F)
      \<and> reclaimed s' = reclaimed s @ map (\<lambda>x. x - sz) (concat F)
      \<and> same_nodes (set (concat B)) s s' \<and> el_taskData s' = el_taskData s
      \<and> (\<forall>u \<in> U - {t}. \<forall>b \<in> set B. g u b \<longrightarrow> b \<in> set B' \<and> g' u b)"
proof -
  note I = el_libD [OF lib]
  let ?slot = "\<lambda>t. t mod 2 ^ k"
  obtain K H where L: "lfs_inv k n ?slot U K B H s" "\<And>t. t \<in> U \<Longrightarrow> hy_handle (el_taskData s t) = H t"
    "\<And>u b. u \<in> U \<Longrightarrow> b \<in> set B \<Longrightarrow> g u b \<Longrightarrow> lfs_holds ?slot K s u b"
    "lfs_ghost k n ?slot U K B H s" "smr_ginv (lfs_hold k s) n K B [] 0 s"
    by (rule el_libE [OF lib]) (rule that)
  have tn: "t < n" using lfs_ghostD(3) [OF L(4)] t by blast
  obtain s' P F where r: "lfs_leave fuel A (?slot t) k (H t) (el_free_node sz) 0 LF_DONTCHECK (s, []) = Some (True, (s', []))"
    "lfs_inv k n ?slot (U - {t}) (K(t := [])) (filter P B) H s'"
    "set F = {b \<in> set B. \<not> P b}" "distinct (concat F)" "reclaimed s' = reclaimed s @ map (\<lambda>x. x - sz) (concat F)"
    "same_nodes (set (concat B)) s s'" "task_num s' = task_num s" "lfsmr.more s' = lfsmr.more s"
    "\<And>u b. u \<in> U - {t} \<Longrightarrow> b \<in> set B \<Longrightarrow> lfs_holds ?slot K s u b \<Longrightarrow> P b \<and> lfs_holds ?slot (K(t := [])) s' u b"
    using lfs_lib.lfs_leave_run [OF lfs_lib_el [OF I(1)] L(1) t _ fuel V, of LF_DONTCHECK]
    by (auto simp: LF_DONTCHECK_def)
  note M = el_more [OF r(8)]
  have run: "el_end_op A fuel sz t (s, []) = Some (s', [])"
    using r(1) L(2) [OF t] I(3) I(9) [OF tn] by (simp add: el_end_op_def)
  define g' where "g' u b \<longleftrightarrow> lfs_holds ?slot (K(t := [])) s' u b" for u b
  have "el_lib A fuel k n m (U - {t}) g' (filter P B) s'"
    by (rule el_lib_same [OF lib r(2)]) (use L(2) M r(7) in \<open>auto simp: g'_def\<close>)
  moreover have "mset (concat B) = mset (concat (filter P B)) + mset (concat F)"
    by (rule mset_concat_split [OF smr_ginvD(1) [OF L(5)] r(4,3)])
  moreover have "\<forall>u \<in> U - {t}. \<forall>b \<in> set B. g u b \<longrightarrow> b \<in> set (filter P B) \<and> g' u b"
    using r(9) L(3) by (simp add: g'_def)
  ultimately show ?thesis using run r(5,6) M
    by (intro exI [of _ s'] exI [of _ g'] exI [of _ "filter P B"] exI [of _ F]) simp
qed

lemma el_retire_batch:
  assumes lib: "el_lib A fuel k n m U g B s" and b: "batch_ok s b" "smr_refs s (last b) = 0" "distinct b"
      "set b \<inter> set (concat B) = {}" "\<forall>x \<in> set b. x \<noteq> 0 \<and> x \<noteq> sz" "length b = m" "length b < fuel"
  shows "\<exists>s'. lfs_retire_batch fuel A (el_free_node sz) 0 k (hd b) (s, []) = Some (True, (s', []))
      \<and> same_nodes (set b \<union> set (concat B)) s s' \<and> el_taskData s' = el_taskData s
      \<and> (if U = {} then reclaimed s' = reclaimed s @ map (\<lambda>x. x - sz) b \<and> el_lib A fuel k n m U g B s'
         else reclaimed s' = reclaimed s
           \<and> (\<exists>g'. el_lib A fuel k n m U g' (b # B) s' \<and> (\<forall>u \<in> U. g' u b \<and> (\<forall>c \<in> set B. g u c \<longrightarrow> g' u c))))"
proof -
  note I = el_libD [OF lib]
  let ?slot = "\<lambda>t. t mod 2 ^ k"
  obtain K H where L: "lfs_inv k n ?slot U K B H s" "\<And>t. t \<in> U \<Longrightarrow> hy_handle (el_taskData s t) = H t"
    "\<And>u b. u \<in> U \<Longrightarrow> b \<in> set B \<Longrightarrow> g u b \<Longrightarrow> lfs_holds ?slot K s u b" "lfs_ghost k n ?slot U K B H s"
    by (rule el_libE [OF lib]) (rule that)
  note G = lfs_ghostD [OF L(4)]
  have few: "length (filter (lfs_active s) [0..<2 ^ k]) < length b"
    by (rule le_less_trans [OF lfs_few [OF L(4) _ distinct_upt]]) (use b(6) I(8) in auto)
  obtain s' K' where r: "lfs_retire_batch fuel A (el_free_node sz) 0 k (hd b) (s, []) = Some (True, (s', []))"
    "same_nodes (set b \<union> set (concat B)) s s'" "task_num s' = task_num s" "lfsmr.more s' = lfsmr.more s"
    "if U = {} then reclaimed s' = reclaimed s @ map (\<lambda>x. x - sz) b \<and> lfs_inv k n ?slot U K' B H s'
     else reclaimed s' = reclaimed s \<and> lfs_inv k n ?slot U K' (b # B) H s'
       \<and> (\<forall>u \<in> U. lfs_holds ?slot K' s' u b \<and> (\<forall>c \<in> set B. lfs_holds ?slot K s u c \<longrightarrow> lfs_holds ?slot K' s' u c))"
    using lfs_lib.lfs_retire_run [OF lfs_lib_el [OF I(1)] L(1) b(1-5) few b(7)] by blast
  note M = el_more [OF r(4)]
  show ?thesis
  proof (cases "U = {}")
    case True
    have l: "reclaimed s' = reclaimed s @ map (\<lambda>x. x - sz) b" "lfs_inv k n ?slot U K' B H s'"
      using r(5) unfolding if_P [OF True] by blast+
    have "el_lib A fuel k n m U g B s'"
      by (rule el_lib_same [OF lib l(2)]) (use True M r(3) in simp_all)
    with r(1,2) M l(1) True show ?thesis by (intro exI [of _ s']) simp
  next
    case False
    have l: "reclaimed s' = reclaimed s" "lfs_inv k n ?slot U K' (b # B) H s'"
      "\<And>u. u \<in> U \<Longrightarrow> lfs_holds ?slot K' s' u b"
      "\<And>u c. u \<in> U \<Longrightarrow> c \<in> set B \<Longrightarrow> lfs_holds ?slot K s u c \<Longrightarrow> lfs_holds ?slot K' s' u c"
      using r(5) unfolding if_not_P [OF False] by blast+
    define g' where "g' u c \<longleftrightarrow> lfs_holds ?slot K' s' u c" for u c
    have "el_lib A fuel k n m U g' (b # B) s'"
      by (rule el_lib_same [OF lib l(2)]) (use L(2) M r(3) in \<open>simp_all add: g'_def\<close>)
    moreover have "\<forall>u \<in> U. g' u b \<and> (\<forall>c \<in> set B. g u c \<longrightarrow> g' u c)"
      using l(3,4) L(3) by (simp add: g'_def)
    ultimately have "\<exists>g'. el_lib A fuel k n m U g' (b # B) s' \<and> (\<forall>u \<in> U. g' u b \<and> (\<forall>c \<in> set B. g u c \<longrightarrow> g' u c))"
      by blast
    with r(1,2) M l(1) False show ?thesis by (intro exI [of _ s']) simp
  qed
qed

text \<open>The library's lemmas for the implementations of the atomic operations.\<close>

interpretation el_gcc: lfs_lib "gcc_atomics le W lost :: el_atomics" "el_free_node sz" "\<lambda>x. x - sz" "\<lambda>x. x \<noteq> sz" for le W lost sz
  by (rule lfs_lib_el [OF gcc.lf_words_axioms])

interpretation el_llvm: lfs_lib "llvm_atomics True W lost :: el_atomics" "el_free_node sz" "\<lambda>x. x - sz" "\<lambda>x. x \<noteq> sz" for W lost sz
  by (rule lfs_lib_el [OF llvm.lf_words_axioms])

interpretation el_ppc: lfs_lib "ppc_atomics little little c 128 64 lost :: el_atomics" "el_free_node sz" "\<lambda>x. x - sz" "\<lambda>x. x \<noteq> sz"
  for little c lost sz
  by (rule lfs_lib_el [OF ppc.lf_words_axioms])

interpretation el_t: hy_smr "el_ops A fuel sz" n m sz "\<lambda>x. x \<noteq> 0" fuel limit False k "lfs_retire_batch fuel A (el_free_node sz) 0"
  "\<lambda>s t. hy_batch (el_taskData s t)" el_set_batch "\<lambda>U D. el_lib A fuel k n m U" for A fuel sz n m k limit
proof unfold_locales
  fix U D g B and s s' :: hyel and t b X p
  assume lib: "el_lib A fuel k n m U g B s"
  note I = el_libD [OF lib]
  show "1 < m \<and> m < 2 ^ 64" using I(6,7) by blast
  show "U \<subseteq> {..<n} \<and> task_num s = n"
    using I(5) lfs_ghostD(3) lib unfolding el_lib_def lfs_inv_def by blast
  show "el_lib A fuel k n m U g B (el_set_batch t bt s)" for bt by (rule el_lib_batch [OF lib])
  show "el_lib A fuel k n m U g B s'" if "same_nodes X s s'" "X \<inter> set (concat B) = {}" "smr_next s' = smr_next s"
    "smr_kept s' = smr_kept s" by (rule el_lib_keep [OF lib that])
  show "\<exists>s' g'. ops_start (el_ops A fuel sz) t s = Some s' \<and> same_nodes {} s s' \<and> reclaimed s' = reclaimed s
      \<and> (\<lambda>t'. hy_batch (el_taskData s' t')) = (\<lambda>t'. hy_batch (el_taskData s t'))
      \<and> el_lib A fuel k n m (insert t U) g' B s' \<and> (\<forall>u \<in> U. \<forall>b \<in> set B. g u b \<longrightarrow> g' u b)"
    if "t < n" "t \<notin> D" "False \<or> t \<notin> U"
    using el_start [OF lib that(1)] that(3) by (fastforce simp: el_ops_def)
  show "\<exists>s' g' B' F. ops_end (el_ops A fuel sz) t s = Some s' \<and> el_lib A fuel k n m (if False then U else U - {t}) g' B' s'
      \<and> same_nodes (set (concat B)) s s' \<and> (\<lambda>t. hy_batch (el_taskData s' t)) = (\<lambda>t. hy_batch (el_taskData s t))
      \<and> hy_drop sz (U - {t}) g B s g' B' F s'"
    if "t \<in> U" "\<forall>x \<in> set (concat B). x \<noteq> 0 \<and> x \<noteq> sz" "length (concat B) < fuel"
  proof -
    have "\<forall>x \<in> set (concat B). x \<noteq> sz" using that(2) by blast
    from el_leave [OF lib that(1) this that(3)] obtain s' g' B' F where
      "el_end_op A fuel sz t (s, []) = Some (s', [])" "el_lib A fuel k n m (U - {t}) g' B' s'
      \<and> mset (concat B) = mset (concat B') + mset (concat F)
      \<and> reclaimed s' = reclaimed s @ map (\<lambda>x. x - sz) (concat F)
      \<and> same_nodes (set (concat B)) s s' \<and> el_taskData s' = el_taskData s
      \<and> (\<forall>u \<in> U - {t}. \<forall>b \<in> set B. g u b \<longrightarrow> b \<in> set B' \<and> g' u b)" by metis
    then show ?thesis
      by (intro exI [of _ s'] exI [of _ g'] exI [of _ B'] exI [of _ F]) (simp add: el_ops_def hy_drop_def)
  qed
  show "\<exists>s' g' B' F. ops_last (el_ops A fuel sz) t s = Some s' \<and> el_lib A fuel k n m (U - {t}) g' B' s'
      \<and> same_nodes (set (concat B)) s s' \<and> (\<lambda>t. hy_batch (el_taskData s' t)) = (\<lambda>t. hy_batch (el_taskData s t))
      \<and> hy_drop sz (U - {t}) g B s g' B' F s'" if "False \<longleftrightarrow> t \<in> U"
    by (intro exI [of _ s] exI [of _ g] exI [of _ B] exI [of _ "[]"])
      (use that lib in \<open>simp add: el_ops_def el_last_end_op_def hy_drop_def\<close>)
  show "\<exists>s'. lfs_retire_batch fuel A (el_free_node sz) 0 k (hd b) (s, []) = Some (True, (s', []))
      \<and> same_nodes (set b \<union> set (concat B)) s s' \<and> (\<lambda>t. hy_batch (el_taskData s' t)) = (\<lambda>t. hy_batch (el_taskData s t))
      \<and> (if U = {} then reclaimed s' = reclaimed s @ map (\<lambda>x. x - sz) b \<and> el_lib A fuel k n m U g B s'
         else reclaimed s' = reclaimed s
           \<and> (\<exists>g'. el_lib A fuel k n m U g' (b # B) s' \<and> (\<forall>u \<in> U. g' u b \<and> (\<forall>c \<in> set B. g u c \<longrightarrow> g' u c))))"
    if b: "batch_ok s b" "smr_refs s (last b) = 0" "distinct b" "set b \<inter> set (concat B) = {}"
      "\<forall>x \<in> set b. x \<noteq> 0 \<and> x \<noteq> sz" "length b = m" "length b < fuel"
  proof -
    obtain s' where r: "lfs_retire_batch fuel A (el_free_node sz) 0 k (hd b) (s, []) = Some (True, (s', []))"
      "same_nodes (set b \<union> set (concat B)) s s'" "el_taskData s' = el_taskData s"
      "if U = {} then reclaimed s' = reclaimed s @ map (\<lambda>x. x - sz) b \<and> el_lib A fuel k n m U g B s'
         else reclaimed s' = reclaimed s
           \<and> (\<exists>g'. el_lib A fuel k n m U g' (b # B) s' \<and> (\<forall>u \<in> U. g' u b \<and> (\<forall>c \<in> set B. g u c \<longrightarrow> g' u c)))"
      using el_retire_batch [OF lib b] by blast
    then show ?thesis by (intro exI [of _ s'] conjI) simp_all
  qed
  show "ops_retire (el_ops A fuel sz) p t s = map_option (\<lambda>(ok, bt, w). el_set_batch t bt (fst w))
        (smr_retire (lfs_retire_batch fuel A (el_free_node sz) 0) k (p + sz) 0 (hy_batch (el_taskData s t)) (of_nat m) (s, []))"
    if "p \<noteq> nullptr"
    using that I(3,4)
    by (simp add: el_ops_def el_retire_def lfs_retire_def option.map_comp) (auto intro!: option.map_cong)
next
  show "ops_alloc (el_ops A fuel sz) p t s = Some s" "ops_read (el_ops A fuel sz) a t s = Some s" for p a t s
    by (simp_all add: el_ops_def el_alloc_def base_read_def load_alone)
  show "el_lib A fuel k n m {} g B s \<Longrightarrow> B = []" for g B s by (rule el_lib_idle)
  show "same_nodes {} s (el_set_batch t bt s) \<and> reclaimed (el_set_batch t bt s) = reclaimed s
      \<and> (\<lambda>t'. hy_batch (el_taskData (el_set_batch t bt s) t')) = (\<lambda>t'. hy_batch (el_taskData s t'))(t := bt)"
    for s t bt by (auto simp: same_nodes_def el_set_batch_fields)
  show "smr_kept s' = smr_kept s \<Longrightarrow> (\<lambda>t. hy_batch (el_taskData s' t)) = (\<lambda>t. hy_batch (el_taskData s t))"
    for s' s :: hyel
    using el_more [OF el_kept [THEN conjunct1], of s' s] by simp
qed

lemma lfs_init_from_run:
  assumes "lf_words A"
  shows "lfs_init_from A js (s, []) = (s\<lparr>lfs_head := (\<lambda>i. if i \<in> set js then 0 else lfs_head s i)\<rparr>, [])"
  by (induction js arbitrary: s)
    (auto simp: lf_words.init [OF assms] lfs_put_head_def fun_eq_iff intro!: lfsmr.fold_congs)

definition el_slots :: "nat \<Rightarrow> int \<Rightarrow> nat" where
  "el_slots n slots = calc_next_log2 (of_int (if slots < int n then slots else int n))"

definition el_batch :: "nat \<Rightarrow> int \<Rightarrow> nat" where
  "el_batch n slots = (if n < 2 ^ el_slots n slots then 2 ^ el_slots n slots else 2 ^ el_slots n slots + 1)"

lemma el_slots_bounds:
  assumes "0 < n" "n < 2 ^ 31" "0 < slots"
  shows "el_slots n slots \<le> 31" "n < 2 ^ (64 - el_slots n slots)"
    "1 < el_batch n slots" "el_batch n slots < 2 ^ 64" "min n (2 ^ el_slots n slots) < el_batch n slots"
proof -
  let ?k = "el_slots n slots"
  define x where "x = nat (if slots < int n then slots else int n)"
  have x: "int x = (if slots < int n then slots else int n)" "0 < x" "x \<le> n" using assms by (auto simp: x_def)
  have u: "unat (of_nat x :: u64) = x" using x(3) assms(2) by (simp add: unsigned_of_nat take_bit_nat_eq_self)
  have "(of_nat x :: u64) \<noteq> 0" using x(2) u by (metis less_numeral_extra(3) unat_0)
  from calc_next_log2_bounds(2) [OF this] have "2 ^ ?k < 2 * x"
    unfolding u el_slots_def x(1) [symmetric] of_int_of_nat_eq .
  then have k: "(2 :: nat) ^ ?k < 2 ^ 32" using x(3) assms(2) by simp
  then have "?k < 32" by (rule power_less_imp_less_exp [rotated]) simp
  then show le: "?k \<le> 31" by simp
  have "(2 :: nat) ^ 31 \<le> 2 ^ (64 - ?k)" by (rule power_increasing) (use le in simp_all)
  with assms(2) show "n < 2 ^ (64 - ?k)" by linarith
  show "1 < el_batch n slots" "el_batch n slots < 2 ^ 64" "min n (2 ^ ?k) < el_batch n slots"
    using assms(1) k by (simp_all add: el_batch_def)
qed

lemma el_new_lib:
  assumes A: "lf_words A" and n: "0 < n" "n < 2 ^ 31" "0 < slots" and fuel: "0 < fuel"
  shows "el_t.hy.inv n sz A fuel (el_slots n slots) (el_batch n slots) hy_idle (\<lambda>_ _. False) [] (\<lambda>_. []) 0
      (el_new A n slots collect cnt mem nx lk rf hd0 td)"
proof -
  let ?s = "el_new A n slots collect cnt mem nx lk rf hd0 td" let ?k = "el_slots n slots" let ?m = "el_batch n slots"
  note B = el_slots_bounds [OF n]
  have fld: "el_SMR_ORDER ?s = ?k" "task_num ?s = n" "reclaimed ?s = []" "el_SMR_BATCH ?s = of_nat ?m"
    "lfs_head ?s = (\<lambda>i. if i < 2 ^ ?k then 0 else hd0 i)"
    "el_taskData ?s = (\<lambda>i. if i < n
        then (td i)\<lparr>hy_enter_num := i AND (2 ^ ?k - 1), hy_batch := smr_batch_init (hy_batch (td i))\<rparr> else td i)"
    by (simp_all add: el_new_def lfs_init_def lfs_init_from_run [OF A] base_new_def base.defs Let_def atLeast0LessThan
        el_slots_def el_batch_def cong: if_cong)
  have num: "i AND (2 ^ ?k - 1) = i mod 2 ^ ?k" for i :: nat
    by (metis mask_eq_exp_minus_1 take_bit_eq_mask take_bit_eq_mod)
  have "lfs_ghost ?k n (\<lambda>t. t mod 2 ^ ?k) {} (\<lambda>_. []) [] (\<lambda>_. 0) ?s"
    unfolding lfs_ghost_def using B by (simp add: fld lfs_mk_0)
  then have "lfs_inv ?k n (\<lambda>t. t mod 2 ^ ?k) {} (\<lambda>_. []) [] (\<lambda>_. 0) ?s"
    by (simp add: lfs_inv_def smr_ginv_def)
  then have "el_lib A fuel ?k n ?m {} (\<lambda>_ _. False) [] ?s"
    unfolding el_lib_def using A B fuel num
    by (intro conjI exI [of _ "\<lambda>_. []"] exI [of _ "\<lambda>_. 0"]) (simp_all add: fld)
  then show ?thesis
    by (rule el_t.hy.init [OF _ fld(3)]) (use B in \<open>simp add: fld el_t.Open_def open_ok_def smr_batch_init_def\<close>)
qed

section \<open>Safety and progress\<close>

abbreviation el_run :: "el_atomics \<Rightarrow> nat \<Rightarrow> u64 \<Rightarrow> hy_event list \<Rightarrow> hyel \<Rightarrow> hyel option" where
  "el_run A fuel sz \<equiv> hy_run (el_ops A fuel sz)"

abbreviation el_lawful :: "el_atomics \<Rightarrow> nat \<Rightarrow> u64 \<Rightarrow> hy_event list \<Rightarrow> hyel \<Rightarrow> bool" where
  "el_lawful A fuel sz \<equiv> hy_lawful False (el_ops A fuel sz) sz (\<lambda>x. x \<noteq> 0) hy_idle"

text \<open>GCC on x86-64, which does not define \<open>__LITTLE_ENDIAN__\<close>, and three threads that share two
  slots.\<close>

abbreviation el_x86 :: el_atomics where
  "el_x86 \<equiv> gcc_atomics False 128 (\<lambda>w. True)"

abbreviation el_three :: hyel where
  "el_three \<equiv> el_new el_x86 3 2 True False (\<lambda>_. 0) (\<lambda>_. 0) (\<lambda>_. 0) (\<lambda>_. 0) (\<lambda>_. 0) hy_td0"

text \<open>C13: No use after free where threads share slots.  For every implementation of the atomic
  operations that keeps the contract and any number of slots: if thread \<open>u\<close> is inside an operation
  when an object is retired, the object is not reclaimed until \<open>u\<close> has ended that operation; and
  every operation of the history returns.\<close>

theorem el_protects:
  assumes "lf_words A" "0 < n" "n < 2 ^ 31" "0 < slots"
    and "el_lawful A fuel sz (es @ HyRetire p v # es') (el_new A n slots collect cnt mem nx lk rf hd0 td)"
    and "length es + length es' + 1 < fuel"
    and "u \<in> hu_inside (hy_after False es)" "HyEnd u \<notin> set es'"
  shows "\<exists>s s' ps. el_run A fuel sz es (el_new A n slots collect cnt mem nx lk rf hd0 td) = Some s
     \<and> el_run A fuel sz (HyRetire p v # es') s = Some s'
     \<and> reclaimed s' = reclaimed s @ ps \<and> p \<notin> set ps"
proof -
  have "0 < fuel" using assms(6) by simp
  from el_t.hy.protects_seen [where limit = "length es + length es' + 2", OF el_new_lib [OF assms(1-4) this] assms(5) _ _ assms(7,8)]
  show ?thesis using assms(6) by (simp add: hy_idle_def)
qed

theorem el_protects_witness:
  "\<exists>s s' ps. el_run el_x86 16 8 [HyAlloc 16 1, HyAlloc 32 1, HyAlloc 48 1, HyStart 0, HyStart 2] el_three = Some s
     \<and> el_run el_x86 16 8 (HyRetire 16 1 # [HyRetire 32 1, HyRetire 48 1, HyEnd 2]) s = Some s'
     \<and> reclaimed s' = reclaimed s @ ps \<and> (16 :: ptr) \<notin> set ps"
proof (rule el_protects [where u = 0])
  show "lf_words el_x86" by (rule gcc.lf_words_axioms)
  show "el_lawful el_x86 16 8 ([HyAlloc 16 1, HyAlloc 32 1, HyAlloc 48 1, HyStart 0, HyStart 2]
      @ HyRetire 16 1 # [HyRetire 32 1, HyRetire 48 1, HyEnd 2]) el_three"
    by code_simp
qed (simp_all add: hy_idle_def)

text \<open>No double free and no leak where threads share slots.  An object is reclaimed at most as
  often as it has been retired; and when no thread is inside an operation, at most one batch less
  one object per thread still waits.\<close>

theorem el_reclaims:
  assumes "lf_words A" "0 < n" "n < 2 ^ 31" "0 < slots"
    and "el_lawful A fuel sz es (el_new A n slots collect cnt mem nx lk rf hd0 td)"
    and "length es < fuel"
  shows "\<exists>s. el_run A fuel sz es (el_new A n slots collect cnt mem nx lk rf hd0 td) = Some s
     \<and> mset (reclaimed s) \<subseteq># mset (hu_retired (hy_after False es))
     \<and> (hu_entered (hy_after False es) = {} \<longrightarrow> length (hu_retired (hy_after False es)) - length (reclaimed s)
          \<le> n * (el_batch n slots - 1))"
proof -
  have "0 < fuel" using assms(6) by simp
  from el_t.hy.reclaims [where limit = "length es + 1", OF el_new_lib [OF assms(1-4) this] assms(5,6)]
  show ?thesis by simp
qed

theorem el_reclaims_witness:
  "\<exists>s. el_run el_x86 16 8 [HyAlloc 16 1, HyStart 0, HyStart 2, HyRetire 16 1, HyEnd 0, HyEnd 2] el_three = Some s
     \<and> mset (reclaimed s) \<subseteq># mset (hu_retired (hy_after False [HyAlloc 16 1, HyStart 0, HyStart 2, HyRetire 16 1, HyEnd 0, HyEnd 2]))
     \<and> (hu_entered (hy_after False [HyAlloc 16 1, HyStart 0, HyStart 2, HyRetire 16 1, HyEnd 0, HyEnd 2]) = {} \<longrightarrow>
          length (hu_retired (hy_after False [HyAlloc 16 1, HyStart 0, HyStart 2, HyRetire 16 1, HyEnd 0, HyEnd 2]))
            - length (reclaimed s) \<le> 3 * (el_batch 3 2 - 1))"
proof (rule el_reclaims)
  show "lf_words el_x86" by (rule gcc.lf_words_axioms)
  show "el_lawful el_x86 16 8 [HyAlloc 16 1, HyStart 0, HyStart 2, HyRetire 16 1, HyEnd 0, HyEnd 2] el_three"
    by code_simp
qed simp_all

end
