(* ===== verification/Hyaline_S.thy ===== *)
theory Hyaline_S
  imports Lfbsmr Hyaline_OS Hyaline_EL
begin

text \<open>
  The trackers built on \<open>lfbsmr.h\<close>, slots shared by threads, with birth epochs:
  \<open>HyalineSTrackerEL.hpp\<close> (an operation enters and leaves) and \<open>HyalineSTrackerTR.hpp\<close> (a thread enters
  once and trims at the end of each operation).  \<open>enter\<close> may give a thread another slot than the one it
  asked for; \<open>enter_num\<close> is the slot it got last.  \<open>A\<close> is the implementation of the \<open>__lfref_*\<close>
  operations, \<open>lost\<close> says when a weak compare-and-swap on an epoch fails without reason.  Their
  \<open>free_node\<close> is that of \<open>HyalineTrackerEL.hpp\<close>, \<open>el_free_node\<close>.
\<close>

section \<open>\<open>HyalineSELTracker\<close>\<close>

record hysel = lfbsmr +
  sel_collect :: bool
  sel_SMR_EFREQ :: u64
  sel_SMR_ORDER :: nat
  sel_SMR_BATCH :: u64
  sel_taskData :: "nat \<Rightarrow> hos_task"

type_synonym sel_atomics = "(hysel, u128, u64) lf_atomics"

definition sel_new :: "sel_atomics \<Rightarrow> nat \<Rightarrow> int \<Rightarrow> int \<Rightarrow> bool \<Rightarrow> bool \<Rightarrow> (ptr \<Rightarrow> ptr) \<Rightarrow> (ptr \<Rightarrow> u64) \<Rightarrow> (ptr \<Rightarrow> u64)
    \<Rightarrow> (ptr \<Rightarrow> u64) \<Rightarrow> u64 \<Rightarrow> (nat \<Rightarrow> u64) \<Rightarrow> (nat \<Rightarrow> u128) \<Rightarrow> (nat \<Rightarrow> u64) \<Rightarrow> (nat \<Rightarrow> hos_task) \<Rightarrow> hysel" where
  "sel_new A n epochFreq slots collect cnt mem nx lk rf gl0 ac0 hd0 ct0 td =
     (let SMR_EFREQ = epochFreq * int n;
          SMR_ORDER = calc_next_log2 (of_int (if slots < int n then slots else int n));
          SMR_NUM = 2 ^ SMR_ORDER;
          SMR_BATCH = (if n < SMR_NUM then SMR_NUM else SMR_NUM + 1)
      in solo (lbs_init A SMR_ORDER)
           (base.extend (base_new n cnt mem)
              \<lparr>smr_next = nx, smr_link = lk, smr_refs = rf, bs_global = gl0, bs_access = ac0, lbs_head = hd0,
               lbs_counter = ct0, sel_collect = collect, sel_SMR_EFREQ = of_int SMR_EFREQ,
               sel_SMR_ORDER = SMR_ORDER, sel_SMR_BATCH = of_nat SMR_BATCH,
               sel_taskData = (\<lambda>i. if i < n
                  then (td i)\<lparr>hos_counter := 0, hos_enter_num := i AND (SMR_NUM - 1),
                              hos_batch := bsmr_batch_init (hos_batch (td i))\<rparr>
                  else td i)\<rparr>))"

definition sel_set_task :: "nat \<Rightarrow> (hos_task \<Rightarrow> hos_task) \<Rightarrow> hysel \<Rightarrow> hysel" where
  "sel_set_task tid f s = s\<lparr>sel_taskData := (sel_taskData s)(tid := f (sel_taskData s tid))\<rparr>"

definition sel_alloc :: "u64 \<Rightarrow> nat \<Rightarrow> ptr \<Rightarrow> hysel world \<Rightarrow> ptr \<times> hysel world" where
  "sel_alloc sz tid blk w =
     (let node = blk;
          (counter, w) = bsmr_init_node (node + sz) (hos_counter (sel_taskData (fst w) tid)) (sel_SMR_EFREQ (fst w)) w
      in (node, own (sel_set_task tid (hos_counter_update (\<lambda>_. counter))) w))"

definition sel_read :: "nat \<Rightarrow> (hysel world \<Rightarrow> bool) \<Rightarrow> ptr \<Rightarrow> nat \<Rightarrow> hysel world \<Rightarrow> (ptr \<times> hysel world) option" where
  "sel_read fuel lost obj tid w = lbs_deref fuel lost (hos_enter_num (sel_taskData (fst w) tid)) (\<lambda>s. cells s obj) w"

definition sel_start_op :: "sel_atomics \<Rightarrow> nat \<Rightarrow> nat \<Rightarrow> hysel world \<Rightarrow> hysel world option" where
  "sel_start_op A fuel tid w =
     map_option (\<lambda>(ok, vec, handle, w). own (sel_set_task tid (\<lambda>d. d\<lparr>hos_enter_num := vec, hos_handle := handle\<rparr>)) w)
       (lbs_enter A fuel (sel_SMR_ORDER (fst w)) (hos_enter_num (sel_taskData (fst w) tid)) w)"

definition sel_end_op :: "sel_atomics \<Rightarrow> nat \<Rightarrow> u64 \<Rightarrow> nat \<Rightarrow> hysel world \<Rightarrow> hysel world option" where
  "sel_end_op A fuel sz tid w =
     map_option snd (lbs_leave fuel A (hos_enter_num (sel_taskData (fst w) tid)) (sel_SMR_ORDER (fst w))
       (hos_handle (sel_taskData (fst w) tid)) (el_free_node sz) 0 LF_DONTCHECK w)"

definition sel_retire :: "sel_atomics \<Rightarrow> nat \<Rightarrow> u64 \<Rightarrow> ptr \<Rightarrow> nat \<Rightarrow> hysel world \<Rightarrow> hysel world option" where
  "sel_retire A fuel sz obj tid w =
     (if obj = nullptr then Some w
      else map_option (\<lambda>(ok, batch, w). own (sel_set_task tid (hos_batch_update (\<lambda>_. batch))) w)
             (lbs_retire fuel A (sel_SMR_ORDER (fst w)) (obj + sz) (el_free_node sz) 0
                (hos_batch (sel_taskData (fst w) tid)) (sel_SMR_BATCH (fst w)) w))"

text \<open>The body of \<open>last_end_op\<close> is compiled out.\<close>

definition sel_last_end_op :: "nat \<Rightarrow> hysel \<Rightarrow> hysel" where
  "sel_last_end_op tid s = s"

section \<open>\<open>HyalineSTRTracker\<close>\<close>

record hystr = lfbsmr +
  str_collect :: bool
  str_SMR_ORDER :: nat
  str_SMR_BATCH :: u64
  str_taskData :: "nat \<Rightarrow> hos_task_tr"

type_synonym str_atomics = "(hystr, u128, u64) lf_atomics"

abbreviation SMR_FREQ :: u64 where "SMR_FREQ \<equiv> 500"

definition str_new :: "str_atomics \<Rightarrow> nat \<Rightarrow> int \<Rightarrow> bool \<Rightarrow> bool \<Rightarrow> (ptr \<Rightarrow> ptr) \<Rightarrow> (ptr \<Rightarrow> u64) \<Rightarrow> (ptr \<Rightarrow> u64)
    \<Rightarrow> (ptr \<Rightarrow> u64) \<Rightarrow> u64 \<Rightarrow> (nat \<Rightarrow> u64) \<Rightarrow> (nat \<Rightarrow> u128) \<Rightarrow> (nat \<Rightarrow> u64) \<Rightarrow> (nat \<Rightarrow> hos_task_tr) \<Rightarrow> hystr" where
  "str_new A n slots collect cnt mem nx lk rf gl0 ac0 hd0 ct0 td =
     (let SMR_ORDER = calc_next_log2 (of_int (if slots < int n then slots else int n));
          SMR_NUM = 2 ^ SMR_ORDER;
          SMR_BATCH = (if n < 64 then 64 else SMR_NUM + 1)
      in solo (lbs_init A SMR_ORDER)
           (base.extend (base_new n cnt mem)
              \<lparr>smr_next = nx, smr_link = lk, smr_refs = rf, bs_global = gl0, bs_access = ac0, lbs_head = hd0,
               lbs_counter = ct0, str_collect = collect, str_SMR_ORDER = SMR_ORDER, str_SMR_BATCH = of_nat SMR_BATCH,
               str_taskData = (\<lambda>i. if i < n
                  then (td i)\<lparr>hos_counter := 0, hos_firstTime := True, hos_enter_num := i AND (SMR_NUM - 1),
                              hos_batch := bsmr_batch_init (hos_batch (td i))\<rparr>
                  else td i)\<rparr>))"

definition str_set_task :: "nat \<Rightarrow> (hos_task_tr \<Rightarrow> hos_task_tr) \<Rightarrow> hystr \<Rightarrow> hystr" where
  "str_set_task tid f s = s\<lparr>str_taskData := (str_taskData s)(tid := f (str_taskData s tid))\<rparr>"

definition str_alloc :: "u64 \<Rightarrow> nat \<Rightarrow> ptr \<Rightarrow> hystr world \<Rightarrow> ptr \<times> hystr world" where
  "str_alloc sz tid blk w =
     (let node = blk;
          (counter, w) = bsmr_init_node (node + sz) (hos_counter (str_taskData (fst w) tid)) SMR_FREQ w
      in (node, own (str_set_task tid (hos_counter_update (\<lambda>_. counter))) w))"

definition str_read :: "nat \<Rightarrow> (hystr world \<Rightarrow> bool) \<Rightarrow> ptr \<Rightarrow> nat \<Rightarrow> hystr world \<Rightarrow> (ptr \<times> hystr world) option" where
  "str_read fuel lost obj tid w = lbs_deref fuel lost (hos_enter_num (str_taskData (fst w) tid)) (\<lambda>s. cells s obj) w"

definition str_start_op :: "str_atomics \<Rightarrow> nat \<Rightarrow> nat \<Rightarrow> hystr world \<Rightarrow> hystr world option" where
  "str_start_op A fuel tid w =
     (if hos_firstTime (str_taskData (fst w) tid)
      then let w = own (str_set_task tid (hos_firstTime_update (\<lambda>_. False))) w
           in map_option (\<lambda>(ok, vec, handle, w). own (str_set_task tid (\<lambda>d. d\<lparr>hos_enter_num := vec, hos_handle := handle\<rparr>)) w)
                (lbs_enter A fuel (str_SMR_ORDER (fst w)) (hos_enter_num (str_taskData (fst w) tid)) w)
      else Some w)"

definition str_end_op :: "str_atomics \<Rightarrow> nat \<Rightarrow> u64 \<Rightarrow> nat \<Rightarrow> hystr world \<Rightarrow> hystr world option" where
  "str_end_op A fuel sz tid w =
     map_option (\<lambda>(ok, vec, handle, w). own (str_set_task tid (\<lambda>d. d\<lparr>hos_enter_num := vec, hos_handle := handle\<rparr>)) w)
       (lbs_trim fuel A (hos_enter_num (str_taskData (fst w) tid)) (str_SMR_ORDER (fst w))
          (hos_handle (str_taskData (fst w) tid)) (el_free_node sz) 0 LF_DONTCHECK FLUSH_THRESHOLD w)"

definition str_last_end_op :: "str_atomics \<Rightarrow> nat \<Rightarrow> u64 \<Rightarrow> nat \<Rightarrow> hystr world \<Rightarrow> hystr world option" where
  "str_last_end_op A fuel sz tid w =
     map_option snd (lbs_leave fuel A (hos_enter_num (str_taskData (fst w) tid)) (str_SMR_ORDER (fst w))
       (hos_handle (str_taskData (fst w) tid)) (el_free_node sz) 0 LF_DONTCHECK w)"

definition str_retire :: "str_atomics \<Rightarrow> nat \<Rightarrow> u64 \<Rightarrow> ptr \<Rightarrow> nat \<Rightarrow> hystr world \<Rightarrow> hystr world option" where
  "str_retire A fuel sz obj tid w =
     (if obj = nullptr then Some w
      else map_option (\<lambda>(ok, batch, w). own (str_set_task tid (hos_batch_update (\<lambda>_. batch))) w)
             (lbs_retire fuel A (str_SMR_ORDER (fst w)) (obj + sz) (el_free_node sz) 0
                (hos_batch (str_taskData (fst w) tid)) (str_SMR_BATCH (fst w)) w))"

end
