(* ===== verification/Lfbsmr_Inv.thy ===== *)
theory Lfbsmr_Inv
  imports Lfbsmr Lfsmr_Inv Gcc_X86
begin

text \<open>
  Correctness of the robust double-width variant, one operation at a time, from that of the variant
  without epochs.  \<open>lbs_view\<close> maps a state of the robust library to one of \<open>lfsmr_cas2.h\<close>: it keeps the
  nodes and the heads, and forgets the counters of the slots, which no operation on the lists reads.
  The parts of \<open>leave\<close> and \<open>retire\<close>, run alone, commute with \<open>lbs_view\<close>; \<open>__retire\<close> with the epoch of a batch is
  \<open>lfs_hand\<close> for the slots whose access epoch has reached it.
\<close>

section \<open>States that look the same to the lists\<close>

text \<open>Alone stays alone.\<close>

lemma adjust_refs_alone: "snd (snd (smr_adjust_refs list p r b (s, []))) = []"
  by (simp add: smr_adjust_refs_def smr_fetch_add_alone own_alone Let_def)

lemma alone_cases: "snd (snd z) = [] \<Longrightarrow> \<exists>a s. z = (a, (s, []))"
  by (cases z) auto

lemma traverse_alone:
  assumes "\<forall>x. check x"
  shows "smr_traverse fuel (\<lambda>_ _. None) base check len list 0 nx end (s, []) = Some (ok, l, t, w) \<Longrightarrow> ok \<and> snd w = []"
proof -
  have c: "check = (\<lambda>_. True)" using assms by (simp add: fun_eq_iff)
  show "smr_traverse fuel (\<lambda>_ _. None) base check len list 0 nx end (s, []) = Some (ok, l, t, w) \<Longrightarrow> ?thesis"
    unfolding c
  proof (induction fuel arbitrary: len list nx s)
    case (Suc fuel)
    from Suc.prems show ?case
      by (auto simp: smr_fetch_add_alone own_alone Let_def dest: Suc.IH split: if_splits)
  qed simp
qed

lemma free_batch_alone: "smr_free_batch fuel p fr b (s, []) = Some w \<Longrightarrow> snd w = []"
proof (induction fuel arbitrary: p s)
  case (Suc fuel)
  then show ?case by (auto simp: own_alone Let_def split: if_splits)
qed simp

lemma free_list_alone: "smr_free_list fuel p fr b (s, []) = Some w \<Longrightarrow> snd w = []"
proof (induction fuel arbitrary: p s)
  case (Suc fuel)
  then show ?case using free_batch_alone by (fastforce simp: Let_def split: if_splits option.splits)
qed simp

locale smr_view =
  fixes f :: "'a smr_scheme \<Rightarrow> 'b smr_scheme"
  assumes view_words: "smr_next (f s) = smr_next s" "smr_link (f s) = smr_link s" "smr_refs (f s) = smr_refs s"
    and view_set: "smr_set_next x v (f s) = f (smr_set_next x v s)" "smr_set_refs x v (f s) = f (smr_set_refs x v s)"

context smr_view begin

definition lift :: "'a smr_scheme world \<Rightarrow> 'b smr_scheme world" where
  "lift w = (f (fst w), [])"

lemma lift_alone [simp]: "lift (s, e) = (f s, [])"
  by (simp add: lift_def)

lemma view_adjust: "smr_adjust_refs list p r b (f s, []) = apsnd lift (smr_adjust_refs list p r b (s, []))"
  by (simp add: smr_adjust_refs_def smr_fetch_add_alone own_alone view_words view_set Let_def)

lemma view_traverse:
  "smr_traverse fuel (\<lambda>_ _. None) base check len list threshold nx end (f s, []) =
     map_option (\<lambda>(ok, list, t, w). (ok, list, t, lift w)) (smr_traverse fuel (\<lambda>_ _. None) base check len list threshold nx end (s, []))"
proof (induction fuel arbitrary: len list threshold nx s)
  case (Suc fuel)
  show ?case by (simp add: smr_fetch_add_alone own_alone view_words view_set Suc Let_def)
qed simp

lemma view_free_batch:
  assumes "\<And>n s. fr' n (f s) = f (fr n s)"
  shows "smr_free_batch fuel p fr' b (f s, []) = map_option lift (smr_free_batch fuel p fr b (s, []))"
proof (induction fuel arbitrary: p s)
  case (Suc fuel)
  show ?case by (simp add: own_alone view_words assms Suc Let_def)
qed simp

lemma view_free_list:
  assumes fr: "\<And>n s. fr' n (f s) = f (fr n s)"
  shows "smr_free_list fuel p fr' b (f s, []) = map_option lift (smr_free_list fuel p fr b (s, []))"
proof (induction fuel arbitrary: p s)
  case (Suc fuel)
  show ?case
  proof (cases "smr_free_batch fuel (smr_link s (smr_addr b p)) fr b (s, [])")
    case None
    then show ?thesis by (simp add: view_words view_free_batch [where fr' = fr', OF fr])
  next
    case (Some w)
    then obtain s1 where "w = (s1, [])" using free_batch_alone by (cases w) fastforce
    with Some Suc show ?thesis by (simp add: view_words view_free_batch [where fr' = fr', OF fr])
  qed
qed simp

end

section \<open>The view\<close>

type_synonym 'a lbs_rest = "u64 \<times> (nat \<Rightarrow> u64) \<times> 'a"

definition lbs_view :: "'a lfbsmr_scheme \<Rightarrow> 'a lbs_rest lfsmr_scheme" where
  "lbs_view s = smr.extend (smr.truncate s) \<lparr>lfs_head = lbs_head s, \<dots> = (bs_global s, bs_access s, lfbsmr.more s)\<rparr>"

definition lbs_unview :: "'a lbs_rest lfsmr_scheme \<Rightarrow> 'a lfbsmr_scheme" where
  "lbs_unview v = smr.extend (smr.truncate v) \<lparr>bs_global = fst (lfsmr.more v), bs_access = fst (snd (lfsmr.more v)),
     lbs_head = lfs_head v, lbs_counter = (\<lambda>_. 0), \<dots> = snd (snd (lfsmr.more v))\<rparr>"

lemmas lbs_view_defs = lbs_view_def lbs_unview_def smr.defs

lemma lbs_view_fields [simp]:
  "smr_next (lbs_view s) = smr_next s" "smr_link (lbs_view s) = smr_link s" "smr_refs (lbs_view s) = smr_refs s"
  "lfs_head (lbs_view s) = lbs_head s" "reclaimed (lbs_view s) = reclaimed s" "task_num (lbs_view s) = task_num s"
  "count_retired (lbs_view s) = count_retired s" "cells (lbs_view s) = cells s"
  "lfsmr.more (lbs_view s) = (bs_global s, bs_access s, lfbsmr.more s)"
  by (simp_all add: lbs_view_defs)

lemma lbs_unview_view [simp]: "lbs_view (lbs_unview v) = v"
  by (cases v) (simp add: lbs_view_defs)

lemma lbs_view_update:
  "lbs_view (lbs_put_head i h s) = lfs_put_head i h (lbs_view s)" "lbs_view (lbs_put_counter i c s) = lbs_view s"
  "lbs_view (smr_set_next x v s) = smr_set_next x v (lbs_view s)" "lbs_view (smr_set_refs x v s) = smr_set_refs x v (lbs_view s)"
  by (simp_all add: lbs_view_defs lbs_put_head_def lfs_put_head_def lbs_put_counter_def smr_set_next_def smr_set_refs_def)

lemma lbs_view_eq: "lbs_view s = lbs_view s' \<longleftrightarrow> (\<exists>c. s' = s\<lparr>lbs_counter := c\<rparr>)"
  by (cases s, cases s') (auto simp: lbs_view_defs)

lemma lbs_view_same: "same_nodes X (lbs_view s) (lbs_view s') = same_nodes X s s'"
  by (simp add: same_nodes_def)

lemma lbs_words: "lbs_ptr = lfs_ptr" "lbs_refs = lfs_refs" "lbs_addend = lfs_addend"
  by (simp_all add: fun_eq_iff lbs_ptr_def lfs_ptr_def lbs_refs_def lfs_refs_def lbs_addend_def lfs_addend_def)

interpretation lbs: smr_view "lbs_view :: 'a lfbsmr_scheme \<Rightarrow> 'a lbs_rest lfsmr_scheme"
  by unfold_locales (simp_all add: lbs_view_update)

text \<open>Any implementation of the atomic operations does for the view.\<close>

abbreviation lbs_ref :: "'a lbs_rest lfs_atomics" where
  "lbs_ref \<equiv> gcc_atomics True 0 (\<lambda>_. False)"

definition lbs_fr :: "(ptr \<Rightarrow> 'a lfbsmr_scheme \<Rightarrow> 'a lfbsmr_scheme) \<Rightarrow> ptr \<Rightarrow> 'a lbs_rest lfsmr_scheme \<Rightarrow> 'a lbs_rest lfsmr_scheme" where
  "lbs_fr fr n v = lbs_view (fr n (lbs_unview v))"

text \<open>The callback does not look at the counters.\<close>

locale lbs_lib = lf_words A + smr_callback fr obj V smr_kept
  for A :: "'a lbs_atomics" and fr :: "ptr \<Rightarrow> 'a lfbsmr_scheme \<Rightarrow> 'a lfbsmr_scheme" and obj :: "ptr \<Rightarrow> ptr" and V :: "ptr \<Rightarrow> bool" +
  assumes fr_view: "lbs_view (fr n (s\<lparr>lbs_counter := c\<rparr>)) = lbs_view (fr n s)"

sublocale lbs_lib \<subseteq> view: lfs_lib lbs_ref "lbs_fr fr" obj V
proof (intro lfs_lib.intro gcc.lf_words_axioms smr_callback.intro)
  fix n x and v :: "'a lbs_rest lfsmr_scheme"
  have v: "smr_next v = smr_next (lbs_unview v)" "smr_link v = smr_link (lbs_unview v)" "smr_refs v = smr_refs (lbs_unview v)"
    "reclaimed v = reclaimed (lbs_unview v)"
    using lbs_view_fields [of "lbs_unview v"] by simp_all
  show "V n \<Longrightarrow> reclaimed (lbs_fr fr n v) = reclaimed v @ [obj n]"
    "x \<noteq> n \<Longrightarrow> smr_next (lbs_fr fr n v) x = smr_next v x" "x \<noteq> n \<Longrightarrow> smr_link (lbs_fr fr n v) x = smr_link v x"
    "x \<noteq> n \<Longrightarrow> smr_refs (lbs_fr fr n v) x = smr_refs v x"
    by (simp_all add: lbs_fr_def fr_reclaimed fr_next fr_link fr_refs v)
  have "smr_kept (fr n (lbs_unview v)) = smr_kept (lbs_unview v)" by (rule fr_keeps)
  then have "smr_kept (lbs_view (fr n (lbs_unview v))) = smr_kept (lbs_view (lbs_unview v))"
    by (cases "fr n (lbs_unview v)", cases "lbs_unview v") (simp add: lbs_view_defs)
  then show "smr_kept (lbs_fr fr n v) = smr_kept v" by (simp add: lbs_fr_def)
qed

section \<open>The operations, alone\<close>

abbreviation lbs_left :: "nat \<Rightarrow> 'a lfbsmr_scheme \<Rightarrow> 'a lfbsmr_scheme" where
  "lbs_left i s \<equiv> lbs_put_head i
     (if lfs_refs (lbs_head s i) = 1 then 0 else lfs_mk (lfs_refs (lbs_head s i) - 1) (lfs_ptr (lbs_head s i))) s"

abbreviation lbs_pushed :: "nat \<Rightarrow> ptr \<Rightarrow> 'a lfbsmr_scheme \<Rightarrow> 'a lfbsmr_scheme" where
  "lbs_pushed j y s \<equiv> lbs_put_head j (lfs_mk (lfs_refs (lbs_head s j)) y) (smr_set_next y (lfs_ptr (lbs_head s j)) s)"

context lbs_lib begin

lemma lbs_leave_list_eq:
  assumes "\<forall>x. check x" "0 < fuel"
  shows "lbs_leave_list fuel A i order 0 check hdl list (s, []) =
     (let (list, w) = (if lfs_refs (lbs_head s i) = 1 \<and> lfs_ptr (lbs_head s i) \<noteq> 0
                       then smr_adjust_refs list (lfs_ptr (lbs_head s i)) (lfs_addend order) 0 (lbs_left i s, [])
                       else (list, (lbs_left i s, [])))
      in if lfs_ptr (lbs_head s i) \<noteq> hdl
         then map_option (\<lambda>(ok, list, threshold, w). (ok, list, w))
                (bsmr_traverse fuel (\<lambda>_ _. None) (lbs_ack i) 0 check 0 0 list 0 (smr_next s (lfs_ptr (lbs_head s i))) hdl w)
         else Some (True, list, w))"
proof -
  obtain f where f: "fuel = Suc f" using assms(2) by (cases fuel) auto
  obtain r p where h: "lbs_head s i = lfs_mk r p" by (rule lfs_mk_cases)
  define q where "q = r - 1"
  have r: "r = q + 1" "r = 1 \<longleftrightarrow> q = 0" by (simp_all add: q_def)
  note ops = lfs_count_out [where q = q, folded r(1)]
  let ?hd = "if ref_full A \<and> q = 0 then 0 else lfs_mk q p"
  let ?next = "if p \<noteq> hdl then smr_next s p else 0"
  have loop: "lbs_leave_loop fuel A i 0 check hdl 0 (lfs_mk r p) (s, [])
      = Some (True, p, ?next, ?hd, lfs_mk r p, (lbs_put_head i ?hd s, []))"
    using assms(1) h unfolding f
    by (cases "ref_full A \<and> q = 0"; cases "p = hdl")
      (auto simp: Let_def bsmr_addr_def ref_weak_alone ops lfs_mk_0 lbs_words simp del: and_mask and_not_mask)
  have left: "lbs_left i s = lbs_put_head i (if q = 0 then 0 else lfs_mk q p) s"
    unfolding h by (simp add: r q_def [symmetric])
  have put: "lbs_put_head i x (lbs_put_head i y s) = lbs_put_head i x s" "lbs_head (lbs_put_head i x s) i = x" for x y
    by (simp_all add: lbs_put_head_def)
  have det: "lbs_detach fuel A i order 0 ?hd p list (lbs_put_head i ?hd s, []) =
      Some (if r = 1 \<and> p \<noteq> 0 then smr_adjust_refs list p (lfs_addend order) 0 (lbs_left i s, [])
            else (list, (lbs_left i s, [])))"
  proof (cases "ref_full A")
    case True
    then show ?thesis unfolding left lbs_detach_def by (auto simp: r lfs_mk_0 bsmr_adjust_refs_eq lbs_words)
  next
    case False
    have "ref_cmpxchgptr_strong A fuel (\<lambda>s. lbs_head s i) (lbs_put_head i) (lfs_mk q p) 0 (lbs_put_head i (lfs_mk q p) s, [])
        = Some (True, lfs_mk q p, (lbs_put_head i (lfs_mk q 0) s, []))"
      using ptr_strong_alone [OF assms(2)] False by (simp add: put ops)
    with False show ?thesis unfolding left lbs_detach_def
      by (auto simp: r lfs_mk_0 drop_mk halves_mk(2) bsmr_adjust_refs_eq lbs_words)
  qed
  show ?thesis
    unfolding lbs_leave_list_def h
    by (simp add: load_alone loop det Let_def h lbs_words split: prod.splits)
qed

lemma lbs_traverse_view:
  assumes "\<forall>x. check x"
  shows "smr_traverse fuel (\<lambda>_ _. None) 0 check 0 list 0 nx hdl (lbs_view s, []) =
    map_option (\<lambda>(ok, list, t, w). (ok, list, t, lbs.lift w))
      (bsmr_traverse fuel (\<lambda>_ _. None) (lbs_ack i) 0 check 0 0 list 0 nx hdl (s, []))"
    "bsmr_traverse fuel (\<lambda>_ _. None) (lbs_ack i) 0 check 0 0 list 0 nx hdl (s, []) = Some (ok, l, t, w) \<Longrightarrow> ok \<and> snd w = []"
proof -
  obtain c where c: "bsmr_traverse fuel (\<lambda>_ _. None) (lbs_ack i) 0 check 0 0 list 0 nx hdl (s, []) =
     map_option (\<lambda>(ok, list, threshold, w). (ok, list, threshold, if ok then lbs_ack i c w else w))
       (smr_traverse fuel (\<lambda>_ _. None) 0 check 0 list 0 nx hdl (s, []))"
    using bsmr_traverse_eq [of fuel "\<lambda>_ _. None" "lbs_ack i" 0 check 0 0 list 0 nx hdl "(s, [])"] by auto
  have a: "lbs.lift (lbs_ack i c (s', [])) = lbs.lift (s', [])" "snd (lbs_ack i c (s', [])) = []" for s'
    by (simp_all add: lbs_ack_def rmw_alone lbs_view_update)
  note alone = traverse_alone [OF assms]
  show "smr_traverse fuel (\<lambda>_ _. None) 0 check 0 list 0 nx hdl (lbs_view s, []) =
    map_option (\<lambda>(ok, list, t, w). (ok, list, t, lbs.lift w))
      (bsmr_traverse fuel (\<lambda>_ _. None) (lbs_ack i) 0 check 0 0 list 0 nx hdl (s, []))"
    unfolding c lbs.view_traverse option.map_comp
  proof (rule option.map_cong0)
    fix z assume z: "z \<in> set_option (smr_traverse fuel (\<lambda>_ _. None) 0 check 0 list 0 nx hdl (s, []))"
    obtain ok l t w where zz: "z = (ok, l, t, w)" by (cases z) auto
    then have "ok \<and> snd w = []" using z by (intro alone) simp
    then show "(case z of (ok, list, t, w) \<Rightarrow> (ok, list, t, lbs.lift w)) =
      ((\<lambda>(ok, list, t, w). (ok, list, t, lbs.lift w)) \<circ> (\<lambda>(ok, list, threshold, w). (ok, list, threshold, if ok then lbs_ack i c w else w))) z"
      unfolding zz by (cases w) (simp add: a)
  qed
  show "bsmr_traverse fuel (\<lambda>_ _. None) (lbs_ack i) 0 check 0 0 list 0 nx hdl (s, []) = Some (ok, l, t, w) \<Longrightarrow> ok \<and> snd w = []"
    unfolding c using alone by (fastforce simp: a)
qed

lemma lbs_leave_list_view:
  assumes "\<forall>x. check x" "0 < fuel"
  shows "lfs_leave_list fuel lbs_ref i order 0 check hdl list (lbs_view s, []) =
      map_option (\<lambda>(ok, list, w). (ok, list, lbs.lift w)) (lbs_leave_list fuel A i order 0 check hdl list (s, []))"
    "lbs_leave_list fuel A i order 0 check hdl list (s, []) = Some (ok, l, w) \<Longrightarrow> ok \<and> snd w = []"
proof -
  let ?p = "lfs_ptr (lbs_head s i)" let ?c = "lfs_refs (lbs_head s i) = 1 \<and> ?p \<noteq> 0"
  let ?E = "if ?c then smr_adjust_refs list ?p (lfs_addend order) 0 (lbs_left i s, []) else (list, (lbs_left i s, []))"
  have "snd (snd ?E) = []" by (auto simp: adjust_refs_alone)
  then obtain l1 s1 where a: "?E = (l1, (s1, []))" using alone_cases by blast
  have v: "(if ?c then smr_adjust_refs list ?p (lfs_addend order) 0 (lfs_left i (lbs_view s), []) else (list, (lfs_left i (lbs_view s), [])))
      = (l1, (lbs_view s1, []))"
    using a lbs.view_adjust [of list ?p "lfs_addend order" 0 "lbs_left i s"] by (auto simp: lbs_view_update split: if_splits)
  note tr = lbs_traverse_view [where i = i, OF assms(1)]
  show "lfs_leave_list fuel lbs_ref i order 0 check hdl list (lbs_view s, []) =
      map_option (\<lambda>(ok, list, w). (ok, list, lbs.lift w)) (lbs_leave_list fuel A i order 0 check hdl list (s, []))"
    unfolding view.lfs_leave_list_eq [OF assms] lbs_leave_list_eq [OF assms] lbs_view_fields v [unfolded lbs_view_fields] a Let_def prod.case
    by (simp add: tr(1) option.map_comp o_def case_prod_beta')
  show "lbs_leave_list fuel A i order 0 check hdl list (s, []) = Some (ok, l, w) \<Longrightarrow> ok \<and> snd w = []"
    unfolding lbs_leave_list_eq [OF assms] a by (auto dest!: tr(2) split: if_splits)
qed

lemma lbs_fr_view: "lbs_fr fr n (lbs_view s) = lbs_view (fr n s)"
proof -
  have "lbs_view (lbs_unview (lbs_view s)) = lbs_view s" by simp
  then obtain c where "lbs_unview (lbs_view s) = s\<lparr>lbs_counter := c\<rparr>" unfolding eq_commute [of _ "lbs_view s"] lbs_view_eq by blast
  then show ?thesis by (simp add: lbs_fr_def fr_view)
qed

lemma lbs_free_view:
  "smr_free_list fuel p (lbs_fr fr) b (lbs_view s, []) = map_option lbs.lift (smr_free_list fuel p fr b (s, []))"
  by (rule lbs.view_free_list) (rule lbs_fr_view)

lemma lbs_leave_view:
  assumes "\<forall>x. check x" "0 < fuel"
    and r: "lfs_leave fuel lbs_ref i order hdl (lbs_fr fr) 0 check (lbs_view s, []) = Some (True, (v, []))"
  shows "\<exists>s'. lbs_leave fuel A i order hdl fr 0 check (s, []) = Some (True, (s', [])) \<and> lbs_view s' = v"
proof (cases "lbs_leave_list fuel A i order 0 check hdl 0 (s, [])")
  case None
  with r lbs_leave_list_view(1) [OF assms(1,2), of i order hdl 0 s] show ?thesis by (simp add: lfs_leave_def smr_leave_def)
next
  case (Some z)
  obtain ok l w where "z = (ok, l, w)" by (cases z) auto
  with lbs_leave_list_view(2) [OF assms(1,2), of i order hdl 0 s] Some
  obtain s1 where z: "lbs_leave_list fuel A i order 0 check hdl 0 (s, []) = Some (True, l, (s1, []))" by (cases w) auto
  with lbs_leave_list_view(1) [OF assms(1,2), of i order hdl 0 s] r
  have "map_option lbs.lift (smr_free_list fuel l fr 0 (s1, [])) = Some (v, [])"
    by (simp add: lfs_leave_def smr_leave_def lbs_free_view)
  then obtain w' where w': "smr_free_list fuel l fr 0 (s1, []) = Some w'" "lbs.lift w' = (v, [])" by blast
  obtain s' where s': "w' = (s', [])" using free_list_alone [OF w'(1)] by (cases w') simp
  then show ?thesis using w' z by (simp add: lbs_leave_def bsmr_leave_def bsmr_free_list_eq)
qed

lemma lbs_leave_run:
  assumes inv: "lfs_inv order n slot U K B H (lbs_view s)" and t: "t \<in> U" and ck: "\<forall>x. check x"
    and fuel: "length (concat B) < fuel" and V: "\<forall>x \<in> set (concat B). V x"
  shows "\<exists>s' P F. lbs_leave fuel A (slot t) order (H t) fr 0 check (s, []) = Some (True, (s', []))
    \<and> lfs_inv order n slot (U - {t}) (K(t := [])) (filter P B) H (lbs_view s')
    \<and> set F = {b \<in> set B. \<not> P b} \<and> distinct (concat F) \<and> reclaimed s' = reclaimed s @ map obj (concat F)
    \<and> same_nodes (set (concat B)) s s' \<and> task_num s' = task_num s
    \<and> bs_global s' = bs_global s \<and> bs_access s' = bs_access s \<and> lfbsmr.more s' = lfbsmr.more s
    \<and> (\<forall>u \<in> U - {t}. \<forall>b \<in> set B. lfs_holds slot K (lbs_view s) u b \<longrightarrow> P b \<and> lfs_holds slot (K(t := [])) (lbs_view s') u b)"
proof -
  from view.lfs_leave_run [OF inv t ck fuel V] obtain v P F where
    r: "lfs_leave fuel lbs_ref (slot t) order (H t) (lbs_fr fr) 0 check (lbs_view s, []) = Some (True, (v, []))"
    and q: "lfs_inv order n slot (U - {t}) (K(t := [])) (filter P B) H v"
      "set F = {b \<in> set B. \<not> P b}" "distinct (concat F)" "reclaimed v = reclaimed (lbs_view s) @ map obj (concat F)"
      "same_nodes (set (concat B)) (lbs_view s) v" "task_num v = task_num (lbs_view s)" "lfsmr.more v = lfsmr.more (lbs_view s)"
      "\<forall>u \<in> U - {t}. \<forall>b \<in> set B. lfs_holds slot K (lbs_view s) u b \<longrightarrow> P b \<and> lfs_holds slot (K(t := [])) v u b"
    by (elim exE conjE) (rule that)
  have "0 < fuel" using fuel by simp
  from lbs_leave_view [OF ck this r] obtain s'
    where s': "lbs_leave fuel A (slot t) order (H t) fr 0 check (s, []) = Some (True, (s', []))" "lbs_view s' = v" by blast
  show ?thesis using q unfolding s'(2) [symmetric] lbs_view_same
    by (intro exI [of _ s'] exI [of _ P] exI [of _ F]) (simp add: s'(1))
qed

lemma lbs_push_run:
  "lbs_push (Suc f) A 0 i y (lbs_head s i) (s, []) =
     (if lfs_refs (lbs_head s i) \<noteq> 0 then Some (True, lfs_ptr (lbs_head s i), lfs_refs (lbs_head s i), (lbs_pushed i y s, []))
      else Some (False, 0, 0, (s, [])))"
proof (cases "lfs_refs (lbs_head s i) = 0")
  case False
  obtain r p where h: "lbs_head s i = lfs_mk r p" by (rule lfs_mk_cases)
  have "(lfs_mk r p AND lfref_mask) OR (push_bit lfrptr_shift (ucast y) AND NOT lfref_mask) = lfs_mk r y"
    by (simp only: and_mask halves_mk)
  moreover have "new_ptr full (lfs_mk r p) (lfs_mk r y) = lfs_mk r y" for full
    by (simp only: new_ptr_def halves_mk(4) if_cancel)
  ultimately show ?thesis using False h
    by (simp add: bsmr_addr_def own_alone ptr_weak_alone smr_set_next_def Let_def lbs_words del: and_mask and_not_mask)
qed (simp add: lbs_words)

text \<open>A slot whose access epoch is behind counts as one without threads.\<close>

lemma lbs_slots_view:
  defines "ge \<equiv> \<lambda>s epoch i. EPOCH_GE (bs_access s i) epoch"
  shows "(\<exists>a d' l s'. lbs_slots (Suc f) A order 0 epoch js cur adjs d list (s, []) = Some (a, d', l, (s', []))
      \<and> lfs_slots (Suc f) lbs_ref order 0 (filter (ge s epoch) js) cur
          (adjs + of_nat (length (filter (\<lambda>j. \<not> ge s epoch j) js)) * lfs_addend order) (d \<or> (\<exists>j \<in> set js. \<not> ge s epoch j)) list (lbs_view s, [])
        = Some (a, d', l, (lbs_view s', [])))
    \<or> lfs_slots (Suc f) lbs_ref order 0 (filter (ge s epoch) js) cur
          (adjs + of_nat (length (filter (\<lambda>j. \<not> ge s epoch j) js)) * lfs_addend order) (d \<or> (\<exists>j \<in> set js. \<not> ge s epoch j)) list (lbs_view s, [])
        = None"
proof (induction js arbitrary: cur adjs d list s)
  case (Cons j js)
  show ?case
  proof (cases "ge s epoch j")
    case False
    then have "lbs_slots (Suc f) A order 0 epoch (j # js) cur adjs d list (s, [])
        = lbs_slots (Suc f) A order 0 epoch js cur (adjs + lfs_addend order) True list (s, [])"
      by (simp add: ge_def Prelude.load_alone lbs_words)
    with False Cons [of cur "adjs + lfs_addend order" True list s] show ?thesis by (simp add: algebra_simps)
  next
    case True
    note push = lbs_push_run [of f j cur s] view.lfs_push_run [of f j cur "lbs_view s"]
    show ?thesis
    proof (cases "lfs_refs (lbs_head s j) = 0")
      case idle: True
      have "lbs_slots (Suc f) A order 0 epoch (j # js) cur adjs d list (s, [])
          = lbs_slots (Suc f) A order 0 epoch js cur (adjs + lfs_addend order) True list (s, [])"
        using True idle push(1) by (simp add: ge_def Prelude.load_alone load_alone lbs_words del: lbs_push.simps)
      moreover have "lfs_slots (Suc f) lbs_ref order 0 (filter (ge s epoch) (j # js)) cur a d' list (lbs_view s, [])
          = lfs_slots (Suc f) lbs_ref order 0 (filter (ge s epoch) js) cur (a + lfs_addend order) True list (lbs_view s, [])" for a d'
        using True idle push(2) by (simp add: view.load_alone del: lfs_push.simps)
      ultimately show ?thesis using True Cons [of cur "adjs + lfs_addend order" True list s] by (simp add: algebra_simps)
    next
      case False
      let ?p = "lfs_ptr (lbs_head s j)" let ?r = "lfs_refs (lbs_head s j)" let ?s = "lbs_pushed j cur s"
      let ?E = "if ?p \<noteq> 0 then smr_adjust_refs list ?p (lfs_addend order + ?r) 0 (?s, []) else (list, (?s, []))"
      have "snd (snd ?E) = []" by (auto simp: adjust_refs_alone)
      then obtain l1 s1 where a: "?E = (l1, (s1, []))" using alone_cases by blast
      have v: "(if ?p \<noteq> 0 then smr_adjust_refs list ?p (lfs_addend order + ?r) 0 (lfs_pushed j cur (lbs_view s), [])
          else (list, (lfs_pushed j cur (lbs_view s), []))) = (l1, (lbs_view s1, []))"
        using a lbs.view_adjust [of list ?p "lfs_addend order + ?r" 0 ?s] by (auto simp: lbs_view_update split: if_splits)
      let ?s2 = "lbs_put_counter j (lbs_counter s1 j + ?r) s1"
      have acc: "bs_access ?s2 = bs_access s"
        using a by (auto simp: lbs_put_counter_def lbs_put_head_def smr_set_next_def smr_adjust_refs_def smr_set_refs_def
            smr_fetch_add_alone own_alone Let_def split: if_splits)
      have ge2: "ge ?s2 = ge s" by (simp add: ge_def fun_eq_iff acc)
      have "lbs_slots (Suc f) A order 0 epoch (j # js) cur adjs d list (s, [])
          = lbs_slots (Suc f) A order 0 epoch js (smr_refs s1 cur) adjs d l1 (?s2, [])"
        using True False push(1) a
        by (simp add: ge_def Prelude.load_alone load_alone lbs_words rmw_alone bsmr_adjust_refs_eq bsmr_addr_def lbs_put_counter_def
            del: lbs_push.simps cong: if_cong)
      moreover have "lfs_slots (Suc f) lbs_ref order 0 (filter (ge s epoch) (j # js)) cur b d' list (lbs_view s, [])
          = lfs_slots (Suc f) lbs_ref order 0 (filter (ge s epoch) js) (smr_refs s1 cur) b d' l1 (lbs_view s1, [])" for b d'
        using True False push(2) v
        by (simp add: view.load_alone smr_addr_def del: lfs_push.simps cong: if_cong)
      ultimately show ?thesis using True Cons [of "smr_refs s1 cur" adjs d l1 ?s2] unfolding ge2
        by (simp add: lbs_view_update)
    qed
  qed
qed simp

lemma lbs_retire_view:
  assumes r: "lfs_hand fuel lbs_ref (lbs_fr fr) 0 order (filter (\<lambda>i. EPOCH_GE (bs_access s i) epoch) [0..<2 ^ order]) first
      (of_nat (2 ^ order - length (filter (\<lambda>i. EPOCH_GE (bs_access s i) epoch) [0..<2 ^ order])) * lfs_addend order)
      (length (filter (\<lambda>i. EPOCH_GE (bs_access s i) epoch) [0..<2 ^ order]) < 2 ^ order) (lbs_view s, []) = Some (True, (v, []))"
    and fuel: "0 < fuel"
  shows "\<exists>s'. lbs_retire_batch fuel A fr 0 order first epoch (s, []) = Some (True, (s', [])) \<and> lbs_view s' = v"
proof -
  let ?N = "(2 :: nat) ^ order" let ?ge = "\<lambda>i. EPOCH_GE (bs_access s i) epoch"
  obtain f where f: "fuel = Suc f" using fuel by (cases fuel) auto
  have split: "length (filter ?ge [0..<?N]) + length (filter (\<lambda>j. \<not> ?ge j) [0..<?N]) = ?N"
    using sum_length_filter_compl [of ?ge "[0..<?N]"] by simp
  have skip: "length (filter (\<lambda>j. \<not> ?ge j) [0..<?N]) = ?N - length (filter ?ge [0..<?N])" using split by linarith
  have some: "(\<exists>j \<in> set [0..<?N]. \<not> ?ge j) \<longleftrightarrow> length (filter ?ge [0..<?N]) < ?N"
  proof -
    have "(\<exists>j \<in> set [0..<?N]. \<not> ?ge j) \<longleftrightarrow> length (filter (\<lambda>j. \<not> ?ge j) [0..<?N]) \<noteq> 0" by (simp add: filter_empty_conv)
    then show ?thesis using split by linarith
  qed
  obtain a d l s1 where x: "lbs_slots fuel A order 0 epoch [0..<?N] first 0 False 0 (s, []) = Some (a, d, l, (s1, []))"
    "lfs_slots fuel lbs_ref order 0 (filter ?ge [0..<?N]) first (of_nat (?N - length (filter ?ge [0..<?N])) * lfs_addend order)
       (length (filter ?ge [0..<?N]) < ?N) 0 (lbs_view s, []) = Some (a, d, l, (lbs_view s1, []))"
    using lbs_slots_view [of f order epoch "[0..<?N]" first 0 False 0 s] r
    unfolding lfs_hand_def f some skip add_0 simp_thms by auto
  let ?E = "if d then smr_adjust_refs l first a 0 (s1, []) else (l, (s1, []))"
  have "snd (snd ?E) = []" by (auto simp: adjust_refs_alone)
  then obtain l2 s2 where e: "?E = (l2, (s2, []))" using alone_cases by blast
  have v: "(if d then smr_adjust_refs l first a 0 (lbs_view s1, []) else (l, (lbs_view s1, []))) = (l2, (lbs_view s2, []))"
    using e lbs.view_adjust [of l first a 0 s1] by (auto split: if_splits)
  have "map_option lbs.lift (smr_free_list fuel l2 fr 0 (s2, [])) = Some (v, [])"
    using r v by (simp add: lfs_hand_def x(2) lbs_free_view)
  then obtain w' where w': "smr_free_list fuel l2 fr 0 (s2, []) = Some w'" "lbs.lift w' = (v, [])" by blast
  obtain s' where s': "w' = (s', [])" using free_list_alone [OF w'(1)] by (cases w') simp
  have "lbs_retire_batch fuel A fr 0 order first epoch (s, []) = Some (True, (s', []))"
    unfolding lbs_retire_batch_def x(1) option.case prod.case bsmr_adjust_refs_eq bsmr_free_list_eq e Let_def
    using w'(1) s' by simp
  with w'(2) s' show ?thesis by simp
qed

lemma lbs_retire_run:
  assumes inv: "lfs_inv order n slot U K B H (lbs_view s)"
    and b: "batch_ok s b" "smr_refs s (last b) = 0" "distinct b" "set b \<inter> set (concat B) = {}" "\<forall>x \<in> set b. x \<noteq> 0 \<and> V x"
    and few: "min n (2 ^ order) < length b" and fuel: "length b < fuel"
  shows "\<exists>s' K'. lbs_retire_batch fuel A fr 0 order (hd b) e (s, []) = Some (True, (s', []))
     \<and> same_nodes (set b \<union> set (concat B)) s s' \<and> task_num s' = task_num s
     \<and> bs_global s' = bs_global s \<and> bs_access s' = bs_access s \<and> lfbsmr.more s' = lfbsmr.more s
     \<and> (\<forall>u \<in> U. \<forall>c \<in> set B. lfs_holds slot K (lbs_view s) u c \<longrightarrow> lfs_holds slot K' (lbs_view s') u c)
     \<and> (if \<exists>u \<in> U. EPOCH_GE (bs_access s (slot u)) e
        then reclaimed s' = reclaimed s \<and> lfs_inv order n slot U K' (b # B) H (lbs_view s')
          \<and> (\<forall>u \<in> U. EPOCH_GE (bs_access s (slot u)) e \<longrightarrow> lfs_holds slot K' (lbs_view s') u b)
        else reclaimed s' = reclaimed s @ map obj b \<and> lfs_inv order n slot U K' B H (lbs_view s'))"
proof -
  let ?N = "(2 :: nat) ^ order" let ?js = "filter (\<lambda>i. EPOCH_GE (bs_access s i) e) [0..<?N]"
  have g: "lfs_ghost order n slot U K B H (lbs_view s)" using inv by (simp add: lfs_inv_def)
  note G = lfs_ghostD [OF g]
  have js: "set ?js \<subseteq> {..<?N}" "distinct ?js" by auto
  have act: "(\<exists>j \<in> set ?js. lfs_active (lbs_view s) j) \<longleftrightarrow> (\<exists>u \<in> U. EPOCH_GE (bs_access s (slot u)) e)"
  proof -
    have "lfs_active (lbs_view s) j \<longleftrightarrow> (\<exists>u \<in> U. slot u = j)" if "j < ?N" for j
      using lfs_occupied(1) [OF g that] by blast
    moreover have "slot u < ?N" if "u \<in> U" for u using G(3,4) that by blast
    ultimately show ?thesis by (metis (no_types, lifting) atLeast0LessThan atLeast_upt lessThan_iff mem_Collect_eq set_filter)
  qed
  have slot: "slot u \<in> set ?js \<longleftrightarrow> EPOCH_GE (bs_access s (slot u)) e" if "u \<in> U" for u using G(3,4) that by auto
  have sl: "(\<forall>u \<in> U. slot u \<in> set ?js \<longrightarrow> P u) \<longleftrightarrow> (\<forall>u \<in> U. EPOCH_GE (bs_access s (slot u)) e \<longrightarrow> P u)" for P
    using slot by blast
  have few: "length (filter (lfs_active (lbs_view s)) ?js) < length b" using lfs_few [OF g js] few by linarith
  have bv: "batch_ok (lbs_view s) b" "smr_refs (lbs_view s) (last b) = 0" using b(1,2) by (simp_all add: batch_ok_def)
  from view.lfs_hand_run [OF inv bv b(3-5) few js fuel] obtain v K' where
    r: "lfs_hand fuel lbs_ref (lbs_fr fr) 0 order ?js (hd b) (of_nat (?N - length ?js) * lfs_addend order)
         (length ?js < ?N) (lbs_view s, []) = Some (True, (v, []))"
    and q: "same_nodes (set b \<union> set (concat B)) (lbs_view s) v" "task_num v = task_num (lbs_view s)"
     "lfsmr.more v = lfsmr.more (lbs_view s)"
     "\<forall>u \<in> U. \<forall>c \<in> set B. lfs_holds slot K (lbs_view s) u c \<longrightarrow> lfs_holds slot K' v u c"
     "if \<exists>j \<in> set ?js. lfs_active (lbs_view s) j
        then reclaimed v = reclaimed (lbs_view s) \<and> lfs_inv order n slot U K' (b # B) H v
          \<and> (\<forall>u \<in> U. slot u \<in> set ?js \<longrightarrow> lfs_holds slot K' v u b)
        else reclaimed v = reclaimed (lbs_view s) @ map obj b \<and> lfs_inv order n slot U K' B H v"
    by (elim exE conjE) (rule that)
  have "0 < fuel" using fuel by simp
  from lbs_retire_view [OF r this] obtain s'
    where s': "lbs_retire_batch fuel A fr 0 order (hd b) e (s, []) = Some (True, (s', []))" "lbs_view s' = v" by blast
  have "if \<exists>u \<in> U. EPOCH_GE (bs_access s (slot u)) e
        then reclaimed s' = reclaimed s \<and> lfs_inv order n slot U K' (b # B) H (lbs_view s')
          \<and> (\<forall>u \<in> U. EPOCH_GE (bs_access s (slot u)) e \<longrightarrow> lfs_holds slot K' (lbs_view s') u b)
        else reclaimed s' = reclaimed s @ map obj b \<and> lfs_inv order n slot U K' B H (lbs_view s')"
    using q(5) unfolding act s'(2) [symmetric] sl by (simp only: lbs_view_fields)
  then show ?thesis using q(1-4) unfolding s'(2) [symmetric] lbs_view_same
    by (intro exI [of _ s'] exI [of _ K']) (simp add: s'(1))
qed

text \<open>\<open>enter\<close> ends in some slot.\<close>

lemma lbs_enter_alone:
  assumes "d < 2 ^ order" "i < 2 ^ order" "vec = (i + 1 + d) mod 2 ^ order" "d < f" "0 < fuel"
  shows "\<exists>j < 2 ^ order. lbs_enter_loop f A fuel vec order i (s, []) = Some (True, j, lfs_ptr (lbs_head s j),
     (lbs_put_head j (lfs_mk (lfs_refs (lbs_head s j) + 1) (lfs_ptr (lbs_head s j))) s, []))"
  using assms
proof (induction d arbitrary: i f)
  case (Suc d)
  then obtain f' where f: "f = Suc f'" "d < f'" by (cases f) auto
  have num: "Suc i AND (2 ^ order - Suc 0) = Suc i mod 2 ^ order"
    by (metis One_nat_def mask_eq_exp_minus_1 take_bit_eq_mask take_bit_eq_mod)
  have "vec = ((i + 1) mod 2 ^ order + 1 + d) mod 2 ^ order" 
    using Suc.prems(3) mod_add_left_eq [of "i + 1" "2 ^ order" "1 + d"] by (simp add: add.assoc)
  from Suc.IH [OF _ _ this f(2) Suc.prems(5)] Suc.prems(1)
  obtain j where j: "j < 2 ^ order" "lbs_enter_loop f' A fuel vec order ((i + 1) mod 2 ^ order) (s, []) = Some (True, j, lfs_ptr (lbs_head s j),
     (lbs_put_head j (lfs_mk (lfs_refs (lbs_head s j) + 1) (lfs_ptr (lbs_head s j))) s, []))" by auto
  obtain r p where h: "lbs_head s i = lfs_mk r p" by (rule lfs_mk_cases)
  show ?case
    using j Suc.prems(2) add_alone [OF Suc.prems(5) low_step, of "\<lambda>s. lbs_head s i" "lbs_put_head i" s] h
    by (simp add: f(1) Let_def num Prelude.load_alone lbs_words lfs_mk_step)
next
  case 0
  then obtain f' where f: "f = Suc f'" by (cases f) auto
  have num: "Suc i AND (2 ^ order - Suc 0) = Suc i mod 2 ^ order"
    by (metis One_nat_def mask_eq_exp_minus_1 take_bit_eq_mask take_bit_eq_mod)
  obtain r p where h: "lbs_head s i = lfs_mk r p" by (rule lfs_mk_cases)
  show ?case
    using 0(2,3) add_alone [OF 0(5) low_step, of "\<lambda>s. lbs_head s i" "lbs_put_head i" s] h
    by (simp add: f Let_def num lbs_words lfs_mk_step)
qed

lemma lbs_enter_run:
  assumes inv: "lfs_inv order n slot U K B H (lbs_view s)" and t: "t < n" "t \<notin> U" and fuel: "2 ^ order \<le> fuel"
  shows "\<exists>i s'. lbs_enter A fuel order (slot t) (s, []) = Some (True, i, lfs_ptr (lbs_head s i), (s', []))
    \<and> i < 2 ^ order \<and> s' = lbs_put_head i (lfs_mk (lfs_refs (lbs_head s i) + 1) (lfs_ptr (lbs_head s i))) s
    \<and> lfs_inv order n (slot(t := i)) (insert t U) K B (H(t := lfs_ptr (lbs_head s i))) (lbs_view s')
    \<and> (\<forall>u \<in> U. lfs_holds (slot(t := i)) K (lbs_view s') u = lfs_holds slot K (lbs_view s) u)"
proof -
  let ?N = "(2 :: nat) ^ order"
  have g: "lfs_ghost order n slot U K B H (lbs_view s)" using inv by (simp add: lfs_inv_def)
  have i: "slot t < ?N" by (rule lfs_ghostD(4) [OF g t(1)])
  have pos: "0 < fuel" using fuel by (metis le_0_eq not_gr_zero power_not_zero zero_neq_numeral)
  have vec: "slot t = (slot t + 1 + (?N - 1)) mod ?N" using i by simp
  obtain j where j: "j < ?N" "lbs_enter A fuel order (slot t) (s, []) = Some (True, j, lfs_ptr (lbs_head s j),
     (lbs_put_head j (lfs_mk (lfs_refs (lbs_head s j) + 1) (lfs_ptr (lbs_head s j))) s, []))"
    using lbs_enter_alone [OF _ i vec _ pos, of fuel s] fuel pos unfolding lbs_enter_def by fastforce
  let ?slot = "slot(t := j)" let ?s' = "lbs_put_head j (lfs_mk (lfs_refs (lbs_head s j) + 1) (lfs_ptr (lbs_head s j))) s"
  note sl = lfs_inv_slot [OF inv t(2) j(1)]
  have e: "lfs_inv order n ?slot (insert t U) K B (H(t := lfs_ptr (lbs_head s j))) (lbs_view ?s')"
    "lfs_holds ?slot K (lbs_view ?s') = lfs_holds ?slot K (lbs_view s)"
    using view.lfs_enter_run(2,3) [OF sl(1) t pos] by (simp_all add: lbs_view_update)
  have "lfs_holds ?slot K (lbs_view s) u = lfs_holds slot K (lbs_view s) u" if "u \<in> U" for u
    by (rule sl(2) [OF that])
  with e j show ?thesis by (intro exI [of _ j] exI [of _ ?s']) simp
qed

end

text \<open>\<open>deref\<close> of a thread that is alone, and \<open>init\<close>.\<close>

lemma lbs_deref_alone:
  "lbs_deref 2 lost i rd (s, []) = Some (rd (if bs_access s i = bs_global s then s else bs_set_access i (bs_global s) s),
     (bs_set_access i (bs_global s) s, []))"
proof -
  have "bs_set_access i (bs_global s) s = s" if "bs_access s i = bs_global s"
    using that by (cases s) (simp add: bs_set_access_def fun_upd_idem)
  then show ?thesis
    by (simp add: numeral_2_eq_2 lbs_deref_def load_alone cas_weak_alone bs_set_access_def)
qed

lemma lbs_init_from_run:
  assumes "lf_words A"
  shows "lbs_init_from A js (s, []) = (s\<lparr>lbs_head := (\<lambda>i. if i \<in> set js then 0 else lbs_head s i),
     bs_access := (\<lambda>i. if i \<in> set js then 0 else bs_access s i), lbs_counter := (\<lambda>i. if i \<in> set js then 0 else lbs_counter s i)\<rparr>, [])"
  by (induction js arbitrary: s)
    (auto simp: lf_words.init [OF assms] lbs_put_head_def lbs_put_counter_def bs_set_access_def own_alone fun_eq_iff
      intro!: lfbsmr.fold_congs bsmr.fold_congs)

end
