(* ===== verification/Hyaline_SEL_Safe.thy ===== *)
theory Hyaline_SEL_Safe
  imports Hyaline_S Lfbsmr_Inv Hyaline_OSEL_Safe
begin

text \<open>
  Safety, progress and robustness of \<open>HyalineSELTracker\<close>, used through its own members, for every
  implementation \<open>A\<close> of the \<open>__lfref_*\<close> operations that keeps the contract \<open>lf_words\<close>: with the robust
  double-width library it keeps the contract \<open>hy_bsmr\<close>, in which a thread may change its slot, and with
  it the epoch it shares with the other threads of the slot, when it starts an operation.
\<close>

definition sel_ops :: "sel_atomics \<Rightarrow> (hysel world \<Rightarrow> bool) \<Rightarrow> nat \<Rightarrow> u64 \<Rightarrow> hysel hy_ops" where
  "sel_ops A lost fuel sz = \<lparr>ops_alloc = (\<lambda>p t s. Some (fst (snd (sel_alloc sz t p (s, []))))),
     ops_start = (\<lambda>t s. map_option fst (sel_start_op A fuel t (s, []))),
     ops_read = (\<lambda>a t s. map_option (\<lambda>(v, w). fst w) (sel_read 2 lost a t (s, []))),
     ops_end = (\<lambda>t s. map_option fst (sel_end_op A fuel sz t (s, []))),
     ops_last = (\<lambda>t s. Some (sel_last_end_op t s)),
     ops_retire = (\<lambda>p t s. map_option fst (sel_retire A fuel sz p t (s, [])))\<rparr>"

abbreviation sel_run :: "sel_atomics \<Rightarrow> (hysel world \<Rightarrow> bool) \<Rightarrow> nat \<Rightarrow> u64 \<Rightarrow> hy_event list \<Rightarrow> hysel \<Rightarrow> hysel option" where
  "sel_run A lost fuel sz \<equiv> hy_run (sel_ops A lost fuel sz)"

abbreviation sel_lawful :: "sel_atomics \<Rightarrow> (hysel world \<Rightarrow> bool) \<Rightarrow> nat \<Rightarrow> u64 \<Rightarrow> hy_event list \<Rightarrow> hysel \<Rightarrow> bool" where
  "sel_lawful A lost fuel sz \<equiv> hy_lawful False (sel_ops A lost fuel sz) sz (\<lambda>x. x \<noteq> 0) hy_idle"

section \<open>The contract\<close>

lemma lbs_lib_sel: "lf_words A \<Longrightarrow> lbs_lib (A :: sel_atomics) (el_free_node sz) (\<lambda>x. x - sz) (\<lambda>x. x \<noteq> sz)"
  by (intro lbs_lib.intro smr_callback.intro lbs_lib_axioms.intro)
    (simp_all add: el_free_node_def dec_retired_def base_reclaim_def Let_def lbs_view_defs)

abbreviation sel_slot :: "hysel \<Rightarrow> nat \<Rightarrow> nat" where
  "sel_slot s \<equiv> (\<lambda>t. hos_enter_num (sel_taskData s t))"

abbreviation sel_handle :: "hysel \<Rightarrow> nat \<Rightarrow> u64" where
  "sel_handle s \<equiv> (\<lambda>t. hos_handle (sel_taskData s t))"

abbreviation sel_set_batch :: "nat \<Rightarrow> bsmr_batch \<Rightarrow> hysel \<Rightarrow> hysel" where
  "sel_set_batch t b \<equiv> sel_set_task t (hos_batch_update (\<lambda>_. b))"

definition sel_fits :: "nat \<Rightarrow> nat \<Rightarrow> nat \<Rightarrow> hysel \<Rightarrow> bool" where
  "sel_fits k n m s \<longleftrightarrow> sel_SMR_ORDER s = k \<and> sel_SMR_BATCH s = of_nat m \<and> task_num s = n"

definition sel_lib :: "sel_atomics \<Rightarrow> nat \<Rightarrow> nat \<Rightarrow> nat \<Rightarrow> nat \<Rightarrow> nat set \<Rightarrow> (nat \<Rightarrow> ptr list \<Rightarrow> bool) \<Rightarrow> ptr list list \<Rightarrow> hysel \<Rightarrow> bool" where
  "sel_lib A fuel k n m U g B s \<longleftrightarrow> lf_words A \<and> 2 ^ k \<le> fuel \<and> sel_fits k n m s \<and> 1 < m \<and> m < 2 ^ 64 \<and> min n (2 ^ k) < m
     \<and> (\<exists>K H. lfs_inv k n (sel_slot s) U K B H (lbs_view s) \<and> (\<forall>t \<in> U. sel_handle s t = H t)
          \<and> (\<forall>u \<in> U. \<forall>b \<in> set B. g u b \<longrightarrow> lfs_holds (sel_slot s) K (lbs_view s) u b))"

lemma sel_libD:
  assumes "sel_lib A fuel k n m U g B s"
  shows "lf_words A" "2 ^ k \<le> fuel" "sel_fits k n m s" "1 < m" "m < 2 ^ 64" "min n (2 ^ k) < m"
    "sel_SMR_ORDER s = k" "sel_SMR_BATCH s = of_nat m" "task_num s = n"
  using assms unfolding sel_lib_def sel_fits_def by blast+

lemma sel_libE:
  assumes "sel_lib A fuel k n m U g B s"
  obtains K H where "lfs_inv k n (sel_slot s) U K B H (lbs_view s)" "\<And>t. t \<in> U \<Longrightarrow> sel_handle s t = H t"
    "\<And>u b. u \<in> U \<Longrightarrow> b \<in> set B \<Longrightarrow> g u b \<Longrightarrow> lfs_holds (sel_slot s) K (lbs_view s) u b"
    "lfs_ghost k n (sel_slot s) U K B H (lbs_view s)" "smr_ginv (lfs_hold k (lbs_view s)) n K B [] 0 (lbs_view s)"
  using assms unfolding sel_lib_def lfs_inv_def by blast

lemma sel_lib_next:
  assumes "sel_lib A fuel k n m U g B s" "lfs_inv k n sl U' K B' H (lbs_view s')" "sel_slot s' = sl"
    "\<And>t. t \<in> U' \<Longrightarrow> sel_handle s' t = H t"
    "\<And>u b. u \<in> U' \<Longrightarrow> b \<in> set B' \<Longrightarrow> g' u b \<Longrightarrow> lfs_holds sl K (lbs_view s') u b"
    "sel_fits k n m s' = sel_fits k n m s"
  shows "sel_lib A fuel k n m U' g' B' s'"
  unfolding sel_lib_def
proof (intro conjI exI [of _ K] exI [of _ H])
  show "lfs_inv k n (sel_slot s') U' K B' H (lbs_view s')" unfolding assms(3) by (rule assms(2))
  show "\<forall>t \<in> U'. sel_handle s' t = H t" using assms(4) by blast
  show "\<forall>u \<in> U'. \<forall>b \<in> set B'. g' u b \<longrightarrow> lfs_holds (sel_slot s') K (lbs_view s') u b"
    unfolding assms(3) using assms(5) by blast
qed (use sel_libD [OF assms(1)] assms(6) in simp_all)

lemma sel_lib_keep:
  assumes lib: "sel_lib A fuel k n m U g B s" and s': "same_nodes X s s'" "X \<inter> set (concat B) = {}" "lbs_head s' = lbs_head s"
    "sel_slot s' = sel_slot s" "sel_handle s' = sel_handle s" "sel_fits k n m s' = sel_fits k n m s"
  shows "sel_lib A fuel k n m U g B s'"
proof -
  obtain K H where L: "lfs_inv k n (sel_slot s) U K B H (lbs_view s)" "\<And>t. t \<in> U \<Longrightarrow> sel_handle s t = H t"
    "\<And>u b. u \<in> U \<Longrightarrow> b \<in> set B \<Longrightarrow> g u b \<Longrightarrow> lfs_holds (sel_slot s) K (lbs_view s) u b"
    by (rule sel_libE [OF lib]) (rule that)
  have h: "lfs_head (lbs_view s') = lfs_head (lbs_view s)" using s'(3) by simp
  note keep = lfs_inv_keep [OF L(1) s'(1) [folded lbs_view_same] s'(2) h]
  show ?thesis
    by (rule sel_lib_next [OF lib keep(1) s'(4)]) (use L(2,3) keep(2) s'(5,6) in \<open>simp_all add: fun_eq_iff\<close>)
qed

lemma sel_kept: "smr_kept s' = smr_kept s \<Longrightarrow> sel_taskData s' = sel_taskData (s :: hysel) \<and> lbs_head s' = lbs_head s
  \<and> sel_fits k n m s' = sel_fits k n m s"
  by (cases s, cases s') (simp add: sel_fits_def)

lemma sel_more: "lfbsmr.more s' = lfbsmr.more s \<Longrightarrow> sel_taskData s' = sel_taskData s
  \<and> (task_num s' = task_num s \<longrightarrow> sel_fits k n m s' = sel_fits k n m s)"
  by (cases s, cases s') (simp add: sel_fits_def)

lemma sel_set_task_fields:
  "smr_next (sel_set_task t f s) = smr_next s" "smr_link (sel_set_task t f s) = smr_link s"
  "smr_refs (sel_set_task t f s) = smr_refs s" "lbs_head (sel_set_task t f s) = lbs_head s"
  "reclaimed (sel_set_task t f s) = reclaimed s" "task_num (sel_set_task t f s) = task_num s"
  "bs_global (sel_set_task t f s) = bs_global s" "bs_access (sel_set_task t f s) = bs_access s"
  "sel_taskData (sel_set_task t f s) = (sel_taskData s)(t := f (sel_taskData s t))"
  "sel_fits k n m (sel_set_task t f s) = sel_fits k n m s"
  by (auto simp: sel_set_task_def sel_fits_def)

lemma sel_start:
  assumes lib: "sel_lib A fuel k n m U g B s" and t: "t < n" "t \<notin> U"
  shows "\<exists>s' g'. sel_start_op A fuel t (s, []) = Some (s', []) \<and> same_nodes {} s s' \<and> reclaimed s' = reclaimed s
      \<and> (\<forall>u. hos_batch (sel_taskData s' u) = hos_batch (sel_taskData s u)) \<and> (\<forall>u. u \<noteq> t \<longrightarrow> sel_slot s' u = sel_slot s u)
      \<and> hb_epochs s' = hb_epochs s
      \<and> sel_lib A fuel k n m (insert t U) g' B s' \<and> (\<forall>u \<in> U. \<forall>b \<in> set B. g u b \<longrightarrow> g' u b)"
proof -
  note I = sel_libD [OF lib]
  obtain K H where L: "lfs_inv k n (sel_slot s) U K B H (lbs_view s)" "\<And>t. t \<in> U \<Longrightarrow> sel_handle s t = H t"
    "\<And>u b. u \<in> U \<Longrightarrow> b \<in> set B \<Longrightarrow> g u b \<Longrightarrow> lfs_holds (sel_slot s) K (lbs_view s) u b"
    by (rule sel_libE [OF lib]) (rule that)
  obtain i s1 where e: "lbs_enter A fuel k (sel_slot s t) (s, []) = Some (True, i, lfs_ptr (lbs_head s i), (s1, []))"
    "s1 = lbs_put_head i (lfs_mk (lfs_refs (lbs_head s i) + 1) (lfs_ptr (lbs_head s i))) s"
    "lfs_inv k n ((sel_slot s)(t := i)) (insert t U) K B (H(t := lfs_ptr (lbs_head s i))) (lbs_view s1)"
    "\<And>u. u \<in> U \<Longrightarrow> lfs_holds ((sel_slot s)(t := i)) K (lbs_view s1) u = lfs_holds (sel_slot s) K (lbs_view s) u"
    using lbs_lib.lbs_enter_run [OF lbs_lib_sel [OF I(1)] L(1) t I(2)] by blast
  let ?s' = "sel_set_task t (\<lambda>d. d\<lparr>hos_enter_num := i, hos_handle := lfs_ptr (lbs_head s i)\<rparr>) s1"
  have td: "sel_taskData s1 = sel_taskData s" using e(2) by (simp add: lbs_put_head_def)
  have sl: "sel_slot ?s' = (sel_slot s)(t := i)" by (auto simp: sel_set_task_fields td)
  have same: "same_nodes {} (lbs_view s1) (lbs_view ?s')" by (simp add: same_nodes_def sel_set_task_fields)
  have hd: "lfs_head (lbs_view ?s') = lfs_head (lbs_view s1)" by (simp add: sel_set_task_fields)
  note S = lfs_inv_keep [OF e(3) same _ hd]
  define g' where "g' u b \<longleftrightarrow> lfs_holds ((sel_slot s)(t := i)) K (lbs_view s1) u b" for u b
  have fit: "sel_fits k n m ?s' = sel_fits k n m s"
    unfolding sel_set_task_fields(10) e(2) by (simp add: sel_fits_def lbs_put_head_def)
  have hdl: "sel_handle ?s' u = (H(t := lfs_ptr (lbs_head s i))) u" if "u \<in> insert t U" for u
    using L(2) that by (auto simp: sel_set_task_fields td)
  have "sel_lib A fuel k n m (insert t U) g' B ?s'"
    by (rule sel_lib_next [OF lib S(1) sl hdl _ fit]) (use S(2) in \<open>simp_all add: g'_def\<close>)
  moreover have "\<forall>u \<in> U. \<forall>b \<in> set B. g u b \<longrightarrow> g' u b" using L(3) e(4) by (simp add: g'_def)
  moreover have "sel_start_op A fuel t (s, []) = Some (?s', [])"
    using e(1) I(7) by (simp add: sel_start_op_def own_alone)
  moreover have "same_nodes {} s ?s'" "reclaimed ?s' = reclaimed s" "hb_epochs ?s' = hb_epochs s"
    "\<forall>u. hos_batch (sel_taskData ?s' u) = hos_batch (sel_taskData s u)" "\<forall>u. u \<noteq> t \<longrightarrow> sel_slot ?s' u = sel_slot s u"
    using e(2) by (auto simp: same_nodes_def sel_set_task_fields lbs_put_head_def)
  ultimately show ?thesis by blast
qed

lemma sel_leave:
  assumes lib: "sel_lib A fuel k n m U g B s" and t: "t \<in> U" and V: "\<forall>x \<in> set (concat B). x \<noteq> sz"
    and fuel: "length (concat B) < fuel"
  shows "\<exists>s' g' B' F. sel_end_op A fuel sz t (s, []) = Some (s', []) \<and> sel_lib A fuel k n m (U - {t}) g' B' s'
      \<and> same_nodes (set (concat B)) s s' \<and> sel_taskData s' = sel_taskData s \<and> hb_epochs s' = hb_epochs s
      \<and> hy_drop sz (U - {t}) g B s g' B' F s'"
proof -
  note I = sel_libD [OF lib]
  obtain K H where L: "lfs_inv k n (sel_slot s) U K B H (lbs_view s)" "\<And>t. t \<in> U \<Longrightarrow> sel_handle s t = H t"
    "\<And>u b. u \<in> U \<Longrightarrow> b \<in> set B \<Longrightarrow> g u b \<Longrightarrow> lfs_holds (sel_slot s) K (lbs_view s) u b"
    "smr_ginv (lfs_hold k (lbs_view s)) n K B [] 0 (lbs_view s)"
    by (rule sel_libE [OF lib]) (rule that)
  have ck: "\<forall>x. LF_DONTCHECK x" by (simp add: LF_DONTCHECK_def)
  obtain s' P F where r: "lbs_leave fuel A (sel_slot s t) k (H t) (el_free_node sz) 0 LF_DONTCHECK (s, []) = Some (True, (s', []))"
    "lfs_inv k n (sel_slot s) (U - {t}) (K(t := [])) (filter P B) H (lbs_view s')"
    "set F = {b \<in> set B. \<not> P b}" "distinct (concat F)" "reclaimed s' = reclaimed s @ map (\<lambda>x. x - sz) (concat F)"
    "same_nodes (set (concat B)) s s'" "task_num s' = task_num s" "hb_epochs s' = hb_epochs s" "lfbsmr.more s' = lfbsmr.more s"
    "\<And>u b. u \<in> U - {t} \<Longrightarrow> b \<in> set B \<Longrightarrow> lfs_holds (sel_slot s) K (lbs_view s) u b
      \<Longrightarrow> P b \<and> lfs_holds (sel_slot s) (K(t := [])) (lbs_view s') u b"
    using lbs_lib.lbs_leave_run [OF lbs_lib_sel [OF I(1)] L(1) t ck fuel V] by auto
  note M = sel_more [OF r(9)]
  have td: "sel_taskData s' = sel_taskData s" using M by blast
  have run: "sel_end_op A fuel sz t (s, []) = Some (s', [])" using r(1) L(2) [OF t] I(7) by (simp add: sel_end_op_def)
  define g' where "g' u b \<longleftrightarrow> lfs_holds (sel_slot s) (K(t := [])) (lbs_view s') u b" for u b
  have "sel_lib A fuel k n m (U - {t}) g' (filter P B) s'"
    by (rule sel_lib_next [OF lib r(2)]) (use L(2) M r(7) in \<open>auto simp: g'_def\<close>)
  moreover have "mset (concat B) = mset (concat (filter P B)) + mset (concat F)"
    by (rule mset_concat_split [OF smr_ginvD(1) [OF L(4)] r(4,3)])
  then have "hy_drop sz (U - {t}) g B s g' (filter P B) F s'"
    using r(5,10) L(3) by (simp add: hy_drop_def g'_def)
  ultimately show ?thesis using run r(6,8) td by blast
qed

lemma sel_retire_batch:
  assumes lib: "sel_lib A fuel k n m U g B s" and b: "batch_ok s b" "smr_refs s (last b) = 0" "distinct b"
      "set b \<inter> set (concat B) = {}" "\<forall>x \<in> set b. x \<noteq> 0 \<and> x \<noteq> sz" "length b = m" "length b < fuel"
  shows "\<exists>s'. lbs_retire_batch fuel A (el_free_node sz) 0 k (hd b) e (s, []) = Some (True, (s', []))
      \<and> same_nodes (set b \<union> set (concat B)) s s' \<and> sel_taskData s' = sel_taskData s \<and> hb_epochs s' = hb_epochs s
      \<and> (if \<exists>u \<in> U. EPOCH_GE (bs_access s (sel_slot s u)) e
         then reclaimed s' = reclaimed s \<and> (\<exists>g'. sel_lib A fuel k n m U g' (b # B) s'
           \<and> (\<forall>u \<in> U. (EPOCH_GE (bs_access s (sel_slot s u)) e \<longrightarrow> g' u b) \<and> (\<forall>c \<in> set B. g u c \<longrightarrow> g' u c)))
         else reclaimed s' = reclaimed s @ map (\<lambda>x. x - sz) b \<and> sel_lib A fuel k n m U g B s')"
proof -
  note I = sel_libD [OF lib]
  obtain K H where L: "lfs_inv k n (sel_slot s) U K B H (lbs_view s)" "\<And>t. t \<in> U \<Longrightarrow> sel_handle s t = H t"
    "\<And>u b. u \<in> U \<Longrightarrow> b \<in> set B \<Longrightarrow> g u b \<Longrightarrow> lfs_holds (sel_slot s) K (lbs_view s) u b"
    by (rule sel_libE [OF lib]) (rule that)
  have few: "min n (2 ^ k) < length b" using I(6) b(6) by simp
  obtain s' K' where r: "lbs_retire_batch fuel A (el_free_node sz) 0 k (hd b) e (s, []) = Some (True, (s', []))"
    "same_nodes (set b \<union> set (concat B)) s s'" "task_num s' = task_num s" "hb_epochs s' = hb_epochs s"
    "lfbsmr.more s' = lfbsmr.more s"
    "\<And>u c. u \<in> U \<Longrightarrow> c \<in> set B \<Longrightarrow> lfs_holds (sel_slot s) K (lbs_view s) u c \<Longrightarrow> lfs_holds (sel_slot s) K' (lbs_view s') u c"
    "if \<exists>u \<in> U. EPOCH_GE (bs_access s (sel_slot s u)) e
     then reclaimed s' = reclaimed s \<and> lfs_inv k n (sel_slot s) U K' (b # B) H (lbs_view s')
       \<and> (\<forall>u \<in> U. EPOCH_GE (bs_access s (sel_slot s u)) e \<longrightarrow> lfs_holds (sel_slot s) K' (lbs_view s') u b)
     else reclaimed s' = reclaimed s @ map (\<lambda>x. x - sz) b \<and> lfs_inv k n (sel_slot s) U K' B H (lbs_view s')"
    using lbs_lib.lbs_retire_run [OF lbs_lib_sel [OF I(1)] L(1) b(1-5) few b(7), of e]
    by (elim exE conjE) (rule that; simp)
  note M = sel_more [OF r(5)]
  have td: "sel_taskData s' = sel_taskData s" using M by blast
  show ?thesis
  proof (cases "\<exists>u \<in> U. EPOCH_GE (bs_access s (sel_slot s u)) e")
    case False
    note l = r(7) [unfolded if_not_P [OF False]]
    have "sel_lib A fuel k n m U g B s'"
      by (rule sel_lib_next [OF lib l [THEN conjunct2]]) (use L(2,3) M r(3,6) in simp_all)
    with r(1,2,4) td l show ?thesis unfolding if_not_P [OF False] by blast
  next
    case True
    note l = r(7) [unfolded if_P [OF True]]
    define g' where "g' u c \<longleftrightarrow> lfs_holds (sel_slot s) K' (lbs_view s') u c" for u c
    have "sel_lib A fuel k n m U g' (b # B) s'"
      by (rule sel_lib_next [OF lib l [THEN conjunct2, THEN conjunct1]]) (use L(2) M r(3) in \<open>simp_all add: g'_def\<close>)
    moreover have "\<forall>u \<in> U. (EPOCH_GE (bs_access s (sel_slot s u)) e \<longrightarrow> g' u b) \<and> (\<forall>c \<in> set B. g u c \<longrightarrow> g' u c)"
      using l r(6) L(3) by (simp add: g'_def)
    ultimately show ?thesis unfolding if_P [OF True] using r(1,2,4) td l by blast
  qed
qed

text \<open>The library's lemmas for the implementations of the atomic operations.\<close>

interpretation sel_gcc: lbs_lib "gcc_atomics le W lost :: sel_atomics" "el_free_node sz" "\<lambda>x. x - sz" "\<lambda>x. x \<noteq> sz" for le W lost sz
  by (rule lbs_lib_sel [OF gcc.lf_words_axioms])

interpretation sel_llvm: lbs_lib "llvm_atomics True W lost :: sel_atomics" "el_free_node sz" "\<lambda>x. x - sz" "\<lambda>x. x \<noteq> sz" for W lost sz
  by (rule lbs_lib_sel [OF llvm.lf_words_axioms])

interpretation sel_ppc: lbs_lib "ppc_atomics little little c 128 64 lost :: sel_atomics" "el_free_node sz" "\<lambda>x. x - sz" "\<lambda>x. x \<noteq> sz"
  for little c lost sz
  by (rule lbs_lib_sel [OF ppc.lf_words_axioms])

lemma sel_alloc_run:
  assumes lib: "sel_lib A fuel k n m U g B s" and x: "x \<notin> set (concat B)"
  shows "\<exists>s'. ops_alloc (sel_ops A lost fuel sz) (x - sz) t s = Some s' \<and> same_nodes {x} s s' \<and> reclaimed s' = reclaimed s
      \<and> (\<lambda>u. hos_batch (sel_taskData s' u)) = (\<lambda>u. hos_batch (sel_taskData s u)) \<and> sel_slot s' = sel_slot s
      \<and> sel_lib A fuel k n m U g B s' \<and> bs_access s' = bs_access s
      \<and> (bs_global s' = bs_global s \<or> bs_global s' = bs_global s + 1) \<and> smr_next s' x = bs_global s'"
proof -
  let ?c = "hos_counter (sel_taskData s t)"
  obtain s1 where s1: "bsmr_init_node x ?c (sel_SMR_EFREQ s) (s, []) = (?c + 1, (s1, []))"
    "s1 = smr_set_next x (bs_global s) s \<or> s1 = smr_set_next x (bs_global s + 1) (bs_set_global (bs_global s + 1) s)"
    using bsmr_init_node_alone by blast
  let ?s' = "sel_set_task t (hos_counter_update (\<lambda>_. ?c + 1)) s1"
  have "ops_alloc (sel_ops A lost fuel sz) (x - sz) t s = Some ?s'"
    using s1(1) by (simp add: sel_ops_def sel_alloc_def own_alone)
  moreover have f: "same_nodes {x} s ?s'" "reclaimed ?s' = reclaimed s" "lbs_head ?s' = lbs_head s"
    "bs_access ?s' = bs_access s" "bs_global ?s' = bs_global s \<or> bs_global ?s' = bs_global s + 1"
    "smr_next ?s' x = bs_global ?s'" "sel_fits k n m ?s' = sel_fits k n m s"
    "(\<lambda>u. hos_batch (sel_taskData ?s' u)) = (\<lambda>u. hos_batch (sel_taskData s u))"
    "sel_slot ?s' = sel_slot s" "sel_handle ?s' = sel_handle s"
    using s1(2) by (auto simp: same_nodes_def sel_set_task_def smr_set_next_def bs_set_global_def sel_fits_def)
  moreover have "sel_lib A fuel k n m U g B ?s'"
    by (rule sel_lib_keep [OF lib f(1) _ f(3,9,10,7)]) (use x in simp)
  ultimately show ?thesis by (intro exI [of _ ?s'] conjI)
qed

lemma sel_lib_self:
  assumes "sel_lib A fuel k n m U g B s" and "same_nodes {} s s'" "lbs_head s' = lbs_head s" "sel_slot s' = sel_slot s"
    "sel_handle s' = sel_handle s" "sel_fits k n m s' = sel_fits k n m s"
  shows "sel_lib A fuel k n m U g B s'"
  by (rule sel_lib_keep [OF assms(1,2) _ assms(3-6)]) simp

interpretation sel_t: hy_bsmr "sel_ops A lost fuel sz" n m sz "\<lambda>x. x \<noteq> 0" fuel False k "lbs_retire_batch fuel A (el_free_node sz) 0"
  "\<lambda>s t. hos_batch (sel_taskData s t)" sel_set_batch "\<lambda>U D. sel_lib A fuel k n m U" "2 ^ k" True sel_slot
  for A lost fuel sz n m k
proof unfold_locales
  fix U D g B and s s' :: hysel and t b X p x u e
  assume lib: "sel_lib A fuel k n m U g B s"
  note I = sel_libD [OF lib]
  obtain K H where G: "lfs_ghost k n (sel_slot s) U K B H (lbs_view s)" by (rule sel_libE [OF lib]) (rule that)
  show "1 < m \<and> m < 2 ^ 64" using I(4,5) by blast
  show "U \<subseteq> {..<n} \<and> task_num s = n" using I(9) lfs_ghostD(3) [OF G] by blast
  show "sel_slot s u < 2 ^ k" if "u < n" by (rule lfs_ghostD(4) [OF G that])
  show "sel_lib A fuel k n m U g B (sel_set_batch t bt s)" for bt
    by (rule sel_lib_self [OF lib]) (auto simp: same_nodes_def sel_set_task_fields)
  show "sel_lib A fuel k n m U g B s'" if "same_nodes X s s'" "X \<inter> set (concat B) = {}" "smr_kept s' = smr_kept s"
    by (rule sel_lib_keep [OF lib that(1,2)]) (use sel_kept [OF that(3)] in simp_all)
  show "sel_lib A fuel k n m U g B (bs_set_access t v s)" for v
    by (rule sel_lib_self [OF lib]) (simp_all add: same_nodes_def bs_set_access_def sel_fits_def)
  show "\<exists>s'. ops_alloc (sel_ops A lost fuel sz) (x - sz) t s = Some s' \<and> same_nodes {x} s s' \<and> reclaimed s' = reclaimed s
      \<and> (\<lambda>t. hos_batch (sel_taskData s' t)) = (\<lambda>t. hos_batch (sel_taskData s t)) \<and> sel_slot s' = sel_slot s
      \<and> sel_lib A fuel k n m U g B s' \<and> bs_access s' = bs_access s
      \<and> (bs_global s' = bs_global s \<or> bs_global s' = bs_global s + 1) \<and> smr_next s' x = bs_global s'"
    if "x \<notin> set (concat B)" by (rule sel_alloc_run [OF lib that])
  show "\<exists>s' g'. ops_start (sel_ops A lost fuel sz) t s = Some s' \<and> same_nodes {} s s' \<and> reclaimed s' = reclaimed s
      \<and> (\<lambda>t'. hos_batch (sel_taskData s' t')) = (\<lambda>t'. hos_batch (sel_taskData s t'))
      \<and> (\<forall>u. \<not> (True \<and> u = t) \<longrightarrow> sel_slot s' u = sel_slot s u) \<and> hb_epochs s' = hb_epochs s
      \<and> sel_lib A fuel k n m (insert t U) g' B s' \<and> (\<forall>u \<in> U. \<forall>b \<in> set B. g u b \<longrightarrow> g' u b)"
    if h: "t < n" "t \<notin> D" "False \<or> t \<notin> U"
  proof -
    have out: "t \<notin> U" using h(3) by simp
    from sel_start [OF lib h(1) out] obtain s' g' where "sel_start_op A fuel t (s, []) = Some (s', [])" "same_nodes {} s s'" "reclaimed s' = reclaimed s"
      "\<forall>u. hos_batch (sel_taskData s' u) = hos_batch (sel_taskData s u)" "\<forall>u. u \<noteq> t \<longrightarrow> sel_slot s' u = sel_slot s u"
      "hb_epochs s' = hb_epochs s" "sel_lib A fuel k n m (insert t U) g' B s'" "\<forall>u \<in> U. \<forall>b \<in> set B. g u b \<longrightarrow> g' u b"
      by (elim exE conjE) (rule that)
    then show ?thesis by (intro exI [of _ s'] exI [of _ g']) (simp add: sel_ops_def)
  qed
  show "ops_read (sel_ops A lost fuel sz) a t s = Some (bs_set_access (sel_slot s t) (bs_global s) s)" for a
    by (simp add: sel_ops_def sel_read_def lbs_deref_alone)
  show "\<exists>s' g' B' F. ops_end (sel_ops A lost fuel sz) t s = Some s' \<and> sel_lib A fuel k n m (if False then U else U - {t}) g' B' s'
      \<and> same_nodes (set (concat B)) s s' \<and> (\<lambda>t. hos_batch (sel_taskData s' t)) = (\<lambda>t. hos_batch (sel_taskData s t))
      \<and> sel_slot s' = sel_slot s \<and> hb_epochs s' = hb_epochs s \<and> hy_drop sz (U - {t}) g B s g' B' F s'"
    if t: "t \<in> U" and ok: "\<forall>x \<in> set (concat B). x \<noteq> 0 \<and> x \<noteq> sz" and len: "length (concat B) < fuel"
  proof -
    have "\<forall>x \<in> set (concat B). x \<noteq> sz" using ok by blast
    from sel_leave [OF lib t this len] obtain s' g' B' F where "sel_end_op A fuel sz t (s, []) = Some (s', [])"
      "sel_lib A fuel k n m (U - {t}) g' B' s'" "same_nodes (set (concat B)) s s'" "sel_taskData s' = sel_taskData s"
      "hb_epochs s' = hb_epochs s" "hy_drop sz (U - {t}) g B s g' B' F s'" by blast
    then show ?thesis by (intro exI [of _ s'] exI [of _ g'] exI [of _ B'] exI [of _ F]) (simp add: sel_ops_def)
  qed
  show "\<exists>s' g' B' F. ops_last (sel_ops A lost fuel sz) t s = Some s' \<and> sel_lib A fuel k n m (U - {t}) g' B' s'
      \<and> same_nodes (set (concat B)) s s' \<and> (\<lambda>t. hos_batch (sel_taskData s' t)) = (\<lambda>t. hos_batch (sel_taskData s t))
      \<and> sel_slot s' = sel_slot s \<and> hb_epochs s' = hb_epochs s \<and> hy_drop sz (U - {t}) g B s g' B' F s'" if "False \<longleftrightarrow> t \<in> U"
    by (intro exI [of _ s] exI [of _ g] exI [of _ B] exI [of _ "[]"])
      (use that lib in \<open>simp add: sel_ops_def sel_last_end_op_def hy_drop_def\<close>)
  show "\<exists>s'. lbs_retire_batch fuel A (el_free_node sz) 0 k (hd b) e (s, []) = Some (True, (s', []))
      \<and> same_nodes (set b \<union> set (concat B)) s s' \<and> (\<lambda>t. hos_batch (sel_taskData s' t)) = (\<lambda>t. hos_batch (sel_taskData s t))
      \<and> sel_slot s' = sel_slot s \<and> hb_epochs s' = hb_epochs s
      \<and> (if \<exists>u \<in> U. EPOCH_GE (bs_access s (sel_slot s u)) e
         then reclaimed s' = reclaimed s \<and> (\<exists>g'. sel_lib A fuel k n m U g' (b # B) s'
           \<and> (\<forall>u \<in> U. (EPOCH_GE (bs_access s (sel_slot s u)) e \<longrightarrow> g' u b) \<and> (\<forall>c \<in> set B. g u c \<longrightarrow> g' u c)))
         else reclaimed s' = reclaimed s @ map (\<lambda>x. x - sz) b \<and> sel_lib A fuel k n m U g B s')"
    if b: "batch_ok s b" "smr_refs s (last b) = 0" "distinct b" "set b \<inter> set (concat B) = {}"
      "\<forall>x \<in> set b. x \<noteq> 0 \<and> x \<noteq> sz" "length b = m" "length b < fuel"
  proof -
    from sel_retire_batch [OF lib b, of e] obtain s' where
      r: "lbs_retire_batch fuel A (el_free_node sz) 0 k (hd b) e (s, []) = Some (True, (s', []))"
      "same_nodes (set b \<union> set (concat B)) s s'" "sel_taskData s' = sel_taskData s" "hb_epochs s' = hb_epochs s"
      and q: "if \<exists>u \<in> U. EPOCH_GE (bs_access s (sel_slot s u)) e
         then reclaimed s' = reclaimed s \<and> (\<exists>g'. sel_lib A fuel k n m U g' (b # B) s'
           \<and> (\<forall>u \<in> U. (EPOCH_GE (bs_access s (sel_slot s u)) e \<longrightarrow> g' u b) \<and> (\<forall>c \<in> set B. g u c \<longrightarrow> g' u c)))
         else reclaimed s' = reclaimed s @ map (\<lambda>x. x - sz) b \<and> sel_lib A fuel k n m U g B s'"
      by (elim exE conjE) (rule that)
    show ?thesis using r(4) by (intro exI [of _ s'] conjI q r(1,2)) (simp_all only: r(3) prod.inject)
  qed
  show "ops_retire (sel_ops A lost fuel sz) p t s = map_option (\<lambda>(ok, bt, w). sel_set_batch t bt (fst w))
        (bsmr_retire (lbs_retire_batch fuel A (el_free_node sz) 0) k (p + sz) 0 (hos_batch (sel_taskData s t)) (of_nat m) (s, []))"
    if "p \<noteq> nullptr"
    using that I(7,8)
    by (simp add: sel_ops_def sel_retire_def lbs_retire_def option.map_comp) (auto intro!: option.map_cong)
next
  show "sel_lib A fuel k n m {} g B s \<Longrightarrow> B = []" for g B s by (erule sel_libE) (rule lfs_idle)
  show "same_nodes {} s (sel_set_batch t bt s) \<and> reclaimed (sel_set_batch t bt s) = reclaimed s
      \<and> (\<lambda>t'. hos_batch (sel_taskData (sel_set_batch t bt s) t')) = (\<lambda>t'. hos_batch (sel_taskData s t'))(t := bt)
      \<and> sel_slot (sel_set_batch t bt s) = sel_slot s \<and> hb_epochs (sel_set_batch t bt s) = hb_epochs s"
    for s t bt by (auto simp: same_nodes_def sel_set_task_fields)
  show "smr_kept s' = smr_kept s \<Longrightarrow> (\<lambda>t. hos_batch (sel_taskData s' t)) = (\<lambda>t. hos_batch (sel_taskData s t))"
    "smr_kept s' = smr_kept s \<Longrightarrow> sel_slot s' = sel_slot s" for s' s :: hysel
    using sel_kept [of s' s] by simp_all
  show "(\<lambda>u. hos_batch (sel_taskData (bs_set_access t v s) u)) = (\<lambda>u. hos_batch (sel_taskData s u))"
    "sel_slot (bs_set_access t v s) = sel_slot s" for t v s
    by (simp_all add: bs_set_access_def)
qed simp_all

lemma sel_new_inv:
  assumes A: "lf_words A" and n: "0 < n" "n < 2 ^ 31" "0 < slots" and fuel: "2 ^ el_slots n slots \<le> fuel"
  shows "sel_t.hy.inv n sz A fuel (el_slots n slots) (el_batch n slots) hy_idle (\<lambda>_ _. False) [] (\<lambda>_. []) 0
      (sel_new A n epochFreq slots collect cnt mem nx lk rf gl0 ac0 hd0 ct0 td)"
proof -
  let ?s = "sel_new A n epochFreq slots collect cnt mem nx lk rf gl0 ac0 hd0 ct0 td"
  let ?k = "el_slots n slots" let ?m = "el_batch n slots"
  note B = el_slots_bounds [OF n]
  have fld: "sel_SMR_ORDER ?s = ?k" "task_num ?s = n" "reclaimed ?s = []" "sel_SMR_BATCH ?s = of_nat ?m"
    "lbs_head ?s = (\<lambda>i. if i < 2 ^ ?k then 0 else hd0 i)" "bs_access ?s = (\<lambda>i. if i < 2 ^ ?k then 0 else ac0 i)"
    "bs_global ?s = 0"
    "sel_taskData ?s = (\<lambda>i. if i < n
        then (td i)\<lparr>hos_counter := 0, hos_enter_num := i AND (2 ^ ?k - 1), hos_batch := bsmr_batch_init (hos_batch (td i))\<rparr>
        else td i)"
    by (simp_all add: sel_new_def lbs_init_def bs_set_global_def own_alone lbs_init_from_run [OF A] base_new_def base.defs Let_def
        atLeast0LessThan el_slots_def el_batch_def cong: if_cong)
  have num: "i AND (2 ^ ?k - 1) = i mod 2 ^ ?k" for i :: nat
    by (metis mask_eq_exp_minus_1 take_bit_eq_mask take_bit_eq_mod)
  have slot: "sel_slot ?s t < 2 ^ ?k" if "t < n" for t using that num [of t] by (simp add: fld)
  have "lfs_ghost ?k n (sel_slot ?s) {} (\<lambda>_. []) [] (\<lambda>_. 0) (lbs_view ?s)"
    unfolding lfs_ghost_def using B slot by (simp add: fld lfs_mk_0)
  then have "lfs_inv ?k n (sel_slot ?s) {} (\<lambda>_. []) [] (\<lambda>_. 0) (lbs_view ?s)"
    by (simp add: lfs_inv_def smr_ginv_def)
  then have lib: "sel_lib A fuel ?k n ?m {} (\<lambda>_ _. False) [] ?s"
    unfolding sel_lib_def sel_fits_def using A B fuel
    by (intro conjI exI [of _ "\<lambda>_. []"] exI [of _ "\<lambda>_. 0"]) (simp_all add: fld)
  moreover have "sel_t.epochs ?k 0 ?s" by (simp add: sel_t.epochs_def fld)
  ultimately show ?thesis
    by (intro sel_t.hy.init conjI fld(3))
      (use B in \<open>simp_all add: fld sel_t.Open_def open_ok_def bsmr_batch_init_def smr_batch.defs\<close>)
qed

section \<open>Safety, progress and robustness\<close>

text \<open>GCC on x86-64, and two threads that share one slot; a batch has two objects.\<close>

abbreviation sel_x86 :: sel_atomics where
  "sel_x86 \<equiv> gcc_atomics False 128 (\<lambda>w. True)"

abbreviation sel_two :: hysel where
  "sel_two \<equiv> sel_new sel_x86 2 1 1 True False (\<lambda>_. 0) (\<lambda>_. 0) (\<lambda>_. 0) (\<lambda>_. 0) 0 (\<lambda>_. 0) (\<lambda>_. 0) (\<lambda>_. 0) hos_td0"

text \<open>C7: No use after free.  If thread \<open>u\<close> reads any link after an object was allocated, has not
  started another operation since (which may give it another slot, with an older epoch), and is inside
  when the object is retired, the object is not reclaimed until \<open>u\<close> has ended that operation; and
  every operation of the history returns.\<close>

theorem sel_protects:
  assumes "lf_words A" "0 < n" "n < 2 ^ 31" "0 < slots" "2 ^ el_slots n slots \<le> fuel"
    and "0 < epochFreq * int n" "epochFreq * int n < 2 ^ 31"
    and "sel_lawful A lost fuel sz ((es1 @ HyAlloc p t # es2 @ HyRead a u # es3) @ HyRetire p v # es')
      (sel_new A n epochFreq slots collect cnt mem nx lk rf gl0 ac0 hd0 ct0 td)"
    and "length es1 + length es2 + length es3 + length es' + 3 < fuel" "length es1 + length es2 + length es3 + length es' + 3 < 2 ^ 63"
    and "\<forall>v. HyRetire p v \<notin> set (es2 @ es3)" "HyStart u \<notin> set es3"
    and "u \<in> hu_inside (hy_after False (es1 @ HyAlloc p t # es2 @ HyRead a u # es3))" "HyEnd u \<notin> set es'"
  shows "\<exists>s s' ps. sel_run A lost fuel sz (es1 @ HyAlloc p t # es2 @ HyRead a u # es3)
        (sel_new A n epochFreq slots collect cnt mem nx lk rf gl0 ac0 hd0 ct0 td) = Some s
     \<and> sel_run A lost fuel sz (HyRetire p v # es') s = Some s'
     \<and> reclaimed s' = reclaimed s @ ps \<and> p \<notin> set ps"
  by (rule sel_t.hy.protects_read [OF sel_new_inv [OF assms(1-5)] assms(8) _ _ hy_looks_read [OF assms(12)] assms(13,14)])
    (use assms(9-11) in simp_all)

text \<open>Thread \<open>0\<close> reads after the object is born and stays inside while thread \<open>1\<close> retires a batch.\<close>

theorem sel_protects_witness:
  "\<exists>s s' ps. sel_run sel_x86 (\<lambda>w. False) 8 8 ([HyStart 0] @ HyAlloc 16 1 # [] @ HyRead 5 0 # [HyAlloc 32 1]) sel_two = Some s
     \<and> sel_run sel_x86 (\<lambda>w. False) 8 8 (HyRetire 16 1 # [HyRetire 32 1]) s = Some s'
     \<and> reclaimed s' = reclaimed s @ ps \<and> (16 :: ptr) \<notin> set ps"
proof (rule sel_protects)
  show "lf_words sel_x86" by (rule gcc.lf_words_axioms)
  show "2 ^ el_slots 2 1 \<le> (8 :: nat)" by code_simp
  show "sel_lawful sel_x86 (\<lambda>w. False) 8 8 (([HyStart 0] @ HyAlloc 16 1 # [] @ HyRead 5 0 # [HyAlloc 32 1])
      @ HyRetire 16 1 # [HyRetire 32 1]) sel_two"
    by code_simp
qed (simp_all add: hy_idle_def)

text \<open>C8: Robustness.  A thread that stays inside without reading does not hold back the objects born
  after the epoch of its slot: if every slot with a thread inside has published an epoch below the
  birth epochs of a batch, the \<open>retire\<close> that fills the batch reclaims all of it at once.\<close>

theorem sel_robust:
  assumes "lf_words A" "0 < n" "n < 2 ^ 31" "0 < slots" "2 ^ el_slots n slots \<le> fuel"
    and "0 < epochFreq * int n" "epochFreq * int n < 2 ^ 31"
    and "sel_lawful A lost fuel sz (es @ [HyRetire p t]) (sel_new A n epochFreq slots collect cnt mem nx lk rf gl0 ac0 hd0 ct0 td)"
    and "length es + 1 < fuel" "length es < 2 ^ 63"
    and "sel_run A lost fuel sz es (sel_new A n epochFreq slots collect cnt mem nx lk rf gl0 ac0 hd0 ct0 td) = Some s"
    and "batch_counter (hos_batch (sel_taskData s t)) + 1 = of_nat (el_batch n slots)"
    and "\<forall>u \<in> hu_inside (hy_after False es). bs_access s (hos_enter_num (sel_taskData s u))
           < bsmr_min (hos_batch (sel_taskData s t)) (bsmr_birth_epoch s (p + sz))"
  shows "\<exists>s' ps. sel_run A lost fuel sz [HyRetire p t] s = Some s' \<and> reclaimed s' = reclaimed s @ ps
     \<and> p \<in> set ps \<and> length ps = el_batch n slots"
  using sel_t.robust [OF sel_new_inv [OF assms(1-5)] assms(8,9) _ assms(11) assms(12)] assms(10,13)
  by (simp add: bsmr_birth_epoch_def)

text \<open>One thread.  It is inside and has never read; its two objects are born in the epochs 1 and 2.\<close>

abbreviation sel_one :: hysel where
  "sel_one \<equiv> sel_new sel_x86 1 1 1 True False (\<lambda>_. 0) (\<lambda>_. 0) (\<lambda>_. 0) (\<lambda>_. 0) 0 (\<lambda>_. 0) (\<lambda>_. 0) (\<lambda>_. 0) hos_td0"

lemma sel_one_full:
  "(case sel_run sel_x86 (\<lambda>w. False) 8 8 [HyStart 0, HyAlloc 8 0, HyAlloc 24 0, HyRetire 8 0] sel_one of None \<Rightarrow> False
    | Some s \<Rightarrow> batch_counter (hos_batch (sel_taskData s 0)) + 1 = of_nat (el_batch 1 1)
        \<and> bs_access s (hos_enter_num (sel_taskData s 0)) < bsmr_min (hos_batch (sel_taskData s 0)) (bsmr_birth_epoch s (24 + 8)))"
  by code_simp

theorem sel_robust_witness:
  "\<exists>s s' ps. sel_run sel_x86 (\<lambda>w. False) 8 8 [HyStart 0, HyAlloc 8 0, HyAlloc 24 0, HyRetire 8 0] sel_one = Some s
    \<and> sel_run sel_x86 (\<lambda>w. False) 8 8 [HyRetire 24 0] s = Some s' \<and> reclaimed s' = reclaimed s @ ps
    \<and> (24 :: ptr) \<in> set ps \<and> length ps = el_batch 1 1"
proof -
  let ?es = "[HyStart 0, HyAlloc 8 0, HyAlloc 24 0, HyRetire 8 0]"
  obtain s where s: "sel_run sel_x86 (\<lambda>w. False) 8 8 ?es sel_one = Some s"
    "batch_counter (hos_batch (sel_taskData s 0)) + 1 = of_nat (el_batch 1 1)"
    "bs_access s (hos_enter_num (sel_taskData s 0)) < bsmr_min (hos_batch (sel_taskData s 0)) (bsmr_birth_epoch s (24 + 8))"
    using sel_one_full by (auto split: option.splits)
  have law: "sel_lawful sel_x86 (\<lambda>w. False) 8 8 (?es @ [HyRetire 24 0]) sel_one" by code_simp
  have f: "2 ^ el_slots 1 1 \<le> (8 :: nat)" by code_simp
  have "\<exists>s' ps. sel_run sel_x86 (\<lambda>w. False) 8 8 [HyRetire 24 0] s = Some s' \<and> reclaimed s' = reclaimed s @ ps
    \<and> 24 \<in> set ps \<and> length ps = el_batch 1 1"
    by (rule sel_robust [OF gcc.lf_words_axioms _ _ _ f _ _ law _ _ s(1,2)]) (use s(3) in \<open>simp_all add: hy_idle_def\<close>)
  with s(1) show ?thesis by blast
qed

end
