(* ===== verification/Hr.thy ===== *)
theory Hr
  imports One_Slot
begin

text \<open>
  \<open>trackers/HRTracker.hpp\<close>: every thread has \<open>hr_num\<close> slots, each with the list of the nodes the
  thread has to visit and the epoch it has published.  A \<open>read\<close> publishes the current epoch; a thread
  collects the objects it retires in a batch and hands the batch to every open slot whose epoch is
  not before the birth of its oldest object.  The batch is reclaimed when all these slots have been
  read again or cleared.

  \<open>HRInfo\<close> is the node of \<open>Smr\<close>: \<open>next\<close>, \<open>slot\<close> and \<open>birth_epoch\<close> are one word (\<open>smr_next\<close>), \<open>batch_link\<close>
  is \<open>smr_link\<close>, \<open>refs\<close> and \<open>batch_next\<close> are one word (\<open>smr_refs\<close>); the node follows the object, whose size is
  \<open>sz\<close>.  The array \<open>slots\<close> is memory (\<open>hr_mem\<close>) at the address \<open>hr_slots\<close>, since \<open>try_retire\<close> keeps
  pointers into it.  Loops over lists in memory and retry loops have fuel.
\<close>

record hr_batch =
  hb_min_epoch :: u64
  hb_first :: u64
  hb_last :: u64
  hb_counter :: u64
  hb_list_count :: u64
  hb_list :: u64

record hr = smr +
  hr_num :: nat
  hr_epochFreq :: int
  hr_freq :: int
  hr_collect :: bool
  hr_slots :: ptr
  hr_mem :: "ptr \<Rightarrow> u64"
  hr_batches :: "nat \<Rightarrow> hr_batch"
  hr_alloc_counters :: "nat \<Rightarrow> u64"
  hr_epoch :: u64

abbreviation HR_INVPTR :: u64 where "HR_INVPTR \<equiv> - 1"
abbreviation MAX_HR :: nat where "MAX_HR \<equiv> 16"
abbreviation MAX_HRC :: u64 where "MAX_HRC \<equiv> 12"

section \<open>The slots\<close>

text \<open>\<open>&slots[i].first[j]\<close>, and \<open>&slots[i].epoch[j]\<close>, which is \<open>MAX_HR\<close> words behind it.\<close>

definition hr_first_addr :: "ptr \<Rightarrow> nat \<times> nat \<Rightarrow> ptr" where
  "hr_first_addr slots l = slots + of_nat (16 * MAX_HR * fst l) + of_nat (8 * snd l)"

definition hr_epoch_addr :: "ptr \<Rightarrow> ptr" where
  "hr_epoch_addr slot_first = slot_first + of_nat (8 * MAX_HR)"

definition hr_put :: "ptr \<Rightarrow> u64 \<Rightarrow> 'a hr_scheme \<Rightarrow> 'a hr_scheme" where
  "hr_put a v s = s\<lparr>hr_mem := (hr_mem s)(a := v)\<rparr>"

definition hr_set_batch :: "nat \<Rightarrow> (hr_batch \<Rightarrow> hr_batch) \<Rightarrow> hr \<Rightarrow> hr" where
  "hr_set_batch tid f s = s\<lparr>hr_batches := (hr_batches s)(tid := f (hr_batches s tid))\<rparr>"

abbreviation hr_first :: "hr \<Rightarrow> nat \<times> nat \<Rightarrow> ptr" where
  "hr_first s \<equiv> hr_first_addr (hr_slots s)"

fun hr_init_slots :: "(nat \<times> nat) list \<Rightarrow> hr \<Rightarrow> hr" where
  "hr_init_slots [] s = s"
| "hr_init_slots (l # ls) s =
     (let s = hr_put (hr_first s l) HR_INVPTR s;
          s = hr_put (hr_epoch_addr (hr_first s l)) 0 s
      in hr_init_slots ls s)"

definition hr_locations :: "nat \<Rightarrow> nat \<Rightarrow> (nat \<times> nat) list" where
  "hr_locations n k = List.product [0..<n] [0..<k]"

definition hr_new :: "nat \<Rightarrow> nat \<Rightarrow> int \<Rightarrow> int \<Rightarrow> bool \<Rightarrow> bool \<Rightarrow> (ptr \<Rightarrow> ptr) \<Rightarrow> (ptr \<Rightarrow> u64) \<Rightarrow> (ptr \<Rightarrow> u64) \<Rightarrow> (ptr \<Rightarrow> u64)
    \<Rightarrow> ptr \<Rightarrow> (ptr \<Rightarrow> u64) \<Rightarrow> (nat \<Rightarrow> hr_batch) \<Rightarrow> hr" where
  "hr_new n k epochFreq emptyFreq collect cnt mem nx lk rf slots mem0 bt =
     hr_init_slots (hr_locations n k)
       (base.extend (base_new n cnt mem)
          \<lparr>smr_next = nx, smr_link = lk, smr_refs = rf, hr_num = k, hr_epochFreq = epochFreq * int n,
           hr_freq = emptyFreq, hr_collect = collect, hr_slots = slots, hr_mem = mem0,
           hr_batches = (\<lambda>i. if i < n
              then (bt i)\<lparr>hb_first := nullptr, hb_counter := 0, hb_list_count := 0, hb_list := nullptr\<rparr>
              else bt i),
           hr_alloc_counters = (\<lambda>_. 0), hr_epoch = 1\<rparr>)"

section \<open>Allocation\<close>

definition hr_getEpoch :: "hr world \<Rightarrow> u64 \<times> hr world" where
  "hr_getEpoch w = load hr_epoch w"

definition hr_alloc :: "u64 \<Rightarrow> nat \<Rightarrow> ptr \<Rightarrow> hr world \<Rightarrow> ptr \<times> hr world" where
  "hr_alloc sz tid blk w =
     (let w = own (\<lambda>s. s\<lparr>hr_alloc_counters :=
                (hr_alloc_counters s)(tid := hr_alloc_counters s tid + 1)\<rparr>) w;
          w = (if hr_alloc_counters (fst w) tid mod of_int (hr_epochFreq (fst w)) = 0
               then bump (\<lambda>s. s\<lparr>hr_epoch := hr_epoch s + 1\<rparr>) w else w);
          info = blk + sz;
          (e, w) = hr_getEpoch w
      in (blk, own (smr_set_next info e) w))"

section \<open>Reclaiming\<close>

text \<open>The body of the inner loop of \<open>free_list\<close>; the two loops are those of \<open>__free\<close> in
  \<open>lfsmr_common.h\<close>.\<close>

definition hr_free_node :: "u64 \<Rightarrow> ptr \<Rightarrow> hr \<Rightarrow> hr" where
  "hr_free_node sz start s = dec_retired 0 (plain_reclaim (start - sz) s)"

definition hr_free_list :: "nat \<Rightarrow> u64 \<Rightarrow> u64 \<Rightarrow> hr world \<Rightarrow> hr world option" where
  "hr_free_list fuel sz list w = smr_free_list fuel list (hr_free_node sz) 0 w"

text \<open>\<open>traverse\<close> with the list it extends.\<close>

fun hr_traverse :: "nat \<Rightarrow> u64 \<Rightarrow> u64 \<Rightarrow> hr world \<Rightarrow> (u64 \<times> hr world) option" where
  "hr_traverse 0 list next w = None"
| "hr_traverse (Suc fuel) list next w =
     (let cur = next in
      if cur = nullptr then Some (list, w)
      else let (next, w) = load (\<lambda>s. smr_next s cur) w;
               refs = smr_link (fst w) cur;
               (old, w) = smr_fetch_add refs (- 1) w
           in if old = 1
              then let w = store (smr_set_next refs list) w in hr_traverse fuel refs next w
              else hr_traverse fuel list next w)"

definition hr_traverse_cache :: "nat \<Rightarrow> u64 \<Rightarrow> nat \<Rightarrow> u64 \<Rightarrow> hr world \<Rightarrow> hr world option" where
  "hr_traverse_cache fuel sz tid next w =
     (if next \<noteq> nullptr
      then case (if hb_list_count (hr_batches (fst w) tid) = MAX_HRC
                 then map_option (own (hr_set_batch tid (\<lambda>b. b\<lparr>hb_list := nullptr, hb_list_count := 0\<rparr>)))
                        (hr_free_list fuel sz (hb_list (hr_batches (fst w) tid)) w)
                 else Some w) of None \<Rightarrow> None
         | Some w \<Rightarrow>
             let w = own (hr_set_batch tid (\<lambda>b. b\<lparr>hb_list_count := hb_list_count b + 1\<rparr>)) w
             in map_option (\<lambda>(list, w). own (hr_set_batch tid (hb_list_update (\<lambda>_. list))) w)
                  (hr_traverse fuel (hb_list (hr_batches (fst w) tid)) next w)
      else Some w)"

section \<open>Reading\<close>

definition hr_exchange :: "ptr \<Rightarrow> u64 \<Rightarrow> hr world \<Rightarrow> u64 \<times> hr world" where
  "hr_exchange a v w = rmw (\<lambda>s. (hr_mem s a, hr_put a v s)) w"

definition hr_do_update :: "nat \<Rightarrow> u64 \<Rightarrow> u64 \<Rightarrow> nat \<Rightarrow> nat \<Rightarrow> hr world \<Rightarrow> (u64 \<times> hr world) option" where
  "hr_do_update fuel sz curr_epoch index tid w =
     (let a = hr_first (fst w) (tid, index);
          (v, w) = load (\<lambda>s. hr_mem s a) w
      in case (if v \<noteq> nullptr
               then let (first, w) = hr_exchange a HR_INVPTR w
                    in case (if first \<noteq> HR_INVPTR then hr_traverse_cache fuel sz tid first w else Some w) of
                         None \<Rightarrow> None
                       | Some w \<Rightarrow> Some (hr_getEpoch (store (hr_put a nullptr) w))
               else Some (curr_epoch, w)) of None \<Rightarrow> None
         | Some (curr_epoch, w) \<Rightarrow> Some (curr_epoch, store (hr_put (hr_epoch_addr a) curr_epoch) w))"

fun hr_read_loop :: "nat \<Rightarrow> nat \<Rightarrow> u64 \<Rightarrow> ptr \<Rightarrow> nat \<Rightarrow> nat \<Rightarrow> u64 \<Rightarrow> hr world \<Rightarrow> (ptr \<times> hr world) option" where
  "hr_read_loop 0 fuel sz obj index tid prev_epoch w = None"
| "hr_read_loop (Suc rounds) fuel sz obj index tid prev_epoch w =
     (let (p, w) = load (\<lambda>s. cells s obj) w;
          (curr_epoch, w) = hr_getEpoch w
      in if curr_epoch = prev_epoch then Some (p, w)
         else case hr_do_update fuel sz curr_epoch index tid w of None \<Rightarrow> None
              | Some (prev_epoch, w) \<Rightarrow> hr_read_loop rounds fuel sz obj index tid prev_epoch w)"

definition hr_read :: "nat \<Rightarrow> nat \<Rightarrow> u64 \<Rightarrow> ptr \<Rightarrow> nat \<Rightarrow> nat \<Rightarrow> ptr \<Rightarrow> hr world \<Rightarrow> (ptr \<times> hr world) option" where
  "hr_read rounds fuel sz obj index tid node w =
     (let a = hr_epoch_addr (hr_first (fst w) (tid, index));
          (prev_epoch, w) = load (\<lambda>s. hr_mem s a) w
      in hr_read_loop rounds fuel sz obj index tid prev_epoch w)"

fun hr_reserve_loop :: "nat \<Rightarrow> nat \<Rightarrow> u64 \<Rightarrow> nat \<Rightarrow> nat \<Rightarrow> u64 \<Rightarrow> hr world \<Rightarrow> hr world option" where
  "hr_reserve_loop 0 fuel sz index tid prev_epoch w = None"
| "hr_reserve_loop (Suc rounds) fuel sz index tid prev_epoch w =
     (let (curr_epoch, w) = hr_getEpoch w
      in if curr_epoch = prev_epoch then Some w
         else case hr_do_update fuel sz curr_epoch index tid w of None \<Rightarrow> None
              | Some (prev_epoch, w) \<Rightarrow> hr_reserve_loop rounds fuel sz index tid prev_epoch w)"

definition hr_reserve_slot :: "nat \<Rightarrow> nat \<Rightarrow> u64 \<Rightarrow> ptr \<Rightarrow> nat \<Rightarrow> nat \<Rightarrow> ptr \<Rightarrow> hr world \<Rightarrow> hr world option" where
  "hr_reserve_slot rounds fuel sz obj index tid node w =
     (let a = hr_epoch_addr (hr_first (fst w) (tid, index));
          (prev_epoch, w) = load (\<lambda>s. hr_mem s a) w
      in hr_reserve_loop rounds fuel sz index tid prev_epoch w)"

text \<open>\<open>clear_all\<close>: the local array \<open>first\<close> is the list of what the exchanges return.\<close>

fun hr_close_slots :: "ptr list \<Rightarrow> hr world \<Rightarrow> u64 list \<times> hr world" where
  "hr_close_slots [] w = ([], w)"
| "hr_close_slots (a # as) w =
     (let (v, w) = hr_exchange a HR_INVPTR w; (vs, w) = hr_close_slots as w in (v # vs, w))"

fun hr_traverse_all :: "nat \<Rightarrow> nat \<Rightarrow> u64 list \<Rightarrow> hr world \<Rightarrow> hr world option" where
  "hr_traverse_all fuel tid [] w = Some w"
| "hr_traverse_all fuel tid (v # vs) w =
     (if v \<noteq> HR_INVPTR
      then case hr_traverse fuel (hb_list (hr_batches (fst w) tid)) v w of None \<Rightarrow> None
           | Some (list, w) \<Rightarrow>
               hr_traverse_all fuel tid vs (own (hr_set_batch tid (hb_list_update (\<lambda>_. list))) w)
      else hr_traverse_all fuel tid vs w)"

definition hr_clear_all :: "nat \<Rightarrow> u64 \<Rightarrow> nat \<Rightarrow> hr world \<Rightarrow> hr world option" where
  "hr_clear_all fuel sz tid w =
     (let (first, w) = hr_close_slots (map (\<lambda>i. hr_first (fst w) (tid, i)) [0..<hr_num (fst w)]) w
      in case hr_traverse_all fuel tid first w of None \<Rightarrow> None
         | Some w \<Rightarrow> map_option (own (hr_set_batch tid (\<lambda>b. b\<lparr>hb_list := nullptr, hb_list_count := 0\<rparr>)))
                      (hr_free_list fuel sz (hb_list (hr_batches (fst w) tid)) w))"

section \<open>Retiring\<close>

text \<open>The scan of \<open>try_retire\<close>: every slot that has to see the batch gets a node of it; \<open>None\<close> is the
  early return when only the last node is left.\<close>

fun hr_find_slots :: "ptr list \<Rightarrow> u64 \<Rightarrow> u64 \<Rightarrow> u64 \<Rightarrow> hr world \<Rightarrow> u64 option \<times> hr world" where
  "hr_find_slots [] min_epoch refs rear w = (Some rear, w)"
| "hr_find_slots (a # as) min_epoch refs rear w =
     (let (first, w) = load (\<lambda>s. hr_mem s a) w
      in if first = HR_INVPTR then hr_find_slots as min_epoch refs rear w
         else let (epoch, w) = load (\<lambda>s. hr_mem s (hr_epoch_addr a)) w
         in if epoch < min_epoch then hr_find_slots as min_epoch refs rear w
         else if rear = refs then (None, w)
         else let w = own (smr_set_next rear a) w
              in hr_find_slots as min_epoch refs (smr_refs (fst w) rear) w)"

text \<open>The \<open>do\<close> loop that pushes a node onto the list of a slot; the flag says whether it did.\<close>

fun hr_push :: "nat \<Rightarrow> u64 \<Rightarrow> u64 \<Rightarrow> ptr \<Rightarrow> u64 \<Rightarrow> hr world \<Rightarrow> (bool \<times> hr world) option" where
  "hr_push 0 min_epoch cur slot_first prev w = None"
| "hr_push (Suc fuel) min_epoch cur slot_first prev w =
     (if prev = HR_INVPTR then Some (False, w)
      else let (epoch, w) = load (\<lambda>s. hr_mem s (hr_epoch_addr slot_first)) w
      in if epoch < min_epoch then Some (False, w)
      else let w = own (smr_set_next cur prev) w;
               (ok, prev, w) = cas (\<lambda>s. hr_mem s slot_first) (hr_put slot_first) prev cur w
           in if ok then Some (True, w) else hr_push fuel min_epoch cur slot_first prev w)"

fun hr_push_all :: "nat \<Rightarrow> u64 \<Rightarrow> u64 \<Rightarrow> u64 \<Rightarrow> u64 \<Rightarrow> hr world \<Rightarrow> (u64 \<times> hr world) option" where
  "hr_push_all 0 min_epoch rear cur adjs w = None"
| "hr_push_all (Suc fuel) min_epoch rear cur adjs w =
     (if cur = rear then Some (adjs, w)
      else let slot_first = smr_next (fst w) cur;
               (prev, w) = load (\<lambda>s. hr_mem s slot_first) w
           in case hr_push fuel min_epoch cur slot_first prev w of None \<Rightarrow> None
              | Some (ok, w) \<Rightarrow> hr_push_all fuel min_epoch rear (smr_refs (fst w) cur)
                                 (if ok then adjs + 1 else adjs) w)"

definition hr_try_retire :: "nat \<Rightarrow> u64 \<Rightarrow> nat \<Rightarrow> hr world \<Rightarrow> hr world option" where
  "hr_try_retire fuel sz tid w =
     (let batch = hr_batches (fst w) tid;
          cur = hb_first batch; refs = hb_last batch; min_epoch = hb_min_epoch batch;
          slots = map (hr_first (fst w)) (hr_locations (task_num (fst w)) (hr_num (fst w)));
          (found, w) = hr_find_slots slots min_epoch refs cur w
      in case found of None \<Rightarrow> Some w
         | Some rear \<Rightarrow>
             (case hr_push_all fuel min_epoch rear cur 0 w of None \<Rightarrow> None
              | Some (adjs, w) \<Rightarrow>
                  let (old, w) = smr_fetch_add refs adjs w
                  in map_option (own (hr_set_batch tid (\<lambda>b. b\<lparr>hb_first := nullptr, hb_counter := 0\<rparr>)))
                       (if old = - adjs
                        then hr_free_list fuel sz refs (store (smr_set_next refs nullptr) w)
                        else Some w)))"

definition hr_retire :: "nat \<Rightarrow> u64 \<Rightarrow> ptr \<Rightarrow> nat \<Rightarrow> hr world \<Rightarrow> hr world option" where
  "hr_retire fuel sz obj tid w =
     (if obj = nullptr then Some w
      else let node = obj + sz;
               birth = smr_next (fst w) node;
               batch = hr_batches (fst w) tid;
               w = (if hb_first batch = nullptr
                    then own (hr_set_batch tid (\<lambda>b. b\<lparr>hb_min_epoch := birth, hb_last := node\<rparr>)) w
                    else own (smr_set_link node (hb_last batch))
                           (if hb_min_epoch batch > birth
                            then own (hr_set_batch tid (hb_min_epoch_update (\<lambda>_. birth))) w else w));
               w = own (smr_set_refs node (hb_first (hr_batches (fst w) tid))) w;
               w = own (hr_set_batch tid (\<lambda>b. b\<lparr>hb_first := node, hb_counter := hb_counter b + 1\<rparr>)) w;
               batch = hr_batches (fst w) tid
           in if hr_collect (fst w) \<and> hb_counter batch mod of_int (hr_freq (fst w)) = 0
              then hr_try_retire fuel sz tid (own (smr_set_link (hb_last batch) node) w)
              else Some w)"

text \<open>\<open>free_node\<close> keeps the contract of the callback.\<close>

interpretation hr: smr_callback "hr_free_node sz" "\<lambda>n. n - sz" "\<lambda>n. True" smr_kept for sz
  by unfold_locales (simp_all add: hr_free_node_def dec_retired_def plain_reclaim_def)

end
