(* ===== verification/Hr_Inv.thy ===== *)
theory Hr_Inv
  imports Hr Hyaline_Safe
begin

text \<open>
  The state of \<open>HRTracker\<close> and what visiting the lists of slots does to it, one operation at a time.
  The slots of all threads are numbered: slot \<open>j\<close> of thread \<open>t\<close> is number \<open>t * hr_num + j\<close>.  Ghost data:
  \<open>L i\<close> lists the nodes slot \<open>i\<close> has to visit, \<open>B\<close> the batches that wait, \<open>F t\<close> the batches in the
  cache of thread \<open>t\<close>, \<open>W t\<close> the nodes in its open batch.
\<close>

section \<open>Addresses of the slots\<close>

definition hr_slot :: "nat \<Rightarrow> nat \<Rightarrow> nat \<times> nat" where
  "hr_slot k i = (i div k, i mod k)"

lemma hr_slot_number: "j < k \<Longrightarrow> hr_slot k (t * k + j) = (t, j)"
  by (simp add: hr_slot_def)

lemma hr_number_less: "t < n \<Longrightarrow> j < k \<Longrightarrow> t * k + j < n * (k :: nat)"
proof -
  assume "t < n" "j < k"
  then have "Suc t * k \<le> n * k" by (intro mult_le_mono1) simp
  with \<open>j < k\<close> show ?thesis by simp
qed

lemma hr_locations_eq: "hr_locations n k = map (hr_slot k) [0..<n * k]"
proof (induction n)
  case (Suc n)
  have parts: "[0..<Suc n * k] = [0..<n * k] @ map (\<lambda>j. n * k + j) [0..<k]"
    using upt_add_eq_append [of 0 "n * k" k] map_add_upt [of "n * k" k] by (simp add: add.commute)
  have "map (hr_slot k) (map (\<lambda>j. n * k + j) [0..<k]) = map (Pair n) [0..<k]"
    by (simp add: hr_slot_number)
  then show ?case using Suc unfolding parts by (simp add: hr_locations_def List.product_concat_map)
qed (simp add: hr_locations_def)

abbreviation hr_at :: "hr \<Rightarrow> nat \<Rightarrow> ptr" where
  "hr_at s i \<equiv> hr_first s (hr_slot (hr_num s) i)"

definition hr_head :: "hr \<Rightarrow> nat \<Rightarrow> u64" where
  "hr_head s i = hr_mem s (hr_at s i)"

definition hr_seen :: "hr \<Rightarrow> nat \<Rightarrow> u64" where
  "hr_seen s i = hr_mem s (hr_epoch_addr (hr_at s i))"

text \<open>The arrays fit into memory.\<close>

definition hr_fits :: "nat \<Rightarrow> nat \<Rightarrow> hr \<Rightarrow> bool" where
  "hr_fits n k s \<longleftrightarrow> task_num s = n \<and> hr_num s = k \<and> k \<le> MAX_HR \<and> 256 * n \<le> 2 ^ 64"

lemma hr_number_bounds:
  assumes "i < n * k" "k \<le> MAX_HR"
  shows "i div k < n" "i mod k < 16"
proof -
  have k: "0 < k" using assms(1) by (cases k) auto
  with assms(1) show "i div k < n" by (simp add: less_mult_imp_div_less)
  have "i mod k < k" using k by simp
  with assms(2) show "i mod k < 16" by simp
qed

lemma hr_addr_eq:
  "a < 2 ^ 64 \<Longrightarrow> b < 2 ^ 64 \<Longrightarrow> (p :: u64) + of_nat a = p + of_nat b \<longleftrightarrow> a = b"
  using of_nat_eq_small by simp

lemma hr_addresses:
  assumes "hr_fits n k s" "i < n * k" "j < n * k"
  shows "hr_at s i = hr_at s j \<longleftrightarrow> i = j" "hr_epoch_addr (hr_at s i) = hr_epoch_addr (hr_at s j) \<longleftrightarrow> i = j"
    "hr_at s i \<noteq> hr_epoch_addr (hr_at s j)"
proof -
  have f: "hr_num s = k" "k \<le> 16" "256 * n \<le> 2 ^ 64" using assms(1) by (auto simp: hr_fits_def)
  let ?o = "\<lambda>i. 256 * (i div k) + 8 * (i mod k)"
  have e: "hr_at s i = hr_slots s + of_nat (?o i)" for i
    by (simp add: hr_first_addr_def hr_slot_def f(1) algebra_simps)
  have e': "hr_epoch_addr (hr_at s i) = hr_slots s + of_nat (?o i + 128)" for i
    unfolding e by (simp add: hr_epoch_addr_def algebra_simps)
  have b: "?o i + 128 < 256 * n \<and> ?o i mod 256 < 128 \<and> ?o i div 256 = i div k \<and> ?o i mod 256 = 8 * (i mod k)" if "i < n * k" for i
  proof -
    note h = hr_number_bounds [OF that f(2)]
    have "256 * (i div k) + 256 \<le> 256 * n" using h(1) by simp
    with h(2) show ?thesis by auto
  qed
  note bi = b [OF assms(2)] note bj = b [OF assms(3)]
  have lt: "?o i + 128 < 2 ^ 64" "?o j + 128 < 2 ^ 64" using bi bj f(3) by linarith+
  have oo: "?o i = ?o j \<longleftrightarrow> i = j"
  proof
    assume "?o i = ?o j"
    then have "i div k = j div k" "i mod k = j mod k" using bi bj by (metis, metis mult_cancel1 zero_neq_numeral)
    then show "i = j" by (metis div_mult_mod_eq)
  qed simp
  show "hr_at s i = hr_at s j \<longleftrightarrow> i = j" unfolding e by (subst hr_addr_eq) (use lt oo in linarith)+
  show "hr_epoch_addr (hr_at s i) = hr_epoch_addr (hr_at s j) \<longleftrightarrow> i = j"
    unfolding e' by (subst hr_addr_eq) (use lt oo in linarith)+
  have "?o i \<noteq> ?o j + 128"
  proof
    assume "?o i = ?o j + 128"
    then have "?o i mod 256 = (?o j mod 256 + 128) mod 256" by (metis mod_add_left_eq)
    with bi bj show False by auto
  qed
  then show "hr_at s i \<noteq> hr_epoch_addr (hr_at s j)" unfolding e' unfolding e by (subst hr_addr_eq) (use lt in linarith)+
qed

text \<open>What writing a slot does to the others.\<close>

lemma hr_put_slot:
  assumes "hr_fits n k s" "i < n * k" "j < n * k"
  shows "hr_head (hr_put (hr_at s i) v s) j = (if j = i then v else hr_head s j)"
    "hr_seen (hr_put (hr_at s i) v s) j = hr_seen s j"
    "hr_head (hr_put (hr_epoch_addr (hr_at s i)) v s) j = hr_head s j"
    "hr_seen (hr_put (hr_epoch_addr (hr_at s i)) v s) j = (if j = i then v else hr_seen s j)"
  using hr_addresses [OF assms(1,2,3)] hr_addresses [OF assms(1,3,2)]
  by (auto simp: hr_head_def hr_seen_def hr_put_def)

section \<open>The state\<close>

text \<open>The head of a slot: closed, or the start of its list.\<close>

definition hr_slot_ok :: "(ptr \<Rightarrow> u64) \<Rightarrow> u64 \<Rightarrow> ptr list \<Rightarrow> bool" where
  "hr_slot_ok nx v xs \<longleftrightarrow> v = HR_INVPTR \<and> xs = [] \<or> v \<noteq> HR_INVPTR \<and> chain nx v xs"

abbreviation hr_bt :: "hr \<Rightarrow> nat \<Rightarrow> ptr list \<Rightarrow> smr_batch" where
  "hr_bt s t xs \<equiv> \<lparr>batch_first = hb_first (hr_batches s t), batch_last = hb_last (hr_batches s t), batch_counter = of_nat (length xs)\<rparr>"

definition hr_open :: "hr \<Rightarrow> nat \<Rightarrow> ptr list \<Rightarrow> bool" where
  "hr_open s t xs \<longleftrightarrow> open_ok s (hr_bt s t xs) (Suc (length xs)) xs"

abbreviation hr_list :: "hr \<Rightarrow> nat \<Rightarrow> u64" where
  "hr_list s t \<equiv> hb_list (hr_batches s t)"

text \<open>The nodes that wait: open batches, caches, batches in the slots.\<close>

abbreviation hr_own :: "(nat \<Rightarrow> ptr list list) \<Rightarrow> (nat \<Rightarrow> ptr list) \<Rightarrow> nat \<Rightarrow> ptr list" where
  "hr_own F W t \<equiv> W t @ concat (F t)"

definition hr_node :: "ptr \<Rightarrow> bool" where
  "hr_node x \<longleftrightarrow> x \<noteq> 0 \<and> x \<noteq> HR_INVPTR"

definition hr_state :: "nat \<Rightarrow> nat \<Rightarrow> (nat \<Rightarrow> u64) \<Rightarrow> (nat \<Rightarrow> ptr list) \<Rightarrow> ptr list list \<Rightarrow> (nat \<Rightarrow> ptr list list)
    \<Rightarrow> (nat \<Rightarrow> ptr list) \<Rightarrow> hr \<Rightarrow> bool" where
  "hr_state n k h L B F W s \<longleftrightarrow> hr_fits n k s \<and> smr_inv (n * k) L B [] 0 s
     \<and> (\<forall>i < n * k. hr_slot_ok (smr_next s) (h i) (L i))
     \<and> (\<forall>t < n. pend s (hr_list s t) (F t) \<and> hr_open s t (W t))
     \<and> distinct (pool n (hr_own F W) B) \<and> (\<forall>x \<in> set (pool n (hr_own F W) B). hr_node x)"

lemma hr_stateD:
  assumes "hr_state n k h L B F W s"
  shows "hr_fits n k s" "smr_inv (n * k) L B [] 0 s" "i < n * k \<Longrightarrow> hr_slot_ok (smr_next s) (h i) (L i)"
    "t < n \<Longrightarrow> pend s (hr_list s t) (F t)" "t < n \<Longrightarrow> hr_open s t (W t)"
    "distinct (pool n (hr_own F W) B)" "\<forall>x \<in> set (pool n (hr_own F W) B). hr_node x" "n * k < 2 ^ 64"
proof -
  note S = assms [unfolded hr_state_def]
  show fits: "hr_fits n k s" using S by blast
  show "smr_inv (n * k) L B [] 0 s" "i < n * k \<Longrightarrow> hr_slot_ok (smr_next s) (h i) (L i)"
    "t < n \<Longrightarrow> pend s (hr_list s t) (F t)" "t < n \<Longrightarrow> hr_open s t (W t)"
    "distinct (pool n (hr_own F W) B)" "\<forall>x \<in> set (pool n (hr_own F W) B). hr_node x"
    using S by blast+
  have a: "n * k \<le> n * 16" "256 * n \<le> 2 ^ 64" using fits unfolding hr_fits_def by (simp_all add: mult_le_mono2)
  show "n * k < 2 ^ 64" by (rule le_less_trans [OF a(1)]) (use a(2) in simp)
qed

lemma hr_stateI:
  assumes "hr_fits n k s" "smr_inv (n * k) L B [] 0 s" "\<And>i. i < n * k \<Longrightarrow> hr_slot_ok (smr_next s) (h i) (L i)"
    "\<And>t. t < n \<Longrightarrow> pend s (hr_list s t) (F t)" "\<And>t. t < n \<Longrightarrow> hr_open s t (W t)"
    "distinct (pool n (hr_own F W) B)" "\<forall>x \<in> set (pool n (hr_own F W) B). hr_node x"
  shows "hr_state n k h L B F W s"
  using assms unfolding hr_state_def by blast

text \<open>Everything but the nodes, the slots, the caches and what has been given back.\<close>

definition hr_view :: "hr \<Rightarrow> _" where
  "hr_view s = (task_num s, hr_num s, hr_slots s, hr_epoch s, hr_collect s, hr_freq s,
     \<lambda>t. (hb_first (hr_batches s t), hb_last (hr_batches s t), hb_min_epoch (hr_batches s t), hb_counter (hr_batches s t)))"

lemma hr_viewD:
  assumes "hr_view s' = hr_view s"
  shows "task_num s' = task_num s" "hr_num s' = hr_num s" "hr_slots s' = hr_slots s"
    "hr_epoch s' = hr_epoch s" "hr_collect s' = hr_collect s" "hr_freq s' = hr_freq s"
    "hb_first (hr_batches s' t) = hb_first (hr_batches s t)" "hb_last (hr_batches s' t) = hb_last (hr_batches s t)"
    "hb_min_epoch (hr_batches s' t) = hb_min_epoch (hr_batches s t)" "hb_counter (hr_batches s' t) = hb_counter (hr_batches s t)"
    "hr_mem s' = hr_mem s \<Longrightarrow> hr_head s' = hr_head s \<and> hr_seen s' = hr_seen s" "hr_fits n k s' = hr_fits n k s"
proof -
  note v = assms [unfolded hr_view_def, simplified]
  show "task_num s' = task_num s" "hr_num s' = hr_num s" "hr_slots s' = hr_slots s"
    "hr_epoch s' = hr_epoch s" "hr_collect s' = hr_collect s" "hr_freq s' = hr_freq s" using v by blast+
  show "hb_first (hr_batches s' t) = hb_first (hr_batches s t)" "hb_last (hr_batches s' t) = hb_last (hr_batches s t)"
    "hb_min_epoch (hr_batches s' t) = hb_min_epoch (hr_batches s t)" "hb_counter (hr_batches s' t) = hb_counter (hr_batches s t)"
    using v by (auto simp: fun_eq_iff)
  show "hr_mem s' = hr_mem s \<Longrightarrow> hr_head s' = hr_head s \<and> hr_seen s' = hr_seen s" "hr_fits n k s' = hr_fits n k s"
    using v by (auto simp: hr_head_def hr_seen_def hr_fits_def fun_eq_iff)
qed

lemma hr_open_same:
  "same_nodes X s s' \<Longrightarrow> X \<inter> set xs = {} \<Longrightarrow> hb_first (hr_batches s' t) = hb_first (hr_batches s t) \<Longrightarrow>
     hb_last (hr_batches s' t) = hb_last (hr_batches s t) \<Longrightarrow> hr_open s t xs \<Longrightarrow> hr_open s' t xs"
  unfolding hr_open_def using open_ok_same [of X s s' xs "hr_bt s t xs" "Suc (length xs)"] by simp

text \<open>The parts of the pool.\<close>

lemma hr_pool_mem:
  "x \<in> set (pool n (hr_own F W) B) \<longleftrightarrow> (\<exists>t<n. x \<in> set (W t)) \<or> (\<exists>t<n. x \<in> set (concat (F t))) \<or> x \<in> set (concat B)"
  unfolding set_pool set_append by blast

lemma hr_pool_sub:
  "t < n \<Longrightarrow> set (W t) \<subseteq> set (pool n (hr_own F W) B)" "t < n \<Longrightarrow> set (concat (F t)) \<subseteq> set (pool n (hr_own F W) B)"
  "set (concat B) \<subseteq> set (pool n (hr_own F W) B)"
  unfolding subset_iff set_pool set_append by blast+

lemma hr_pool_parts:
  assumes d: "distinct (pool n (hr_own F W) B)" and t: "t < n"
  shows "distinct (W t)" "distinct (concat (F t))" "set (W t) \<inter> set (concat (F t)) = {}"
    "set (W t) \<inter> set (concat B) = {}" "set (concat (F t)) \<inter> set (concat B) = {}"
    "u < n \<Longrightarrow> u \<noteq> t \<Longrightarrow> set (W t) \<inter> set (W u) = {}" "u < n \<Longrightarrow> u \<noteq> t \<Longrightarrow> set (W t) \<inter> set (concat (F u)) = {}"
    "u < n \<Longrightarrow> u \<noteq> t \<Longrightarrow> set (concat (F t)) \<inter> set (concat (F u)) = {}"
proof -
  have 1: "distinct (hr_own F W t)" by (rule pool_open(1) [OF d t])
  then show "distinct (W t)" "distinct (concat (F t))" "set (W t) \<inter> set (concat (F t)) = {}"
    unfolding distinct_append by blast+
  show "set (W t) \<inter> set (concat B) = {}" "set (concat (F t)) \<inter> set (concat B) = {}"
    using pool_disjoint [OF d t] unfolding set_append by blast+
  show "u < n \<Longrightarrow> u \<noteq> t \<Longrightarrow> set (W t) \<inter> set (W u) = {}" "u < n \<Longrightarrow> u \<noteq> t \<Longrightarrow> set (W t) \<inter> set (concat (F u)) = {}"
    "u < n \<Longrightarrow> u \<noteq> t \<Longrightarrow> set (concat (F t)) \<inter> set (concat (F u)) = {}"
    using pool_open(2) [OF d t, of u] unfolding set_append by blast+
qed

lemma mset_shift: "a + b = p + c \<Longrightarrow> c + z = b + y \<Longrightarrow> a + z = p + (y :: 'a multiset)"
proof -
  assume 1: "a + b = p + c" and 2: "c + z = b + y"
  have "a + z + b = p + (c + z)" using 1 by (metis union_assoc union_commute)
  also have "\<dots> = p + y + b" using 2 by (simp add: ac_simps)
  finally show ?thesis by simp
qed

text \<open>The pool after a step of thread \<open>t\<close>.\<close>

lemma hr_pool_step:
  assumes d: "distinct (pool n (hr_own F W) B)" and t: "t < n"
    and ms: "mset (W' t) + mset (concat (F' t)) + mset (concat B') + mset zs
       = mset (W t) + mset (concat (F t)) + mset (concat B) + mset ys"
    and oth: "\<And>u. u \<noteq> t \<Longrightarrow> W' u = W u \<and> F' u = F u"
  shows "mset (pool n (hr_own F' W') B') + mset zs = mset (pool n (hr_own F W) B) + mset ys"
proof -
  have "hr_own F' W' = (hr_own F W)(t := W' t @ concat (F' t))" using oth by (auto simp: fun_eq_iff)
  moreover have "mset (pool n ((hr_own F W)(t := W' t @ concat (F' t))) B') + (mset (W t) + mset (concat (F t)) + mset (concat B))
      = mset (pool n (hr_own F W) B) + (mset (W' t) + mset (concat (F' t)) + mset (concat B'))"
    using mset_concat_upd [OF t, of "hr_own F W" "W' t @ concat (F' t)"] unfolding pool_def mset_append
    by (simp only: ac_simps)
  ultimately show ?thesis using mset_shift [OF _ ms] by simp
qed

lemma hr_pool_after:
  assumes "mset P' + mset zs = mset P + mset ys" "distinct P" "distinct ys" "set ys \<inter> set P = {}"
    "\<forall>x \<in> set P \<union> set ys. hr_node x"
  shows "distinct P'" "\<forall>x \<in> set P'. hr_node x" "set P' \<inter> set zs = {}" "distinct zs"
proof -
  have e: "mset (P' @ zs) = mset (P @ ys)" using assms(1) by simp
  have "distinct (P' @ zs)" using mset_eq_imp_distinct_iff [OF e] assms(2-4) by auto
  then show "distinct P'" "set P' \<inter> set zs = {}" "distinct zs" by auto
  have "set P' \<subseteq> set P \<union> set ys" using mset_eq_setD [OF e] by auto
  then show "\<forall>x \<in> set P'. hr_node x" using assms(5) by blast
qed

lemma hr_pool_less:
  assumes ms: "mset P' + mset zs = mset P + mset []" and P: "distinct P" "\<forall>x \<in> set P. hr_node x"
  shows "distinct P'" "\<forall>x \<in> set P'. hr_node x" "set P' \<inter> set zs = {}" "distinct zs"
proof -
  have P': "\<forall>x \<in> set P \<union> set []. hr_node x" using P(2) by simp
  note A = hr_pool_after [OF ms P(1) _ _ P']
  show "distinct P'" "\<forall>x \<in> set P'. hr_node x" "set P' \<inter> set zs = {}" "distinct zs" by (rule A; simp)+
qed

section \<open>Visiting the list of a slot\<close>

lemma hr_traverse_alone:
  "hr_traverse fuel list p (s, []) = map_option (\<lambda>(ok, list, th, w). (list, w))
     (smr_traverse fuel lv 0 (\<lambda>_. True) len list 0 p 0 (s, []))"
  by (induction fuel arbitrary: list p s)
    (simp_all add: load_alone store_alone smr_addr_def smr_fetch_add_alone own_alone Let_def)

lemma chain_walk: "chain nx p xs \<Longrightarrow> walk nx 0 p xs"
  by (induction xs arbitrary: p) auto

lemma hr_slot_ok_cong: "\<forall>x \<in> set xs. nx' x = nx x \<Longrightarrow> hr_slot_ok nx' v xs = hr_slot_ok nx v xs"
  using chain_cong [of xs nx' nx] by (simp add: hr_slot_ok_def)

lemma smr_inv_cache:
  assumes "smr_inv N L B [] 0 s" "pend s p F" "distinct (concat F)" "set (concat F) \<inter> set (concat B) = {}" "0 \<notin> set (concat F)"
  shows "smr_inv N L B F p s"
  using assms unfolding smr_inv_eq by auto

lemma hr_set_batch_fields:
  "same_nodes {} s (hr_set_batch t f s)" "reclaimed (hr_set_batch t f s) = reclaimed s"
  "hr_batches (hr_set_batch t f s) = (hr_batches s)(t := f (hr_batches s t))"
  "cells (hr_set_batch t f s) = cells s"
  "hr_mem (hr_set_batch t f s) = hr_mem s" "hr_epoch (hr_set_batch t f s) = hr_epoch s"
  "task_num (hr_set_batch t f s) = task_num s" "hr_num (hr_set_batch t f s) = hr_num s"
  "hr_slots (hr_set_batch t f s) = hr_slots s"
  by (simp_all add: hr_set_batch_def same_nodes_def)

lemma hr_view_cache:
  "hr_view (hr_set_batch t (hb_list_update g) s) = hr_view s"
  "hr_view (hr_set_batch t (\<lambda>b. b\<lparr>hb_list := v, hb_list_count := c\<rparr>) s) = hr_view s"
  "hr_view (hr_set_batch t (\<lambda>b. b\<lparr>hb_list_count := d b\<rparr>) s) = hr_view s"
  by (auto simp: hr_view_def hr_set_batch_def fun_eq_iff)

lemma smr_frame_view: "smr_frame s s' \<Longrightarrow> hr_view s' = hr_view s \<and> hr_mem s' = hr_mem s \<and> hr_batches s' = hr_batches s \<and> cells s' = cells s"
  using smr_frame_kept [of s s'] by (cases s, cases s') (simp add: hr_view_def)

lemma smr_kept_view: "smr_kept s' = smr_kept s \<Longrightarrow> hr_view s' = hr_view s \<and> hr_mem s' = hr_mem s \<and> hr_batches s' = hr_batches s \<and> cells s' = cells s"
  by (cases s, cases s') (simp add: hr_view_def)

text \<open>What a step of thread \<open>t\<close> on its cache and on the lists leaves: the part in \<open>hr_view\<close> and the caches of the others.\<close>

definition hr_kept :: "nat \<Rightarrow> hr \<Rightarrow> hr \<Rightarrow> bool" where
  "hr_kept t s s' \<longleftrightarrow> hr_view s' = hr_view s \<and> cells s' = cells s \<and> (\<forall>u. u \<noteq> t \<longrightarrow> hr_list s' u = hr_list s u)"

lemma hr_kept_trans: "hr_kept t s s' \<Longrightarrow> hr_kept t s' s'' \<Longrightarrow> hr_kept t s s''"
  by (simp add: hr_kept_def)

lemma hr_kept_refl [simp]: "hr_kept t s s"
  by (simp add: hr_kept_def)

lemma hr_state_nodes:
  assumes st: "hr_state n k h L B F W s" and t: "t < n"
    and same: "same_nodes X s s'" "X \<subseteq> set (concat (F t)) \<union> set (concat B)" and kept: "hr_kept t s s'"
  shows "u < n \<Longrightarrow> u \<noteq> t \<Longrightarrow> pend s' (hr_list s' u) (F u)" "u < n \<Longrightarrow> hr_open s' u (W u)" "hr_fits n k s'"
proof -
  note S = hr_stateD [OF st]
  note v = hr_viewD [OF kept [unfolded hr_kept_def, THEN conjunct1]]
  show "hr_fits n k s'" using S(1) v(12) by simp
  show "pend s' (hr_list s' u) (F u)" if u: "u < n" "u \<noteq> t"
  proof -
    have "X \<inter> set (concat (F u)) = {}"
      using hr_pool_parts(5,8) [OF S(6) u(1)] u(2) t same(2) by blast
    moreover have "hr_list s' u = hr_list s u" using kept u(2) by (simp add: hr_kept_def)
    ultimately show ?thesis using pend_same [OF same(1) _ S(4) [OF u(1)]] by simp
  qed
  show "hr_open s' u (W u)" if u: "u < n"
  proof (rule hr_open_same [OF same(1) _ v(7,8) S(5) [OF u]])
    have "set (W u) \<inter> set (concat (F t)) = {}"
      using hr_pool_parts(3,7) [OF S(6) u] t by (cases "u = t") auto
    with hr_pool_parts(4) [OF S(6) u] same(2) show "X \<inter> set (W u) = {}" by blast
  qed
qed

text \<open>Thread \<open>t\<close> has visited lists, those of the slots in \<open>I\<close> only, and freed nodes: the batches to which the other slots refer stay.\<close>

definition hr_less :: "nat \<Rightarrow> nat \<Rightarrow> u64 \<Rightarrow> nat \<Rightarrow> nat set \<Rightarrow> (nat \<Rightarrow> ptr list) \<Rightarrow> ptr list list \<Rightarrow> (nat \<Rightarrow> ptr list list) \<Rightarrow> hr
    \<Rightarrow> (nat \<Rightarrow> ptr list) \<Rightarrow> ptr list list \<Rightarrow> (nat \<Rightarrow> ptr list list) \<Rightarrow> hr \<Rightarrow> bool" where
  "hr_less n k sz t I L B F s L' B' F' s' \<longleftrightarrow> hr_kept t s s' \<and> hr_mem s' = hr_mem s
     \<and> (\<forall>u. u \<noteq> t \<longrightarrow> F' u = F u) \<and> (\<forall>i. i \<notin> I \<longrightarrow> L' i = L i)
     \<and> (\<forall>i. i \<notin> I \<longrightarrow> i < n * k \<longrightarrow> (\<forall>b \<in> set B. set (L i) \<inter> set b \<noteq> {} \<longrightarrow> b \<in> set B'))
     \<and> (\<exists>zs. reclaimed s' = reclaimed s @ map (\<lambda>x. x - sz) zs
          \<and> mset (concat (F' t)) + mset (concat B') + mset zs = mset (concat (F t)) + mset (concat B))
     \<and> (\<forall>x. x \<notin> set (concat (F t)) \<union> set (concat B) \<longrightarrow> smr_next s' x = smr_next s x)"

lemma hr_lessI:
  assumes "hr_kept t s s'" "hr_mem s' = hr_mem s" "\<And>u. u \<noteq> t \<Longrightarrow> F' u = F u" "\<And>i. i \<notin> I \<Longrightarrow> L' i = L i"
    "\<And>i b. i \<notin> I \<Longrightarrow> i < n * k \<Longrightarrow> b \<in> set B \<Longrightarrow> set (L i) \<inter> set b \<noteq> {} \<Longrightarrow> b \<in> set B'"
    "reclaimed s' = reclaimed s @ map (\<lambda>x. x - sz) zs"
    "mset (concat (F' t)) + mset (concat B') + mset zs = mset (concat (F t)) + mset (concat B)"
    "\<And>x. x \<notin> set (concat (F t)) \<union> set (concat B) \<Longrightarrow> smr_next s' x = smr_next s x"
  shows "hr_less n k sz t I L B F s L' B' F' s'"
  unfolding hr_less_def using assms by blast

lemma hr_lessE:
  assumes "hr_less n k sz t I L B F s L' B' F' s'"
  obtains zs where "hr_kept t s s'" "hr_mem s' = hr_mem s" "\<And>u. u \<noteq> t \<Longrightarrow> F' u = F u" "\<And>i. i \<notin> I \<Longrightarrow> L' i = L i"
    "\<And>i b. i \<notin> I \<Longrightarrow> i < n * k \<Longrightarrow> b \<in> set B \<Longrightarrow> set (L i) \<inter> set b \<noteq> {} \<Longrightarrow> b \<in> set B'"
    "reclaimed s' = reclaimed s @ map (\<lambda>x. x - sz) zs"
    "mset (concat (F' t)) + mset (concat B') + mset zs = mset (concat (F t)) + mset (concat B)"
    "\<And>x. x \<notin> set (concat (F t)) \<union> set (concat B) \<Longrightarrow> smr_next s' x = smr_next s x"
    "set (concat (F' t)) \<union> set (concat B') \<subseteq> set (concat (F t)) \<union> set (concat B)"
proof -
  note D = assms [unfolded hr_less_def]
  obtain zs where zs: "reclaimed s' = reclaimed s @ map (\<lambda>x. x - sz) zs"
    "mset (concat (F' t)) + mset (concat B') + mset zs = mset (concat (F t)) + mset (concat B)" using D by blast
  have e: "mset (concat (F' t) @ concat B' @ zs) = mset (concat (F t) @ concat B)" using zs(2) by (simp add: ac_simps)
  have "set (concat (F' t)) \<union> set (concat B') \<subseteq> set (concat (F t)) \<union> set (concat B)"
    using mset_eq_setD [OF e] unfolding set_append by blast
  with that [of zs] zs D show thesis by blast
qed

lemma hr_less_length:
  "hr_less n k sz t I L B F s L' B' F' s' \<Longrightarrow>
     length (concat (F' t)) + length (concat B') \<le> length (concat (F t)) + length (concat B)"
proof (erule hr_lessE)
  fix zs
  assume "mset (concat (F' t)) + mset (concat B') + mset zs = mset (concat (F t)) + mset (concat B)"
  from arg_cong [OF this, of size] show ?thesis by simp
qed

lemma hr_less_refl: "hr_less n k sz t I L B F s L B F s"
  by (rule hr_lessI [where zs = "[]"]) simp_all

lemma hr_less_trans:
  assumes "hr_less n k sz t I L B F s L1 B1 F1 s1" "hr_less n k sz t J L1 B1 F1 s1 L2 B2 F2 s2"
  shows "hr_less n k sz t (I \<union> J) L B F s L2 B2 F2 s2"
proof -
  obtain ys where a: "hr_kept t s s1" "hr_mem s1 = hr_mem s" "\<And>u. u \<noteq> t \<Longrightarrow> F1 u = F u" "\<And>i. i \<notin> I \<Longrightarrow> L1 i = L i"
    "\<And>i b. i \<notin> I \<Longrightarrow> i < n * k \<Longrightarrow> b \<in> set B \<Longrightarrow> set (L i) \<inter> set b \<noteq> {} \<Longrightarrow> b \<in> set B1"
    "reclaimed s1 = reclaimed s @ map (\<lambda>x. x - sz) ys"
    "mset (concat (F1 t)) + mset (concat B1) + mset ys = mset (concat (F t)) + mset (concat B)"
    "\<And>x. x \<notin> set (concat (F t)) \<union> set (concat B) \<Longrightarrow> smr_next s1 x = smr_next s x"
    "set (concat (F1 t)) \<union> set (concat B1) \<subseteq> set (concat (F t)) \<union> set (concat B)"
    using assms(1) by (rule hr_lessE) (rule that)
  obtain zs where b: "hr_kept t s1 s2" "hr_mem s2 = hr_mem s1" "\<And>u. u \<noteq> t \<Longrightarrow> F2 u = F1 u" "\<And>i. i \<notin> J \<Longrightarrow> L2 i = L1 i"
    "\<And>i b. i \<notin> J \<Longrightarrow> i < n * k \<Longrightarrow> b \<in> set B1 \<Longrightarrow> set (L1 i) \<inter> set b \<noteq> {} \<Longrightarrow> b \<in> set B2"
    "reclaimed s2 = reclaimed s1 @ map (\<lambda>x. x - sz) zs"
    "mset (concat (F2 t)) + mset (concat B2) + mset zs = mset (concat (F1 t)) + mset (concat B1)"
    "\<And>x. x \<notin> set (concat (F1 t)) \<union> set (concat B1) \<Longrightarrow> smr_next s2 x = smr_next s1 x"
    "set (concat (F2 t)) \<union> set (concat B2) \<subseteq> set (concat (F1 t)) \<union> set (concat B1)"
    using assms(2) by (rule hr_lessE) (rule that)
  show ?thesis
  proof (rule hr_lessI [where zs = "ys @ zs"])
    show "hr_kept t s s2" by (rule hr_kept_trans [OF a(1) b(1)])
    show "L2 i = L i" if "i \<notin> I \<union> J" for i using a(4) b(4) that by simp
    show "c \<in> set B2" if "i \<notin> I \<union> J" "i < n * k" "c \<in> set B" "set (L i) \<inter> set c \<noteq> {}" for i c
      using a(4) [of i] a(5) [of i c] b(5) [of i c] that by simp
    show "mset (concat (F2 t)) + mset (concat B2) + mset (ys @ zs) = mset (concat (F t)) + mset (concat B)"
      unfolding a(7) [symmetric] b(7) [symmetric] mset_append by (simp only: ac_simps)
    show "smr_next s2 x = smr_next s x" if x: "x \<notin> set (concat (F t)) \<union> set (concat B)" for x
    proof -
      have "x \<notin> set (concat (F1 t)) \<union> set (concat B1)" using a(9) x by blast
      from b(8) [OF this] a(8) [OF x] show ?thesis by simp
    qed
  qed (use a(2,3,6) b(2,3,6) in simp_all)
qed

lemma hr_traverse_step:
  assumes st: "hr_state n k h L B F W s" and t: "t < n" and i: "i < n * k" "h i \<noteq> HR_INVPTR"
    and v: "v = 0 \<or> v = HR_INVPTR" and fuel: "length (concat B) < fuel"
  shows "\<exists>s' list' F' B'. hr_traverse fuel (hr_list s t) (h i) (s, []) = Some (list', (s', []))
    \<and> hr_state n k (h(i := v)) (L(i := [])) B' F' W (hr_set_batch t (hb_list_update (\<lambda>_. list')) s')
    \<and> hr_less n k sz t {i} L B F s (L(i := [])) B' F' (hr_set_batch t (hb_list_update (\<lambda>_. list')) s')"
proof -
  note S = hr_stateD [OF st] note P = hr_pool_parts [OF S(6) t]
  have nz: "0 \<notin> set (concat (F t))" using S(7) hr_pool_sub(2) [OF t, of F W B] unfolding hr_node_def by blast
  have inv: "smr_inv (n * k) L B (F t) (hr_list s t) s"
    by (rule smr_inv_cache [OF S(2,4) P(2,5)]) (use t nz in simp_all)
  have c: "chain (smr_next s) (h i) (L i)" using S(3) [OF i(1)] i(2) by (auto simp: hr_slot_ok_def)
  have "length (L i) < fuel" using slot_length [OF inv i(1)] fuel by simp
  from smr_traverse_run [OF inv i(1) S(8) _ chain_walk [OF c] this, of "\<lambda>_. True" "\<lambda>_ _. None" 0]
  obtain s' list' F' where r:
    "smr_traverse fuel (\<lambda>_ _. None) 0 (\<lambda>_. True) 0 (hr_list s t) 0 (h i) 0 (s, []) = Some (True, list', 0, (s', []))"
    "smr_inv (n * k) (L(i := [])) (filter (\<lambda>b. 0 < in_slots (n * k) (L(i := [])) b) B) F' list' s'"
    "set F' = set (F t) \<union> {b \<in> set B. in_slots (n * k) (L(i := [])) b = 0}"
    "same_nodes (last ` set B) s s'" "smr_frame s s'" by auto
  let ?L = "L(i := [])" let ?B = "filter (\<lambda>b. 0 < in_slots (n * k) ?L b) B" let ?F = "F(t := F')"
  let ?s = "hr_set_batch t (hb_list_update (\<lambda>_. list')) s'"
  note fr = smr_frame_view [OF r(5)] note R = smr_invD [OF r(2)]
  have run: "hr_traverse fuel (hr_list s t) (h i) (s, []) = Some (list', (s', []))"
    using r(1) hr_traverse_alone [of fuel "hr_list s t" "h i" s "\<lambda>_ _. None" 0] by simp
  have kept: "hr_kept t s s'" "hr_kept t s ?s"
    using fr hr_view_cache(1) [of t "\<lambda>_. list'" s'] by (simp_all add: hr_kept_def hr_set_batch_fields)
  have same: "same_nodes (last ` set B) s ?s"
    by (rule same_nodes_trans [OF r(4) hr_set_batch_fields(1)]) simp
  have lasts: "last ` set B \<subseteq> set (concat B)" by (rule batch_lasts [OF S(2) [unfolded smr_inv_def]])
  have ms: "mset (concat F') + mset (concat ?B) = mset (concat (F t)) + mset (concat B)"
  proof -
    have d1: "distinct (concat F' @ concat ?B)" using R(1,2,3) by auto
    have d2: "distinct (concat (F t) @ concat B)" using P(2,5) smr_invD(1) [OF S(2)] by auto
    have "set (concat F' @ concat ?B) = set (concat (F t) @ concat B)" using r(3) by auto
    then have "mset (concat F' @ concat ?B) = mset (concat (F t) @ concat B)"
      using set_eq_iff_mset_eq_distinct [OF d1 d2] by blast
    then show ?thesis by simp
  qed
  have pool: "mset (pool n (hr_own ?F W) ?B) + mset [] = mset (pool n (hr_own F W) B) + mset []"
    by (rule hr_pool_step [OF S(6) t]) (use ms in \<open>simp_all add: ac_simps\<close>)
  note P' = hr_pool_less [OF pool S(6,7)]
  have nxt: "smr_next ?s x = smr_next s x" if "x \<notin> last ` set B" for x
    using same that unfolding same_nodes_def by blast
  have "hr_state n k (h(i := v)) ?L ?B ?F W ?s"
  proof (rule hr_stateI)
    note N = hr_state_nodes [OF st t same _ kept(2)]
    have X: "last ` set B \<subseteq> set (concat (F t)) \<union> set (concat B)" using lasts by blast
    show "hr_fits n k ?s" by (rule N(3) [OF X])
    show "smr_inv (n * k) ?L ?B [] 0 ?s"
      by (rule smr_inv_same [OF smr_inv_forget [OF r(2)] hr_set_batch_fields(1)]) simp
    show "hr_slot_ok (smr_next ?s) ((h(i := v)) j) (?L j)" if j: "j < n * k" for j
    proof (cases "j = i")
      case True
      then show ?thesis using v by (auto simp: hr_slot_ok_def)
    next
      case False
      have "\<forall>x \<in> set (L j). smr_next ?s x = smr_next s x" using nxt slot_node(2) [OF S(2) j] by blast
      then show ?thesis using S(3) [OF j] hr_slot_ok_cong [of "L j" "smr_next ?s" "smr_next s"] False by simp
    qed
    show "pend ?s (hr_list ?s u) (?F u)" if u: "u < n" for u
    proof (cases "u = t")
      case True
      have "pend ?s list' F'" by (rule pend_same [OF hr_set_batch_fields(1) _ R(11)]) simp
      with True show ?thesis by (simp add: hr_set_batch_fields)
    next
      case False
      with N(1) [OF X u] show ?thesis by simp
    qed
    show "hr_open ?s u (W u)" if "u < n" for u by (rule N(2) [OF X that])
    show "distinct (pool n (hr_own ?F W) ?B)" by (rule P'(1))
    show "\<forall>x \<in> set (pool n (hr_own ?F W) ?B). hr_node x" by (rule P'(2))
  qed
  moreover have "hr_less n k sz t {i} L B F s ?L ?B ?F ?s"
  proof (rule hr_lessI [where zs = "[]"])
    show "b \<in> set ?B" if "j \<notin> {i}" "j < n * k" "b \<in> set B" "set (L j) \<inter> set b \<noteq> {}" for j b
    proof -
      have "set (?L j) \<inter> set b \<noteq> {}" using that(1,4) by simp
      then have "in_slots (n * k) ?L b \<noteq> 0" using that(2) unfolding in_slots_0 by blast
      with that(3) show ?thesis by simp
    qed
    show "smr_next ?s x = smr_next s x" if "x \<notin> set (concat (F t)) \<union> set (concat B)" for x
      using nxt lasts that by blast
  qed (use kept(2) ms fr smr_frame_kept [OF r(5)] in \<open>simp_all add: hr_set_batch_fields\<close>)
  ultimately show ?thesis using run by blast
qed

section \<open>Freeing a cache\<close>

abbreviation hr_no_list :: "hr_batch \<Rightarrow> hr_batch" where
  "hr_no_list b \<equiv> b\<lparr>hb_list := nullptr, hb_list_count := 0\<rparr>"

lemma hr_free_step:
  assumes st: "hr_state n k h L B F W s" and t: "t < n" and fuel: "length (concat (F t)) < fuel"
  shows "\<exists>s'. hr_free_list fuel sz (hr_list s t) (s, []) = Some (s', [])
    \<and> hr_state n k h L B (F(t := [])) W (hr_set_batch t hr_no_list s')
    \<and> hr_less n k sz t I L B F s L B (F(t := [])) (hr_set_batch t hr_no_list s')"
proof -
  note S = hr_stateD [OF st] note P = hr_pool_parts [OF S(6) t]
  obtain s' where r: "smr_free_list fuel (hr_list s t) (hr_free_node sz) 0 (s, []) = Some (s', [])"
    "reclaimed s' = reclaimed s @ map (\<lambda>x. x - sz) (concat (F t))" "smr_kept s' = smr_kept s"
    "same_nodes (set (concat (F t))) s s'"
    using hr.free_list_run [OF S(4) [OF t] P(2) fuel] by blast
  let ?s = "hr_set_batch t hr_no_list s'" let ?F = "F(t := [])"
  note fr = smr_kept_view [OF r(3)]
  have kept: "hr_kept t s ?s"
    using fr hr_view_cache(2) [of t nullptr 0 s'] by (simp add: hr_kept_def hr_set_batch_fields)
  have same: "same_nodes (set (concat (F t))) s ?s"
    by (rule same_nodes_trans [OF r(4) hr_set_batch_fields(1)]) simp
  have nxt: "smr_next ?s x = smr_next s x" if "x \<notin> set (concat (F t))" for x
    using same that unfolding same_nodes_def by blast
  have ms: "mset (concat (?F t)) + mset (concat B) + mset (concat (F t)) = mset (concat (F t)) + mset (concat B)"
    by (simp add: ac_simps)
  have pool: "mset (pool n (hr_own ?F W) B) + mset (concat (F t)) = mset (pool n (hr_own F W) B) + mset []"
    by (rule hr_pool_step [OF S(6) t]) (simp_all add: ac_simps)
  note P' = hr_pool_less [OF pool S(6,7)]
  have "hr_state n k h L B ?F W ?s"
  proof (rule hr_stateI)
    note N = hr_state_nodes [OF st t same Un_upper1 kept]
    show "hr_fits n k ?s" by (rule N(3))
    show "smr_inv (n * k) L B [] 0 ?s" by (rule smr_inv_same [OF S(2) same]) (use P(5) in simp)
    show "hr_slot_ok (smr_next ?s) (h j) (L j)" if j: "j < n * k" for j
    proof -
      have "\<forall>x \<in> set (L j). smr_next ?s x = smr_next s x" using nxt slot_node(1) [OF S(2) j] P(5) by blast
      then show ?thesis using S(3) [OF j] hr_slot_ok_cong [of "L j" "smr_next ?s" "smr_next s"] by simp
    qed
    show "pend ?s (hr_list ?s u) (?F u)" if u: "u < n" for u
      using N(1) [OF u] by (cases "u = t") (simp_all add: hr_set_batch_fields)
    show "hr_open ?s u (W u)" if "u < n" for u by (rule N(2) [OF that])
    show "distinct (pool n (hr_own ?F W) B)" by (rule P'(1))
    show "\<forall>x \<in> set (pool n (hr_own ?F W) B). hr_node x" by (rule P'(2))
  qed
  moreover have "hr_less n k sz t I L B F s L B ?F ?s"
    by (rule hr_lessI [where zs = "concat (F t)", OF kept])
      (use fr r(2) nxt ms in \<open>simp_all add: hr_set_batch_fields\<close>)
  ultimately show ?thesis using r(1) by (auto simp: hr_free_list_def)
qed

text \<open>What the state does not depend on.\<close>

lemma hr_state_other:
  assumes "hr_state n k h L B F W s" "same_nodes {} s s'" "hr_batches s' = hr_batches s" "hr_fits n k s'"
    "\<And>i. i < n * k \<Longrightarrow> h' i = h i"
  shows "hr_state n k h' L B F W s'"
proof (rule hr_stateI)
  note S = hr_stateD [OF assms(1)]
  show "hr_fits n k s'" by (rule assms(4))
  show "smr_inv (n * k) L B [] 0 s'" by (rule smr_inv_same [OF S(2) assms(2)]) simp
  show "hr_slot_ok (smr_next s') (h' j) (L j)" if "j < n * k" for j
    using S(3) [OF that] assms(2) assms(5) [OF that] hr_slot_ok_cong [of "L j" "smr_next s'" "smr_next s"]
    by (simp add: same_nodes_def)
  show "pend s' (hr_list s' u) (F u)" if "u < n" for u
    using pend_same [OF assms(2) _ S(4) [OF that]] assms(3) by simp
  show "hr_open s' u (W u)" if "u < n" for u
    by (rule hr_open_same [OF assms(2) _ _ _ S(5) [OF that]]) (use assms(3) in simp_all)
qed (fact hr_stateD [OF assms(1)])+

lemma hr_put_fields:
  "same_nodes {} s (hr_put a v s)" "reclaimed (hr_put a v s) = reclaimed s" "cells (hr_put a v s) = cells s"
  "hr_batches (hr_put a v s) = hr_batches s" "hr_view (hr_put a v s) = hr_view s"
  "hr_fits n k (hr_put a v s) = hr_fits n k s" "hr_epoch (hr_put a v s) = hr_epoch s" "hr_mem (hr_put a v s) = (hr_mem s)(a := v)"
  "hr_num (hr_put a v s) = hr_num s" "hr_slots (hr_put a v s) = hr_slots s"
  by (simp_all add: hr_put_def same_nodes_def hr_view_def hr_fits_def)

lemma hr_kept_same: "hr_kept t s s' \<Longrightarrow> hr_num s' = hr_num s \<and> hr_slots s' = hr_slots s \<and> hr_epoch s' = hr_epoch s"
  using hr_viewD(2,3,4) [of s' s] by (simp add: hr_kept_def)

text \<open>\<open>traverse_cache\<close> frees the cache first when it is full.\<close>

lemma hr_traverse_cache_step:
  assumes st: "hr_state n k h L B F W s" and t: "t < n" and i: "i < n * k" "h i \<noteq> HR_INVPTR"
    and v: "v = 0 \<or> v = HR_INVPTR" and fuel: "length (concat (F t)) + length (concat B) < fuel"
  shows "\<exists>s' B' F'. hr_traverse_cache fuel sz t (h i) (s, []) = Some (s', [])
    \<and> hr_state n k (h(i := v)) (L(i := [])) B' F' W s' \<and> hr_less n k sz t {i} L B F s (L(i := [])) B' F' s'"
proof (cases "h i = 0")
  case True
  note S = hr_stateD [OF st]
  have "L i = []" using S(3) [OF i(1)] i(2) True by (cases "L i") (auto simp: hr_slot_ok_def)
  then have e: "L(i := []) = L" by (simp add: fun_upd_idem)
  have "hr_state n k (h(i := v)) L B F W s"
  proof (rule hr_stateI)
    show "hr_slot_ok (smr_next s) ((h(i := v)) j) (L j)" if "j < n * k" for j
      using S(3) [OF that] \<open>L i = []\<close> v by (auto simp: hr_slot_ok_def)
  qed (fact S)+
  with True hr_less_refl [of n k sz t "{i}" L B F s] show ?thesis
    unfolding e by (intro exI [of _ s] exI [of _ B] exI [of _ F]) (simp add: hr_traverse_cache_def)
next
  case False
  let ?c = "hb_list_count (hr_batches s t) = MAX_HRC"
  have "\<exists>s1 F1. (if ?c then map_option (own (hr_set_batch t hr_no_list)) (hr_free_list fuel sz (hr_list s t) (s, [])) else Some (s, []))
      = Some (s1, []) \<and> hr_state n k h L B F1 W s1 \<and> hr_less n k sz t {} L B F s L B F1 s1"
  proof (cases ?c)
    case True
    have "length (concat (F t)) < fuel" using fuel by simp
    from hr_free_step [OF st t this, of sz "{}"] True show ?thesis by (auto simp: own_alone)
  next
    case False
    with st hr_less_refl show ?thesis by auto
  qed
  then obtain s1 F1 where r1: "(if ?c then map_option (own (hr_set_batch t hr_no_list)) (hr_free_list fuel sz (hr_list s t) (s, [])) else Some (s, []))
      = Some (s1, [])" "hr_state n k h L B F1 W s1" "hr_less n k sz t {} L B F s L B F1 s1" by blast
  let ?s2 = "hr_set_batch t (\<lambda>b. b\<lparr>hb_list_count := hb_list_count b + 1\<rparr>) s1"
  have st2: "hr_state n k h L B F1 W ?s2"
  proof (rule hr_stateI)
    note S = hr_stateD [OF r1(2)] note same = hr_set_batch_fields(1) [of s1 t "\<lambda>b. b\<lparr>hb_list_count := hb_list_count b + 1\<rparr>"]
    show "hr_fits n k ?s2" using S(1) by (simp add: hr_fits_def hr_set_batch_fields)
    show "smr_inv (n * k) L B [] 0 ?s2" by (rule smr_inv_same [OF S(2) same]) simp
    show "hr_slot_ok (smr_next ?s2) (h j) (L j)" if "j < n * k" for j using S(3) [OF that] by (simp add: hr_set_batch_def)
    show "pend ?s2 (hr_list ?s2 u) (F1 u)" if "u < n" for u
      using pend_same [OF same _ S(4) [OF that]] by (cases "u = t") (simp_all add: hr_set_batch_fields)
    show "hr_open ?s2 u (W u)" if "u < n" for u
      by (rule hr_open_same [OF same _ _ _ S(5) [OF that]]) (simp_all add: hr_set_batch_fields)
  qed (fact hr_stateD [OF r1(2)])+
  have l2: "hr_less n k sz t {} L B F1 s1 L B F1 ?s2"
    by (rule hr_lessI [where zs = "[]"])
      (simp_all add: hr_kept_def hr_view_cache hr_set_batch_fields, simp add: hr_set_batch_def)
  have f: "length (concat B) < fuel" using fuel by simp
  obtain s3 list' F3 B3 where r3: "hr_traverse fuel (hr_list ?s2 t) (h i) (?s2, []) = Some (list', (s3, []))"
    "hr_state n k (h(i := v)) (L(i := [])) B3 F3 W (hr_set_batch t (hb_list_update (\<lambda>_. list')) s3)"
    "hr_less n k sz t {i} L B F1 ?s2 (L(i := [])) B3 F3 (hr_set_batch t (hb_list_update (\<lambda>_. list')) s3)"
    using hr_traverse_step [OF st2 t i v f, of sz] by blast
  let ?s4 = "hr_set_batch t (hb_list_update (\<lambda>_. list')) s3"
  have "hr_traverse_cache fuel sz t (h i) (s, []) = Some (?s4, [])"
    using False r3(1) unfolding hr_traverse_cache_def fst_conv r1(1) by (simp add: own_alone)
  moreover have "hr_less n k sz t {i} L B F s (L(i := [])) B3 F3 ?s4"
    using hr_less_trans [OF hr_less_trans [OF r1(3) l2] r3(3)] by simp
  ultimately show ?thesis using r3(2) by blast
qed

section \<open>Publishing the epoch\<close>

text \<open>A step that writes the slots in \<open>I\<close> and otherwise is as in \<open>hr_less\<close>.\<close>

definition hr_step :: "nat \<Rightarrow> nat \<Rightarrow> u64 \<Rightarrow> nat \<Rightarrow> nat set \<Rightarrow> (nat \<Rightarrow> ptr list) \<Rightarrow> ptr list list \<Rightarrow> (nat \<Rightarrow> ptr list list) \<Rightarrow> hr
    \<Rightarrow> (nat \<Rightarrow> ptr list) \<Rightarrow> ptr list list \<Rightarrow> (nat \<Rightarrow> ptr list list) \<Rightarrow> hr \<Rightarrow> bool" where
  "hr_step n k sz t I L B F s L' B' F' s' \<longleftrightarrow> hr_less n k sz t I L B F (s\<lparr>hr_mem := hr_mem s'\<rparr>) L' B' F' s'
     \<and> (\<forall>i. i \<notin> I \<longrightarrow> i < n * k \<longrightarrow> hr_head s' i = hr_head s i \<and> hr_seen s' i = hr_seen s i)"

lemma hr_less_mem:
  "hr_less n k sz t I L B F (s\<lparr>hr_mem := m\<rparr>) L' B' F' (s'\<lparr>hr_mem := m\<rparr>) = hr_less n k sz t I L B F (s\<lparr>hr_mem := m'\<rparr>) L' B' F' (s'\<lparr>hr_mem := m'\<rparr>)"
  by (simp add: hr_less_def hr_kept_def hr_view_def)

lemma hr_less_put:
  assumes "hr_less n k sz t I L B F (hr_put a v s) L' B' F' s'"
  shows "hr_less n k sz t I L B F (s\<lparr>hr_mem := m\<rparr>) L' B' F' (s'\<lparr>hr_mem := m\<rparr>)"
  using assms by (simp add: hr_less_def hr_kept_def hr_view_def hr_put_def)

lemma hr_less_put':
  assumes "hr_less n k sz t I L B F s L' B' F' s'"
  shows "hr_less n k sz t I L B F (s\<lparr>hr_mem := m\<rparr>) L' B' F' (s'\<lparr>hr_mem := m\<rparr>)"
  using assms by (simp add: hr_less_def hr_kept_def hr_view_def)

lemma hr_step_refl: "hr_step n k sz t I L B F s L B F s"
  using hr_less_refl [of n k sz t I L B F s] by (simp add: hr_step_def)

lemma hr_do_update_step:
  assumes st: "hr_state n k (hr_head s) L B F W s" and t: "t < n" and j: "j < k"
    and fuel: "length (concat (F t)) + length (concat B) < fuel"
  defines "i \<equiv> t * k + j"
  shows "\<exists>s' L' B' F'. hr_do_update fuel sz (hr_epoch s) j t (s, []) = Some (hr_epoch s, (s', []))
    \<and> hr_state n k (hr_head s') L' B' F' W s' \<and> hr_step n k sz t {i} L B F s L' B' F' s'
    \<and> hr_head s' i = 0 \<and> hr_seen s' i = hr_epoch s"
proof -
  note S = hr_stateD [OF st]
  have fits: "hr_fits n k s" "hr_num s = k" using S(1) by (simp_all add: hr_fits_def)
  have i: "i < n * k" unfolding i_def by (rule hr_number_less [OF t j])
  let ?a = "hr_at s i" let ?e = "hr_epoch_addr ?a"
  have a: "hr_first s (t, j) = ?a" using hr_slot_number [OF j] by (simp add: i_def fits(2))
  have "\<exists>s3 L' B' F'. (if hr_head s i \<noteq> nullptr
       then let (first, w) = hr_exchange ?a HR_INVPTR (s, [])
            in case (if first \<noteq> HR_INVPTR then hr_traverse_cache fuel sz t first w else Some w) of
                 None \<Rightarrow> None
               | Some w \<Rightarrow> Some (hr_getEpoch (store (hr_put ?a nullptr) w))
       else Some (hr_epoch s, (s, []))) = Some (hr_epoch s, (s3, []))
    \<and> hr_state n k ((hr_head s)(i := 0)) L' B' F' W s3
    \<and> hr_less n k sz t {i} L B F (s\<lparr>hr_mem := m\<rparr>) L' B' F' (s3\<lparr>hr_mem := m\<rparr>)
    \<and> hr_mem s3 = (hr_mem s)(?a := 0)" for m
  proof (cases "hr_head s i = 0")
    case True
    have "(hr_head s)(i := 0) = hr_head s" using True by (simp add: fun_upd_idem)
    moreover have "hr_mem s = (hr_mem s)(?a := 0)" using True by (simp add: hr_head_def fun_upd_idem)
    ultimately show ?thesis using True st hr_less_refl by (intro exI [of _ s] exI [of _ L] exI [of _ B] exI [of _ F]) simp
  next
    case False
    let ?s1 = "hr_put ?a HR_INVPTR s"
    have st1: "hr_state n k (hr_head s) L B F W ?s1"
      by (rule hr_state_other [OF st]) (simp_all add: hr_put_fields fits)
    have ex: "hr_exchange ?a HR_INVPTR (s, []) = (hr_head s i, (?s1, []))"
      by (simp add: hr_exchange_def rmw_alone hr_head_def)
    have "\<exists>s2 L' B' F'. (if hr_head s i \<noteq> HR_INVPTR then hr_traverse_cache fuel sz t (hr_head s i) (?s1, []) else Some (?s1, [])) = Some (s2, [])
      \<and> hr_state n k ((hr_head s)(i := 0)) L' B' F' W s2 \<and> hr_less n k sz t {i} L B F ?s1 L' B' F' s2"
    proof (cases "hr_head s i = HR_INVPTR")
      case True
      have "L i = []" using S(3) [OF i] True by (simp add: hr_slot_ok_def)
      have "hr_state n k ((hr_head s)(i := 0)) L B F W ?s1"
      proof (rule hr_stateI)
        show "hr_slot_ok (smr_next ?s1) (((hr_head s)(i := 0)) u) (L u)" if "u < n * k" for u
          using hr_stateD(3) [OF st1 that] \<open>L i = []\<close> by (auto simp: hr_slot_ok_def)
      qed (fact hr_stateD [OF st1])+
      with True hr_less_refl [of n k sz t "{i}" L B F ?s1] show ?thesis
        by (intro exI [of _ ?s1] exI [of _ L] exI [of _ B] exI [of _ F]) simp
    next
      case False
      from hr_traverse_cache_step [OF st1 t i False, of 0 fuel sz] fuel False show ?thesis by auto
    qed
    then obtain s2 L' B' F' where r: "(if hr_head s i \<noteq> HR_INVPTR then hr_traverse_cache fuel sz t (hr_head s i) (?s1, []) else Some (?s1, [])) = Some (s2, [])"
      "hr_state n k ((hr_head s)(i := 0)) L' B' F' W s2" "hr_less n k sz t {i} L B F ?s1 L' B' F' s2" by blast
    let ?s3 = "hr_put ?a nullptr s2"
    have k2: "hr_kept t ?s1 s2" "hr_mem s2 = hr_mem ?s1" using r(3) by (simp_all add: hr_less_def)
    have e2: "hr_epoch s2 = hr_epoch s" using hr_kept_same [OF k2(1)] by (simp add: hr_put_fields)
    have "hr_state n k ((hr_head s)(i := 0)) L' B' F' W ?s3"
      by (rule hr_state_other [OF r(2)]) (simp_all add: hr_put_fields hr_stateD(1) [OF r(2)])
    moreover have "hr_less n k sz t {i} L B F (s\<lparr>hr_mem := m\<rparr>) L' B' F' (?s3\<lparr>hr_mem := m\<rparr>)"
      using hr_less_put [OF r(3), of m] by (simp add: hr_put_def)
    moreover have "hr_mem ?s3 = (hr_mem s)(?a := 0)" using k2(2) by (simp add: hr_put_fields)
    ultimately show ?thesis using False ex r(1) e2
      by (intro exI [of _ ?s3] exI [of _ L'] exI [of _ B'] exI [of _ F']) (simp add: store_alone hr_getEpoch_def load_alone hr_put_fields)
  qed
  from this [of "(hr_mem s)(?a := 0, ?e := hr_epoch s)"]
  obtain s3 L' B' F' where r: "(if hr_head s i \<noteq> nullptr
       then let (first, w) = hr_exchange ?a HR_INVPTR (s, [])
            in case (if first \<noteq> HR_INVPTR then hr_traverse_cache fuel sz t first w else Some w) of
                 None \<Rightarrow> None
               | Some w \<Rightarrow> Some (hr_getEpoch (store (hr_put ?a nullptr) w))
       else Some (hr_epoch s, (s, []))) = Some (hr_epoch s, (s3, []))"
    "hr_state n k ((hr_head s)(i := 0)) L' B' F' W s3"
    "hr_less n k sz t {i} L B F (s\<lparr>hr_mem := (hr_mem s)(?a := 0, ?e := hr_epoch s)\<rparr>) L' B' F' (s3\<lparr>hr_mem := (hr_mem s)(?a := 0, ?e := hr_epoch s)\<rparr>)"
    "hr_mem s3 = (hr_mem s)(?a := 0)" by blast
  let ?s4 = "hr_put ?e (hr_epoch s) s3"
  have m4: "hr_mem ?s4 = (hr_mem s)(?a := 0, ?e := hr_epoch s)" by (simp add: hr_put_fields r(4))
  have s4: "s3\<lparr>hr_mem := (hr_mem s)(?a := 0, ?e := hr_epoch s)\<rparr> = ?s4" by (simp add: hr_put_def r(4))
  have "hr_slots s3 = hr_slots s \<and> hr_num s3 = hr_num s"
    using hr_kept_same [OF r(3) [unfolded hr_less_def, THEN conjunct1]] by simp
  then have at: "hr_at ?s4 u = hr_at s u" for u by (simp add: hr_put_fields)
  note adr = hr_addresses [OF fits(1) i]
  have head: "hr_head ?s4 u = ((hr_head s)(i := 0)) u \<and> hr_seen ?s4 u = ((hr_seen s)(i := hr_epoch s)) u" if u: "u < n * k" for u
    using adr [OF u] hr_addresses(3) [OF fits(1) u i] unfolding hr_head_def hr_seen_def at m4 by auto
  have "hr_state n k (hr_head ?s4) L' B' F' W ?s4"
    by (rule hr_state_other [OF r(2)]) (use head in \<open>simp_all add: hr_put_fields hr_stateD(1) [OF r(2)]\<close>)
  moreover have "hr_step n k sz t {i} L B F s L' B' F' ?s4"
    using r(3) head unfolding hr_step_def m4 s4 by simp
  moreover have "hr_do_update fuel sz (hr_epoch s) j t (s, []) = Some (hr_epoch s, (?s4, []))"
    using r(1) unfolding hr_do_update_def a fst_conv Let_def load_alone prod.case hr_head_def
    by (simp only: store_alone option.case prod.case)
  ultimately show ?thesis using head [OF i] by (intro exI [of _ ?s4] exI [of _ L'] exI [of _ B'] exI [of _ F']) simp
qed

text \<open>\<open>read\<close> and \<open>reserve_slot\<close>: the second round finds the epoch the first one has published.\<close>

lemma hr_step_kept: "hr_step n k sz t I L B F s L' B' F' s' \<Longrightarrow> hr_kept t s s'"
  by (simp add: hr_step_def hr_less_def hr_kept_def hr_view_def)

lemma hr_read_step:
  assumes st: "hr_state n k (hr_head s) L B F W s" and t: "t < n" and j: "j < k"
    and fuel: "length (concat (F t)) + length (concat B) < fuel"
  defines "i \<equiv> t * k + j"
  shows "\<exists>s' L' B' F'. hr_read (Suc (Suc r)) fuel sz obj j t node (s, []) = Some (cells s obj, (s', []))
    \<and> hr_reserve_slot (Suc (Suc r)) fuel sz obj' j t node' (s, []) = Some (s', [])
    \<and> hr_state n k (hr_head s') L' B' F' W s' \<and> hr_step n k sz t {i} L B F s L' B' F' s'
    \<and> hr_seen s' i = hr_epoch s \<and> (if hr_seen s i = hr_epoch s then s' = s else hr_head s' i = 0)"
proof -
  have k: "hr_num s = k" using hr_stateD(1) [OF st] by (simp add: hr_fits_def)
  have e: "hr_mem s (hr_epoch_addr (hr_first s (t, j))) = hr_seen s i"
    using hr_slot_number [OF j] by (simp add: hr_seen_def i_def k)
  show ?thesis
  proof (cases "hr_seen s i = hr_epoch s")
    case True
    then have "hr_read (Suc (Suc r)) fuel sz obj j t node (s, []) = Some (cells s obj, (s, []))"
      "hr_reserve_slot (Suc (Suc r)) fuel sz obj' j t node' (s, []) = Some (s, [])"
      using e by (simp_all add: hr_read_def hr_reserve_slot_def load_alone hr_getEpoch_def)
    with True st hr_step_refl [of n k sz t "{i}" L B F s] show ?thesis
      by (intro exI [of _ s] exI [of _ L] exI [of _ B] exI [of _ F]) simp
  next
    case False
    obtain s' L' B' F' where u: "hr_do_update fuel sz (hr_epoch s) j t (s, []) = Some (hr_epoch s, (s', []))"
      "hr_state n k (hr_head s') L' B' F' W s'" "hr_step n k sz t {i} L B F s L' B' F' s'"
      "hr_head s' i = 0" "hr_seen s' i = hr_epoch s"
      using hr_do_update_step [OF st t j fuel, of sz] unfolding i_def by blast
    note kp = hr_step_kept [OF u(3)]
    have "hr_epoch s' = hr_epoch s" "cells s' = cells s" using hr_kept_same [OF kp] kp by (simp_all add: hr_kept_def)
    with False u(1) e have "hr_read (Suc (Suc r)) fuel sz obj j t node (s, []) = Some (cells s obj, (s', []))"
      "hr_reserve_slot (Suc (Suc r)) fuel sz obj' j t node' (s, []) = Some (s', [])"
      by (simp_all add: hr_read_def hr_reserve_slot_def load_alone hr_getEpoch_def)
    with False u(2-5) show ?thesis
      by (intro exI [of _ s'] exI [of _ L'] exI [of _ B'] exI [of _ F']) simp
  qed
qed

section \<open>Clearing the slots of a thread\<close>

lemma hr_close_slots_run:
  assumes "hr_fits n k s" "set is \<subseteq> {..<n * k}" "distinct is"
  shows "\<exists>m. hr_close_slots (map (hr_at s) is) (s, []) = (map (hr_head s) is, (s\<lparr>hr_mem := m\<rparr>, []))
    \<and> (\<forall>u < n * k. hr_head (s\<lparr>hr_mem := m\<rparr>) u = (if u \<in> set is then HR_INVPTR else hr_head s u)
         \<and> hr_seen (s\<lparr>hr_mem := m\<rparr>) u = hr_seen s u)"
  using assms
proof (induction "is" arbitrary: s)
  case Nil
  show ?case by (intro exI [of _ "hr_mem s"]) simp
next
  case (Cons i js)
  let ?s = "hr_put (hr_at s i) HR_INVPTR s"
  have i: "i < n * k" using Cons.prems(2) by simp
  note ps = hr_put_slot(1,2) [OF Cons.prems(1) i, of _ HR_INVPTR]
  have at: "hr_at ?s = hr_at s" by (simp add: hr_put_fields fun_eq_iff)
  obtain m where m: "hr_close_slots (map (hr_at ?s) js) (?s, []) = (map (hr_head ?s) js, (?s\<lparr>hr_mem := m\<rparr>, []))"
    "\<forall>u < n * k. hr_head (?s\<lparr>hr_mem := m\<rparr>) u = (if u \<in> set js then HR_INVPTR else hr_head ?s u)
         \<and> hr_seen (?s\<lparr>hr_mem := m\<rparr>) u = hr_seen ?s u"
    using Cons.IH [of ?s] Cons.prems by (auto simp: hr_put_fields)
  have e: "?s\<lparr>hr_mem := m\<rparr> = s\<lparr>hr_mem := m\<rparr>" by (simp add: hr_put_def)
  have "map (hr_head ?s) js = map (hr_head s) js" using ps(1) Cons.prems by (intro map_cong) auto
  then have "hr_close_slots (map (hr_at s) (i # js)) (s, []) = (map (hr_head s) (i # js), (s\<lparr>hr_mem := m\<rparr>, []))"
    using m(1) unfolding e at by (simp add: hr_exchange_def rmw_alone hr_head_def)
  moreover have "hr_head (s\<lparr>hr_mem := m\<rparr>) u = (if u \<in> set (i # js) then HR_INVPTR else hr_head s u)
      \<and> hr_seen (s\<lparr>hr_mem := m\<rparr>) u = hr_seen s u" if u: "u < n * k" for u
    using m(2) [rule_format, OF u] ps [OF u] unfolding e by auto
  ultimately show ?case by blast
qed

lemma hr_traverse_all_run:
  assumes "hr_state n k h L B F W s" "t < n" "set is \<subseteq> {..<n * k}" "distinct is"
    "length (concat (F t)) + length (concat B) < fuel"
  shows "\<exists>s' L' B' F'. hr_traverse_all fuel t (map h is) (s, []) = Some (s', [])
    \<and> hr_state n k (\<lambda>u. if u \<in> set is then HR_INVPTR else h u) L' B' F' W s'
    \<and> hr_less n k sz t (set is) L B F s L' B' F' s'"
  using assms
proof (induction "is" arbitrary: h L B F s)
  case Nil
  then show ?case using hr_less_refl [of n k sz t "{}" L B F s]
    by (intro exI [of _ s] exI [of _ L] exI [of _ B] exI [of _ F]) simp
next
  case (Cons i js)
  have i: "i < n * k" "i \<notin> set js" using Cons.prems(3,4) by auto
  let ?h = "h(i := HR_INVPTR)"
  have hs: "map h js = map ?h js" using i(2) by simp
  have "\<exists>s1 L1 B1 F1. hr_traverse_all fuel t (map h (i # js)) (s, []) = hr_traverse_all fuel t (map ?h js) (s1, [])
      \<and> hr_state n k ?h L1 B1 F1 W s1 \<and> hr_less n k sz t {i} L B F s L1 B1 F1 s1"
  proof (cases "h i = HR_INVPTR")
    case True
    then have "?h = h" by (simp add: fun_upd_idem)
    with True Cons.prems(1) hr_less_refl [of n k sz t "{i}" L B F s] show ?thesis
      by (intro exI [of _ s] exI [of _ L] exI [of _ B] exI [of _ F]) simp
  next
    case False
    have "length (concat B) < fuel" using Cons.prems(5) by simp
    from hr_traverse_step [OF Cons.prems(1,2) i(1) False _ this, of HR_INVPTR sz]
    obtain s' list' F' B' where q: "hr_traverse fuel (hr_list s t) (h i) (s, []) = Some (list', (s', []))"
      "hr_state n k ?h (L(i := [])) B' F' W (hr_set_batch t (hb_list_update (\<lambda>_. list')) s')"
      "hr_less n k sz t {i} L B F s (L(i := [])) B' F' (hr_set_batch t (hb_list_update (\<lambda>_. list')) s')" by auto
    show ?thesis
    proof (intro exI conjI)
      show "hr_traverse_all fuel t (map h (i # js)) (s, [])
          = hr_traverse_all fuel t (map ?h js) (hr_set_batch t (hb_list_update (\<lambda>_. list')) s', [])"
        using False q(1) unfolding list.map hs by (simp add: own_alone del: fun_upd_apply)
    qed (fact q(2,3))+
  qed
  then obtain s1 L1 B1 F1 where r: "hr_traverse_all fuel t (map h (i # js)) (s, []) = hr_traverse_all fuel t (map ?h js) (s1, [])"
    "hr_state n k ?h L1 B1 F1 W s1" "hr_less n k sz t {i} L B F s L1 B1 F1 s1" by blast
  have "length (concat (F1 t)) + length (concat B1) < fuel" using hr_less_length [OF r(3)] Cons.prems(5) by simp
  moreover have "set js \<subseteq> {..<n * k}" "distinct js" using Cons.prems(3,4) by simp_all
  ultimately obtain s' L' B' F' where q: "hr_traverse_all fuel t (map ?h js) (s1, []) = Some (s', [])"
    "hr_state n k (\<lambda>u. if u \<in> set js then HR_INVPTR else ?h u) L' B' F' W s'"
    "hr_less n k sz t (set js) L1 B1 F1 s1 L' B' F' s'" using Cons.IH [OF r(2) Cons.prems(2)] by blast
  have "(\<lambda>u. if u \<in> set js then HR_INVPTR else ?h u) = (\<lambda>u. if u \<in> set (i # js) then HR_INVPTR else h u)"
    by (auto simp: fun_eq_iff)
  with r(1) q(1,2) hr_less_trans [OF r(3) q(3)] show ?case by auto
qed

lemma hr_clear_step:
  assumes st: "hr_state n k (hr_head s) L B F W s" and t: "t < n"
    and fuel: "length (concat (F t)) + length (concat B) < fuel"
  defines "I \<equiv> {t * k..<t * k + k}"
  shows "\<exists>s' L' B' F'. hr_clear_all fuel sz t (s, []) = Some (s', [])
    \<and> hr_state n k (hr_head s') L' B' F' W s' \<and> hr_step n k sz t I L B F s L' B' F' s' \<and> F' t = []
    \<and> (\<forall>i \<in> I. hr_head s' i = HR_INVPTR \<and> hr_seen s' i = hr_seen s i)"
proof -
  let ?is = "[t * k..<t * k + k]"
  have fits: "hr_fits n k s" "hr_num s = k" using hr_stateD(1) [OF st] by (simp_all add: hr_fits_def)
  have "t * k + k \<le> n * k" using mult_le_mono1 [of "Suc t" n k] t by simp
  then have sub: "set ?is \<subseteq> {..<n * k}" by auto
  have "map (\<lambda>j. hr_first s (t, j)) [0..<k] = map (\<lambda>j. hr_at s (t * k + j)) [0..<k]"
    by (rule map_cong) (simp_all add: hr_slot_number fits(2))
  also have "\<dots> = map (hr_at s) ?is"
    unfolding map_add_upt [of "t * k" k, symmetric, unfolded add.commute [of k]] map_map
    by (simp add: add.commute)
  finally have adr: "map (\<lambda>j. hr_first s (t, j)) [0..<k] = map (hr_at s) ?is" .
  obtain m where m: "hr_close_slots (map (hr_at s) ?is) (s, []) = (map (hr_head s) ?is, (s\<lparr>hr_mem := m\<rparr>, []))"
    "\<forall>u < n * k. hr_head (s\<lparr>hr_mem := m\<rparr>) u = (if u \<in> set ?is then HR_INVPTR else hr_head s u)
         \<and> hr_seen (s\<lparr>hr_mem := m\<rparr>) u = hr_seen s u"
    using hr_close_slots_run [OF fits(1) sub] by auto
  let ?s1 = "s\<lparr>hr_mem := m\<rparr>"
  have st1: "hr_state n k (hr_head s) L B F W ?s1"
    by (rule hr_state_other [OF st]) (use fits in \<open>simp_all add: same_nodes_def hr_fits_def\<close>)
  obtain s2 L' B' F' where r: "hr_traverse_all fuel t (map (hr_head s) ?is) (?s1, []) = Some (s2, [])"
    "hr_state n k (\<lambda>u. if u \<in> set ?is then HR_INVPTR else hr_head s u) L' B' F' W s2"
    "hr_less n k sz t (set ?is) L B F ?s1 L' B' F' s2"
    using hr_traverse_all_run [OF st1 t sub _ fuel, of sz] by auto
  have "length (concat (F' t)) < fuel" using hr_less_length [OF r(3)] fuel by simp
  from hr_free_step [OF r(2) t this, of sz "set ?is"] obtain s3 where
    f: "hr_free_list fuel sz (hr_list s2 t) (s2, []) = Some (s3, [])"
    "hr_state n k (\<lambda>u. if u \<in> set ?is then HR_INVPTR else hr_head s u) L' B' (F'(t := [])) W (hr_set_batch t hr_no_list s3)"
    "hr_less n k sz t (set ?is) L' B' F' s2 L' B' (F'(t := [])) (hr_set_batch t hr_no_list s3)" by blast
  let ?s4 = "hr_set_batch t hr_no_list s3"
  have less: "hr_less n k sz t (set ?is) L B F ?s1 L' B' (F'(t := [])) ?s4" using hr_less_trans [OF r(3) f(3)] by simp
  then have k4: "hr_kept t ?s1 ?s4" "hr_mem ?s4 = m" by (simp_all add: hr_less_def)
  have v: "hr_head ?s4 u = hr_head ?s1 u \<and> hr_seen ?s4 u = hr_seen ?s1 u" for u
    using hr_viewD(11) [of ?s4 ?s1] k4 by (simp add: hr_kept_def)
  have "hr_state n k (hr_head ?s4) L' B' (F'(t := [])) W ?s4"
    by (rule hr_state_other [OF f(2)]) (use v m(2) hr_stateD(1) [OF f(2)] in simp_all)
  moreover have "hr_step n k sz t (set ?is) L B F s L' B' (F'(t := [])) ?s4"
    using less v m(2) unfolding hr_step_def k4(2) by simp
  moreover have "hr_clear_all fuel sz t (s, []) = Some (?s4, [])"
    using m(1) r(1) f(1) unfolding hr_clear_all_def fst_conv fits(2) adr by (simp add: own_alone)
  moreover have "\<forall>i \<in> set ?is. hr_head ?s4 i = HR_INVPTR \<and> hr_seen ?s4 i = hr_seen s i" using v m(2) sub by auto
  ultimately show ?thesis unfolding I_def set_upt
    by (intro exI [of _ ?s4] exI [of _ L'] exI [of _ B'] exI [of _ "F'(t := [])"]) simp
qed

end
