(* ===== verification/Hr_Retire.thy ===== *)
theory Hr_Retire
  imports Hr_Inv
begin

text \<open>
  \<open>retire\<close> and \<open>try_retire\<close> of \<open>HRTracker\<close>: a batch goes to every open slot whose epoch is not before the birth
  of its oldest object, if it has a node for each and one to count; what a slot has waiting for it stays.
\<close>

section \<open>Handing a batch to the slots\<close>

abbreviation hr_takes :: "u64 \<Rightarrow> hr \<Rightarrow> nat \<Rightarrow> bool" where
  "hr_takes e s i \<equiv> hr_head s i \<noteq> HR_INVPTR \<and> e \<le> hr_seen s i"

lemma hr_find_run:
  assumes "batch_links (smr_refs s) bs" "distinct bs" "bs \<noteq> []"
  shows "\<exists>nx. hr_find_slots (map (hr_at s) js) e (last bs) (hd bs) (s, [])
      = (if length (filter (hr_takes e s) js) < length bs then Some (bs ! length (filter (hr_takes e s) js)) else None,
         (s\<lparr>smr_next := nx\<rparr>, []))
    \<and> (\<forall>x. x \<notin> set bs \<longrightarrow> nx x = smr_next s x)
    \<and> (length (filter (hr_takes e s) js) < length bs \<longrightarrow>
         (\<forall>q < length (filter (hr_takes e s) js). nx (bs ! q) = hr_at s (filter (hr_takes e s) js ! q)))"
  using assms
proof (induction js arbitrary: bs s)
  case Nil
  have "s = s\<lparr>smr_next := smr_next s\<rparr>" by simp
  with Nil show ?case by (intro exI [of _ "smr_next s"]) (simp add: hd_conv_nth)
next
  case (Cons j js)
  note rd = hr_head_def [of s j, symmetric] hr_seen_def [of s j, symmetric]
  show ?case
  proof (cases "hr_takes e s j")
    case False
    then have "hr_find_slots (map (hr_at s) (j # js)) e (last bs) (hd bs) (s, [])
        = hr_find_slots (map (hr_at s) js) e (last bs) (hd bs) (s, [])"
      by (auto simp: load_alone rd not_le)
    moreover have "filter (hr_takes e s) (j # js) = filter (hr_takes e s) js" using False by simp
    ultimately show ?thesis using Cons.IH [OF Cons.prems] by (simp only:)
  next
    case True
    show ?thesis
    proof (cases "tl bs")
      case Nil
      then obtain x where bs: "bs = [x]" using Cons.prems(3) by (cases bs) auto
      have e: "s\<lparr>smr_next := smr_next s\<rparr> = s" by simp
      have "hr_find_slots (map (hr_at s) (j # js)) e x x (s, []) = (None, (s, []))"
        using True by (simp add: load_alone rd not_le [symmetric])
      with True bs e show ?thesis by (intro exI [of _ "smr_next s"]) (simp del: hr_find_slots.simps)
    next
      case (Cons y r)
      then obtain x where bs: "bs = x # y # r" using Cons.prems(3) by (cases bs) auto
      let ?s = "smr_set_next x (hr_at s j) s"
      have f: "hr_head ?s = hr_head s" "hr_seen ?s = hr_seen s" "hr_slots ?s = hr_slots s" "smr_refs ?s = smr_refs s" "hr_num ?s = hr_num s"
        "smr_next ?s = (smr_next s)(x := hr_at s j)" "?s\<lparr>smr_next := nx\<rparr> = s\<lparr>smr_next := nx\<rparr>" for nx
        by (simp_all add: smr_set_next_def hr_head_def hr_seen_def fun_eq_iff)
      have x: "x \<notin> set (y # r)" "x \<noteq> last (y # r)" "smr_refs s x = y" "batch_links (smr_refs s) (y # r)"
        using Cons.prems(1,2) bs last_in_set [of "y # r"] by auto
      let ?fs = "filter (hr_takes e s) js"
      have "distinct (y # r)" using Cons.prems(2) bs by simp
      from Cons.IH [of ?s "y # r", unfolded f, OF x(4) this]
      obtain nx where r: "hr_find_slots (map (hr_at s) js) e (last (y # r)) y (?s, [])
          = (if length ?fs < length (y # r) then Some ((y # r) ! length ?fs) else None, (s\<lparr>smr_next := nx\<rparr>, []))"
        "\<forall>z. z \<notin> set (y # r) \<longrightarrow> nx z = ((smr_next s)(x := hr_at s j)) z"
        "length ?fs < length (y # r) \<longrightarrow> (\<forall>q < length ?fs. nx ((y # r) ! q) = hr_at s (?fs ! q))"
        unfolding list.sel by blast
      have ft: "filter (hr_takes e s) (j # js) = j # ?fs" using True by simp
      have "hr_find_slots (map (hr_at s) (j # js)) e (last bs) (hd bs) (s, [])
          = hr_find_slots (map (hr_at s) js) e (last (y # r)) y (?s, [])"
        using True x bs by (simp add: load_alone own_alone rd not_le [symmetric] f(4))
      moreover have "nx (bs ! q) = hr_at s ((j # ?fs) ! q)" if "q < length (j # ?fs)" "length (j # ?fs) < length bs" for q
        using r(2,3) x(1) that bs by (cases q) auto
      ultimately show ?thesis using r(1,2) unfolding ft
        by (intro exI [of _ nx]) (simp add: bs)
    qed
  qed
qed

lemma hr_push_all_run:
  assumes "hr_fits n k s" "\<forall>u < n * k. hr_slot_ok (smr_next s) (hr_head s u) (L u)" "set js \<subseteq> {..<n * k}" "distinct js"
    "batch_links (smr_refs s) bs" "distinct bs" "length js < length bs" "\<forall>q < length js. smr_next s (bs ! q) = hr_at s (js ! q)"
    "\<forall>j \<in> set js. hr_takes e s j" "\<forall>u < n * k. set (L u) \<inter> set bs = {}" "\<forall>x \<in> set bs. hr_node x" "length bs < fuel"
  shows "\<exists>nx m L'. hr_push_all fuel e (bs ! length js) (hd bs) adjs (s, [])
        = Some (adjs + of_nat (length js), (s\<lparr>smr_next := nx, hr_mem := m\<rparr>, []))
     \<and> (\<forall>u < n * k. hr_slot_ok nx (hr_head (s\<lparr>smr_next := nx, hr_mem := m\<rparr>) u) (L' u)
          \<and> hr_seen (s\<lparr>smr_next := nx, hr_mem := m\<rparr>) u = hr_seen s u
          \<and> (hr_head (s\<lparr>smr_next := nx, hr_mem := m\<rparr>) u = HR_INVPTR \<longleftrightarrow> hr_head s u = HR_INVPTR))
     \<and> (\<forall>u. if u \<in> set js then \<exists>x \<in> set (butlast bs). L' u = x # L u else L' u = L u)
     \<and> (\<forall>x. x \<notin> set (butlast bs) \<longrightarrow> nx x = smr_next s x)"
  using assms
proof (induction js arbitrary: s L bs adjs fuel)
  case Nil
  obtain f where f: "fuel = Suc f" using Nil.prems(12) by (cases fuel) auto
  have "bs \<noteq> []" using Nil.prems(7) by auto
  then have b: "bs ! 0 = hd bs" by (simp add: hd_conv_nth)
  have "s = s\<lparr>smr_next := smr_next s, hr_mem := hr_mem s\<rparr>" by simp
  with Nil.prems(2) b f show ?case
    by (intro exI [of _ "smr_next s"] exI [of _ "hr_mem s"] exI [of _ L]) simp
next
  case (Cons j js)
  from Cons.prems(7) obtain x y r where bs: "bs = x # y # r" by (cases bs; cases "tl bs") auto
  from Cons.prems(12) bs obtain f where f: "fuel = Suc (Suc f)" "length (y # r) < Suc f" by (cases fuel; cases "fuel - 1") auto
  let ?v = "hr_head s j"
  let ?s = "hr_put (hr_at s j) x (smr_set_next x ?v s)" let ?L = "L(j := x # L j)"
  have j: "j < n * k" "hr_takes e s j" "j \<notin> set js" using Cons.prems(3,4,9) by auto
  have x: "x \<noteq> 0" "x \<noteq> HR_INVPTR" "x \<notin> set (y # r)" "smr_refs s x = y" "smr_next s x = hr_at s j"
    using Cons.prems(5,6,11) Cons.prems(8) [rule_format, of 0] bs by (auto simp: hr_node_def)
  let ?t = "smr_set_next x ?v s"
  have t: "hr_head ?t = hr_head s" "hr_seen ?t = hr_seen s" "hr_slots ?t = hr_slots s" "hr_num ?t = hr_num s" "hr_fits n k ?t = hr_fits n k s"
    by (simp_all add: smr_set_next_def hr_head_def hr_seen_def fun_eq_iff hr_fits_def)
  have fld: "hr_at ?s = hr_at s" "smr_refs ?s = smr_refs s" "smr_next ?s = (smr_next s)(x := ?v)" "hr_fits n k ?s"
    "?s\<lparr>smr_next := nx, hr_mem := m\<rparr> = s\<lparr>smr_next := nx, hr_mem := m\<rparr>" for nx m
    using Cons.prems(1) by (simp_all add: smr_set_next_def hr_put_def hr_fits_def fun_eq_iff)
  have hs: "hr_head ?s u = (if u = j then x else hr_head s u) \<and> hr_seen ?s u = hr_seen s u" if "u < n * k" for u
    using hr_put_slot(1,2) [OF _ j(1) that, of ?t x] Cons.prems(1) unfolding t by simp
  have rear: "bs ! length (j # js) = (y # r) ! length js" "(y # r) ! length js \<in> set (y # r)"
    using Cons.prems(7) bs nth_mem [of "length js" "y # r"] by simp_all
  have mv: "hr_mem s (hr_at s j) = ?v" "hr_mem s (hr_epoch_addr (hr_at s j)) = hr_seen s j" "hr_mem ?t = hr_mem s"
    by (simp_all add: hr_head_def hr_seen_def smr_set_next_def)
  then have push: "hr_push (Suc f) e x (hr_at s j) ?v (s, []) = Some (True, (?s, []))"
    using j(2) by (simp add: load_alone own_alone cas_alone not_le [symmetric])
  have one: "hr_push_all (Suc (Suc f)) e z x adjs (s, []) = hr_push_all (Suc f) e z y (adjs + 1) (?s, [])" if "x \<noteq> z" for z
    unfolding hr_push_all.simps(2) [of "Suc f"] Let_def fst_conv load_alone x(5) prod.case mv(1) push
    using that x(4) fld(2) by (simp del: hr_push_all.simps)
  have "x \<noteq> (y # r) ! length js" using x(3) rear(2) by metis
  from one [OF this] have run: "hr_push_all fuel e (bs ! length (j # js)) (hd bs) adjs (s, [])
      = hr_push_all (Suc f) e ((y # r) ! length js) (hd (y # r)) (adjs + 1) (?s, [])"
    unfolding f(1) rear(1) unfolding bs list.sel .
  have "\<exists>nx m L'. hr_push_all (Suc f) e ((y # r) ! length js) (hd (y # r)) (adjs + 1) (?s, [])
        = Some (adjs + 1 + of_nat (length js), (?s\<lparr>smr_next := nx, hr_mem := m\<rparr>, []))
     \<and> (\<forall>u < n * k. hr_slot_ok nx (hr_head (?s\<lparr>smr_next := nx, hr_mem := m\<rparr>) u) (L' u)
          \<and> hr_seen (?s\<lparr>smr_next := nx, hr_mem := m\<rparr>) u = hr_seen ?s u
          \<and> (hr_head (?s\<lparr>smr_next := nx, hr_mem := m\<rparr>) u = HR_INVPTR \<longleftrightarrow> hr_head ?s u = HR_INVPTR))
     \<and> (\<forall>u. if u \<in> set js then \<exists>x \<in> set (butlast (y # r)). L' u = x # ?L u else L' u = ?L u)
     \<and> (\<forall>x. x \<notin> set (butlast (y # r)) \<longrightarrow> nx x = smr_next ?s x)"
  proof (rule Cons.IH [OF fld(4)])
    show "\<forall>u < n * k. hr_slot_ok (smr_next ?s) (hr_head ?s u) (?L u)"
    proof (intro allI impI)
      fix u assume u: "u < n * k"
      have out: "x \<notin> set (L u)" using Cons.prems(10) u bs by auto
      then have "hr_slot_ok (smr_next ?s) (hr_head s u) (L u)"
        using Cons.prems(2) u hr_slot_ok_cong [of "L u" "smr_next ?s" "smr_next s" "hr_head s u"] unfolding fld(3) by auto
      with hs [OF u] x(1,2) j(2) show "hr_slot_ok (smr_next ?s) (hr_head ?s u) (?L u)"
        unfolding fld(3) by (auto simp: hr_slot_ok_def)
    qed
    show "\<forall>q < length js. smr_next ?s ((y # r) ! q) = hr_at ?s (js ! q)"
    proof (intro allI impI)
      fix q assume q: "q < length js"
      have "(y # r) ! q \<in> set (y # r)" by (rule nth_mem) (use q Cons.prems(7) bs in simp)
      then have "(y # r) ! q \<noteq> x" using x(3) by metis
      with Cons.prems(8) [rule_format, of "Suc q"] q bs show "smr_next ?s ((y # r) ! q) = hr_at ?s (js ! q)"
        unfolding fld(3) by (simp add: hr_put_fields smr_set_next_def)
    qed
    show "\<forall>u \<in> set js. hr_takes e ?s u"
    proof
      fix u assume u: "u \<in> set js"
      then have "u < n * k" "u \<noteq> j" using Cons.prems(3) j(3) by auto
      with hs [of u] Cons.prems(9) u show "hr_takes e ?s u" by simp
    qed
  qed (use Cons.prems bs f(2) fld(2) x(3) in auto)
  then obtain nx m L' where r: "hr_push_all (Suc f) e ((y # r) ! length js) (hd (y # r)) (adjs + 1) (?s, [])
        = Some (adjs + 1 + of_nat (length js), (s\<lparr>smr_next := nx, hr_mem := m\<rparr>, []))"
     "\<forall>u < n * k. hr_slot_ok nx (hr_head (s\<lparr>smr_next := nx, hr_mem := m\<rparr>) u) (L' u)
          \<and> hr_seen (s\<lparr>smr_next := nx, hr_mem := m\<rparr>) u = hr_seen ?s u
          \<and> (hr_head (s\<lparr>smr_next := nx, hr_mem := m\<rparr>) u = HR_INVPTR \<longleftrightarrow> hr_head ?s u = HR_INVPTR)"
     "\<forall>u. if u \<in> set js then \<exists>x \<in> set (butlast (y # r)). L' u = x # ?L u else L' u = ?L u"
     "\<forall>x. x \<notin> set (butlast (y # r)) \<longrightarrow> nx x = smr_next ?s x" unfolding fld(5) by blast
  have "if u \<in> set (j # js) then \<exists>x \<in> set (butlast bs). L' u = x # L u else L' u = L u" for u
    using r(3) [rule_format, of u] j(3) bs by (cases "u = j") auto
  moreover have "nx z = smr_next s z" if "z \<notin> set (butlast bs)" for z
    using r(4) that bs unfolding fld(3) by simp
  moreover have "hr_slot_ok nx (hr_head (s\<lparr>smr_next := nx, hr_mem := m\<rparr>) u) (L' u)
          \<and> hr_seen (s\<lparr>smr_next := nx, hr_mem := m\<rparr>) u = hr_seen s u
          \<and> (hr_head (s\<lparr>smr_next := nx, hr_mem := m\<rparr>) u = HR_INVPTR \<longleftrightarrow> hr_head s u = HR_INVPTR)" if u: "u < n * k" for u
    using r(2) [rule_format, OF u] hs [OF u] x(2) j(2) by (cases "u = j") simp_all
  moreover have "hr_push_all fuel e (bs ! length (j # js)) (hd bs) adjs (s, [])
      = Some (adjs + of_nat (length (j # js)), (s\<lparr>smr_next := nx, hr_mem := m\<rparr>, []))"
    using run r(1) by (simp add: algebra_simps)
  ultimately show ?case by blast
qed

text \<open>Node \<open>x\<close> waits for slot \<open>i\<close>: it is in an open batch that the slot will get, or in a batch on the list of the slot.\<close>

definition hr_guarded :: "nat \<Rightarrow> (nat \<Rightarrow> ptr list) \<Rightarrow> ptr list list \<Rightarrow> (nat \<Rightarrow> ptr list) \<Rightarrow> hr \<Rightarrow> nat \<Rightarrow> ptr \<Rightarrow> bool" where
  "hr_guarded n L B W s i x \<longleftrightarrow> (\<exists>v<n. x \<in> set (W v) \<and> hb_min_epoch (hr_batches s v) \<le> hr_seen s i)
     \<or> (\<exists>b \<in> set B. x \<in> set b \<and> set (L i) \<inter> set b \<noteq> {})"

lemma hr_guarded_pool: "hr_guarded n L B W s i x \<Longrightarrow> x \<in> set (pool n (hr_own F W) B)"
  by (auto simp: hr_guarded_def hr_pool_mem)

lemma hr_state_next:
  assumes st: "hr_state n k h L B F W s" and t: "t < n"
    and same: "smr_refs s' = smr_refs s" "smr_link s' = smr_link s" "\<forall>x. x \<notin> set (W t) \<longrightarrow> smr_next s' x = smr_next s x"
      "hr_batches s' = hr_batches s" "hr_fits n k s'"
  shows "hr_state n k h L B F W s'"
proof (rule hr_stateI)
  note S = hr_stateD [OF st] note P = hr_pool_parts [OF S(6)]
  have sn: "same_nodes (set (W t)) s s'" using same(1-3) by (simp add: same_nodes_def)
  show "hr_fits n k s'" by (rule same(5))
  show "smr_inv (n * k) L B [] 0 s'" by (rule smr_inv_same [OF S(2) sn]) (use P(4) [OF t] in simp)
  show "hr_slot_ok (smr_next s') (h j) (L j)" if j: "j < n * k" for j
  proof -
    have "\<forall>x \<in> set (L j). smr_next s' x = smr_next s x" using same(3) slot_node(1) [OF S(2) j] P(4) [OF t] by blast
    then show ?thesis using S(3) [OF j] hr_slot_ok_cong [of "L j" "smr_next s'" "smr_next s"] by simp
  qed
  show "pend s' (hr_list s' u) (F u)" if u: "u < n" for u
  proof -
    have "set (W t) \<inter> set (concat (F u)) = {}" using P(3) [OF t] P(7) [OF t u] by (cases "u = t") auto
    from pend_same [OF sn this S(4) [OF u]] show ?thesis using same(4) by simp
  qed
  show "hr_open s' u (W u)" if "u < n" for u
    using S(5) [OF that] same by (simp add: hr_open_def open_ok_def)
qed (fact hr_stateD [OF st])+

text \<open>The open batch \<open>W t\<close> is closed: its nodes join the batches that wait, or are freed.\<close>

lemma hr_state_close:
  assumes st: "hr_state n k h L B F W s" and t: "t < n"
    and same: "same_nodes (set (W t)) s s'" "hr_fits n k s'" "hb_first (hr_batches s' t) = 0"
      "\<And>u. u \<noteq> t \<Longrightarrow> hr_batches s' u = hr_batches s u" "\<And>u. hr_list s' u = hr_list s u"
    and new: "smr_inv (n * k) L' B' [] 0 s'" "\<And>i. i < n * k \<Longrightarrow> hr_slot_ok (smr_next s') (h' i) (L' i)"
    and ms: "mset (concat B') + mset zs = mset (W t) + mset (concat B)"
  shows "hr_state n k h' L' B' F (W(t := [])) s'"
    "mset (pool n (hr_own F (W(t := []))) B') + mset zs = mset (pool n (hr_own F W) B)"
proof -
  note S = hr_stateD [OF st] note P = hr_pool_parts [OF S(6)]
  have pool: "mset (pool n (hr_own F (W(t := []))) B') + mset zs = mset (pool n (hr_own F W) B) + mset []"
    by (rule hr_pool_step [OF S(6) t]) (use ms in \<open>simp_all add: ac_simps\<close>)
  then show "mset (pool n (hr_own F (W(t := []))) B') + mset zs = mset (pool n (hr_own F W) B)" by simp
  note P' = hr_pool_less [OF pool S(6,7)]
  show "hr_state n k h' L' B' F (W(t := [])) s'"
  proof (rule hr_stateI)
    show "hr_fits n k s'" by (rule same(2))
    show "smr_inv (n * k) L' B' [] 0 s'" by (rule new(1))
    show "hr_slot_ok (smr_next s') (h' j) (L' j)" if "j < n * k" for j by (rule new(2) [OF that])
    show "pend s' (hr_list s' u) (F u)" if u: "u < n" for u
    proof -
      have "set (W t) \<inter> set (concat (F u)) = {}" using P(3) [OF t] P(7) [OF t u] by (cases "u = t") auto
      from pend_same [OF same(1) this S(4) [OF u]] show ?thesis using same(5) by simp
    qed
    show "hr_open s' u ((W(t := [])) u)" if u: "u < n" for u
    proof (cases "u = t")
      case True
      then show ?thesis using same(3) by (simp add: hr_open_def open_ok_def)
    next
      case False
      have "hr_open s' u (W u)"
        by (rule hr_open_same [OF same(1) P(6) [OF t u False] _ _ S(5) [OF u]]) (use same(4) [OF False] in simp_all)
      with False show ?thesis by simp
    qed
    show "distinct (pool n (hr_own F (W(t := []))) B')" by (rule P'(1))
    show "\<forall>x \<in> set (pool n (hr_own F (W(t := []))) B'). hr_node x" by (rule P'(2))
  qed
qed

lemma hr_open_parts:
  assumes "hr_open s t b" "b \<noteq> []"
  shows "hb_first (hr_batches s t) = hd b" "hb_last (hr_batches s t) = last b" "batch_links (smr_refs s) b"
    "smr_refs s (last b) = 0" "\<forall>x \<in> set (butlast b). smr_link s x = last b"
  using assms by (simp_all add: hr_open_def open_ok_def)

text \<open>What \<open>try_retire\<close> leaves, and what it gives back.\<close>

definition hr_gives :: "nat \<Rightarrow> nat \<Rightarrow> u64 \<Rightarrow> nat \<Rightarrow> (nat \<Rightarrow> ptr list) \<Rightarrow> ptr list list \<Rightarrow> (nat \<Rightarrow> ptr list list) \<Rightarrow> (nat \<Rightarrow> ptr list) \<Rightarrow> hr
    \<Rightarrow> (nat \<Rightarrow> ptr list) \<Rightarrow> ptr list list \<Rightarrow> (nat \<Rightarrow> ptr list) \<Rightarrow> hr \<Rightarrow> bool" where
  "hr_gives n k sz t L B F W s L' B' W' s' \<longleftrightarrow> hr_epoch s' = hr_epoch s
     \<and> (\<forall>i < n * k. hr_seen s' i = hr_seen s i \<and> (hr_head s' i = HR_INVPTR \<longleftrightarrow> hr_head s i = HR_INVPTR))
     \<and> (\<exists>zs. reclaimed s' = reclaimed s @ map (\<lambda>x. x - sz) zs
          \<and> mset (pool n (hr_own F W') B') + mset zs = mset (pool n (hr_own F W) B))
     \<and> ((\<forall>i < n * k. \<not> hr_takes (hb_min_epoch (hr_batches s t)) s i) \<longrightarrow> reclaimed s' = reclaimed s @ map (\<lambda>x. x - sz) (W t))
     \<and> (\<forall>x. x \<notin> set (W t) \<longrightarrow> smr_next s' x = smr_next s x)
     \<and> (\<forall>i < n * k. \<forall>x. hr_head s i \<noteq> HR_INVPTR \<longrightarrow> hr_guarded n L B W s i x \<longrightarrow> hr_guarded n L' B' W' s' i x)"

abbreviation hr_closed :: "hr_batch \<Rightarrow> hr_batch" where
  "hr_closed b \<equiv> b\<lparr>hb_first := nullptr, hb_counter := 0\<rparr>"

lemma hr_closed_fields:
  "hb_first (hr_batches (hr_set_batch t hr_closed s) t) = 0"
  "u \<noteq> t \<Longrightarrow> hr_batches (hr_set_batch t hr_closed s) u = hr_batches s u"
  "hr_list (hr_set_batch t hr_closed s) u = hr_list s u"
  "hb_min_epoch (hr_batches (hr_set_batch t hr_closed s) u) = hb_min_epoch (hr_batches s u)"
  by (simp_all add: hr_set_batch_fields)

lemma hr_try_retire_step:
  assumes st: "hr_state n k (hr_head s) L B F W s" and t: "t < n"
    and b: "W t \<noteq> []" "smr_link s (last (W t)) = hd (W t)" and fuel: "length (W t) < fuel"
  shows "\<exists>s' L' B' W'. hr_try_retire fuel sz t (s, []) = Some (s', [])
    \<and> hr_state n k (hr_head s') L' B' F W' s' \<and> hr_gives n k sz t L B F W s L' B' W' s'"
proof -
  note S = hr_stateD [OF st] note P = hr_pool_parts [OF S(6) t]
  let ?b = "W t" let ?e = "hb_min_epoch (hr_batches s t)" let ?js = "filter (hr_takes ?e s) [0..<n * k]"
  have fits: "hr_fits n k s" "hr_num s = k" "task_num s = n" using S(1) by (simp_all add: hr_fits_def)
  note op = hr_open_parts [OF S(5) [OF t] b(1)]
  have slots: "map (hr_first s) (hr_locations (task_num s) (hr_num s)) = map (hr_at s) [0..<n * k]"
    by (simp add: hr_locations_eq fits)
  obtain nx where find: "hr_find_slots (map (hr_at s) [0..<n * k]) ?e (last ?b) (hd ?b) (s, [])
      = (if length ?js < length ?b then Some (?b ! length ?js) else None, (s\<lparr>smr_next := nx\<rparr>, []))"
    "\<forall>x. x \<notin> set ?b \<longrightarrow> nx x = smr_next s x"
    "length ?js < length ?b \<longrightarrow> (\<forall>q < length ?js. nx (?b ! q) = hr_at s (?js ! q))"
    using hr_find_run [OF op(3) P(1) b(1)] by blast
  let ?s1 = "s\<lparr>smr_next := nx\<rparr>"
  have f1: "hr_head ?s1 = hr_head s" "hr_seen ?s1 = hr_seen s" "hr_slots ?s1 = hr_slots s" "hr_num ?s1 = hr_num s" "hr_fits n k ?s1"
    using fits(1) by (simp_all add: hr_head_def hr_seen_def fun_eq_iff hr_fits_def)
  have st1: "hr_state n k (hr_head s) L B F W ?s1"
    by (rule hr_state_next [OF st t]) (use find(2) f1 in simp_all)
  show ?thesis
  proof (cases "length ?js < length ?b")
    case False
    then have "hr_try_retire fuel sz t (s, []) = Some (?s1, [])"
      using find(1) op(1,2) unfolding hr_try_retire_def fst_conv slots by simp
    moreover have "\<not> (\<forall>i < n * k. \<not> hr_takes ?e s i)"
    proof
      assume "\<forall>i < n * k. \<not> hr_takes ?e s i"
      then have "?js = []" by (auto simp: filter_empty_conv)
      then have "length ?js < length ?b" using b(1) by simp
      with False show False by simp
    qed
    then have "hr_gives n k sz t L B F W s L B W ?s1"
      using find(2) f1 unfolding hr_gives_def hr_guarded_def by auto
    ultimately show ?thesis using st1 unfolding f1(1) [symmetric] by blast
  next
    case len: True
    have LB: "\<forall>u < n * k. set (L u) \<inter> set ?b = {}" using slot_node(1) [OF S(2)] P(4) by blast
    have nodes: "\<forall>x \<in> set ?b. hr_node x" using S(7) hr_pool_sub(1) [OF t] by blast
    have "\<exists>nx2 m L'. hr_push_all fuel ?e (?b ! length ?js) (hd ?b) 0 (?s1, [])
        = Some (0 + of_nat (length ?js), (?s1\<lparr>smr_next := nx2, hr_mem := m\<rparr>, []))
     \<and> (\<forall>u < n * k. hr_slot_ok nx2 (hr_head (?s1\<lparr>smr_next := nx2, hr_mem := m\<rparr>) u) (L' u)
          \<and> hr_seen (?s1\<lparr>smr_next := nx2, hr_mem := m\<rparr>) u = hr_seen ?s1 u
          \<and> (hr_head (?s1\<lparr>smr_next := nx2, hr_mem := m\<rparr>) u = HR_INVPTR \<longleftrightarrow> hr_head ?s1 u = HR_INVPTR))
     \<and> (\<forall>u. if u \<in> set ?js then \<exists>x \<in> set (butlast ?b). L' u = x # L u else L' u = L u)
     \<and> (\<forall>x. x \<notin> set (butlast ?b) \<longrightarrow> nx2 x = smr_next ?s1 x)"
      by (rule hr_push_all_run [OF f1(5)])
        (use hr_stateD(3) [OF st1] op(3) P(1) len find(3) LB nodes fuel f1 in auto)
    then obtain nx2 m L' where push: "hr_push_all fuel ?e (?b ! length ?js) (hd ?b) 0 (?s1, [])
        = Some (of_nat (length ?js), (s\<lparr>smr_next := nx2, hr_mem := m\<rparr>, []))"
     "\<And>u. u < n * k \<Longrightarrow> hr_slot_ok nx2 (hr_head (s\<lparr>smr_next := nx2, hr_mem := m\<rparr>) u) (L' u)
          \<and> hr_seen (s\<lparr>smr_next := nx2, hr_mem := m\<rparr>) u = hr_seen s u
          \<and> (hr_head (s\<lparr>smr_next := nx2, hr_mem := m\<rparr>) u = HR_INVPTR \<longleftrightarrow> hr_head s u = HR_INVPTR)"
     "\<And>u. if u < n * k \<and> hr_takes ?e s u then \<exists>x \<in> set (butlast ?b). L' u = x # L u else L' u = L u"
     "\<And>x. x \<notin> set (butlast ?b) \<Longrightarrow> nx2 x = nx x" unfolding f1 by auto
    let ?s2 = "s\<lparr>smr_next := nx2, hr_mem := m\<rparr>"
    have nx2: "nx2 x = smr_next s x" if "x \<notin> set ?b" for x
      using push(4) [of x] find(2) that by (auto dest: in_set_butlastD)
    have small: "length ?js < 2 ^ 64"
      using length_filter_le [of "hr_takes ?e s" "[0..<n * k]"] S(8) by simp
    have zero: "(of_nat (length ?js) :: u64) = 0 \<longleftrightarrow> ?js = []" using of_nat_eq_small [OF small, of 0] by simp
    have lb: "last ?b \<in> set ?b" using b(1) by simp
    have run0: "hr_try_retire fuel sz t (s, []) = map_option (own (hr_set_batch t hr_closed))
        (if 0 = - (of_nat (length ?js) :: u64)
         then hr_free_list fuel sz (last ?b) (smr_set_next (last ?b) nullptr (smr_set_refs (last ?b) (of_nat (length ?js)) ?s2), [])
         else Some (smr_set_refs (last ?b) (of_nat (length ?js)) ?s2, []))"
      using find(1) len push(1) op(1,2,4) unfolding hr_try_retire_def fst_conv slots
      by (simp add: smr_fetch_add_alone store_alone Let_def)
    show ?thesis
    proof (cases "?js = []")
      case False
      let ?s3 = "smr_set_refs (last ?b) (of_nat (length ?js)) ?s2" let ?s4 = "hr_set_batch t hr_closed ?s3"
      have run: "hr_try_retire fuel sz t (s, []) = Some (?s4, [])"
        using run0 zero False by (simp add: own_alone)
      have fld: "smr_next ?s4 = nx2" "smr_link ?s4 = smr_link s" "smr_refs ?s4 = (smr_refs s)(last ?b := of_nat (length ?js))"
        "hr_head ?s4 = hr_head ?s2" "hr_seen ?s4 = hr_seen ?s2" "reclaimed ?s4 = reclaimed s" "hr_epoch ?s4 = hr_epoch s" "hr_fits n k ?s4"
        using fits(1) by (simp_all add: hr_set_batch_def smr_set_refs_def hr_head_def hr_seen_def hr_fits_def fun_eq_iff)
      have same: "same_nodes (set ?b) s ?s4" using nx2 lb by (auto simp: same_nodes_def fld)
      have "length ?js \<noteq> 0" using False by blast
      then have "2 \<le> length ?b" using len by linarith
      then have bok: "batch_ok s ?b" using op(3,5) b(2) by (simp add: batch_ok_def)
      have ex: "\<exists>u < n * k. hr_takes ?e s u" using False by (auto simp: filter_empty_conv)
      have inv: "smr_inv (n * k) L' (?b # B) [] 0 ?s4"
        by (rule smr_inv_hand [where tk = "hr_takes ?e s", OF S(2) bok P(1,4) _ push(3) ex same fld(2,3)])
          (use nodes in \<open>auto simp: hr_node_def\<close>)
      have bt: "hr_batches ?s4 = (hr_batches s)(t := hr_closed (hr_batches s t))"
        by (simp add: hr_set_batch_def smr_set_refs_def)
      have cl: "hb_first (hr_batches ?s4 t) = 0" "\<And>u. u \<noteq> t \<Longrightarrow> hr_batches ?s4 u = hr_batches s u"
        "\<And>u. hr_list ?s4 u = hr_list s u" by (simp_all add: bt)
      have so: "hr_slot_ok (smr_next ?s4) (hr_head ?s4 u) (L' u)" if "u < n * k" for u
        using push(2) [OF that] unfolding fld(1,4) by blast
      have ms: "mset (concat (?b # B)) + mset [] = mset ?b + mset (concat B)" by simp
      note C = hr_state_close [OF st t same fld(8) cl inv so ms]
      have gd: "hr_guarded n L' (?b # B) (W(t := [])) ?s4 i x"
        if i: "i < n * k" "hr_head s i \<noteq> HR_INVPTR" and g: "hr_guarded n L B W s i x" for i x
        using g unfolding hr_guarded_def
      proof (elim disjE exE conjE bexE)
        fix v assume v: "v < n" "x \<in> set (W v)" "hb_min_epoch (hr_batches s v) \<le> hr_seen s i"
        show "(\<exists>v<n. x \<in> set ((W(t := [])) v) \<and> hb_min_epoch (hr_batches ?s4 v) \<le> hr_seen ?s4 i)
           \<or> (\<exists>b \<in> set (?b # B). x \<in> set b \<and> set (L' i) \<inter> set b \<noteq> {})"
        proof (cases "v = t")
          case True
          then have "\<exists>y \<in> set (butlast ?b). L' i = y # L i" using push(3) [of i] i v(3) by simp
          then have "set (L' i) \<inter> set ?b \<noteq> {}" by (auto dest: in_set_butlastD)
          with True v(2) show ?thesis by auto
        next
          case False
          have "hr_seen ?s4 i = hr_seen s i" using push(2) [OF i(1)] fld(5) by simp
          moreover have "hr_batches ?s4 v = hr_batches s v" using False by (simp add: bt)
          ultimately have "v < n \<and> x \<in> set ((W(t := [])) v) \<and> hb_min_epoch (hr_batches ?s4 v) \<le> hr_seen ?s4 i" using v False by simp
          then show ?thesis by blast
        qed
      next
        fix c assume c: "c \<in> set B" "x \<in> set c" "set (L i) \<inter> set c \<noteq> {}"
        have "set (L i) \<subseteq> set (L' i)" using push(3) [of i] by (auto split: if_splits)
        with c show "(\<exists>v<n. x \<in> set ((W(t := [])) v) \<and> hb_min_epoch (hr_batches ?s4 v) \<le> hr_seen ?s4 i)
           \<or> (\<exists>b \<in> set (?b # B). x \<in> set b \<and> set (L' i) \<inter> set b \<noteq> {})" by auto
      qed
      have "hr_gives n k sz t L B F W s L' (?b # B) (W(t := [])) ?s4"
        unfolding hr_gives_def
      proof (intro conjI)
        show "\<forall>i < n * k. hr_seen ?s4 i = hr_seen s i \<and> (hr_head ?s4 i = HR_INVPTR \<longleftrightarrow> hr_head s i = HR_INVPTR)"
          using push(2) unfolding fld(4,5) by blast
        show "\<exists>zs. reclaimed ?s4 = reclaimed s @ map (\<lambda>x. x - sz) zs
          \<and> mset (pool n (hr_own F (W(t := []))) (?b # B)) + mset zs = mset (pool n (hr_own F W) B)"
          by (rule exI [of _ "[]"], rule conjI [OF _ C(2)]) (simp add: fld(6))
        show "(\<forall>i < n * k. \<not> hr_takes ?e s i) \<longrightarrow> reclaimed ?s4 = reclaimed s @ map (\<lambda>x. x - sz) ?b" using ex by blast
        show "\<forall>x. x \<notin> set ?b \<longrightarrow> smr_next ?s4 x = smr_next s x" unfolding fld(1) using nx2 by blast
      qed (use fld(7) gd in blast)+
      with run C(1) show ?thesis by blast
    next
      case True
      let ?s3 = "smr_set_next (last ?b) nullptr (smr_set_refs (last ?b) 0 ?s2)"
      have f3: "smr_next ?s3 = nx2(last ?b := 0)" "smr_link ?s3 = smr_link s" "smr_refs ?s3 = (smr_refs s)(last ?b := 0)"
        "reclaimed ?s3 = reclaimed s" by (simp_all add: smr_set_refs_def smr_set_next_def)
      have k3: "smr_kept ?s3 = smr_kept ?s2" by (cases s) (simp add: smr_set_refs_def smr_set_next_def)
      have "batch_links (smr_refs ?s3) ?b = batch_links (smr_refs s) ?b"
        using last_not_butlast [OF P(1)] unfolding f3 by (intro batch_links_cong) simp
      moreover have nb: "0 \<notin> set ?b" using nodes by (auto simp: hr_node_def)
      moreover have l0: "last ?b \<noteq> 0" using lb nb by metis
      ultimately have "chain (smr_refs ?s3) (hd ?b) ?b"
        using batch_links_chain [of "smr_refs ?s3" ?b] op(3) b(1) unfolding f3(3) by simp
      then have "pend ?s3 (last ?b) [?b]" using b l0 unfolding pend.simps f3 by auto
      then obtain s4 where s4: "smr_free_list fuel (last ?b) (hr_free_node sz) 0 (?s3, []) = Some (s4, [])"
        "reclaimed s4 = reclaimed ?s3 @ map (\<lambda>x. x - sz) (concat [?b])" "smr_kept s4 = smr_kept ?s3"
        "same_nodes (set (concat [?b])) ?s3 s4"
        using hr.free_list_run [of ?s3 "last ?b" "[?b]" fuel sz] P(1) fuel by auto
      let ?s5 = "hr_set_batch t hr_closed s4"
      have run: "hr_try_retire fuel sz t (s, []) = Some (?s5, [])"
        using run0 s4(1) True by (simp add: hr_free_list_def own_alone)
      have "smr_kept s4 = smr_kept ?s2" using s4(3) k3 by simp
      note v4 = smr_kept_view [OF this]
      have v: "hr_head ?s5 = hr_head ?s2" "hr_seen ?s5 = hr_seen ?s2" "hr_epoch ?s5 = hr_epoch s" "hr_fits n k ?s5"
        "reclaimed ?s5 = reclaimed s @ map (\<lambda>x. x - sz) ?b" "hr_batches ?s5 = (hr_batches s)(t := hr_closed (hr_batches s t))"
        using hr_viewD [OF v4 [THEN conjunct1]] v4 s4(2) f3(4) fits(1)
        by (simp_all add: hr_head_def hr_seen_def hr_set_batch_fields fun_eq_iff hr_fits_def)
      have cl: "hb_first (hr_batches ?s5 t) = 0" "\<And>u. u \<noteq> t \<Longrightarrow> hr_batches ?s5 u = hr_batches s u"
        "\<And>u. hr_list ?s5 u = hr_list s u" by (simp_all add: v(6))
      have "same_nodes (set ?b) s ?s3" using nx2 lb unfolding same_nodes_def f3 by auto
      then have "same_nodes (set ?b) s s4" by (rule same_nodes_trans [OF _ s4(4)]) simp
      then have same: "same_nodes (set ?b) s ?s5" by (rule same_nodes_trans [OF _ hr_set_batch_fields(1)]) simp
      have inv: "smr_inv (n * k) L B [] 0 ?s5" by (rule smr_inv_same [OF S(2) same]) (use P(4) in simp)
      have none: "\<not> hr_takes ?e s u" if "u < n * k" for u using True that by (auto simp: filter_empty_conv)
      have so: "hr_slot_ok (smr_next ?s5) (hr_head ?s5 u) (L u)" if u: "u < n * k" for u
      proof -
        have "L' u = L u" using push(3) [of u] none [OF u] by auto
        moreover have "smr_next ?s5 x = nx2 x" if "x \<in> set (L u)" for x
          using LB u that same nx2 [of x] unfolding same_nodes_def by (metis disjoint_iff)
        ultimately show ?thesis using push(2) [OF u] hr_slot_ok_cong [of "L u" "smr_next ?s5" nx2] unfolding v(1) by simp
      qed
      have ms: "mset (concat B) + mset ?b = mset ?b + mset (concat B)" by (simp add: ac_simps)
      note C = hr_state_close [OF st t same v(4) cl inv so ms]
      have gd: "hr_guarded n L B (W(t := [])) ?s5 i x"
        if i: "i < n * k" "hr_head s i \<noteq> HR_INVPTR" and g: "hr_guarded n L B W s i x" for i x
        using g unfolding hr_guarded_def
      proof (elim disjE exE conjE)
        fix u assume u: "u < n" "x \<in> set (W u)" "hb_min_epoch (hr_batches s u) \<le> hr_seen s i"
        have ut: "u \<noteq> t" using none [OF i(1)] i(2) u(3) by blast
        have "hr_seen ?s5 i = hr_seen s i" using push(2) [OF i(1)] v(2) by simp
        then have "u < n \<and> x \<in> set ((W(t := [])) u) \<and> hb_min_epoch (hr_batches ?s5 u) \<le> hr_seen ?s5 i"
          using u ut cl(2) [OF ut] by simp
        then show "(\<exists>v<n. x \<in> set ((W(t := [])) v) \<and> hb_min_epoch (hr_batches ?s5 v) \<le> hr_seen ?s5 i)
           \<or> (\<exists>b \<in> set B. x \<in> set b \<and> set (L i) \<inter> set b \<noteq> {})" by blast
      qed blast
      have "hr_gives n k sz t L B F W s L B (W(t := [])) ?s5"
        unfolding hr_gives_def
      proof (intro conjI)
        show "\<forall>i < n * k. hr_seen ?s5 i = hr_seen s i \<and> (hr_head ?s5 i = HR_INVPTR \<longleftrightarrow> hr_head s i = HR_INVPTR)"
          using push(2) unfolding v(1,2) by blast
        show "\<exists>zs. reclaimed ?s5 = reclaimed s @ map (\<lambda>x. x - sz) zs
          \<and> mset (pool n (hr_own F (W(t := []))) B) + mset zs = mset (pool n (hr_own F W) B)"
          using C(2) v(5) by blast
        show "(\<forall>i < n * k. \<not> hr_takes ?e s i) \<longrightarrow> reclaimed ?s5 = reclaimed s @ map (\<lambda>x. x - sz) ?b" using v(5) by blast
        show "\<forall>x. x \<notin> set ?b \<longrightarrow> smr_next ?s5 x = smr_next s x" using same by (simp add: same_nodes_def)
      qed (use v(3) gd in blast)+
      with run C(1) show ?thesis by blast
    qed
  qed
qed

section \<open>The node joins the open batch\<close>

definition hr_min :: "hr \<Rightarrow> nat \<Rightarrow> ptr list \<Rightarrow> u64 \<Rightarrow> u64" where
  "hr_min s t xs birth = (if xs = [] \<or> birth < hb_min_epoch (hr_batches s t) then birth else hb_min_epoch (hr_batches s t))"

lemma hr_min_le: "hr_min s t xs birth \<le> birth" "xs \<noteq> [] \<Longrightarrow> hr_min s t xs birth \<le> hb_min_epoch (hr_batches s t)"
  by (auto simp: hr_min_def)

definition hr_join :: "nat \<Rightarrow> ptr \<Rightarrow> ptr list \<Rightarrow> hr \<Rightarrow> hr" where
  "hr_join t x xs s = hr_set_batch t (\<lambda>b. b\<lparr>hb_min_epoch := hr_min s t xs (smr_next s x), hb_last := last (x # xs),
     hb_first := x, hb_counter := hb_counter b + 1\<rparr>) (smr_add_node x xs s)"

lemma hr_join_fields:
  "smr_next (hr_join t x xs s) = smr_next s" "smr_link (hr_join t x xs s) = smr_link (smr_add_node x xs s)"
  "smr_refs (hr_join t x xs s) = smr_refs (smr_add_node x xs s)" "reclaimed (hr_join t x xs s) = reclaimed s"
  "hr_mem (hr_join t x xs s) = hr_mem s" "hr_epoch (hr_join t x xs s) = hr_epoch s" "cells (hr_join t x xs s) = cells s"
  "hr_head (hr_join t x xs s) = hr_head s" "hr_seen (hr_join t x xs s) = hr_seen s" "hr_fits n k (hr_join t x xs s) = hr_fits n k s"
  "u \<noteq> t \<Longrightarrow> hr_batches (hr_join t x xs s) u = hr_batches s u" "hr_list (hr_join t x xs s) u = hr_list s u"
  "hb_first (hr_batches (hr_join t x xs s) t) = x" "hb_last (hr_batches (hr_join t x xs s) t) = last (x # xs)"
  "hb_min_epoch (hr_batches (hr_join t x xs s) t) = hr_min s t xs (smr_next s x)"
  "hb_counter (hr_batches (hr_join t x xs s) t) = hb_counter (hr_batches s t) + 1"
  "hr_collect (hr_join t x xs s) = hr_collect s" "hr_freq (hr_join t x xs s) = hr_freq s"
  by (simp_all add: hr_join_def hr_set_batch_def smr_add_node_def smr_set_refs_def smr_set_link_def hr_head_def hr_seen_def
      hr_fits_def fun_eq_iff)

lemma hr_retire_eq:
  assumes op: "hr_open s t xs" and nz: "0 \<notin> set xs" and p: "p \<noteq> nullptr"
  shows "hr_retire fuel sz p t (s, []) =
    (let s = hr_join t (p + sz) xs s
     in if hr_collect s \<and> hb_counter (hr_batches s t) mod of_int (hr_freq s) = 0
        then hr_try_retire fuel sz t (smr_set_link (last ((p + sz) # xs)) (p + sz) s, []) else Some (s, []))"
proof (cases "xs = []")
  case True
  have b: "hb_first (hr_batches s t) = 0" using op True by (simp add: hr_open_def open_ok_def)
  let ?s1 = "hr_set_batch t (\<lambda>b. b\<lparr>hb_min_epoch := smr_next s (p + sz), hb_last := p + sz\<rparr>) s"
  have j: "hr_set_batch t (\<lambda>b. b\<lparr>hb_first := p + sz, hb_counter := hb_counter b + 1\<rparr>) (smr_set_refs (p + sz) 0 ?s1)
      = hr_join t (p + sz) [] s"
    by (cases s) (simp add: hr_join_def hr_min_def smr_add_node_def hr_set_batch_def smr_set_refs_def)
  have f: "hb_first (hr_batches ?s1 t) = 0" "hb_last (hr_batches (hr_join t (p + sz) [] s) t) = p + sz"
    using b by (simp_all add: hr_set_batch_fields hr_join_fields)
  show ?thesis using p b unfolding hr_retire_def True
    by (simp only: own_alone fst_conv f j Let_def if_True if_False if_not_P last.simps simp_thms)
next
  case False
  have b: "hb_first (hr_batches s t) = hd xs" "hb_last (hr_batches s t) = last xs" using hr_open_parts [OF op False] by simp_all
  have h: "hd xs \<noteq> 0" using nz False by (metis hd_in_set)
  let ?m = "\<lambda>s. if hb_min_epoch (hr_batches s t) > smr_next s (p + sz) then hr_set_batch t (hb_min_epoch_update (\<lambda>_. smr_next s (p + sz))) s else s"
  let ?s1 = "smr_set_link (p + sz) (last xs) (?m s)"
  have j: "hr_set_batch t (\<lambda>b. b\<lparr>hb_first := p + sz, hb_counter := hb_counter b + 1\<rparr>) (smr_set_refs (p + sz) (hd xs) ?s1)
      = hr_join t (p + sz) xs s"
    using False b(2) by (cases s) (auto simp: hr_join_def hr_min_def smr_add_node_def hr_set_batch_def smr_set_refs_def smr_set_link_def)
  have f: "hb_first (hr_batches ?s1 t) = hd xs" "hb_last (hr_batches (hr_join t (p + sz) xs s) t) = last ((p + sz) # xs)"
    using b False by (auto simp: hr_set_batch_fields hr_join_fields smr_set_link_def)
  have m: "(if hb_min_epoch (hr_batches s t) > smr_next s (p + sz)
      then (hr_set_batch t (hb_min_epoch_update (\<lambda>_. smr_next s (p + sz))) s, []) else (s, [] :: (hr \<Rightarrow> hr) list)) = (?m s, [])"
    by simp
  show ?thesis using p h unfolding hr_retire_def
    by (simp only: own_alone fst_conv f j m b Let_def if_True if_False if_not_P simp_thms)
qed

lemma hr_join_state:
  assumes st: "hr_state n k h L B F W s" and t: "t < n" and x: "hr_node x" "x \<notin> set (pool n (hr_own F W) B)"
  shows "hr_state n k h L B F (W(t := x # W t)) (hr_join t x (W t) s)"
    "mset (pool n (hr_own F (W(t := x # W t))) B) = mset (pool n (hr_own F W) B) + mset [x]"
proof -
  note S = hr_stateD [OF st] note P = hr_pool_parts [OF S(6)]
  let ?s = "hr_join t x (W t) s" let ?W = "W(t := x # W t)"
  note J = hr_join_fields [where t = t and x = x and xs = "W t" and s = s]
  have same: "same_nodes {x} s ?s" using smr_add_node_same [of x s "W t"] by (simp add: same_nodes_def J)
  have out: "x \<notin> set (W u)" "x \<notin> set (concat (F u))" if "u < n" for u
    using x(2) hr_pool_sub(1) [where W = W and F = F and B = B, OF that] hr_pool_sub(2) [where W = W and F = F and B = B, OF that] by blast+
  have outB: "x \<notin> set (concat B)" using x(2) hr_pool_sub(3) [where W = W and F = F and B = B and n = n] by blast
  have pool: "mset (pool n (hr_own F ?W) B) + mset [] = mset (pool n (hr_own F W) B) + mset [x]"
    by (rule hr_pool_step [OF S(6) t]) simp_all
  then show "mset (pool n (hr_own F ?W) B) = mset (pool n (hr_own F W) B) + mset [x]" by simp
  have Px: "set [x] \<inter> set (pool n (hr_own F W) B) = {}" "\<forall>y \<in> set (pool n (hr_own F W) B) \<union> set [x]. hr_node y" "distinct [x]"
    using x S(7) by auto
  note P' = hr_pool_after [OF pool S(6) Px(3,1,2)]
  show "hr_state n k h L B F ?W ?s"
  proof (rule hr_stateI)
    show "hr_fits n k ?s" using S(1) J by simp
    show "smr_inv (n * k) L B [] 0 ?s" by (rule smr_inv_same [OF S(2) same]) (use outB in simp)
    show "hr_slot_ok (smr_next ?s) (h j) (L j)" if "j < n * k" for j using S(3) [OF that] J by simp
    show "pend ?s (hr_list ?s u) (F u)" if u: "u < n" for u
      using pend_same [OF same _ S(4) [OF u]] out(2) [OF u] J(12) [of u] by simp
    show "hr_open ?s u (?W u)" if u: "u < n" for u
    proof (cases "u = t")
      case True
      have o: "open_ok s (hr_bt s t (W t)) (Suc (length (W t))) (W t)" using S(5) [OF t] by (simp add: hr_open_def)
      note L = smr_add_node_links [OF o out(1) [OF t]]
      show ?thesis using L True unfolding hr_open_def open_ok_def J by (simp add: J)
    next
      case False
      have "hr_open ?s u (W u)"
        by (rule hr_open_same [OF same _ _ _ S(5) [OF u]]) (use out(1) [OF u] J(11) [OF False] in simp_all)
      with False show ?thesis by simp
    qed
    show "distinct (pool n (hr_own F ?W) B)" by (rule P'(1))
    show "\<forall>x \<in> set (pool n (hr_own F ?W) B). hr_node x" by (rule P'(2))
  qed
qed

lemma hr_link_state:
  assumes st: "hr_state n k h L B F W s" and t: "t < n" and b: "W t \<noteq> []"
  shows "hr_state n k h L B F W (smr_set_link (last (W t)) v s)"
proof (rule hr_stateI)
  note S = hr_stateD [OF st] note P = hr_pool_parts [OF S(6)]
  let ?s = "smr_set_link (last (W t)) v s"
  have l: "last (W t) \<in> set (W t)" using b by simp
  have same: "same_nodes {last (W t)} s ?s" by (simp add: same_nodes_def smr_set_link_def)
  have fld: "hr_batches ?s = hr_batches s" "smr_refs ?s = smr_refs s" "smr_next ?s = smr_next s" "hr_fits n k ?s = hr_fits n k s"
    by (simp_all add: smr_set_link_def hr_fits_def)
  show "hr_fits n k ?s" using S(1) fld by simp
  show "smr_inv (n * k) L B [] 0 ?s" by (rule smr_inv_same [OF S(2) same]) (use l P(4) [OF t] in auto)
  show "hr_slot_ok (smr_next ?s) (h j) (L j)" if "j < n * k" for j using S(3) [OF that] fld by simp
  show "pend ?s (hr_list ?s u) (F u)" if u: "u < n" for u
  proof -
    have "set (W t) \<inter> set (concat (F u)) = {}" using P(3) [OF t] P(7) [OF t u] by (cases "u = t") auto
    with l have "{last (W t)} \<inter> set (concat (F u)) = {}" by blast
    from pend_same [OF same this S(4) [OF u]] show ?thesis using fld by simp
  qed
  show "hr_open ?s u (W u)" if u: "u < n" for u
  proof (cases "u = t")
    case True
    have "smr_link ?s y = smr_link s y" if "y \<in> set (butlast (W t))" for y
      using last_not_butlast [OF P(1) [OF t] that] by (simp add: smr_set_link_def)
    with S(5) [OF t] True fld show ?thesis by (simp add: hr_open_def open_ok_def)
  next
    case False
    have "{last (W t)} \<inter> set (W u) = {}" using P(6) [OF t u False] l by blast
    from hr_open_same [OF same this _ _ S(5) [OF u]] show ?thesis using fld by simp
  qed
qed (fact hr_stateD [OF st])+

lemma hr_guarded_join:
  assumes "t < n" "hr_guarded n L B W s i x \<or> x = y \<and> smr_next s y \<le> hr_seen s i"
  shows "hr_guarded n L B (W(t := y # W t)) (hr_join t y (W t) s) i x"
  using assms(2)
proof (elim disjE)
  note J = hr_join_fields [where t = t and x = y and xs = "W t" and s = s]
  assume "hr_guarded n L B W s i x"
  then show ?thesis unfolding hr_guarded_def
  proof (elim disjE exE conjE)
    fix v assume v: "v < n" "x \<in> set (W v)" "hb_min_epoch (hr_batches s v) \<le> hr_seen s i"
    have "hb_min_epoch (hr_batches (hr_join t y (W t) s) v) \<le> hr_seen s i"
    proof (cases "v = t")
      case True
      have "W t \<noteq> []" using v(2) True by auto
      from order_trans [OF hr_min_le(2) [OF this] v(3) [unfolded True]] show ?thesis unfolding True J .
    next
      case False
      with v(3) show ?thesis by (simp add: J)
    qed
    with v(1,2) show "(\<exists>v<n. x \<in> set ((W(t := y # W t)) v) \<and> hb_min_epoch (hr_batches (hr_join t y (W t) s) v) \<le> hr_seen (hr_join t y (W t) s) i)
       \<or> (\<exists>b \<in> set B. x \<in> set b \<and> set (L i) \<inter> set b \<noteq> {})" unfolding J by (intro disjI1 exI [of _ v]) auto
  qed blast
next
  note J = hr_join_fields [where t = t and x = y and xs = "W t" and s = s]
  assume "x = y \<and> smr_next s y \<le> hr_seen s i"
  then have "x \<in> set ((W(t := y # W t)) t)" "hb_min_epoch (hr_batches (hr_join t y (W t) s) t) \<le> hr_seen s i"
    using hr_min_le(1) [of s t "W t" "smr_next s y"] by (auto simp: J)
  with assms(1) show ?thesis unfolding hr_guarded_def J(9) by (intro disjI1 exI [of _ t] conjI)
qed

lemma hr_retire_step:
  assumes st: "hr_state n k (hr_head s) L B F W s" and t: "t < n" and p: "p \<noteq> nullptr"
    and x: "hr_node (p + sz)" "p + sz \<notin> set (pool n (hr_own F W) B)" and fuel: "Suc (length (W t)) < fuel"
  shows "\<exists>s' L' B' W' zs. hr_retire fuel sz p t (s, []) = Some (s', []) \<and> hr_state n k (hr_head s') L' B' F W' s'
    \<and> hr_epoch s' = hr_epoch s \<and> reclaimed s' = reclaimed s @ map (\<lambda>x. x - sz) zs
    \<and> mset (pool n (hr_own F W') B') + mset zs = mset (pool n (hr_own F W) B) + mset [p + sz]
    \<and> (\<forall>i < n * k. hr_seen s' i = hr_seen s i \<and> (hr_head s' i = HR_INVPTR \<longleftrightarrow> hr_head s i = HR_INVPTR))
    \<and> (hr_collect s \<and> (hb_counter (hr_batches s t) + 1) mod of_int (hr_freq s) = 0
         \<and> (\<forall>i < n * k. \<not> hr_takes (hr_min s t (W t) (smr_next s (p + sz))) s i)
       \<longrightarrow> reclaimed s' = reclaimed s @ map (\<lambda>x. x - sz) ((p + sz) # W t))
    \<and> (\<forall>z. z \<notin> set ((p + sz) # W t) \<longrightarrow> smr_next s' z = smr_next s z)
    \<and> (\<forall>i < n * k. \<forall>z. hr_head s i \<noteq> HR_INVPTR \<longrightarrow>
         hr_guarded n L B W s i z \<or> z = p + sz \<and> smr_next s (p + sz) \<le> hr_seen s i \<longrightarrow> hr_guarded n L' B' W' s' i z)"
proof -
  let ?x = "p + sz" let ?W = "W(t := ?x # W t)" let ?s1 = "hr_join t ?x (W t) s"
  note S = hr_stateD [OF st] note J = hr_join_fields [where t = t and x = ?x and xs = "W t" and s = s]
  have "\<forall>y \<in> set (W t). hr_node y" using S(7) hr_pool_sub(1) [where W = W and F = F and B = B, OF t] by blast
  then have nz: "0 \<notin> set (W t)" by (auto simp: hr_node_def)
  note JS = hr_join_state [OF st t x]
  have st1: "hr_state n k (hr_head ?s1) L B F ?W ?s1" using JS(1) unfolding J .
  have g1: "hr_guarded n L B ?W ?s1 i z"
    if "hr_guarded n L B W s i z \<or> z = ?x \<and> smr_next s ?x \<le> hr_seen s i" for i z
    by (rule hr_guarded_join [OF t that])
  note eq = hr_retire_eq [OF S(5) [OF t] nz p, of fuel sz, unfolded Let_def]
  show ?thesis
  proof (cases "hr_collect ?s1 \<and> hb_counter (hr_batches ?s1 t) mod of_int (hr_freq ?s1) = 0")
    case False
    have "hr_retire fuel sz p t (s, []) = Some (?s1, [])" unfolding eq using False by (rule if_not_P)
    show ?thesis
    proof (intro exI conjI)
      show "hr_retire fuel sz p t (s, []) = Some (?s1, [])" by fact
      show "hr_state n k (hr_head ?s1) L B F ?W ?s1" using st1 unfolding J .
      show "reclaimed ?s1 = reclaimed s @ map (\<lambda>x. x - sz) []" by (simp add: J)
      show "mset (pool n (hr_own F ?W) B) + mset [] = mset (pool n (hr_own F W) B) + mset [?x]" using JS(2) by simp
      show "hr_collect s \<and> (hb_counter (hr_batches s t) + 1) mod of_int (hr_freq s) = 0
          \<and> (\<forall>i < n * k. \<not> hr_takes (hr_min s t (W t) (smr_next s ?x)) s i)
        \<longrightarrow> reclaimed ?s1 = reclaimed s @ map (\<lambda>x. x - sz) (?x # W t)"
        unfolding J by (rule impI, elim conjE, rule notE [OF False [unfolded J]], intro conjI)
      show "\<forall>i < n * k. \<forall>z. hr_head s i \<noteq> HR_INVPTR \<longrightarrow>
         hr_guarded n L B W s i z \<or> z = ?x \<and> smr_next s ?x \<le> hr_seen s i \<longrightarrow> hr_guarded n L B ?W ?s1 i z"
        using g1 by blast
    qed (simp_all add: J)
  next
    case True
    let ?s2 = "smr_set_link (last (?x # W t)) ?x ?s1"
    have lk: "hr_head ?s2 = hr_head ?s1" "hr_seen ?s2 = hr_seen ?s1" "hr_epoch ?s2 = hr_epoch ?s1" "reclaimed ?s2 = reclaimed ?s1"
      "smr_next ?s2 = smr_next ?s1" "hr_batches ?s2 = hr_batches ?s1"
      by (simp_all add: smr_set_link_def hr_head_def hr_seen_def fun_eq_iff)
    have "?W t \<noteq> []" by simp
    from hr_link_state [OF st1 t this, of ?x, unfolded fun_upd_same] have st2: "hr_state n k (hr_head ?s2) L B F ?W ?s2"
      unfolding lk .
    have "smr_link ?s2 (last (?W t)) = hd (?W t)" "length (?W t) < fuel" using fuel by (simp_all add: smr_set_link_def)
    from hr_try_retire_step [OF st2 t \<open>?W t \<noteq> []\<close> this, of sz] obtain s3 L' B' W' where
      r: "hr_try_retire fuel sz t (?s2, []) = Some (s3, [])" "hr_state n k (hr_head s3) L' B' F W' s3"
      "hr_gives n k sz t L B F ?W ?s2 L' B' W' s3" by blast
    note G = r(3) [unfolded hr_gives_def lk J]
    obtain zs where zs: "reclaimed s3 = reclaimed s @ map (\<lambda>x. x - sz) zs"
      "mset (pool n (hr_own F W') B') + mset zs = mset (pool n (hr_own F ?W) B)" using G by blast
    have run: "hr_retire fuel sz p t (s, []) = Some (s3, [])" unfolding eq using True r(1) by simp
    have gd: "hr_guarded n L B ?W ?s2 i z \<longleftrightarrow> hr_guarded n L B ?W ?s1 i z" for i z
      unfolding hr_guarded_def lk by (rule refl)
    show ?thesis
    proof (intro exI conjI)
      show "mset (pool n (hr_own F W') B') + mset zs = mset (pool n (hr_own F W) B) + mset [?x]"
        using zs(2) JS(2) by simp
      show "hr_collect s \<and> (hb_counter (hr_batches s t) + 1) mod of_int (hr_freq s) = 0
          \<and> (\<forall>i < n * k. \<not> hr_takes (hr_min s t (W t) (smr_next s ?x)) s i)
        \<longrightarrow> reclaimed s3 = reclaimed s @ map (\<lambda>x. x - sz) (?x # W t)"
        using G by simp
      show "\<forall>z. z \<notin> set (?x # W t) \<longrightarrow> smr_next s3 z = smr_next s z" using G by simp
      show "\<forall>i < n * k. \<forall>z. hr_head s i \<noteq> HR_INVPTR \<longrightarrow>
         hr_guarded n L B W s i z \<or> z = ?x \<and> smr_next s ?x \<le> hr_seen s i \<longrightarrow> hr_guarded n L' B' W' s3 i z"
        using G gd g1 by blast
    qed (use run r(2) zs(1) G in blast)+
  qed
qed

end
