(* ===== verification/Hr_Safe.thy ===== *)
theory Hr_Safe
  imports Hr_Retire
begin

text \<open>
  Safety of \<open>HRTracker\<close>, for every legal sequence of operations, each executed as a whole: an object
  in use when a thread has read into an open slot is not reclaimed before the slot is read into again
  or cleared.  A slot that was cleared and read into in the same epoch stays closed and protects nothing.
\<close>

section \<open>Histories\<close>

datatype hr_event = HrAlloc ptr nat | HrRead ptr nat nat | HrReserve ptr nat nat | HrClear nat | HrRetire ptr nat

text \<open>The operations run alone; two rounds are enough for the loop of \<open>read\<close>.\<close>

fun hr_exec :: "nat \<Rightarrow> u64 \<Rightarrow> hr \<Rightarrow> hr_event \<Rightarrow> hr option" where
  "hr_exec fuel sz s (HrAlloc p t) = Some (fst (snd (hr_alloc sz t p (s, []))))"
| "hr_exec fuel sz s (HrRead a j t) = map_option (\<lambda>(v, w). fst w) (hr_read 2 fuel sz a j t nullptr (s, []))"
| "hr_exec fuel sz s (HrReserve p j t) = map_option fst (hr_reserve_slot 2 fuel sz p j t nullptr (s, []))"
| "hr_exec fuel sz s (HrClear t) = map_option fst (hr_clear_all fuel sz t (s, []))"
| "hr_exec fuel sz s (HrRetire p t) = map_option fst (hr_retire fuel sz p t (s, []))"

fun hr_run :: "nat \<Rightarrow> u64 \<Rightarrow> hr_event list \<Rightarrow> hr \<Rightarrow> hr option" where
  "hr_run fuel sz [] s = Some s"
| "hr_run fuel sz (ev # es) s = (case hr_exec fuel sz s ev of None \<Rightarrow> None | Some s' \<Rightarrow> hr_run fuel sz es s')"

text \<open>The objects in use, and those retired, in order.\<close>

record hr_use =
  hr_live :: "ptr set"
  hr_retired :: "ptr list"

definition hr_idle :: hr_use where
  "hr_idle = \<lparr>hr_live = {}, hr_retired = []\<rparr>"

fun hr_next :: "hr_use \<Rightarrow> hr_event \<Rightarrow> hr_use" where
  "hr_next w (HrAlloc p t) = w\<lparr>hr_live := insert p (hr_live w)\<rparr>"
| "hr_next w (HrRetire p t) = w\<lparr>hr_live := hr_live w - {p}, hr_retired := hr_retired w @ [p]\<rparr>"
| "hr_next w ev = w"

abbreviation hr_after :: "hr_event list \<Rightarrow> hr_use" where
  "hr_after es \<equiv> foldl hr_next hr_idle es"

text \<open>The rules of use: \<open>malloc\<close> returns a block that is neither in use nor waits for reclamation, whose
  node is not at an address that stands for something else; threads and slots exist; an object in
  use is retired once.\<close>

fun hr_legal :: "u64 \<Rightarrow> hr_use \<Rightarrow> hr \<Rightarrow> hr_event \<Rightarrow> bool" where
  "hr_legal sz w s (HrAlloc p t) \<longleftrightarrow> t < task_num s \<and> p \<noteq> nullptr \<and> hr_node (p + sz) \<and> p \<notin> hr_live w
     \<and> count_list (hr_retired w) p = count_list (reclaimed s) p"
| "hr_legal sz w s (HrRead a j t) \<longleftrightarrow> t < task_num s \<and> j < hr_num s"
| "hr_legal sz w s (HrReserve p j t) \<longleftrightarrow> t < task_num s \<and> j < hr_num s"
| "hr_legal sz w s (HrClear t) \<longleftrightarrow> t < task_num s"
| "hr_legal sz w s (HrRetire p t) \<longleftrightarrow> t < task_num s \<and> p \<in> hr_live w"

fun hr_lawful :: "nat \<Rightarrow> u64 \<Rightarrow> hr_use \<Rightarrow> hr_event list \<Rightarrow> hr \<Rightarrow> bool" where
  "hr_lawful fuel sz w [] s \<longleftrightarrow> True"
| "hr_lawful fuel sz w (ev # es) s \<longleftrightarrow> hr_legal sz w s ev
     \<and> (case hr_exec fuel sz s ev of None \<Rightarrow> True | Some s' \<Rightarrow> hr_lawful fuel sz (hr_next w ev) es s')"

lemma hr_run_append:
  "hr_run fuel sz (xs @ ys) s = (case hr_run fuel sz xs s of None \<Rightarrow> None | Some s' \<Rightarrow> hr_run fuel sz ys s')"
  by (induction xs arbitrary: s) (auto split: option.splits)

lemma hr_lawful_append:
  "hr_lawful fuel sz w (xs @ ys) s \<Longrightarrow> hr_lawful fuel sz w xs s
     \<and> (\<forall>s'. hr_run fuel sz xs s = Some s' \<longrightarrow> hr_lawful fuel sz (foldl hr_next w xs) ys s')"
  by (induction xs arbitrary: w s) (auto split: option.splits)

text \<open>The event gives up slot \<open>j\<close> of thread \<open>t\<close>.\<close>

fun hr_uses :: "nat \<times> nat \<Rightarrow> hr_event \<Rightarrow> bool" where
  "hr_uses l (HrRead a j t) \<longleftrightarrow> l = (t, j)"
| "hr_uses l (HrReserve p j t) \<longleftrightarrow> l = (t, j)"
| "hr_uses l (HrClear t) \<longleftrightarrow> fst l = t"
| "hr_uses l ev \<longleftrightarrow> False"

section \<open>The invariant\<close>

definition hr_inv :: "nat \<Rightarrow> nat \<Rightarrow> u64 \<Rightarrow> hr_use \<Rightarrow> nat \<Rightarrow> (nat \<Rightarrow> ptr list) \<Rightarrow> ptr list list \<Rightarrow> (nat \<Rightarrow> ptr list list)
    \<Rightarrow> (nat \<Rightarrow> ptr list) \<Rightarrow> hr \<Rightarrow> bool" where
  "hr_inv n k sz w e L B F W s \<longleftrightarrow> hr_state n k (hr_head s) L B F W s \<and> unat (hr_epoch s) \<le> Suc e
     \<and> mset (hr_retired w) = mset (reclaimed s) + mset (map (\<lambda>x. x - sz) (pool n (hr_own F W) B))
     \<and> (\<forall>p \<in> hr_live w. p \<noteq> nullptr \<and> hr_node (p + sz) \<and> p + sz \<notin> set (pool n (hr_own F W) B)
          \<and> smr_next s (p + sz) \<le> hr_epoch s)"

lemma hr_invD:
  assumes "hr_inv n k sz w e L B F W s"
  shows "hr_state n k (hr_head s) L B F W s" "unat (hr_epoch s) \<le> Suc e"
    "mset (hr_retired w) = mset (reclaimed s) + mset (map (\<lambda>x. x - sz) (pool n (hr_own F W) B))"
    "p \<in> hr_live w \<Longrightarrow> p \<noteq> nullptr \<and> hr_node (p + sz) \<and> p + sz \<notin> set (pool n (hr_own F W) B) \<and> smr_next s (p + sz) \<le> hr_epoch s"
    "task_num s = n" "hr_num s = k" "length (pool n (hr_own F W) B) \<le> length (hr_retired w)"
proof -
  note I = assms [unfolded hr_inv_def]
  show st: "hr_state n k (hr_head s) L B F W s" using I by blast
  show ms: "mset (hr_retired w) = mset (reclaimed s) + mset (map (\<lambda>x. x - sz) (pool n (hr_own F W) B))" using I by blast
  show "unat (hr_epoch s) \<le> Suc e"
    "p \<in> hr_live w \<Longrightarrow> p \<noteq> nullptr \<and> hr_node (p + sz) \<and> p + sz \<notin> set (pool n (hr_own F W) B) \<and> smr_next s (p + sz) \<le> hr_epoch s"
    using I by blast+
  show "task_num s = n" "hr_num s = k" using hr_stateD(1) [OF st] by (simp_all add: hr_fits_def)
  show "length (pool n (hr_own F W) B) \<le> length (hr_retired w)" using arg_cong [OF ms, of size] by simp
qed

text \<open>Slot \<open>i\<close> is open and keeps \<open>p\<close>: in use and not younger than the epoch of the slot, or waiting for it.\<close>

definition hr_holds :: "nat \<Rightarrow> u64 \<Rightarrow> hr_use \<Rightarrow> (nat \<Rightarrow> ptr list) \<Rightarrow> ptr list list \<Rightarrow> (nat \<Rightarrow> ptr list) \<Rightarrow> hr \<Rightarrow> nat \<Rightarrow> ptr \<Rightarrow> bool" where
  "hr_holds n sz w L B W s i p \<longleftrightarrow> hr_head s i \<noteq> HR_INVPTR
     \<and> (p \<in> hr_live w \<and> smr_next s (p + sz) \<le> hr_seen s i \<or> hr_guarded n L B W s i (p + sz))"

text \<open>One step: the new ghost data, the nodes given back, and what the slots not used keep.\<close>

definition hr_advance :: "nat \<Rightarrow> nat \<Rightarrow> u64 \<Rightarrow> hr_use \<Rightarrow> nat \<Rightarrow> (nat \<Rightarrow> ptr list) \<Rightarrow> ptr list list \<Rightarrow> (nat \<Rightarrow> ptr list)
    \<Rightarrow> hr \<Rightarrow> nat set \<Rightarrow> hr_use \<Rightarrow> hr \<Rightarrow> bool" where
  "hr_advance n k sz w e L B W s I w' s' \<longleftrightarrow> (\<exists>L' B' F' W' e' zs. hr_inv n k sz w' e' L' B' F' W' s' \<and> e' \<le> Suc e
     \<and> reclaimed s' = reclaimed s @ map (\<lambda>x. x - sz) zs
     \<and> (\<forall>i < n * k. i \<notin> I \<longrightarrow> (\<forall>p. hr_holds n sz w L B W s i p \<longrightarrow> hr_holds n sz w' L' B' W' s' i p \<and> p + sz \<notin> set zs)))"

lemma hr_advanceI:
  assumes inv: "hr_inv n k sz w e L B F W s" and st: "hr_state n k (hr_head s') L' B' F' W' s'"
    and ep: "unat (hr_epoch s') \<le> Suc e'" "e' \<le> Suc e" "hr_epoch s \<le> hr_epoch s'"
    and rec: "reclaimed s' = reclaimed s @ map (\<lambda>x. x - sz) zs"
    and ms: "mset (pool n (hr_own F' W') B') + mset zs = mset (pool n (hr_own F W) B) + mset ys"
    and ys: "distinct ys" "set ys \<inter> set (pool n (hr_own F W) B) = {}"
    and ret: "hr_retired w' = hr_retired w @ map (\<lambda>x. x - sz) ys"
    and old: "\<And>p. p \<in> hr_live w' \<Longrightarrow> p \<in> hr_live w \<Longrightarrow> p + sz \<notin> set ys \<and> smr_next s' (p + sz) = smr_next s (p + sz)"
    and new: "\<And>p. p \<in> hr_live w' \<Longrightarrow> p \<notin> hr_live w \<Longrightarrow> p \<noteq> nullptr \<and> hr_node (p + sz)
        \<and> p + sz \<notin> set (pool n (hr_own F W) B) \<union> set ys \<and> smr_next s' (p + sz) \<le> hr_epoch s'"
    and slots: "\<And>i. i < n * k \<Longrightarrow> i \<notin> I \<Longrightarrow> hr_head s i \<noteq> HR_INVPTR \<Longrightarrow> hr_head s' i \<noteq> HR_INVPTR \<and> hr_seen s' i = hr_seen s i"
    and gd: "\<And>i x. i < n * k \<Longrightarrow> i \<notin> I \<Longrightarrow> hr_head s i \<noteq> HR_INVPTR \<Longrightarrow>
        hr_guarded n L B W s i x \<or> x \<in> set ys \<and> smr_next s x \<le> hr_seen s i \<Longrightarrow> hr_guarded n L' B' W' s' i x"
    and gone: "\<And>p. p \<in> hr_live w \<Longrightarrow> p \<notin> hr_live w' \<Longrightarrow> p + sz \<in> set ys"
  shows "hr_advance n k sz w e L B W s I w' s'"
proof -
  note V = hr_invD [OF inv]
  let ?P = "pool n (hr_own F W) B" let ?P' = "pool n (hr_own F' W') B'"
  have e: "mset (?P' @ zs) = mset (?P @ ys)" using ms by simp
  have sub: "set ?P' \<subseteq> set ?P \<union> set ys" "set zs \<subseteq> set ?P \<union> set ys" using mset_eq_setD [OF e] by auto
  have "mset (map (\<lambda>x. x - sz) (?P' @ zs)) = mset (map (\<lambda>x. x - sz) (?P @ ys))"
    using arg_cong [OF e, of "image_mset (\<lambda>x. x - sz)"] by (simp only: mset_map)
  then have "mset (hr_retired w') = mset (reclaimed s') + mset (map (\<lambda>x. x - sz) ?P')"
    using V(3) unfolding ret rec by (simp del: mset_map add: ac_simps)
  moreover have "p \<noteq> nullptr \<and> hr_node (p + sz) \<and> p + sz \<notin> set ?P' \<and> smr_next s' (p + sz) \<le> hr_epoch s'" if p: "p \<in> hr_live w'" for p
  proof (cases "p \<in> hr_live w")
    case True
    have "smr_next s (p + sz) \<le> hr_epoch s'" using V(4) [OF True] ep(3) by (meson order_trans)
    with V(4) [OF True] old [OF p True] sub(1) show ?thesis by (simp add: subset_iff) blast
  next
    case False
    from new [OF p False] sub(1) show ?thesis by blast
  qed
  ultimately have inv': "hr_inv n k sz w' e' L' B' F' W' s'" using st ep(1) unfolding hr_inv_def by blast
  have "distinct (?P @ ys)" using hr_stateD(6) [OF V(1)] ys by auto
  then have "distinct (?P' @ zs)" using mset_eq_imp_distinct_iff [OF e] by blast
  then have dis: "set ?P' \<inter> set zs = {}" by simp
  show ?thesis unfolding hr_advance_def
  proof (intro exI conjI allI impI)
    fix i p assume i: "i < n * k" "i \<notin> I" and h: "hr_holds n sz w L B W s i p"
    have act: "hr_head s i \<noteq> HR_INVPTR" using h by (simp add: hr_holds_def)
    note sl = slots [OF i act]
    show "hr_holds n sz w' L' B' W' s' i p"
    proof (cases "p \<in> hr_live w \<and> smr_next s (p + sz) \<le> hr_seen s i")
      case True
      show ?thesis
      proof (cases "p \<in> hr_live w'")
        case True': True
        with old [OF True'] sl True show ?thesis by (simp add: hr_holds_def)
      next
        case False
        with gone True have "p + sz \<in> set ys" by blast
        with gd [OF i act, of "p + sz"] True sl show ?thesis by (simp add: hr_holds_def)
      qed
    next
      case False
      with h have "hr_guarded n L B W s i (p + sz)" by (auto simp: hr_holds_def)
      with gd [OF i act, of "p + sz"] sl show ?thesis by (simp add: hr_holds_def)
    qed
    then consider "p \<in> hr_live w'" | "p + sz \<in> set ?P'"
      using hr_guarded_pool [of n L' B' W' s' i "p + sz" F'] unfolding hr_holds_def by blast
    then show "p + sz \<notin> set zs"
    proof cases
      case 1
      then show ?thesis using V(4) [of p] old [of p] new [of p] sub(2) by blast
    next
      case 2
      with dis show ?thesis by blast
    qed
  qed (fact inv' ep(2) rec)+
qed

lemma hr_step_advance:
  assumes inv: "hr_inv n k sz w e L B F W s" and t: "t < n"
    and st: "hr_state n k (hr_head s') L' B' F' W s'" and step: "hr_step n k sz t I L B F s L' B' F' s'"
  shows "hr_advance n k sz w e L B W s I w s'"
proof -
  note V = hr_invD [OF inv] note S = hr_stateD [OF V(1)]
  let ?s = "s\<lparr>hr_mem := hr_mem s'\<rparr>"
  have less: "hr_less n k sz t I L B F ?s L' B' F' s'"
    and sl: "\<And>i. i \<notin> I \<Longrightarrow> i < n * k \<Longrightarrow> hr_head s' i = hr_head s i \<and> hr_seen s' i = hr_seen s i"
    using step unfolding hr_step_def by blast+
  obtain zs where z: "hr_kept t ?s s'" "hr_mem s' = hr_mem ?s" "\<And>u. u \<noteq> t \<Longrightarrow> F' u = F u" "\<And>i. i \<notin> I \<Longrightarrow> L' i = L i"
    "\<And>i b. i \<notin> I \<Longrightarrow> i < n * k \<Longrightarrow> b \<in> set B \<Longrightarrow> set (L i) \<inter> set b \<noteq> {} \<Longrightarrow> b \<in> set B'"
    "reclaimed s' = reclaimed ?s @ map (\<lambda>x. x - sz) zs"
    "mset (concat (F' t)) + mset (concat B') + mset zs = mset (concat (F t)) + mset (concat B)"
    "\<And>x. x \<notin> set (concat (F t)) \<union> set (concat B) \<Longrightarrow> smr_next s' x = smr_next ?s x"
    "set (concat (F' t)) \<union> set (concat B') \<subseteq> set (concat (F t)) \<union> set (concat B)"
    using less by (rule hr_lessE) (rule that)
  have kp: "hr_kept t s s'" by (rule hr_step_kept [OF step])
  note v = hr_viewD [OF kp [unfolded hr_kept_def, THEN conjunct1]]
  have ms: "mset (pool n (hr_own F' W) B') + mset zs = mset (pool n (hr_own F W) B) + mset []"
    by (rule hr_pool_step [OF S(6) t]) (use z(3,7) in \<open>simp_all add: ac_simps\<close>)
  have pl: "set (concat (F t)) \<union> set (concat B) \<subseteq> set (pool n (hr_own F W) B)"
    using hr_pool_sub(2) [where W = W and F = F and B = B, OF t] hr_pool_sub(3) [where W = W and F = F and B = B and n = n] by blast
  show ?thesis
  proof (rule hr_advanceI [OF inv st _ _ _ _ ms])
    show "unat (hr_epoch s') \<le> Suc e" "hr_epoch s \<le> hr_epoch s'" using V(2) v(4) by simp_all
    show "reclaimed s' = reclaimed s @ map (\<lambda>x. x - sz) zs" using z(6) by simp
    show "p + sz \<notin> set [] \<and> smr_next s' (p + sz) = smr_next s (p + sz)" if "p \<in> hr_live w" for p
    proof -
      have "p + sz \<notin> set (concat (F t)) \<union> set (concat B)" using V(4) [OF that] pl by blast
      from z(8) [OF this] show ?thesis by simp
    qed
    show "hr_head s' i \<noteq> HR_INVPTR \<and> hr_seen s' i = hr_seen s i" if "i < n * k" "i \<notin> I" "hr_head s i \<noteq> HR_INVPTR" for i
      using sl that by simp
    show "hr_guarded n L' B' W s' i x" if i: "i < n * k" "i \<notin> I" "hr_head s i \<noteq> HR_INVPTR"
      and g: "hr_guarded n L B W s i x \<or> x \<in> set [] \<and> smr_next s x \<le> hr_seen s i" for i x
    proof -
      have "hr_guarded n L B W s i x" using g by simp
      moreover have "hr_seen s' i = hr_seen s i" using sl i by simp
      ultimately show ?thesis using z(4) [OF i(2)] z(5) [OF i(2,1)] unfolding hr_guarded_def v(9) by metis
    qed
  qed simp_all
qed

lemma hr_alloc_alone:
  "\<exists>s'. hr_alloc sz t p (s, []) = (p, (s', []))
    \<and> s' = smr_set_next (p + sz) (hr_epoch s') (s\<lparr>hr_alloc_counters := (hr_alloc_counters s)(t := hr_alloc_counters s t + 1), hr_epoch := hr_epoch s'\<rparr>)
    \<and> (hr_epoch s' = hr_epoch s \<or> hr_epoch s' = hr_epoch s + 1)"
  by (simp add: hr_alloc_def own_alone bump_alone hr_getEpoch_def load_alone smr_set_next_def Let_def)

lemma hr_alloc_advance:
  assumes inv: "hr_inv n k sz w e L B F W s" and legal: "hr_legal sz w s (HrAlloc p t)" and e: "Suc (Suc e) < 2 ^ 64"
  shows "\<exists>s'. hr_exec fuel sz s (HrAlloc p t) = Some s' \<and> hr_advance n k sz w e L B W s I (hr_next w (HrAlloc p t)) s'"
proof -
  note V = hr_invD [OF inv] note S = hr_stateD [OF V(1)]
  let ?x = "p + sz" let ?P = "pool n (hr_own F W) B"
  have l: "p \<noteq> nullptr" "hr_node ?x" "p \<notin> hr_live w" "count_list (hr_retired w) p = count_list (reclaimed s) p"
    using legal by simp_all
  have out: "?x \<notin> set ?P"
  proof
    assume "?x \<in> set ?P"
    then have "p \<in># mset (map (\<lambda>x. x - sz) ?P)" by force
    then have "0 < count (mset (map (\<lambda>x. x - sz) ?P)) p" by (simp only: count_greater_zero_iff)
    moreover have "count (mset (hr_retired w)) p = count (mset (reclaimed s)) p + count (mset (map (\<lambda>x. x - sz) ?P)) p"
      using V(3) by simp
    ultimately show False using l(4) by (simp add: count_mset del: mset_map)
  qed
  let ?c = "(hr_alloc_counters s)(t := hr_alloc_counters s t + 1)"
  obtain s' where a: "hr_alloc sz t p (s, []) = (p, (s', []))"
    "s' = smr_set_next ?x (hr_epoch s') (s\<lparr>hr_alloc_counters := ?c, hr_epoch := hr_epoch s'\<rparr>)"
    "hr_epoch s' = hr_epoch s \<or> hr_epoch s' = hr_epoch s + 1" using hr_alloc_alone by blast
  define v where "v = hr_epoch s'"
  have v: "s' = smr_set_next ?x v (s\<lparr>hr_alloc_counters := ?c, hr_epoch := v\<rparr>)" "v = hr_epoch s \<or> v = hr_epoch s + 1" "hr_epoch s' = v"
    using a(2,3) by (simp_all only: v_def)
  have f: "reclaimed s' = reclaimed s" "smr_next s' = (smr_next s)(?x := v)" "same_nodes {?x} s s'" "hr_batches s' = hr_batches s"
    "hr_head s' = hr_head s" "hr_seen s' = hr_seen s" "hr_fits n k s'"
    using S(1) unfolding v(1) by (simp_all add: smr_set_next_def same_nodes_def hr_head_def hr_seen_def hr_fits_def fun_eq_iff)
  have "hr_epoch s \<noteq> UINT64_MAX"
  proof
    assume "hr_epoch s = UINT64_MAX"
    then have "unat (hr_epoch s) = 2 ^ 64 - 1" by (simp only: unat_max)
    with V(2) e show False by simp
  qed
  then have ep: "unat v \<le> Suc (Suc e)" "hr_epoch s \<le> v" using v(2) V(2) unat_inc [of "hr_epoch s"] word_inc_le [of "hr_epoch s"] by auto
  have st: "hr_state n k (hr_head s') L B F W s'"
  proof (rule hr_stateI)
    have o: "?x \<notin> set (concat B)" "u < n \<Longrightarrow> ?x \<notin> set (concat (F u))" "u < n \<Longrightarrow> ?x \<notin> set (W u)" for u
      using out unfolding hr_pool_mem by blast+
    show "hr_fits n k s'" by (rule f(7))
    show "smr_inv (n * k) L B [] 0 s'" by (rule smr_inv_same [OF S(2) f(3)]) (use o(1) in simp)
    show "hr_slot_ok (smr_next s') (hr_head s' j) (L j)" if j: "j < n * k" for j
    proof -
      have "?x \<notin> set (L j)" using slot_node(1) [OF S(2) j] o(1) by blast
      then show ?thesis using S(3) [OF j] hr_slot_ok_cong [of "L j" "smr_next s'" "smr_next s"] unfolding f(5) f(2) by auto
    qed
    show "pend s' (hr_list s' u) (F u)" if u: "u < n" for u
      using pend_same [OF f(3) _ S(4) [OF u]] o(2) [OF u] f(4) by simp
    show "hr_open s' u (W u)" if u: "u < n" for u
      by (rule hr_open_same [OF f(3) _ _ _ S(5) [OF u]]) (use o(3) [OF u] f(4) in simp_all)
  qed (fact S)+
  have "hr_advance n k sz w e L B W s I (hr_next w (HrAlloc p t)) s'"
  proof (rule hr_advanceI [where ys = "[]" and zs = "[]", OF inv st])
    show "unat (hr_epoch s') \<le> Suc (Suc e)" "hr_epoch s \<le> hr_epoch s'" using ep v(3) by simp_all
    show "q + sz \<notin> set [] \<and> smr_next s' (q + sz) = smr_next s (q + sz)" if "q \<in> hr_live w" for q
      using that l(3) unfolding f(2) by auto
    show "q \<noteq> nullptr \<and> hr_node (q + sz) \<and> q + sz \<notin> set ?P \<union> set [] \<and> smr_next s' (q + sz) \<le> hr_epoch s'"
      if "q \<in> hr_live (hr_next w (HrAlloc p t))" "q \<notin> hr_live w" for q
      using that l(1,2) out unfolding f(2) v(3) by simp
    show "hr_guarded n L B W s' i x" if "hr_guarded n L B W s i x \<or> x \<in> set [] \<and> smr_next s x \<le> hr_seen s i" for i x
      using that unfolding hr_guarded_def f by simp
  qed (use f in simp_all)
  then show ?thesis using a(1) by (intro exI [of _ s']) simp
qed

lemma hr_uses_slot: "i < n * k \<Longrightarrow> hr_slot k i = (t, j) \<longleftrightarrow> i = t * k + j \<and> j < k"
  by (cases "k = 0") (auto simp: hr_slot_def)

lemma hr_advance_slots:
  assumes "hr_advance n k sz w e L B W s I w' s'" "\<And>i. i < n * k \<Longrightarrow> i \<in> I \<Longrightarrow> i \<in> J"
  shows "hr_advance n k sz w e L B W s J w' s'"
  using assms unfolding hr_advance_def by blast

lemma hr_fuel:
  assumes inv: "hr_inv n k sz w e L B F W s" and fuel: "length (hr_retired w) + 1 < fuel" and t: "t < n"
  shows "length (concat (F t)) + length (concat B) < fuel" "length (W t) + 1 < fuel"
proof -
  note V = hr_invD [OF inv] note S = hr_stateD [OF V(1)]
  have d: "distinct (concat (F t) @ concat B)" "set (concat (F t) @ concat B) \<subseteq> set (pool n (hr_own F W) B)"
    using hr_pool_parts(2,5) [OF S(6) t] smr_invD(1) [OF S(2)] hr_pool_sub(2) [where W = W and F = F and B = B, OF t]
      hr_pool_sub(3) [where W = W and F = F and B = B and n = n] by auto
  have "length (concat (F t) @ concat B) \<le> length (pool n (hr_own F W) B)"
    using card_mono [OF _ d(2)] distinct_card [OF d(1)] distinct_card [OF S(6)] by simp
  then show "length (concat (F t)) + length (concat B) < fuel" using V(7) fuel by simp
  have "length (W t) \<le> length (pool n (hr_own F W) B)"
    using card_mono [OF _ hr_pool_sub(1) [where W = W and F = F and B = B, OF t]]
      distinct_card [OF hr_pool_parts(1) [OF S(6) t]] distinct_card [OF S(6)] by simp
  then show "length (W t) + 1 < fuel" using V(7) fuel by simp
qed

lemma hr_exec_advance:
  assumes inv: "hr_inv n k sz w e L B F W s" and legal: "hr_legal sz w s ev"
    and fuel: "length (hr_retired w) + 1 < fuel" and e: "Suc (Suc e) < 2 ^ 64"
  shows "\<exists>s'. hr_exec fuel sz s ev = Some s' \<and> hr_advance n k sz w e L B W s {i. hr_uses (hr_slot k i) ev} (hr_next w ev) s'"
proof -
  note V = hr_invD [OF inv] note S = hr_stateD [OF V(1)]
  note fu = hr_fuel [OF inv fuel]
  show ?thesis
  proof (cases ev)
    case (HrAlloc p t)
    show ?thesis unfolding HrAlloc by (rule hr_alloc_advance [OF inv legal [unfolded HrAlloc] e])
  next
    case (HrRead a j t)
    have t: "t < n" "j < k" using legal HrRead V(5,6) by simp_all
    obtain s' L' B' F' where r: "hr_read (Suc (Suc 0)) fuel sz a j t nullptr (s, []) = Some (cells s a, (s', []))"
      "hr_state n k (hr_head s') L' B' F' W s'" "hr_step n k sz t {t * k + j} L B F s L' B' F' s'"
      using hr_read_step [OF V(1) t fu(1) [OF t(1)]] by blast
    have "hr_exec fuel sz s ev = Some s'" using r(1) by (simp add: HrRead numeral_2_eq_2)
    moreover have "hr_advance n k sz w e L B W s {i. hr_uses (hr_slot k i) ev} w s'"
      by (rule hr_advance_slots [OF hr_step_advance [OF inv t(1) r(2,3)]]) (use t in \<open>simp add: HrRead hr_slot_number\<close>)
    ultimately show ?thesis unfolding HrRead hr_next.simps by blast
  next
    case (HrReserve p j t)
    have t: "t < n" "j < k" using legal HrReserve V(5,6) by simp_all
    obtain s' L' B' F' where r: "hr_reserve_slot (Suc (Suc 0)) fuel sz p j t nullptr (s, []) = Some (s', [])"
      "hr_state n k (hr_head s') L' B' F' W s'" "hr_step n k sz t {t * k + j} L B F s L' B' F' s'"
      using hr_read_step [OF V(1) t fu(1) [OF t(1)]] by blast
    have "hr_exec fuel sz s ev = Some s'" using r(1) by (simp add: HrReserve numeral_2_eq_2)
    moreover have "hr_advance n k sz w e L B W s {i. hr_uses (hr_slot k i) ev} w s'"
      by (rule hr_advance_slots [OF hr_step_advance [OF inv t(1) r(2,3)]]) (use t in \<open>simp add: HrReserve hr_slot_number\<close>)
    ultimately show ?thesis unfolding HrReserve hr_next.simps by blast
  next
    case (HrClear t)
    have t: "t < n" using legal HrClear V(5) by simp
    obtain s' L' B' F' where r: "hr_clear_all fuel sz t (s, []) = Some (s', [])"
      "hr_state n k (hr_head s') L' B' F' W s'" "hr_step n k sz t {t * k..<t * k + k} L B F s L' B' F' s'"
      using hr_clear_step [OF V(1) t fu(1) [OF t]] by blast
    have "hr_exec fuel sz s ev = Some s'" using r(1) by (simp add: HrClear)
    moreover have "hr_advance n k sz w e L B W s {i. hr_uses (hr_slot k i) ev} w s'"
    proof (rule hr_advance_slots [OF hr_step_advance [OF inv t r(2,3)]])
      fix i assume i: "i \<in> {t * k..<t * k + k}"
      then obtain j where "i = t * k + j" "j < k" by (metis atLeastLessThan_iff le_iff_add nat_add_left_cancel_less)
      then show "i \<in> {i. hr_uses (hr_slot k i) ev}" by (simp add: HrClear hr_slot_number)
    qed
    ultimately show ?thesis unfolding HrClear hr_next.simps by blast
  next
    case (HrRetire p t)
    have t: "t < n" and lp: "p \<in> hr_live w" using legal HrRetire V(5) by simp_all
    note P = V(4) [OF lp]
    have f: "Suc (length (W t)) < fuel" using fu(2) [OF t] by simp
    obtain s' L' B' W' zs where r: "hr_retire fuel sz p t (s, []) = Some (s', [])" "hr_state n k (hr_head s') L' B' F W' s'"
      "hr_epoch s' = hr_epoch s" "reclaimed s' = reclaimed s @ map (\<lambda>x. x - sz) zs"
      "mset (pool n (hr_own F W') B') + mset zs = mset (pool n (hr_own F W) B) + mset [p + sz]"
      "\<And>i. i < n * k \<Longrightarrow> hr_seen s' i = hr_seen s i \<and> (hr_head s' i = HR_INVPTR \<longleftrightarrow> hr_head s i = HR_INVPTR)"
      "\<And>z. z \<notin> set ((p + sz) # W t) \<Longrightarrow> smr_next s' z = smr_next s z"
      "\<And>i z. i < n * k \<Longrightarrow> hr_head s i \<noteq> HR_INVPTR \<Longrightarrow>
         hr_guarded n L B W s i z \<or> z = p + sz \<and> smr_next s (p + sz) \<le> hr_seen s i \<Longrightarrow> hr_guarded n L' B' W' s' i z"
      using hr_retire_step [OF V(1) t _ _ _ f, of p sz] P by blast
    have "hr_advance n k sz w e L B W s {} (hr_next w (HrRetire p t)) s'"
    proof (rule hr_advanceI [OF inv r(2) _ _ _ r(4,5)])
      show "q + sz \<notin> set [p + sz] \<and> smr_next s' (q + sz) = smr_next s (q + sz)"
        if q: "q \<in> hr_live (hr_next w (HrRetire p t))" "q \<in> hr_live w" for q
      proof -
        have "q \<noteq> p" using q(1) by simp
        moreover have "q + sz \<notin> set (W t)" using V(4) [OF q(2)] hr_pool_sub(1) [where W = W and F = F and B = B, OF t] by blast
        ultimately show ?thesis using r(7) [of "q + sz"] by simp
      qed
      show "hr_guarded n L' B' W' s' i x" if "i < n * k" "hr_head s i \<noteq> HR_INVPTR"
        "hr_guarded n L B W s i x \<or> x \<in> set [p + sz] \<and> smr_next s x \<le> hr_seen s i" for i x
        using r(8) [OF that(1,2), of x] that(3) by auto
    qed (use r(3,6) V(2) P in auto)
    then show ?thesis using r(1) by (intro exI [of _ s']) (simp add: HrRetire)
  qed
qed

section \<open>Histories keep the invariant\<close>

lemma length_hr_retired: "length (hr_retired (hr_next w ev)) \<le> length (hr_retired w) + 1"
  by (cases ev) auto

lemma length_hr_after: "length (hr_retired (foldl hr_next w es)) \<le> length (hr_retired w) + length es"
proof (induction es arbitrary: w)
  case (Cons ev es)
  from Cons [of "hr_next w ev"] length_hr_retired [of w ev] show ?case by simp
qed simp

lemma hr_run_inv:
  assumes "hr_inv n k sz w e L B F W s" "hr_lawful fuel sz w es s"
    "length (hr_retired w) + length es < fuel" "e + length es + 1 < 2 ^ 64"
  shows "\<exists>s' L' B' F' W' e' ps. hr_run fuel sz es s = Some s' \<and> hr_inv n k sz (foldl hr_next w es) e' L' B' F' W' s'
    \<and> e' \<le> e + length es \<and> reclaimed s' = reclaimed s @ ps
    \<and> (\<forall>i < n * k. (\<forall>ev \<in> set es. \<not> hr_uses (hr_slot k i) ev) \<longrightarrow>
         (\<forall>p. hr_holds n sz w L B W s i p \<longrightarrow> p \<notin> set ps))"
  using assms
proof (induction es arbitrary: w e L B F W s)
  case Nil
  then show ?case
    by (intro exI [of _ s] exI [of _ L] exI [of _ B] exI [of _ F] exI [of _ W] exI [of _ e] exI [of _ "[]"]) simp
next
  case (Cons ev es)
  have legal: "hr_legal sz w s ev" using Cons.prems(2) by simp
  obtain s1 where s1: "hr_exec fuel sz s ev = Some s1"
    "hr_advance n k sz w e L B W s {i. hr_uses (hr_slot k i) ev} (hr_next w ev) s1"
    using hr_exec_advance [OF Cons.prems(1) legal, of fuel] Cons.prems(3,4) by auto
  obtain L1 B1 F1 W1 e1 zs where a: "hr_inv n k sz (hr_next w ev) e1 L1 B1 F1 W1 s1" "e1 \<le> Suc e"
    "reclaimed s1 = reclaimed s @ map (\<lambda>x. x - sz) zs"
    "\<And>i p. i < n * k \<Longrightarrow> \<not> hr_uses (hr_slot k i) ev \<Longrightarrow> hr_holds n sz w L B W s i p \<Longrightarrow>
        hr_holds n sz (hr_next w ev) L1 B1 W1 s1 i p \<and> p + sz \<notin> set zs"
    using s1(2) unfolding hr_advance_def by blast
  have "hr_lawful fuel sz (hr_next w ev) es s1" using Cons.prems(2) s1(1) by simp
  moreover have "length (hr_retired (hr_next w ev)) + length es < fuel" "e1 + length es + 1 < 2 ^ 64"
    using length_hr_retired [of w ev] Cons.prems(3,4) a(2) by simp_all
  ultimately obtain s2 L2 B2 F2 W2 e2 ps where r: "hr_run fuel sz es s1 = Some s2"
    "hr_inv n k sz (foldl hr_next (hr_next w ev) es) e2 L2 B2 F2 W2 s2" "e2 \<le> e1 + length es" "reclaimed s2 = reclaimed s1 @ ps"
    "\<And>i p. i < n * k \<Longrightarrow> \<forall>ev \<in> set es. \<not> hr_uses (hr_slot k i) ev \<Longrightarrow>
         hr_holds n sz (hr_next w ev) L1 B1 W1 s1 i p \<Longrightarrow> p \<notin> set ps"
    using Cons.IH [OF a(1)] by blast
  show ?case
  proof (intro exI conjI allI impI)
    show "hr_run fuel sz (ev # es) s = Some s2" using s1(1) r(1) by simp
    show "reclaimed s2 = reclaimed s @ (map (\<lambda>x. x - sz) zs @ ps)" using r(4) a(3) by simp
    show "e2 \<le> e + length (ev # es)" using r(3) a(2) by simp
    fix i p assume i: "i < n * k" "\<forall>ev \<in> set (ev # es). \<not> hr_uses (hr_slot k i) ev" and h: "hr_holds n sz w L B W s i p"
    from a(4) [OF i(1) _ h] i(2) have q: "hr_holds n sz (hr_next w ev) L1 B1 W1 s1 i p" "p + sz \<notin> set zs" by simp_all
    from r(5) [OF i(1) _ q(1)] i(2) have "p \<notin> set ps" by simp
    moreover have "p \<notin> set (map (\<lambda>x. x - sz) zs)" using q(2) by auto
    ultimately show "p \<notin> set (map (\<lambda>x. x - sz) zs @ ps)" by simp
  qed (use r(2) in simp)
qed

lemma hr_init_slots_run:
  assumes "hr_fits n k s" "set is \<subseteq> {..<n * k}"
  shows "\<exists>m. hr_init_slots (map (hr_slot k) is) s = s\<lparr>hr_mem := m\<rparr>
    \<and> (\<forall>u < n * k. hr_head (s\<lparr>hr_mem := m\<rparr>) u = (if u \<in> set is then HR_INVPTR else hr_head s u))"
  using assms
proof (induction "is" arbitrary: s)
  case Nil
  show ?case by (intro exI [of _ "hr_mem s"]) simp
next
  case (Cons i js)
  let ?s1 = "hr_put (hr_at s i) HR_INVPTR s" let ?s2 = "hr_put (hr_epoch_addr (hr_at ?s1 i)) 0 ?s1"
  have i: "i < n * k" using Cons.prems(2) by simp
  have f: "hr_fits n k ?s1" "hr_fits n k ?s2" using Cons.prems(1) by (simp_all add: hr_put_fields)
  have k: "hr_num s = k" "hr_num ?s1 = k" using Cons.prems(1) by (simp_all add: hr_fits_def hr_put_fields)
  have h: "hr_head ?s2 u = (if u = i then HR_INVPTR else hr_head s u)" if "u < n * k" for u
    using hr_put_slot(3) [OF f(1) i that, of 0] hr_put_slot(1) [OF Cons.prems(1) i that, of HR_INVPTR] by simp
  obtain m where m: "hr_init_slots (map (hr_slot k) js) ?s2 = ?s2\<lparr>hr_mem := m\<rparr>"
    "\<And>u. u < n * k \<Longrightarrow> hr_head (?s2\<lparr>hr_mem := m\<rparr>) u = (if u \<in> set js then HR_INVPTR else hr_head ?s2 u)"
    using Cons.IH [OF f(2)] Cons.prems(2) by auto
  have e: "?s2\<lparr>hr_mem := m\<rparr> = s\<lparr>hr_mem := m\<rparr>" by (simp add: hr_put_def)
  have "hr_init_slots (map (hr_slot k) (i # js)) s = hr_init_slots (map (hr_slot k) js) ?s2"
    by (simp add: Let_def hr_put_fields k)
  then have "hr_init_slots (map (hr_slot k) (i # js)) s = s\<lparr>hr_mem := m\<rparr>" unfolding m(1) e .
  moreover have "hr_head (s\<lparr>hr_mem := m\<rparr>) u = (if u \<in> set (i # js) then HR_INVPTR else hr_head s u)" if u: "u < n * k" for u
    using m(2) [OF u] h [OF u] unfolding e by auto
  ultimately show ?case by blast
qed

lemma hr_new_inv:
  assumes "k \<le> MAX_HR" "256 * n \<le> 2 ^ 64"
  shows "hr_inv n k sz hr_idle 0 (\<lambda>_. []) [] (\<lambda>_. []) (\<lambda>_. [])
    (hr_new n k epochFreq emptyFreq collect cnt mem nx lk rf slots mem0 bt)"
proof -
  let ?z = "base.extend (base_new n cnt mem)
          \<lparr>smr_next = nx, smr_link = lk, smr_refs = rf, hr_num = k, hr_epochFreq = epochFreq * int n,
           hr_freq = emptyFreq, hr_collect = collect, hr_slots = slots, hr_mem = mem0,
           hr_batches = (\<lambda>i. if i < n
              then (bt i)\<lparr>hb_first := nullptr, hb_counter := 0, hb_list_count := 0, hb_list := nullptr\<rparr>
              else bt i),
           hr_alloc_counters = (\<lambda>_. 0), hr_epoch = 1\<rparr>"
  let ?s = "hr_new n k epochFreq emptyFreq collect cnt mem nx lk rf slots mem0 bt"
  have f0: "hr_fits n k ?z" using assms by (simp add: hr_fits_def base_new_def base.defs)
  have "set [0..<n * k] \<subseteq> {..<n * k}" by auto
  from hr_init_slots_run [OF f0 this] obtain m where i: "hr_init_slots (map (hr_slot k) [0..<n * k]) ?z = ?z\<lparr>hr_mem := m\<rparr>"
    "\<forall>u < n * k. hr_head (?z\<lparr>hr_mem := m\<rparr>) u = (if u \<in> set [0..<n * k] then HR_INVPTR else hr_head ?z u)"
    by blast
  have m: "?s = ?z\<lparr>hr_mem := m\<rparr>" "\<And>u. u < n * k \<Longrightarrow> hr_head (?z\<lparr>hr_mem := m\<rparr>) u = HR_INVPTR"
    using i(1) unfolding hr_new_def hr_locations_eq by (blast, use i(2) in simp)
  have fits: "hr_fits n k ?s" using f0 unfolding m(1) by (simp add: hr_fits_def)
  have p: "pool n (\<lambda>t. []) [] = []" by (simp add: pool_def)
  have "hr_state n k (hr_head ?s) (\<lambda>_. []) [] (\<lambda>_. []) (\<lambda>_. []) ?s"
  proof (rule hr_stateI [OF fits])
    show "smr_inv (n * k) (\<lambda>_. []) [] [] 0 ?s" by (simp add: smr_inv_eq)
    show "hr_slot_ok (smr_next ?s) (hr_head ?s i) []" if "i < n * k" for i
      using m(2) [OF that] unfolding m(1) by (simp add: hr_slot_ok_def)
    show "pend ?s (hr_list ?s t) []" "hr_open ?s t []" if "t < n" for t
      using that unfolding m(1) by (simp_all add: base.defs hr_open_def open_ok_def)
  qed (simp_all add: p)
  moreover have "hr_epoch ?s = 1" "reclaimed ?s = []" unfolding m(1) by (simp_all add: base.defs base_new_def)
  ultimately show ?thesis by (simp add: hr_inv_def hr_idle_def p)
qed

text \<open>A legal history from the constructor, up to some point.\<close>

lemma hr_run_split:
  assumes n: "k \<le> MAX_HR" "256 * n \<le> 2 ^ 64"
    and law: "hr_lawful fuel sz hr_idle (es @ es') (hr_new n k epochFreq emptyFreq collect cnt mem nx lk rf slots mem0 bt)"
    and len: "length es < fuel" "length es + 1 < 2 ^ 64"
  shows "\<exists>s L B F W e. hr_run fuel sz es (hr_new n k epochFreq emptyFreq collect cnt mem nx lk rf slots mem0 bt) = Some s
    \<and> hr_inv n k sz (hr_after es) e L B F W s \<and> e \<le> length es \<and> length (hr_retired (hr_after es)) \<le> length es
    \<and> hr_lawful fuel sz (hr_after es) es' s"
proof -
  have "length (hr_retired hr_idle) + length es < fuel" "0 + length es + 1 < 2 ^ 64"
    using len by (simp_all add: hr_idle_def)
  note law' = hr_lawful_append [OF law]
  from hr_run_inv [OF hr_new_inv [OF n] law' [THEN conjunct1] \<open>length (hr_retired hr_idle) + length es < fuel\<close> \<open>0 + length es + 1 < 2 ^ 64\<close>]
  obtain s L B F W e where r: "hr_run fuel sz es (hr_new n k epochFreq emptyFreq collect cnt mem nx lk rf slots mem0 bt) = Some s"
    "hr_inv n k sz (hr_after es) e L B F W s" "e \<le> 0 + length es" by blast
  moreover have "length (hr_retired (hr_after es)) \<le> length es" using length_hr_after [of hr_idle es] by (simp add: hr_idle_def)
  ultimately show ?thesis using law' [THEN conjunct2] by (metis add_0)
qed

section \<open>Safety\<close>

lemma hr_read_publishes:
  assumes inv: "hr_inv n k sz w e L B F W s" and legal: "hr_legal sz w s (HrRead a j t)"
    and fuel: "length (hr_retired w) + 1 < fuel" and e: "Suc (Suc e) < 2 ^ 64"
  shows "\<exists>s' L' B' F' W' e'. hr_exec fuel sz s (HrRead a j t) = Some s'
    \<and> hr_inv n k sz w e' L' B' F' W' s' \<and> e' \<le> Suc e \<and> hr_seen s' (t * k + j) = hr_epoch s'"
proof -
  note V = hr_invD [OF inv] note S = hr_stateD [OF V(1)]
  have t: "t < n" "j < k" using legal V(5,6) by simp_all
  obtain s' L' B' F' W' e' where run: "hr_exec fuel sz s (HrRead a j t) = Some s'"
    and a: "hr_inv n k sz w e' L' B' F' W' s'" "e' \<le> Suc e"
    using hr_exec_advance [OF inv legal fuel e] unfolding hr_advance_def by auto
  have fu: "length (concat (F t)) + length (concat B) < fuel" by (rule hr_fuel(1) [OF inv fuel t(1)])
  obtain s2 L2 B2 F2 where r: "hr_read (Suc (Suc 0)) fuel sz a j t nullptr (s, []) = Some (cells s a, (s2, []))"
    "hr_step n k sz t {t * k + j} L B F s L2 B2 F2 s2" "hr_seen s2 (t * k + j) = hr_epoch s"
    using hr_read_step [OF V(1) t fu] by blast
  have "s2 = s'" using run r(1) by (simp add: numeral_2_eq_2)
  with r(2,3) hr_kept_same [OF hr_step_kept [OF r(2)]] have "hr_seen s' (t * k + j) = hr_epoch s'" by metis
  with run a show ?thesis by blast
qed

text \<open>C11: Every operation of a legal history returns, and no object is given back that has not been
  retired, nor more often than it has been retired.\<close>

theorem hr_once:
  assumes "0 < epochFreq * int n" "epochFreq * int n < 2 ^ 31" "0 < emptyFreq" "k \<le> MAX_HR" "256 * n \<le> 2 ^ 64"
    and "hr_lawful fuel sz hr_idle es (hr_new n k epochFreq emptyFreq collect cnt mem nx lk rf slots mem0 bt)"
    and "length es < fuel" "length es + 1 < 2 ^ 64"
  shows "\<exists>s. hr_run fuel sz es (hr_new n k epochFreq emptyFreq collect cnt mem nx lk rf slots mem0 bt) = Some s
     \<and> mset (reclaimed s) \<subseteq># mset (hr_retired (hr_after es))"
proof -
  have "length (hr_retired hr_idle) + length es < fuel" "0 + length es + 1 < 2 ^ 64" using assms(7,8) by (simp_all add: hr_idle_def)
  from hr_run_inv [OF hr_new_inv [OF assms(4,5)] assms(6) this]
  obtain s L B F W e where r: "hr_run fuel sz es (hr_new n k epochFreq emptyFreq collect cnt mem nx lk rf slots mem0 bt) = Some s"
    "hr_inv n k sz (hr_after es) e L B F W s" by blast
  have "mset (reclaimed s) \<subseteq># mset (hr_retired (hr_after es))" unfolding hr_invD(3) [OF r(2)] by (rule mset_subset_eq_add_left)
  with r(1) show ?thesis by blast
qed

text \<open>C10: No use after free.  In any legal history thread \<open>t\<close> reads into its slot \<open>j\<close>.  Every operation
  returns, before and after; and if the slot is open after the \<open>read\<close>, no object that was in use at the
  time is reclaimed before the thread reads into that slot again, calls \<open>reserve_slot\<close> for it, or
  clears its slots.\<close>

theorem hr_protects:
  assumes "0 < epochFreq * int n" "epochFreq * int n < 2 ^ 31" "0 < emptyFreq" "k \<le> MAX_HR" "256 * n \<le> 2 ^ 64"
    and "hr_lawful fuel sz hr_idle ((es @ [HrRead a j t]) @ es') (hr_new n k epochFreq emptyFreq collect cnt mem nx lk rf slots mem0 bt)"
    and "length es + length es' + 1 < fuel" "length es + length es' + 2 < 2 ^ 64"
    and "p \<in> hr_live (hr_after es)" "\<forall>ev \<in> set es'. \<not> hr_uses (t, j) ev"
  shows "\<exists>s s' ps. hr_run fuel sz (es @ [HrRead a j t]) (hr_new n k epochFreq emptyFreq collect cnt mem nx lk rf slots mem0 bt) = Some s
     \<and> hr_run fuel sz es' s = Some s' \<and> reclaimed s' = reclaimed s @ ps
     \<and> (hr_mem s (hr_first s (t, j)) \<noteq> HR_INVPTR \<longrightarrow> p \<notin> set ps)"
proof -
  let ?s0 = "hr_new n k epochFreq emptyFreq collect cnt mem nx lk rf slots mem0 bt" let ?w = "hr_after es"
  have law: "hr_lawful fuel sz hr_idle (es @ [HrRead a j t] @ es') ?s0" using assms(6) by simp
  from hr_run_split [OF assms(4,5) law] assms(7,8)
  obtain s1 L1 B1 F1 W1 e1 where r: "hr_run fuel sz es ?s0 = Some s1" "hr_inv n k sz ?w e1 L1 B1 F1 W1 s1" "e1 \<le> length es"
    "length (hr_retired ?w) \<le> length es" "hr_lawful fuel sz ?w ([HrRead a j t] @ es') s1"
    by auto
  have rd: "hr_legal sz ?w s1 (HrRead a j t)" using r(5) by simp
  have b: "length (hr_retired ?w) + 1 < fuel" "Suc (Suc e1) < 2 ^ 64" using r(3,4) assms(7,8) by simp_all
  from hr_read_publishes [OF r(2) rd b] obtain s L2 B2 F2 W2 e2 where q: "hr_exec fuel sz s1 (HrRead a j t) = Some s"
    "hr_inv n k sz ?w e2 L2 B2 F2 W2 s" "e2 \<le> Suc e1" "hr_seen s (t * k + j) = hr_epoch s" by blast
  note V = hr_invD [OF q(2)]
  have t: "t < n" "j < k" using rd hr_invD(5,6) [OF r(2)] by simp_all
  let ?i = "t * k + j"
  have i: "?i < n * k" "hr_slot k ?i = (t, j)" using hr_number_less [OF t] hr_slot_number [OF t(2)] by simp_all
  have law': "hr_lawful fuel sz ?w es' s" using r(5) q(1) by (simp del: hr_exec.simps)
  have l: "length (hr_retired ?w) + length es' < fuel" "e2 + length es' + 1 < 2 ^ 64"
    using r(3,4) assms(7,8) q(3) by simp_all
  from hr_run_inv [OF q(2) law' l] obtain s' ps where f: "hr_run fuel sz es' s = Some s'" "reclaimed s' = reclaimed s @ ps"
    "\<And>i p. i < n * k \<Longrightarrow> \<forall>ev \<in> set es'. \<not> hr_uses (hr_slot k i) ev \<Longrightarrow> hr_holds n sz ?w L2 B2 W2 s i p \<Longrightarrow> p \<notin> set ps"
    by blast
  have "p \<notin> set ps" if "hr_mem s (hr_first s (t, j)) \<noteq> HR_INVPTR"
  proof (rule f(3) [OF i(1)])
    show "\<forall>ev \<in> set es'. \<not> hr_uses (hr_slot k ?i) ev" using assms(10) i(2) by simp
    show "hr_holds n sz ?w L2 B2 W2 s ?i p"
      using that assms(9) V(4) [OF assms(9)] q(4) i(2) by (simp add: hr_holds_def hr_head_def V(6))
  qed
  moreover have "hr_run fuel sz (es @ [HrRead a j t]) ?s0 = Some s" using r(1) q(1) by (simp add: hr_run_append del: hr_exec.simps)
  ultimately show ?thesis using f(1,2) by blast
qed

text \<open>Two threads with a slot each, batches tried after every \<open>retire\<close>.  Thread 0 reads the link at 5.\<close>

definition hr_bt0 :: "nat \<Rightarrow> hr_batch" where
  "hr_bt0 t = \<lparr>hb_min_epoch = 0, hb_first = 0, hb_last = 0, hb_counter = 0, hb_list_count = 0, hb_list = 0\<rparr>"

abbreviation hr_two :: hr where
  "hr_two \<equiv> hr_new 2 1 100 1 True False (\<lambda>_. 16) (\<lambda>_. 0) (\<lambda>_. 0) (\<lambda>_. 0) 4096 (\<lambda>_. 0) hr_bt0"

theorem hr_once_witness:
  "\<exists>s. hr_run 8 8 [HrAlloc 16 1, HrRead 5 0 0, HrRetire 16 1, HrClear 0] hr_two = Some s
     \<and> mset (reclaimed s) \<subseteq># mset (hr_retired (hr_after [HrAlloc 16 1, HrRead 5 0 0, HrRetire 16 1, HrClear 0]))"
proof (rule hr_once)
  show "hr_lawful 8 8 hr_idle [HrAlloc 16 1, HrRead 5 0 0, HrRetire 16 1, HrClear 0] hr_two" by code_simp
qed simp_all

lemma hr_two_reads:
  "(case hr_run 8 8 ([HrAlloc 16 1] @ [HrRead 5 0 0]) hr_two of None \<Rightarrow> False
    | Some s \<Rightarrow> hr_mem s (hr_first s (0, 0)) \<noteq> HR_INVPTR)"
  by code_simp

theorem hr_protects_witness:
  "\<exists>s s' ps. hr_run 8 8 ([HrAlloc 16 1] @ [HrRead 5 0 0]) hr_two = Some s
     \<and> hr_run 8 8 [HrRetire 16 1, HrAlloc 64 1, HrRetire 64 1] s = Some s' \<and> reclaimed s' = reclaimed s @ ps \<and> (16 :: ptr) \<notin> set ps"
proof -
  have "\<exists>s s' ps. hr_run 8 8 ([HrAlloc 16 1] @ [HrRead 5 0 0]) hr_two = Some s
     \<and> hr_run 8 8 [HrRetire 16 1, HrAlloc 64 1, HrRetire 64 1] s = Some s' \<and> reclaimed s' = reclaimed s @ ps
     \<and> (hr_mem s (hr_first s (0, 0)) \<noteq> HR_INVPTR \<longrightarrow> 16 \<notin> set ps)"
  proof (rule hr_protects)
    show "hr_lawful 8 8 hr_idle (([HrAlloc 16 1] @ [HrRead 5 0 0]) @ [HrRetire 16 1, HrAlloc 64 1, HrRetire 64 1]) hr_two"
      by code_simp
  qed (simp_all add: hr_idle_def)
  then show ?thesis using hr_two_reads by (auto split: option.splits)
qed

section \<open>What \<open>clear_all\<close> loses\<close>

lemma hr_clear_all_closed:
  assumes inv: "hr_inv n k sz w e L B F W s" and t: "t < n" and fuel: "length (hr_retired w) + 1 < fuel"
    and run: "hr_exec fuel sz s (HrClear t) = Some s'" and j: "j < k"
  shows "hr_head s' (t * k + j) = HR_INVPTR"
proof -
  note V = hr_invD [OF inv]
  obtain s2 where "hr_clear_all fuel sz t (s, []) = Some (s2, [])" "\<forall>i \<in> {t * k..<t * k + k}. hr_head s2 i = HR_INVPTR"
    using hr_clear_step [OF V(1) t hr_fuel(1) [OF inv fuel t]] by blast
  with run j show ?thesis by simp
qed

text \<open>C12: \<open>clear_all\<close> closes the slots of a thread but leaves their epochs.  In any legal history that ends
  with \<open>clear_all\<close> of thread \<open>t\<close>, while the epoch is the one last published in slot \<open>j\<close> of \<open>t\<close> and the other
  threads' slots are closed: \<open>read\<close> of a link to an object in use returns the object and changes nothing,
  so the slot stays closed; and the next \<open>retire\<close> of it by any thread whose batch is then tried gives it
  back at once, although \<open>t\<close> still holds it.\<close>

theorem hr_clear_unprotects:
  assumes "0 < epochFreq * int n" "epochFreq * int n < 2 ^ 31" "0 < emptyFreq" "k \<le> MAX_HR" "256 * n \<le> 2 ^ 64"
    and "hr_lawful fuel sz hr_idle (es @ [HrClear t]) (hr_new n k epochFreq emptyFreq collect cnt mem nx lk rf slots mem0 bt)"
    and "length es + 2 < fuel" "length es + 3 < 2 ^ 64" "j < k" "v < n" "p \<in> hr_live (hr_after es)"
  shows "\<exists>s. hr_run fuel sz (es @ [HrClear t]) (hr_new n k epochFreq emptyFreq collect cnt mem nx lk rf slots mem0 bt) = Some s
     \<and> (hr_mem s (hr_epoch_addr (hr_first s (t, j))) = hr_epoch s \<and> cells s a = p
          \<and> (\<forall>u < n. u \<noteq> t \<longrightarrow> (\<forall>i < k. hr_mem s (hr_first s (u, i)) = HR_INVPTR))
          \<and> hr_collect s \<and> (hb_counter (hr_batches s v) + 1) mod of_int (hr_freq s) = 0
        \<longrightarrow> hr_read 2 fuel sz a j t nullptr (s, []) = Some (p, (s, []))
          \<and> (\<exists>s' ps. hr_retire fuel sz p v (s, []) = Some (s', []) \<and> reclaimed s' = reclaimed s @ ps \<and> p \<in> set ps))"
proof -
  let ?s0 = "hr_new n k epochFreq emptyFreq collect cnt mem nx lk rf slots mem0 bt" let ?w = "hr_after es"
  from hr_run_split [OF assms(4-6)] assms(7,8)
  obtain s1 L1 B1 F1 W1 e1 where r: "hr_run fuel sz es ?s0 = Some s1" "hr_inv n k sz ?w e1 L1 B1 F1 W1 s1" "e1 \<le> length es"
    "length (hr_retired ?w) \<le> length es" "hr_lawful fuel sz ?w [HrClear t] s1"
    by auto
  have cl: "hr_legal sz ?w s1 (HrClear t)" using r(5) by simp
  then have t: "t < n" using hr_invD(5) [OF r(2)] by simp
  have b: "length (hr_retired ?w) + 1 < fuel" "Suc (Suc e1) < 2 ^ 64" using r(3,4) assms(7,8) by simp_all
  from hr_exec_advance [OF r(2) cl b] obtain s L B F W e where s: "hr_exec fuel sz s1 (HrClear t) = Some s"
    and q: "hr_inv n k sz ?w e L B F W s" unfolding hr_advance_def by auto
  note V = hr_invD [OF q]
  have run: "hr_run fuel sz (es @ [HrClear t]) ?s0 = Some s" using r(1) s by (simp add: hr_run_append del: hr_exec.simps)
  show ?thesis
  proof (rule exI [of _ s], rule conjI [OF run], rule impI, rule conjI)
    assume h: "hr_mem s (hr_epoch_addr (hr_first s (t, j))) = hr_epoch s \<and> cells s a = p
          \<and> (\<forall>u < n. u \<noteq> t \<longrightarrow> (\<forall>i < k. hr_mem s (hr_first s (u, i)) = HR_INVPTR))
          \<and> hr_collect s \<and> (hb_counter (hr_batches s v) + 1) mod of_int (hr_freq s) = 0"
    then show "hr_read 2 fuel sz a j t nullptr (s, []) = Some (p, (s, []))"
      by (simp add: numeral_2_eq_2 hr_read_def load_alone hr_getEpoch_def)
    have closed: "hr_head s i = HR_INVPTR" if i: "i < n * k" for i
    proof -
      obtain u x where u: "i = u * k + x" "u < n" "x < k"
      proof
        show "i = (i div k) * k + i mod k" by simp
        show "i div k < n" by (rule hr_number_bounds(1) [OF i assms(4)])
        show "i mod k < k" using assms(9) by simp
      qed
      show ?thesis
      proof (cases "u = t")
        case True
        then show ?thesis using hr_clear_all_closed [OF r(2) t b(1) s u(3)] u(1) by simp
      next
        case False
        then show ?thesis using h u hr_slot_number [OF u(3), of u] by (simp add: hr_head_def V(6))
      qed
    qed
    have fu: "Suc (length (W v)) < fuel" using hr_fuel(2) [OF q b(1) assms(10)] by simp
    note P = V(4) [OF assms(11)]
    have P': "p \<noteq> nullptr" "hr_node (p + sz)" "p + sz \<notin> set (pool n (hr_own F W) B)" using P by blast+
    have trig: "hr_collect s \<and> (hb_counter (hr_batches s v) + 1) mod of_int (hr_freq s) = 0
         \<and> (\<forall>i < n * k. \<not> hr_takes (hr_min s v (W v) (smr_next s (p + sz))) s i)"
      using h closed by blast
    from hr_retire_step [OF V(1) assms(10) P' fu] obtain s' where s': "hr_retire fuel sz p v (s, []) = Some (s', [])"
      and gives: "hr_collect s \<and> (hb_counter (hr_batches s v) + 1) mod of_int (hr_freq s) = 0
         \<and> (\<forall>i < n * k. \<not> hr_takes (hr_min s v (W v) (smr_next s (p + sz))) s i)
       \<longrightarrow> reclaimed s' = reclaimed s @ map (\<lambda>x. x - sz) ((p + sz) # W v)"
      by (elim exE conjE) (rule that)
    note given = mp [OF gives trig]
    show "\<exists>s' ps. hr_retire fuel sz p v (s, []) = Some (s', []) \<and> reclaimed s' = reclaimed s @ ps \<and> p \<in> set ps"
      by (intro exI [of _ s'] exI [of _ "map (\<lambda>x. x - sz) ((p + sz) # W v)"]) (simp add: s' given)
  qed
qed

text \<open>Thread 0 reads, clears and reads again, and thread 1 retires the object.\<close>

lemma hr_two_cleared:
  "(case hr_run 8 8 ([HrAlloc 16 1, HrRead 5 0 0] @ [HrClear 0]) hr_two of None \<Rightarrow> False
    | Some s \<Rightarrow> hr_mem s (hr_epoch_addr (hr_first s (0, 0))) = hr_epoch s \<and> cells s 5 = 16
        \<and> hr_mem s (hr_first s (1, 0)) = HR_INVPTR \<and> hr_collect s \<and> (hb_counter (hr_batches s 1) + 1) mod of_int (hr_freq s) = 0)"
  by code_simp

theorem hr_clear_unprotects_witness:
  "\<exists>s s' ps. hr_run 8 8 ([HrAlloc 16 1, HrRead 5 0 0] @ [HrClear 0]) hr_two = Some s
     \<and> hr_read 2 8 8 5 0 0 nullptr (s, []) = Some (16, (s, []))
     \<and> hr_retire 8 8 16 1 (s, []) = Some (s', []) \<and> reclaimed s' = reclaimed s @ ps \<and> 16 \<in> set ps"
proof -
  have law: "hr_lawful 8 8 hr_idle ([HrAlloc 16 1, HrRead 5 0 0] @ [HrClear 0]) hr_two" by code_simp
  obtain s where s: "hr_run 8 8 ([HrAlloc 16 1, HrRead 5 0 0] @ [HrClear 0]) hr_two = Some s"
    "hr_mem s (hr_epoch_addr (hr_first s (0, 0))) = hr_epoch s" "cells s 5 = 16"
    "hr_mem s (hr_first s (1, 0)) = HR_INVPTR" "hr_collect s" "(hb_counter (hr_batches s 1) + 1) mod of_int (hr_freq s) = 0"
    using hr_two_cleared by (auto split: option.splits)
  have cl: "\<forall>u < 2. u \<noteq> 0 \<longrightarrow> (\<forall>i < 1. hr_mem s (hr_first s (u, i)) = HR_INVPTR)"
    using s(4) by (auto simp: less_2_cases_iff)
  show ?thesis using hr_clear_unprotects [OF _ _ _ _ _ law, of 0 1 16 5] s cl by (simp add: hr_idle_def)
qed

end
