(* ===== verification/Memory_Tracker.thy ===== *)
theory Memory_Tracker
  imports Rcu Interval Range_New Hazard He Wfe Hyaline_EL Hyaline_OS Hyaline_S Hr
begin

text \<open>
  \<open>trackers/MemoryTracker.hpp\<close>: the front of all trackers.  It picks the tracker by the value of
  the \<open>tracker\<close> variable, calls it through the virtual functions of \<open>BaseTracker\<close>, and renames the
  slots of a thread: the client's slot \<open>idx\<close> is the slot \<open>slot_renamers[tid].ui[idx]\<close> of the tracker,
  and \<open>transfer\<close> swaps two names.  \<open>tracker_vt\<close> is the table of the virtual functions; the table of a
  tracker is that of \<open>BaseTracker\<close> with the functions the class overrides.
\<close>

datatype TrackerType = NIL | RCU_type | Interval_type | Range_type | Range_new_type | QSBR_type | Range_TP_type
  | Hazard_type | Hazard_dynamic | HE_type | WFE_type | HR | WFR | HyalineEL | HyalineSEL | HyalineOEL
  | HyalineOSEL | HyalineELSMALL | HyalineSELSMALL | HyalineTR | HyalineSTR | HyalineOTR | HyalineOSTR

fun tracker_number :: "TrackerType \<Rightarrow> int" where
  "tracker_number NIL = 0"
| "tracker_number RCU_type = 2"
| "tracker_number Interval_type = 4"
| "tracker_number Range_type = 6"
| "tracker_number Range_new_type = 8"
| "tracker_number QSBR_type = 10"
| "tracker_number Range_TP_type = 12"
| "tracker_number Hazard_type = 1"
| "tracker_number Hazard_dynamic = 3"
| "tracker_number HE_type = 5"
| "tracker_number WFE_type = 7"
| "tracker_number HR = 9"
| "tracker_number WFR = 11"
| "tracker_number HyalineEL = 18"
| "tracker_number HyalineSEL = 19"
| "tracker_number HyalineOEL = 20"
| "tracker_number HyalineOSEL = 21"
| "tracker_number HyalineELSMALL = 22"
| "tracker_number HyalineSELSMALL = 23"
| "tracker_number HyalineTR = 14"
| "tracker_number HyalineSTR = 15"
| "tracker_number HyalineOTR = 16"
| "tracker_number HyalineOSTR = 17"

text \<open>The choice of the constructor; \<open>m64\<close> says whether the code is compiled for a 64-bit x86 or
  PowerPC, and \<open>None\<close> is the end of the program by \<open>errexit\<close>.\<close>

definition mt_select :: "bool \<Rightarrow> string \<Rightarrow> TrackerType option" where
  "mt_select m64 tracker_type =
     (let tracker_type = (if tracker_type = '''' then ''RCU'' else tracker_type)
      in if tracker_type = ''NIL'' then Some NIL
         else if tracker_type = ''RCU'' then Some RCU_type
         else if tracker_type = ''HyalineEL'' then Some HyalineEL
         else if tracker_type = ''HyalineSEL'' then Some HyalineSEL
         else if tracker_type = ''HyalineOEL'' then Some HyalineOEL
         else if tracker_type = ''HyalineOSEL'' then Some HyalineOSEL
         else if tracker_type = ''HyalineELSMALL'' then Some HyalineELSMALL
         else if tracker_type = ''HyalineSELSMALL'' then Some HyalineSELSMALL
         else if tracker_type = ''HyalineTR'' then Some HyalineTR
         else if tracker_type = ''HyalineSTR'' then Some HyalineSTR
         else if tracker_type = ''HyalineOTR'' then Some HyalineOTR
         else if tracker_type = ''HyalineOSTR'' then Some HyalineOSTR
         else if tracker_type = ''Range_new'' then Some Range_new_type
         else if tracker_type = ''Hazard'' then Some Hazard_type
         else if tracker_type = ''HE'' then Some HE_type
         else if tracker_type = ''WFE'' then Some WFE_type
         else if tracker_type = ''HR'' then Some HR
         else if tracker_type = ''WFR'' then Some WFR
         else if tracker_type = ''QSBR'' then Some QSBR_type
         else if tracker_type = ''Interval'' then Some Interval_type
         else if \<not> m64 \<and> tracker_type = ''TP'' then Some Range_TP_type
         else None)"

section \<open>The virtual functions\<close>

record 's tracker_vt =
  vt_alloc :: "nat \<Rightarrow> ptr \<Rightarrow> 's world \<Rightarrow> (ptr \<times> 's world) option"
  vt_start :: "nat \<Rightarrow> 's world \<Rightarrow> 's world option"
  vt_end :: "nat \<Rightarrow> 's world \<Rightarrow> 's world option"
  vt_last_end :: "nat \<Rightarrow> 's world \<Rightarrow> 's world option"
  vt_read :: "ptr \<Rightarrow> nat \<Rightarrow> nat \<Rightarrow> ptr \<Rightarrow> 's world \<Rightarrow> (ptr \<times> 's world) option"
  vt_reserve_slot :: "ptr \<Rightarrow> nat \<Rightarrow> nat \<Rightarrow> ptr \<Rightarrow> 's world \<Rightarrow> 's world option"
  vt_release :: "nat \<Rightarrow> nat \<Rightarrow> 's world \<Rightarrow> 's world option"
  vt_clear_all :: "nat \<Rightarrow> 's world \<Rightarrow> 's world option"
  vt_retire :: "ptr \<Rightarrow> nat \<Rightarrow> 's world \<Rightarrow> 's world option"

definition base_vt :: "('a base_scheme) tracker_vt" where
  "base_vt = \<lparr>vt_alloc = (\<lambda>tid blk w. let (p, s) = base_alloc tid blk (fst w) in Some (p, (s, snd w))),
     vt_start = (\<lambda>tid w. Some (own (base_start_op tid) w)),
     vt_end = (\<lambda>tid w. Some (own (base_end_op tid) w)),
     vt_last_end = (\<lambda>tid w. Some (own (base_last_end_op tid) w)),
     vt_read = (\<lambda>obj idx tid node w. Some (base_read obj idx tid node w)),
     vt_reserve_slot = (\<lambda>p idx tid node w. Some (own (base_reserve_slot p idx tid node) w)),
     vt_release = (\<lambda>idx tid w. Some (own (base_release idx tid) w)),
     vt_clear_all = (\<lambda>tid w. Some (own (base_clear_all tid) w)),
     vt_retire = (\<lambda>p tid w. Some (own (base_retire p tid) w))\<rparr>"

definition rcu_vt :: "rcu tracker_vt" where
  "rcu_vt = base_vt\<lparr>vt_alloc := (\<lambda>tid blk w. Some (rcu_alloc tid blk w)),
     vt_start := (\<lambda>tid w. Some (rcu_start_op tid w)),
     vt_end := (\<lambda>tid w. Some (rcu_end_op tid w)),
     vt_retire := (\<lambda>p tid w. Some (rcu_retire p tid w))\<rparr>"

definition iv_vt :: "interval tracker_vt" where
  "iv_vt = base_vt\<lparr>vt_alloc := (\<lambda>tid blk w. Some (iv_alloc tid blk w)),
     vt_start := (\<lambda>tid w. Some (iv_start_op tid w)),
     vt_end := (\<lambda>tid w. Some (iv_end_op tid w)),
     vt_retire := (\<lambda>p tid w. Some (iv_retire p tid w))\<rparr>"

definition rn_vt :: "nat \<Rightarrow> range_new tracker_vt" where
  "rn_vt fuel = base_vt\<lparr>vt_alloc := (\<lambda>tid blk w. Some (rn_alloc tid blk w)),
     vt_start := (\<lambda>tid w. Some (rn_start_op tid w)),
     vt_end := (\<lambda>tid w. Some (rn_end_op tid w)),
     vt_read := (\<lambda>obj idx tid node. rn_read fuel obj tid),
     vt_reserve_slot := (\<lambda>p idx tid node. rn_reserve_slot fuel p tid),
     vt_retire := (\<lambda>p tid w. Some (rn_retire p tid w))\<rparr>"

definition hz_vt :: "nat \<Rightarrow> hazard tracker_vt" where
  "hz_vt fuel = base_vt\<lparr>vt_alloc := (\<lambda>tid blk w. Some (hz_alloc tid blk w)),
     vt_read := (\<lambda>obj idx tid node. hz_read fuel obj idx tid),
     vt_reserve_slot := (\<lambda>p idx tid node w. Some (hz_reserve_slot p idx tid w)),
     vt_clear_all := (\<lambda>tid w. Some (hz_clear_all tid w)),
     vt_retire := (\<lambda>p tid w. Some (hz_retire p tid w))\<rparr>"

definition he_vt :: "nat \<Rightarrow> he tracker_vt" where
  "he_vt fuel = base_vt\<lparr>vt_alloc := (\<lambda>tid blk w. Some (he_alloc tid blk w)),
     vt_read := (\<lambda>obj idx tid node. he_read fuel obj idx tid),
     vt_reserve_slot := (\<lambda>p idx tid node. he_reserve_slot fuel p idx tid),
     vt_clear_all := (\<lambda>tid w. Some (he_clear_all tid w)),
     vt_retire := (\<lambda>p tid w. Some (he_retire p tid w))\<rparr>"

definition wfe_vt :: "nat \<Rightarrow> wfe tracker_vt" where
  "wfe_vt fuel = base_vt\<lparr>vt_alloc := (\<lambda>tid blk. wfe_alloc fuel tid blk),
     vt_read := (\<lambda>obj idx tid node. wfe_read fuel obj idx tid node),
     vt_reserve_slot := (\<lambda>p idx tid node. wfe_reserve_slot fuel p idx tid node),
     vt_clear_all := (\<lambda>tid w. Some (wfe_clear_all tid w)),
     vt_retire := (\<lambda>p tid w. Some (wfe_retire p tid w))\<rparr>"

definition oel_vt :: "nat \<Rightarrow> u64 \<Rightarrow> hyoel tracker_vt" where
  "oel_vt fuel sz = base_vt\<lparr>vt_alloc := (\<lambda>tid blk w. let (p, s) = oel_alloc tid blk (fst w) in Some (p, (s, snd w))),
     vt_start := (\<lambda>tid w. Some (oel_start_op tid w)),
     vt_end := oel_end_op fuel sz,
     vt_last_end := (\<lambda>tid w. Some (own (oel_last_end_op tid) w)),
     vt_retire := oel_retire fuel sz\<rparr>"

definition otr_vt :: "nat \<Rightarrow> u64 \<Rightarrow> hyotr tracker_vt" where
  "otr_vt fuel sz = base_vt\<lparr>vt_alloc := (\<lambda>tid blk w. let (p, s) = otr_alloc tid blk (fst w) in Some (p, (s, snd w))),
     vt_start := (\<lambda>tid w. Some (otr_start_op tid w)),
     vt_end := otr_end_op fuel sz,
     vt_last_end := otr_last_end_op fuel sz,
     vt_retire := otr_retire fuel sz\<rparr>"

definition el_vt :: "el_atomics \<Rightarrow> nat \<Rightarrow> u64 \<Rightarrow> hyel tracker_vt" where
  "el_vt A fuel sz = base_vt\<lparr>vt_alloc := (\<lambda>tid blk w. let (p, s) = el_alloc tid blk (fst w) in Some (p, (s, snd w))),
     vt_start := el_start_op A fuel,
     vt_end := el_end_op A fuel sz,
     vt_last_end := (\<lambda>tid w. Some (own (el_last_end_op tid) w)),
     vt_retire := el_retire A fuel sz\<rparr>"

definition tr_vt :: "tr_atomics \<Rightarrow> nat \<Rightarrow> u64 \<Rightarrow> hytr tracker_vt" where
  "tr_vt A fuel sz = base_vt\<lparr>vt_alloc := (\<lambda>tid blk w. let (p, s) = tr_alloc tid blk (fst w) in Some (p, (s, snd w))),
     vt_start := tr_start_op A fuel,
     vt_end := tr_end_op A fuel sz,
     vt_last_end := tr_last_end_op A fuel sz,
     vt_retire := tr_retire A fuel sz\<rparr>"

text \<open>The \<open>read\<close> of the robust trackers has no parameter \<open>node\<close>, so it overrides nothing: through the
  virtual functions the one of \<open>BaseTracker\<close> is called.\<close>

definition osel_vt :: "nat \<Rightarrow> u64 \<Rightarrow> hyosel tracker_vt" where
  "osel_vt fuel sz = base_vt\<lparr>vt_alloc := (\<lambda>tid blk w. Some (osel_alloc sz tid blk w)),
     vt_start := (\<lambda>tid w. Some (osel_start_op tid w)),
     vt_end := osel_end_op fuel sz,
     vt_last_end := (\<lambda>tid w. Some (own (osel_last_end_op tid) w)),
     vt_retire := osel_retire fuel sz\<rparr>"

definition ostr_vt :: "nat \<Rightarrow> u64 \<Rightarrow> hyostr tracker_vt" where
  "ostr_vt fuel sz = base_vt\<lparr>vt_alloc := (\<lambda>tid blk w. Some (ostr_alloc sz tid blk w)),
     vt_start := (\<lambda>tid w. Some (ostr_start_op tid w)),
     vt_end := ostr_end_op fuel sz,
     vt_last_end := ostr_last_end_op fuel sz,
     vt_retire := ostr_retire fuel sz\<rparr>"

definition sel_vt :: "sel_atomics \<Rightarrow> nat \<Rightarrow> u64 \<Rightarrow> hysel tracker_vt" where
  "sel_vt A fuel sz = base_vt\<lparr>vt_alloc := (\<lambda>tid blk w. Some (sel_alloc sz tid blk w)),
     vt_start := sel_start_op A fuel,
     vt_end := sel_end_op A fuel sz,
     vt_last_end := (\<lambda>tid w. Some (own (sel_last_end_op tid) w)),
     vt_retire := sel_retire A fuel sz\<rparr>"

definition str_vt :: "str_atomics \<Rightarrow> nat \<Rightarrow> u64 \<Rightarrow> hystr tracker_vt" where
  "str_vt A fuel sz = base_vt\<lparr>vt_alloc := (\<lambda>tid blk w. Some (str_alloc sz tid blk w)),
     vt_start := str_start_op A fuel,
     vt_end := str_end_op A fuel sz,
     vt_last_end := str_last_end_op A fuel sz,
     vt_retire := str_retire A fuel sz\<rparr>"

definition hr_vt :: "nat \<Rightarrow> nat \<Rightarrow> u64 \<Rightarrow> hr tracker_vt" where
  "hr_vt rounds fuel sz = base_vt\<lparr>vt_alloc := (\<lambda>tid blk w. Some (hr_alloc sz tid blk w)),
     vt_read := hr_read rounds fuel sz,
     vt_reserve_slot := hr_reserve_slot rounds fuel sz,
     vt_clear_all := hr_clear_all fuel sz,
     vt_retire := hr_retire fuel sz\<rparr>"

section \<open>The members of \<open>MemoryTracker\<close>\<close>

text \<open>\<open>r tid idx\<close> is \<open>slot_renamers[tid].ui[idx]\<close>, an array of the thread \<open>tid\<close>.\<close>

type_synonym renamers = "nat \<Rightarrow> nat \<Rightarrow> nat"

definition mt_renamers :: renamers where
  "mt_renamers = (\<lambda>i j. j)"

definition mt_transfer :: "nat \<Rightarrow> nat \<Rightarrow> nat \<Rightarrow> renamers \<Rightarrow> renamers" where
  "mt_transfer src_idx dst_idx tid r =
     (let tmp = r tid src_idx;
          r = r(tid := (r tid)(src_idx := r tid dst_idx))
      in r(tid := (r tid)(dst_idx := tmp)))"

definition mt_lastExit :: "'s tracker_vt \<Rightarrow> nat \<Rightarrow> 's world \<Rightarrow> 's world option" where
  "mt_lastExit T tid w = vt_last_end T tid w"

definition mt_alloc :: "'s tracker_vt \<Rightarrow> nat \<Rightarrow> ptr \<Rightarrow> 's world \<Rightarrow> (ptr \<times> 's world) option" where
  "mt_alloc T tid blk w = vt_alloc T tid blk w"

text \<open>\<open>rc\<close> is the tracker's \<open>reclaim\<close>, that of \<open>BaseTracker\<close> or the override without the assertion.\<close>

definition mt_reclaim :: "(ptr \<Rightarrow> 'a base_scheme \<Rightarrow> 'a base_scheme) \<Rightarrow> ptr \<Rightarrow> 'a base_scheme \<Rightarrow> 'a base_scheme" where
  "mt_reclaim rc obj s = (if obj \<noteq> nullptr then rc obj s else s)"

definition mt_start_op :: "'s tracker_vt \<Rightarrow> nat \<Rightarrow> 's world \<Rightarrow> 's world option" where
  "mt_start_op T tid w = vt_start T tid w"

definition mt_end_op :: "'s tracker_vt \<Rightarrow> nat \<Rightarrow> 's world \<Rightarrow> 's world option" where
  "mt_end_op T tid w = vt_end T tid w"

definition mt_read :: "'s tracker_vt \<Rightarrow> renamers \<Rightarrow> ptr \<Rightarrow> nat \<Rightarrow> nat \<Rightarrow> ptr \<Rightarrow> 's world \<Rightarrow> (ptr \<times> 's world) option" where
  "mt_read T r obj idx tid node w = vt_read T obj (r tid idx) tid node w"

definition mt_reserve_slot :: "'s tracker_vt \<Rightarrow> ptr \<Rightarrow> nat \<Rightarrow> nat \<Rightarrow> ptr \<Rightarrow> 's world \<Rightarrow> 's world option" where
  "mt_reserve_slot T p slot tid node w = vt_reserve_slot T p slot tid node w"

definition mt_release :: "'s tracker_vt \<Rightarrow> renamers \<Rightarrow> nat \<Rightarrow> nat \<Rightarrow> 's world \<Rightarrow> 's world option" where
  "mt_release T r idx tid w = vt_release T (r tid idx) tid w"

definition mt_clear_all :: "'s tracker_vt \<Rightarrow> nat \<Rightarrow> 's world \<Rightarrow> 's world option" where
  "mt_clear_all T tid w = vt_clear_all T tid w"

definition mt_retire :: "('a base_scheme) tracker_vt \<Rightarrow> ptr \<Rightarrow> nat \<Rightarrow> ('a base_scheme) world
    \<Rightarrow> ('a base_scheme) world option" where
  "mt_retire T obj tid w = (let w = own (inc_retired tid) w in vt_retire T obj tid w)"

definition mt_get_retired_cnt :: "TrackerType \<Rightarrow> nat \<Rightarrow> 'a base_scheme \<Rightarrow> u64" where
  "mt_get_retired_cnt ty tid s = (if tracker_number ty \<noteq> 0 then base_get_retired_cnt tid s else 0)"

section \<open>Sequences of calls\<close>

datatype mt_event = MtAlloc nat ptr | MtStart nat | MtEnd nat | MtLastExit nat | MtRead ptr nat nat ptr
  | MtReserve ptr nat nat ptr | MtRelease nat nat | MtClearAll nat | MtRetire ptr nat | MtTransfer nat nat nat

definition mt_at :: "renamers \<Rightarrow> 's world option \<Rightarrow> (renamers \<times> 's) option" where
  "mt_at r = map_option (\<lambda>w. (r, fst w))"

fun mt_step :: "('a base_scheme) tracker_vt \<Rightarrow> mt_event \<Rightarrow> renamers \<times> 'a base_scheme
    \<Rightarrow> (renamers \<times> 'a base_scheme) option" where
  "mt_step T (MtAlloc tid blk) (r, s) = mt_at r (map_option snd (mt_alloc T tid blk (s, [])))"
| "mt_step T (MtStart tid) (r, s) = mt_at r (mt_start_op T tid (s, []))"
| "mt_step T (MtEnd tid) (r, s) = mt_at r (mt_end_op T tid (s, []))"
| "mt_step T (MtLastExit tid) (r, s) = mt_at r (mt_lastExit T tid (s, []))"
| "mt_step T (MtRead obj idx tid node) (r, s) = mt_at r (map_option snd (mt_read T r obj idx tid node (s, [])))"
| "mt_step T (MtReserve p slot tid node) (r, s) = mt_at r (mt_reserve_slot T p slot tid node (s, []))"
| "mt_step T (MtRelease idx tid) (r, s) = mt_at r (mt_release T r idx tid (s, []))"
| "mt_step T (MtClearAll tid) (r, s) = mt_at r (mt_clear_all T tid (s, []))"
| "mt_step T (MtRetire p tid) (r, s) = mt_at r (mt_retire T p tid (s, []))"
| "mt_step T (MtTransfer src dst tid) (r, s) = Some (mt_transfer src dst tid r, s)"

fun mt_run :: "('a base_scheme) tracker_vt \<Rightarrow> mt_event list \<Rightarrow> renamers \<times> 'a base_scheme
    \<Rightarrow> (renamers \<times> 'a base_scheme) option" where
  "mt_run T [] x = Some x"
| "mt_run T (ev # es) x = Option.bind (mt_step T ev x) (mt_run T es)"

text \<open>The client stays within its \<open>k\<close> slots.\<close>

fun mt_in_bounds :: "nat \<Rightarrow> mt_event \<Rightarrow> bool" where
  "mt_in_bounds k (MtRead obj idx tid node) = (idx < k)"
| "mt_in_bounds k (MtTransfer src dst tid) = (src < k \<and> dst < k)"
| "mt_in_bounds k ev = True"

text \<open>The name that the object read into the slot \<open>i\<close> of thread \<open>t\<close> has after a call, and the calls
  that do not use the slot it is in: a \<open>reserve_slot\<close> names the slot of the tracker itself.\<close>

fun mt_renamed :: "nat \<Rightarrow> nat \<Rightarrow> mt_event \<Rightarrow> nat" where
  "mt_renamed t i (MtTransfer src dst tid) = 
     (if tid = t then if i = src then dst else if i = dst then src else i else i)"
| "mt_renamed t i ev = i"

fun mt_spares :: "renamers \<Rightarrow> nat \<Rightarrow> nat \<Rightarrow> mt_event \<Rightarrow> bool" where
  "mt_spares r t i (MtRead obj idx tid node) = (tid \<noteq> t \<or> idx \<noteq> i)"
| "mt_spares r t i (MtReserve p slot tid node) = (tid \<noteq> t \<or> slot \<noteq> r t i)"
| "mt_spares r t i (MtClearAll tid) = (tid \<noteq> t)"
| "mt_spares r t i ev = True"

fun mt_renames :: "mt_event \<Rightarrow> renamers \<Rightarrow> renamers" where
  "mt_renames (MtTransfer src dst tid) r = mt_transfer src dst tid r"
| "mt_renames ev r = r"

fun mt_unused :: "nat \<Rightarrow> renamers \<Rightarrow> nat \<Rightarrow> nat \<Rightarrow> mt_event list \<Rightarrow> bool" where
  "mt_unused k r t i [] = True"
| "mt_unused k r t i (ev # es) =
     (mt_in_bounds k ev \<and> mt_spares r t i ev \<and> mt_unused k (mt_renames ev r) t (mt_renamed t i ev) es)"

section \<open>The renaming\<close>

lemma mt_transfer_apply: "mt_transfer src dst tid r t i =
   (if t = tid then r tid (if i = src then dst else if i = dst then src else i) else r t i)"
  by (auto simp: mt_transfer_def)

lemma mt_transfer_bij:
  assumes "\<And>t. bij_betw (r t) {..<k} {..<k}" "src < k" "dst < k"
  shows "bij_betw (mt_transfer src dst tid r t) {..<k} {..<k}"
proof -
  let ?f = "\<lambda>i. if i = src then dst else if i = dst then src else (i::nat)"
  have "bij_betw ?f {..<k} {..<k}"
    by (rule bij_betw_byWitness [where f' = ?f]) (use assms(2,3) in auto)
  from bij_betw_trans [OF this assms(1)]
  have "bij_betw (r tid \<circ> ?f) {..<k} {..<k}" .
  moreover have "mt_transfer src dst tid r t = (if t = tid then r tid \<circ> ?f else r t)"
    by (rule ext) (simp add: mt_transfer_apply)
  ultimately show ?thesis using assms(1) by auto
qed

lemma mt_renames_bij:
  "(\<And>t. bij_betw (r t) {..<k} {..<k}) \<Longrightarrow> mt_in_bounds k ev \<Longrightarrow> bij_betw (mt_renames ev r t) {..<k} {..<k}"
  by (cases ev) (auto intro: mt_transfer_bij)

lemma mt_step_renames: "mt_step T ev (r, s) = Some (r', s') \<Longrightarrow> r' = mt_renames ev r"
  by (cases ev) (auto simp: mt_at_def)

lemma mt_run_bij:
  assumes "mt_run T es (r, s) = Some (r', s')" "\<forall>ev \<in> set es. mt_in_bounds k ev"
    and "\<And>t. bij_betw (r t) {..<k} {..<k}"
  shows "bij_betw (r' t) {..<k} {..<k}"
  using assms
proof (induction es arbitrary: r s)
  case (Cons ev es)
  from Cons.prems(1) obtain s1 where "mt_step T ev (r, s) = Some (mt_renames ev r, s1)"
    "mt_run T es (mt_renames ev r, s1) = Some (r', s')"
    by (auto split: bind_splits dest: mt_step_renames)
  with Cons.IH Cons.prems(2) mt_renames_bij [OF Cons.prems(3)] show ?case by simp
qed simp

section \<open>Hazard pointers behind \<open>MemoryTracker\<close>\<close>

lemmas hz_vt_simps = mt_at_def hz_vt_def base_vt_def mt_alloc_def mt_start_op_def mt_end_op_def
  mt_lastExit_def mt_read_def mt_reserve_slot_def mt_release_def mt_clear_all_def mt_retire_def

text \<open>A call is at most one operation of the tracker, before which \<open>retire\<close> counts.\<close>

lemma mt_hz_step:
  assumes "mt_in_bounds k ev" "mt_spares r t i ev" "\<And>t. bij_betw (r t) {..<k} {..<k}" "i < k"
  shows "\<exists>s0 hes. mt_step (hz_vt 1) ev (r, s) = Some (mt_renames ev r, foldl hz_step s0 hes)
    \<and> (s0 = s \<or> (\<exists>u. s0 = inc_retired u s)) \<and> (\<forall>hev \<in> set hes. \<not> hz_touches (t, r t i) hev)"
proof (cases ev)
  case (MtAlloc tid blk)
  then show ?thesis
    by (intro exI [of _ s] exI [of _ "[HAlloc tid blk]"]) (simp add: hz_vt_simps hz_touches_def)
next
  case (MtRead obj idx tid node)
  with assms have "(t, r t i) \<noteq> (tid, r tid idx)"
    using bij_betw_imp_inj_on [OF assms(3) [of t]] by (auto simp: inj_on_def)
  with MtRead show ?thesis
    by (intro exI [of _ s] exI [of _ "[HRead obj (r tid idx) tid]"])
       (simp add: hz_vt_simps hz_touches_def hz_read_run del: One_nat_def hz_read.simps)
next
  case (MtReserve p slot tid node)
  with assms(2) show ?thesis
    by (intro exI [of _ s] exI [of _ "[HReserve p slot tid]"]) (auto simp: hz_vt_simps hz_touches_def)
next
  case (MtClearAll tid)
  with assms(2) show ?thesis
    by (intro exI [of _ s] exI [of _ "[HClear tid]"]) (auto simp: hz_vt_simps hz_touches_def)
next
  case (MtRetire p tid)
  then show ?thesis
    by (intro exI [of _ "inc_retired tid s"] exI [of _ "[HRetire p tid]"])
       (auto simp: hz_vt_simps hz_touches_def own_def)
qed (intro exI [of _ s] exI [of _ "[]"],
     simp add: hz_vt_simps own_def base_start_op_def base_end_op_def base_last_end_op_def base_release_def)+

lemma hz_holds_inc: "hz_holds l p (inc_retired u s) = hz_holds l p s" "reclaimed (inc_retired u s) = reclaimed s"
  by (simp_all add: hz_holds_def inc_retired_def hz_inv_def)

lemma mt_hz_run:
  assumes "mt_unused k r t i es" "\<And>t. bij_betw (r t) {..<k} {..<k}" "i < k" "hz_holds (t, r t i) p s"
  shows "\<exists>r' s' ps. mt_run (hz_vt 1) es (r, s) = Some (r', s') \<and> reclaimed s' = reclaimed s @ ps \<and> p \<notin> set ps"
  using assms
proof (induction es arbitrary: r s i)
  case (Cons ev es)
  from mt_hz_step [of k ev r t i s] Cons.prems obtain s0 hes where
    st: "mt_step (hz_vt 1) ev (r, s) = Some (mt_renames ev r, foldl hz_step s0 hes)"
    and s0: "s0 = s \<or> (\<exists>u. s0 = inc_retired u s)" and nt: "\<forall>hev \<in> set hes. \<not> hz_touches (t, r t i) hev"
    by auto
  have h: "hz_holds (t, r t i) p s0" "reclaimed s0 = reclaimed s"
    using s0 Cons.prems(4) by (auto simp: hz_holds_inc)
  let ?s1 = "foldl hz_step s0 hes"
  have h1: "hz_holds (t, r t i) p ?s1" by (rule hz_grace.ok_run [OF h(1) hz_all_allowed [OF nt]])
  obtain ps where ps: "reclaimed ?s1 = reclaimed s @ ps" "p \<notin> set ps"
    using hz_grace.grace_freed [OF h(1) hz_all_allowed [OF nt]] h(2) by auto
  have name: "mt_renames ev r t (mt_renamed t i ev) = r t i" "mt_renamed t i ev < k"
    using Cons.prems(1,3) by (cases ev; auto simp: mt_transfer_apply)+
  from Cons.IH [of "mt_renames ev r" "mt_renamed t i ev" ?s1] Cons.prems(1) h1 name
    mt_renames_bij [OF Cons.prems(2)]
  obtain r' s' ps' where "mt_run (hz_vt 1) es (mt_renames ev r, ?s1) = Some (r', s')"
    "reclaimed s' = reclaimed ?s1 @ ps'" "p \<notin> set ps'" by auto
  with st ps show ?case by auto
qed simp

section \<open>Properties\<close>

text \<open>C31: The names of the slots.  After any sequence of calls that stays within the \<open>k\<close> slots of a
  thread, whichever tracker is behind, the array of every thread is a permutation of the slots: two
  names never lead to one slot of the tracker.\<close>

theorem mt_renaming_permutes:
  assumes "mt_run T es (mt_renamers, s) = Some (r, s')" "\<forall>ev \<in> set es. mt_in_bounds k ev"
  shows "bij_betw (r tid) {..<k} {..<k}"
  by (rule mt_run_bij [OF assms]) (simp add: mt_renamers_def bij_betw_def)

theorem mt_renaming_permutes_witness:
  "bij_betw (mt_transfer 1 0 0 (mt_transfer 2 1 0 mt_renamers) 0) {..<3} {..<3}"
  using mt_renaming_permutes [of "hz_vt 1" "[MtTransfer 2 1 0, MtTransfer 1 0 0]"
      "hz_new 1 3 1 True False (\<lambda>_. 0)" "mt_transfer 1 0 0 (mt_transfer 2 1 0 mt_renamers)"
      "hz_new 1 3 1 True False (\<lambda>_. 0)" 3 0]
  by simp

text \<open>C30: With hazard pointers, what \<open>read\<close> has returned into the slot named \<open>i\<close> of a thread is not
  reclaimed while the thread keeps it: the slot may be renamed by \<open>transfer\<close> as often as the client
  likes, and is kept as long as no \<open>read\<close> uses the name it has then, no \<open>reserve_slot\<close> uses its number,
  and the thread does not clear its slots.  Every call returns.\<close>

theorem mt_read_protects:
  assumes "\<And>t. bij_betw (r t) {..<hz_slotsPerThread s} {..<hz_slotsPerThread s}" "hz_inv s"
    and "t < task_num s" "i < hz_slotsPerThread s"
    and "mt_read (hz_vt 1) r obj i t node (s, []) = Some (p, (s', []))"
    and "mt_unused (hz_slotsPerThread s) r t i es"
  shows "\<exists>r' s'' ps. mt_run (hz_vt 1) es (r, s') = Some (r', s'') \<and> reclaimed s'' = reclaimed s @ ps
    \<and> hz_mask p \<notin> set ps"
proof -
  have s': "s' = hz_set (t, r t i) (hz_mask p) s"
    using assms(5) by (auto simp: mt_read_def hz_vt_def hz_read_run simp del: hz_read.simps One_nat_def)
  have "r t i < hz_slotsPerThread s" using bij_betwE [OF assms(1) [of t]] assms(4) by auto
  then have "hz_holds (t, r t i) (hz_mask p) s'" "reclaimed s' = reclaimed s"
    using assms(2,3) by (simp_all add: s' hz_holds_def hz_set_def hz_inv_def)
  with mt_hz_run [OF assms(6,1,4) this(1)] show ?thesis by auto
qed

theorem mt_read_protects_witness:
  "\<exists>r' s'' ps. mt_run (hz_vt 1)
       [MtTransfer 0 1 0, MtRead 48 0 0 0, MtRetire 32 1, MtReserve 64 1 0 0, MtRelease 1 0, MtEnd 0, MtRetire 8 1]
       (mt_renamers, hz_set (0, 0) 32 (hz_new 2 2 0 True False (\<lambda>_. 33)))
     = Some (r', s'') \<and> reclaimed s'' = [] @ ps \<and> 32 \<notin> set ps"
  using mt_read_protects [of mt_renamers "hz_new 2 2 0 True False (\<lambda>_. 33)" 0 0 16 0 33
      "hz_set (0, 0) 32 (hz_new 2 2 0 True False (\<lambda>_. 33))"
      "[MtTransfer 0 1 0, MtRead 48 0 0 0, MtRetire 32 1, MtReserve 64 1 0 0, MtRelease 1 0, MtEnd 0, MtRetire 8 1]"]
  by (simp add: mt_read_def hz_vt_def hz_read_alone mt_renamers_def mt_transfer_apply hz_inv_def hz_new_def
      base_new_def base.extend_def hz_set_def hz_mask_def bij_betw_def
      del: mt_run.simps mt_step.simps hz_read.simps)

text \<open>C32: \<open>reserve_slot\<close> does not go through the names.  If the name \<open>j\<close> of a thread leads to the slot
  \<open>i\<close> that protects \<open>q\<close>, and no other slot does, then \<open>reserve_slot\<close> on slot \<open>i\<close>, another name for the
  client, overwrites that slot, and the next scan by the thread that retired \<open>q\<close> reclaims it.\<close>

theorem mt_reserve_slot_unprotects:
  assumes "hz_inv s" "t < task_num s" "j \<noteq> i" "r t j = i" "i < hz_slotsPerThread s"
    and "hz_slots s (t, r t j) = q" "\<And>l. l \<noteq> (t, i) \<Longrightarrow> hz_slots s l \<noteq> q" "p \<noteq> q"
    and "q \<in> set (hz_retired s u)"
    and "mt_reserve_slot (hz_vt fuel) p i t node (s, []) = Some (s', [])"
  shows "hz_protected s q \<and> q \<in> set (reclaimed (solo (hz_empty u) s'))"
proof -
  have "hz_protected s q" using assms(2,4-6) by (auto simp: hz_protected_def)
  have s': "s' = hz_set (t, i) p s"
    using assms(10) by (simp add: mt_reserve_slot_def hz_vt_def hz_reserve_slot_def world_simps)
  have "hz_slots s' l \<noteq> q" for l using assms(7) [of l] assms(8) by (auto simp: s' hz_set_def)
  then have "\<not> hz_protected s' q" by (auto simp: hz_protected_def)
  moreover have "hz_inv s'" "q \<in> set (hz_retired s' u)" using assms(1,9) by (simp_all add: s' hz_set_def hz_inv_def)
  ultimately have "q \<in> set (reclaimed (solo (hz_empty u) s'))" using hz.unprotected_goes [of s' q u] by simp
  with \<open>hz_protected s q\<close> show ?thesis by blast
qed

theorem mt_reserve_slot_unprotects_witness:
  "hz_protected ((hz_set (0, 0) 32 (hz_new 2 2 0 True False (\<lambda>_. 33)))\<lparr>hz_retired := \<lambda>_. [32]\<rparr>) 32
   \<and> 32 \<in> set (reclaimed (solo (hz_empty 1)
       ((hz_set (0, 0) 64 (hz_new 2 2 0 True False (\<lambda>_. 33)))\<lparr>hz_retired := \<lambda>_. [32]\<rparr>)))"
  using mt_reserve_slot_unprotects [of "(hz_set (0, 0) 32 (hz_new 2 2 0 True False (\<lambda>_. 33)))\<lparr>hz_retired := \<lambda>_. [32]\<rparr>"
      0 1 0 "mt_transfer 0 1 0 mt_renamers" 32 64 1 0 0
      "(hz_set (0, 0) 64 (hz_new 2 2 0 True False (\<lambda>_. 33)))\<lparr>hz_retired := \<lambda>_. [32]\<rparr>"]
  by (simp add: mt_reserve_slot_def hz_vt_def hz_reserve_slot_def mt_renamers_def mt_transfer_apply hz_inv_def hz_new_def
      base_new_def base.extend_def hz_set_def world_simps)

end
