(* ===== verification/Front_Robust.thy ===== *)
theory Front_Robust
  imports Memory_Tracker Hyaline_OSEL_Safe
begin

text \<open>
  \<open>HyalineOSELTracker\<close> behind \<open>MemoryTracker\<close>.  The robust library hands a batch to a slot only if the
  access epoch of the slot has reached the birth epochs of the batch, and only \<open>deref\<close> raises access
  epochs.  The \<open>read\<close> that calls \<open>deref\<close> is not the virtual function that \<open>MemoryTracker\<close> calls, so
  behind it no call ever raises an access epoch.
\<close>

section \<open>What the operations of the library leave alone\<close>

text \<open>A quantity \<open>f\<close> of the state that is neither in the nodes nor touched by the callback.\<close>

lemma smr_traverse_frozen:
  assumes f: "\<And>x v s. f (smr_set_next x v s) = f s" "\<And>x v s. f (smr_set_refs x v s) = f s"
    and lv: "\<And>l s ok l' w. lv l (s, []) = Some (ok, l', w) \<Longrightarrow> snd w = [] \<and> f (fst w) = f s"
  shows "smr_traverse fuel lv base check len list th next end (s, []) = Some (ok, l, t, w) \<Longrightarrow>
    snd w = [] \<and> f (fst w) = f s"
proof (induction fuel arbitrary: len list th "next" s)
  case (Suc fuel)
  show ?case
  proof (cases "next = 0 \<or> \<not> check (smr_addr base next) \<or> \<not> check (smr_addr base (smr_link s (smr_addr base next)))")
    case True
    with Suc.prems show ?thesis by (auto simp: Let_def split: if_splits)
  next
    case False
    let ?n = "smr_addr base next" let ?m = "smr_addr base (smr_link s ?n)" let ?s1 = "smr_set_refs ?m (smr_refs s ?m - 1) s"
    let ?s2 = "smr_set_next ?m list ?s1"
    have s12: "f ?s1 = f s" "f ?s2 = f s" by (simp_all add: f)
    have lv2: "snd w = [] \<and> f (fst w) = f s" if "lv l (?s2, []) = Some (ok, l', w)" for l ok l' w
      using lv [OF that] s12 by simp
    have ih: "snd w = [] \<and> f (fst w) = f s"
      if "smr_traverse fuel lv base check le li th' nx end (s', []) = Some (ok, l, t, w)" "f s' = f s" for le li th' nx s'
      using Suc.IH [OF that(1)] that(2) by simp
    show ?thesis
    proof (cases "smr_refs s ?m = 1 \<and> th \<noteq> 0 \<and> th \<le> len + 1")
      case True
      then obtain ok' l' w' where r: "lv (smr_link s ?n) (?s2, []) = Some (ok', l', w')"
        using Suc.prems False by (auto simp: Let_def smr_fetch_add_alone own_alone split: option.splits)
      obtain s' where w': "w' = (s', [])" "f s' = f s" using lv2 [OF r] by (cases w') simp
      from Suc.prems False True r ih [of _ _ _ _ s', OF _ w'(2)] w' show ?thesis
        by (auto simp: Let_def smr_fetch_add_alone own_alone split: if_splits)
    next
      case no: False
      from Suc.prems False no ih [of _ _ _ _ ?s1, OF _ s12(1)] ih [of _ _ _ _ ?s2, OF _ s12(2)] s12 show ?thesis
        by (auto simp: Let_def smr_fetch_add_alone own_alone split: if_splits)
    qed
  qed
qed simp

lemma smr_free_batch_frozen:
  assumes fr: "\<And>x s. f (fr x s) = f s"
  shows "smr_free_batch fuel start fr base (s, []) = Some w \<Longrightarrow> snd w = [] \<and> f (fst w) = f s"
  by (induction fuel arbitrary: start s) (auto simp: Let_def own_alone fr split: if_splits)

lemma smr_free_list_frozen:
  assumes fr: "\<And>x s. f (fr x s) = f s"
  shows "smr_free_list fuel list fr base (s, []) = Some w \<Longrightarrow> snd w = [] \<and> f (fst w) = f s"
proof (induction fuel arbitrary: list s)
  case (Suc fuel)
  show ?case
  proof (cases "list = 0")
    case False
    then obtain w' where r: "smr_free_batch fuel (smr_link s (smr_addr base list)) fr base (s, []) = Some w'"
      using Suc.prems by (auto simp: Let_def split: option.splits)
    obtain s' where w': "w' = (s', [])" "f s' = f s" using smr_free_batch_frozen [of f, OF fr r] by (cases w') simp
    with Suc.prems False r Suc.IH [of "smr_next s (smr_addr base list)" s'] show ?thesis by (simp add: Let_def)
  qed (use Suc.prems in auto)
qed simp

text \<open>The operations of the robust single-width library, for a quantity that is not in the heads.\<close>

lemma lbo_leave_frozen:
  assumes f: "\<And>x v s. f (smr_set_next x v s) = f s" "\<And>x v s. f (smr_set_refs x v s) = f s"
      "\<And>i v s. f (lbo_put_head i v s) = f s" and fr: "\<And>x s. f (fr x s) = f s"
    and run: "lbo_leave fuel vec smr fr base check (s, []) = Some (ok, w)"
  shows "snd w = [] \<and> f (fst w) = f s"
proof -
  let ?s = "lbo_put_head vec 0 s" let ?cur = "lbo_head s vec AND NOT 1"
  obtain ok' l w1 where l: "lbo_leave_list fuel vec base check smr 0 (s, []) = Some (ok', l, w1)"
    using run by (auto simp: lbo_leave_def bsmr_leave_def split: option.splits)
  have "snd w1 = [] \<and> f (fst w1) = f s"
  proof (cases "?cur = 0")
    case True
    with l show ?thesis by (auto simp: lbo_leave_list_def rmw_alone f(3))
  next
    case False
    then obtain t where "smr_traverse fuel (\<lambda>_ _. None) base check 0 0 0 ?cur smr (?s, []) = Some (ok', l, t, w1)"
      using l by (auto simp: lbo_leave_list_def rmw_alone lbo_traverse_eq)
    from smr_traverse_frozen [of f, OF f(1,2) _ this] show ?thesis by (simp add: f(3))
  qed
  then obtain s1 where s1: "w1 = (s1, [])" "f s1 = f s" by (cases w1) simp
  show ?thesis
  proof (cases ok')
    case True
    then have "smr_free_list fuel l fr base (s1, []) = Some w"
      using run l s1 by (auto simp: lbo_leave_def bsmr_leave_def bsmr_free_list_eq)
    from smr_free_list_frozen [of f, OF fr this] s1(2) show ?thesis by simp
  next
    case False
    with run l s1 show ?thesis by (auto simp: lbo_leave_def bsmr_leave_def)
  qed
qed

lemma lbo_slots_frozen:
  assumes f: "\<And>x v s. f (smr_set_next x v s) = f s" "\<And>i v s. f (lbo_put_head i v s) = f s"
  shows "lbo_slots (Suc fuel) 0 e js cur adjs (s, []) = Some (a, w) \<Longrightarrow> snd w = [] \<and> f (fst w) = f s"
proof (induction js arbitrary: cur adjs s)
  case (Cons j js)
  let ?s = "lbo_put_head j (cur OR 1) (smr_set_next cur (lbo_head s j AND NOT 1) s)"
  have "f ?s = f s" by (simp add: f)
  moreover have "lbo_slots (Suc fuel) 0 e js (smr_refs s cur) (adjs + 1) (?s, []) = Some (a, w)
    \<or> lbo_slots (Suc fuel) 0 e js cur adjs (s, []) = Some (a, w)"
    using Cons.prems unfolding osel.slot.slots_Cons Let_def by presburger
  ultimately show ?case using Cons.IH by metis
qed (auto simp: osel.slot.slots_Nil)

lemma smr_adjust_refs_frozen:
  assumes f: "\<And>x v s. f (smr_set_next x v s) = f s" "\<And>x v s. f (smr_set_refs x v s) = f s"
  shows "smr_adjust_refs list prev refs base (s, []) = (l, w) \<Longrightarrow> snd w = [] \<and> f (fst w) = f s"
  by (auto simp: smr_adjust_refs_def Let_def smr_fetch_add_alone own_alone f split: if_splits)

lemma lbo_retire_batch_frozen:
  assumes f: "\<And>x v s. f (smr_set_next x v s) = f s" "\<And>x v s. f (smr_set_refs x v s) = f s"
      "\<And>i v s. f (lbo_put_head i v s) = f s" and fr: "\<And>x s. f (fr x s) = f s"
    and run: "lbo_retire_batch (Suc fuel) fr 0 order first e (s, []) = Some (ok, w)"
  shows "snd w = [] \<and> f (fst w) = f s"
proof -
  obtain a w1 where sl: "lbo_slots (Suc fuel) 0 e [0..<2 ^ order] first 0 (s, []) = Some (a, w1)"
    using run by (auto simp: lbo_retire_batch_def split: option.splits)
  obtain s1 where s1: "w1 = (s1, [])" "f s1 = f s"
    using lbo_slots_frozen [of f, OF f(1,3) sl] by (cases w1) simp
  obtain l w2 where ad: "smr_adjust_refs 0 first a 0 (s1, []) = (l, w2)" by (cases "smr_adjust_refs 0 first a 0 (s1, [])")
  obtain s2 where s2: "w2 = (s2, [])" "f s2 = f s"
    using smr_adjust_refs_frozen [of f, OF f(1,2) ad] s1(2) by (cases w2) simp
  have "smr_free_list (Suc fuel) l fr 0 (s2, []) = Some w"
    using run sl ad s1 s2 by (auto simp: lbo_retire_batch_def bsmr_adjust_refs_eq bsmr_free_list_eq)
  from smr_free_list_frozen [of f, OF fr this] s2(2) show ?thesis by simp
qed

lemma lbo_retire_frozen:
  assumes f: "\<And>x v s. f (smr_set_next x v s) = f s" "\<And>x v s. f (smr_set_refs x v s) = f s"
      "\<And>x v s. f (smr_set_link x v s) = f s" "\<And>i v s. f (lbo_put_head i v s) = f s" and fr: "\<And>x s. f (fr x s) = f s"
    and run: "lbo_retire (Suc fuel) order node fr 0 bt th (s, []) = Some (ok, bt', w)"
  shows "snd w = [] \<and> f (fst w) = f s"
proof -
  let ?e = "bsmr_min bt (smr_next s node)" let ?b = "smr_batch.truncate bt"
  obtain b' where r: "smr_retire (\<lambda>order first. lbo_retire_batch (Suc fuel) fr 0 order first ?e) order node 0 ?b th (s, [])
      = Some (ok, b', w)"
    using run by (auto simp: lbo_retire_def bsmr_retire_eq Let_def)
  have rt: "snd w = [] \<and> f (fst w) = f s'" if "lbo_retire_batch (Suc fuel) fr 0 order x ?e (s', []) = Some (ok, w)" for x s' ok w
    using lbo_retire_batch_frozen [of f, OF f(1,2,4) fr that] .
  show ?thesis using r
    by (auto simp: smr_retire_def Let_def own_alone f split: if_splits option.splits dest!: rt)
qed

section \<open>No call publishes an epoch\<close>

lemma osel_access_fields:
  "bs_access (osel_set_task t g s) = bs_access s" "bs_access (oel_free_node sz x s') = bs_access s'"
  "bs_access (smr_set_next x v s') = bs_access s'" "bs_access (smr_set_refs x v s') = bs_access s'"
  "bs_access (smr_set_link x v s') = bs_access s'" "bs_access (bs_set_global v s') = bs_access s'"
  "bs_access (lbo_put_head i v s'') = bs_access s''" "bs_access (inc_retired t s') = bs_access s'"
  by (simp_all add: osel_set_task_def oel_free_node_def dec_retired_def base_reclaim_def smr_set_next_def smr_set_refs_def
      smr_set_link_def bs_set_global_def lbo_put_head_def inc_retired_def Let_def)

lemma mt_osel_step:
  assumes "mt_step (osel_vt (Suc fuel) sz) ev (r, s) = Some (r', s')"
  shows "bs_access s' = bs_access s"
proof (cases ev)
  case (MtAlloc tid blk)
  let ?c = "hos_counter (osel_taskData s tid)"
  obtain s1 where "bsmr_init_node (blk + sz) ?c (osel_SMR_EFREQ s) (s, []) = (?c + 1, (s1, []))"
    "s1 = smr_set_next (blk + sz) (bs_global s) s
      \<or> s1 = smr_set_next (blk + sz) (bs_global s + 1) (bs_set_global (bs_global s + 1) s)"
    using bsmr_init_node_alone by blast
  with assms MtAlloc show ?thesis
    by (auto simp: mt_at_def mt_alloc_def osel_vt_def osel_alloc_def own_alone osel_access_fields)
next
  case (MtEnd tid)
  then obtain ok w where "lbo_leave (Suc fuel) (hos_enter_num (osel_taskData s tid)) (hos_handle (osel_taskData s tid))
      (oel_free_node sz) 0 LF_DONTCHECK (s, []) = Some (ok, w)" "s' = fst w"
    using assms by (auto simp: mt_at_def mt_end_op_def osel_vt_def osel_end_op_def)
  then show ?thesis using lbo_leave_frozen [of bs_access] by (metis osel_access_fields(2,3,4,7))
next
  case (MtRetire p tid)
  let ?s = "inc_retired tid s"
  show ?thesis
  proof (cases "p = nullptr")
    case True
    with assms MtRetire show ?thesis
      by (auto simp: mt_at_def mt_retire_def osel_vt_def osel_retire_def own_alone osel_access_fields)
  next
    case False
    then obtain ok bt w where "lbo_retire (Suc fuel) (osel_SMR_ORDER ?s) (p + sz) (oel_free_node sz) 0
        (hos_batch (osel_taskData ?s tid)) (osel_SMR_BATCH ?s) (?s, []) = Some (ok, bt, w)"
      "s' = osel_set_batch tid bt (fst w)"
      using assms MtRetire by (auto simp: mt_at_def mt_retire_def osel_vt_def osel_retire_def own_alone own_def)
    then show ?thesis using lbo_retire_frozen [of bs_access] by (metis osel_access_fields(1-5,7,8))
  qed
qed (use assms in \<open>auto simp: mt_at_def mt_start_op_def mt_lastExit_def mt_read_def mt_reserve_slot_def mt_release_def
    mt_clear_all_def osel_vt_def base_vt_def osel_start_op_def lbo_enter_def store_alone own_alone osel_access_fields
    osel_last_end_op_def base_read_def load_alone base_reserve_slot_def base_release_def base_clear_all_def\<close>)

lemma mt_osel_run: "mt_run (osel_vt (Suc fuel) sz) es (r, s) = Some (r', s') \<Longrightarrow> bs_access s' = bs_access s"
proof (induction es arbitrary: r s)
  case (Cons ev es)
  then obtain r1 s1 where "mt_step (osel_vt (Suc fuel) sz) ev (r, s) = Some (r1, s1)"
    "mt_run (osel_vt (Suc fuel) sz) es (r1, s1) = Some (r', s')"
    by (auto split: bind_splits)
  with Cons.IH mt_osel_step show ?case by metis
qed simp

text \<open>C9: Behind \<open>MemoryTracker\<close> the robust tracker protects no reader.  Whatever calls have been made,
  reads included, every access epoch is still the 0 of the constructor; so \<open>__retire\<close> hands a batch
  with a smallest birth epoch \<open>e\<close> between 1 and \<open>2 ^ 63\<close> to no slot and its nodes are reclaimed at
  once, whoever is inside an operation and holds them.\<close>

theorem mt_osel_read_unprotects:
  assumes "mt_run (osel_vt (Suc fuel) sz) es (r, osel_new n epochFreq emptyFreq collect cnt mem nx lk rf gl0 ac0 hd0 td) = Some (r', s)"
    and "0 < e" "e < 2 ^ 63"
  shows "(\<forall>i < 2 ^ calc_next_log2 (of_nat n). bs_access s i = 0)
    \<and> lbo_slots (Suc fuel) 0 e [0..<2 ^ calc_next_log2 (of_nat n)] cur adjs (s, []) = Some (adjs, (s, []))"
proof -
  let ?k = "calc_next_log2 (of_nat n)" let ?s0 = "osel_new n epochFreq emptyFreq collect cnt mem nx lk rf gl0 ac0 hd0 td"
  have "bs_access ?s0 i = 0" if "i < 2 ^ ?k" for i
    using that by (simp add: osel_new_def lbo_init_def bs_set_global_def lbo_init_from_run base_new_def base.defs Let_def)
  then have z: "\<forall>i < 2 ^ ?k. bs_access s i = 0" using mt_osel_run [OF assms(1)] by simp
  have "unat e < 2 ^ 63" using assms(3) by (simp add: word_less_nat_alt)
  then have ge: "\<not> EPOCH_GE 0 e" using EPOCH_le(1) [of 0 e] assms(2) by simp
  have "lbo_slots (Suc fuel) 0 e js cur adjs (s, []) = Some (adjs, (s, []))" if "set js \<subseteq> {..<2 ^ ?k}" for js
    using that
  proof (induction js)
    case (Cons j js)
    then have "bs_access s j = 0" using z by simp
    with ge Cons show ?case unfolding osel.slot.slots_Cons by simp
  qed (simp add: osel.slot.slots_Nil)
  then have "lbo_slots (Suc fuel) 0 e [0..<2 ^ ?k] cur adjs (s, []) = Some (adjs, (s, []))" by (simp add: lessThan_atLeast0)
  with z show ?thesis by blast
qed

text \<open>Thread 0 enters and reads the link 5; a batch of epoch 1 would still pass it by.\<close>

theorem mt_osel_read_unprotects_witness:
  "\<exists>r' s. mt_run (osel_vt (Suc 3) 8) [MtAlloc 1 32, MtStart 0, MtRead 5 0 0 0]
      (mt_renamers, osel_new 2 1 0 True False (\<lambda>_. 32) (\<lambda>_. 0) (\<lambda>_. 0) (\<lambda>_. 0) 0 (\<lambda>_. 0) (\<lambda>_. 0) hos_td0) = Some (r', s)
    \<and> (\<forall>i < 2 ^ calc_next_log2 (of_nat 2). bs_access s i = 0)
    \<and> lbo_slots (Suc 3) 0 1 [0..<2 ^ calc_next_log2 (of_nat 2)] 40 0 (s, []) = Some (0, (s, []))"
proof -
  let ?s0 = "osel_new 2 1 0 True False (\<lambda>_. 32) (\<lambda>_. 0) (\<lambda>_. 0) (\<lambda>_. 0) 0 (\<lambda>_. 0) (\<lambda>_. 0) hos_td0"
  have "\<not> Option.is_none (mt_run (osel_vt (Suc 3) 8) [MtAlloc 1 32, MtStart 0, MtRead 5 0 0 0] (mt_renamers, ?s0))"
    by code_simp
  then obtain r' s where "mt_run (osel_vt (Suc 3) 8) [MtAlloc 1 32, MtStart 0, MtRead 5 0 0 0] (mt_renamers, ?s0) = Some (r', s)"
    by (auto simp: Option.is_none_def)
  with mt_osel_read_unprotects [OF this, of 1 40 0] show ?thesis by (intro exI [of _ r'] exI [of _ s]) simp
qed

end
