(* ===== verification/Mips.thy ===== *)
theory Mips
  imports Llsc
begin

text \<open>
  \<open>hyaline/bits/mips.h\<close>.  \<open>little\<close> is the byte order (\<open>__MIPSEL__\<close>), \<open>le\<close> says whether
  \<open>__LITTLE_ENDIAN__\<close> is defined, \<open>const_p\<close> is what \<open>__builtin_constant_p\<close> answers.  The
  inline assembly of one pass is \<open>llsc\<close>: the load of the second half stands in the delay slot of
  the first branch and is executed on every path.  The arithmetic on the address only makes that
  load depend on the first one.  The jump back to \<open>.E\<close> is recursion with fuel.
\<close>

definition mips_big_init :: "('d::len word \<Rightarrow> 's \<Rightarrow> 's) \<Rightarrow> 'd word \<Rightarrow> 's world \<Rightarrow> 's world" where
  "mips_big_init p val w = own (p val) w"

definition mips_big_load :: "bool \<Rightarrow> ('s \<Rightarrow> 'd::len word) \<Rightarrow> 's world \<Rightarrow> 'd word \<times> 's world" where
  "mips_big_load little g w =
     (let (h0, w) = load (\<lambda>s. word_at little 0 (g s)) w;
          (h1, w) = load (\<lambda>s. word_at little 1 (g s)) w
      in (of_words little h0 h1, w))"

definition MIPS_OPTR :: "bool \<Rightarrow> nat" where
  "MIPS_OPTR little = (if little then 0 else 1)"

definition MIPS_OREF :: "bool \<Rightarrow> nat" where
  "MIPS_OREF little = (if little then 1 else 0)"

text \<open>\<open>__LFMIPS_OP\<close>: the values of \<open>ref\<close> and \<open>ptr\<close>.\<close>

definition mips_op :: "nat \<Rightarrow> bool \<Rightarrow> ('s world \<Rightarrow> bool) \<Rightarrow> ('s \<Rightarrow> 'd::len word) \<Rightarrow> ('d word \<Rightarrow> 's \<Rightarrow> 's) \<Rightarrow> 'd word \<Rightarrow> 's world
    \<Rightarrow> ('d word \<times> 'd word \<times> 's world) option" where
  "mips_op fuel little lost g p arg w =
     map_option (\<lambda>(ref, ptr, ok, w). (ref, ptr, w))
       (llsc_loop fuel little lost g p (MIPS_OREF little) (MIPS_OPTR little) (\<lambda>ref ptr. True) (\<lambda>ref. low (ref + arg)) w)"

text \<open>\<open>__LFMIPS_CMPXCHG\<close>.  The register \<open>result\<close> keeps its value 0 if the first halves differ, it is
  \<open>desired_first\<close> (moved in the delay slot) if the second halves differ, and the success of the
  conditional store otherwise.  The strong form jumps back when the store fails.\<close>

definition mips_cmpxchg_weak :: "bool \<Rightarrow> ('s world \<Rightarrow> bool) \<Rightarrow> ('s \<Rightarrow> 'd::len word) \<Rightarrow> ('d word \<Rightarrow> 's \<Rightarrow> 's) \<Rightarrow> nat \<Rightarrow> nat
    \<Rightarrow> 'd word \<Rightarrow> 'd word \<Rightarrow> 'd word \<Rightarrow> 's world \<Rightarrow> 'd word \<times> 'd word \<times> 'd word \<times> 's world" where
  "mips_cmpxchg_weak little lost g p ofirst osecond arg_first second_reg desired_first w =
     (let (first, second, ok, w) = llsc little lost g p ofirst osecond
              (\<lambda>first second. first = arg_first \<and> second = second_reg) (\<lambda>first. desired_first) w;
          res = (if first \<noteq> arg_first then 0 else if second \<noteq> second_reg then desired_first
                 else if ok then 1 else 0)
      in (first, second, res, w))"

definition mips_cmpxchg_strong :: "nat \<Rightarrow> bool \<Rightarrow> ('s world \<Rightarrow> bool) \<Rightarrow> ('s \<Rightarrow> 'd::len word) \<Rightarrow> ('d word \<Rightarrow> 's \<Rightarrow> 's) \<Rightarrow> nat \<Rightarrow> nat
    \<Rightarrow> 'd word \<Rightarrow> 'd word \<Rightarrow> 'd word \<Rightarrow> 's world \<Rightarrow> ('d word \<times> 'd word \<times> 's world) option" where
  "mips_cmpxchg_strong fuel little lost g p ofirst osecond arg_first second_reg desired_first w =
     map_option (\<lambda>(first, second, ok, w). (first, second, w))
       (llsc_loop fuel little lost g p ofirst osecond
          (\<lambda>first second. first = arg_first \<and> second = second_reg) (\<lambda>first. desired_first) w)"

section \<open>Double words\<close>

text \<open>The special case of a counter that is the constant 0 compares with the register \<open>$0\<close>.\<close>

definition mips_second :: "bool \<Rightarrow> 'd::len word \<Rightarrow> 'd word" where
  "mips_second const_p arg_second = (if const_p \<and> arg_second = 0 then 0 else arg_second)"

definition mips_big_cmpxchgptr_strong :: "bool \<Rightarrow> bool \<Rightarrow> ('s world \<Rightarrow> bool) \<Rightarrow> nat \<Rightarrow> ('s \<Rightarrow> 'd::len word) \<Rightarrow> ('d word \<Rightarrow> 's \<Rightarrow> 's) \<Rightarrow> 'd word \<Rightarrow> 'd word \<Rightarrow> 's world
    \<Rightarrow> (bool \<times> 'd word \<times> 's world) option" where
  "mips_big_cmpxchgptr_strong little const_p lost fuel g p expected desired w =
     (let arg_first = low expected; arg_second = high expected; desired_first = low desired;
          ofirst = MIPS_OPTR little; osecond = MIPS_OREF little
      in map_option (\<lambda>(first, second, w). (first = arg_first \<and> second = arg_second, wide second first, w))
           (mips_cmpxchg_strong fuel little lost g p ofirst osecond arg_first (mips_second const_p arg_second)
              desired_first w))"

definition mips_big_cmpxchgptr_weak :: "bool \<Rightarrow> bool \<Rightarrow> ('s world \<Rightarrow> bool) \<Rightarrow> ('s \<Rightarrow> 'd::len word) \<Rightarrow> ('d word \<Rightarrow> 's \<Rightarrow> 's) \<Rightarrow> 'd word \<Rightarrow> 'd word \<Rightarrow> 's world
    \<Rightarrow> bool \<times> 'd word \<times> 's world" where
  "mips_big_cmpxchgptr_weak little const_p lost g p expected desired w =
     (let arg_first = low expected; arg_second = high expected; desired_first = low desired;
          ofirst = MIPS_OPTR little; osecond = MIPS_OREF little;
          (first, second, res, w) =
            mips_cmpxchg_weak little lost g p ofirst osecond arg_first (mips_second const_p arg_second) desired_first w;
          success = (res \<noteq> 0 \<and> second = arg_second);
          (expected, w) = (if success then (wide second first, w) else mips_big_load little g w)
      in (success, expected, w))"

definition mips_big_cmpxchgref_strong :: "bool \<Rightarrow> ('s world \<Rightarrow> bool) \<Rightarrow> nat \<Rightarrow> ('s \<Rightarrow> 'd::len word) \<Rightarrow> ('d word \<Rightarrow> 's \<Rightarrow> 's) \<Rightarrow> 'd word \<Rightarrow> 'd word \<Rightarrow> 's world
    \<Rightarrow> (bool \<times> 'd word \<times> 's world) option" where
  "mips_big_cmpxchgref_strong little lost fuel g p expected desired w =
     (let arg_first = high expected; arg_second = low expected; desired_first = high desired;
          ofirst = MIPS_OREF little; osecond = MIPS_OPTR little
      in map_option (\<lambda>(first, second, w). (first = arg_first \<and> second = arg_second, wide first second, w))
           (mips_cmpxchg_strong fuel little lost g p ofirst osecond arg_first arg_second desired_first w))"

definition mips_big_cmpxchgref_weak :: "bool \<Rightarrow> ('s world \<Rightarrow> bool) \<Rightarrow> ('s \<Rightarrow> 'd::len word) \<Rightarrow> ('d word \<Rightarrow> 's \<Rightarrow> 's) \<Rightarrow> 'd word \<Rightarrow> 'd word \<Rightarrow> 's world
    \<Rightarrow> bool \<times> 'd word \<times> 's world" where
  "mips_big_cmpxchgref_weak little lost g p expected desired w =
     (let arg_first = high expected; arg_second = low expected; desired_first = high desired;
          ofirst = MIPS_OREF little; osecond = MIPS_OPTR little;
          (first, second, res, w) =
            mips_cmpxchg_weak little lost g p ofirst osecond arg_first arg_second desired_first w;
          success = (res \<noteq> 0 \<and> second = arg_second);
          (expected, w) = (if success then (wide first second, w) else mips_big_load little g w)
      in (success, expected, w))"

text \<open>\<open>addiu\<close>, for a constant below 32768, and \<open>addu\<close> compute the same sum.\<close>

definition mips_big_fetch_add :: "bool \<Rightarrow> ('s world \<Rightarrow> bool) \<Rightarrow> nat \<Rightarrow> ('s \<Rightarrow> 'd::len word) \<Rightarrow> ('d word \<Rightarrow> 's \<Rightarrow> 's) \<Rightarrow> 'd word \<Rightarrow> 's world
    \<Rightarrow> ('d word \<times> 's world) option" where
  "mips_big_fetch_add little lost fuel g p arg w =
     (let arg_ref = high arg
      in map_option (\<lambda>(ref, ptr, w). (wide ref ptr, w)) (mips_op fuel little lost g p arg_ref w))"

section \<open>Reference words\<close>

text \<open>\<open>W\<close> is \<open>LFATOMIC_BIG_WIDTH\<close>.\<close>

definition mips_ref_init :: "nat \<Rightarrow> ('d::len word \<Rightarrow> 's \<Rightarrow> 's) \<Rightarrow> 'd word \<Rightarrow> 's world \<Rightarrow> 's world" where
  "mips_ref_init W p val w = (if LENGTH('d) \<noteq> W then own (p val) w else mips_big_init p val w)"

definition mips_ref_load :: "bool \<Rightarrow> nat \<Rightarrow> ('s \<Rightarrow> 'd::len word) \<Rightarrow> 's world \<Rightarrow> 'd word \<times> 's world" where
  "mips_ref_load little W g w = (if LENGTH('d) \<noteq> W then load g w else mips_big_load little g w)"

definition mips_ref_link :: "bool \<Rightarrow> bool \<Rightarrow> nat \<Rightarrow> ('s \<Rightarrow> 'd::len word) \<Rightarrow> 's world \<Rightarrow> 'h::len word \<times> 's world" where
  "mips_ref_link little le W g w =
     (if LENGTH('d) \<noteq> W
      then let (d, w) = load g w in (ucast (drop_bit lfrptr_shift (d AND NOT lfref_mask)), w)
      else load (\<lambda>s. ucast (word_at little (LFREF_LINK le) (g s))) w)"

definition mips_ref_cmpxchgptr_weak :: "bool \<Rightarrow> bool \<Rightarrow> nat \<Rightarrow> ('s world \<Rightarrow> bool) \<Rightarrow> ('s \<Rightarrow> 'd::len word) \<Rightarrow> ('d word \<Rightarrow> 's \<Rightarrow> 's) \<Rightarrow> 'd word \<Rightarrow> 'd word \<Rightarrow> 's world
    \<Rightarrow> bool \<times> 'd word \<times> 's world" where
  "mips_ref_cmpxchgptr_weak little const_p W lost g p expected desired w =
     (if LENGTH('d) \<noteq> W then cas_weak lost g p expected desired w
      else mips_big_cmpxchgptr_weak little const_p lost g p expected desired w)"

definition mips_ref_cmpxchgptr_strong :: "bool \<Rightarrow> bool \<Rightarrow> nat \<Rightarrow> ('s world \<Rightarrow> bool) \<Rightarrow> nat \<Rightarrow> ('s \<Rightarrow> 'd::len word) \<Rightarrow> ('d word \<Rightarrow> 's \<Rightarrow> 's) \<Rightarrow> 'd word \<Rightarrow> 'd word \<Rightarrow> 's world
    \<Rightarrow> (bool \<times> 'd word \<times> 's world) option" where
  "mips_ref_cmpxchgptr_strong little const_p W lost fuel g p expected desired w =
     (if LENGTH('d) \<noteq> W then Some (cas g p expected desired w)
      else mips_big_cmpxchgptr_strong little const_p lost fuel g p expected desired w)"

definition mips_ref_cmpxchgref_weak :: "bool \<Rightarrow> bool \<Rightarrow> nat \<Rightarrow> ('s world \<Rightarrow> bool) \<Rightarrow> ('s \<Rightarrow> 'd::len word) \<Rightarrow> ('d word \<Rightarrow> 's \<Rightarrow> 's) \<Rightarrow> 'd word \<Rightarrow> 'd word \<Rightarrow> 's world
    \<Rightarrow> bool \<times> 'd word \<times> 's world" where
  "mips_ref_cmpxchgref_weak little const_p W lost g p expected desired w =
     (if LENGTH('d) \<noteq> W then cas_weak lost g p expected desired w
      else mips_big_cmpxchgref_weak little lost g p expected desired w)"

definition mips_ref_cmpxchgref_strong :: "bool \<Rightarrow> bool \<Rightarrow> nat \<Rightarrow> ('s world \<Rightarrow> bool) \<Rightarrow> nat \<Rightarrow> ('s \<Rightarrow> 'd::len word) \<Rightarrow> ('d word \<Rightarrow> 's \<Rightarrow> 's) \<Rightarrow> 'd word \<Rightarrow> 'd word \<Rightarrow> 's world
    \<Rightarrow> (bool \<times> 'd word \<times> 's world) option" where
  "mips_ref_cmpxchgref_strong little const_p W lost fuel g p expected desired w =
     (if LENGTH('d) \<noteq> W then Some (cas g p expected desired w)
      else mips_big_cmpxchgref_strong little lost fuel g p expected desired w)"

definition mips_ref_fetch_add :: "bool \<Rightarrow> nat \<Rightarrow> ('s world \<Rightarrow> bool) \<Rightarrow> nat \<Rightarrow> ('s \<Rightarrow> 'd::len word) \<Rightarrow> ('d word \<Rightarrow> 's \<Rightarrow> 's) \<Rightarrow> 'd word \<Rightarrow> 's world
    \<Rightarrow> ('d word \<times> 's world) option" where
  "mips_ref_fetch_add little W lost fuel g p arg w =
     (if LENGTH('d) \<noteq> W then Some (fetch_add g p arg w) else mips_big_fetch_add little lost fuel g p arg w)"

text \<open>\<open>__LFREF_CMPXCHG_FULL\<close>: \<open>sizeof(dtype_t) <= sizeof(lfatomic_t)\<close>.\<close>

definition mips_LFREF_CMPXCHG_FULL :: "nat \<Rightarrow> nat \<Rightarrow> bool" where
  "mips_LFREF_CMPXCHG_FULL dtype_width atomic_width \<longleftrightarrow> dtype_width \<le> atomic_width"

definition mips_atomics :: "bool \<Rightarrow> bool \<Rightarrow> bool \<Rightarrow> nat \<Rightarrow> nat \<Rightarrow> ('s world \<Rightarrow> bool) \<Rightarrow> ('s, 'd::len word, 'h::len word) lf_atomics" where
  "mips_atomics little le const_p W aw lost = \<lparr>ref_init = mips_ref_init W, ref_load = mips_ref_load little W,
     ref_link = mips_ref_link little le W,
     ref_cmpxchgptr_weak = mips_ref_cmpxchgptr_weak little const_p W lost,
     ref_cmpxchgptr_strong = mips_ref_cmpxchgptr_strong little const_p W lost,
     ref_cmpxchgref_weak = mips_ref_cmpxchgref_weak little const_p W lost,
     ref_cmpxchgref_strong = mips_ref_cmpxchgref_strong little const_p W lost,
     ref_fetch_add = mips_ref_fetch_add little W lost,
     ref_full = mips_LFREF_CMPXCHG_FULL (LENGTH('d)) aw\<rparr>"

section \<open>The contract\<close>

lemma mips_word [simp]:
  "word_at little (MIPS_OPTR little) d = low d" "word_at little (MIPS_OREF little) d = high d"
  "put_word little (MIPS_OPTR little) v d = wide (high d) v"
  "put_word little (MIPS_OREF little) v d = wide v (low d)"
  by (simp_all add: word_at_def put_word_def MIPS_OPTR_def MIPS_OREF_def)

lemma mips_index:
  "MIPS_OPTR little = 0 \<and> MIPS_OREF little = 1 \<or> MIPS_OPTR little = 1 \<and> MIPS_OREF little = 0"
  "MIPS_OREF little = 0 \<and> MIPS_OPTR little = 1 \<or> MIPS_OREF little = 1 \<and> MIPS_OPTR little = 0"
  by (simp_all add: MIPS_OPTR_def MIPS_OREF_def)

lemma mips_big_load_split: "mips_big_load little g w = split_load little g w"
  by (simp add: mips_big_load_def split_load_def)

lemma mips_second_eq [simp]: "mips_second c b = b"
  by (simp add: mips_second_def)

lemma mips_ptr_weak:
  "cas_done g p (new_ptr False) e d w (mips_big_cmpxchgptr_weak little c lost g p e d w)"
proof -
  obtain a b ok w1 where r: "llsc little lost g p (MIPS_OPTR little) (MIPS_OREF little)
      (\<lambda>x y. x = low e \<and> y = high e) (\<lambda>x. low d) w = (a, b, ok, w1)" by (metis prod_cases4)
  show ?thesis
  proof (cases ok)
    case True
    with r llsc_cas [OF _ mips_index(1) [of little], of little lost g p _ "low d" w a b w1 e]
    have "acted g p e (new_ptr False e d) w w1" "a = low e" "b = high e" by (simp_all add: new_ptr_def)
    with acted_done [of g p e "new_ptr False" d w w1] r True show ?thesis
      by (simp add: Let_def mips_big_cmpxchgptr_weak_def mips_cmpxchg_weak_def mips_second_eq)
  next
    case False
    with r have "later w w1" using llsc_no_store(1) by fastforce
    then have "later w (snd (split_load little g w1))" by (meson later_split_load later_trans)
    with r False show ?thesis
      by (auto simp: Let_def mips_big_cmpxchgptr_weak_def mips_cmpxchg_weak_def mips_second_eq mips_big_load_split cas_done_failed
          split: prod.splits)
  qed
qed

lemma mips_ref_weak:
  "cas_done g p (new_ref False) e d w (mips_big_cmpxchgref_weak little lost g p e d w)"
proof -
  obtain a b ok w1 where r: "llsc little lost g p (MIPS_OREF little) (MIPS_OPTR little)
      (\<lambda>x y. x = high e \<and> y = low e) (\<lambda>x. high d) w = (a, b, ok, w1)" by (metis prod_cases4)
  show ?thesis
  proof (cases ok)
    case True
    with r llsc_cas [OF _ mips_index(2) [of little], of little lost g p _ "high d" w a b w1 e]
    have "acted g p e (new_ref False e d) w w1" "a = high e" "b = low e" by (simp_all add: new_ref_def)
    with acted_done [of g p e "new_ref False" d w w1] r True show ?thesis
      by (simp add: Let_def mips_big_cmpxchgref_weak_def mips_cmpxchg_weak_def mips_second_eq)
  next
    case False
    with r have "later w w1" using llsc_no_store(1) by fastforce
    then have "later w (snd (split_load little g w1))" by (meson later_split_load later_trans)
    with r False show ?thesis
      by (auto simp: Let_def mips_big_cmpxchgref_weak_def mips_cmpxchg_weak_def mips_second_eq mips_big_load_split cas_done_failed
          split: prod.splits)
  qed
qed

lemma mips_ptr_strong:
  assumes "mips_big_cmpxchgptr_strong little c lost fuel g p e d w = Some r"
  shows "cas_done g p (new_ptr False) e d w r"
proof -
  obtain a b ok w1 where l: "llsc_loop fuel little lost g p (MIPS_OPTR little) (MIPS_OREF little)
      (\<lambda>x y. x = low e \<and> y = high e) (\<lambda>x. low d) w = Some (a, b, ok, w1)"
    and r: "r = (a = low e \<and> b = high e, wide b a, w1)"
    using assms by (auto simp: mips_big_cmpxchgptr_strong_def mips_cmpxchg_strong_def mips_second_eq Let_def)
  show ?thesis
  proof (cases ok)
    case True
    with l llsc_loop_cas [OF _ mips_index(1) [of little], of fuel little lost g p _ "low d" w a b w1 e]
    have "acted g p e (new_ptr False e d) w w1" "a = low e" "b = high e" by (simp_all add: new_ptr_def)
    with acted_done [of g p e "new_ptr False" d w w1] r show ?thesis by simp
  next
    case False
    then have "ok = False" by simp
    from llsc_loop_no_store [OF l [unfolded this]] r show ?thesis by (auto simp: cas_done_def)
  qed
qed

lemma mips_ref_strong:
  assumes "mips_big_cmpxchgref_strong little lost fuel g p e d w = Some r"
  shows "cas_done g p (new_ref False) e d w r"
proof -
  obtain a b ok w1 where l: "llsc_loop fuel little lost g p (MIPS_OREF little) (MIPS_OPTR little)
      (\<lambda>x y. x = high e \<and> y = low e) (\<lambda>x. high d) w = Some (a, b, ok, w1)"
    and r: "r = (a = high e \<and> b = low e, wide a b, w1)"
    using assms by (auto simp: mips_big_cmpxchgref_strong_def mips_cmpxchg_strong_def mips_second_eq Let_def)
  show ?thesis
  proof (cases ok)
    case True
    with l llsc_loop_cas [OF _ mips_index(2) [of little], of fuel little lost g p _ "high d" w a b w1 e]
    have "acted g p e (new_ref False e d) w w1" "a = high e" "b = low e" by (simp_all add: new_ref_def)
    with acted_done [of g p e "new_ref False" d w w1] r show ?thesis by simp
  next
    case False
    then have "ok = False" by simp
    from llsc_loop_no_store [OF l [unfolded this]] r show ?thesis by (auto simp: cas_done_def)
  qed
qed

lemma mips_strong_returns:
  assumes "length (snd w) < fuel"
  shows "mips_big_cmpxchgptr_strong little c lost fuel g p e d w \<noteq> None"
    and "mips_big_cmpxchgref_strong little lost fuel g p e d w \<noteq> None"
    and "mips_big_fetch_add little lost fuel g p x w \<noteq> None"
  using assms by (simp_all add: mips_big_cmpxchgptr_strong_def mips_big_cmpxchgref_strong_def mips_cmpxchg_strong_def
      mips_big_fetch_add_def mips_op_def llsc_loop_returns Let_def del: not_None_eq)

lemma mips_fetch_add_done:
  fixes g :: "'s \<Rightarrow> 'd::len word"
  assumes "mips_big_fetch_add little lost fuel g p x w = Some (old, w')" "low x = 0" "even (LENGTH('d))"
  shows "\<exists>w1. later w w1 \<and> old = g (fst w1) \<and> w' = (p (old + x) (fst w1), snd w1)"
proof -
  obtain ref ptr ok where l: "llsc_loop fuel little lost g p (MIPS_OREF little) (MIPS_OPTR little) (\<lambda>a b. True)
      (\<lambda>ref. low (ref + high x)) w = Some (ref, ptr, ok, w')" and o: "old = wide ref ptr"
    using assms(1) by (auto simp: mips_big_fetch_add_def mips_op_def)
  from llsc_loop_add [OF l assms(2,3)] have "acted g p (wide ref ptr) (wide ref ptr + x) w w'" by simp
  then show ?thesis unfolding acted_def o by force
qed

lemma mips_alone [simp]:
  "mips_big_cmpxchgptr_weak little c lost g p e d (s, []) =
     (if g s = e then (True, e, (p (new_ptr False e d) s, [])) else (False, g s, (s, [])))"
  "mips_big_cmpxchgref_weak little lost g p e d (s, []) =
     (if g s = e then (True, e, (p (new_ref False e d) s, [])) else (False, g s, (s, [])))"
  "0 < fuel \<Longrightarrow> mips_big_cmpxchgptr_strong little c lost fuel g p e d (s, []) =
     Some (if g s = e then (True, e, (p (new_ptr False e d) s, [])) else (False, g s, (s, [])))"
  by (auto simp: mips_big_cmpxchgptr_weak_def mips_big_cmpxchgref_weak_def mips_big_cmpxchgptr_strong_def
      mips_cmpxchg_weak_def mips_cmpxchg_strong_def mips_second_eq mips_second_eq llsc_alone llsc_loop_alone Let_def
      mips_big_load_split split_load_alone new_ptr_def new_ref_def intro: wide_eq)

lemmas mips_defs = mips_atomics_def mips_ref_init_def mips_ref_load_def mips_ref_link_def mips_ref_cmpxchgptr_weak_def
  mips_ref_cmpxchgptr_strong_def mips_ref_cmpxchgref_weak_def mips_ref_cmpxchgref_strong_def mips_ref_fetch_add_def
  mips_big_init_def mips_big_load_split mips_LFREF_CMPXCHG_FULL_def

text \<open>The 32-bit instance: 64-bit reference words on a machine with 32-bit conditional stores.\<close>

interpretation mips: lf_refs "mips_atomics little little c 64 32 lost :: ('s, 64 word, 32 word) lf_atomics"
  for little c lost
proof unfold_locales
  let ?A = "mips_atomics little little c 64 32 lost :: ('s, 64 word, 32 word) lf_atomics"
  fix g :: "'s \<Rightarrow> 64 word" and w :: "'s world" and fuel p x old w'
  show "\<exists>w1. later w w1 \<and> ref_link ?A g w = (ucast (low (g (fst w1))), w1)"
    by (intro exI [of _ "others w"])
      (simp add: mips_defs load_split lfrptr_shift_def word_at_def LFREF_LINK_def later_others)
  show "\<exists>w1. later w w1 \<and> old = g (fst w1) \<and> w' = (p (old + x) (fst w1), snd w1)"
    if "ref_fetch_add ?A fuel g p x w = Some (old, w')" "low x = 0"
    using that by (intro mips_fetch_add_done [of little lost fuel]) (simp_all add: mips_defs)
qed (simp_all add: mips_defs world_simps later_split_load mips_ptr_weak mips_ref_weak mips_ptr_strong mips_ref_strong
    mips_strong_returns del: not_None_eq)

section \<open>What the header promises\<close>

text \<open>C16: \<open>fetch_add\<close> on the counter returns as soon as the other threads let a conditional store
  through, and it is one atomic addition to the double word, although it stores one half only.\<close>

theorem mips_fetch_add_atomic:
  fixes g :: "'s \<Rightarrow> 64 word"
  assumes "length (snd w) < fuel" "low x = 0"
  shows "\<exists>s en. later w (s, en) \<and> mips_ref_fetch_add little 64 lost fuel g p x w = Some (g s, (p (g s + x) s, en))"
proof -
  let ?A = "mips_atomics little little True 64 32 lost :: ('s, 64 word, 32 word) lf_atomics"
  obtain old w' where r: "ref_fetch_add ?A fuel g p x w = Some (old, w')"
    using mips.add_returns [OF assms(1), of little True lost g p x] by (cases "ref_fetch_add ?A fuel g p x w") auto
  from mips.add_done [OF r assms(2)] r show ?thesis by (auto simp: mips_atomics_def)
qed

lemma mips_fetch_add_atomic_witness:
  "\<exists>s en. later (5 :: 64 word, [\<lambda>s. s + lfref_step, \<lambda>s. 2 * s]) (s, en) \<and>
     mips_ref_fetch_add True 64 (\<lambda>w. True) 3 (\<lambda>s. s) (\<lambda>v s. v) lfref_step (5, [\<lambda>s. s + lfref_step, \<lambda>s. 2 * s])
       = Some (s, (s + lfref_step, en))"
  using mips_fetch_add_atomic [of "(5 :: 64 word, [\<lambda>s. s + lfref_step, \<lambda>s. 2 * s])" 3 lfref_step
      True "\<lambda>w. True" "\<lambda>s. s" "\<lambda>v s. v"] by simp

end
