(* ===== verification/Variants.thy ===== *)
theory Variants
  imports Atomics
begin

text \<open>
  \<open>hyaline/lfsmr.h\<close>, \<open>lfsmro.h\<close>, \<open>lfbsmr.h\<close>, \<open>lfbsmro.h\<close>: which implementation each instance of the
  library takes on an architecture, and the size of its header.  \<open>IMPL1\<close> is the single-width
  variant (\<open>*_cas1.h\<close>), \<open>IMPL2\<close> the double-width one (\<open>*_cas2.h\<close>).  Every member of a slot is
  aligned to a cache line, so it takes one.
\<close>

datatype lf_impl = IMPL1 | IMPL2

definition impl_for :: "lf_arch \<Rightarrow> nat \<Rightarrow> lf_impl" where
  "impl_for a width =
     (if LFATOMIC_BIG_WIDTH a \<ge> width \<and> \<not> LFCMPXCHG_SPLIT a width then IMPL2 else IMPL1)"

definition lfsmr_impl :: "lf_arch \<Rightarrow> lf_impl" where
  "lfsmr_impl a = impl_for a (2 * LFPTR_WIDTH a)"

definition lfsmr32_impl :: "lf_arch \<Rightarrow> lf_impl" where
  "lfsmr32_impl a = impl_for a 64"

definition lfsmr64_impl :: "lf_arch \<Rightarrow> lf_impl option" where
  "lfsmr64_impl a = (if LFATOMIC_WIDTH a \<ge> 64 then Some (impl_for a 128) else None)"

definition lfsmro_impl :: "lf_arch \<Rightarrow> lf_impl" where
  "lfsmro_impl a = IMPL1"

definition lfbsmr_impl :: "lf_arch \<Rightarrow> lf_impl" where
  "lfbsmr_impl a = impl_for a (2 * LFPTR_WIDTH a)"

definition lfbsmr32_impl :: "lf_arch \<Rightarrow> lf_impl" where
  "lfbsmr32_impl a = impl_for a 64"

definition lfbsmr64_impl :: "lf_arch \<Rightarrow> lf_impl option" where
  "lfbsmr64_impl a = (if LFATOMIC_WIDTH a \<ge> 64 then Some (impl_for a 128) else None)"

definition lfbsmro_impl :: "lf_arch \<Rightarrow> lf_impl" where
  "lfbsmro_impl a = IMPL1"

definition LFSMR_SIZE :: "nat \<Rightarrow> nat" where
  "LFSMR_SIZE x = x * LF_CACHE_BYTES + 0"

definition LFSMRO_SIZE :: "nat \<Rightarrow> nat" where
  "LFSMRO_SIZE x = x * LF_CACHE_BYTES + 0"

definition LFBSMR_SIZE :: "lf_impl \<Rightarrow> nat \<Rightarrow> nat" where
  "LFBSMR_SIZE impl x = x * ((if impl = IMPL2 then 3 else 2) * LF_CACHE_BYTES) + LF_CACHE_BYTES"

definition LFBSMRO_SIZE :: "nat \<Rightarrow> nat" where
  "LFBSMRO_SIZE x = x * (2 * LF_CACHE_BYTES) + LF_CACHE_BYTES"

end
