(* ===== verification/Spec2Isabelle.thy ===== *)
theory Spec2Isabelle
  imports Rcu Interval Range_New He Hazard Range Block_Pool Range_TP Wfe Hyaline_O_Safe Hyaline_OTR_Safe Hyaline_OSTR_Safe Hyaline_SEL_Safe Hr_Safe Front_Robust
    Llvm_X86 C11 Ppc Mips Variants
begin

text \<open>
  \<^bold>\<open>Safe memory reclamation in wfsmr: a model and its correctness\<close>

  \<^bold>\<open>The program.\<close>  The repository holds the Hyaline library of memory reclamation (\<open>src/hyaline\<close>, C
  macros) and a benchmark (\<open>src/benchmark\<close>, C++) that compares it with other schemes.  A \<^emph>\<open>tracker\<close> is
  the benchmark's view of a scheme: \<open>alloc\<close>, \<open>start_op\<close>, \<open>read\<close>, \<open>end_op\<close>, \<open>retire\<close>.  A client
  calls it through \<open>MemoryTracker\<close>.  A tracker must not \<open>reclaim\<close> (destroy and free) a retired object as
  long as a thread that was inside an operation, or that has published a reservation, may still use it.

  \<^bold>\<open>The layers, from below, and their theories.\<close>

  \<^descr> Double words: \<open>Atomics\<close> has the widths of \<open>bits/config.h\<close> and the layout of \<open>bits/lf.h\<close>, the record
    \<open>lf_atomics\<close> of the operations the library needs, and the contracts \<open>lf_words\<close> and \<open>lf_refs\<close> every
    implementation keeps.  \<open>Gcc_X86\<close>, \<open>Llvm_X86\<close>, \<open>C11\<close>, \<open>Ppc\<close>, \<open>Mips\<close> model \<open>gcc_x86.h\<close>, \<open>llvm_x86.h\<close>,
    \<open>c11.h\<close>, \<open>ppc.h\<close>, \<open>mips.h\<close> and interpret the contracts; \<open>Llsc\<close> is the load-linked and
    store-conditional sequence that the last two share, instruction by instruction.
  \<^descr> The library: \<open>Smr\<close> is \<open>lfsmr_common.h\<close>, \<open>Lfsmro\<close> its single-width variant \<open>lfsmr_cas1.h\<close>, \<open>Lfsmr\<close>
    the double-width one, \<open>lfsmr_cas2.h\<close>, over any \<open>lf_atomics\<close>; \<open>Bsmr\<close>, \<open>Lfbsmro\<close>, \<open>Lfbsmr\<close> are the robust
    library with birth epochs (\<open>lfbsmr_common.h\<close>, \<open>lfbsmr_cas1.h\<close>, \<open>lfbsmr_cas2.h\<close>); \<open>Variants\<close> says which
    variant the headers \<open>lfsmr.h\<close>, \<open>lfsmro.h\<close>, \<open>lfbsmr.h\<close>, \<open>lfbsmro.h\<close> choose.
  \<^descr> The trackers on the library: \<open>Hyaline_O\<close> (\<open>HyalineOTrackerEL.hpp\<close>, \<open>HyalineOTrackerTR.hpp\<close>,
    \<open>log2.hpp\<close>), \<open>Hyaline_EL\<close> (\<open>HyalineTrackerEL.hpp\<close>, \<open>HyalineTrackerTR.hpp\<close>), \<open>Hyaline_OS\<close>
    (\<open>HyalineOSTrackerEL.hpp\<close>, \<open>HyalineOSTrackerTR.hpp\<close>), \<open>Hyaline_S\<close> (\<open>HyalineSTrackerEL.hpp\<close>,
    \<open>HyalineSTrackerTR.hpp\<close>).
  \<^descr> The other trackers: \<open>Base_Tracker\<close>, \<open>Rcu\<close>, \<open>Interval\<close>, \<open>Range_New\<close>, \<open>He\<close>, \<open>Hazard\<close>, \<open>Wfe\<close> (with
    \<open>dcas.hpp\<close>), \<open>Hr\<close>, \<open>Range\<close> (with \<open>biptr.hpp\<close>), \<open>Range_TP\<close>, each the header of that name; \<open>Block_Pool\<close> is
    the free list \<open>BlockPool.hpp\<close> that \<open>Range_TP\<close> allocates from, and the counted pointer of
    \<open>ConcurrentPrimitives.hpp\<close>.
  \<^descr> The front: \<open>Memory_Tracker\<close> is \<open>MemoryTracker.hpp\<close> over the table of virtual functions of each of
    these trackers; \<open>Front_Robust\<close> looks at the robust tracker behind it.

  \<^bold>\<open>State.\<close>  The state of a component is one record, extended where the code derives or embeds: \<open>base\<close> (the
  members of \<open>BaseTracker\<close>, the links of the client as \<open>cells\<close>, the list \<open>reclaimed\<close> of the objects given
  back), \<open>smr\<close> (the three words of every node), the library's header, the tracker's members.  Arrays are
  functions of the index, addresses are 64-bit words, C++ integers are words of their width.  What memory
  holds before it is written is a parameter of the constructors.

  \<^bold>\<open>Concurrency.\<close>  \<open>Prelude\<close>: an operation runs on a \<open>world\<close>, the state and the list of interferences of
  the other threads still to come; each atomic access first lets one of them act.  Accesses are
  sequentially consistent: memory orders are not modelled.  With an empty list the operation runs alone.
  Theorems named \<open>_interference\<close>, those about the atomic operations and those on termination hold for
  any list, restricted where they say so by what the others do (\<open>rely\<close>).  The theorems on whole histories
  of the Hyaline trackers and of \<open>HRTracker\<close> take each operation as a step: any order of the operations of all threads, no
  interleaving inside one.

  \<^bold>\<open>Loops.\<close>  A loop that may not end has fuel and is \<open>None\<close> when it is used up; the theorems say how much
  is enough: for the walks over lists of nodes more than there are nodes (a history shorter than the fuel
  retires fewer), for a retry loop one round more than there are interferences, 2 for the \<open>deref\<close> of
  a thread that is alone.  A theorem that an operation is right says also that it returns.

  \<^bold>\<open>Contracts and their use.\<close>
  \<^descr> \<open>lf_words\<close>, \<open>lf_refs\<close>: the double-width operations act at one moment.  Provided by the five
    implementations, used by \<open>lfs_lib\<close>.
  \<^descr> \<open>smr_callback\<close>, \<open>lfo_callback\<close>, \<open>lbo_callback\<close>: what \<open>smr_free\<close> may do.  Provided by the trackers.
  \<^descr> \<open>one_slot\<close> (\<open>One_Slot\<close>): a library with one slot per thread; \<open>leave\<close>, \<open>retire\<close> and \<open>trim\<close> free exactly
    the batches no slot refers to.  Both single-width libraries give it (\<open>sublocale\<close>).
    \<open>one_slot_tasks\<close> (\<open>Hyaline_One\<close>) adds the handles of the threads.  \<open>lfs_lib\<close> (\<open>Lfsmr_Inv\<close>) is the same for
    slots that threads share, with the counters of \<open>lfsmr_cas2.h\<close>.  \<open>smr_view\<close> and \<open>lbs_lib\<close>
    (\<open>Lfbsmr_Inv\<close>): \<open>leave\<close> and \<open>retire\<close> of \<open>lfbsmr_cas2.h\<close> commute with the map \<open>lbs_view\<close> that forgets the slots'
    counters, so that their correctness follows from that of \<open>lfs_lib\<close>; \<open>enter\<close> ends in some slot.
  \<^descr> \<open>hy_smr\<close>, \<open>hy_bsmr\<close> (\<open>Hyaline_Smr\<close>, \<open>Hyaline_Bsmr\<close>): a tracker that fills batches by \<open>retire\<close>, without
    and with birth epochs; \<open>place\<close> is the slot whose epoch a thread publishes, which \<open>start_op\<close> may change when
    \<open>moves\<close> holds.  Both give \<open>hy_tracker\<close> (\<open>Hyaline_Safe\<close>), where safety, the bound on what waits and
    that every operation returns are proved once for all legal histories.
  \<^descr> \<open>reclaimer\<close> and \<open>grace\<close> (\<open>Base_Tracker\<close>): what an epoch or hazard based tracker must
    do for protected objects to stay; interpreted by those trackers.

  \<^bold>\<open>What is shown.\<close>  For Hyaline: no object is reclaimed while a thread that was inside when it was retired is
  still inside (\<open>oel_protects\<close>, \<open>otr_protects\<close>, \<open>el_protects\<close>), none twice, and with nobody inside only
  open batches wait (\<open>oel_reclaims\<close>, \<open>el_reclaims\<close>); with birth epochs the same for a thread that has
  read since the object was allocated (\<open>osel_protects\<close>, \<open>ostr_protects\<close>; \<open>sel_protects\<close> where threads share slots and
  their epochs), while a thread that does not read
  holds nothing younger back (\<open>osel_robust\<close>, \<open>sel_robust\<close>).  Behind \<open>MemoryTracker\<close> the robust tracker protects no
  reader, since its \<open>read\<close> does not override the virtual one (\<open>mt_osel_read_unprotects\<close>).  For each
  other tracker: \<open>empty\<close> frees exactly the unprotected entries, also when the others act between its loads,
  and what \<open>read\<close> returned or \<open>start_op\<close> covers stays until it is given up.  For the atomic operations:
  they are one atomic step, and the retry loops end.  \<open>HRTracker\<close> builds its batches and lists as the
  single-width library does, over a fixed number of slots per thread: \<open>Hr_Inv\<close> and \<open>Hr_Retire\<close> carry \<open>smr_inv\<close>
  through its operations, \<open>Hr_Safe\<close> through histories.  A slot protects from a \<open>read\<close> that opened it
  (\<open>hr_protects\<close>) and nothing is reclaimed twice (\<open>hr_once\<close>); in any state after \<open>clear_all\<close> a \<open>read\<close> in
  the epoch the slot had published opens nothing and protects nothing (\<open>hr_clear_unprotects\<close>).  The invariants behind the Hyaline theorems are
  \<open>smr_ginv\<close> (\<open>Smr_Inv\<close>: each reference counter is the number of slots, or the weight of the threads, that
  still refer to the batch) and \<open>inv\<close> of each locale.

  \<^bold>\<open>Not modelled.\<close>  Memory orders and the tearing of plain accesses to data only one thread uses; the tracker
  \<open>WFR\<close>; safety of the trimming trackers with shared slots (\<open>HyalineTR\<close>, \<open>HyalineSTR\<close>), whose operations are
  modelled; the data structures
  under \<open>rideables\<close>, which are clients; the test harness, \<open>optional.hpp\<close> and the scripts, which have
  no logic of reclamation.  \<open>BlockPool::preheat\<close> and the destructors are left out.
\<close>

end
